(* ===== verification/Prelude.thy ===== *)
theory Prelude
  imports Main "HOL-Library.Word" "HOL-Library.Monad_Syntax"
begin

text \<open>
  Shared vocabulary of the development: bytes of C memory, little-endian encoding,
  updates of a memory region, C strings, and the lemma collections the component
  theories add to.

  Conventions.  A C \<^verbatim>\<open>char\<close> is the HOL type \<^typ>\<open>char\<close>.  A C function that can run into
  undefined behaviour (a read or write outside an object, a dereference of
  \<^verbatim>\<open>NULL\<close>) returns an \<^typ>\<open>'a option\<close>: \<^term>\<open>None\<close> is the undefined behaviour,
  \<^term>\<open>Some r\<close> the normal return.  Error codes such as \<open>-1\<close> are ordinary return
  values of type \<^typ>\<open>int\<close>.
\<close>

unbundle bit_operations_syntax

named_theorems mem_simps \<open>reads after writes of the block memory\<close>
named_theorems frame_simps \<open>fields an operation leaves alone\<close>

section \<open>Bytes\<close>

abbreviation NUL :: char where
  "NUL \<equiv> CHR 0x00"

fun dec_le :: "char list \<Rightarrow> nat" where
  "dec_le [] = 0"
| "dec_le (c # cs) = of_char c + 256 * dec_le cs"

fun enc_le :: "nat \<Rightarrow> nat \<Rightarrow> char list" where
  "enc_le 0 n = []"
| "enc_le (Suc k) n = char_of (n mod 256) # enc_le k (n div 256)"

lemma length_enc_le [simp]: "length (enc_le k n) = k"
  by (induction k arbitrary: n) auto

lemma dec_enc_le: "dec_le (enc_le k n) = n mod 256 ^ k"
proof (induction k arbitrary: n)
  case 0
  then show ?case by simp
next
  case (Suc k)
  have "dec_le (enc_le (Suc k) n) = n mod 256 + 256 * (n div 256 mod 256 ^ k)"
    using Suc by simp
  also have "\<dots> = n mod (256 * 256 ^ k)"
    by (metis add.commute mod_mult2_eq)
  finally show ?case by simp
qed

lemma of_char_less: "(of_char c :: nat) < 256"
  by (simp add: of_char_def)

lemma dec_le_less: "dec_le cs < 256 ^ length cs"
proof (induction cs)
  case Nil
  then show ?case by simp
next
  case (Cons c cs)
  have "of_char c + 256 * dec_le cs < 256 * Suc (dec_le cs)"
    using of_char_less [of c] by simp
  also have "\<dots> \<le> 256 * 256 ^ length cs"
    using Cons by (intro mult_le_mono2) simp
  finally show ?case by simp
qed

lemma dec_le_replicate_NUL [simp]: "dec_le (replicate k NUL) = 0"
  by (induction k) (auto simp: of_char_def)

section \<open>Regions of memory\<close>

definition upd_region :: "(nat \<Rightarrow> 'a) \<Rightarrow> nat \<Rightarrow> 'a list \<Rightarrow> nat \<Rightarrow> 'a" where
  "upd_region f a cs = (\<lambda>x. if a \<le> x \<and> x < a + length cs then cs ! (x - a) else f x)"

lemma upd_region_outside [simp]:
  "x < a \<or> a + length cs \<le> x \<Longrightarrow> upd_region f a cs x = f x"
  by (auto simp: upd_region_def)

lemma upd_region_inside:
  "i < length cs \<Longrightarrow> upd_region f a cs (a + i) = cs ! i"
  by (simp add: upd_region_def)

lemma map_upd_region_same [mem_simps]:
  "n = length cs \<Longrightarrow> map (upd_region f a cs) [a..<a + n] = cs"
  by (rule nth_equalityI) (auto simp: upd_region_def)

lemma map_upd_region_disjoint [mem_simps]:
  "b + n \<le> a \<or> a + length cs \<le> b \<Longrightarrow> map (upd_region f a cs) [b..<b + n] = map f [b..<b + n]"
  by auto

section \<open>C strings\<close>

definition cstring :: "char list \<Rightarrow> string" where
  "cstring buf = takeWhile (\<lambda>c. c \<noteq> NUL) buf"

definition is_cstr :: "string \<Rightarrow> bool" where
  "is_cstr s \<longleftrightarrow> NUL \<notin> set s"

lemma cstring_append_NUL [simp]: "is_cstr s \<Longrightarrow> cstring (s @ NUL # t) = s"
  by (induction s) (auto simp: cstring_def is_cstr_def)

lemma cstring_id [simp]: "is_cstr s \<Longrightarrow> cstring s = s"
  by (induction s) (auto simp: cstring_def is_cstr_def)

lemma is_cstr_simps [simp]:
  "is_cstr []" "is_cstr (c # cs) \<longleftrightarrow> c \<noteq> NUL \<and> is_cstr cs"
  "is_cstr (xs @ ys) \<longleftrightarrow> is_cstr xs \<and> is_cstr ys"
  by (auto simp: is_cstr_def)

lemma is_cstr_take [simp]: "is_cstr s \<Longrightarrow> is_cstr (take n s)"
  by (auto simp: is_cstr_def dest: in_set_takeD)

lemma is_cstr_drop [simp]: "is_cstr s \<Longrightarrow> is_cstr (drop n s)"
  by (auto simp: is_cstr_def dest: in_set_dropD)

section \<open>Linear searches\<close>

lemma bounded_Least:
  fixes P :: "nat \<Rightarrow> bool"
  assumes "\<exists>k<n. P k"
  shows "(LEAST k. P k) < n" "P (LEAST k. P k)" "\<And>j. j < (LEAST k. P k) \<Longrightarrow> \<not> P j"
proof -
  from assms obtain k where k: "k < n" "P k" by blast
  show "(LEAST k. P k) < n" using Least_le [of P k] k by simp
  show "P (LEAST k. P k)" using k(2) by (rule LeastI)
  show "\<not> P j" if "j < (LEAST k. P k)" for j using that by (rule not_less_Least)
qed

text \<open>The interface of a search loop \<^verbatim>\<open>for (j = i; j < i + n; j++) if (P(j)) return hit(j);
  return miss;\<close>, the shape of most loops of the code, where reading item \<open>j\<close> is defined
  only if \<open>ok j\<close>.  A loop that unfolds like this one returns the first hit.\<close>

locale bounded_search =
  fixes ok :: "nat \<Rightarrow> bool" and P :: "nat \<Rightarrow> bool" and hit :: "nat \<Rightarrow> 'r" and miss :: 'r
    and loop :: "nat \<Rightarrow> nat \<Rightarrow> 'r"
  assumes loop_0: "loop i 0 = miss"
    and loop_Suc: "ok i \<Longrightarrow> loop i (Suc n) = (if P i then hit i else loop (Suc i) n)"
begin

lemma loop_find:
  assumes "\<And>j. i \<le> j \<Longrightarrow> j < i + n \<Longrightarrow> ok j"
  shows "loop i n = (case find P [i..<i + n] of None \<Rightarrow> miss | Some k \<Rightarrow> hit k)"
  using assms
proof (induction n arbitrary: i)
  case 0
  then show ?case by (simp add: loop_0)
next
  case (Suc n)
  have "[i..<i + Suc n] = i # [Suc i..<Suc i + n]" by (simp add: upt_conv_Cons del: upt_Suc)
  then show ?case
    using Suc.IH [of "Suc i"] Suc.prems loop_Suc [of i n] by (simp del: upt_Suc)
qed

lemma loop_miss:
  assumes "\<And>j. i \<le> j \<Longrightarrow> j < i + n \<Longrightarrow> ok j" "\<And>j. i \<le> j \<Longrightarrow> j < i + n \<Longrightarrow> \<not> P j"
  shows "loop i n = miss"
proof -
  have "find P [i..<i + n] = None" using assms(2) by (auto simp: find_None_iff)
  then show ?thesis using loop_find [OF assms(1)] by simp
qed

end

locale linear_search =
  fixes P :: "nat \<Rightarrow> bool" and hit :: "nat \<Rightarrow> 'r" and miss :: 'r and loop :: "nat \<Rightarrow> nat \<Rightarrow> 'r"
  assumes loop_0: "loop i 0 = miss"
    and loop_Suc: "loop i (Suc n) = (if P i then hit i else loop (Suc i) n)"

sublocale linear_search \<subseteq> total: bounded_search "\<lambda>_. True" P hit miss loop
  by unfold_locales (simp_all add: loop_0 loop_Suc)

context linear_search
begin

lemma loop_miss: "(\<And>j. i \<le> j \<Longrightarrow> j < i + n \<Longrightarrow> \<not> P j) \<Longrightarrow> loop i n = miss"
  by (rule total.loop_miss) simp

lemma loop_hit:
  assumes "P k" "i \<le> k" "k < i + n" "\<And>j. i \<le> j \<Longrightarrow> j < k \<Longrightarrow> \<not> P j"
  shows "loop i n = hit k"
proof -
  have "find P [i..<i + n] = Some k"
    unfolding find_Some_iff
  proof (intro exI [of _ "k - i"] conjI allI impI)
    show "k - i < length [i..<i + n]" "P ([i..<i + n] ! (k - i))" "k = [i..<i + n] ! (k - i)"
      using assms(1-3) by simp_all
    show "\<not> P ([i..<i + n] ! j)" if "j < k - i" for j
      using that assms(2-4) by simp
  qed
  then show ?thesis using total.loop_find [of i n] by simp
qed

lemma loop_cases:
  obtains (miss) "loop i n = miss" "\<And>j. i \<le> j \<Longrightarrow> j < i + n \<Longrightarrow> \<not> P j"
  | (hit) k where "loop i n = hit k" "P k" "i \<le> k" "k < i + n" "\<And>j. i \<le> j \<Longrightarrow> j < k \<Longrightarrow> \<not> P j"
proof (cases "\<exists>k. i \<le> k \<and> k < i + n \<and> P k")
  case True
  define k where "k = (LEAST k. i \<le> k \<and> k < i + n \<and> P k)"
  have k: "i \<le> k" "k < i + n" "P k" using LeastI_ex [OF True] by (simp_all add: k_def)
  have "\<not> P j" if "i \<le> j" "j < k" for j
    using not_less_Least [of j "\<lambda>k. i \<le> k \<and> k < i + n \<and> P k"] that k(2) by (simp add: k_def)
  with k show thesis using hit [of k] loop_hit by blast
next
  case False
  then show thesis using miss loop_miss by blast
qed

text \<open>With the first hit as the least number that satisfies \<open>P\<close>.\<close>

lemma loop_Least:
  "loop 0 n = (if \<exists>k<n. P k then hit (LEAST k. P k) else miss)"
proof (cases "\<exists>k<n. P k")
  case True
  have "loop 0 n = hit (LEAST k. P k)"
  proof (rule loop_hit)
    show "P (LEAST k. P k)" by (rule bounded_Least(2) [OF True])
    show "(LEAST k. P k) < 0 + n" using bounded_Least(1) [OF True] by simp
    show "\<not> P j" if "j < (LEAST k. P k)" for j using that by (rule bounded_Least(3) [OF True])
  qed simp
  then show ?thesis using True by simp
next
  case False
  then show ?thesis using loop_miss [of 0 n] by auto
qed

end

text \<open>Searching a concatenation.\<close>

lemma find_append: "find P (xs @ ys) = (case find P xs of None \<Rightarrow> find P ys | Some x \<Rightarrow> Some x)"
  by (induction xs) auto

lemma find_concat_map:
  "find P (concat (map g xs)) =
     (case find (\<lambda>x. find P (g x) \<noteq> None) xs of None \<Rightarrow> None | Some x \<Rightarrow> find P (g x))"
  by (induction xs) (auto simp: find_append split: option.splits)

section \<open>Options\<close>

lemma bind_SomeE:
  assumes "Option.bind m f = Some r"
  obtains x where "m = Some x" "f x = Some r"
  using assms by (cases m) auto

end
