(* ===== verification/Disk.thy ===== *)
theory Disk
  imports Prelude
begin

text \<open>
  The ram disk partition \<^verbatim>\<open>filesys_struct\<close> of \<^verbatim>\<open>kernelspace/discos.h\<close>: the superblock
  counters, the index nodes, the block bitmap and the data blocks.

  The data blocks are one flat byte array, indexed by the byte offset from
  \<^verbatim>\<open>&discos->data_blocks[0]\<close>, because the C type of a block is a union: the same 256
  bytes are file data, sixteen directory entries (14 name bytes and a two-byte index
  node number) or 64 four-byte block pointers.  Numbers are little endian and pointers
  four bytes wide, as on the 32-bit x86 kernel the module is built for (the sizes in the
  comments of \<^verbatim>\<open>discos.h\<close> hold only there).  A \<^verbatim>\<open>data_block_struct*\<close> is its 32-bit
  address; \<open>discos_addr\<close> is the address \<^verbatim>\<open>vmalloc\<close> returned for the partition.
  An access outside \<^verbatim>\<open>data_blocks\<close> or \<^verbatim>\<open>inodes\<close>, through \<^verbatim>\<open>NULL\<close> in particular, is
  undefined behaviour and yields \<^term>\<open>None\<close>.
\<close>

section \<open>Constants\<close>

abbreviation BLOCK_SIZE :: nat where "BLOCK_SIZE \<equiv> 256"
abbreviation MAX_NUM_FILE :: nat where "MAX_NUM_FILE \<equiv> 1024"
abbreviation INODE_NUM_DIRECT_PTR :: nat where "INODE_NUM_DIRECT_PTR \<equiv> 8"
abbreviation DATA_BLOCKS_NUM :: nat where "DATA_BLOCKS_NUM \<equiv> 7931"
abbreviation RAMDISK_SIZE :: nat where "RAMDISK_SIZE \<equiv> 2097152"
abbreviation PTRS_PER_BLOCK :: nat where "PTRS_PER_BLOCK \<equiv> 64"
abbreviation ENTRIES_PER_BLOCK :: nat where "ENTRIES_PER_BLOCK \<equiv> 16"

text \<open>\<open>DATA_BYTES\<close> is \<^verbatim>\<open>sizeof(discos->data_blocks)\<close>, \<open>DATA_OFFSET\<close> the offset of that
  array in \<^verbatim>\<open>filesys_struct\<close>: one block of superblock, 256 of index nodes, 4 of bitmap.\<close>

abbreviation DATA_BYTES :: nat where "DATA_BYTES \<equiv> 2030336"
abbreviation DATA_OFFSET :: "32 word" where "DATA_OFFSET \<equiv> 66816"

section \<open>Types\<close>

type_synonym ptr = "32 word"

record inode_struct =
  itype :: string
  isize :: "32 word"
  pointers :: "nat \<Rightarrow> ptr"
  single_indirect_ptrs :: ptr
  double_indirect_ptrs :: ptr
  access :: "32 word"

record filesys_struct =
  free_blocks :: "32 word"
  free_inodes :: "32 word"
  inodes :: "nat \<Rightarrow> inode_struct"
  bitmap :: "nat \<Rightarrow> 8 word"
  data_blocks :: "nat \<Rightarrow> char"
  discos_addr :: ptr

definition zero_inode :: inode_struct where
  "zero_inode = \<lparr>itype = '''', isize = 0, pointers = (\<lambda>_. 0), single_indirect_ptrs = 0,
     double_indirect_ptrs = 0, access = 0\<rparr>"

definition zero_filesys :: "ptr \<Rightarrow> filesys_struct" where
  "zero_filesys a = \<lparr>free_blocks = 0, free_inodes = 0, inodes = (\<lambda>_. zero_inode),
     bitmap = (\<lambda>_. 0), data_blocks = (\<lambda>_. NUL), discos_addr = a\<rparr>"

section \<open>Pointers\<close>

definition data_base :: "filesys_struct \<Rightarrow> ptr" where
  "data_base s = discos_addr s + DATA_OFFSET"

text \<open>\<open>blk_addr s b\<close> is \<^verbatim>\<open>&discos->data_blocks[b]\<close>; \<open>ptr_off s p\<close> is the byte offset of
  \<open>p\<close> in the data blocks (a wrapped, out-of-range number for any other address);
  \<open>block_index\<close> is the pointer subtraction \<^verbatim>\<open>p - &discos->data_blocks[0]\<close>.\<close>

definition blk_addr :: "filesys_struct \<Rightarrow> nat \<Rightarrow> ptr" where
  "blk_addr s b = data_base s + of_nat (BLOCK_SIZE * b)"

definition ptr_off :: "filesys_struct \<Rightarrow> ptr \<Rightarrow> nat" where
  "ptr_off s p = unat (p - data_base s)"

definition block_index :: "filesys_struct \<Rightarrow> ptr \<Rightarrow> int option" where
  "block_index s p =
     (if ptr_off s p < DATA_BYTES then Some (int (ptr_off s p div BLOCK_SIZE)) else None)"

text \<open>What the C code relies on of \<^verbatim>\<open>vmalloc\<close>: a non-null region that does not wrap.\<close>

definition region_ok :: "filesys_struct \<Rightarrow> bool" where
  "region_ok s \<longleftrightarrow> discos_addr s \<noteq> 0 \<and> unat (discos_addr s) + RAMDISK_SIZE \<le> 2 ^ 32"

section \<open>Memory accesses\<close>

definition load_bytes :: "filesys_struct \<Rightarrow> nat \<Rightarrow> nat \<Rightarrow> char list option" where
  "load_bytes s a n =
     (if a + n \<le> DATA_BYTES then Some (map (data_blocks s) [a..<a + n]) else None)"

definition store_bytes :: "filesys_struct \<Rightarrow> nat \<Rightarrow> char list \<Rightarrow> filesys_struct option" where
  "store_bytes s a cs =
     (if a + length cs \<le> DATA_BYTES
      then Some (s\<lparr>data_blocks := upd_region (data_blocks s) a cs\<rparr>) else None)"

definition load_char :: "filesys_struct \<Rightarrow> nat \<Rightarrow> char option" where
  "load_char s a = (if a < DATA_BYTES then Some (data_blocks s a) else None)"

definition store_char :: "filesys_struct \<Rightarrow> nat \<Rightarrow> char \<Rightarrow> filesys_struct option" where
  "store_char s a c =
     (if a < DATA_BYTES then Some (s\<lparr>data_blocks := (data_blocks s)(a := c)\<rparr>) else None)"

definition memset0 :: "filesys_struct \<Rightarrow> nat \<Rightarrow> nat \<Rightarrow> filesys_struct option" where
  "memset0 s a n = store_bytes s a (replicate n NUL)"

text \<open>The three views of a block: \<^verbatim>\<open>block->data[j]\<close> is the byte at \<open>ptr_off s p + j\<close>,
  \<^verbatim>\<open>&block->entries[j]\<close> the offset \<open>entry_addr s p j\<close>, and \<^verbatim>\<open>block->index_block[i]\<close> the
  four bytes at \<open>ptr_off s p + 4 * i\<close>.\<close>

definition entry_addr :: "filesys_struct \<Rightarrow> ptr \<Rightarrow> nat \<Rightarrow> nat" where
  "entry_addr s p j = ptr_off s p + 16 * j"

definition load_index :: "filesys_struct \<Rightarrow> ptr \<Rightarrow> nat \<Rightarrow> ptr option" where
  "load_index s p i =
     map_option (\<lambda>cs. of_nat (dec_le cs)) (load_bytes s (ptr_off s p + 4 * i) 4)"

definition store_index :: "filesys_struct \<Rightarrow> ptr \<Rightarrow> nat \<Rightarrow> ptr \<Rightarrow> filesys_struct option" where
  "store_index s p i q = store_bytes s (ptr_off s p + 4 * i) (enc_le 4 (unat q))"

definition load_inode_num :: "filesys_struct \<Rightarrow> nat \<Rightarrow> nat option" where
  "load_inode_num s e = map_option dec_le (load_bytes s (e + 14) 2)"

definition store_inode_num :: "filesys_struct \<Rightarrow> nat \<Rightarrow> nat \<Rightarrow> filesys_struct option" where
  "store_inode_num s e n = store_bytes s (e + 14) (enc_le 2 n)"

text \<open>\<^verbatim>\<open>strcmp(p, found) == 0\<close> for a string in the data blocks: bytes are read one by one up
  to the first difference or the terminating NUL.\<close>

fun strcmp_eq :: "filesys_struct \<Rightarrow> nat \<Rightarrow> string \<Rightarrow> bool option" where
  "strcmp_eq s a [] = map_option (\<lambda>b. b = NUL) (load_char s a)"
| "strcmp_eq s a (c # cs) = do {
     b \<leftarrow> load_char s a;
     if b = c then strcmp_eq s (Suc a) cs else Some False
   }"

definition strcpy_to :: "filesys_struct \<Rightarrow> nat \<Rightarrow> string \<Rightarrow> filesys_struct option" where
  "strcpy_to s a str = store_bytes s a (str @ [NUL])"

definition get_inode :: "filesys_struct \<Rightarrow> nat \<Rightarrow> inode_struct option" where
  "get_inode s n = (if n < MAX_NUM_FILE then Some (inodes s n) else None)"

definition set_inode :: "filesys_struct \<Rightarrow> nat \<Rightarrow> inode_struct \<Rightarrow> filesys_struct" where
  "set_inode s n ino = s\<lparr>inodes := (inodes s)(n := ino)\<rparr>"

section \<open>Pointer arithmetic\<close>

lemma region_data_base:
  assumes "region_ok s"
  shows "unat (data_base s) = unat (discos_addr s) + 66816"
proof -
  have "unat (discos_addr s) + 66816 < 2 ^ 32"
    using assms by (simp add: region_ok_def)
  then show ?thesis
    by (simp add: data_base_def unat_word_ariths)
qed

lemma ptr_off_blk_addr [simp]: "b < DATA_BLOCKS_NUM \<Longrightarrow> ptr_off s (blk_addr s b) = BLOCK_SIZE * b"
  by (simp add: ptr_off_def blk_addr_def unat_of_nat del: of_nat_mult)

lemma blk_addr_inj: "b < DATA_BLOCKS_NUM \<Longrightarrow> c < DATA_BLOCKS_NUM \<Longrightarrow> blk_addr s b = blk_addr s c \<longleftrightarrow> b = c"
  by (metis mult_cancel1 ptr_off_blk_addr zero_neq_numeral)

lemma blk_addr_nonzero:
  assumes "region_ok s" "b < DATA_BLOCKS_NUM"
  shows "blk_addr s b \<noteq> 0"
proof -
  have "unat (data_base s) + BLOCK_SIZE * b < 2 ^ 32"
    using assms by (simp add: region_data_base region_ok_def)
  then have "unat (blk_addr s b) = unat (data_base s) + BLOCK_SIZE * b"
    by (simp add: blk_addr_def unat_word_ariths unat_of_nat del: of_nat_mult)
  then have "0 < unat (blk_addr s b)"
    using region_data_base [OF assms(1)] by simp
  then show ?thesis by auto
qed

lemma block_index_blk_addr [simp]:
  "b < DATA_BLOCKS_NUM \<Longrightarrow> block_index s (blk_addr s b) = Some (int b)"
  by (simp add: block_index_def)

section \<open>Reads after writes\<close>

lemma load_store_index:
  assumes "store_index s p i q = Some s'"
  shows "load_index s' p i = Some q"
proof -
  have eq: "data_blocks s' = upd_region (data_blocks s) (ptr_off s p + 4 * i) (enc_le 4 (unat q))"
    and off: "ptr_off s' p = ptr_off s p" and bound: "ptr_off s p + 4 * i + 4 \<le> DATA_BYTES"
    using assms by (auto simp: store_index_def store_bytes_def ptr_off_def data_base_def split: if_splits)
  have "unat q mod 256 ^ 4 = unat q"
    using unsigned_less [of q, where ?'a = nat] by simp
  then have "of_nat (dec_le (enc_le 4 (unat q))) = q"
    by (simp only: dec_enc_le) simp
  then show ?thesis
    using bound by (simp add: load_index_def load_bytes_def off eq map_upd_region_same del: upt_Suc enc_le.simps dec_le.simps)
qed

lemma load_store_inode_num:
  assumes "store_inode_num s e n = Some s'" "n < 65536"
  shows "load_inode_num s' e = Some n"
proof -
  have eq: "data_blocks s' = upd_region (data_blocks s) (e + 14) (enc_le 2 n)"
    and bound: "e + 14 + 2 \<le> DATA_BYTES"
    using assms by (auto simp: store_inode_num_def store_bytes_def split: if_splits)
  have "dec_le (enc_le 2 n) = n"
    using assms(2) by (simp only: dec_enc_le) simp
  then show ?thesis
    using bound map_upd_region_same [of 2 "enc_le 2 n" "data_blocks s" "e + 14"]
    by (simp add: load_inode_num_def load_bytes_def eq del: upt_Suc enc_le.simps dec_le.simps)
qed

end
