(* ===== verification/Bitmap.thy ===== *)
theory Bitmap
  imports Disk
begin

text \<open>
  The block bitmap: \<^verbatim>\<open>get_free_block_num_from_bitmap\<close>, \<^verbatim>\<open>set_bitmap\<close>, \<^verbatim>\<open>clear_bitmap\<close> and
  \<^verbatim>\<open>allocate_data_block\<close> of \<^verbatim>\<open>kernelspace/discos.c\<close>.  A data block is in use when its bit
  is set.
\<close>

section \<open>Definitions\<close>

text \<open>The first loop: the first byte of the map that is not 255.  \<open>find_free_byte m i n\<close>
  is the loop from index \<open>i\<close> with \<open>n\<close> iterations left.\<close>

fun find_free_byte :: "(nat \<Rightarrow> 8 word) \<Rightarrow> nat \<Rightarrow> nat \<Rightarrow> nat option" where
  "find_free_byte m i 0 = None"
| "find_free_byte m i (Suc n) = (if m i \<noteq> 255 then Some i else find_free_byte m (Suc i) n)"

text \<open>The second loop: the first zero bit of that byte, shifting it right; if the loop runs
  out \<open>free_bit\<close> keeps its initial value.\<close>

fun find_free_bit :: "nat \<Rightarrow> 8 word \<Rightarrow> nat \<Rightarrow> nat \<Rightarrow> nat" where
  "find_free_bit free_bit free_byte i 0 = free_bit"
| "find_free_bit free_bit free_byte i (Suc n) =
     (if free_byte AND 1 = 0 then free_bit + i
      else find_free_bit free_bit (drop_bit 1 free_byte) (Suc i) n)"

definition get_free_block_num_from_bitmap :: "filesys_struct \<Rightarrow> int" where
  "get_free_block_num_from_bitmap s =
     (if free_blocks s = 0 then -1
      else (case find_free_byte (bitmap s) 0 1024 of
          None \<Rightarrow> -1
        | Some pos \<Rightarrow>
            (let free_bit = find_free_bit (pos * 8) (bitmap s pos) 0 8
             in if free_bit \<ge> 7931 then -1 else int free_bit)))"

definition clear_bitmap :: "(nat \<Rightarrow> 8 word) \<Rightarrow> int \<Rightarrow> int \<times> (nat \<Rightarrow> 8 word)" where
  "clear_bitmap m index =
     (if index < 0 \<or> index > 7931 then (-1, m)
      else let seg = nat index div 8; offset = nat index mod 8
           in (0, m(seg := m seg AND NOT (push_bit offset 1))))"

definition set_bitmap :: "(nat \<Rightarrow> 8 word) \<Rightarrow> int \<Rightarrow> int \<times> (nat \<Rightarrow> 8 word)" where
  "set_bitmap m index =
     (if index < 0 \<or> index > 7931 then (-1, m)
      else let seg = nat index div 8; offset = nat index mod 8
           in (0, m(seg := m seg OR push_bit offset 1)))"

text \<open>\<^verbatim>\<open>allocate_data_block\<close> marks the block, counts it and zeroes it.\<close>

definition allocate_data_block :: "filesys_struct \<Rightarrow> int \<Rightarrow> (ptr \<times> filesys_struct) option" where
  "allocate_data_block s free_block_number = do {
     let s1 = s\<lparr>bitmap := snd (set_bitmap (bitmap s) free_block_number)\<rparr>;
     let s2 = s1\<lparr>free_blocks := free_blocks s1 - 1\<rparr>;
     s3 \<leftarrow> memset0 s2 (BLOCK_SIZE * nat free_block_number) BLOCK_SIZE;
     Some (blk_addr s3 (nat free_block_number), s3)
   }"

definition bit_used :: "(nat \<Rightarrow> 8 word) \<Rightarrow> nat \<Rightarrow> bool" where
  "bit_used m b \<longleftrightarrow> bit (m (b div 8)) (b mod 8)"

abbreviation blk_used :: "filesys_struct \<Rightarrow> nat \<Rightarrow> bool" where
  "blk_used s b \<equiv> bit_used (bitmap s) b"

section \<open>Setting and clearing bits\<close>

lemma bit_used_set [simp]:
  assumes "0 \<le> i" "i \<le> 7931"
  shows "bit_used (snd (set_bitmap m i)) b \<longleftrightarrow> bit_used m b \<or> b = nat i"
proof (cases "b div 8 = nat i div 8")
  case True
  have "b = nat i \<longleftrightarrow> b mod 8 = nat i mod 8"
    using True by (metis div_mult_mod_eq)
  moreover have "b mod 8 < 8" by simp
  ultimately show ?thesis
    using assms True
    by (auto simp: bit_used_def set_bitmap_def Let_def bit_simps)
next
  case False
  then show ?thesis
    using assms by (auto simp: bit_used_def set_bitmap_def Let_def)
qed

lemma bit_used_clear [simp]:
  assumes "0 \<le> i" "i \<le> 7931"
  shows "bit_used (snd (clear_bitmap m i)) b \<longleftrightarrow> bit_used m b \<and> b \<noteq> nat i"
proof (cases "b div 8 = nat i div 8")
  case True
  have "b = nat i \<longleftrightarrow> b mod 8 = nat i mod 8"
    using True by (metis div_mult_mod_eq)
  moreover have "b mod 8 < 8" by simp
  ultimately show ?thesis
    using assms True
    by (auto simp: bit_used_def clear_bitmap_def Let_def bit_simps)
next
  case False
  then show ?thesis
    using assms by (auto simp: bit_used_def clear_bitmap_def Let_def)
qed

section \<open>The search finds the first free block\<close>

lemma find_free_byte_None:
  "find_free_byte m i n = None \<longleftrightarrow> (\<forall>k. i \<le> k \<and> k < i + n \<longrightarrow> m k = 255)"
proof (induction n arbitrary: i)
  case 0
  then show ?case by auto
next
  case (Suc n)
  have "(\<forall>k. i \<le> k \<and> k < i + Suc n \<longrightarrow> m k = 255)
     \<longleftrightarrow> m i = 255 \<and> (\<forall>k. Suc i \<le> k \<and> k < Suc i + n \<longrightarrow> m k = 255)"
    by (auto simp: Suc_le_eq) (metis le_neq_implies_less)
  then show ?case using Suc.IH [of "Suc i"] by (simp only: find_free_byte.simps) simp
qed

lemma find_free_byte_Some:
  "find_free_byte m i n = Some p \<Longrightarrow>
     i \<le> p \<and> p < i + n \<and> m p \<noteq> 255 \<and> (\<forall>k. i \<le> k \<and> k < p \<longrightarrow> m k = 255)"
proof (induction n arbitrary: i)
  case 0
  then show ?case by simp
next
  case (Suc n)
  show ?case
  proof (cases "m i = 255")
    case True
    then have "Suc i \<le> p \<and> p < Suc i + n \<and> m p \<noteq> 255 \<and> (\<forall>k. Suc i \<le> k \<and> k < p \<longrightarrow> m k = 255)"
      using Suc by fastforce
    then show ?thesis
      using True by (metis Suc_leD add_Suc_shift le_antisym not_less_eq_eq)
  next
    case False
    then show ?thesis using Suc.prems by auto
  qed
qed

lemma and_one_zero: "(w :: 8 word) AND 1 = 0 \<longleftrightarrow> \<not> bit w 0"
  by (simp add: and_one_eq bit_0 even_iff_mod_2_eq_zero)

lemma find_free_bit_spec:
  assumes "\<exists>k<n. \<not> bit w k"
  shows "\<exists>k<n. find_free_bit f w i n = f + i + k \<and> \<not> bit w k \<and> (\<forall>l<k. bit w l)"
  using assms
proof (induction n arbitrary: w i)
  case 0
  then show ?case by simp
next
  case (Suc n)
  show ?case
  proof (cases "bit w 0")
    case False
    then show ?thesis by (auto simp: and_one_zero intro!: exI [of _ 0])
  next
    case True
    from Suc.prems obtain k where "k < Suc n" "\<not> bit w k" by blast
    with True obtain k' where "k = Suc k'" by (cases k) auto
    then have "\<exists>k<n. \<not> bit (drop_bit 1 w) k"
      using \<open>k < Suc n\<close> \<open>\<not> bit w k\<close> by (auto simp: bit_simps)
    from Suc.IH [OF this, of "Suc i"] obtain l where
      l: "l < n" "find_free_bit f (drop_bit 1 w) (Suc i) n = f + Suc i + l"
        "\<not> bit (drop_bit 1 w) l" "\<forall>j<l. bit (drop_bit 1 w) j" by blast
    have "\<forall>j<Suc l. bit w j"
    proof (intro allI impI)
      fix j assume "j < Suc l"
      then show "bit w j"
        using True l(4) by (cases j) (auto simp: bit_simps)
    qed
    then show ?thesis
      using True l by (auto simp: and_one_zero bit_simps intro!: exI [of _ "Suc l"])
  qed
qed

lemma byte_full_iff: "(w :: 8 word) = 255 \<longleftrightarrow> (\<forall>k<8. bit w k)"
proof -
  have "(255 :: 8 word) = mask 8" by (simp add: mask_eq_exp_minus_1)
  then show ?thesis
    by (auto simp: bit_eq_iff bit_simps)
qed

lemma bit_used_full_bytes: "(\<forall>k<p. m k = 255) \<Longrightarrow> b < 8 * p \<Longrightarrow> bit_used m b"
  using byte_full_iff [of 255] by (simp add: bit_used_def less_mult_imp_div_less mult.commute)

lemma find_free_bit_byte:
  assumes "m p \<noteq> 255" "\<forall>k<p. m k = 255"
  defines "f \<equiv> find_free_bit (p * 8) (m p) 0 8"
  shows "\<not> bit_used m f" "\<forall>b<f. bit_used m b" "f < 8 * p + 8"
proof -
  have "\<exists>k<8. \<not> bit (m p) k" using assms(1) byte_full_iff by blast
  from find_free_bit_spec [OF this, of "p * 8" 0] obtain k where
    k: "k < 8" "f = p * 8 + k" "\<not> bit (m p) k" "\<forall>l<k. bit (m p) l"
    unfolding f_def by auto
  show "\<not> bit_used m f" using k by (simp add: bit_used_def)
  show "f < 8 * p + 8" using k by simp
  show "\<forall>b<f. bit_used m b"
  proof (intro allI impI)
    fix b assume b: "b < f"
    show "bit_used m b"
    proof (cases "b < 8 * p")
      case True
      then show ?thesis using assms(2) bit_used_full_bytes by blast
    next
      case False
      then obtain r where r: "b = 8 * p + r" by (metis le_add_diff_inverse linorder_not_less)
      then have "r < k" using b k(2) by simp
      then show ?thesis using k(1,4) r by (simp add: bit_used_def)
    qed
  qed
qed

text \<open>The result is the least unused block number, or \<open>-1\<close> when the counter is zero or
  no data block is unused.\<close>

lemma get_free_block_num_Some:
  assumes "get_free_block_num_from_bitmap s = int b"
  shows "b < DATA_BLOCKS_NUM" "\<not> blk_used s b" "\<forall>c<b. blk_used s c" "free_blocks s \<noteq> 0"
proof -
  from assms obtain p where p: "find_free_byte (bitmap s) 0 1024 = Some p"
    and b: "b = find_free_bit (p * 8) (bitmap s p) 0 8" and small: "b < 7931"
    and "free_blocks s \<noteq> 0"
    by (auto simp: get_free_block_num_from_bitmap_def Let_def split: if_splits option.splits)
  from find_free_byte_Some [OF p] have "bitmap s p \<noteq> 255" "\<forall>k<p. bitmap s k = 255" by auto
  note f = find_free_bit_byte [OF this, folded b]
  show "b < DATA_BLOCKS_NUM" "free_blocks s \<noteq> 0" by fact+
  show "\<not> blk_used s b" "\<forall>c<b. blk_used s c" by (fact f)+
qed

lemma get_free_block_num_cases:
  obtains "get_free_block_num_from_bitmap s = -1"
  | b where "get_free_block_num_from_bitmap s = int b" "b < DATA_BLOCKS_NUM"
proof (cases "get_free_block_num_from_bitmap s = -1")
  case False
  then obtain b where "get_free_block_num_from_bitmap s = int b"
    by (auto simp: get_free_block_num_from_bitmap_def Let_def split: if_splits option.splits)
  with get_free_block_num_Some(1) that(2) show ?thesis by blast
qed (rule that(1))

lemma get_free_block_num_None:
  "get_free_block_num_from_bitmap s = -1
     \<longleftrightarrow> free_blocks s = 0 \<or> (\<forall>b < DATA_BLOCKS_NUM. blk_used s b)"
proof (cases "free_blocks s = 0")
  case True
  then show ?thesis by (simp add: get_free_block_num_from_bitmap_def)
next
  case nz: False
  show ?thesis
  proof (cases "find_free_byte (bitmap s) 0 1024")
    case None
    then have "\<forall>k<1024. bitmap s k = 255" by (simp add: find_free_byte_None)
    then have "\<forall>b < DATA_BLOCKS_NUM. blk_used s b"
      using bit_used_full_bytes [of 1024 "bitmap s"] by simp
    then show ?thesis using None by (simp add: get_free_block_num_from_bitmap_def)
  next
    case (Some p)
    define f where "f = find_free_bit (p * 8) (bitmap s p) 0 8"
    from find_free_byte_Some [OF Some] have "bitmap s p \<noteq> 255" "\<forall>k<p. bitmap s k = 255" by auto
    note f = find_free_bit_byte [OF this, folded f_def]
    have "(\<forall>b < DATA_BLOCKS_NUM. blk_used s b) \<longleftrightarrow> 7931 \<le> f"
      using f by (meson linorder_not_less order_less_le_trans)
    then show ?thesis
      using nz Some f_def by (simp add: get_free_block_num_from_bitmap_def Let_def)
  qed
qed

section \<open>Properties\<close>

lemma bitmap_eqI: "(\<And>b. bit_used m b \<longleftrightarrow> bit_used m' b) \<Longrightarrow> m = m'"
proof (rule ext, rule bit_eqI)
  fix k j
  assume eq: "\<And>b. bit_used m b \<longleftrightarrow> bit_used m' b" and "possible_bit TYPE(8 word) j"
  then have "j < 8" by (simp add: possible_bit_word)
  then have "(8 * k + j) div 8 = k" "(8 * k + j) mod 8 = j" by simp_all
  then show "bit (m k) j \<longleftrightarrow> bit (m' k) j" using eq [of "8 * k + j"] by (simp add: bit_used_def)
qed

text \<open>C22: the block search is first fit.  \<^verbatim>\<open>get_free_block_num_from_bitmap\<close> returns the
  smallest data block number whose bit is clear when the superblock counts a free block
  and there is one, and \<open>-1\<close> otherwise; the two loops over bytes and bits never return
  one of the five numbers beyond the last block.\<close>

theorem free_block_first_fit:
  "get_free_block_num_from_bitmap s =
     (if free_blocks s \<noteq> 0 \<and> (\<exists>b < DATA_BLOCKS_NUM. \<not> blk_used s b)
      then int (LEAST b. \<not> blk_used s b) else -1)"
proof (cases rule: get_free_block_num_cases [of s])
  case 1
  then have "\<not> (free_blocks s \<noteq> 0 \<and> (\<exists>b < DATA_BLOCKS_NUM. \<not> blk_used s b))"
    using get_free_block_num_None [of s] by blast
  then show ?thesis using 1 by (simp only: if_False)
next
  case (2 b)
  note f = get_free_block_num_Some [OF 2(1)]
  have "(LEAST b. \<not> blk_used s b) = b"
    using f(2,3) by (intro Least_equality) (auto simp: not_less [symmetric])
  then show ?thesis using 2 f by auto
qed

text \<open>Freeing a block undoes taking it.  For every block number the bitmap covers whose
  bit is clear, \<^verbatim>\<open>set_bitmap\<close> and then \<^verbatim>\<open>clear_bitmap\<close> both return 0 and give back the map.\<close>

theorem clear_undoes_set_bitmap:
  assumes "0 \<le> i" "i \<le> 7931" "\<not> bit_used m (nat i)"
  shows "fst (set_bitmap m i) = 0 \<and> clear_bitmap (snd (set_bitmap m i)) i = (0, m)"
proof -
  have "snd (clear_bitmap (snd (set_bitmap m i)) i) = m"
    using assms by (intro bitmap_eqI) auto
  moreover have "fst (clear_bitmap m' i) = 0" "fst (set_bitmap m' i) = 0" for m'
    using assms by (simp_all add: clear_bitmap_def set_bitmap_def Let_def)
  ultimately show ?thesis by (simp add: prod_eq_iff)
qed

theorem clear_undoes_set_bitmap_witness:
  "clear_bitmap (snd (set_bitmap (\<lambda>_. 1) 9)) 9 = (0, \<lambda>_. 1)"
  using clear_undoes_set_bitmap [of 9 "\<lambda>_. 1"] by (simp add: bit_used_def bit_1_iff)

end
