(* ===== verification/Layout.thy ===== *)
theory Layout
  imports Bitmap
begin

text \<open>
  Which block belongs to which index node.  A \<open>loc\<close> is a place that can hold a block
  pointer: a direct pointer \<open>Dir n i\<close>, the single or double indirect pointer \<open>Sng n\<close>,
  \<open>Dbl n\<close> of index node \<open>n\<close>, or slot \<open>k\<close> of the index block that the pointer at \<open>L\<close>
  refers to, \<open>Sub L k\<close>.  The invariant \<open>wf_blocks\<close> says that every non-null pointer is
  the address of a data block whose bit is set, and that no block is referred to twice.
\<close>

section \<open>Definitions\<close>

datatype loc = Dir nat nat | Sng nat | Dbl nat | Sub loc nat

fun index_loc :: "loc \<Rightarrow> bool" where
  "index_loc (Dir n i) = False"
| "index_loc (Sng n) = True"
| "index_loc (Dbl n) = True"
| "index_loc (Sub L k) = (case L of Dbl n \<Rightarrow> True | _ \<Rightarrow> False)"

fun valid_loc :: "loc \<Rightarrow> bool" where
  "valid_loc (Dir n i) = (n < MAX_NUM_FILE \<and> i < INODE_NUM_DIRECT_PTR)"
| "valid_loc (Sng n) = (n < MAX_NUM_FILE)"
| "valid_loc (Dbl n) = (n < MAX_NUM_FILE)"
| "valid_loc (Sub L k) = (valid_loc L \<and> index_loc L \<and> k < PTRS_PER_BLOCK)"

fun node_of :: "loc \<Rightarrow> nat" where
  "node_of (Dir n i) = n"
| "node_of (Sng n) = n"
| "node_of (Dbl n) = n"
| "node_of (Sub L k) = node_of L"

text \<open>The pointer in slot \<open>i\<close> of the index block at address \<open>p\<close>.\<close>

definition index_at :: "filesys_struct \<Rightarrow> ptr \<Rightarrow> nat \<Rightarrow> ptr" where
  "index_at s p i =
     of_nat (dec_le (map (data_blocks s) [ptr_off s p + 4 * i..<ptr_off s p + 4 * i + 4]))"

fun ptr_at :: "filesys_struct \<Rightarrow> loc \<Rightarrow> ptr" where
  "ptr_at s (Dir n i) = pointers (inodes s n) i"
| "ptr_at s (Sng n) = single_indirect_ptrs (inodes s n)"
| "ptr_at s (Dbl n) = double_indirect_ptrs (inodes s n)"
| "ptr_at s (Sub L k) = (if ptr_at s L = 0 then 0 else index_at s (ptr_at s L) k)"

definition wf_blocks :: "filesys_struct \<Rightarrow> bool" where
  "wf_blocks s \<longleftrightarrow> region_ok s
     \<and> (\<forall>l. valid_loc l \<longrightarrow> ptr_at s l \<noteq> 0 \<longrightarrow>
          (\<exists>b < DATA_BLOCKS_NUM. ptr_at s l = blk_addr s b \<and> blk_used s b))
     \<and> (\<forall>l l'. valid_loc l \<longrightarrow> valid_loc l' \<longrightarrow> ptr_at s l \<noteq> 0 \<longrightarrow> ptr_at s l = ptr_at s l' \<longrightarrow> l = l')"

text \<open>A block in use that no pointer refers to yet, all zero.\<close>

definition detached :: "filesys_struct \<Rightarrow> nat \<Rightarrow> bool" where
  "detached s b \<longleftrightarrow> b < DATA_BLOCKS_NUM \<and> blk_used s b
     \<and> (\<forall>l. valid_loc l \<longrightarrow> ptr_at s l \<noteq> blk_addr s b)
     \<and> (\<forall>x. x div BLOCK_SIZE = b \<longrightarrow> data_blocks s x = NUL)"

section \<open>Addresses do not move\<close>

lemma addr_frame:
  assumes "discos_addr s' = discos_addr s"
  shows "blk_addr s' = blk_addr s" "ptr_off s' = ptr_off s" "data_base s' = data_base s"
    "entry_addr s' = entry_addr s" "block_index s' = block_index s" "region_ok s' = region_ok s"
  using assms
  by (auto simp: fun_eq_iff blk_addr_def ptr_off_def data_base_def entry_addr_def block_index_def
      region_ok_def)

lemma addr_update [simp]:
  "blk_addr (s\<lparr>bitmap := bm\<rparr>) = blk_addr s" "blk_addr (s\<lparr>free_blocks := fb\<rparr>) = blk_addr s"
  "blk_addr (s\<lparr>free_inodes := fi\<rparr>) = blk_addr s" "blk_addr (s\<lparr>inodes := inds\<rparr>) = blk_addr s"
  "blk_addr (s\<lparr>data_blocks := d\<rparr>) = blk_addr s" "blk_addr (set_inode s n ino) = blk_addr s"
  "ptr_off (s\<lparr>bitmap := bm\<rparr>) = ptr_off s" "ptr_off (s\<lparr>free_blocks := fb\<rparr>) = ptr_off s"
  "ptr_off (s\<lparr>free_inodes := fi\<rparr>) = ptr_off s" "ptr_off (s\<lparr>inodes := inds\<rparr>) = ptr_off s"
  "ptr_off (s\<lparr>data_blocks := d\<rparr>) = ptr_off s" "ptr_off (set_inode s n ino) = ptr_off s"
  "entry_addr (s\<lparr>bitmap := bm\<rparr>) = entry_addr s" "entry_addr (s\<lparr>free_blocks := fb\<rparr>) = entry_addr s"
  "entry_addr (s\<lparr>free_inodes := fi\<rparr>) = entry_addr s" "entry_addr (s\<lparr>inodes := inds\<rparr>) = entry_addr s"
  "entry_addr (s\<lparr>data_blocks := d\<rparr>) = entry_addr s" "entry_addr (set_inode s n ino) = entry_addr s"
  "region_ok (s\<lparr>bitmap := bm\<rparr>) = region_ok s" "region_ok (s\<lparr>free_blocks := fb\<rparr>) = region_ok s"
  "region_ok (s\<lparr>free_inodes := fi\<rparr>) = region_ok s" "region_ok (s\<lparr>inodes := inds\<rparr>) = region_ok s"
  "region_ok (s\<lparr>data_blocks := d\<rparr>) = region_ok s" "region_ok (set_inode s n ino) = region_ok s"
  by (auto intro!: addr_frame simp: set_inode_def)

lemma set_inode_fields [simp]:
  "inodes (set_inode s n ino) = (inodes s)(n := ino)" "bitmap (set_inode s n ino) = bitmap s"
  "data_blocks (set_inode s n ino) = data_blocks s" "free_blocks (set_inode s n ino) = free_blocks s"
  "free_inodes (set_inode s n ino) = free_inodes s" "discos_addr (set_inode s n ino) = discos_addr s"
  by (simp_all add: set_inode_def)

section \<open>Reading index blocks\<close>

lemma index_at_cong:
  assumes "discos_addr s' = discos_addr s" "ptr_off s p = BLOCK_SIZE * b" "k < PTRS_PER_BLOCK"
    and "\<And>x. x div BLOCK_SIZE = b \<Longrightarrow> data_blocks s' x = data_blocks s x"
  shows "index_at s' p k = index_at s p k"
proof -
  have "map (data_blocks s') [BLOCK_SIZE * b + 4 * k..<BLOCK_SIZE * b + 4 * k + 4]
      = map (data_blocks s) [BLOCK_SIZE * b + 4 * k..<BLOCK_SIZE * b + 4 * k + 4]"
    using assms(3,4) by (intro map_cong refl) auto
  then show ?thesis
    by (simp only: index_at_def assms(2) addr_frame(2) [OF assms(1)])
qed

lemma load_index_blk:
  assumes "b < DATA_BLOCKS_NUM" "k < PTRS_PER_BLOCK"
  shows "load_index s (blk_addr s b) k = Some (index_at s (blk_addr s b) k)"
  using assms by (simp add: load_index_def load_bytes_def index_at_def)

lemma index_at_zero:
  assumes "ptr_off s p = BLOCK_SIZE * b" "k < PTRS_PER_BLOCK"
    and "\<And>x. x div BLOCK_SIZE = b \<Longrightarrow> data_blocks s x = NUL"
  shows "index_at s p k = 0"
proof -
  have "map (data_blocks s) [BLOCK_SIZE * b + 4 * k..<BLOCK_SIZE * b + 4 * k + 4] = replicate 4 NUL"
    using assms(2,3) by (intro nth_equalityI) auto
  then have "index_at s p k = of_nat (dec_le (replicate 4 NUL))"
    by (simp only: index_at_def assms(1))
  then show ?thesis by simp
qed

section \<open>Frames\<close>

lemma wf_blocksD:
  assumes "wf_blocks s" "valid_loc l" "ptr_at s l \<noteq> 0"
  obtains b where "b < DATA_BLOCKS_NUM" "ptr_at s l = blk_addr s b" "blk_used s b"
  using assms by (auto simp: wf_blocks_def)

lemma wf_blocks_inj:
  "wf_blocks s \<Longrightarrow> valid_loc l \<Longrightarrow> valid_loc l' \<Longrightarrow> ptr_at s l \<noteq> 0 \<Longrightarrow> ptr_at s l = ptr_at s l' \<Longrightarrow> l = l'"
  by (simp add: wf_blocks_def)

lemma wf_region [simp]: "wf_blocks s \<Longrightarrow> region_ok s"
  by (simp add: wf_blocks_def)

text \<open>Writes that leave the index blocks and the inode pointers alone change no pointer.\<close>

lemma ptr_at_frame:
  assumes "wf_blocks s" "discos_addr s' = discos_addr s"
    and "\<And>n. pointers (inodes s' n) = pointers (inodes s n)
          \<and> single_indirect_ptrs (inodes s' n) = single_indirect_ptrs (inodes s n)
          \<and> double_indirect_ptrs (inodes s' n) = double_indirect_ptrs (inodes s n)"
    and "\<And>x. data_blocks s' x \<noteq> data_blocks s x \<Longrightarrow>
          \<forall>L. valid_loc L \<longrightarrow> index_loc L \<longrightarrow> ptr_at s L \<noteq> blk_addr s (x div BLOCK_SIZE)"
    and "valid_loc l"
  shows "ptr_at s' l = ptr_at s l"
  using assms(5)
proof (induction l)
  case (Sub L k)
  then have IH: "ptr_at s' L = ptr_at s L" and L: "valid_loc L" "index_loc L" "k < PTRS_PER_BLOCK"
    by auto
  show ?case
  proof (cases "ptr_at s L = 0")
    case False
    from wf_blocksD [OF assms(1) L(1) False] obtain b
      where b: "b < DATA_BLOCKS_NUM" "ptr_at s L = blk_addr s b" by blast
    have "index_at s' (ptr_at s L) k = index_at s (ptr_at s L) k"
      using b L assms(4) by (intro index_at_cong [OF assms(2)]) auto
    then show ?thesis using IH by simp
  qed (use IH in simp)
qed (use assms(3) in auto)

lemma wf_blocks_frame:
  assumes "wf_blocks s" "discos_addr s' = discos_addr s"
    and "\<And>l. valid_loc l \<Longrightarrow> ptr_at s' l = ptr_at s l"
    and "\<And>b. blk_used s b \<Longrightarrow> blk_used s' b"
  shows "wf_blocks s'"
  using assms by (auto simp: wf_blocks_def addr_frame [OF assms(2)]) (metis)+

text \<open>Fields outside \<open>ptr_at\<close> never matter.\<close>

lemma ptr_at_update [simp]:
  "ptr_at (s\<lparr>bitmap := bm\<rparr>) l = ptr_at s l" "ptr_at (s\<lparr>free_blocks := fb\<rparr>) l = ptr_at s l"
  "ptr_at (s\<lparr>free_inodes := fi\<rparr>) l = ptr_at s l"
  by (induction l) (auto simp: index_at_def)

lemma ptr_at_set_inode_same:
  assumes "pointers ino = pointers (inodes s n)"
    "single_indirect_ptrs ino = single_indirect_ptrs (inodes s n)"
    "double_indirect_ptrs ino = double_indirect_ptrs (inodes s n)"
  shows "ptr_at (set_inode s n ino) l = ptr_at s l"
  using assms by (induction l) (auto simp: index_at_def)

section \<open>Attaching a fresh block\<close>

lemma wf_attach:
  assumes "wf_blocks s" "detached s b" "discos_addr s' = discos_addr s" "valid_loc L0"
    and "\<And>l. valid_loc l \<Longrightarrow> ptr_at s' l = (if l = L0 then blk_addr s b else ptr_at s l)"
    and "\<And>c. blk_used s c \<Longrightarrow> blk_used s' c"
  shows "wf_blocks s'"
proof -
  have b: "b < DATA_BLOCKS_NUM" "blk_used s b" "\<And>l. valid_loc l \<Longrightarrow> ptr_at s l \<noteq> blk_addr s b"
    using assms(2) by (auto simp: detached_def)
  have "\<exists>c < DATA_BLOCKS_NUM. ptr_at s' l = blk_addr s' c \<and> blk_used s' c"
    if "valid_loc l" "ptr_at s' l \<noteq> 0" for l
  proof (cases "l = L0")
    case True
    then show ?thesis using that assms(5,6) b by (auto simp: addr_frame [OF assms(3)])
  next
    case False
    then have "ptr_at s' l = ptr_at s l" using that assms(5) by simp
    with that wf_blocksD [OF assms(1) that(1)] show ?thesis
      by (metis addr_frame(1) [OF assms(3)] assms(6))
  qed
  moreover have "l = l'"
    if "valid_loc l" "valid_loc l'" "ptr_at s' l \<noteq> 0" "ptr_at s' l = ptr_at s' l'" for l l'
  proof (cases "l = L0 \<or> l' = L0")
    case True
    then show ?thesis using that assms(5) b(3) by (metis (full_types))
  next
    case False
    then show ?thesis using that assms(5) wf_blocks_inj [OF assms(1)] by simp
  qed
  ultimately show ?thesis
    using assms(1,3) by (auto simp: wf_blocks_def addr_frame [OF assms(3)])
qed

text \<open>The pointers after a null inode pointer is set to a detached block.\<close>

lemma ptr_at_attach_inode:
  assumes "detached s b" "region_ok s" "valid_loc l" "node_of L0 = n" "ptr_at s L0 = 0"
    and "(\<exists>i. L0 = Dir n i \<and> ino = (inodes s n)\<lparr>pointers := (pointers (inodes s n))(i := blk_addr s b)\<rparr>)
       \<or> (L0 = Sng n \<and> ino = (inodes s n)\<lparr>single_indirect_ptrs := blk_addr s b\<rparr>)
       \<or> (L0 = Dbl n \<and> ino = (inodes s n)\<lparr>double_indirect_ptrs := blk_addr s b\<rparr>)"
  shows "ptr_at (set_inode s n ino) l = (if l = L0 then blk_addr s b else ptr_at s l)"
  using assms(3)
proof (induction l)
  case (Sub L k)
  have zero: "index_at s (blk_addr s b) k = 0" if "k < PTRS_PER_BLOCK"
    using assms(1) that by (intro index_at_zero [of _ _ b]) (auto simp: detached_def)
  have same: "index_at (set_inode s n ino) = index_at s"
    by (simp add: fun_eq_iff index_at_def)
  have "Sub L k \<noteq> L0" using assms(6) by auto
  then show ?case using Sub assms(5) zero same by (cases "L = L0") auto
qed (use assms(6) in \<open>auto split: if_splits\<close>)

text \<open>The pointers after slot \<open>k\<close> of the index block at \<open>L\<close> is set to a detached block.\<close>

lemma store_index_blk:
  assumes "b < DATA_BLOCKS_NUM" "k < PTRS_PER_BLOCK"
  shows "store_index s (blk_addr s b) k q =
    Some (s\<lparr>data_blocks := upd_region (data_blocks s) (BLOCK_SIZE * b + 4 * k) (enc_le 4 (unat q))\<rparr>)"
  using assms by (simp add: store_index_def store_bytes_def)

lemma index_at_store:
  assumes "store_index s p k q = Some s'" "ptr_off s p = BLOCK_SIZE * b" "ptr_off s p' = BLOCK_SIZE * b'"
    "k < PTRS_PER_BLOCK" "k' < PTRS_PER_BLOCK"
  shows "index_at s' p' k' = (if b' = b \<and> k' = k then q else index_at s p' k')"
proof -
  have s': "s' = s\<lparr>data_blocks := upd_region (data_blocks s) (BLOCK_SIZE * b + 4 * k) (enc_le 4 (unat q))\<rparr>"
    using assms(1,2) by (simp add: store_index_def store_bytes_def split: if_splits)
  show ?thesis
  proof (cases "b' = b \<and> k' = k")
    case True
    then have "index_at s' p' k' = of_nat (dec_le (enc_le 4 (unat q)))"
      using assms(2,3) map_upd_region_same [of 4 "enc_le 4 (unat q)"]
      by (simp add: index_at_def s' del: upt_Suc enc_le.simps dec_le.simps)
    moreover have "dec_le (enc_le 4 (unat q)) = unat q"
      using unsigned_less [of q, where ?'a = nat] by (simp only: dec_enc_le) simp
    ultimately show ?thesis using True by simp
  next
    case False
    have data_upd: "data_blocks (s\<lparr>data_blocks := d\<rparr>) = d" for d by simp
    have disj: "BLOCK_SIZE * b' + 4 * k' + 4 \<le> BLOCK_SIZE * b + 4 * k
      \<or> BLOCK_SIZE * b + 4 * k + 4 \<le> BLOCK_SIZE * b' + 4 * k'"
    proof (cases "b' = b")
      case True
      then show ?thesis using False by linarith
    next
      case False
      then have "b' < b \<or> b < b'" by linarith
      then show ?thesis using assms(4,5) by (elim disjE) linarith+
    qed
    have "map (upd_region (data_blocks s) (BLOCK_SIZE * b + 4 * k) (enc_le 4 (unat q)))
              [BLOCK_SIZE * b' + 4 * k'..<BLOCK_SIZE * b' + 4 * k' + 4]
        = map (data_blocks s) [BLOCK_SIZE * b' + 4 * k'..<BLOCK_SIZE * b' + 4 * k' + 4]"
      by (rule map_upd_region_disjoint) (use disj in simp)
    then have "index_at s' p' k' = index_at s p' k'"
      by (simp only: index_at_def s' assms(3) addr_update data_upd)
    then show ?thesis using False by auto
  qed
qed

end
