(* ===== verification/BlockInv.thy ===== *)
theory BlockInv
  imports Layout
begin

text \<open>
  What an operation on one index node may do to the partition.  \<open>node_step n s s'\<close>: from
  \<open>s\<close> to \<open>s'\<close> only index node \<open>n\<close> changed, blocks were only added to the used ones, and
  every used block that \<open>n\<close> does not own keeps its bytes and stays foreign to \<open>n\<close>.  The
  relation is reflexive and transitive, so a loop has it when its body has it, and it
  carries the isolation of files: pointers and contents of all other nodes are kept.
\<close>

section \<open>Definitions\<close>

definition owns :: "filesys_struct \<Rightarrow> nat \<Rightarrow> nat \<Rightarrow> bool" where
  "owns s n b \<longleftrightarrow> (\<exists>l. valid_loc l \<and> node_of l = n \<and> ptr_at s l = blk_addr s b)"

definition same_block :: "filesys_struct \<Rightarrow> filesys_struct \<Rightarrow> nat \<Rightarrow> bool" where
  "same_block s s' b \<longleftrightarrow> (\<forall>x. x div BLOCK_SIZE = b \<longrightarrow> data_blocks s' x = data_blocks s x)"

text \<open>The superblock counter never promises more than there is.\<close>

definition free_set :: "filesys_struct \<Rightarrow> nat set" where
  "free_set s = {b. b < DATA_BLOCKS_NUM \<and> \<not> blk_used s b}"

definition counter_ok :: "filesys_struct \<Rightarrow> bool" where
  "counter_ok s \<longleftrightarrow> unat (free_blocks s) \<le> card (free_set s)"

definition node_step :: "nat \<Rightarrow> filesys_struct \<Rightarrow> filesys_struct \<Rightarrow> bool" where
  "node_step n s s' \<longleftrightarrow>
     discos_addr s' = discos_addr s \<and> free_inodes s' = free_inodes s
     \<and> (\<forall>b. blk_used s b \<longrightarrow> blk_used s' b)
     \<and> (\<forall>m. m \<noteq> n \<longrightarrow> inodes s' m = inodes s m)
     \<and> itype (inodes s' n) = itype (inodes s n) \<and> access (inodes s' n) = access (inodes s n)
     \<and> (\<forall>b < DATA_BLOCKS_NUM. blk_used s b \<longrightarrow> \<not> owns s n b \<longrightarrow> \<not> owns s' n b \<and> same_block s s' b)
     \<and> (counter_ok s \<longrightarrow> counter_ok s')"

section \<open>The relation composes\<close>

lemma same_block_refl [simp]: "same_block s s b"
  by (simp add: same_block_def)

lemma node_step_refl [simp]: "node_step n s s"
  by (simp add: node_step_def)

lemma node_stepI:
  assumes "discos_addr s' = discos_addr s" "free_inodes s' = free_inodes s"
    and "\<And>b. blk_used s b \<Longrightarrow> blk_used s' b"
    and "\<And>m. m \<noteq> n \<Longrightarrow> inodes s' m = inodes s m"
    and "itype (inodes s' n) = itype (inodes s n)" "access (inodes s' n) = access (inodes s n)"
    and "\<And>b. b < DATA_BLOCKS_NUM \<Longrightarrow> blk_used s b \<Longrightarrow> \<not> owns s n b \<Longrightarrow> \<not> owns s' n b"
    and "\<And>b. b < DATA_BLOCKS_NUM \<Longrightarrow> blk_used s b \<Longrightarrow> \<not> owns s n b \<Longrightarrow> same_block s s' b"
    and "counter_ok s \<Longrightarrow> counter_ok s'"
  shows "node_step n s s'"
  using assms unfolding node_step_def by blast

lemma node_stepD:
  assumes "node_step n s s'"
  shows "discos_addr s' = discos_addr s" "free_inodes s' = free_inodes s"
    and "\<And>b. blk_used s b \<Longrightarrow> blk_used s' b"
    and "\<And>m. m \<noteq> n \<Longrightarrow> inodes s' m = inodes s m"
    and "itype (inodes s' n) = itype (inodes s n)" "access (inodes s' n) = access (inodes s n)"
    and "\<And>b. b < DATA_BLOCKS_NUM \<Longrightarrow> blk_used s b \<Longrightarrow> \<not> owns s n b \<Longrightarrow> \<not> owns s' n b"
    and "\<And>b. b < DATA_BLOCKS_NUM \<Longrightarrow> blk_used s b \<Longrightarrow> \<not> owns s n b \<Longrightarrow> same_block s s' b"
    and "counter_ok s \<Longrightarrow> counter_ok s'"
  using assms unfolding node_step_def by blast+

lemma same_block_trans: "same_block s s' b \<Longrightarrow> same_block s' s'' b \<Longrightarrow> same_block s s'' b"
  by (simp add: same_block_def)

lemma node_step_trans:
  assumes "node_step n s s'" "node_step n s' s''"
  shows "node_step n s s''"
proof (rule node_stepI)
  note 1 = node_stepD [OF assms(1)] and 2 = node_stepD [OF assms(2)]
  show "discos_addr s'' = discos_addr s" "free_inodes s'' = free_inodes s"
    "itype (inodes s'' n) = itype (inodes s n)" "access (inodes s'' n) = access (inodes s n)"
    using 1(1,2,5,6) 2(1,2,5,6) by simp_all
  show "blk_used s'' b" if "blk_used s b" for b using 1(3) 2(3) that by blast
  show "inodes s'' m = inodes s m" if "m \<noteq> n" for m using 1(4) 2(4) that by simp
  show "counter_ok s''" if "counter_ok s" using 1(9) 2(9) that by blast
  show "\<not> owns s'' n b" if "b < DATA_BLOCKS_NUM" "blk_used s b" "\<not> owns s n b" for b
    using 1(3,7) 2(7) that by blast
  show "same_block s s'' b" if "b < DATA_BLOCKS_NUM" "blk_used s b" "\<not> owns s n b" for b
    using 1(3,7,8) 2(8) that same_block_trans by blast
qed

lemma node_step_addr:
  assumes "node_step n s s'"
  shows "discos_addr s' = discos_addr s"
  using assms by (simp add: node_step_def)

text \<open>Blocks of two different nodes are different, so another node keeps its pointers.\<close>

lemma wf_not_owned:
  assumes "wf_blocks s" "valid_loc l" "node_of l \<noteq> n" "b < DATA_BLOCKS_NUM" "ptr_at s l = blk_addr s b"
  shows "\<not> owns s n b"
proof
  assume "owns s n b"
  then obtain l' where l': "valid_loc l'" "node_of l' = n" "ptr_at s l' = blk_addr s b"
    by (auto simp: owns_def)
  have "ptr_at s l \<noteq> 0"
    using assms(1,4,5) blk_addr_nonzero by simp
  then have "l = l'"
    using wf_blocks_inj [OF assms(1,2) l'(1)] assms(5) l'(3) by simp
  then show False using assms(3) l'(2) by simp
qed

lemma wf_used:
  assumes "wf_blocks s" "valid_loc l" "b < DATA_BLOCKS_NUM" "ptr_at s l = blk_addr s b"
  shows "blk_used s b"
  using assms by (metis blk_addr_inj blk_addr_nonzero wf_blocksD wf_region)

lemma node_step_ptr:
  assumes "node_step n s s'" "wf_blocks s" "valid_loc l" "node_of l \<noteq> n"
  shows "ptr_at s' l = ptr_at s l"
  using assms(3,4)
proof (induction l)
  case (Sub L k)
  then have IH: "ptr_at s' L = ptr_at s L" and L: "valid_loc L" "k < PTRS_PER_BLOCK" "node_of L \<noteq> n"
    by auto
  show ?case
  proof (cases "ptr_at s L = 0")
    case False
    from wf_blocksD [OF assms(2) L(1) False] obtain b
      where b: "b < DATA_BLOCKS_NUM" "ptr_at s L = blk_addr s b" "blk_used s b" by blast
    then have "same_block s s' b"
      using assms(1) wf_not_owned [OF assms(2) L(1,3)] by (auto simp: node_step_def)
    then have "index_at s' (ptr_at s L) k = index_at s (ptr_at s L) k"
      using b L(2) by (intro index_at_cong [OF node_step_addr [OF assms(1)]]) (auto simp: same_block_def)
    then show ?thesis using IH by simp
  qed (use IH in simp)
qed (use assms(1) in \<open>auto simp: node_step_def\<close>)

lemma node_step_content:
  assumes "node_step n s s'" "wf_blocks s" "valid_loc l" "node_of l \<noteq> n"
    "b < DATA_BLOCKS_NUM" "ptr_at s l = blk_addr s b"
  shows "same_block s s' b"
  using assms wf_not_owned [OF assms(2-6)] wf_used [OF assms(2,3,5,6)] by (auto simp: node_step_def)

section \<open>Allocation\<close>

lemma allocate_data_block_eq:
  "b < DATA_BLOCKS_NUM \<Longrightarrow> allocate_data_block s (int b) =
     Some (blk_addr s b, s\<lparr>bitmap := snd (set_bitmap (bitmap s) (int b)), free_blocks := free_blocks s - 1,
       data_blocks := upd_region (data_blocks s) (BLOCK_SIZE * b) (replicate BLOCK_SIZE NUL)\<rparr>)"
  by (simp add: allocate_data_block_def memset0_def store_bytes_def)

lemma upd_region_block:
  "x div BLOCK_SIZE \<noteq> b \<Longrightarrow> upd_region f (BLOCK_SIZE * b) (replicate BLOCK_SIZE NUL) x = f x"
  "x div BLOCK_SIZE = b \<Longrightarrow> upd_region f (BLOCK_SIZE * b) (replicate BLOCK_SIZE NUL) x = NUL"
  by (auto simp: upd_region_def simp del: replicate_Suc)

lemma counter_alloc:
  assumes "counter_ok s" "free_blocks s \<noteq> 0" "b < DATA_BLOCKS_NUM" "\<not> blk_used s b"
    and "free_blocks s' = free_blocks s - 1" "\<And>c. blk_used s' c \<longleftrightarrow> blk_used s c \<or> c = b"
  shows "counter_ok s'"
proof -
  have fin: "finite (free_set s)" by (simp add: free_set_def)
  have "free_set s' = free_set s - {b}" using assms(6) by (auto simp: free_set_def)
  moreover have "b \<in> free_set s" using assms(3,4) by (simp add: free_set_def)
  ultimately have "card (free_set s') = card (free_set s) - 1" using fin by simp
  moreover have "unat (free_blocks s - 1) = unat (free_blocks s) - 1"
    using assms(2) by (simp add: unat_minus_one)
  ultimately show ?thesis using assms(1,5) by (simp add: counter_ok_def)
qed

text \<open>What a successful \<^verbatim>\<open>get_free_block_num_from_bitmap\<close> and \<^verbatim>\<open>allocate_data_block\<close> do:
  block \<open>b\<close>, unused in \<open>s\<close>, is marked and zeroed in \<open>s1\<close>, and nothing else changes.\<close>

definition fresh_alloc :: "filesys_struct \<Rightarrow> nat \<Rightarrow> filesys_struct \<Rightarrow> bool" where
  "fresh_alloc s b s1 \<longleftrightarrow>
     b < DATA_BLOCKS_NUM \<and> \<not> blk_used s b \<and> (\<forall>c. blk_used s1 c \<longleftrightarrow> blk_used s c \<or> c = b)
     \<and> discos_addr s1 = discos_addr s \<and> inodes s1 = inodes s \<and> free_inodes s1 = free_inodes s
     \<and> free_blocks s1 = free_blocks s - 1
     \<and> (\<forall>x. data_blocks s1 x = (if x div BLOCK_SIZE = b then NUL else data_blocks s x))
     \<and> (\<forall>l. valid_loc l \<longrightarrow> ptr_at s1 l = ptr_at s l)
     \<and> wf_blocks s1 \<and> detached s1 b \<and> (counter_ok s \<longrightarrow> counter_ok s1)"

lemma alloc_fresh:
  assumes "wf_blocks s" "get_free_block_num_from_bitmap s \<noteq> -1"
  obtains b s1 where
    "allocate_data_block s (get_free_block_num_from_bitmap s) = Some (blk_addr s b, s1)"
    "fresh_alloc s b s1"
proof -
  obtain b where g: "get_free_block_num_from_bitmap s = int b" and b: "b < DATA_BLOCKS_NUM"
    using assms(2) get_free_block_num_cases by metis
  have unused: "\<not> blk_used s b" and nz: "free_blocks s \<noteq> 0"
    using get_free_block_num_Some [OF g] by auto
  define s1 where "s1 = s\<lparr>bitmap := snd (set_bitmap (bitmap s) (int b)), free_blocks := free_blocks s - 1,
       data_blocks := upd_region (data_blocks s) (BLOCK_SIZE * b) (replicate BLOCK_SIZE NUL)\<rparr>"
  have used: "\<And>c. blk_used s1 c \<longleftrightarrow> blk_used s c \<or> c = b"
    using b by (simp add: s1_def)
  have addr: "discos_addr s1 = discos_addr s" by (simp add: s1_def)
  have data: "data_blocks s1 x = (if x div BLOCK_SIZE = b then NUL else data_blocks s x)" for x
    by (simp add: s1_def upd_region_block)
  have unref: "ptr_at s l \<noteq> blk_addr s b" if "valid_loc l" for l
    using wf_used [OF assms(1) that b] unused by blast
  have ptr: "ptr_at s1 l = ptr_at s l" if "valid_loc l" for l
    using that
  proof (rule ptr_at_frame [OF assms(1) addr, rotated 2])
    fix x
    assume "data_blocks s1 x \<noteq> data_blocks s x"
    then have "x div BLOCK_SIZE = b" using data by metis
    then show "\<forall>L. valid_loc L \<longrightarrow> index_loc L \<longrightarrow> ptr_at s L \<noteq> blk_addr s (x div BLOCK_SIZE)"
      using unref by auto
  qed (simp add: s1_def)
  have wf: "wf_blocks s1"
    using used ptr by (intro wf_blocks_frame [OF assms(1) addr]) auto
  have "detached s1 b"
    using b used ptr unref data by (auto simp: detached_def addr_frame [OF addr])
  moreover have "allocate_data_block s (get_free_block_num_from_bitmap s) = Some (blk_addr s b, s1)"
    using allocate_data_block_eq [OF b] by (simp add: g s1_def)
  moreover have "counter_ok s \<Longrightarrow> counter_ok s1"
    by (rule counter_alloc [OF _ nz b unused _ used]) (auto simp: s1_def)
  moreover have "free_inodes s1 = free_inodes s" "inodes s1 = inodes s"
    "free_blocks s1 = free_blocks s - 1" by (simp_all add: s1_def)
  ultimately show thesis
    using b unused used addr data ptr wf that [of b s1] unfolding fresh_alloc_def by blast
qed

text \<open>The combination every caller uses: allocate, then store the address at \<open>L0\<close>.\<close>

lemma node_step_attach:
  assumes "wf_blocks s" "b < DATA_BLOCKS_NUM" "\<not> blk_used s b"
    and "discos_addr s' = discos_addr s" "free_inodes s' = free_inodes s"
    and "\<And>c. blk_used s c \<Longrightarrow> blk_used s' c" "\<And>m. m \<noteq> n \<Longrightarrow> inodes s' m = inodes s m"
    and "itype (inodes s' n) = itype (inodes s n)" "access (inodes s' n) = access (inodes s n)"
    and "node_of L0 = n" "counter_ok s \<Longrightarrow> counter_ok s'"
    and "\<And>l. valid_loc l \<Longrightarrow> ptr_at s' l = (if l = L0 then blk_addr s b else ptr_at s l)"
    and "\<And>c. c < DATA_BLOCKS_NUM \<Longrightarrow> blk_used s c \<Longrightarrow> \<not> owns s n c \<Longrightarrow> same_block s s' c"
  shows "node_step n s s'"
proof -
  have "\<not> owns s' n c" if c: "c < DATA_BLOCKS_NUM" "blk_used s c" "\<not> owns s n c" for c
  proof
    assume "owns s' n c"
    then obtain l where l: "valid_loc l" "node_of l = n" "ptr_at s' l = blk_addr s c"
      by (auto simp: owns_def addr_frame(1) [OF assms(4)])
    show False
    proof (cases "l = L0")
      case True
      then show ?thesis using l c assms(2,3,12) blk_addr_inj [OF assms(2) c(1)] by auto
    next
      case False
      then show ?thesis using l c assms(12) by (auto simp: owns_def)
    qed
  qed
  then show ?thesis using assms(4-11,13) by (auto simp: node_step_def)
qed

text \<open>The result of hanging the fresh block \<open>b\<close> at the empty place \<open>L0\<close>.\<close>

definition attached :: "filesys_struct \<Rightarrow> loc \<Rightarrow> nat \<Rightarrow> filesys_struct \<Rightarrow> bool" where
  "attached s L0 b s' \<longleftrightarrow>
     b < DATA_BLOCKS_NUM \<and> \<not> blk_used s b \<and> (\<forall>c. blk_used s' c \<longleftrightarrow> blk_used s c \<or> c = b)
     \<and> discos_addr s' = discos_addr s \<and> free_blocks s' = free_blocks s - 1
     \<and> (\<forall>x. x div BLOCK_SIZE = b \<longrightarrow> data_blocks s' x = NUL)
     \<and> (\<forall>l. valid_loc l \<longrightarrow> ptr_at s' l = (if l = L0 then blk_addr s b else ptr_at s l))
     \<and> wf_blocks s' \<and> node_step (node_of L0) s s'
     \<and> (\<forall>l c. valid_loc l \<longrightarrow> \<not> index_loc l \<longrightarrow> c < DATA_BLOCKS_NUM \<longrightarrow> ptr_at s l = blk_addr s c
           \<longrightarrow> same_block s s' c)
     \<and> (\<forall>m. isize (inodes s' m) = isize (inodes s m))"

lemma attachedD:
  assumes "attached s L0 b s'"
  shows "b < DATA_BLOCKS_NUM" "\<not> blk_used s b" "\<And>c. blk_used s' c \<longleftrightarrow> blk_used s c \<or> c = b"
    "discos_addr s' = discos_addr s" "free_blocks s' = free_blocks s - 1"
    "\<And>x. x div BLOCK_SIZE = b \<Longrightarrow> data_blocks s' x = NUL"
    "\<And>l. valid_loc l \<Longrightarrow> ptr_at s' l = (if l = L0 then blk_addr s b else ptr_at s l)"
    "wf_blocks s'" "node_step (node_of L0) s s'"
    "\<And>l c. valid_loc l \<Longrightarrow> \<not> index_loc l \<Longrightarrow> c < DATA_BLOCKS_NUM \<Longrightarrow> ptr_at s l = blk_addr s c
       \<Longrightarrow> same_block s s' c"
    "\<And>m. isize (inodes s' m) = isize (inodes s m)"
  using assms unfolding attached_def by blast+

lemma fresh_allocD:
  assumes "fresh_alloc s b s1"
  shows "b < DATA_BLOCKS_NUM" "\<not> blk_used s b" "\<And>c. blk_used s1 c \<longleftrightarrow> blk_used s c \<or> c = b"
    "discos_addr s1 = discos_addr s" "inodes s1 = inodes s" "free_inodes s1 = free_inodes s"
    "free_blocks s1 = free_blocks s - 1"
    "\<And>x. data_blocks s1 x = (if x div BLOCK_SIZE = b then NUL else data_blocks s x)"
    "\<And>l. valid_loc l \<Longrightarrow> ptr_at s1 l = ptr_at s l" "wf_blocks s1" "detached s1 b"
    "counter_ok s \<Longrightarrow> counter_ok s1"
  using assms unfolding fresh_alloc_def by blast+

lemma attach_inode:
  assumes wf: "wf_blocks s" and a: "fresh_alloc s b s1"
    and L0: "valid_loc L0" "node_of L0 = n" "ptr_at s L0 = 0"
    and f: "(\<exists>i. L0 = Dir n i \<and> f = (\<lambda>ino q. ino\<lparr>pointers := (pointers ino)(i := q)\<rparr>))
       \<or> (L0 = Sng n \<and> f = (\<lambda>ino q. ino\<lparr>single_indirect_ptrs := q\<rparr>))
       \<or> (L0 = Dbl n \<and> f = (\<lambda>ino q. ino\<lparr>double_indirect_ptrs := q\<rparr>))"
  shows "attached s L0 b (set_inode s1 n (f (inodes s1 n) (blk_addr s b)))"
proof -
  note a = fresh_allocD [OF a]
  note A = addr_frame [OF a(4)]
  let ?s' = "set_inode s1 n (f (inodes s1 n) (blk_addr s b))"
  have f1: "(\<exists>i. L0 = Dir n i \<and> f (inodes s1 n) (blk_addr s b)
        = (inodes s1 n)\<lparr>pointers := (pointers (inodes s1 n))(i := blk_addr s1 b)\<rparr>)
     \<or> (L0 = Sng n \<and> f (inodes s1 n) (blk_addr s b) = (inodes s1 n)\<lparr>single_indirect_ptrs := blk_addr s1 b\<rparr>)
     \<or> (L0 = Dbl n \<and> f (inodes s1 n) (blk_addr s b) = (inodes s1 n)\<lparr>double_indirect_ptrs := blk_addr s1 b\<rparr>)"
    using f by (auto simp: A)
  have p: "ptr_at ?s' l = (if l = L0 then blk_addr s b else ptr_at s l)" if "valid_loc l" for l
    using ptr_at_attach_inode [OF a(11) wf_region [OF a(10)] that L0(2) _ f1] L0(3) a(9) [OF that]
      a(9) [OF L0(1)] by (simp add: A)
  have wf': "wf_blocks ?s'"
    using p a(9) by (intro wf_attach [OF a(10,11) _ L0(1)]) (auto simp: A)
  have "node_step n s ?s'"
  proof (rule node_step_attach [OF wf a(1,2), where ?L0.0 = L0])
    show "itype (inodes ?s' n) = itype (inodes s n)" "access (inodes ?s' n) = access (inodes s n)"
      using f a(5) by auto
    show "counter_ok ?s'" if "counter_ok s"
      using a(12) [OF that] by (simp add: counter_ok_def free_set_def)
    show "same_block s ?s' c" if "blk_used s c" for c
      using that a(2,8) by (auto simp: same_block_def)
  qed (use a p L0 in auto)
  moreover have "same_block s ?s' c" if "valid_loc l" "c < DATA_BLOCKS_NUM" "ptr_at s l = blk_addr s c" for l c
    using wf_used [OF wf that] a(2,8) by (auto simp: same_block_def)
  moreover have "isize (inodes ?s' m) = isize (inodes s m)" for m using f a(5) by auto
  ultimately show ?thesis
    using a(1-4,7,8) wf' p L0(2) unfolding attached_def by auto
qed

lemma attach_index:
  assumes wf: "wf_blocks s" and a: "fresh_alloc s b s1"
    and L: "valid_loc (Sub L k)" "ptr_at s L = blk_addr s c" "c < DATA_BLOCKS_NUM"
    and null: "ptr_at s (Sub L k) = 0"
  obtains s2 where "store_index s1 (blk_addr s c) k (blk_addr s b) = Some s2"
    "load_index s2 (blk_addr s c) k = Some (blk_addr s b)" "attached s (Sub L k) b s2"
    "inodes s2 = inodes s" "b \<noteq> c"
proof -
  note a = fresh_allocD [OF a]
  note A = addr_frame [OF a(4)]
  have vL: "valid_loc L" "index_loc L" and k: "k < PTRS_PER_BLOCK" using L(1) by auto
  have cnz: "ptr_at s L \<noteq> 0" using L(2,3) blk_addr_nonzero wf by simp
  have "blk_used s c" using wf_used [OF wf vL(1) L(3,2)] .
  then have bc: "b \<noteq> c" using a(2) by auto
  define s2 where "s2 = s1\<lparr>data_blocks := upd_region (data_blocks s1) (BLOCK_SIZE * c + 4 * k)
      (enc_le 4 (unat (blk_addr s b)))\<rparr>"
  have st: "store_index s1 (blk_addr s c) k (blk_addr s b) = Some s2"
    using store_index_blk [OF L(3) k, of s1] by (simp add: A s2_def)
  have addr2: "discos_addr s2 = discos_addr s" using a(4) by (simp add: s2_def)
  have inside: "x div BLOCK_SIZE = c"
    if "BLOCK_SIZE * c + 4 * k \<le> x" "x < BLOCK_SIZE * c + 4 * k + 4" for x
    using that k by auto
  have dat2: "data_blocks s2 x = data_blocks s1 x" if "x div BLOCK_SIZE \<noteq> c" for x
    using that inside by (auto simp: s2_def upd_region_def)
  have p: "ptr_at s2 l = (if l = Sub L k then blk_addr s b else ptr_at s l)" if "valid_loc l" for l
    using that
  proof (induction l)
    case (Sub M j)
    have M: "valid_loc M" "index_loc M" "j < PTRS_PER_BLOCK" using Sub.prems by auto
    show ?case
    proof (cases "M = Sub L k")
      case True
      have "index_at s2 (blk_addr s b) j = 0"
        using a(1,8) M bc dat2 by (intro index_at_zero [of _ _ b]) (auto simp: addr_frame [OF addr2])
      moreover have "ptr_at s2 M = blk_addr s b" using True Sub.IH [OF M(1)] by simp
      ultimately show ?thesis using True null by auto
    next
      case False
      then have IH: "ptr_at s2 M = ptr_at s M" using Sub.IH [OF M(1)] by simp
      show ?thesis
      proof (cases "ptr_at s M = 0")
        case True
        then show ?thesis using IH cnz by auto
      next
        case nz: False
        from wf_blocksD [OF wf M(1) nz] obtain d where d: "d < DATA_BLOCKS_NUM" "ptr_at s M = blk_addr s d" by blast
        have "index_at s2 (ptr_at s M) j = (if d = c \<and> j = k then blk_addr s b else index_at s1 (ptr_at s M) j)"
          using d L(3) k M(3) by (intro index_at_store [OF st]) (auto simp: A)
        moreover have "d = c \<longleftrightarrow> M = L"
          using d L(2,3) wf_blocks_inj [OF wf M(1) vL(1) nz] blk_addr_inj [OF L(3) d(1)] by auto
        moreover have "index_at s1 (ptr_at s M) j = index_at s (ptr_at s M) j"
          using a(9) [OF Sub.prems] a(9) [OF M(1)] nz by simp
        ultimately show ?thesis using IH nz by auto
      qed
    qed
  qed (auto simp: s2_def a(5))
  have used2: "blk_used s2 x \<longleftrightarrow> blk_used s x \<or> x = b" for x using a(3) by (simp add: s2_def)
  have wf2: "wf_blocks s2"
    using p a(9) by (intro wf_attach [OF a(10,11) _ L(1)]) (auto simp: A a(4) addr2 s2_def)
  have "node_step (node_of L) s s2"
  proof (rule node_step_attach [OF wf a(1,2), where ?L0.0 = "Sub L k"])
    show "counter_ok s2" if "counter_ok s"
      using a(12) [OF that] by (simp add: counter_ok_def free_set_def s2_def)
    show "same_block s s2 d" if "d < DATA_BLOCKS_NUM" "blk_used s d" "\<not> owns s (node_of L) d" for d
    proof -
      have "d \<noteq> c" "d \<noteq> b" using that L(2) vL a(2) by (auto simp: owns_def)
      then show ?thesis using dat2 a(8) by (auto simp: same_block_def)
    qed
  qed (use used2 a(4,5,6) addr2 p in \<open>auto simp: s2_def\<close>)
  moreover have "data_blocks s2 x = NUL" if "x div BLOCK_SIZE = b" for x
    using that bc dat2 a(8) by auto
  moreover have "same_block s s2 d"
    if "valid_loc l" "\<not> index_loc l" "d < DATA_BLOCKS_NUM" "ptr_at s l = blk_addr s d" for l d
  proof -
    have "d \<noteq> b" using wf_used [OF wf that(1,3,4)] a(2) by auto
    moreover have "d \<noteq> c" using wf_blocks_inj [OF wf vL(1) that(1) cnz] L(2) that(2,4) vL(2) by auto
    ultimately show ?thesis using dat2 a(8) by (auto simp: same_block_def)
  qed
  ultimately have "attached s (Sub L k) b s2"
    using a(1,2,5,7) used2 addr2 wf2 p unfolding attached_def by (auto simp: s2_def)
  then show thesis
    using st load_store_index [OF st] bc a(5) by (intro that [of s2]) (auto simp: s2_def)
qed

section \<open>"Allocate if null"\<close>

text \<open>The source allocates a block wherever it finds a null pointer it needs.  Afterwards
  the pointer is a block address either way.\<close>

lemma ensure_inode_ptr:
  assumes wf: "wf_blocks s" and L0: "valid_loc L0" "node_of L0 = n"
    and ok: "ptr_at s L0 = 0 \<Longrightarrow> get_free_block_num_from_bitmap s \<noteq> -1"
    and f: "(\<exists>i. L0 = Dir n i \<and> f = (\<lambda>ino q. ino\<lparr>pointers := (pointers ino)(i := q)\<rparr>))
       \<or> (L0 = Sng n \<and> f = (\<lambda>ino q. ino\<lparr>single_indirect_ptrs := q\<rparr>))
       \<or> (L0 = Dbl n \<and> f = (\<lambda>ino q. ino\<lparr>double_indirect_ptrs := q\<rparr>))"
  obtains s1 c where
    "(if ptr_at s L0 = 0
      then Option.bind (allocate_data_block s (get_free_block_num_from_bitmap s))
             (\<lambda>(q, s'). Some (set_inode s' n (f (inodes s' n) q)))
      else Some s) = Some s1"
    "wf_blocks s1" "node_step n s s1" "c < DATA_BLOCKS_NUM" "ptr_at s1 L0 = blk_addr s1 c"
    "\<And>l. valid_loc l \<Longrightarrow> l \<noteq> L0 \<Longrightarrow> ptr_at s1 l = ptr_at s l"
    "ptr_at s L0 = 0 \<Longrightarrow> attached s L0 c s1" "ptr_at s L0 \<noteq> 0 \<Longrightarrow> s1 = s"
proof (cases "ptr_at s L0 = 0")
  case True
  obtain b s' where a: "allocate_data_block s (get_free_block_num_from_bitmap s) = Some (blk_addr s b, s')"
    "fresh_alloc s b s'"
    using alloc_fresh [OF wf ok [OF True]] by blast
  have att: "attached s L0 b (set_inode s' n (f (inodes s' n) (blk_addr s b)))"
    by (rule attach_inode [OF wf a(2) L0 True f])
  note D = attachedD [OF att]
  show ?thesis
    by (rule that [of "set_inode s' n (f (inodes s' n) (blk_addr s b))" b])
      (use True a(1) att D(1,7,8,9) L0 in \<open>auto simp: addr_frame(1) [OF D(4)] simp del: set_inode_fields addr_update\<close>)
next
  case False
  obtain c where "c < DATA_BLOCKS_NUM" "ptr_at s L0 = blk_addr s c"
    using wf_blocksD [OF wf L0(1) False] by blast
  then show ?thesis using False wf by (intro that [of s c]) auto
qed

lemma ensure_index_ptr:
  assumes wf: "wf_blocks s" and L: "valid_loc (Sub L k)" "ptr_at s L = blk_addr s c" "c < DATA_BLOCKS_NUM"
    and ok: "ptr_at s (Sub L k) = 0 \<Longrightarrow> get_free_block_num_from_bitmap s \<noteq> -1"
  obtains p s1 d where
    "(if ptr_at s (Sub L k) = 0
      then Option.bind (allocate_data_block s (get_free_block_num_from_bitmap s))
             (\<lambda>(q, s'). Option.bind (store_index s' (blk_addr s c) k q)
                (\<lambda>s''. Option.bind (load_index s'' (blk_addr s c) k) (\<lambda>b. Some (b, s''))))
      else Some (ptr_at s (Sub L k), s)) = Some (p, s1)"
    "wf_blocks s1" "node_step (node_of L) s s1" "d < DATA_BLOCKS_NUM" "p = blk_addr s1 d"
    "ptr_at s1 (Sub L k) = p"
    "\<And>l. valid_loc l \<Longrightarrow> l \<noteq> Sub L k \<Longrightarrow> ptr_at s1 l = ptr_at s l" "inodes s1 = inodes s"
    "ptr_at s (Sub L k) = 0 \<Longrightarrow> attached s (Sub L k) d s1" "ptr_at s (Sub L k) \<noteq> 0 \<Longrightarrow> s1 = s"
proof (cases "ptr_at s (Sub L k) = 0")
  case True
  obtain b s' where a: "allocate_data_block s (get_free_block_num_from_bitmap s) = Some (blk_addr s b, s')"
    "fresh_alloc s b s'"
    using alloc_fresh [OF wf ok [OF True]] by blast
  obtain s2 where s2: "store_index s' (blk_addr s c) k (blk_addr s b) = Some s2"
    "load_index s2 (blk_addr s c) k = Some (blk_addr s b)" "attached s (Sub L k) b s2"
    "inodes s2 = inodes s"
    using attach_index [OF wf a(2) L True] by blast
  note D = attachedD [OF s2(3)]
  show ?thesis
    by (rule that [of "blk_addr s b" s2 b])
      (use True a(1) s2 D(1,7,8,9) L(1) in \<open>auto simp: addr_frame(1) [OF D(4)] simp del: ptr_at.simps\<close>)
next
  case False
  obtain d where "d < DATA_BLOCKS_NUM" "ptr_at s (Sub L k) = blk_addr s d"
    using wf_blocksD [OF wf L(1) False] by blast
  then show ?thesis using False wf by (intro that [of "ptr_at s (Sub L k)" s d]) auto
qed

text \<open>Loading a slot of an index block of a well-formed partition.\<close>

lemma load_index_ptr_at:
  assumes "valid_loc (Sub L k)" "ptr_at s L = blk_addr s c" "c < DATA_BLOCKS_NUM" "wf_blocks s"
  shows "load_index s (blk_addr s c) k = Some (ptr_at s (Sub L k))"
  using assms blk_addr_nonzero [of s c] by (simp add: load_index_blk)

end
