(* ===== verification/Paths.thy ===== *)
theory Paths
  imports Disk
begin

text \<open>
  Path names: \<^verbatim>\<open>parse_absolute_path\<close>, which splits a path into its directory and its last
  component, and the tokens \<^verbatim>\<open>strsep\<close> hands to the directory search.  A path argument is
  the C string without its terminating NUL.

  The code copies paths into buffers that come from \<^verbatim>\<open>vmalloc\<close> and \<^verbatim>\<open>kmalloc\<close>, of which it
  asks for one byte less than \<^verbatim>\<open>strcpy\<close> stores.  An allocation is a parameter: it yields \<^term>\<open>None\<close>
  for \<^verbatim>\<open>NULL\<close>, or the bytes of the object, which may be longer than was asked for
  (\<^verbatim>\<open>vmalloc\<close> hands out whole pages, \<^verbatim>\<open>ksize\<close> tells how long an object of \<^verbatim>\<open>kmalloc\<close> is) and
  hold anything.  A store behind the end of the object is undefined, as is a \<^verbatim>\<open>strlen\<close> of an
  object without a NUL, and so is any use of \<^verbatim>\<open>NULL\<close>.
\<close>

section \<open>Buffers\<close>

text \<open>What an allocation is for, so that objects of the same size can hold different bytes:
  the copy of the path of \<^verbatim>\<open>rd_open\<close>, \<^verbatim>\<open>rd_chmod\<close> and \<^verbatim>\<open>rd_unlink\<close>; the two parts of a path;
  \<^verbatim>\<open>temp_pathname\<close> of the directory search; the two buffers of \<^verbatim>\<open>rd_mkdir\<close> that nothing is stored
  in; the argument structure, the path and the data of a system call.\<close>

datatype alloc_use = Path_Copy | Dir_Part | Name_Part | Temp_Path | Pwd | Filename
  | Args | Path_Arg | Data_Arg

type_synonym allocator = "alloc_use \<Rightarrow> nat \<Rightarrow> string option"

text \<open>\<^verbatim>\<open>memset(buf, 0, strlen(buf))\<close>; without a NUL in the buffer \<^verbatim>\<open>strlen\<close> runs off its end.\<close>

definition memset_strlen :: "string \<Rightarrow> string option" where
  "memset_strlen buf =
     (if NUL \<in> set buf
      then let n = length (cstring buf) in Some (replicate n NUL @ drop n buf)
      else None)"

text \<open>A new buffer of \<open>n\<close> bytes, cleared up to the first NUL that it happens to hold.\<close>

definition fresh_buffer :: "allocator \<Rightarrow> alloc_use \<Rightarrow> nat \<Rightarrow> string option" where
  "fresh_buffer vm u n = Option.bind (vm u n) memset_strlen"

definition c_string :: "string \<Rightarrow> string option" where
  "c_string buf = (if NUL \<in> set buf then Some (cstring buf) else None)"

definition strncpy_buf :: "string \<Rightarrow> string \<Rightarrow> nat \<Rightarrow> string" where
  "strncpy_buf dst src n = take n src @ replicate (n - length src) NUL @ drop n dst"

definition strcpy_buf :: "string \<Rightarrow> string \<Rightarrow> string" where
  "strcpy_buf dst src = src @ NUL # drop (Suc (length src)) dst"

text \<open>\<^verbatim>\<open>buf = alloc(strlen(path)); memset(buf, 0, strlen(buf)); strcpy(buf, path)\<close>: the copy is
  the same string, when the object has room for its terminator.\<close>

definition copy_path :: "allocator \<Rightarrow> alloc_use \<Rightarrow> string \<Rightarrow> string option" where
  "copy_path vm u path = do {
     buf \<leftarrow> fresh_buffer vm u (length path);
     if length path < length buf then Some path else None
   }"

section \<open>Splitting a path\<close>

text \<open>The backwards loop of \<^verbatim>\<open>parse_absolute_path\<close>: the largest \<open>i < n\<close> with a slash.\<close>

fun last_slash :: "string \<Rightarrow> nat \<Rightarrow> nat option" where
  "last_slash path 0 = None"
| "last_slash path (Suc i) = (if path ! i = CHR ''/'' then Some i else last_slash path i)"

definition parse_absolute_path :: "string \<Rightarrow> string \<Rightarrow> string \<times> string" where
  "parse_absolute_path path current_dir =
     (case last_slash path (length path) of
        None \<Rightarrow> (current_dir, path)
      | Some i \<Rightarrow>
          (if i \<noteq> 0 then strncpy_buf current_dir path i else strcpy_buf current_dir ''/'',
           drop (Suc i) path))"

text \<open>The four statements with which \<^verbatim>\<open>rd_create\<close> and \<^verbatim>\<open>rd_unlink\<close> split a path, and the stores
  of \<^verbatim>\<open>parse_absolute_path\<close> in the two buffers; the directory part is then read as a string.\<close>

definition split_path :: "allocator \<Rightarrow> string \<Rightarrow> (string \<times> string) option" where
  "split_path vm pathname = do {
     buf \<leftarrow> fresh_buffer vm Dir_Part (length pathname);
     name_buf \<leftarrow> fresh_buffer vm Name_Part (length pathname);
     let (dir_buf, name) = parse_absolute_path pathname buf;
     if length buf < length dir_buf \<or> length name_buf \<le> length name then None
     else do { dir \<leftarrow> c_string dir_buf; Some (dir, name) }
   }"

text \<open>The tokens of \<^verbatim>\<open>strsep(&s, "/")\<close>, empty ones included.\<close>

fun strsep_tokens :: "string \<Rightarrow> string list" where
  "strsep_tokens [] = [[]]"
| "strsep_tokens (c # cs) =
     (if c = CHR ''/'' then [] # strsep_tokens cs
      else (case strsep_tokens cs of [] \<Rightarrow> [[c]] | t # ts \<Rightarrow> (c # t) # ts))"

section \<open>Path syntax\<close>

text \<open>A component is a name that fits \<^verbatim>\<open>char name[14]\<close> with its terminator; an absolute
  path is a slash before each of its components.\<close>

definition is_name :: "string \<Rightarrow> bool" where
  "is_name t \<longleftrightarrow> t \<noteq> [] \<and> length t < 14 \<and> is_cstr t \<and> CHR ''/'' \<notin> set t"

definition path_of :: "string list \<Rightarrow> string" where
  "path_of ts = (if ts = [] then ''/'' else concat (map (\<lambda>t. CHR ''/'' # t) ts))"

text \<open>What a call with a path needs of the memory that it happens to get: no allocation fails, each
  object has one byte more than was asked for and a NUL somewhere, and the buffer for the directory
  part has one behind the place of this part, because \<^verbatim>\<open>strncpy\<close> adds none.  A path to an entry
  of the root directory does not need the last of these.\<close>

definition grants :: "allocator \<Rightarrow> alloc_use \<Rightarrow> nat \<Rightarrow> bool" where
  "grants vm u n \<longleftrightarrow> (case vm u n of None \<Rightarrow> False | Some buf \<Rightarrow> n < length buf \<and> NUL \<in> set buf)"

definition dir_ends :: "allocator \<Rightarrow> nat \<Rightarrow> nat \<Rightarrow> bool" where
  "dir_ends vm n d \<longleftrightarrow>
     (case fresh_buffer vm Dir_Part n of None \<Rightarrow> False | Some buf \<Rightarrow> d < length buf \<and> buf ! d = NUL)"

definition dir_length :: "string \<Rightarrow> nat" where
  "dir_length path = (case last_slash path (length path) of None \<Rightarrow> 0 | Some i \<Rightarrow> i)"

definition serves :: "allocator \<Rightarrow> string \<Rightarrow> bool" where
  "serves vm path \<longleftrightarrow>
     grants vm Path_Copy (length path) \<and> grants vm Dir_Part (length path)
     \<and> grants vm Name_Part (length path) \<and> grants vm Pwd (length path) \<and> grants vm Filename (length path)
     \<and> grants vm Temp_Path (length path) \<and> grants vm Temp_Path (max 1 (dir_length path))
     \<and> (dir_length path \<noteq> 0 \<longrightarrow> dir_ends vm (length path) (dir_length path))"

section \<open>Lemmas\<close>

lemma strsep_tokens_nonempty [simp]: "strsep_tokens s \<noteq> []"
  by (cases s) (auto split: list.splits)

lemma strsep_tokens_name: "CHR ''/'' \<notin> set t \<Longrightarrow> strsep_tokens t = [t]"
  by (induction t) auto

lemma strsep_tokens_append:
  "CHR ''/'' \<notin> set t \<Longrightarrow> strsep_tokens (t @ CHR ''/'' # s) = t # strsep_tokens s"
  by (induction t) auto

lemma strsep_path:
  "ts \<noteq> [] \<Longrightarrow> \<forall>t \<in> set ts. CHR ''/'' \<notin> set t \<Longrightarrow> strsep_tokens (tl (path_of ts)) = ts"
proof (induction ts)
  case Nil
  then show ?case by simp
next
  case (Cons t ts)
  show ?case
  proof (cases ts)
    case Nil
    then show ?thesis using Cons.prems by (simp add: path_of_def strsep_tokens_name)
  next
    case (Cons u us)
    have "strsep_tokens (tl (path_of ts)) = ts"
      using Cons.IH Cons.prems Cons by simp
    moreover have "tl (path_of (t # ts)) = t @ CHR ''/'' # tl (path_of ts)"
      using Cons by (simp add: path_of_def)
    ultimately show ?thesis using Cons.prems by (simp add: strsep_tokens_append)
  qed
qed

lemma last_slash_less: "last_slash path n = Some i \<Longrightarrow> i < n"
  by (induction n) (auto split: if_splits)

lemma last_slash_append:
  assumes "CHR ''/'' \<notin> set t" "k \<le> length t"
  shows "last_slash (p @ CHR ''/'' # t) (Suc (length p + k)) = Some (length p)"
  using assms(2)
proof (induction k)
  case 0
  then show ?case by simp
next
  case (Suc k)
  have "(p @ CHR ''/'' # t) ! (Suc (length p) + k) = t ! k"
    using Suc.prems by (simp add: nth_append)
  moreover have "t ! k \<noteq> CHR ''/''"
    using assms(1) Suc.prems by (metis Suc_le_lessD nth_mem)
  ultimately show ?case
    using Suc by (simp del: last_slash.simps add: last_slash.simps(2))
qed

lemma last_slash_dir_name:
  assumes "CHR ''/'' \<notin> set t"
  shows "last_slash (p @ CHR ''/'' # t) (length (p @ CHR ''/'' # t)) = Some (length p)"
  using last_slash_append [OF assms order_refl] by simp

lemma path_of_append: "ts \<noteq> [] \<Longrightarrow> path_of (ts @ [t]) = path_of ts @ CHR ''/'' # t"
  by (simp add: path_of_def)

lemma path_of_pos: "0 < length (path_of ts)"
  by (cases ts) (auto simp: path_of_def)

lemma length_memset_strlen: "memset_strlen buf = Some b \<Longrightarrow> length b = length buf \<and> NUL \<in> set b"
proof -
  assume m: "memset_strlen buf = Some b"
  then have N: "NUL \<in> set buf" and b: "b = replicate (length (cstring buf)) NUL @ drop (length (cstring buf)) buf"
    by (auto simp: memset_strlen_def Let_def split: if_splits)
  have "cstring buf \<noteq> buf" using N by (auto simp: cstring_def takeWhile_eq_all_conv)
  then have n: "length (cstring buf) < length buf"
    using length_takeWhile_le [of "\<lambda>c. c \<noteq> NUL" buf] takeWhile_eq_take [of "\<lambda>c. c \<noteq> NUL" buf]
    by (fastforce simp: cstring_def le_less)
  then have "buf ! length (cstring buf) = NUL"
    using nth_length_takeWhile [of "\<lambda>c. c \<noteq> NUL" buf] by (simp add: cstring_def)
  then have "NUL \<in> set (drop (length (cstring buf)) buf)" using n by (metis Cons_nth_drop_Suc list.set_intros(1))
  then show ?thesis using n by (simp add: b)
qed

lemma fresh_granted:
  assumes "grants vm u n"
  obtains b where "fresh_buffer vm u n = Some b" "n < length b"
proof -
  obtain buf where buf: "vm u n = Some buf" "n < length buf" "NUL \<in> set buf"
    using assms by (auto simp: grants_def split: option.splits)
  then obtain b where "memset_strlen buf = Some b" by (simp add: memset_strlen_def Let_def)
  then show thesis using that buf length_memset_strlen [of buf b] by (simp add: fresh_buffer_def)
qed

lemma copy_path_served: "grants vm u (length path) \<Longrightarrow> copy_path vm u path = Some path"
  by (erule fresh_granted) (simp add: copy_path_def)

lemma parse_dir_name:
  assumes "CHR ''/'' \<notin> set t"
  shows "parse_absolute_path (p @ CHR ''/'' # t) buf =
     (if p = [] then CHR ''/'' # NUL # drop 2 buf else p @ drop (length p) buf, t)"
  unfolding parse_absolute_path_def last_slash_dir_name [OF assms]
  by (simp add: strncpy_buf_def strcpy_buf_def numeral_2_eq_2)

lemma c_string_terminated: "is_cstr p \<Longrightarrow> c_string (p @ NUL # t) = Some p"
  by (simp add: c_string_def)

text \<open>The parts of a path, in two buffers that are long enough and, for a parent other than the
  root, terminated where its name ends.\<close>

lemma split_buffers:
  assumes "is_cstr p" "CHR ''/'' \<notin> set t" "length (p @ CHR ''/'' # t) < length b" "length (p @ CHR ''/'' # t) < length nb"
    "p \<noteq> [] \<Longrightarrow> b ! length p = NUL"
  shows "\<exists>d. parse_absolute_path (p @ CHR ''/'' # t) b = (d, t) \<and> \<not> (length b < length d \<or> length nb \<le> length t)
    \<and> c_string d = Some (if p = [] then ''/'' else p)"
proof (cases "p = []")
  case True
  have "c_string (CHR ''/'' # NUL # drop 2 b) = Some ''/''"
    using c_string_terminated [of "''/''" "drop 2 b"] by simp
  then show ?thesis using True assms(3,4) parse_dir_name [OF assms(2), of p b] by auto
next
  case False
  then have "drop (length p) b = NUL # drop (Suc (length p)) b"
    using assms(3,5) Cons_nth_drop_Suc [of "length p" b] by simp
  then have "c_string (p @ drop (length p) b) = Some p" using c_string_terminated [OF assms(1)] by simp
  then show ?thesis using False assms(3,4) parse_dir_name [OF assms(2), of p b] by auto
qed

lemma dir_length_parts: "CHR ''/'' \<notin> set t \<Longrightarrow> dir_length (p @ CHR ''/'' # t) = length p"
  using last_slash_dir_name [of t p] by (simp add: dir_length_def del: last_slash.simps length_append)

lemma split_path_parts:
  assumes "is_cstr p" "CHR ''/'' \<notin> set t" "serves vm (p @ CHR ''/'' # t)"
  shows "split_path vm (p @ CHR ''/'' # t) = Some (if p = [] then ''/'' else p, t)"
proof -
  let ?path = "p @ CHR ''/'' # t"
  have room: "grants vm Dir_Part (length ?path)" "grants vm Name_Part (length ?path)"
    using assms(3) by (simp_all add: serves_def)
  obtain b where b: "fresh_buffer vm Dir_Part (length ?path) = Some b" "length ?path < length b"
    by (rule fresh_granted [OF room(1)])
  obtain nb where nb: "fresh_buffer vm Name_Part (length ?path) = Some nb" "length ?path < length nb"
    by (rule fresh_granted [OF room(2)])
  have "b ! length p = NUL" if "p \<noteq> []"
  proof -
    have "dir_ends vm (length ?path) (length p)" using assms(2,3) that by (simp add: serves_def dir_length_parts)
    then show ?thesis using b(1) by (simp add: dir_ends_def)
  qed
  then obtain d where "parse_absolute_path ?path b = (d, t)" "\<not> (length b < length d \<or> length nb \<le> length t)"
    "c_string d = Some (if p = [] then ''/'' else p)"
    using split_buffers [OF assms(1,2) b(2) nb(2)] by blast
  then show ?thesis using b(1) nb(1) by (simp add: split_path_def)
qed

lemma path_of_cstr: "\<forall>u \<in> set ds. is_name u \<Longrightarrow> is_cstr (concat (map (\<lambda>t. CHR ''/'' # t) ds))"
  by (induction ds) (auto simp: is_name_def)

lemma split_path_served:
  assumes "\<forall>u \<in> set ds. is_name u" "is_name t" "serves vm (path_of (ds @ [t]))"
  shows "split_path vm (path_of (ds @ [t])) = Some (path_of ds, t)"
proof -
  let ?p = "concat (map (\<lambda>t. CHR ''/'' # t) ds)"
  have "path_of (ds @ [t]) = ?p @ CHR ''/'' # t" by (simp add: path_of_def)
  moreover have "?p = [] \<longleftrightarrow> ds = []" by (cases ds) auto
  moreover have "CHR ''/'' \<notin> set t" using assms(2) by (simp add: is_name_def)
  ultimately show ?thesis
    using split_path_parts [OF path_of_cstr [OF assms(1)], of t vm] assms(3) by (auto simp: path_of_def)
qed

text \<open>The rooms that the directory searches of a call need.\<close>

lemma serves_find:
  assumes "serves vm (path_of (ds @ [t]))" "\<forall>u \<in> set ds. is_name u" "is_name t"
  shows "grants vm Temp_Path (length (path_of (ds @ [t])))" "grants vm Temp_Path (length (path_of ds))"
proof -
  let ?p = "concat (map (\<lambda>t. CHR ''/'' # t) ds)"
  have "CHR ''/'' \<notin> set t" using assms(3) by (simp add: is_name_def)
  then have "dir_length (path_of (ds @ [t])) = length ?p"
    using last_slash_dir_name [of t ?p] by (simp add: path_of_def dir_length_def del: last_slash.simps)
  moreover have "max 1 (length ?p) = length (path_of ds)" by (cases ds) (auto simp: path_of_def)
  ultimately show "grants vm Temp_Path (length (path_of (ds @ [t])))" "grants vm Temp_Path (length (path_of ds))"
    using assms(1) by (simp_all add: serves_def)
qed

end
