(* ===== verification/Lookup.thy ===== *)
theory Lookup
  imports Paths
begin

text \<open>
  The directory search: \<^verbatim>\<open>my_find_inode_number\<close> and \<^verbatim>\<open>find_entry_in_current_dir\<close> of
  \<^verbatim>\<open>kernelspace/discos.c\<close>.  A loop \<^verbatim>\<open>for (i = a; i < b; i++)\<close> is a recursion over the
  index \<open>i\<close> and the number of iterations left.

  The C code tells "found" from "not found" by comparing the index node number of the
  match with that of the directory it searches (\<open>pre\<close>); the model keeps that test.
\<close>

section \<open>One directory\<close>

fun scan_entries :: "filesys_struct \<Rightarrow> ptr \<Rightarrow> string \<Rightarrow> nat \<Rightarrow> nat \<Rightarrow> nat \<Rightarrow> nat option" where
  "scan_entries s p found cur j 0 = Some cur"
| "scan_entries s p found cur j (Suc n) = do {
     eq \<leftarrow> strcmp_eq s (entry_addr s p j) found;
     if eq then load_inode_num s (entry_addr s p j)
     else scan_entries s p found cur (Suc j) n
   }"

fun scan_direct :: "filesys_struct \<Rightarrow> inode_struct \<Rightarrow> string \<Rightarrow> nat \<Rightarrow> nat \<Rightarrow> nat \<Rightarrow> nat option" where
  "scan_direct s ino found pre i 0 = Some pre"
| "scan_direct s ino found pre i (Suc n) = do {
     cur \<leftarrow> (if pointers ino i \<noteq> 0
            then scan_entries s (pointers ino i) found pre 0 ENTRIES_PER_BLOCK else Some pre);
     if cur \<noteq> pre then Some cur else scan_direct s ino found pre (Suc i) n
   }"

fun scan_single :: "filesys_struct \<Rightarrow> ptr \<Rightarrow> string \<Rightarrow> nat \<Rightarrow> nat \<Rightarrow> nat \<Rightarrow> nat option" where
  "scan_single s idx found pre i 0 = Some pre"
| "scan_single s idx found pre i (Suc n) = do {
     p \<leftarrow> load_index s idx i;
     cur \<leftarrow> (if p \<noteq> 0 then scan_entries s p found pre 0 ENTRIES_PER_BLOCK else Some pre);
     if cur \<noteq> pre then Some cur else scan_single s idx found pre (Suc i) n
   }"

fun scan_double :: "filesys_struct \<Rightarrow> ptr \<Rightarrow> string \<Rightarrow> nat \<Rightarrow> nat \<Rightarrow> nat \<Rightarrow> nat option" where
  "scan_double s dbl found pre k 0 = Some pre"
| "scan_double s dbl found pre k (Suc n) = do {
     sp \<leftarrow> load_index s dbl k;
     cur \<leftarrow> (if sp \<noteq> 0 then scan_single s sp found pre 0 PTRS_PER_BLOCK else Some pre);
     if cur \<noteq> pre then Some cur else scan_double s dbl found pre (Suc k) n
   }"

definition dir_search :: "filesys_struct \<Rightarrow> nat \<Rightarrow> string \<Rightarrow> nat option" where
  "dir_search s pre found = do {
     ino \<leftarrow> get_inode s pre;
     c1 \<leftarrow> scan_direct s ino found pre 0 INODE_NUM_DIRECT_PTR;
     if c1 \<noteq> pre then Some c1
     else do {
       c2 \<leftarrow> (if single_indirect_ptrs ino \<noteq> 0
             then scan_single s (single_indirect_ptrs ino) found pre 0 PTRS_PER_BLOCK else Some pre);
       if c2 \<noteq> pre then Some c2
       else if double_indirect_ptrs ino \<noteq> 0
            then scan_double s (double_indirect_ptrs ino) found pre 0 PTRS_PER_BLOCK else Some pre
     }
   }"

section \<open>A path\<close>

fun walk :: "filesys_struct \<Rightarrow> nat \<Rightarrow> string list \<Rightarrow> int option" where
  "walk s cur [] = Some (int cur)"
| "walk s cur (found # ts) = do {
     n \<leftarrow> dir_search s cur found;
     if n \<noteq> cur then walk s n ts else Some (-1)
   }"

text \<open>The search, on the copy of the path; the empty string makes the code step over its
  terminating NUL: undefined.\<close>

definition search_path :: "filesys_struct \<Rightarrow> string \<Rightarrow> int option" where
  "search_path s temp_pathname =
     (if temp_pathname = [] then None
      else if temp_pathname = ''/'' then Some 0
      else walk s 0 (strsep_tokens (tl temp_pathname)))"

definition my_find_inode_number :: "allocator \<Rightarrow> filesys_struct \<Rightarrow> string \<Rightarrow> int option" where
  "my_find_inode_number vm s pathname = do {
     temp_pathname \<leftarrow> copy_path vm Temp_Path pathname;
     search_path s temp_pathname
   }"

lemma my_find_granted:
  "grants vm Temp_Path (length pathname) \<Longrightarrow> my_find_inode_number vm s pathname = search_path s pathname"
  by (simp add: my_find_inode_number_def copy_path_served)

lemma my_find_SomeD: "my_find_inode_number vm s pathname = Some r \<Longrightarrow> search_path s pathname = Some r"
  by (auto simp: my_find_inode_number_def copy_path_def bind_eq_Some_conv split: if_splits)

section \<open>The address of an entry\<close>

fun find_entry_block :: "filesys_struct \<Rightarrow> ptr \<Rightarrow> string \<Rightarrow> nat \<Rightarrow> nat \<Rightarrow> nat option option" where
  "find_entry_block s p filename j 0 = Some None"
| "find_entry_block s p filename j (Suc n) = do {
     eq \<leftarrow> strcmp_eq s (entry_addr s p j) filename;
     if eq then Some (Some (entry_addr s p j)) else find_entry_block s p filename (Suc j) n
   }"

fun find_entry_direct :: "filesys_struct \<Rightarrow> inode_struct \<Rightarrow> string \<Rightarrow> nat \<Rightarrow> nat \<Rightarrow> nat option option" where
  "find_entry_direct s ino filename i 0 = Some None"
| "find_entry_direct s ino filename i (Suc n) = do {
     r \<leftarrow> (if pointers ino i \<noteq> 0
          then find_entry_block s (pointers ino i) filename 0 ENTRIES_PER_BLOCK else Some None);
     if r \<noteq> None then Some r else find_entry_direct s ino filename (Suc i) n
   }"

fun find_entry_single :: "filesys_struct \<Rightarrow> ptr \<Rightarrow> string \<Rightarrow> nat \<Rightarrow> nat \<Rightarrow> nat option option" where
  "find_entry_single s idx filename i 0 = Some None"
| "find_entry_single s idx filename i (Suc n) = do {
     p \<leftarrow> load_index s idx i;
     r \<leftarrow> (if p \<noteq> 0 then find_entry_block s p filename 0 ENTRIES_PER_BLOCK else Some None);
     if r \<noteq> None then Some r else find_entry_single s idx filename (Suc i) n
   }"

fun find_entry_double :: "filesys_struct \<Rightarrow> ptr \<Rightarrow> string \<Rightarrow> nat \<Rightarrow> nat \<Rightarrow> nat option option" where
  "find_entry_double s dbl filename i 0 = Some None"
| "find_entry_double s dbl filename i (Suc n) = do {
     sp \<leftarrow> load_index s dbl i;
     r \<leftarrow> (if sp \<noteq> 0 then find_entry_single s sp filename 0 PTRS_PER_BLOCK else Some None);
     if r \<noteq> None then Some r else find_entry_double s dbl filename (Suc i) n
   }"

definition find_entry_in_current_dir :: "filesys_struct \<Rightarrow> nat \<Rightarrow> string \<Rightarrow> nat option option" where
  "find_entry_in_current_dir s cur_dir filename = do {
     ino \<leftarrow> get_inode s cur_dir;
     r1 \<leftarrow> find_entry_direct s ino filename 0 INODE_NUM_DIRECT_PTR;
     if r1 \<noteq> None then Some r1
     else do {
       r2 \<leftarrow> (if single_indirect_ptrs ino \<noteq> 0
             then find_entry_single s (single_indirect_ptrs ino) filename 0 PTRS_PER_BLOCK
             else Some None);
       if r2 \<noteq> None then Some r2
       else if double_indirect_ptrs ino \<noteq> 0
            then find_entry_double s (double_indirect_ptrs ino) filename 0 PTRS_PER_BLOCK
            else Some None
     }
   }"

end
