(* ===== verification/Create.thy ===== *)
theory Create
  imports Bitmap Lookup
begin

text \<open>
  Creating files: index node allocation, the search for a free directory entry
  (\<^verbatim>\<open>get_next_entry\<close> and its helpers, which grow the directory block by block), and
  \<^verbatim>\<open>rd_create\<close>, \<^verbatim>\<open>rd_mkdir\<close> and the file system half of \<^verbatim>\<open>init_file_sys\<close> of
  \<^verbatim>\<open>kernelspace/discos.c\<close>.  A returned \<^verbatim>\<open>dir_entry_struct*\<close> is \<^term>\<open>Some a\<close>, the
  byte offset of the entry in the data blocks, or \<^term>\<open>None\<close> for \<^verbatim>\<open>NULL\<close>.
\<close>

section \<open>Control flow and access rights\<close>

text \<open>How a loop of the source ended: by a \<^verbatim>\<open>return\<close>, or by running to its end.\<close>

datatype 'a ctl = Return 'a | Fall

text \<open>The file modes \<^verbatim>\<open>RD\<close>, \<^verbatim>\<open>RW\<close> and \<^verbatim>\<open>WR\<close>: octal 444, 644 and 244.\<close>

abbreviation RD :: "32 word" where "RD \<equiv> 292"
abbreviation RW :: "32 word" where "RW \<equiv> 420"
abbreviation WR :: "32 word" where "WR \<equiv> 164"

section \<open>Index nodes\<close>

fun find_free_inode :: "(nat \<Rightarrow> inode_struct) \<Rightarrow> nat \<Rightarrow> nat \<Rightarrow> int" where
  "find_free_inode inds i 0 = -1"
| "find_free_inode inds i (Suc n) =
     (if itype (inds i) = '''' then int i else find_free_inode inds (Suc i) n)"

definition get_free_inode_num :: "filesys_struct \<Rightarrow> int" where
  "get_free_inode_num s =
     (if free_inodes s = 0 then -1 else find_free_inode (inodes s) 1 (MAX_NUM_FILE - 1))"

definition allocate_inode :: "filesys_struct \<Rightarrow> nat \<Rightarrow> filesys_struct option" where
  "allocate_inode s free_inode_num =
     (if free_inode_num < MAX_NUM_FILE
      then Some (set_inode (s\<lparr>free_inodes := free_inodes s - 1\<rparr>) free_inode_num zero_inode)
      else None)"

section \<open>The next free directory entry\<close>

fun next_dir_entry_loop :: "filesys_struct \<Rightarrow> ptr \<Rightarrow> nat \<Rightarrow> nat \<Rightarrow> nat option option" where
  "next_dir_entry_loop s block j 0 = Some None"
| "next_dir_entry_loop s block j (Suc n) = do {
     num \<leftarrow> load_inode_num s (entry_addr s block j);
     if num = 0 then Some (Some (entry_addr s block j))
     else next_dir_entry_loop s block (Suc j) n
   }"

definition get_next_dir_entry :: "filesys_struct \<Rightarrow> ptr \<Rightarrow> nat option option" where
  "get_next_dir_entry s block = next_dir_entry_loop s block 0 ENTRIES_PER_BLOCK"

definition get_next_dir_entry_single ::
  "filesys_struct \<Rightarrow> ptr \<Rightarrow> nat \<Rightarrow> (nat option \<times> filesys_struct) option" where
  "get_next_dir_entry_single s single_indirect seg = do {
     block \<leftarrow> load_index s single_indirect seg;
     if block = 0 then
       (let free_block_num = get_free_block_num_from_bitmap s in
        if free_block_num = -1 then Some (None, s)
        else do {
          (new_data_block, s1) \<leftarrow> allocate_data_block s free_block_num;
          s2 \<leftarrow> store_index s1 single_indirect seg new_data_block;
          q \<leftarrow> load_index s2 single_indirect seg;
          Some (Some (entry_addr s2 q 0), s2)
        })
     else do {
       e \<leftarrow> get_next_dir_entry s block;
       Some (e, s)
     }
   }"

text \<open>A newly allocated index block is used for this call but never stored in
  \<open>double_indirect\<close>: the assignment is commented out in the source.\<close>

definition get_next_dir_entry_double ::
  "filesys_struct \<Rightarrow> ptr \<Rightarrow> nat \<Rightarrow> (nat option \<times> filesys_struct) option" where
  "get_next_dir_entry_double s double_indirect segment = do {
     block \<leftarrow> load_index s double_indirect (segment div 64);
     if block = 0 then
       (let free_block_num = get_free_block_num_from_bitmap s in
        if free_block_num = -1 then Some (None, s)
        else do {
          (new_index_block, s1) \<leftarrow> allocate_data_block s free_block_num;
          get_next_dir_entry_single s1 new_index_block (segment mod 64)
        })
     else get_next_dir_entry_single s block (segment mod 64)
   }"

text \<open>The direct loop of \<^verbatim>\<open>get_next_entry\<close>, over the pointers of index node \<open>node\<close>.\<close>

fun next_entry_direct ::
  "filesys_struct \<Rightarrow> nat \<Rightarrow> nat \<Rightarrow> nat \<Rightarrow> (nat option ctl \<times> filesys_struct) option" where
  "next_entry_direct s node i 0 = Some (Fall, s)"
| "next_entry_direct s node i (Suc n) =
     (let dir_ptr = pointers (inodes s node) i in
      if dir_ptr = 0 then
        (let free_block_num = get_free_block_num_from_bitmap s in
         if free_block_num = -1 then Some (Return None, s)
         else do {
           (new_data_block, s1) \<leftarrow> allocate_data_block s free_block_num;
           let ino = inodes s1 node;
           let s2 = set_inode s1 node (ino\<lparr>pointers := (pointers ino)(i := new_data_block)\<rparr>);
           Some (Return (Some (entry_addr s2 new_data_block 0)), s2)
         })
      else do {
        e \<leftarrow> get_next_dir_entry s dir_ptr;
        if e \<noteq> None then Some (Return e, s) else next_entry_direct s node (Suc i) n
      })"

text \<open>The single indirect stage, for a directory whose size puts it at block \<open>seg\<close>: it
  returns, or falls through to the double indirect stage with \<open>seg = 72\<close>.\<close>

definition next_entry_single ::
  "filesys_struct \<Rightarrow> nat \<Rightarrow> nat \<Rightarrow> (nat option ctl \<times> filesys_struct) option" where
  "next_entry_single s node seg =
     (let free_block_num = get_free_block_num_from_bitmap s in
      if single_indirect_ptrs (inodes s node) = 0 \<and> free_block_num = -1
      then Some (Return None, s)
      else do {
        s1 \<leftarrow> (if single_indirect_ptrs (inodes s node) = 0
              then do {
                (new_index_block, s') \<leftarrow> allocate_data_block s free_block_num;
                Some (set_inode s' node ((inodes s' node)\<lparr>single_indirect_ptrs := new_index_block\<rparr>))
              }
              else Some s);
        (e, s2) \<leftarrow> get_next_dir_entry_single s1 (single_indirect_ptrs (inodes s1 node)) (seg - 8);
        Some (if e \<noteq> None then Return e else Fall, s2)
      })"

definition next_entry_double ::
  "filesys_struct \<Rightarrow> nat \<Rightarrow> nat \<Rightarrow> (nat option \<times> filesys_struct) option" where
  "next_entry_double s node seg =
     (let free_block_num = get_free_block_num_from_bitmap s in
      if double_indirect_ptrs (inodes s node) = 0 \<and> free_block_num = -1
      then Some (None, s)
      else do {
        s1 \<leftarrow> (if double_indirect_ptrs (inodes s node) = 0
              then do {
                (new_index_block, s') \<leftarrow> allocate_data_block s free_block_num;
                Some (set_inode s' node ((inodes s' node)\<lparr>double_indirect_ptrs := new_index_block\<rparr>))
              }
              else Some s);
        get_next_dir_entry_double s1 (double_indirect_ptrs (inodes s1 node)) (seg - 72)
      })"

definition get_next_entry ::
  "filesys_struct \<Rightarrow> nat \<Rightarrow> (nat option \<times> filesys_struct) option" where
  "get_next_entry s node = do {
     ino \<leftarrow> get_inode s node;
     let seg = unat (isize ino) div BLOCK_SIZE;
     (r1, s1) \<leftarrow> next_entry_direct s node seg (INODE_NUM_DIRECT_PTR - seg);
     (case r1 of
        Return e \<Rightarrow> Some (e, s1)
      | Fall \<Rightarrow> do {
          (r2, s2) \<leftarrow> (if 8 \<le> seg \<and> seg < 8 + 64 then next_entry_single s1 node seg
                      else Some (Fall, s1));
          (case r2 of
             Return e \<Rightarrow> Some (e, s2)
           | Fall \<Rightarrow>
               (let seg2 = (if 8 \<le> seg \<and> seg < 8 + 64 then 72 else seg) in
                if 8 + 64 \<le> seg2 \<and> seg2 < 8 + 64 + 64 * 64 then next_entry_double s2 node seg2
                else Some (None, s2)))
        })
   }"

section \<open>Creating a file or a directory\<close>

definition rd_create ::
  "allocator \<Rightarrow> filesys_struct \<Rightarrow> string \<Rightarrow> string \<Rightarrow> 32 word \<Rightarrow> (int \<times> filesys_struct) option"
  where
  "rd_create vm s pathname type mode =
     (if free_inodes s = 0 then Some (-1, s)
      else if free_blocks s = 0 then Some (-1, s)
      else do {
        (current_path, entry_name) \<leftarrow> split_path vm pathname;
        cur_inode_num \<leftarrow> my_find_inode_number vm s current_path;
        if cur_inode_num = -1 then Some (-1, s)
        else do {
          (free_dir_entry, s1) \<leftarrow> get_next_entry s (nat cur_inode_num);
          (case free_dir_entry of
             None \<Rightarrow> Some (-1, s1)
           | Some e \<Rightarrow>
               (let free_inode_num = get_free_inode_num s1 in
                if free_inode_num = -1 then Some (-1, s1)
                else do {
                  s2 \<leftarrow> allocate_inode s1 (nat free_inode_num);
                  s3 \<leftarrow> strcpy_to s2 e entry_name;
                  s4 \<leftarrow> store_inode_num s3 e (nat free_inode_num);
                  let s5 = set_inode s4 (nat free_inode_num)
                             ((inodes s4 (nat free_inode_num))\<lparr>itype := type, access := mode\<rparr>);
                  let cur = inodes s5 (nat cur_inode_num);
                  let s6 = set_inode s5 (nat cur_inode_num) (cur\<lparr>isize := isize cur + 16\<rparr>);
                  Some (0, s6)
                }))
        }
      })"

definition rd_mkdir ::
  "allocator \<Rightarrow> filesys_struct \<Rightarrow> string \<Rightarrow> (int \<times> filesys_struct) option" where
  "rd_mkdir vm s pathname = do {
     pwd \<leftarrow> fresh_buffer vm Pwd (length pathname);
     filename \<leftarrow> fresh_buffer vm Filename (length pathname);
     if pathname = ''/'' \<and> free_inodes s = of_nat MAX_NUM_FILE
     then Some (0, set_inode (s\<lparr>free_inodes := free_inodes s - 1\<rparr>) 0
                     ((inodes s 0)\<lparr>itype := ''dir''\<rparr>))
     else if pathname = ''/'' \<and> free_inodes s \<noteq> of_nat MAX_NUM_FILE then Some (-1, s)
     else do {
       (ret, s1) \<leftarrow> rd_create vm s pathname ''dir'' 1;
       Some (if ret = 0 then 0 else -1, s1)
     }
   }"

text \<open>\<^verbatim>\<open>init_file_sys\<close>, given the address \<^verbatim>\<open>vmalloc\<close> returns for the partition.  The memory
  is cleared before the test for \<^verbatim>\<open>NULL\<close>, so a failed allocation is a null dereference.\<close>

definition init_filesys :: "allocator \<Rightarrow> ptr \<Rightarrow> (int \<times> filesys_struct) option" where
  "init_filesys vm a =
     (if a = 0 then None
      else rd_mkdir vm ((zero_filesys a)\<lparr>free_blocks := of_nat DATA_BLOCKS_NUM,
                                        free_inodes := of_nat MAX_NUM_FILE\<rparr>) ''/'')"

end
