(* ===== verification/Unlink.thy ===== *)
theory Unlink
  imports Create
begin

text \<open>
  Removing files: \<^verbatim>\<open>my_clear_inode\<close> and its helpers, \<^verbatim>\<open>clear_entry_in_current_dir\<close>,
  \<^verbatim>\<open>rd_unlink\<close>, and \<^verbatim>\<open>rd_chmod\<close>, of \<^verbatim>\<open>kernelspace/discos.c\<close>.
\<close>

section \<open>Freeing the blocks of an index node\<close>

text \<open>The three statements that free a block: clear its bit, zero it, count it.\<close>

definition release_block :: "filesys_struct \<Rightarrow> ptr \<Rightarrow> filesys_struct option" where
  "release_block s p = do {
     idx \<leftarrow> block_index s p;
     let s1 = s\<lparr>bitmap := snd (clear_bitmap (bitmap s) idx)\<rparr>;
     s2 \<leftarrow> memset0 s1 (ptr_off s1 p) BLOCK_SIZE;
     Some (s2\<lparr>free_blocks := free_blocks s2 + 1\<rparr>)
   }"

fun clear_single_loop :: "filesys_struct \<Rightarrow> ptr \<Rightarrow> nat \<Rightarrow> nat \<Rightarrow> filesys_struct option" where
  "clear_single_loop s single_indirect i 0 = Some s"
| "clear_single_loop s single_indirect i (Suc n) = do {
     block \<leftarrow> load_index s single_indirect i;
     s1 \<leftarrow> (if block \<noteq> 0 then release_block s block else Some s);
     clear_single_loop s1 single_indirect (Suc i) n
   }"

definition clear_inode_single_indirect :: "filesys_struct \<Rightarrow> ptr \<Rightarrow> filesys_struct option" where
  "clear_inode_single_indirect s single_indirect = do {
     s1 \<leftarrow> clear_single_loop s single_indirect 0 PTRS_PER_BLOCK;
     release_block s1 single_indirect
   }"

fun clear_double_loop :: "filesys_struct \<Rightarrow> ptr \<Rightarrow> nat \<Rightarrow> nat \<Rightarrow> filesys_struct option" where
  "clear_double_loop s double_indirect i 0 = Some s"
| "clear_double_loop s double_indirect i (Suc n) = do {
     single_indirect \<leftarrow> load_index s double_indirect i;
     s1 \<leftarrow> (if single_indirect \<noteq> 0 then clear_inode_single_indirect s single_indirect else Some s);
     clear_double_loop s1 double_indirect (Suc i) n
   }"

definition clear_inode_double_indirect :: "filesys_struct \<Rightarrow> ptr \<Rightarrow> filesys_struct option" where
  "clear_inode_double_indirect s double_indirect = do {
     s1 \<leftarrow> clear_double_loop s double_indirect 0 PTRS_PER_BLOCK;
     release_block s1 double_indirect
   }"

fun clear_direct_loop :: "filesys_struct \<Rightarrow> nat \<Rightarrow> nat \<Rightarrow> nat \<Rightarrow> filesys_struct option" where
  "clear_direct_loop s node i 0 = Some s"
| "clear_direct_loop s node i (Suc n) = do {
     s1 \<leftarrow> (if pointers (inodes s node) i \<noteq> 0
           then release_block s (pointers (inodes s node) i) else Some s);
     clear_direct_loop s1 node (Suc i) n
   }"

definition my_clear_inode :: "filesys_struct \<Rightarrow> nat \<Rightarrow> filesys_struct option" where
  "my_clear_inode s node = do {
     s1 \<leftarrow> clear_direct_loop s node 0 INODE_NUM_DIRECT_PTR;
     s2 \<leftarrow> (if single_indirect_ptrs (inodes s1 node) \<noteq> 0
           then clear_inode_single_indirect s1 (single_indirect_ptrs (inodes s1 node)) else Some s1);
     if double_indirect_ptrs (inodes s2 node) \<noteq> 0
     then clear_inode_double_indirect s2 (double_indirect_ptrs (inodes s2 node)) else Some s2
   }"

section \<open>Removing a directory entry\<close>

text \<open>The entry loop over one block: it counts the used entries (the removed one
  included), zeroes every entry with the name, and records that it found one.\<close>

fun clear_entries ::
  "filesys_struct \<Rightarrow> ptr \<Rightarrow> string \<Rightarrow> nat \<Rightarrow> nat \<Rightarrow> nat \<Rightarrow> bool \<Rightarrow> (nat \<times> bool \<times> filesys_struct) option"
  where
  "clear_entries s block filename j 0 nonEmptyEntries findEntry =
     Some (nonEmptyEntries, findEntry, s)"
| "clear_entries s block filename j (Suc n) nonEmptyEntries findEntry = do {
     num \<leftarrow> load_inode_num s (entry_addr s block j);
     let cnt = (if num \<noteq> 0 then nonEmptyEntries + 1 else nonEmptyEntries);
     eq \<leftarrow> strcmp_eq s (entry_addr s block j) filename;
     if eq then do {
       s1 \<leftarrow> memset0 s (entry_addr s block j) 16;
       clear_entries s1 block filename (Suc j) n cnt True
     }
     else clear_entries s block filename (Suc j) n cnt findEntry
   }"

text \<open>Dropping a block clears its bit but does not count it as free.\<close>

definition drop_bit_of :: "filesys_struct \<Rightarrow> ptr \<Rightarrow> filesys_struct option" where
  "drop_bit_of s p = do {
     idx \<leftarrow> block_index s p;
     Some (s\<lparr>bitmap := snd (clear_bitmap (bitmap s) idx)\<rparr>)
   }"

fun clear_entry_direct ::
  "filesys_struct \<Rightarrow> nat \<Rightarrow> string \<Rightarrow> nat \<Rightarrow> nat \<Rightarrow> bool \<Rightarrow> (bool \<times> filesys_struct) option" where
  "clear_entry_direct s node filename i 0 findEntry = Some (findEntry, s)"
| "clear_entry_direct s node filename i (Suc n) findEntry =
     (let block = pointers (inodes s node) i in do {
        (nonEmptyEntries, find1, s1) \<leftarrow>
          (if block \<noteq> 0 then clear_entries s block filename 0 ENTRIES_PER_BLOCK 0 findEntry
           else Some (0, findEntry, s));
        s2 \<leftarrow> (if find1 \<and> nonEmptyEntries = 1
              then do {
                s' \<leftarrow> drop_bit_of s1 (pointers (inodes s1 node) i);
                let ino = inodes s' node;
                Some (set_inode s' node (ino\<lparr>pointers := (pointers ino)(i := 0)\<rparr>))
              }
              else Some s1);
        clear_entry_direct s2 node filename (Suc i) n find1
      })"

fun clear_entry_single ::
  "filesys_struct \<Rightarrow> ptr \<Rightarrow> string \<Rightarrow> nat \<Rightarrow> nat \<Rightarrow> nat \<Rightarrow> bool \<Rightarrow> bool
     \<Rightarrow> (nat \<times> bool \<times> bool \<times> filesys_struct) option" where
  "clear_entry_single s single_indirect filename i 0 nonEmptyBlocks lastEntry findEntry =
     Some (nonEmptyBlocks, lastEntry, findEntry, s)"
| "clear_entry_single s single_indirect filename i (Suc n) nonEmptyBlocks lastEntry findEntry = do {
     block \<leftarrow> load_index s single_indirect i;
     (nonEmptyEntries, find1, s1) \<leftarrow>
       (if block \<noteq> 0 then clear_entries s block filename 0 ENTRIES_PER_BLOCK 0 findEntry
        else Some (0, findEntry, s));
     let blocks1 = (if block \<noteq> 0 then nonEmptyBlocks + 1 else nonEmptyBlocks);
     (last1, s2) \<leftarrow>
       (if find1 \<and> nonEmptyEntries = 1
        then do {
          q \<leftarrow> load_index s1 single_indirect i;
          s' \<leftarrow> drop_bit_of s1 q;
          s'' \<leftarrow> store_index s' single_indirect i 0;
          Some (True, s'')
        }
        else Some (lastEntry, s1));
     clear_entry_single s2 single_indirect filename (Suc i) n blocks1 last1 find1
   }"

text \<open>An entry found in a double indirect block is left in place: the C code returns.\<close>

definition clear_entry_in_current_dir ::
  "filesys_struct \<Rightarrow> nat \<Rightarrow> string \<Rightarrow> filesys_struct option" where
  "clear_entry_in_current_dir s node filename = do {
     (find1, s1) \<leftarrow> clear_entry_direct s node filename 0 INODE_NUM_DIRECT_PTR False;
     if find1 then Some s1
     else do {
       let single_indirect = single_indirect_ptrs (inodes s1 node);
       (find2, s2) \<leftarrow>
         (if single_indirect \<noteq> 0 then do {
            (nonEmptyBlocks, lastEntry, findEntry, s') \<leftarrow>
              clear_entry_single s1 single_indirect filename 0 PTRS_PER_BLOCK 0 False False;
            s'' \<leftarrow> (if findEntry \<and> nonEmptyBlocks = 1 \<and> lastEntry
                  then do {
                    t \<leftarrow> drop_bit_of s' (single_indirect_ptrs (inodes s' node));
                    Some (set_inode t node ((inodes t node)\<lparr>single_indirect_ptrs := 0\<rparr>))
                  }
                  else Some s');
            Some (findEntry, s'')
          }
          else Some (False, s1));
       if find2 then Some s2
       else do {
         e \<leftarrow> (if double_indirect_ptrs (inodes s2 node) \<noteq> 0
              then find_entry_double s2 (double_indirect_ptrs (inodes s2 node)) filename 0 PTRS_PER_BLOCK
              else Some None);
         Some s2
       }
     }
   }"

section \<open>Unlinking\<close>

definition rd_unlink ::
  "allocator \<Rightarrow> filesys_struct \<Rightarrow> string \<Rightarrow> (int \<times> filesys_struct) option" where
  "rd_unlink vm s path = do {
     pathname \<leftarrow> copy_path vm Path_Copy path;
     if pathname = ''/'' then Some (-1, s)
     else do {
       file_inode_num \<leftarrow> my_find_inode_number vm s pathname;
       if file_inode_num = -1 then Some (-1, s)
       else do {
         file_inode \<leftarrow> get_inode s (nat file_inode_num);
         if itype file_inode = ''dir'' \<and> isize file_inode > 0 then Some (-1, s)
         else do {
           (current_dir, filename) \<leftarrow> split_path vm pathname;
           current_dir_inode_num \<leftarrow> my_find_inode_number vm s current_dir;
           if current_dir_inode_num = -1 then Some (-1, s)
           else do {
             cur_dir_inode \<leftarrow> get_inode s (nat current_dir_inode_num);
             s1 \<leftarrow> my_clear_inode s (nat file_inode_num);
             s2 \<leftarrow> clear_entry_in_current_dir s1 (nat current_dir_inode_num) filename;
             let cur = inodes s2 (nat current_dir_inode_num);
             let s3 = set_inode s2 (nat current_dir_inode_num) (cur\<lparr>isize := isize cur - 16\<rparr>);
             let s4 = set_inode s3 (nat file_inode_num) zero_inode;
             Some (0, s4\<lparr>free_inodes := free_inodes s4 + 1\<rparr>)
           }
         }
       }
     }
   }"

section \<open>Changing the access rights\<close>

definition rd_chmod :: "allocator \<Rightarrow> filesys_struct \<Rightarrow> string \<Rightarrow> 32 word \<Rightarrow> (int \<times> filesys_struct) option" where
  "rd_chmod vm s path mode = do {
     pathname \<leftarrow> copy_path vm Path_Copy path;
     if pathname = ''/'' then Some (-1, s)
     else do {
       file_inode_num \<leftarrow> my_find_inode_number vm s pathname;
       if file_inode_num = -1 then Some (-1, s)
       else do {
         file_inode \<leftarrow> get_inode s (nat file_inode_num);
         Some (0, set_inode s (nat file_inode_num) (file_inode\<lparr>access := mode\<rparr>))
       }
     }
   }"

end
