(* ===== verification/Sample.thy ===== *)
theory Sample
  imports Create Layout
begin

text \<open>
  A small partition on which the properties are instantiated: the root directory holds
  the empty regular file \<^verbatim>\<open>/f\<close> (index node 1), its entry is in data block 0, the only
  block in use.
\<close>

definition sample_data :: "nat \<Rightarrow> char" where
  "sample_data x = (if x = 0 then CHR ''f'' else if x = 14 then CHR 0x01 else NUL)"

definition sample_root :: inode_struct where
  "sample_root = zero_inode\<lparr>itype := ''dir'', isize := 16,
     pointers := (\<lambda>i. if i = 0 then 0xE0010500 else 0)\<rparr>"

definition sample_file :: inode_struct where
  "sample_file = zero_inode\<lparr>itype := ''reg'', access := RW\<rparr>"

definition sample_fs :: filesys_struct where
  "sample_fs = \<lparr>free_blocks = 7930, free_inodes = 1022,
     inodes = (\<lambda>n. if n = 0 then sample_root else if n = 1 then sample_file else zero_inode),
     bitmap = (\<lambda>i. if i = 0 then 1 else 0), data_blocks = sample_data,
     discos_addr = 0xE0000000\<rparr>"

lemma sample_region [simp]: "region_ok sample_fs"
  by (simp add: region_ok_def sample_fs_def)

lemma sample_blk: "blk_addr sample_fs 0 = 0xE0010500"
  by (simp add: blk_addr_def data_base_def sample_fs_def)

lemma sample_off [simp]: "ptr_off sample_fs 0xE0010500 = 0"
  using ptr_off_blk_addr [of 0 sample_fs] by (simp add: sample_blk)

lemma sample_inodes [simp]:
  "inodes sample_fs 0 = sample_root" "inodes sample_fs 1 = sample_file"
  "inodes sample_fs (Suc 0) = sample_file"
  "2 \<le> n \<Longrightarrow> inodes sample_fs n = zero_inode"
  by (simp_all add: sample_fs_def)

lemma sample_used [simp]: "blk_used sample_fs b \<longleftrightarrow> b = 0"
  by (auto simp: bit_used_def sample_fs_def bit_1_iff)

lemma sample_strcmp: "strcmp_eq sample_fs 0 ''f'' = Some True"
  by (simp add: load_char_def sample_fs_def sample_data_def)

lemma sample_num: "load_inode_num sample_fs 0 = Some 1"
  by (simp add: load_inode_num_def load_bytes_def sample_fs_def sample_data_def upt_rec)

lemma sample_scan: "scan_entries sample_fs 0xE0010500 ''f'' cur 0 ENTRIES_PER_BLOCK = Some 1"
  using scan_entries.simps(2) [of sample_fs "0xE0010500" "''f''" cur 0 15] sample_strcmp sample_num
  by (simp add: entry_addr_def del: scan_entries.simps strcmp_eq.simps)

lemma sample_root_search: "dir_search sample_fs 0 ''f'' = Some 1"
  using scan_direct.simps(2) [of sample_fs sample_root "''f''" 0 0 7] sample_scan
  by (simp add: dir_search_def get_inode_def sample_root_def del: scan_direct.simps scan_entries.simps)

lemma sample_search: "search_path sample_fs ''/f'' = Some 1"
  by (simp add: search_path_def sample_root_search)

lemma sample_ptr:
  "valid_loc l \<Longrightarrow> ptr_at sample_fs l = (if l = Dir 0 0 then blk_addr sample_fs 0 else 0)"
proof (induction l)
  case (Dir n i)
  then show ?case
    by (cases "n = 0"; cases "n = 1") (auto simp: sample_fs_def sample_root_def sample_file_def
        zero_inode_def sample_blk [unfolded sample_fs_def])
next
  case (Sub L k)
  then show ?case by (cases L) auto
qed (auto simp: sample_fs_def sample_root_def sample_file_def zero_inode_def)

lemma sample_wf [simp]: "wf_blocks sample_fs"
  using sample_ptr by (auto simp: wf_blocks_def sample_blk split: if_splits)

text \<open>An allocator whose objects are zero and one byte longer than asked for.\<close>

definition zero_vm :: allocator where
  "zero_vm u n = Some (replicate (Suc n) NUL)"

lemma zero_vm_fresh [simp]: "fresh_buffer zero_vm u n = Some (replicate (Suc n) NUL)"
  by (simp add: fresh_buffer_def zero_vm_def memset_strlen_def cstring_def)

lemma zero_vm_grants [simp]: "grants zero_vm u n"
  by (simp add: grants_def zero_vm_def)

lemma serves_zero_vm [simp]: "serves zero_vm path"
proof -
  have "dir_length path \<le> length path"
    by (auto simp: dir_length_def dest: last_slash_less split: option.splits)
  then have "dir_ends zero_vm (length path) (dir_length path)" by (simp add: dir_ends_def nth_Cons')
  then show ?thesis by (simp add: serves_def)
qed

lemma sample_lookup: "my_find_inode_number zero_vm sample_fs ''/f'' = Some 1"
  by (simp add: my_find_granted sample_search)

end
