(* ===== verification/ClearInv.thy ===== *)
theory ClearInv
  imports BlockInv Unlink Sample
begin

text \<open>
  \<^verbatim>\<open>my_clear_inode\<close> frees exactly the blocks of its index node: the loops over direct,
  single and double indirect pointers are shown to release, one after the other, the
  blocks at the locations of the node.  A block that holds pointers is released after the
  blocks it points to, so no loop reads a block that was zeroed before.
\<close>

section \<open>Releasing a block\<close>

definition release :: "nat \<Rightarrow> filesys_struct \<Rightarrow> filesys_struct" where
  "release b s = s\<lparr>bitmap := snd (clear_bitmap (bitmap s) (int b)),
     data_blocks := upd_region (data_blocks s) (BLOCK_SIZE * b) (replicate BLOCK_SIZE NUL),
     free_blocks := free_blocks s + 1\<rparr>"

lemma release_block_eq:
  "b < DATA_BLOCKS_NUM \<Longrightarrow> release_block s (blk_addr s b) = Some (release b s)"
  by (simp add: release_block_def release_def memset0_def store_bytes_def Let_def)

lemma release_fields [simp]:
  "discos_addr (release b s) = discos_addr s" "inodes (release b s) = inodes s"
  "free_inodes (release b s) = free_inodes s" "free_blocks (release b s) = free_blocks s + 1"
  by (simp_all add: release_def)

lemma release_data: "data_blocks (release b s) x = (if x div BLOCK_SIZE = b then NUL else data_blocks s x)"
  using upd_region_block by (simp add: release_def)

lemma release_used: "b < DATA_BLOCKS_NUM \<Longrightarrow> blk_used (release b s) c \<longleftrightarrow> blk_used s c \<and> c \<noteq> b"
  by (simp add: release_def bit_used_clear)

lemma fold_release_fields [simp]:
  "discos_addr (fold release bs s) = discos_addr s" "inodes (fold release bs s) = inodes s"
  "free_inodes (fold release bs s) = free_inodes s"
  "free_blocks (fold release bs s) = free_blocks s + of_nat (length bs)"
  by (induction bs arbitrary: s) simp_all

lemma fold_release_data:
  "data_blocks (fold release bs s) x = (if x div BLOCK_SIZE \<in> set bs then NUL else data_blocks s x)"
  by (induction bs arbitrary: s) (auto simp: release_data)

lemma fold_release_used:
  "\<forall>b \<in> set bs. b < DATA_BLOCKS_NUM \<Longrightarrow>
     blk_used (fold release bs s) c \<longleftrightarrow> blk_used s c \<and> c \<notin> set bs"
  by (induction bs arbitrary: s) (auto simp: release_used)

lemma fold_release_index:
  assumes "c \<notin> set bs" "c < DATA_BLOCKS_NUM" "k < PTRS_PER_BLOCK"
  shows "load_index (fold release bs s) (blk_addr s c) k = Some (index_at s (blk_addr s c) k)"
proof -
  have a: "blk_addr (fold release bs s) = blk_addr s" by (rule addr_frame(1)) simp
  have "index_at (fold release bs s) (blk_addr s c) k = index_at s (blk_addr s c) k"
    using assms by (intro index_at_cong [where b = c]) (auto simp: fold_release_data)
  then show ?thesis using load_index_blk [of c k "fold release bs s"] assms a by simp
qed

lemma fold_release_block:
  "b < DATA_BLOCKS_NUM \<Longrightarrow>
     release_block (fold release bs s) (blk_addr s b) = Some (fold release (bs @ [b]) s)"
  using release_block_eq [of b "fold release bs s"] addr_frame(1) [of "fold release bs s" s] by simp

section \<open>The blocks of a node\<close>

definition blk_at :: "filesys_struct \<Rightarrow> loc \<Rightarrow> nat list" where
  "blk_at s l = (if ptr_at s l = 0 then [] else [ptr_off s (ptr_at s l) div BLOCK_SIZE])"

definition sub_locs :: "loc \<Rightarrow> loc list" where
  "sub_locs L = map (Sub L) [0..<PTRS_PER_BLOCK]"

text \<open>In the order in which the code frees them.\<close>

definition node_locs :: "nat \<Rightarrow> loc list" where
  "node_locs n = map (Dir n) [0..<INODE_NUM_DIRECT_PTR] @ sub_locs (Sng n) @ [Sng n]
     @ concat (map (\<lambda>L. sub_locs L @ [L]) (sub_locs (Dbl n))) @ [Dbl n]"

definition blks :: "filesys_struct \<Rightarrow> loc list \<Rightarrow> nat list" where
  "blks s ls = concat (map (blk_at s) ls)"

lemma blks_simps [simp]:
  "blks s [] = []" "blks s (l # ls) = blk_at s l @ blks s ls" "blks s (ls @ ms) = blks s ls @ blks s ms"
  by (simp_all add: blks_def)

lemma blk_at_Some:
  assumes "wf_blocks s" "valid_loc l" "ptr_at s l \<noteq> 0"
  obtains b where "b < DATA_BLOCKS_NUM" "ptr_at s l = blk_addr s b" "blk_at s l = [b]"
proof -
  obtain b where b: "b < DATA_BLOCKS_NUM" "ptr_at s l = blk_addr s b" by (rule wf_blocksD [OF assms])
  then have "blk_at s l = [b]" using assms(3) by (simp add: blk_at_def)
  with b show thesis by (rule that)
qed

lemma blk_at_mem:
  assumes "wf_blocks s" "valid_loc l"
  shows "b \<in> set (blk_at s l) \<longleftrightarrow> b < DATA_BLOCKS_NUM \<and> ptr_at s l = blk_addr s b"
proof (cases "ptr_at s l = 0")
  case True
  then show ?thesis using blk_addr_nonzero [of s b] assms(1) by (auto simp: blk_at_def)
next
  case False
  obtain c where c: "c < DATA_BLOCKS_NUM" "ptr_at s l = blk_addr s c" "blk_at s l = [c]"
    by (rule blk_at_Some [OF assms False])
  then show ?thesis using blk_addr_inj [of c b s] by auto
qed

text \<open>Blocks at different places are different.\<close>

lemma blk_at_disjoint:
  assumes "wf_blocks s" "valid_loc l" "valid_loc l'" "b \<in> set (blk_at s l)" "b \<in> set (blk_at s l')"
  shows "l = l'"
proof -
  have "b < DATA_BLOCKS_NUM" "ptr_at s l = blk_addr s b" "ptr_at s l' = blk_addr s b"
    using assms blk_at_mem by auto
  then show ?thesis
    using wf_blocks_inj [OF assms(1-3)] blk_addr_nonzero [of s b] assms(1) by simp
qed

lemma blks_mem:
  "wf_blocks s \<Longrightarrow> \<forall>l \<in> set ls. valid_loc l \<Longrightarrow>
     b \<in> set (blks s ls) \<longleftrightarrow> b < DATA_BLOCKS_NUM \<and> (\<exists>l \<in> set ls. ptr_at s l = blk_addr s b)"
  using blk_at_mem by (auto simp: blks_def)

lemma blks_distinct:
  "wf_blocks s \<Longrightarrow> \<forall>l \<in> set ls. valid_loc l \<Longrightarrow> distinct ls \<Longrightarrow> distinct (blks s ls)"
proof (induction ls)
  case (Cons l ls)
  have "set (blk_at s l) \<inter> set (blks s ls) = {}"
    using Cons.prems blk_at_disjoint [of s l] by (auto simp: blks_def)
  moreover have "distinct (blk_at s l)" by (simp add: blk_at_def)
  ultimately show ?case using Cons by simp
qed simp

lemma blks_disjoint:
  assumes "wf_blocks s" "valid_loc l" "\<forall>l' \<in> set ls. valid_loc l'" "l \<notin> set ls"
  shows "set (blk_at s l) \<inter> set (blks s ls) = {}"
  using assms blk_at_disjoint [OF assms(1,2)] by (auto simp: blks_def)

section \<open>The loops\<close>

lemma upt_head: "[i..<Suc (i + m)] = i # [Suc i..<Suc (i + m)]"
  by (simp add: upt_conv_Cons del: upt_Suc)

lemma fold_release_addr: "blk_addr (fold release bs s) = blk_addr s"
  by (rule addr_frame(1)) simp

lemma clear_direct_loop_eq:
  assumes "wf_blocks s" "n < MAX_NUM_FILE" "i + m \<le> INODE_NUM_DIRECT_PTR"
  shows "clear_direct_loop (fold release done s) n i m
    = Some (fold release (done @ blks s (map (Dir n) [i..<i + m])) s)"
  using assms(3)
proof (induction m arbitrary: i "done")
  case (Suc m)
  let ?l = "Dir n i" and ?t = "fold release done s"
  have l: "valid_loc ?l" using assms(2) Suc.prems by simp
  have "(if pointers (inodes ?t n) i \<noteq> 0 then release_block ?t (pointers (inodes ?t n) i) else Some ?t)
      = Some (fold release (done @ blk_at s ?l) s)"
  proof (cases "ptr_at s ?l = 0")
    case True
    then show ?thesis by (simp add: blk_at_def)
  next
    case False
    obtain b where "b < DATA_BLOCKS_NUM" "ptr_at s ?l = blk_addr s b" "blk_at s ?l = [b]"
      by (rule blk_at_Some [OF assms(1) l False])
    then show ?thesis using False fold_release_block [of b "done" s] by simp
  qed
  then show ?case
    using Suc.IH [of "Suc i" "done @ blk_at s ?l"] Suc.prems by (simp add: upt_head del: upt_Suc fold_append)
qed simp

lemma clear_single_loop_eq:
  assumes wf: "wf_blocks s" and L: "valid_loc L" "index_loc L" "\<And>k. \<not> index_loc (Sub L k)"
    and c: "c < DATA_BLOCKS_NUM" "ptr_at s L = blk_addr s c"
    and "i + m \<le> PTRS_PER_BLOCK" "c \<notin> set done"
  shows "clear_single_loop (fold release done s) (blk_addr s c) i m
    = Some (fold release (done @ blks s (map (Sub L) [i..<i + m])) s)"
  using assms(7,8)
proof (induction m arbitrary: i "done")
  case (Suc m)
  let ?l = "Sub L i" and ?t = "fold release done s"
  have l: "valid_loc ?l" using L Suc.prems by simp
  have nz: "blk_addr s c \<noteq> 0" using blk_addr_nonzero c(1) wf by simp
  have load: "load_index ?t (blk_addr s c) i = Some (ptr_at s ?l)"
    using fold_release_index [OF Suc.prems(2) c(1), of i s] Suc.prems(1) c(2) nz by simp
  have "(if ptr_at s ?l \<noteq> 0 then release_block ?t (ptr_at s ?l) else Some ?t)
      = Some (fold release (done @ blk_at s ?l) s)"
  proof (cases "ptr_at s ?l = 0")
    case True
    then show ?thesis by (simp add: blk_at_def del: ptr_at.simps)
  next
    case False
    obtain b where "b < DATA_BLOCKS_NUM" "ptr_at s ?l = blk_addr s b" "blk_at s ?l = [b]"
      by (rule blk_at_Some [OF wf l False])
    then show ?thesis using False fold_release_block [of b "done" s] by (simp del: ptr_at.simps)
  qed
  moreover have "c \<notin> set (done @ blk_at s ?l)"
    using Suc.prems(2) blk_at_disjoint [OF wf L(1) l, of c] blk_at_mem [OF wf L(1)] c by auto
  ultimately show ?case
    using Suc.IH [of "Suc i" "done @ blk_at s ?l"] Suc.prems load
    by (simp add: upt_head del: upt_Suc fold_append ptr_at.simps)
qed simp

lemma clear_single_eq:
  assumes wf: "wf_blocks s" and L: "valid_loc L" "index_loc L" "\<And>k. \<not> index_loc (Sub L k)"
    and nz: "ptr_at s L \<noteq> 0" and disj: "set (blk_at s L) \<inter> set done = {}"
  shows "clear_inode_single_indirect (fold release done s) (ptr_at s L)
    = Some (fold release (done @ blks s (sub_locs L @ [L])) s)"
proof -
  obtain c where c: "c < DATA_BLOCKS_NUM" "ptr_at s L = blk_addr s c" "blk_at s L = [c]"
    by (rule blk_at_Some [OF wf L(1) nz])
  have cd: "c \<notin> set done" using disj c(3) by simp
  have "clear_single_loop (fold release done s) (blk_addr s c) 0 PTRS_PER_BLOCK
      = Some (fold release (done @ blks s (sub_locs L)) s)"
    using clear_single_loop_eq [OF wf L c(1,2) _ cd, of 0 PTRS_PER_BLOCK] by (simp add: sub_locs_def)
  then show ?thesis
    using fold_release_block [OF c(1), of "done @ blks s (sub_locs L)" s] c(2,3)
    by (simp add: clear_inode_single_indirect_def del: fold_append)
qed

lemma clear_double_loop_eq:
  assumes wf: "wf_blocks s" and n: "n < MAX_NUM_FILE"
    and d: "d < DATA_BLOCKS_NUM" "ptr_at s (Dbl n) = blk_addr s d"
    and "i + m \<le> PTRS_PER_BLOCK" "d \<notin> set done"
      "\<forall>l \<in> set (map (Sub (Dbl n)) [i..<i + m]). set (blk_at s l) \<inter> set done = {}"
  shows "clear_double_loop (fold release done s) (blk_addr s d) i m = Some (fold release
    (done @ blks s (concat (map (\<lambda>L. sub_locs L @ [L]) (map (Sub (Dbl n)) [i..<i + m])))) s)"
  using assms(5-7)
proof (induction m arbitrary: i "done")
  case (Suc m)
  let ?L = "Sub (Dbl n) i" and ?t = "fold release done s"
  define new where "new = blks s (sub_locs ?L @ [?L])"
  have L: "valid_loc ?L" using n Suc.prems by simp
  have vs: "\<forall>l \<in> set (sub_locs ?L @ [?L]). valid_loc l" using L by (auto simp: sub_locs_def)
  have nz: "blk_addr s d \<noteq> 0" using blk_addr_nonzero d(1) wf by simp
  have load: "load_index ?t (blk_addr s d) i = Some (ptr_at s ?L)"
    using fold_release_index [OF Suc.prems(2) d(1), of i s] Suc.prems(1) d(2) nz by simp
  have step: "(if ptr_at s ?L \<noteq> 0 then clear_inode_single_indirect ?t (ptr_at s ?L) else Some ?t)
      = Some (fold release (done @ new) s)"
  proof (cases "ptr_at s ?L = 0")
    case True
    then have "blk_at s l = []" if "l \<in> set (sub_locs ?L @ [?L])" for l
      using that by (auto simp: sub_locs_def blk_at_def)
    then have "new = []" by (auto simp: new_def blks_def)
    then show ?thesis using True by (simp del: ptr_at.simps)
  next
    case False
    have "set (blk_at s ?L) \<inter> set done = {}" using Suc.prems(3) by (simp add: upt_head del: upt_Suc)
    then show ?thesis
      using clear_single_eq [OF wf L _ _ False] False by (simp add: new_def del: ptr_at.simps fold_append blks_simps)
  qed
  have "d \<notin> set new"
  proof -
    have "set (blk_at s (Dbl n)) \<inter> set new = {}"
      unfolding new_def using n vs by (intro blks_disjoint wf) (auto simp: sub_locs_def)
    then show ?thesis using blk_at_mem [OF wf, of "Dbl n" d] n d by auto
  qed
  then have d': "d \<notin> set (done @ new)" using Suc.prems(2) by simp
  have "set (blk_at s (Sub (Dbl n) j)) \<inter> set (done @ new) = {}" if "Suc i \<le> j" "j < Suc i + m" for j
  proof -
    have "set (blk_at s (Sub (Dbl n) j)) \<inter> set new = {}"
      unfolding new_def using n vs that Suc.prems(1) by (intro blks_disjoint wf) (auto simp: sub_locs_def)
    then show ?thesis using Suc.prems(3) that by (auto simp del: upt_Suc)
  qed
  then have "clear_double_loop (fold release (done @ new) s) (blk_addr s d) (Suc i) m = Some (fold release
      ((done @ new) @ blks s (concat (map (\<lambda>L. sub_locs L @ [L]) (map (Sub (Dbl n)) [Suc i..<Suc i + m])))) s)"
    using Suc.prems(1) by (intro Suc.IH d') (auto simp del: upt_Suc set_append)
  then show ?case
    using step load by (simp add: upt_head new_def del: upt_Suc fold_append ptr_at.simps)
qed simp

section \<open>The whole node\<close>

lemma sub_locs_mem: "l \<in> set (sub_locs L) \<longleftrightarrow> (\<exists>k < PTRS_PER_BLOCK. l = Sub L k)"
  by (auto simp: sub_locs_def)

lemma node_locs_valid: "n < MAX_NUM_FILE \<Longrightarrow> \<forall>l \<in> set (node_locs n). valid_loc l \<and> node_of l = n"
  by (auto simp: node_locs_def sub_locs_def)

lemma node_locs_all:
  assumes "valid_loc l" "node_of l = n"
  shows "l \<in> set (node_locs n)"
proof (cases l)
  case (Sub L k)
  show ?thesis
  proof (cases L)
    case (Sub L' j)
    then show ?thesis using assms \<open>l = Sub L k\<close>
      by (cases L') (auto simp: node_locs_def sub_locs_mem)
  qed (use assms Sub in \<open>auto simp: node_locs_def sub_locs_def\<close>)
qed (use assms in \<open>auto simp: node_locs_def\<close>)

lemma distinct_node_locs: "distinct (node_locs n)"
proof -
  have d1: "distinct (sub_locs L)" for L by (simp add: sub_locs_def distinct_map inj_on_def)
  have self: "L \<notin> set (sub_locs L)" for L by (auto simp: sub_locs_def)
  have "distinct (concat (map (\<lambda>L. sub_locs L @ [L]) (sub_locs (Dbl n))))"
  proof (rule distinct_concat)
    have "inj_on (\<lambda>L. sub_locs L @ [L]) (set (sub_locs (Dbl n)))" by (auto simp: inj_on_def)
    then show "distinct (map (\<lambda>L. sub_locs L @ [L]) (sub_locs (Dbl n)))"
      using d1 by (simp add: distinct_map)
    show "distinct ys" if "ys \<in> set (map (\<lambda>L. sub_locs L @ [L]) (sub_locs (Dbl n)))" for ys
      using that d1 self by auto
    show "set ys \<inter> set zs = {}"
      if "ys \<in> set (map (\<lambda>L. sub_locs L @ [L]) (sub_locs (Dbl n)))"
        "zs \<in> set (map (\<lambda>L. sub_locs L @ [L]) (sub_locs (Dbl n)))" "ys \<noteq> zs" for ys zs
      using that by (auto simp: sub_locs_def)
  qed
  moreover have "distinct (map (Dir n) [0..<INODE_NUM_DIRECT_PTR])" by (simp add: distinct_map inj_on_def)
  ultimately show ?thesis using d1 [of "Sng n"] by (auto simp: node_locs_def sub_locs_def)
qed

definition owned :: "filesys_struct \<Rightarrow> nat \<Rightarrow> nat list" where
  "owned s n = blks s (node_locs n)"

lemma owned_facts:
  assumes "wf_blocks s" "n < MAX_NUM_FILE"
  shows "set (owned s n) = {b. b < DATA_BLOCKS_NUM \<and> owns s n b}" "distinct (owned s n)"
    "\<forall>b \<in> set (owned s n). b < DATA_BLOCKS_NUM"
proof -
  have v: "\<forall>l \<in> set (node_locs n). valid_loc l" using node_locs_valid [OF assms(2)] by blast
  show eq: "set (owned s n) = {b. b < DATA_BLOCKS_NUM \<and> owns s n b}"
  proof -
    have "l \<in> set (node_locs n) \<longleftrightarrow> valid_loc l \<and> node_of l = n" for l
      using node_locs_valid [OF assms(2)] node_locs_all [of l n] by blast
    then have "(\<exists>l \<in> set (node_locs n). ptr_at s l = blk_addr s b) \<longleftrightarrow> owns s n b" for b
      unfolding owns_def by blast
    then show ?thesis using blks_mem [OF assms(1) v] by (auto simp only: owned_def mem_Collect_eq)
  qed
  show "distinct (owned s n)" unfolding owned_def by (rule blks_distinct [OF assms(1) v distinct_node_locs])
  show "\<forall>b \<in> set (owned s n). b < DATA_BLOCKS_NUM" using eq by blast
qed

lemma null_sub_blks: "ptr_at s L = 0 \<Longrightarrow> blks s (sub_locs L @ [L]) = []"
  by (auto simp: blks_def sub_locs_def blk_at_def)

lemma my_clear_inode_eq:
  assumes wf: "wf_blocks s" and n: "n < MAX_NUM_FILE"
  shows "my_clear_inode s n = Some (fold release (owned s n) s)"
proof -
  define d1 where "d1 = blks s (map (Dir n) [0..<INODE_NUM_DIRECT_PTR])"
  define d2 where "d2 = d1 @ blks s (sub_locs (Sng n) @ [Sng n])"
  define subs where "subs = concat (map (\<lambda>L. sub_locs L @ [L]) (sub_locs (Dbl n)))"
  have subs_ok: "\<forall>l \<in> set subs. valid_loc l" using n by (auto simp: subs_def sub_locs_def)
  have direct: "clear_direct_loop s n 0 INODE_NUM_DIRECT_PTR = Some (fold release d1 s)"
    using clear_direct_loop_eq [OF wf n, of 0 INODE_NUM_DIRECT_PTR "[]"] by (simp add: d1_def)
  have disj1: "set (blk_at s (Sng n)) \<inter> set d1 = {}"
    unfolding d1_def using n by (intro blks_disjoint wf) auto
  have single: "(if single_indirect_ptrs (inodes (fold release d1 s) n) \<noteq> 0
      then clear_inode_single_indirect (fold release d1 s) (single_indirect_ptrs (inodes (fold release d1 s) n))
      else Some (fold release d1 s)) = Some (fold release d2 s)"
  proof (cases "ptr_at s (Sng n) = 0")
    case True
    then show ?thesis unfolding d2_def null_sub_blks [OF True] by simp
  next
    case False
    then show ?thesis
      using clear_single_eq [OF wf, of "Sng n" d1] n disj1 by (simp add: d2_def del: fold_append blks_simps)
  qed
  have double: "(if double_indirect_ptrs (inodes (fold release d2 s) n) \<noteq> 0
      then clear_inode_double_indirect (fold release d2 s) (double_indirect_ptrs (inodes (fold release d2 s) n))
      else Some (fold release d2 s)) = Some (fold release (d2 @ blks s (subs @ [Dbl n])) s)"
  proof (cases "ptr_at s (Dbl n) = 0")
    case True
    then have "blk_at s l = []" if "l \<in> set (subs @ [Dbl n])" for l
      using that by (auto simp: subs_def sub_locs_def blk_at_def)
    then have "blks s (subs @ [Dbl n]) = []" by (auto simp: blks_def)
    then show ?thesis using True by simp
  next
    case False
    obtain d where d: "d < DATA_BLOCKS_NUM" "ptr_at s (Dbl n) = blk_addr s d" "blk_at s (Dbl n) = [d]"
      by (rule blk_at_Some [OF wf _ False]) (use n in auto)
    have two: "set (blk_at s l) \<inter> set d2 = {}" if "l \<in> {Dbl n} \<union> set (sub_locs (Dbl n))" for l
    proof -
      define ls where "ls = map (Dir n) [0..<INODE_NUM_DIRECT_PTR] @ sub_locs (Sng n) @ [Sng n]"
      have "valid_loc l" "\<forall>l' \<in> set ls. valid_loc l'" "l \<notin> set ls"
        using n that by (auto simp: ls_def sub_locs_mem)
      moreover have "d2 = blks s ls" by (simp add: d2_def d1_def ls_def)
      ultimately show ?thesis using blks_disjoint [OF wf] by simp
    qed
    have "d \<notin> set d2" using two [of "Dbl n"] d(3) by simp
    then have "clear_double_loop (fold release d2 s) (blk_addr s d) 0 PTRS_PER_BLOCK
        = Some (fold release (d2 @ blks s subs) s)"
      unfolding subs_def sub_locs_def [of "Dbl n"]
      using two by (subst clear_double_loop_eq [OF wf n d(1,2)]) (simp_all add: sub_locs_mem del: fold_append)
    then show ?thesis
      using fold_release_block [OF d(1), of "d2 @ blks s subs" s] d(2,3) False
      by (simp add: clear_inode_double_indirect_def del: fold_append)
  qed
  have "owned s n = d2 @ blks s (subs @ [Dbl n])"
    by (simp add: owned_def node_locs_def d2_def d1_def subs_def)
  then show ?thesis
    by (simp only: my_clear_inode_def direct single double Option.bind.bind_lunit)
qed

text \<open>C39: \<^verbatim>\<open>my_clear_inode\<close> frees exactly the blocks of the file.  On a well-formed partition it
  returns; afterwards a data block is in use if it was and the node does not own it, the
  counter has grown by the number of blocks the node owned, each counted once, these
  blocks are zero and all other bytes and all index nodes are unchanged.\<close>

theorem clear_inode_frees_owned:
  assumes "wf_blocks s" "n < MAX_NUM_FILE"
  shows "\<exists>s'. my_clear_inode s n = Some s' \<and> inodes s' = inodes s
    \<and> (\<forall>b. b < DATA_BLOCKS_NUM \<longrightarrow> (blk_used s' b \<longleftrightarrow> blk_used s b \<and> \<not> owns s n b))
    \<and> free_blocks s' = free_blocks s + of_nat (card {b. b < DATA_BLOCKS_NUM \<and> owns s n b})
    \<and> (\<forall>x. x < DATA_BYTES \<longrightarrow>
         data_blocks s' x = (if owns s n (x div BLOCK_SIZE) then NUL else data_blocks s x))"
proof -
  note O = owned_facts [OF assms]
  have card: "card {b. b < DATA_BLOCKS_NUM \<and> owns s n b} = length (owned s n)"
    using distinct_card [OF O(2)] O(1) by simp
  have "x div BLOCK_SIZE < DATA_BLOCKS_NUM" if "x < DATA_BYTES" for x using that by simp
  then show ?thesis
    using fold_release_used [OF O(3)] O(1) card
    by (intro exI [of _ "fold release (owned s n) s"] conjI my_clear_inode_eq [OF assms])
      (auto simp: fold_release_data)
qed

theorem clear_inode_frees_owned_witness:
  "\<exists>s'. my_clear_inode sample_fs 0 = Some s' \<and> \<not> blk_used s' 0 \<and> data_blocks s' 0 = NUL"
proof -
  have "owns sample_fs 0 0" using sample_ptr [of "Dir 0 0"] by (auto simp: owns_def intro!: exI [of _ "Dir 0 0"])
  then show ?thesis
    using clear_inode_frees_owned [of sample_fs 0] by (auto dest!: spec [of _ 0])
qed

end
