(* ===== verification/Dir.thy ===== *)
theory Dir
  imports BlockInv Create
begin

text \<open>
  A directory as a list of entries.  \<open>entries s n\<close> are the addresses of all entries in
  the blocks of index node \<open>n\<close>, in the order the code visits them: direct blocks, then
  the blocks behind the single and the double indirect pointer.  Every search loop of
  \<^verbatim>\<open>discos.c\<close> is shown to be a \<^term>\<open>find\<close> over this list.
\<close>

section \<open>The abstraction\<close>

definition entry_is :: "filesys_struct \<Rightarrow> string \<Rightarrow> nat \<Rightarrow> bool" where
  "entry_is s found a \<longleftrightarrow> strcmp_eq s a found = Some True"

definition entry_num :: "filesys_struct \<Rightarrow> nat \<Rightarrow> nat" where
  "entry_num s a = dec_le (map (data_blocks s) [a + 14..<a + 14 + 2])"

definition block_entries :: "filesys_struct \<Rightarrow> ptr \<Rightarrow> nat list" where
  "block_entries s p = (if p = 0 then [] else map (entry_addr s p) [0..<ENTRIES_PER_BLOCK])"

definition data_locs :: "nat \<Rightarrow> loc list" where
  "data_locs n = map (Dir n) [0..<INODE_NUM_DIRECT_PTR]
     @ map (Sub (Sng n)) [0..<PTRS_PER_BLOCK]
     @ concat (map (\<lambda>i. map (Sub (Sub (Dbl n) i)) [0..<PTRS_PER_BLOCK]) [0..<PTRS_PER_BLOCK])"

definition loc_entries :: "filesys_struct \<Rightarrow> loc \<Rightarrow> nat list" where
  "loc_entries s l = block_entries s (ptr_at s l)"

definition entries :: "filesys_struct \<Rightarrow> nat \<Rightarrow> nat list" where
  "entries s n = concat (map (loc_entries s) (data_locs n))"

definition dir_find :: "filesys_struct \<Rightarrow> nat \<Rightarrow> string \<Rightarrow> nat option" where
  "dir_find s n found = find (entry_is s found) (entries s n)"

section \<open>Reading an entry\<close>

lemma strcmp_defined:
  "a + length str < DATA_BYTES \<Longrightarrow> strcmp_eq s a str \<noteq> None"
  by (induction str arbitrary: a) (auto simp: load_char_def)

lemma entry_in_block:
  assumes "b < DATA_BLOCKS_NUM" "j < ENTRIES_PER_BLOCK"
  shows "entry_addr s (blk_addr s b) j = BLOCK_SIZE * b + 16 * j"
    "BLOCK_SIZE * b + 16 * j + 16 \<le> DATA_BYTES"
  using assms by (simp_all add: entry_addr_def)

lemma strcmp_entry:
  assumes "b < DATA_BLOCKS_NUM" "j < ENTRIES_PER_BLOCK" "length found < 14"
  shows "strcmp_eq s (entry_addr s (blk_addr s b) j) found
    = Some (entry_is s found (entry_addr s (blk_addr s b) j))"
proof -
  have "strcmp_eq s (entry_addr s (blk_addr s b) j) found \<noteq> None"
    using entry_in_block [OF assms(1,2)] assms(3) by (intro strcmp_defined) simp
  then show ?thesis by (auto simp: entry_is_def)
qed

lemma load_num_entry:
  assumes "b < DATA_BLOCKS_NUM" "j < ENTRIES_PER_BLOCK"
  shows "load_inode_num s (entry_addr s (blk_addr s b) j)
    = Some (entry_num s (entry_addr s (blk_addr s b) j))"
  using entry_in_block [OF assms] by (simp add: load_inode_num_def load_bytes_def entry_num_def)

section \<open>The loops over one block\<close>

interpretation se: bounded_search "\<lambda>j. strcmp_eq s (entry_addr s p j) found \<noteq> None"
  "\<lambda>j. entry_is s found (entry_addr s p j)" "\<lambda>j. load_inode_num s (entry_addr s p j)"
  "Some cur" "scan_entries s p found cur" for s p found cur
  by unfold_locales (auto simp: entry_is_def)

interpretation fe: bounded_search "\<lambda>j. strcmp_eq s (entry_addr s p j) found \<noteq> None"
  "\<lambda>j. entry_is s found (entry_addr s p j)" "\<lambda>j. Some (Some (entry_addr s p j))"
  "Some None" "find_entry_block s p found" for s p found
  by unfold_locales (auto simp: entry_is_def)

interpretation ne: bounded_search "\<lambda>j. load_inode_num s (entry_addr s p j) \<noteq> None"
  "\<lambda>j. load_inode_num s (entry_addr s p j) = Some 0" "\<lambda>j. Some (Some (entry_addr s p j))"
  "Some None" "next_dir_entry_loop s p" for s p
  by unfold_locales auto

lemma find_map_Some: "find P (map f xs) = map_option f (find (P \<circ> f) xs)"
  by (induction xs) auto

lemma find_Some_mem: "find P xs = Some x \<Longrightarrow> P x \<and> x \<in> set xs"
  by (induction xs) (auto split: if_splits)

lemma block_entries_blk:
  assumes "wf_blocks s" "b < DATA_BLOCKS_NUM"
  shows "block_entries s (blk_addr s b) = map (entry_addr s (blk_addr s b)) [0..<ENTRIES_PER_BLOCK]"
  using assms blk_addr_nonzero by (simp add: block_entries_def)

lemma scan_entries_find:
  assumes "wf_blocks s" "b < DATA_BLOCKS_NUM" "length found < 14"
  shows "scan_entries s (blk_addr s b) found cur 0 ENTRIES_PER_BLOCK =
    Some (case find (entry_is s found) (block_entries s (blk_addr s b)) of
            None \<Rightarrow> cur | Some a \<Rightarrow> entry_num s a)"
proof -
  let ?p = "blk_addr s b"
  have "scan_entries s ?p found cur 0 ENTRIES_PER_BLOCK =
      (case find (\<lambda>j. entry_is s found (entry_addr s ?p j)) [0..<ENTRIES_PER_BLOCK] of
         None \<Rightarrow> Some cur | Some k \<Rightarrow> load_inode_num s (entry_addr s ?p k))"
    using se.loop_find [of 0 ENTRIES_PER_BLOCK s ?p found cur] strcmp_entry [OF assms(2) _ assms(3)] by simp
  then show ?thesis
    using load_num_entry [OF assms(2)]
    by (auto simp: block_entries_blk [OF assms(1,2)] find_map_Some o_def simp del: upt_Suc
        split: option.splits dest!: find_Some_mem)
qed

lemma find_entry_block_find:
  assumes "wf_blocks s" "b < DATA_BLOCKS_NUM" "length found < 14"
  shows "find_entry_block s (blk_addr s b) found 0 ENTRIES_PER_BLOCK =
    Some (find (entry_is s found) (block_entries s (blk_addr s b)))"
proof -
  let ?p = "blk_addr s b"
  have "find_entry_block s ?p found 0 ENTRIES_PER_BLOCK =
      (case find (\<lambda>j. entry_is s found (entry_addr s ?p j)) [0..<ENTRIES_PER_BLOCK] of
         None \<Rightarrow> Some None | Some k \<Rightarrow> Some (Some (entry_addr s ?p k)))"
    using fe.loop_find [of 0 ENTRIES_PER_BLOCK s ?p found] strcmp_entry [OF assms(2) _ assms(3)] by simp
  then show ?thesis
    by (auto simp: block_entries_blk [OF assms(1,2)] find_map_Some o_def simp del: upt_Suc
        split: option.splits)
qed

lemma get_next_dir_entry_find:
  assumes "wf_blocks s" "b < DATA_BLOCKS_NUM"
  shows "get_next_dir_entry s (blk_addr s b) =
    Some (find (\<lambda>a. entry_num s a = 0) (block_entries s (blk_addr s b)))"
proof -
  let ?p = "blk_addr s b"
  have "find (\<lambda>j. load_inode_num s (entry_addr s ?p j) = Some 0) [0..<ENTRIES_PER_BLOCK]
      = find (\<lambda>j. entry_num s (entry_addr s ?p j) = 0) [0..<ENTRIES_PER_BLOCK]"
    using load_num_entry [OF assms(2)] by (intro find_cong refl) auto
  moreover have "next_dir_entry_loop s ?p 0 ENTRIES_PER_BLOCK =
      (case find (\<lambda>j. load_inode_num s (entry_addr s ?p j) = Some 0) [0..<ENTRIES_PER_BLOCK] of
         None \<Rightarrow> Some None | Some k \<Rightarrow> Some (Some (entry_addr s ?p k)))"
    using ne.loop_find [of 0 ENTRIES_PER_BLOCK s ?p] load_num_entry [OF assms(2)] by simp
  ultimately show ?thesis
    by (auto simp: get_next_dir_entry_def block_entries_blk [OF assms] find_map_Some o_def simp del: upt_Suc
        split: option.splits)
qed

section \<open>The loops over the blocks of a directory\<close>

text \<open>The first location whose result differs from \<open>miss\<close>.\<close>

definition first_hit :: "('l \<Rightarrow> 'r) \<Rightarrow> 'r \<Rightarrow> 'l list \<Rightarrow> 'r" where
  "first_hit res miss ls = (case find (\<lambda>l. res l \<noteq> miss) ls of None \<Rightarrow> miss | Some l \<Rightarrow> res l)"

lemma first_hit_simps [simp]:
  "first_hit res miss [] = miss"
  "first_hit res miss (l # ls) = (if res l \<noteq> miss then res l else first_hit res miss ls)"
  by (auto simp: first_hit_def)

lemma first_hit_append:
  "first_hit res miss (xs @ ys) =
     (if first_hit res miss xs \<noteq> miss then first_hit res miss xs else first_hit res miss ys)"
  by (induction xs) auto

lemma first_hit_find: "first_hit (\<lambda>l. find P (g l)) None ls = find P (concat (map g ls))"
  by (induction ls) (auto simp: find_append split: option.splits)

text \<open>A loop over items, each of which is a search over some locations.\<close>

lemma find_first_hit:
  assumes "\<And>i. i \<in> set is \<Longrightarrow> item i = Some (first_hit res miss (Ls i))"
  shows "(case find (\<lambda>i. item i \<noteq> Some miss) is of None \<Rightarrow> Some miss | Some k \<Rightarrow> item k)
    = Some (first_hit res miss (concat (map Ls is)))"
  using assms by (induction "is") (auto simp: first_hit_append)

abbreviation "direct_item s ino found pre i \<equiv>
  (if pointers ino i \<noteq> 0 then scan_entries s (pointers ino i) found pre 0 ENTRIES_PER_BLOCK else Some pre)"

abbreviation "single_item s idx found pre i \<equiv>
  do { p \<leftarrow> load_index s idx i;
       if p \<noteq> 0 then scan_entries s p found pre 0 ENTRIES_PER_BLOCK else Some pre }"

abbreviation "double_item s dbl found pre i \<equiv>
  do { sp \<leftarrow> load_index s dbl i;
       if sp \<noteq> 0 then scan_single s sp found pre 0 PTRS_PER_BLOCK else Some pre }"

interpretation sd: bounded_search "\<lambda>i. direct_item s ino found pre i \<noteq> None"
  "\<lambda>i. direct_item s ino found pre i \<noteq> Some pre" "direct_item s ino found pre" "Some pre"
  "scan_direct s ino found pre" for s ino found pre
  by unfold_locales auto

interpretation ss: bounded_search "\<lambda>i. single_item s idx found pre i \<noteq> None"
  "\<lambda>i. single_item s idx found pre i \<noteq> Some pre" "single_item s idx found pre" "Some pre"
  "scan_single s idx found pre" for s idx found pre
  by unfold_locales (auto simp: bind_eq_Some_conv)

interpretation sdb: bounded_search "\<lambda>i. double_item s dbl found pre i \<noteq> None"
  "\<lambda>i. double_item s dbl found pre i \<noteq> Some pre" "double_item s dbl found pre" "Some pre"
  "scan_double s dbl found pre" for s dbl found pre
  by unfold_locales (auto simp: bind_eq_Some_conv)

abbreviation "fdirect_item s ino found i \<equiv>
  (if pointers ino i \<noteq> 0 then find_entry_block s (pointers ino i) found 0 ENTRIES_PER_BLOCK else Some None)"

abbreviation "fsingle_item s idx found i \<equiv>
  do { p \<leftarrow> load_index s idx i;
       if p \<noteq> 0 then find_entry_block s p found 0 ENTRIES_PER_BLOCK else Some None }"

abbreviation "fdouble_item s dbl found i \<equiv>
  do { sp \<leftarrow> load_index s dbl i;
       if sp \<noteq> 0 then find_entry_single s sp found 0 PTRS_PER_BLOCK else Some None }"

interpretation fd: bounded_search "\<lambda>i. fdirect_item s ino found i \<noteq> None"
  "\<lambda>i. fdirect_item s ino found i \<noteq> Some None" "fdirect_item s ino found" "Some None"
  "find_entry_direct s ino found" for s ino found
  by unfold_locales auto

interpretation fs: bounded_search "\<lambda>i. fsingle_item s idx found i \<noteq> None"
  "\<lambda>i. fsingle_item s idx found i \<noteq> Some None" "fsingle_item s idx found" "Some None"
  "find_entry_single s idx found" for s idx found
  by unfold_locales (auto simp: bind_eq_Some_conv)

interpretation fdb: bounded_search "\<lambda>i. fdouble_item s dbl found i \<noteq> None"
  "\<lambda>i. fdouble_item s dbl found i \<noteq> Some None" "fdouble_item s dbl found" "Some None"
  "find_entry_double s dbl found" for s dbl found
  by unfold_locales (auto simp: bind_eq_Some_conv)

section \<open>The searches as functions of the list of entries\<close>

definition loc_num :: "filesys_struct \<Rightarrow> string \<Rightarrow> nat \<Rightarrow> loc \<Rightarrow> nat" where
  "loc_num s found pre l =
     (case find (entry_is s found) (loc_entries s l) of None \<Rightarrow> pre | Some a \<Rightarrow> entry_num s a)"

lemma scan_ptr:
  assumes "wf_blocks s" "valid_loc l" "length found < 14" "p = ptr_at s l"
  shows "(if p \<noteq> 0 then scan_entries s p found pre 0 ENTRIES_PER_BLOCK else Some pre)
      = Some (loc_num s found pre l)"
    and "(if p \<noteq> 0 then find_entry_block s p found 0 ENTRIES_PER_BLOCK else Some None)
      = Some (find (entry_is s found) (loc_entries s l))"
proof -
  have "p = 0 \<or> (\<exists>b < DATA_BLOCKS_NUM. p = blk_addr s b)"
    using assms(1,2,4) by (auto simp: wf_blocks_def simp del: ptr_at.simps)
  then show "(if p \<noteq> 0 then scan_entries s p found pre 0 ENTRIES_PER_BLOCK else Some pre)
      = Some (loc_num s found pre l)"
    "(if p \<noteq> 0 then find_entry_block s p found 0 ENTRIES_PER_BLOCK else Some None)
      = Some (find (entry_is s found) (loc_entries s l))"
    using scan_entries_find [OF assms(1) _ assms(3), of _ pre] find_entry_block_find [OF assms(1) _ assms(3)]
    by (auto simp: loc_num_def loc_entries_def assms(4) [symmetric] block_entries_def simp del: ptr_at.simps)
qed

text \<open>The blocks behind one index block.\<close>

lemma index_search:
  assumes wf: "wf_blocks s" and L: "valid_loc L" "index_loc L" "\<And>k. \<not> index_loc (Sub L k)"
    and len: "length found < 14"
  shows "(if ptr_at s L \<noteq> 0 then scan_single s (ptr_at s L) found pre 0 PTRS_PER_BLOCK else Some pre)
      = Some (first_hit (loc_num s found pre) pre (map (Sub L) [0..<PTRS_PER_BLOCK]))"
    and "(if ptr_at s L \<noteq> 0 then find_entry_single s (ptr_at s L) found 0 PTRS_PER_BLOCK else Some None)
      = Some (first_hit (\<lambda>l. find (entry_is s found) (loc_entries s l)) None (map (Sub L) [0..<PTRS_PER_BLOCK]))"
proof -
  let ?is = "[0..<PTRS_PER_BLOCK]"
  have concat: "map (Sub L) ?is = concat (map (\<lambda>i. [Sub L i]) ?is)" by (simp add: concat_map_singleton)
  show "(if ptr_at s L \<noteq> 0 then scan_single s (ptr_at s L) found pre 0 PTRS_PER_BLOCK else Some pre)
      = Some (first_hit (loc_num s found pre) pre (map (Sub L) ?is))"
  proof (cases "ptr_at s L = 0")
    case True
    then have "loc_num s found pre (Sub L k) = pre" for k
      by (simp add: loc_num_def loc_entries_def block_entries_def)
    then have "find (\<lambda>l. loc_num s found pre l \<noteq> pre) (map (Sub L) ?is) = None"
      by (auto simp: find_None_iff)
    then show ?thesis using True by (simp add: first_hit_def)
  next
    case False
    obtain b where b: "b < DATA_BLOCKS_NUM" "ptr_at s L = blk_addr s b"
      using wf_blocksD [OF wf L(1) False] by blast
    have item: "single_item s (ptr_at s L) found pre i = Some (first_hit (loc_num s found pre) pre [Sub L i])"
      if "i \<in> set ?is" for i
    proof -
      have v: "valid_loc (Sub L i)" using that L by simp
      have "load_index s (ptr_at s L) i = Some (ptr_at s (Sub L i))"
        using load_index_ptr_at [OF v b(2,1) wf] b(2) by simp
      then show ?thesis using scan_ptr(1) [OF wf v len refl, of pre] by (simp del: ptr_at.simps)
    qed
    have "scan_single s (ptr_at s L) found pre 0 PTRS_PER_BLOCK
        = (case find (\<lambda>i. single_item s (ptr_at s L) found pre i \<noteq> Some pre) ?is of None \<Rightarrow> Some pre
           | Some k \<Rightarrow> single_item s (ptr_at s L) found pre k)"
      using ss.loop_find [of 0 PTRS_PER_BLOCK s "ptr_at s L" found pre] item by simp
    also have "\<dots> = Some (first_hit (loc_num s found pre) pre (concat (map (\<lambda>i. [Sub L i]) ?is)))"
      by (rule find_first_hit) (rule item)
    finally show ?thesis using False by (simp only: concat) simp
  qed
  show "(if ptr_at s L \<noteq> 0 then find_entry_single s (ptr_at s L) found 0 PTRS_PER_BLOCK else Some None)
      = Some (first_hit (\<lambda>l. find (entry_is s found) (loc_entries s l)) None (map (Sub L) ?is))"
  proof (cases "ptr_at s L = 0")
    case True
    then have "loc_entries s (Sub L k) = []" for k by (simp add: loc_entries_def block_entries_def)
    then have "find (\<lambda>l. find (entry_is s found) (loc_entries s l) \<noteq> None) (map (Sub L) ?is) = None"
      by (auto simp: find_None_iff)
    then show ?thesis using True by (simp add: first_hit_def)
  next
    case False
    obtain b where b: "b < DATA_BLOCKS_NUM" "ptr_at s L = blk_addr s b"
      using wf_blocksD [OF wf L(1) False] by blast
    let ?res = "\<lambda>l. find (entry_is s found) (loc_entries s l)"
    have item: "fsingle_item s (ptr_at s L) found i = Some (first_hit ?res None [Sub L i])"
      if "i \<in> set ?is" for i
    proof -
      have v: "valid_loc (Sub L i)" using that L by simp
      have "load_index s (ptr_at s L) i = Some (ptr_at s (Sub L i))"
        using load_index_ptr_at [OF v b(2,1) wf] b(2) by simp
      then show ?thesis using scan_ptr(2) [OF wf v len refl] by (simp del: ptr_at.simps)
    qed
    have "find_entry_single s (ptr_at s L) found 0 PTRS_PER_BLOCK
        = (case find (\<lambda>i. fsingle_item s (ptr_at s L) found i \<noteq> Some None) ?is of None \<Rightarrow> Some None
           | Some k \<Rightarrow> fsingle_item s (ptr_at s L) found k)"
      using fs.loop_find [of 0 PTRS_PER_BLOCK s "ptr_at s L" found] item by simp
    also have "\<dots> = Some (first_hit ?res None (concat (map (\<lambda>i. [Sub L i]) ?is)))"
      by (rule find_first_hit) (rule item)
    finally show ?thesis using False by (simp only: concat) simp
  qed
qed

lemma direct_search:
  assumes "wf_blocks s" "n < MAX_NUM_FILE" "length found < 14"
  shows "scan_direct s (inodes s n) found pre 0 INODE_NUM_DIRECT_PTR
      = Some (first_hit (loc_num s found pre) pre (map (Dir n) [0..<INODE_NUM_DIRECT_PTR]))"
    and "find_entry_direct s (inodes s n) found 0 INODE_NUM_DIRECT_PTR
      = Some (first_hit (\<lambda>l. find (entry_is s found) (loc_entries s l)) None
          (map (Dir n) [0..<INODE_NUM_DIRECT_PTR]))"
proof -
  let ?is = "[0..<INODE_NUM_DIRECT_PTR]" and ?ino = "inodes s n"
  let ?res = "\<lambda>l. find (entry_is s found) (loc_entries s l)"
  have concat: "map (Dir n) ?is = concat (map (\<lambda>i. [Dir n i]) ?is)" by (simp add: concat_map_singleton)
  have v: "valid_loc (Dir n i)" if "i \<in> set ?is" for i using that assms(2) by simp
  have item: "direct_item s ?ino found pre i = Some (first_hit (loc_num s found pre) pre [Dir n i])"
    and fitem: "fdirect_item s ?ino found i = Some (first_hit ?res None [Dir n i])"
    if "i \<in> set ?is" for i
    using scan_ptr [OF assms(1) v [OF that] assms(3), of "pointers ?ino i"] by simp_all
  have "scan_direct s ?ino found pre 0 INODE_NUM_DIRECT_PTR
      = (case find (\<lambda>i. direct_item s ?ino found pre i \<noteq> Some pre) ?is of None \<Rightarrow> Some pre
         | Some k \<Rightarrow> direct_item s ?ino found pre k)"
    using sd.loop_find [where i = 0 and n = INODE_NUM_DIRECT_PTR and s = s and ino = ?ino and found = found and pre = pre] item by simp
  also have "\<dots> = Some (first_hit (loc_num s found pre) pre (concat (map (\<lambda>i. [Dir n i]) ?is)))"
    by (rule find_first_hit) (rule item)
  finally show "scan_direct s ?ino found pre 0 INODE_NUM_DIRECT_PTR
      = Some (first_hit (loc_num s found pre) pre (map (Dir n) ?is))" by (simp only: concat)
  have "find_entry_direct s ?ino found 0 INODE_NUM_DIRECT_PTR
      = (case find (\<lambda>i. fdirect_item s ?ino found i \<noteq> Some None) ?is of None \<Rightarrow> Some None
         | Some k \<Rightarrow> fdirect_item s ?ino found k)"
    using fd.loop_find [where i = 0 and n = INODE_NUM_DIRECT_PTR and s = s and ino = ?ino and found = found] fitem by simp
  also have "\<dots> = Some (first_hit ?res None (concat (map (\<lambda>i. [Dir n i]) ?is)))"
    by (rule find_first_hit) (rule fitem)
  finally show "find_entry_direct s ?ino found 0 INODE_NUM_DIRECT_PTR
      = Some (first_hit ?res None (map (Dir n) ?is))" by (simp only: concat)
qed

lemma double_search:
  assumes wf: "wf_blocks s" and n: "n < MAX_NUM_FILE" and len: "length found < 14"
    and nz: "ptr_at s (Dbl n) \<noteq> 0"
  shows "scan_double s (ptr_at s (Dbl n)) found pre 0 PTRS_PER_BLOCK
      = Some (first_hit (loc_num s found pre) pre
          (concat (map (\<lambda>i. map (Sub (Sub (Dbl n) i)) [0..<PTRS_PER_BLOCK]) [0..<PTRS_PER_BLOCK])))"
    and "find_entry_double s (ptr_at s (Dbl n)) found 0 PTRS_PER_BLOCK
      = Some (first_hit (\<lambda>l. find (entry_is s found) (loc_entries s l)) None
          (concat (map (\<lambda>i. map (Sub (Sub (Dbl n) i)) [0..<PTRS_PER_BLOCK]) [0..<PTRS_PER_BLOCK])))"
proof -
  let ?is = "[0..<PTRS_PER_BLOCK]" and ?D = "Dbl n"
  let ?res = "\<lambda>l. find (entry_is s found) (loc_entries s l)"
  obtain b where b: "b < DATA_BLOCKS_NUM" "ptr_at s ?D = blk_addr s b"
    using wf_blocksD [OF wf _ nz] n by auto
  have item: "double_item s (ptr_at s ?D) found pre i
      = Some (first_hit (loc_num s found pre) pre (map (Sub (Sub ?D i)) ?is))"
    and fitem: "fdouble_item s (ptr_at s ?D) found i = Some (first_hit ?res None (map (Sub (Sub ?D i)) ?is))"
    if "i \<in> set ?is" for i
  proof -
    have v: "valid_loc (Sub ?D i)" "index_loc (Sub ?D i)" "\<And>k. \<not> index_loc (Sub (Sub ?D i) k)"
      using that n by auto
    have "load_index s (ptr_at s ?D) i = Some (ptr_at s (Sub ?D i))"
      using load_index_ptr_at [OF v(1) b(2,1) wf] b(2) by simp
    then show "double_item s (ptr_at s ?D) found pre i
      = Some (first_hit (loc_num s found pre) pre (map (Sub (Sub ?D i)) ?is))"
      "fdouble_item s (ptr_at s ?D) found i = Some (first_hit ?res None (map (Sub (Sub ?D i)) ?is))"
      using index_search(1) [OF wf v len, of pre] index_search(2) [OF wf v len] by (simp_all only: Option.bind.bind_lunit)
  qed
  have "scan_double s (ptr_at s ?D) found pre 0 PTRS_PER_BLOCK
      = (case find (\<lambda>i. double_item s (ptr_at s ?D) found pre i \<noteq> Some pre) ?is of None \<Rightarrow> Some pre
         | Some k \<Rightarrow> double_item s (ptr_at s ?D) found pre k)"
    using sdb.loop_find [of 0 PTRS_PER_BLOCK s "ptr_at s ?D" found pre] item by simp
  also have "\<dots> = Some (first_hit (loc_num s found pre) pre (concat (map (\<lambda>i. map (Sub (Sub ?D i)) ?is) ?is)))"
    by (rule find_first_hit) (rule item)
  finally show "scan_double s (ptr_at s ?D) found pre 0 PTRS_PER_BLOCK
      = Some (first_hit (loc_num s found pre) pre (concat (map (\<lambda>i. map (Sub (Sub ?D i)) ?is) ?is)))" .
  have "find_entry_double s (ptr_at s ?D) found 0 PTRS_PER_BLOCK
      = (case find (\<lambda>i. fdouble_item s (ptr_at s ?D) found i \<noteq> Some None) ?is of None \<Rightarrow> Some None
         | Some k \<Rightarrow> fdouble_item s (ptr_at s ?D) found k)"
    using fdb.loop_find [of 0 PTRS_PER_BLOCK s "ptr_at s ?D" found] fitem by simp
  also have "\<dots> = Some (first_hit ?res None (concat (map (\<lambda>i. map (Sub (Sub ?D i)) ?is) ?is)))"
    by (rule find_first_hit) (rule fitem)
  finally show "find_entry_double s (ptr_at s ?D) found 0 PTRS_PER_BLOCK
      = Some (first_hit ?res None (concat (map (\<lambda>i. map (Sub (Sub ?D i)) ?is) ?is)))" .
qed

lemma first_hit_null:
  assumes "\<And>l. l \<in> set ls \<Longrightarrow> ptr_at s l = 0"
  shows "first_hit (loc_num s found pre) pre ls = pre"
    "first_hit (\<lambda>l. find P (loc_entries s l)) None ls = None"
  using assms by (induction ls) (auto simp: loc_num_def loc_entries_def block_entries_def simp del: ptr_at.simps)

lemma double_null: "ptr_at s (Dbl n) = 0 \<Longrightarrow>
  l \<in> set (concat (map (\<lambda>i. map (Sub (Sub (Dbl n) i)) [0..<PTRS_PER_BLOCK]) [0..<PTRS_PER_BLOCK])) \<Longrightarrow> ptr_at s l = 0"
  by auto

text \<open>The whole directory.\<close>

lemma dir_search_hit:
  assumes wf: "wf_blocks s" and n: "n < MAX_NUM_FILE" and len: "length found < 14"
  shows "dir_search s n found = Some (first_hit (loc_num s found n) n (data_locs n))"
proof -
  let ?ino = "inodes s n"
  let ?d = "first_hit (loc_num s found n) n (map (Dir n) [0..<INODE_NUM_DIRECT_PTR])"
  let ?s = "first_hit (loc_num s found n) n (map (Sub (Sng n)) [0..<PTRS_PER_BLOCK])"
  let ?D = "first_hit (loc_num s found n) n
    (concat (map (\<lambda>i. map (Sub (Sub (Dbl n) i)) [0..<PTRS_PER_BLOCK]) [0..<PTRS_PER_BLOCK]))"
  have sng: "(if single_indirect_ptrs ?ino \<noteq> 0
      then scan_single s (single_indirect_ptrs ?ino) found n 0 PTRS_PER_BLOCK else Some n) = Some ?s"
    using index_search(1) [OF wf, of "Sng n" found n] n len by (simp cong: if_cong)
  have dbl: "(if double_indirect_ptrs ?ino \<noteq> 0
      then scan_double s (double_indirect_ptrs ?ino) found n 0 PTRS_PER_BLOCK else Some n) = Some ?D"
  proof (cases "ptr_at s (Dbl n) = 0")
    case True
    have "?D = n" by (rule first_hit_null(1), rule double_null [OF True])
    then show ?thesis using True by simp
  next
    case False
    then show ?thesis using double_search(1) [OF wf n len False, of n] by simp
  qed
  have "dir_search s n found = Some (if ?d \<noteq> n then ?d else if ?s \<noteq> n then ?s else ?D)"
    using n by (simp only: dir_search_def get_inode_def if_True Option.bind.bind_lunit
        direct_search(1) [OF wf n len] sng dbl) auto
  then show ?thesis by (simp add: data_locs_def first_hit_append)
qed

lemma find_entry_hit:
  assumes wf: "wf_blocks s" and n: "n < MAX_NUM_FILE" and len: "length found < 14"
  shows "find_entry_in_current_dir s n found = Some (dir_find s n found)"
proof -
  let ?ino = "inodes s n" and ?res = "\<lambda>l. find (entry_is s found) (loc_entries s l)"
  let ?d = "first_hit ?res None (map (Dir n) [0..<INODE_NUM_DIRECT_PTR])"
  let ?s = "first_hit ?res None (map (Sub (Sng n)) [0..<PTRS_PER_BLOCK])"
  let ?D = "first_hit ?res None
    (concat (map (\<lambda>i. map (Sub (Sub (Dbl n) i)) [0..<PTRS_PER_BLOCK]) [0..<PTRS_PER_BLOCK]))"
  have sng: "(if single_indirect_ptrs ?ino \<noteq> 0
      then find_entry_single s (single_indirect_ptrs ?ino) found 0 PTRS_PER_BLOCK else Some None) = Some ?s"
    using index_search(2) [OF wf, of "Sng n" found] n len by (simp cong: if_cong)
  have dbl: "(if double_indirect_ptrs ?ino \<noteq> 0
      then find_entry_double s (double_indirect_ptrs ?ino) found 0 PTRS_PER_BLOCK else Some None) = Some ?D"
  proof (cases "ptr_at s (Dbl n) = 0")
    case True
    have "?D = None" by (rule first_hit_null(2), rule double_null [OF True])
    then show ?thesis using True by simp
  next
    case False
    then show ?thesis using double_search(2) [OF wf n len False] by simp
  qed
  have "find_entry_in_current_dir s n found
      = Some (if ?d \<noteq> None then ?d else if ?s \<noteq> None then ?s else ?D)"
    using n by (simp only: find_entry_in_current_dir_def get_inode_def if_True Option.bind.bind_lunit
        direct_search(2) [OF wf n len] sng dbl) auto
  also have "\<dots> = Some (first_hit ?res None (data_locs n))"
    by (simp only: data_locs_def first_hit_append)
  finally show ?thesis by (simp add: first_hit_find dir_find_def entries_def)
qed

text \<open>A directory that has no entry for itself: the test \<^verbatim>\<open>cur_node_num != pre_node_num\<close>
  is then exactly "found".\<close>

lemma dir_search_find:
  assumes "wf_blocks s" "n < MAX_NUM_FILE" "length found < 14"
    and self: "\<And>a. a \<in> set (entries s n) \<Longrightarrow> entry_is s found a \<Longrightarrow> entry_num s a \<noteq> n"
  shows "dir_search s n found =
    Some (case dir_find s n found of None \<Rightarrow> n | Some a \<Rightarrow> entry_num s a)"
proof -
  have "first_hit (loc_num s found n) n ls =
      (case find (entry_is s found) (concat (map (loc_entries s) ls)) of None \<Rightarrow> n | Some a \<Rightarrow> entry_num s a)"
    if "set ls \<subseteq> set (data_locs n)" for ls
    using that
  proof (induction ls)
    case (Cons l ls)
    have "entry_num s a \<noteq> n" if "find (entry_is s found) (loc_entries s l) = Some a" for a
      using find_Some_mem [OF that] Cons.prems by (intro self) (auto simp: entries_def)
    then show ?case using Cons by (auto simp: find_append loc_num_def split: option.splits)
  qed simp
  then show ?thesis
    using dir_search_hit [OF assms(1-3)] by (simp add: dir_find_def entries_def)
qed

section \<open>Well-formed directories\<close>

text \<open>An entry is free, with number 0 and an empty name, or it names an index node other
  than the directory itself.\<close>

definition slot_wf :: "filesys_struct \<Rightarrow> nat \<Rightarrow> nat \<Rightarrow> bool" where
  "slot_wf s n a \<longleftrightarrow>
     entry_num s a = 0 \<and> data_blocks s a = NUL
     \<or> 0 < entry_num s a \<and> entry_num s a < MAX_NUM_FILE \<and> entry_num s a \<noteq> n"

definition is_dir :: "filesys_struct \<Rightarrow> nat \<Rightarrow> bool" where
  "is_dir s n \<longleftrightarrow> n < MAX_NUM_FILE \<and> itype (inodes s n) = ''dir''"

definition dirs_ok :: "filesys_struct \<Rightarrow> bool" where
  "dirs_ok s \<longleftrightarrow> (\<forall>n a. is_dir s n \<longrightarrow> a \<in> set (entries s n) \<longrightarrow> slot_wf s n a)"

lemma entry_is_first:
  assumes "entry_is s found a" "found \<noteq> []"
  shows "data_blocks s a = hd found"
proof -
  from assms(2) obtain c cs where "found = c # cs" by (cases found) auto
  with assms(1) show ?thesis
    by (auto simp: entry_is_def load_char_def split: if_splits)
qed

lemma is_name_props: "is_name t \<Longrightarrow> length t < 14 \<and> t \<noteq> [] \<and> hd t \<noteq> NUL \<and> is_cstr t"
  by (cases t) (auto simp: is_name_def)

lemma entry_is_num:
  assumes "slot_wf s n a" "entry_is s t a" "is_name t"
  shows "0 < entry_num s a" "entry_num s a < MAX_NUM_FILE" "entry_num s a \<noteq> n"
  using assms entry_is_first [OF assms(2)] is_name_props [OF assms(3)] by (auto simp: slot_wf_def)

lemma dir_search_dir:
  assumes "wf_blocks s" "dirs_ok s" "is_dir s n" "is_name t"
  shows "dir_search s n t = Some (case dir_find s n t of None \<Rightarrow> n | Some a \<Rightarrow> entry_num s a)"
proof (rule dir_search_find [OF assms(1)])
  show "n < MAX_NUM_FILE" using assms(3) by (simp add: is_dir_def)
  show "length t < 14" using is_name_props [OF assms(4)] by simp
  show "entry_num s a \<noteq> n" if "a \<in> set (entries s n)" "entry_is s t a" for a
    using entry_is_num [OF _ that(2) assms(4)] that(1) assms(2,3) by (auto simp: dirs_ok_def)
qed

lemma dir_find_num:
  assumes "dirs_ok s" "is_dir s n" "is_name t" "dir_find s n t = Some a"
  shows "0 < entry_num s a" "entry_num s a < MAX_NUM_FILE" "entry_num s a \<noteq> n" "a \<in> set (entries s n)"
proof -
  have a: "entry_is s t a" "a \<in> set (entries s n)"
    using find_Some_mem [OF assms(4) [unfolded dir_find_def]] by auto
  then have "slot_wf s n a" using assms(1,2) by (simp add: dirs_ok_def)
  from entry_is_num [OF this a(1) assms(3)] a(2)
  show "0 < entry_num s a" "entry_num s a < MAX_NUM_FILE" "entry_num s a \<noteq> n" "a \<in> set (entries s n)" by auto
qed

section \<open>Paths\<close>

text \<open>The specification of a lookup: follow the first entry with the name, from the root.\<close>

fun lookup_path :: "filesys_struct \<Rightarrow> nat \<Rightarrow> string list \<Rightarrow> nat option" where
  "lookup_path s n [] = Some n"
| "lookup_path s n (t # ts) =
     (case dir_find s n t of None \<Rightarrow> None | Some a \<Rightarrow> lookup_path s (entry_num s a) ts)"

text \<open>All components but the last lead to directories.\<close>

fun through_dirs :: "filesys_struct \<Rightarrow> nat \<Rightarrow> string list \<Rightarrow> bool" where
  "through_dirs s n [] = True"
| "through_dirs s n (t # ts) =
     (is_dir s n \<and> (case dir_find s n t of None \<Rightarrow> True | Some a \<Rightarrow> through_dirs s (entry_num s a) ts))"

lemma walk_lookup:
  assumes "wf_blocks s" "dirs_ok s" "through_dirs s n ts" "\<forall>t \<in> set ts. is_name t"
  shows "walk s n ts = Some (case lookup_path s n ts of None \<Rightarrow> -1 | Some m \<Rightarrow> int m)"
  using assms(3,4)
proof (induction ts arbitrary: n)
  case (Cons t ts)
  have d: "is_dir s n" "is_name t" using Cons.prems by auto
  show ?case
  proof (cases "dir_find s n t")
    case None
    then show ?thesis using dir_search_dir [OF assms(1,2) d] by simp
  next
    case (Some a)
    then show ?thesis
      using dir_search_dir [OF assms(1,2) d] dir_find_num [OF assms(2) d Some] Cons by simp
  qed
qed simp

lemma path_of_Cons_neq: "ts \<noteq> [] \<Longrightarrow> \<forall>t \<in> set ts. is_name t \<Longrightarrow> path_of ts \<noteq> ''/'' \<and> path_of ts \<noteq> []"
  by (cases ts) (auto simp: path_of_def is_name_def)

lemma lookup_spec:
  assumes "wf_blocks s" "dirs_ok s" "through_dirs s 0 ts" "\<forall>t \<in> set ts. is_name t"
  shows "search_path s (path_of ts) =
    Some (case lookup_path s 0 ts of None \<Rightarrow> -1 | Some m \<Rightarrow> int m)"
proof (cases "ts = []")
  case True
  then show ?thesis by (simp add: search_path_def path_of_def)
next
  case False
  have "strsep_tokens (tl (path_of ts)) = ts"
    using strsep_path [OF False] assms(4) by (auto simp: is_name_def)
  then show ?thesis
    using walk_lookup [OF assms] path_of_Cons_neq [OF False assms(4)]
    by (simp add: search_path_def)
qed

lemma lookup_path_range:
  assumes "dirs_ok s" "through_dirs s n ts" "\<forall>t \<in> set ts. is_name t" "lookup_path s n ts = Some m"
    "n < MAX_NUM_FILE"
  shows "m < MAX_NUM_FILE"
  using assms(2-5)
proof (induction ts arbitrary: n)
  case (Cons t ts)
  then obtain a where a: "dir_find s n t = Some a" by (auto split: option.splits)
  have "entry_num s a < MAX_NUM_FILE" using dir_find_num(2) [OF assms(1) _ _ a] Cons.prems by auto
  then show ?case using Cons a by auto
qed simp

lemma lookup_path_append:
  "lookup_path s n (ts @ us) = (case lookup_path s n ts of None \<Rightarrow> None | Some m \<Rightarrow> lookup_path s m us)"
  by (induction ts arbitrary: n) (auto split: option.splits)

lemma through_dirs_append:
  "through_dirs s n (ts @ us) \<longleftrightarrow> through_dirs s n ts
     \<and> (case lookup_path s n ts of None \<Rightarrow> True | Some m \<Rightarrow> through_dirs s m us)"
  by (induction ts arbitrary: n) (auto split: option.splits)

end
