(* ===== verification/CreateInv.thy ===== *)
theory CreateInv
  imports Dir
begin

text \<open>
  What \<^verbatim>\<open>get_next_entry\<close>, \<^verbatim>\<open>rd_create\<close> and \<^verbatim>\<open>rd_mkdir\<close> do to a well-formed partition.
  \<open>grown n s s'\<close>: the directory of index node \<open>n\<close> may have got new, all-zero blocks,
  and nothing else changed.
\<close>

section \<open>Growing a directory\<close>

definition data_loc :: "nat \<Rightarrow> loc \<Rightarrow> bool" where
  "data_loc n l \<longleftrightarrow> valid_loc l \<and> \<not> index_loc l \<and> node_of l = n"

definition zero_block :: "filesys_struct \<Rightarrow> nat \<Rightarrow> bool" where
  "zero_block s c \<longleftrightarrow> c < DATA_BLOCKS_NUM \<and> (\<forall>x. x div BLOCK_SIZE = c \<longrightarrow> data_blocks s x = NUL)"

definition kept_loc :: "filesys_struct \<Rightarrow> filesys_struct \<Rightarrow> loc \<Rightarrow> bool" where
  "kept_loc s s' l \<longleftrightarrow>
     ptr_at s' l = ptr_at s l
       \<and> (\<forall>c. c < DATA_BLOCKS_NUM \<longrightarrow> ptr_at s l = blk_addr s c \<longrightarrow> same_block s s' c)
     \<or> ptr_at s l = 0 \<and> (\<exists>c. zero_block s' c \<and> ptr_at s' l = blk_addr s' c)"

definition grown :: "nat \<Rightarrow> filesys_struct \<Rightarrow> filesys_struct \<Rightarrow> bool" where
  "grown n s s' \<longleftrightarrow> wf_blocks s' \<and> node_step n s s'
     \<and> (\<forall>l. data_loc n l \<longrightarrow> kept_loc s s' l) \<and> (\<forall>m. isize (inodes s' m) = isize (inodes s m))"

lemma grown_refl: "wf_blocks s \<Longrightarrow> grown n s s"
  by (simp add: grown_def kept_loc_def)

lemma grownD:
  assumes "grown n s s'"
  shows "wf_blocks s'" "node_step n s s'" "\<And>l. data_loc n l \<Longrightarrow> kept_loc s s' l"
    "\<And>m. isize (inodes s' m) = isize (inodes s m)" "discos_addr s' = discos_addr s"
  using assms node_step_addr by (auto simp: grown_def)

lemma kept_loc_trans:
  assumes "wf_blocks s'" "discos_addr s' = discos_addr s" "discos_addr s'' = discos_addr s'"
    "kept_loc s s' l" "kept_loc s' s'' l"
  shows "kept_loc s s'' l"
proof -
  note A = addr_frame(1) [OF assms(2)] addr_frame(1) [OF assms(3)]
  show ?thesis
  proof (cases "ptr_at s l = 0 \<and> ptr_at s' l \<noteq> 0")
    case True
    then obtain c where c: "zero_block s' c" "ptr_at s' l = blk_addr s' c"
      using assms(4) by (auto simp: kept_loc_def)
    then have "same_block s' s'' c" "ptr_at s'' l = blk_addr s'' c"
      using assms(5) True A by (auto simp: kept_loc_def zero_block_def)
    then show ?thesis using True c by (auto simp: kept_loc_def zero_block_def same_block_def)
  next
    case False
    have eq: "ptr_at s' l = ptr_at s l"
      using assms(4) False by (auto simp: kept_loc_def)
    show ?thesis
    proof (cases "ptr_at s'' l = ptr_at s' l")
      case True
      have "same_block s s'' c" if c: "c < DATA_BLOCKS_NUM" "ptr_at s l = blk_addr s c" for c
      proof -
        have "ptr_at s l \<noteq> 0"
          using c assms(1) blk_addr_nonzero [of s' c] A by simp
        then have "same_block s s' c" "same_block s' s'' c"
          using assms(4,5) c eq A by (auto simp: kept_loc_def)
        then show ?thesis by (rule same_block_trans)
      qed
      then show ?thesis using True eq by (simp add: kept_loc_def)
    next
      case ch: False
      then show ?thesis using assms(5) eq by (auto simp: kept_loc_def)
    qed
  qed
qed

lemma grown_trans:
  assumes "grown n s s'" "grown n s' s''"
  shows "grown n s s''"
proof -
  note 1 = grownD [OF assms(1)] and 2 = grownD [OF assms(2)]
  show ?thesis
    unfolding grown_def
    using 2(1) node_step_trans [OF 1(2) 2(2)] 1(4) 2(4)
      kept_loc_trans [OF 1(1,5) 2(5) 1(3) 2(3)] by simp
qed

lemma attached_grown:
  assumes "wf_blocks s" "attached s L0 b s'" "node_of L0 = n" "ptr_at s L0 = 0"
  shows "grown n s s'"
proof -
  note D = attachedD [OF assms(2)]
  have "kept_loc s s' l" if "data_loc n l" for l
  proof (cases "l = L0")
    case True
    then show ?thesis
      using that D(1,6) D(7) [of l] assms(4)
      by (auto simp: kept_loc_def data_loc_def zero_block_def addr_frame(1) [OF D(4)])
  next
    case False
    then show ?thesis using that D(7) [of l] D(10) [of l] by (auto simp: kept_loc_def data_loc_def)
  qed
  then show ?thesis using D(8,9,11) assms(3) by (simp add: grown_def)
qed

lemma fresh_grown:
  assumes "wf_blocks s" "fresh_alloc s b s1"
  shows "grown n s s1"
proof -
  note a = fresh_allocD [OF assms(2)]
  have own: "owns s1 m c \<longleftrightarrow> owns s m c" for m c
    using a(9) by (auto simp: owns_def addr_frame(1) [OF a(4)])
  have same: "same_block s s1 c" if "blk_used s c" for c
    using that a(2,8) by (auto simp: same_block_def)
  have "node_step n s s1"
  proof (rule node_stepI)
    show "blk_used s1 c" if "blk_used s c" for c using that a(3) by simp
    show "\<not> owns s1 n c" if "\<not> owns s n c" for c using that own by simp
    show "counter_ok s1" if "counter_ok s" using that by (rule a(12))
  qed (simp_all add: a(4,5,6) same)
  moreover have "kept_loc s s1 l" if l: "data_loc n l" for l
    unfolding kept_loc_def
  proof (intro disjI1 conjI allI impI)
    show "ptr_at s1 l = ptr_at s l" using l a(9) by (simp add: data_loc_def)
    show "same_block s s1 c" if "c < DATA_BLOCKS_NUM" "ptr_at s l = blk_addr s c" for c
      using l wf_used [OF assms(1) _ that] by (intro same) (simp add: data_loc_def)
  qed
  ultimately show ?thesis using a(5,10) by (simp add: grown_def)
qed

section \<open>The entry that is returned\<close>

text \<open>A free entry that is not part of a block of another index node, nor of an index block.\<close>

definition free_entry :: "filesys_struct \<Rightarrow> nat \<Rightarrow> nat \<Rightarrow> bool" where
  "free_entry s n a \<longleftrightarrow>
     (\<exists>c j. c < DATA_BLOCKS_NUM \<and> j < ENTRIES_PER_BLOCK \<and> a = BLOCK_SIZE * c + 16 * j
        \<and> entry_num s a = 0 \<and> blk_used s c
        \<and> (\<forall>l. valid_loc l \<longrightarrow> ptr_at s l = blk_addr s c \<longrightarrow> data_loc n l))"

lemma loc_entries_blk:
  assumes "wf_blocks s" "c < DATA_BLOCKS_NUM" "ptr_at s l = blk_addr s c"
  shows "loc_entries s l = map (\<lambda>j. BLOCK_SIZE * c + 16 * j) [0..<ENTRIES_PER_BLOCK]"
  using assms by (simp add: loc_entries_def block_entries_blk entry_addr_def del: ptr_at.simps upt_Suc)

lemma data_loc_mem: "data_loc n l \<Longrightarrow> l \<in> set (data_locs n)"
proof (cases l)
  case (Sub L k)
  assume d: "data_loc n l"
  then show ?thesis
  proof (cases L)
    case (Sub M i)
    then show ?thesis
      using d \<open>l = Sub L k\<close> by (cases M) (auto simp: data_loc_def data_locs_def dest!: bspec [of _ _ i])
  qed (use d Sub in \<open>auto simp: data_loc_def data_locs_def\<close>)
qed (auto simp: data_loc_def data_locs_def)

lemma data_locs_sound: "n < MAX_NUM_FILE \<Longrightarrow> l \<in> set (data_locs n) \<Longrightarrow> data_loc n l"
  by (auto simp: data_loc_def data_locs_def)

lemma entries_mem:
  assumes "wf_blocks s" "data_loc n l" "c < DATA_BLOCKS_NUM" "ptr_at s l = blk_addr s c" "j < ENTRIES_PER_BLOCK"
  shows "BLOCK_SIZE * c + 16 * j \<in> set (entries s n)"
  using assms(5) data_loc_mem [OF assms(2)] loc_entries_blk [OF assms(1,3,4)]
  by (auto simp: entries_def intro!: bexI [of _ l])

lemma entries_elim:
  assumes "wf_blocks s" "n < MAX_NUM_FILE" "a \<in> set (entries s n)"
  obtains l c j where "data_loc n l" "c < DATA_BLOCKS_NUM" "ptr_at s l = blk_addr s c"
    "j < ENTRIES_PER_BLOCK" "a = BLOCK_SIZE * c + 16 * j"
proof -
  from assms(3) obtain l where l: "l \<in> set (data_locs n)" "a \<in> set (loc_entries s l)"
    by (auto simp: entries_def)
  have d: "data_loc n l" by (rule data_locs_sound [OF assms(2) l(1)])
  have "ptr_at s l \<noteq> 0" using l(2) by (auto simp: loc_entries_def block_entries_def)
  then obtain c where c: "c < DATA_BLOCKS_NUM" "ptr_at s l = blk_addr s c"
    using wf_blocksD [OF assms(1)] d by (auto simp: data_loc_def)
  then show thesis using that [OF d c] l(2) loc_entries_blk [OF assms(1) c] by auto
qed

lemma zero_entry_num:
  assumes "zero_block s c" "j < ENTRIES_PER_BLOCK"
  shows "entry_num s (BLOCK_SIZE * c + 16 * j) = 0" "data_blocks s (BLOCK_SIZE * c + 16 * j) = NUL"
proof -
  have z: "data_blocks s x = NUL" if "BLOCK_SIZE * c + 16 * j \<le> x" "x < BLOCK_SIZE * c + 16 * j + 16" for x
    using assms that by (auto simp: zero_block_def)
  then have "map (data_blocks s) [BLOCK_SIZE * c + 16 * j + 14..<BLOCK_SIZE * c + 16 * j + 14 + 2] = replicate 2 NUL"
    by (intro nth_equalityI) auto
  then show "entry_num s (BLOCK_SIZE * c + 16 * j) = 0" by (simp only: entry_num_def) simp
  show "data_blocks s (BLOCK_SIZE * c + 16 * j) = NUL" using z by simp
qed

lemma free_in_entries:
  assumes "wf_blocks s" "data_loc n l" "c < DATA_BLOCKS_NUM" "ptr_at s l = blk_addr s c"
    "j < ENTRIES_PER_BLOCK" "entry_num s (BLOCK_SIZE * c + 16 * j) = 0"
  shows "free_entry s n (BLOCK_SIZE * c + 16 * j)" "BLOCK_SIZE * c + 16 * j \<in> set (entries s n)"
proof -
  have v: "valid_loc l" using assms(2) by (simp add: data_loc_def)
  have nz: "ptr_at s l \<noteq> 0" using assms(1,3,4) blk_addr_nonzero by simp
  have "data_loc n l'" if "valid_loc l'" "ptr_at s l' = blk_addr s c" for l'
    using wf_blocks_inj [OF assms(1) v that(1) nz] that(2) assms(2,4) by simp
  then show "free_entry s n (BLOCK_SIZE * c + 16 * j)"
    using assms wf_used [OF assms(1) v assms(3,4)] unfolding free_entry_def by blast
  show "BLOCK_SIZE * c + 16 * j \<in> set (entries s n)"
    by (rule entries_mem [OF assms(1-5)])
qed

text \<open>The result: the entry is free, and it is one of the directory.\<close>

definition good_entry :: "filesys_struct \<Rightarrow> nat \<Rightarrow> nat \<Rightarrow> bool" where
  "good_entry s n a \<longleftrightarrow> free_entry s n a \<and> a \<in> set (entries s n)"

lemma next_in_block:
  assumes "wf_blocks s" "data_loc n l" "c < DATA_BLOCKS_NUM" "ptr_at s l = blk_addr s c"
  obtains r where "get_next_dir_entry s (blk_addr s c) = Some r" "\<And>a. r = Some a \<Longrightarrow> good_entry s n a"
proof -
  define r where "r = find (\<lambda>a. entry_num s a = 0) (block_entries s (blk_addr s c))"
  have "good_entry s n a" if "r = Some a" for a
  proof -
    have "entry_num s a = 0 \<and> a \<in> set (block_entries s (blk_addr s c))"
      by (rule find_Some_mem [OF that [unfolded r_def]])
    then obtain j where "j < ENTRIES_PER_BLOCK" "a = BLOCK_SIZE * c + 16 * j" "entry_num s a = 0"
      using assms(3) by (auto simp: block_entries_blk [OF assms(1,3)] entry_addr_def)
    then show ?thesis using free_in_entries [OF assms] by (simp add: good_entry_def)
  qed
  then show thesis
    using that [of r] get_next_dir_entry_find [OF assms(1,3)] unfolding r_def by blast
qed

lemma new_block_entry:
  assumes "attached s L0 b s'" "data_loc n L0"
  shows "good_entry s' n (entry_addr s' (blk_addr s b) 0)"
proof -
  note D = attachedD [OF assms(1)]
  have z: "zero_block s' b" using D(1,6) by (simp add: zero_block_def)
  have p: "ptr_at s' L0 = blk_addr s' b"
    using D(7) [of L0] assms(2) by (simp add: data_loc_def addr_frame(1) [OF D(4)])
  have "entry_addr s' (blk_addr s b) 0 = BLOCK_SIZE * b + 16 * 0"
    using D(1) by (simp add: entry_addr_def addr_frame(2) [OF D(4)])
  moreover have "good_entry s' n (BLOCK_SIZE * b + 16 * 0)"
    unfolding good_entry_def
    using free_in_entries [OF D(8) assms(2) D(1) p _ zero_entry_num(1) [OF z], of 0] by simp
  ultimately show ?thesis by (simp only:)
qed

lemma next_entry_direct_spec:
  assumes "wf_blocks s" "node < MAX_NUM_FILE" "i + m \<le> INODE_NUM_DIRECT_PTR"
  shows "\<exists>r s'. next_entry_direct s node i m = Some (r, s') \<and> grown node s s'
    \<and> (\<forall>a. r = Return (Some a) \<longrightarrow> good_entry s' node a) \<and> (r = Fall \<or> r = Return None \<longrightarrow> s' = s)"
  using assms(3)
proof (induction m arbitrary: i)
  case 0
  then show ?case by (simp add: grown_refl [OF assms(1)])
next
  case (Suc m)
  let ?l = "Dir node i" and ?fb = "get_free_block_num_from_bitmap s"
  have l: "data_loc node ?l" "valid_loc ?l" "node_of ?l = node"
    using assms(2) Suc.prems by (auto simp: data_loc_def)
  show ?case
  proof (cases "ptr_at s ?l = 0")
    case True
    show ?thesis
    proof (cases "?fb = -1")
      case True
      then show ?thesis using \<open>ptr_at s ?l = 0\<close> by (simp add: Let_def grown_refl [OF assms(1)])
    next
      case False
      let ?f = "\<lambda>ino q. ino\<lparr>pointers := (pointers ino)(i := q)\<rparr>"
      obtain b s1 where a: "allocate_data_block s ?fb = Some (blk_addr s b, s1)" "fresh_alloc s b s1"
        using alloc_fresh [OF assms(1) False] by blast
      let ?s' = "set_inode s1 node (?f (inodes s1 node) (blk_addr s b))"
      have att: "attached s ?l b ?s'"
        by (rule attach_inode [OF assms(1) a(2) l(2,3) True]) blast
      have "next_entry_direct s node i (Suc m) = Some (Return (Some (entry_addr ?s' (blk_addr s b) 0)), ?s')"
        using \<open>ptr_at s ?l = 0\<close> False a(1)
        by (simp add: Let_def del: set_inode_fields addr_update)
      then show ?thesis
        using attached_grown [OF assms(1) att l(3) True] new_block_entry [OF att l(1)] by blast
    qed
  next
    case False
    obtain c where c: "c < DATA_BLOCKS_NUM" "ptr_at s ?l = blk_addr s c"
      using wf_blocksD [OF assms(1) l(2) False] by blast
    obtain e where e: "get_next_dir_entry s (blk_addr s c) = Some e" "\<And>a. e = Some a \<Longrightarrow> good_entry s node a"
      using next_in_block [OF assms(1) l(1) c] by blast
    have eq: "next_entry_direct s node i (Suc m) =
        (if e \<noteq> None then Some (Return e, s) else next_entry_direct s node (Suc i) m)"
      using False c(2) e(1) by (simp add: Let_def)
    show ?thesis
    proof (cases e)
      case None
      then show ?thesis using Suc.IH [of "Suc i"] Suc.prems unfolding eq by simp
    next
      case (Some a)
      then show ?thesis unfolding eq using e(2) grown_refl [OF assms(1)] by simp
    qed
  qed
qed

text \<open>The single indirect stage, on an index block the directory has.\<close>

lemma next_single_spec:
  assumes "wf_blocks s" "valid_loc L" "index_loc L" "\<And>k. \<not> index_loc (Sub L k)" "node_of L = node"
    "c < DATA_BLOCKS_NUM" "ptr_at s L = blk_addr s c" "seg < PTRS_PER_BLOCK"
  shows "\<exists>r s'. get_next_dir_entry_single s (blk_addr s c) seg = Some (r, s') \<and> grown node s s'
    \<and> (\<forall>a. r = Some a \<longrightarrow> good_entry s' node a)"
proof -
  let ?l = "Sub L seg" and ?fb = "get_free_block_num_from_bitmap s"
  have l: "data_loc node ?l" "valid_loc ?l" using assms(2-5,8) by (auto simp: data_loc_def)
  have ld: "load_index s (blk_addr s c) seg = Some (ptr_at s ?l)"
    by (rule load_index_ptr_at [OF l(2) assms(7,6,1)])
  show ?thesis
  proof (cases "ptr_at s ?l = 0")
    case null: True
    show ?thesis
    proof (cases "?fb = -1")
      case True
      then show ?thesis
        using null ld grown_refl [OF assms(1)]
        by (simp add: get_next_dir_entry_single_def Let_def del: ptr_at.simps)
    next
      case False
      obtain b s1 where a: "allocate_data_block s ?fb = Some (blk_addr s b, s1)" "fresh_alloc s b s1"
        using alloc_fresh [OF assms(1) False] by blast
      obtain s2 where s2: "store_index s1 (blk_addr s c) seg (blk_addr s b) = Some s2"
        "load_index s2 (blk_addr s c) seg = Some (blk_addr s b)" "attached s ?l b s2"
        using attach_index [OF assms(1) a(2) l(2) assms(7,6) null] by blast
      have "get_next_dir_entry_single s (blk_addr s c) seg = Some (Some (entry_addr s2 (blk_addr s b) 0), s2)"
        using null ld False a(1) s2(1,2)
        by (simp add: get_next_dir_entry_single_def Let_def del: ptr_at.simps)
      then show ?thesis
        using attached_grown [OF assms(1) s2(3) _ null] new_block_entry [OF s2(3) l(1)] assms(5) by simp
    qed
  next
    case False
    obtain d where d: "d < DATA_BLOCKS_NUM" "ptr_at s ?l = blk_addr s d"
      using wf_blocksD [OF assms(1) l(2) False] by blast
    obtain e where e: "get_next_dir_entry s (blk_addr s d) = Some e" "\<And>a. e = Some a \<Longrightarrow> good_entry s node a"
      using next_in_block [OF assms(1) l(1) d] by blast
    have "get_next_dir_entry_single s (blk_addr s c) seg = Some (e, s)"
      using False ld d(2) e(1) by (simp add: get_next_dir_entry_single_def del: ptr_at.simps)
    then show ?thesis using e(2) grown_refl [OF assms(1)] by simp
  qed
qed

text \<open>The index block that the double indirect stage allocates and does not store: nothing
  refers to it, nor to the data block whose address is written into it.\<close>

lemma leak_grown:
  assumes wf: "wf_blocks s" and a: "fresh_alloc s b s1" "fresh_alloc s1 b2 s2"
    and s3: "s3 = s2\<lparr>data_blocks := d\<rparr>" "\<And>x. x div BLOCK_SIZE \<noteq> b \<Longrightarrow> d x = data_blocks s2 x"
  shows "grown n s s3" "free_entry s3 n (BLOCK_SIZE * b2)"
proof -
  note 1 = fresh_allocD [OF a(1)] and 2 = fresh_allocD [OF a(2)]
  have addr: "discos_addr s3 = discos_addr s2" "discos_addr s3 = discos_addr s" using s3(1) 1(4) 2(4) by simp_all
  have p2: "ptr_at s2 l = ptr_at s l" if "valid_loc l" for l using 1(9) 2(9) that by simp
  have unref: "ptr_at s l \<noteq> blk_addr s c" if "valid_loc l" "c < DATA_BLOCKS_NUM" "\<not> blk_used s c" for l c
    using wf_used [OF wf that(1,2)] that(3) by blast
  have p3: "ptr_at s3 l = ptr_at s l" if "valid_loc l" for l
  proof -
    have "ptr_at s3 l = ptr_at s2 l"
      using that
    proof (rule ptr_at_frame [OF 2(10) addr(1), rotated 2])
      fix x assume "data_blocks s3 x \<noteq> data_blocks s2 x"
      then have "x div BLOCK_SIZE = b" using s3 by auto
      then show "\<forall>L. valid_loc L \<longrightarrow> index_loc L \<longrightarrow> ptr_at s2 L \<noteq> blk_addr s2 (x div BLOCK_SIZE)"
        using unref [OF _ 1(1,2)] p2 by (simp add: addr_frame(1) [OF 2(4)] addr_frame(1) [OF 1(4)])
    qed (simp add: s3(1))
    then show ?thesis using p2 [OF that] by simp
  qed
  have used: "blk_used s3 c \<longleftrightarrow> blk_used s c \<or> c = b \<or> c = b2" for c using s3(1) 1(3) 2(3) by auto
  have b2: "b2 < DATA_BLOCKS_NUM" "\<not> blk_used s b2" "b2 \<noteq> b" using 2(1,2) 1(3) by auto
  have same: "same_block s s3 c" if "blk_used s c" for c
  proof -
    have "c \<noteq> b" "c \<noteq> b2" using that 1(2) b2(2) by auto
    then show ?thesis using s3 1(8) 2(8) by (auto simp: same_block_def)
  qed
  have wf3: "wf_blocks s3" by (rule wf_blocks_frame [OF wf addr(2)]) (use p3 used in auto)
  have own: "owns s3 m c \<longleftrightarrow> owns s m c" for m c
    using p3 by (auto simp: owns_def addr_frame(1) [OF addr(2)])
  have inds: "inodes s3 = inodes s" using s3(1) 1(5) 2(5) by simp
  have "node_step n s s3"
  proof (rule node_stepI)
    show "blk_used s3 c" if "blk_used s c" for c using that used by simp
    show "\<not> owns s3 n c" if "\<not> owns s n c" for c using that own by simp
    show "counter_ok s3" if "counter_ok s"
      using 2(12) [OF 1(12) [OF that]] s3(1) by (simp add: counter_ok_def free_set_def)
    show "free_inodes s3 = free_inodes s" using s3(1) 1(6) 2(6) by simp
  qed (simp_all only: addr(2) inds same)
  moreover have "kept_loc s s3 l" if l: "data_loc n l" for l
    unfolding kept_loc_def
  proof (intro disjI1 conjI allI impI)
    show "ptr_at s3 l = ptr_at s l" using l p3 by (simp add: data_loc_def)
    show "same_block s s3 c" if "c < DATA_BLOCKS_NUM" "ptr_at s l = blk_addr s c" for c
      using l wf_used [OF wf _ that] by (intro same) (simp add: data_loc_def)
  qed
  ultimately show "grown n s s3" using wf3 inds by (simp add: grown_def)
  have "zero_block s3 b2" using b2 s3 2(8) by (auto simp: zero_block_def)
  from zero_entry_num(1) [OF this, of 0] have "entry_num s3 (BLOCK_SIZE * b2) = 0" by simp
  moreover have "ptr_at s3 l \<noteq> blk_addr s3 b2" if "valid_loc l" for l
    using unref [OF that b2(1,2)] p3 [OF that] by (simp add: addr_frame(1) [OF addr(2)])
  ultimately show "free_entry s3 n (BLOCK_SIZE * b2)"
    using b2(1) used unfolding free_entry_def by (intro exI [of _ b2] exI [of _ 0]) simp
qed

lemma next_double_spec:
  assumes wf: "wf_blocks s" and n: "node < MAX_NUM_FILE" and c: "c < DATA_BLOCKS_NUM" "ptr_at s (Dbl node) = blk_addr s c"
    and seg: "seg < 4096"
  shows "\<exists>r s'. get_next_dir_entry_double s (blk_addr s c) seg = Some (r, s') \<and> grown node s s'
    \<and> (\<forall>a. r = Some a \<longrightarrow> free_entry s' node a)"
proof -
  let ?L = "Sub (Dbl node) (seg div 64)" and ?fb = "get_free_block_num_from_bitmap s"
  have L: "valid_loc ?L" "index_loc ?L" "\<And>k. \<not> index_loc (Sub ?L k)" "node_of ?L = node"
    using n seg by auto
  have ld: "load_index s (blk_addr s c) (seg div 64) = Some (ptr_at s ?L)"
    by (rule load_index_ptr_at [OF L(1) c(2,1) wf])
  show ?thesis
  proof (cases "ptr_at s ?L = 0")
    case False
    obtain d where d: "d < DATA_BLOCKS_NUM" "ptr_at s ?L = blk_addr s d"
      using wf_blocksD [OF wf L(1) False] by blast
    have "get_next_dir_entry_double s (blk_addr s c) seg = get_next_dir_entry_single s (blk_addr s d) (seg mod 64)"
      using False ld d(2) by (simp add: get_next_dir_entry_double_def del: ptr_at.simps)
    moreover have "seg mod 64 < PTRS_PER_BLOCK" by simp
    ultimately show ?thesis
      using next_single_spec [OF wf L d] unfolding good_entry_def by metis
  next
    case null: True
    show ?thesis
    proof (cases "?fb = -1")
      case True
      then show ?thesis
        using null ld grown_refl [OF wf] by (simp add: get_next_dir_entry_double_def Let_def del: ptr_at.simps)
    next
      case False
      obtain b s1 where a: "allocate_data_block s ?fb = Some (blk_addr s b, s1)" "fresh_alloc s b s1"
        using alloc_fresh [OF wf False] by blast
      note A = fresh_allocD [OF a(2)]
      let ?k = "seg mod 64" and ?fb1 = "get_free_block_num_from_bitmap s1"
      have blk: "blk_addr s1 = blk_addr s" by (rule addr_frame(1) [OF A(4)])
      have eq: "get_next_dir_entry_double s (blk_addr s c) seg = get_next_dir_entry_single s1 (blk_addr s b) ?k"
        using null ld False a(1) by (simp add: get_next_dir_entry_double_def Let_def del: ptr_at.simps)
      have "index_at s1 (blk_addr s1 b) ?k = 0"
        using A(1,8) by (intro index_at_zero [of _ _ b]) auto
      then have ld1: "load_index s1 (blk_addr s b) ?k = Some 0"
        using load_index_blk [OF A(1), of ?k s1] by (simp add: blk)
      show ?thesis
      proof (cases "?fb1 = -1")
        case True
        then show ?thesis
          using eq ld1 fresh_grown [OF wf a(2)] by (simp add: get_next_dir_entry_single_def Let_def)
      next
        case False
        obtain b2 s2 where a2: "allocate_data_block s1 ?fb1 = Some (blk_addr s1 b2, s2)" "fresh_alloc s1 b2 s2"
          using alloc_fresh [OF A(10) False] by blast
        note A2 = fresh_allocD [OF a2(2)]
        have blk2: "blk_addr s2 = blk_addr s1" by (rule addr_frame(1) [OF A2(4)])
        define d where "d = upd_region (data_blocks s2) (BLOCK_SIZE * b + 4 * ?k) (enc_le 4 (unat (blk_addr s1 b2)))"
        let ?s3 = "s2\<lparr>data_blocks := d\<rparr>"
        have st: "store_index s2 (blk_addr s b) ?k (blk_addr s1 b2) = Some ?s3"
          using store_index_blk [OF A(1), of ?k s2] by (simp add: blk blk2 d_def)
        have "d x = data_blocks s2 x" if "x div BLOCK_SIZE \<noteq> b" for x
        proof -
          have "x < BLOCK_SIZE * b + 4 * ?k \<or> BLOCK_SIZE * b + 4 * ?k + 4 \<le> x"
          proof (rule ccontr)
            assume "\<not> ?thesis"
            moreover have "?k < 64" by simp
            ultimately have "BLOCK_SIZE * b \<le> x" "x < BLOCK_SIZE * b + BLOCK_SIZE" by linarith+
            then show False using that by simp
          qed
          then show ?thesis by (auto simp: d_def)
        qed
        note leak = leak_grown [OF wf a(2) a2(2) refl this]
        have "get_next_dir_entry_single s1 (blk_addr s b) ?k = Some (Some (entry_addr ?s3 (blk_addr s1 b2) 0), ?s3)"
          using ld1 False a2(1) st load_store_index [OF st] by (simp add: get_next_dir_entry_single_def Let_def)
        moreover have "entry_addr ?s3 (blk_addr s1 b2) 0 = BLOCK_SIZE * b2"
          using A2(1) by (simp add: entry_addr_def addr_frame(2) [OF A2(4)])
        ultimately show ?thesis using eq leak by simp
      qed
    qed
  qed
qed

text \<open>The two indirect stages, which first make sure of the pointer in the index node.\<close>

lemma ensure_grown:
  assumes "wf_blocks s" "valid_loc L0" "node_of L0 = n" "ptr_at s L0 = 0 \<Longrightarrow> attached s L0 c s1"
    "ptr_at s L0 \<noteq> 0 \<Longrightarrow> s1 = s"
  shows "grown n s s1"
  using assms attached_grown [OF assms(1) _ assms(3)] grown_refl by (cases "ptr_at s L0 = 0") auto

lemma next_entry_single_spec:
  assumes wf: "wf_blocks s" and n: "node < MAX_NUM_FILE" and seg: "8 \<le> seg" "seg < 72"
  shows "\<exists>r s'. next_entry_single s node seg = Some (r, s') \<and> grown node s s'
    \<and> (\<forall>a. r = Return (Some a) \<longrightarrow> good_entry s' node a)"
proof -
  let ?l = "Sng node" and ?fb = "get_free_block_num_from_bitmap s"
  have l: "valid_loc ?l" "node_of ?l = node" "index_loc ?l" "\<And>k. \<not> index_loc (Sub ?l k)" using n by auto
  show ?thesis
  proof (cases "single_indirect_ptrs (inodes s node) = 0 \<and> ?fb = -1")
    case True
    then show ?thesis using grown_refl [OF wf] by (simp add: next_entry_single_def)
  next
    case ok: False
    obtain s1 c where s1: "(if ptr_at s ?l = 0
        then Option.bind (allocate_data_block s ?fb)
               (\<lambda>(q, s'). Some (set_inode s' node ((\<lambda>ino q. ino\<lparr>single_indirect_ptrs := q\<rparr>) (inodes s' node) q)))
        else Some s) = Some s1"
      "wf_blocks s1" "c < DATA_BLOCKS_NUM" "ptr_at s1 ?l = blk_addr s1 c"
      "ptr_at s ?l = 0 \<Longrightarrow> attached s ?l c s1" "ptr_at s ?l \<noteq> 0 \<Longrightarrow> s1 = s"
      by (rule ensure_inode_ptr [OF wf l(1,2), of "\<lambda>ino q. ino\<lparr>single_indirect_ptrs := q\<rparr>"])
        (use ok in auto)
    have g1: "grown node s s1" by (rule ensure_grown [OF wf l(1,2) s1(5,6)])
    have sm: "seg - 8 < PTRS_PER_BLOCK" using seg by linarith
    obtain r s2 where r: "get_next_dir_entry_single s1 (blk_addr s1 c) (seg - 8) = Some (r, s2)"
      "grown node s1 s2" "\<forall>a. r = Some a \<longrightarrow> good_entry s2 node a"
      using next_single_spec [OF s1(2) l(1,3,4,2) s1(3,4), of "seg - 8"] sm by blast
    have F: "(single_indirect_ptrs (inodes s node) = 0 \<and> ?fb = -1) = False" using ok by blast
    have "next_entry_single s node seg = Some (if r \<noteq> None then Return r else Fall, s2)"
      using s1(1) r(1) s1(4)
      by (simp only: next_entry_single_def ptr_at.simps F Let_def if_False Option.bind.bind_lunit case_prod_conv)
    then show ?thesis using grown_trans [OF g1 r(2)] r(3) by auto
  qed
qed

lemma next_entry_double_spec:
  assumes wf: "wf_blocks s" and n: "node < MAX_NUM_FILE" and seg: "seg < 72 + 4096"
  shows "\<exists>r s'. next_entry_double s node seg = Some (r, s') \<and> grown node s s'
    \<and> (\<forall>a. r = Some a \<longrightarrow> free_entry s' node a)"
proof -
  let ?l = "Dbl node" and ?fb = "get_free_block_num_from_bitmap s"
  have l: "valid_loc ?l" "node_of ?l = node" using n by auto
  show ?thesis
  proof (cases "double_indirect_ptrs (inodes s node) = 0 \<and> ?fb = -1")
    case True
    then show ?thesis using grown_refl [OF wf] by (simp add: next_entry_double_def)
  next
    case ok: False
    obtain s1 c where s1: "(if ptr_at s ?l = 0
        then Option.bind (allocate_data_block s ?fb)
               (\<lambda>(q, s'). Some (set_inode s' node ((\<lambda>ino q. ino\<lparr>double_indirect_ptrs := q\<rparr>) (inodes s' node) q)))
        else Some s) = Some s1"
      "wf_blocks s1" "c < DATA_BLOCKS_NUM" "ptr_at s1 ?l = blk_addr s1 c"
      "ptr_at s ?l = 0 \<Longrightarrow> attached s ?l c s1" "ptr_at s ?l \<noteq> 0 \<Longrightarrow> s1 = s"
      by (rule ensure_inode_ptr [OF wf l, of "\<lambda>ino q. ino\<lparr>double_indirect_ptrs := q\<rparr>"])
        (use ok in auto)
    have g1: "grown node s s1" by (rule ensure_grown [OF wf l s1(5,6)])
    have sm: "seg - 72 < 4096" using seg by linarith
    obtain r s2 where r: "get_next_dir_entry_double s1 (blk_addr s1 c) (seg - 72) = Some (r, s2)"
      "grown node s1 s2" "\<forall>a. r = Some a \<longrightarrow> free_entry s2 node a"
      using next_double_spec [OF s1(2) n s1(3,4), of "seg - 72"] sm by blast
    have F: "(double_indirect_ptrs (inodes s node) = 0 \<and> ?fb = -1) = False" using ok by blast
    have "next_entry_double s node seg = Some (r, s2)"
      using s1(1) r(1) s1(4)
      by (simp only: next_entry_double_def ptr_at.simps F Let_def if_False Option.bind.bind_lunit case_prod_conv)
    then show ?thesis using grown_trans [OF g1 r(2)] r(3) by auto
  qed
qed

text \<open>Every path through \<^verbatim>\<open>get_next_entry\<close>.  Only a directory of fewer than eight blocks is
  sure to get an entry of its own: from there on the double indirect stage may be reached.\<close>

lemma get_next_entry_spec:
  assumes wf: "wf_blocks s" and n: "node < MAX_NUM_FILE"
  obtains r s' where "get_next_entry s node = Some (r, s')" "grown node s s'"
    "\<And>a. r = Some a \<Longrightarrow> free_entry s' node a"
    "\<And>a. r = Some a \<Longrightarrow> unat (isize (inodes s node)) < 8 * BLOCK_SIZE \<Longrightarrow> a \<in> set (entries s' node)"
proof -
  define seg where "seg = unat (isize (inodes s node)) div BLOCK_SIZE"
  have small: "seg < 8" if "unat (isize (inodes s node)) < 8 * BLOCK_SIZE"
    using that unfolding seg_def by (simp add: less_mult_imp_div_less)
  obtain r1 s1 where 1: "next_entry_direct s node seg (INODE_NUM_DIRECT_PTR - seg) = Some (r1, s1)"
    "grown node s s1" "\<forall>a. r1 = Return (Some a) \<longrightarrow> good_entry s1 node a"
  proof (cases "seg \<le> INODE_NUM_DIRECT_PTR")
    case True
    then show ?thesis
      using that next_entry_direct_spec [OF wf n, of seg "INODE_NUM_DIRECT_PTR - seg"] by auto
  next
    case False
    then show ?thesis using that [of Fall s] grown_refl [OF wf] by simp
  qed
  have start: "get_next_entry s node = (case r1 of Return e \<Rightarrow> Some (e, s1)
      | Fall \<Rightarrow> do {
          (r2, s2) \<leftarrow> (if 8 \<le> seg \<and> seg < 8 + 64 then next_entry_single s1 node seg else Some (Fall, s1));
          (case r2 of
             Return e \<Rightarrow> Some (e, s2)
           | Fall \<Rightarrow>
               (let seg2 = (if 8 \<le> seg \<and> seg < 8 + 64 then 72 else seg) in
                if 8 + 64 \<le> seg2 \<and> seg2 < 8 + 64 + 64 * 64 then next_entry_double s2 node seg2
                else Some (None, s2)))
        })"
    using n 1(1)
    by (simp only: get_next_entry_def get_inode_def Let_def seg_def [symmetric] if_True
        Option.bind.bind_lunit case_prod_conv)
  show thesis
  proof (cases r1)
    case (Return e)
    then show ?thesis using that [of e s1] start 1 by (simp add: good_entry_def)
  next
    case Fall
    show ?thesis
    proof (cases "seg < 8")
      case True
      then have "get_next_entry s node = Some (None, s1)" using start Fall by simp
      then show ?thesis using that [of None s1] 1(2) by simp
    next
      case False
      obtain r2 s2 where 2:
        "(if 8 \<le> seg \<and> seg < 8 + 64 then next_entry_single s1 node seg else Some (Fall, s1)) = Some (r2, s2)"
        "grown node s1 s2" "\<forall>a. r2 = Return (Some a) \<longrightarrow> good_entry s2 node a"
      proof (cases "8 \<le> seg \<and> seg < 8 + 64")
        case True
        then show ?thesis using that next_entry_single_spec [OF grownD(1) [OF 1(2)] n, of seg] by auto
      next
        case False
        then show ?thesis using that [of Fall s1] grown_refl [OF grownD(1) [OF 1(2)]] by (simp only: if_False) simp
      qed
      have g2: "grown node s s2" by (rule grown_trans [OF 1(2) 2(2)])
      define seg2 where "seg2 = (if 8 \<le> seg \<and> seg < 8 + 64 then 72 else seg)"
      have mid: "get_next_entry s node = (case r2 of Return e \<Rightarrow> Some (e, s2)
         | Fall \<Rightarrow> if 8 + 64 \<le> seg2 \<and> seg2 < 8 + 64 + 64 * 64 then next_entry_double s2 node seg2 else Some (None, s2))"
        using start Fall 2(1)
        by (simp only: ctl.case Option.bind.bind_lunit case_prod_conv Let_def seg2_def)
      have large: "\<not> unat (isize (inodes s node)) < 8 * BLOCK_SIZE" using small False by blast
      show ?thesis
      proof (cases r2)
        case (Return e)
        then show ?thesis using that [of e s2] mid g2 2(3) large by (simp add: good_entry_def)
      next
        case Fall2: Fall
        show ?thesis
        proof (cases "8 + 64 \<le> seg2 \<and> seg2 < 8 + 64 + 64 * 64")
          case True
          then obtain r3 s3 where 3: "next_entry_double s2 node seg2 = Some (r3, s3)" "grown node s2 s3"
            "\<forall>a. r3 = Some a \<longrightarrow> free_entry s3 node a"
            using next_entry_double_spec [OF grownD(1) [OF g2] n, of seg2] by auto
          have "get_next_entry s node = Some (r3, s3)" using mid Fall2 True 3(1) by simp
          then show ?thesis using that [of r3 s3] grown_trans [OF g2 3(2)] 3(3) large by simp
        next
          case no: False
          then have "get_next_entry s node = Some (None, s2)" using mid Fall2 by (simp only: ctl.case if_False)
          then show ?thesis using that [of None s2] g2 by simp
        qed
      qed
    qed
  qed
qed

end
