(* ===== verification/CreateSpec.thy ===== *)
theory CreateSpec
  imports CreateInv
begin

text \<open>
  \<^verbatim>\<open>rd_create\<close> and \<^verbatim>\<open>rd_mkdir\<close> keep the invariant \<open>fs_ok\<close> of the file system and enter
  the new file in its directory.
\<close>

section \<open>Entries under changes\<close>

lemma strcmp_cong:
  "(\<And>x. a \<le> x \<Longrightarrow> x \<le> a + length str \<Longrightarrow> data_blocks s' x = data_blocks s x) \<Longrightarrow>
     strcmp_eq s' a str = strcmp_eq s a str"
proof (induction str arbitrary: a)
  case Nil
  then show ?case by (simp add: load_char_def)
next
  case (Cons c cs)
  have "strcmp_eq s' (Suc a) cs = strcmp_eq s (Suc a) cs"
    using Cons.prems by (intro Cons.IH) auto
  then show ?case using Cons.prems [of a] by (simp add: load_char_def)
qed

lemma strcmp_unique:
  "strcmp_eq s a t = Some True \<Longrightarrow> strcmp_eq s a u = Some True \<Longrightarrow> is_cstr t \<Longrightarrow> is_cstr u \<Longrightarrow> t = u"
proof (induction t arbitrary: a u)
  case Nil
  then show ?case by (cases u) (auto simp: load_char_def split: if_splits)
next
  case (Cons c cs)
  then show ?case by (cases u) (auto simp: load_char_def split: if_splits)
qed

lemma strcmp_written:
  "is_cstr t \<Longrightarrow> a + length t < DATA_BYTES \<Longrightarrow> map (data_blocks s) [a..<a + length t] = t \<Longrightarrow>
     data_blocks s (a + length t) = NUL \<Longrightarrow> strcmp_eq s a t = Some True"
proof (induction t arbitrary: a)
  case Nil
  then show ?case by (simp add: load_char_def)
next
  case (Cons c cs)
  have upt: "[a..<a + length (c # cs)] = a # [Suc a..<Suc a + length cs]"
    by (simp add: upt_conv_Cons del: upt_Suc)
  have "data_blocks s a = c" "map (data_blocks s) [Suc a..<Suc a + length cs] = cs"
    using Cons.prems(3) unfolding upt by simp_all
  then show ?case using Cons.IH [of "Suc a"] Cons.prems by (simp add: load_char_def del: upt_Suc)
qed

text \<open>Two states that agree on the sixteen bytes of an entry.\<close>

definition same_entry :: "filesys_struct \<Rightarrow> filesys_struct \<Rightarrow> nat \<Rightarrow> bool" where
  "same_entry s s' a \<longleftrightarrow> (\<forall>x. a \<le> x \<longrightarrow> x < a + 16 \<longrightarrow> data_blocks s' x = data_blocks s x)"

lemma same_entry_facts:
  assumes "same_entry s s' a"
  shows "entry_num s' a = entry_num s a" "data_blocks s' a = data_blocks s a"
    "length t < 14 \<Longrightarrow> entry_is s' t a = entry_is s t a" "slot_wf s' n a = slot_wf s n a"
proof -
  have "map (data_blocks s') [a + 14..<a + 14 + 2] = map (data_blocks s) [a + 14..<a + 14 + 2]"
    using assms by (intro map_cong refl) (auto simp: same_entry_def)
  then show num: "entry_num s' a = entry_num s a" by (simp only: entry_num_def)
  show d: "data_blocks s' a = data_blocks s a" using assms by (simp add: same_entry_def)
  show "entry_is s' t a = entry_is s t a" if "length t < 14"
    unfolding entry_is_def using assms that
    by (subst strcmp_cong [of a t s' s]) (auto simp: same_entry_def)
  show "slot_wf s' n a = slot_wf s n a" by (simp add: slot_wf_def num d)
qed

lemma same_block_entry:
  assumes "same_block s s' c" "j < ENTRIES_PER_BLOCK"
  shows "same_entry s s' (BLOCK_SIZE * c + 16 * j)"
  unfolding same_entry_def
proof (intro allI impI)
  fix x assume "BLOCK_SIZE * c + 16 * j \<le> x" "x < BLOCK_SIZE * c + 16 * j + 16"
  then have "x div BLOCK_SIZE = c" using assms(2) by auto
  then show "data_blocks s' x = data_blocks s x" using assms(1) by (simp add: same_block_def)
qed

section \<open>Other directories\<close>

lemma loc_entries_cong:
  assumes "discos_addr s' = discos_addr s" "ptr_at s' l = ptr_at s l"
  shows "loc_entries s' l = loc_entries s l"
  by (simp only: loc_entries_def block_entries_def addr_frame(4) [OF assms(1)] assms(2))

lemma entries_cong:
  assumes "discos_addr s' = discos_addr s" "n < MAX_NUM_FILE" "\<And>l. data_loc n l \<Longrightarrow> ptr_at s' l = ptr_at s l"
  shows "entries s' n = entries s n"
proof -
  have "map (loc_entries s') (data_locs n) = map (loc_entries s) (data_locs n)"
    using data_locs_sound [OF assms(2)] by (intro map_cong refl loc_entries_cong assms(1,3))
  then show ?thesis by (simp only: entries_def)
qed

text \<open>A step of node \<open>n\<close> leaves every other directory as it is.\<close>

definition same_dir :: "filesys_struct \<Rightarrow> filesys_struct \<Rightarrow> nat \<Rightarrow> bool" where
  "same_dir s s' m \<longleftrightarrow> entries s' m = entries s m \<and> (\<forall>a \<in> set (entries s m). same_entry s s' a)"

lemma same_dir_find:
  assumes "same_dir s s' m" "is_name t"
  shows "dir_find s' m t = dir_find s m t"
proof -
  have "find (entry_is s' t) (entries s m) = find (entry_is s t) (entries s m)"
    using assms same_entry_facts(3) is_name_props [OF assms(2)]
    by (intro find_cong refl) (auto simp: same_dir_def)
  then show ?thesis using assms(1) by (simp add: dir_find_def same_dir_def)
qed

lemma same_dir_find_num:
  assumes "same_dir s s' m" "dir_find s m t = Some a"
  shows "entry_num s' a = entry_num s a"
  using assms find_Some_mem [OF assms(2) [unfolded dir_find_def]] same_entry_facts(1)
  by (auto simp: same_dir_def)

lemma same_dir_slots:
  "same_dir s s' m \<Longrightarrow> \<forall>a \<in> set (entries s m). slot_wf s m a \<Longrightarrow> \<forall>a \<in> set (entries s' m). slot_wf s' m a"
  using same_entry_facts(4) by (auto simp: same_dir_def)

lemma node_step_dir:
  assumes "node_step n s s'" "wf_blocks s" "m \<noteq> n" "m < MAX_NUM_FILE"
  shows "same_dir s s' m"
proof -
  have p: "ptr_at s' l = ptr_at s l" if "data_loc m l" for l
    using node_step_ptr [OF assms(1,2)] that assms(3) by (auto simp: data_loc_def)
  have "same_entry s s' a" if "a \<in> set (entries s m)" for a
  proof -
    from entries_elim [OF assms(2,4) that] obtain l c j where
      l: "data_loc m l" "c < DATA_BLOCKS_NUM" "ptr_at s l = blk_addr s c" "j < ENTRIES_PER_BLOCK"
        "a = BLOCK_SIZE * c + 16 * j" .
    have "same_block s s' c"
      using node_step_content [OF assms(1,2) _ _ l(2,3)] l(1) assms(3) by (auto simp: data_loc_def)
    then show ?thesis using same_block_entry l(4,5) by simp
  qed
  then show ?thesis
    using entries_cong [OF node_step_addr [OF assms(1)] assms(4) p] by (simp add: same_dir_def)
qed

section \<open>The grown directory\<close>

lemma grown_entry:
  assumes g: "grown n s s'" and n: "n < MAX_NUM_FILE" and a: "a \<in> set (entries s' n)" and wf: "wf_blocks s"
  shows "a \<in> set (entries s n) \<and> same_entry s s' a \<or> entry_num s' a = 0 \<and> data_blocks s' a = NUL"
proof -
  note G = grownD [OF g]
  from entries_elim [OF G(1) n a] obtain l c j where
    l: "data_loc n l" "c < DATA_BLOCKS_NUM" "ptr_at s' l = blk_addr s' c" "j < ENTRIES_PER_BLOCK"
      "a = BLOCK_SIZE * c + 16 * j" .
  have blk: "blk_addr s' = blk_addr s" by (rule addr_frame(1) [OF G(5)])
  from G(3) [OF l(1)] consider "ptr_at s' l = ptr_at s l" "same_block s s' c"
    | d where "zero_block s' d" "ptr_at s' l = blk_addr s' d"
    using l(2,3) blk unfolding kept_loc_def by metis
  then show ?thesis
  proof cases
    case 1
    have "a \<in> set (entries s n)"
      using entries_mem [OF wf l(1,2) _ l(4)] 1(1) l(3,5) blk by simp
    then show ?thesis using same_block_entry [OF 1(2) l(4)] l(5) by simp
  next
    case (2 d)
    have "d < DATA_BLOCKS_NUM" using 2(1) by (simp add: zero_block_def)
    then have "d = c" using 2(2) l(2,3) blk_addr_inj [of d c s'] by simp
    then show ?thesis using zero_entry_num [OF _ l(4), of s' c] 2(1) l(5) by simp
  qed
qed

lemma grown_slots:
  assumes "grown n s s'" "n < MAX_NUM_FILE" "wf_blocks s" "\<forall>a \<in> set (entries s n). slot_wf s n a"
  shows "\<forall>a \<in> set (entries s' n). slot_wf s' n a"
proof
  fix a assume "a \<in> set (entries s' n)"
  from grown_entry [OF assms(1,2) this assms(3)] show "slot_wf s' n a"
    using same_entry_facts(4) [of s s' a n] assms(4) by (auto simp: slot_wf_def)
qed

text \<open>New blocks are empty, so a search for a name finds what it found.\<close>

lemma grown_find:
  assumes g: "grown n s s'" and n: "n < MAX_NUM_FILE" and wf: "wf_blocks s" and t: "is_name t"
  shows "dir_find s' n t = dir_find s n t"
proof -
  note G = grownD [OF g]
  have blk: "blk_addr s' = blk_addr s" by (rule addr_frame(1) [OF G(5)])
  have loc: "find (entry_is s' t) (loc_entries s' l) = find (entry_is s t) (loc_entries s l)"
    if l: "data_loc n l" for l
  proof (cases "ptr_at s' l = ptr_at s l")
    case True
    have "entry_is s' t a = entry_is s t a" if "a \<in> set (loc_entries s l)" for a
    proof -
      have "ptr_at s l \<noteq> 0" using that by (auto simp: loc_entries_def block_entries_def)
      then obtain c where c: "c < DATA_BLOCKS_NUM" "ptr_at s l = blk_addr s c"
        using wf_blocksD [OF wf] l by (auto simp: data_loc_def)
      have "ptr_at s l \<noteq> 0" by fact
      then have "same_block s s' c"
        using G(3) [OF l] c True unfolding kept_loc_def by metis
      then show ?thesis
        using that same_block_entry loc_entries_blk [OF wf c] is_name_props [OF t]
        by (auto intro!: same_entry_facts(3))
    qed
    then show ?thesis
      using loc_entries_cong [OF G(5) True] by (intro find_cong) auto
  next
    case False
    then obtain c where c: "ptr_at s l = 0" "zero_block s' c" "ptr_at s' l = blk_addr s' c"
      using G(3) [OF l] by (auto simp: kept_loc_def)
    have z: "\<not> entry_is s' t a" if "a \<in> set (loc_entries s' l)" for a
    proof
      assume "entry_is s' t a"
      then have "data_blocks s' a = hd t" using entry_is_first is_name_props [OF t] by blast
      moreover have "data_blocks s' a = NUL"
        using that loc_entries_blk [OF G(1) _ c(3)] zero_entry_num(2) [OF c(2)] c(2)
        by (auto simp: zero_block_def)
      ultimately show False using is_name_props [OF t] by simp
    qed
    then have "find (entry_is s' t) (loc_entries s' l) = None" by (auto simp: find_None_iff)
    moreover have "loc_entries s l = []" using c(1) by (simp add: loc_entries_def block_entries_def)
    ultimately show ?thesis by simp
  qed
  have "find (entry_is s' t) (concat (map (loc_entries s') ls)) = find (entry_is s t) (concat (map (loc_entries s) ls))"
    if "set ls \<subseteq> set (data_locs n)" for ls
    using that
  proof (induction ls)
    case (Cons l ls)
    then have "data_loc n l" using data_locs_sound [OF n] by simp
    then show ?case using Cons loc by (simp add: find_append cong: option.case_cong)
  qed simp
  then show ?thesis by (simp add: dir_find_def entries_def)
qed

section \<open>Entering a file\<close>

interpretation fi: linear_search "\<lambda>i. itype (inds i) = ''''" int "-1" "find_free_inode inds" for inds
  by unfold_locales auto

lemma get_free_inode_cases:
  obtains "get_free_inode_num s = -1" "free_inodes s = 0 \<or> (\<forall>i. 0 < i \<longrightarrow> i < MAX_NUM_FILE \<longrightarrow> itype (inodes s i) \<noteq> '''')"
  | m where "get_free_inode_num s = int m" "0 < m" "m < MAX_NUM_FILE" "itype (inodes s m) = ''''"
    "\<forall>i. 0 < i \<longrightarrow> i < m \<longrightarrow> itype (inodes s i) \<noteq> ''''" "free_inodes s \<noteq> 0"
proof (cases "free_inodes s = 0")
  case True
  then show ?thesis using that(1) by (simp add: get_free_inode_num_def)
next
  case False
  then have eq: "get_free_inode_num s = find_free_inode (inodes s) 1 (MAX_NUM_FILE - 1)"
    by (simp add: get_free_inode_num_def)
  show ?thesis
  proof (cases rule: fi.loop_cases [of "inodes s" 1 "MAX_NUM_FILE - 1"])
    case miss
    then show ?thesis using that(1) eq by simp
  next
    case (hit k)
    then show ?thesis using that(2) [of k] eq False by simp
  qed
qed

text \<open>The state after the new entry is written: \<open>m\<close> is the new index node, \<open>a\<close> the entry.\<close>

definition created ::
  "filesys_struct \<Rightarrow> nat \<Rightarrow> nat \<Rightarrow> nat \<Rightarrow> string \<Rightarrow> string \<Rightarrow> 32 word \<Rightarrow> filesys_struct \<Rightarrow> bool" where
  "created s n a m t type mode s' \<longleftrightarrow>
     discos_addr s' = discos_addr s \<and> bitmap s' = bitmap s \<and> free_blocks s' = free_blocks s
     \<and> free_inodes s' = free_inodes s - 1
     \<and> (\<forall>x. x < a \<or> a + 16 \<le> x \<longrightarrow> data_blocks s' x = data_blocks s x)
     \<and> entry_is s' t a \<and> entry_num s' a = m
     \<and> inodes s' = (inodes s)(m := zero_inode\<lparr>itype := type, access := mode\<rparr>,
                               n := (inodes s n)\<lparr>isize := isize (inodes s n) + 16\<rparr>)"

lemma write_entry:
  assumes "a + 16 \<le> DATA_BYTES" "is_name t" "m < 65536"
  obtains s1 s2 where "strcpy_to s a t = Some s1" "store_inode_num s1 a m = Some s2"
    "s2 = s\<lparr>data_blocks := data_blocks s2\<rparr>"
    "\<And>x. x < a \<or> a + 16 \<le> x \<Longrightarrow> data_blocks s2 x = data_blocks s x"
    "entry_is s2 t a" "entry_num s2 a = m"
proof -
  have len: "length t < 14" and cs: "is_cstr t" using is_name_props [OF assms(2)] by auto
  define d1 where "d1 = upd_region (data_blocks s) a (t @ [NUL])"
  define d2 where "d2 = upd_region d1 (a + 14) (enc_le 2 m)"
  let ?s1 = "s\<lparr>data_blocks := d1\<rparr>" and ?s2 = "s\<lparr>data_blocks := d2\<rparr>"
  have 1: "strcpy_to s a t = Some ?s1" using assms(1) len by (simp add: strcpy_to_def store_bytes_def d1_def)
  have 2: "store_inode_num ?s1 a m = Some ?s2"
    using assms(1) by (simp add: store_inode_num_def store_bytes_def d2_def)
  have out: "d2 x = data_blocks s x" if "x < a \<or> a + 16 \<le> x" for x
    using that len by (auto simp: d1_def d2_def upd_region_def)
  have first: "d2 x = d1 x" if "x < a + 14" for x using that by (simp add: d2_def)
  have "map d1 [a..<a + length t] = t"
    by (rule nth_equalityI) (auto simp: d1_def upd_region_def nth_append)
  moreover have "map d2 [a..<a + length t] = map d1 [a..<a + length t]"
    using len first by (intro map_cong refl) auto
  ultimately have "map (data_blocks ?s2) [a..<a + length t] = t"
    by simp
  moreover have "d1 (a + length t) = NUL" by (simp add: d1_def upd_region_def)
  then have "data_blocks ?s2 (a + length t) = NUL" using first [of "a + length t"] len by simp
  ultimately have is_t: "entry_is ?s2 t a"
    unfolding entry_is_def using assms(1) len by (intro strcmp_written cs) auto
  have "load_inode_num ?s2 a = Some m" by (rule load_store_inode_num [OF 2 assms(3)])
  then have num: "entry_num ?s2 a = m"
    by (auto simp: load_inode_num_def load_bytes_def entry_num_def split: if_splits)
  show thesis by (rule that [OF 1 2]) (use out is_t num in auto)
qed

lemma rd_create_cases:
  assumes wf: "wf_blocks s" and n: "n < MAX_NUM_FILE" "itype (inodes s n) \<noteq> ''''"
    and path: "split_path vm pathname = Some (cur, t)" "my_find_inode_number vm s cur = Some (int n)" "is_name t"
  obtains (failed) s1 where "rd_create vm s pathname type mode = Some (-1, s1)" "grown n s s1"
    "free_inodes s = 0 \<or> free_blocks s = 0 \<or> get_next_entry s n = Some (None, s1)
      \<or> (\<forall>i. 0 < i \<longrightarrow> i < MAX_NUM_FILE \<longrightarrow> itype (inodes s i) \<noteq> '''')"
  | (entered) s1 a m s' where "rd_create vm s pathname type mode = Some (0, s')" "grown n s s1"
    "free_entry s1 n a" "get_next_entry s n = Some (Some a, s1)"
    "0 < m" "m < MAX_NUM_FILE" "m \<noteq> n" "itype (inodes s m) = ''''"
    "\<forall>i. 0 < i \<longrightarrow> i < m \<longrightarrow> itype (inodes s i) \<noteq> ''''" "created s1 n a m t type mode s'"
proof (cases "free_inodes s = 0 \<or> free_blocks s = 0")
  case True
  then have "rd_create vm s pathname type mode = Some (-1, s)" by (auto simp: rd_create_def)
  then show ?thesis using failed [of s] grown_refl [OF wf] True by blast
next
  case False
  obtain r s1 where g: "get_next_entry s n = Some (r, s1)" "grown n s s1"
    "\<And>a. r = Some a \<Longrightarrow> free_entry s1 n a"
    using get_next_entry_spec [OF wf n(1)] by metis
  note G = grownD [OF g(2)] note N = node_stepD [OF G(2)]
  have start: "rd_create vm s pathname type mode = (case r of
             None \<Rightarrow> Some (-1, s1)
           | Some e \<Rightarrow>
               (let free_inode_num = get_free_inode_num s1 in
                if free_inode_num = -1 then Some (-1, s1)
                else do {
                  s2 \<leftarrow> allocate_inode s1 (nat free_inode_num);
                  s3 \<leftarrow> strcpy_to s2 e t;
                  s4 \<leftarrow> store_inode_num s3 e (nat free_inode_num);
                  let s5 = set_inode s4 (nat free_inode_num)
                             ((inodes s4 (nat free_inode_num))\<lparr>itype := type, access := mode\<rparr>);
                  let cur = inodes s5 n;
                  let s6 = set_inode s5 n (cur\<lparr>isize := isize cur + 16\<rparr>);
                  Some (0, s6)
                }))"
    using False path g(1) by (simp add: rd_create_def Let_def split: option.splits)
  have types: "itype (inodes s1 i) = itype (inodes s i)" for i
    using N(4) [of i] N(5) by (cases "i = n") auto
  show ?thesis
  proof (cases r)
    case None
    then show ?thesis using failed [of s1] start g(1,2) by simp
  next
    case (Some a)
    show ?thesis
    proof (cases rule: get_free_inode_cases [of s1])
      case 1
      then have "free_inodes s = 0 \<or> (\<forall>i. 0 < i \<longrightarrow> i < MAX_NUM_FILE \<longrightarrow> itype (inodes s i) \<noteq> '''')"
        using types N(2) by simp
      moreover have "rd_create vm s pathname type mode = Some (-1, s1)" using 1 start Some by simp
      ultimately show ?thesis using failed [of s1] g(2) by blast
    next
      case (2 m)
      obtain c j where cj: "c < DATA_BLOCKS_NUM" "j < ENTRIES_PER_BLOCK" "a = BLOCK_SIZE * c + 16 * j"
        using g(3) [OF Some] by (auto simp: free_entry_def)
      then have a16: "a + 16 \<le> DATA_BYTES" using entry_in_block(2) by simp
      let ?s2 = "set_inode (s1\<lparr>free_inodes := free_inodes s1 - 1\<rparr>) m zero_inode"
      obtain s3 s4 where w: "strcpy_to ?s2 a t = Some s3" "store_inode_num s3 a m = Some s4"
        "s4 = ?s2\<lparr>data_blocks := data_blocks s4\<rparr>"
        "\<And>x. x < a \<or> a + 16 \<le> x \<Longrightarrow> data_blocks s4 x = data_blocks ?s2 x"
        "entry_is s4 t a" "entry_num s4 a = m"
        using write_entry [OF a16 path(3), of m ?s2] 2(3) by auto
      have m: "m \<noteq> n" "itype (inodes s m) = ''''" "\<forall>i. 0 < i \<longrightarrow> i < m \<longrightarrow> itype (inodes s i) \<noteq> ''''"
        using 2(4,5) n(2) types by auto
      let ?s5 = "set_inode s4 m ((inodes s4 m)\<lparr>itype := type, access := mode\<rparr>)"
      let ?s6 = "set_inode ?s5 n ((inodes ?s5 n)\<lparr>isize := isize (inodes ?s5 n) + 16\<rparr>)"
      have f4: "inodes s4 = (inodes s1)(m := zero_inode)" "discos_addr s4 = discos_addr s1"
        "bitmap s4 = bitmap s1" "free_blocks s4 = free_blocks s1" "free_inodes s4 = free_inodes s1 - 1"
        by (subst w(3), simp)+
      have e6: "entry_is ?s6 t a" "entry_num ?s6 a = m"
        using same_entry_facts [of s4 ?s6 a] w(5,6) is_name_props [OF path(3)] by (auto simp: same_entry_def)
      have "created s1 n a m t type mode ?s6"
        unfolding created_def using f4 w(4) e6 m(1) by (auto simp: fun_eq_iff)
      moreover have "rd_create vm s pathname type mode = Some (0, ?s6)"
        using start Some 2 w(1,2) by (simp add: allocate_inode_def Let_def)
      ultimately show ?thesis
        using entered [of ?s6 s1 a m] g(1,2) g(3) [OF Some] Some 2(2,3) m by simp
    qed
  qed
qed

section \<open>What entering a file changes\<close>

lemma ptr_at_zero_inode:
  "ptr_at (set_inode s m (zero_inode\<lparr>itype := ty, access := ac\<rparr>)) l = (if node_of l = m then 0 else ptr_at s l)"
  by (induction l) (auto simp: zero_inode_def index_at_def)

lemma wf_zero_inode:
  assumes "wf_blocks s"
  shows "wf_blocks (set_inode s m (zero_inode\<lparr>itype := ty, access := ac\<rparr>))"
  using assms unfolding wf_blocks_def
  by (auto simp del: ptr_at.simps simp: ptr_at_zero_inode)

lemma free_entryE:
  assumes "free_entry s n a"
  obtains c j where "c < DATA_BLOCKS_NUM" "j < ENTRIES_PER_BLOCK" "a = BLOCK_SIZE * c + 16 * j"
    "entry_num s a = 0" "blk_used s c" "\<And>l. valid_loc l \<Longrightarrow> ptr_at s l = blk_addr s c \<Longrightarrow> data_loc n l"
    "\<And>x. a \<le> x \<Longrightarrow> x < a + 16 \<Longrightarrow> x div BLOCK_SIZE = c"
proof -
  from assms obtain c j where cj: "c < DATA_BLOCKS_NUM" "j < ENTRIES_PER_BLOCK" "a = BLOCK_SIZE * c + 16 * j"
    "entry_num s a = 0" "blk_used s c" "\<And>l. valid_loc l \<Longrightarrow> ptr_at s l = blk_addr s c \<Longrightarrow> data_loc n l"
    unfolding free_entry_def by blast
  have "x div BLOCK_SIZE = c" if "a \<le> x" "x < a + 16" for x
    using that cj(2,3) by auto
  then show thesis using that cj by blast
qed

lemma createdD:
  assumes "created s n a m t type mode s'"
  shows "discos_addr s' = discos_addr s" "bitmap s' = bitmap s" "free_blocks s' = free_blocks s"
    "\<And>x. x < a \<or> a + 16 \<le> x \<Longrightarrow> data_blocks s' x = data_blocks s x"
    "entry_is s' t a" "entry_num s' a = m"
    "inodes s' = (inodes s)(m := zero_inode\<lparr>itype := type, access := mode\<rparr>,
                               n := (inodes s n)\<lparr>isize := isize (inodes s n) + 16\<rparr>)"
  using assms unfolding created_def by blast+

lemma created_frame:
  assumes wf: "wf_blocks s" and fe: "free_entry s n a" and c: "created s n a m t type mode s'" and mn: "m \<noteq> n"
  shows "wf_blocks s'" "\<And>l. valid_loc l \<Longrightarrow> ptr_at s' l = (if node_of l = m then 0 else ptr_at s l)"
proof -
  note C = createdD [OF c]
  let ?s2 = "set_inode s m (zero_inode\<lparr>itype := type, access := mode\<rparr>)"
  have wf2: "wf_blocks ?s2" by (rule wf_zero_inode [OF wf])
  from free_entryE [OF fe] obtain b where
    b: "\<And>l. valid_loc l \<Longrightarrow> ptr_at s l = blk_addr s b \<Longrightarrow> data_loc n l"
       "\<And>x. a \<le> x \<Longrightarrow> x < a + 16 \<Longrightarrow> x div BLOCK_SIZE = b" "b < DATA_BLOCKS_NUM" by metis
  have addr: "discos_addr s' = discos_addr ?s2" using C(1) by simp
  have p: "ptr_at s' l = ptr_at ?s2 l" if "valid_loc l" for l
    using that
  proof (rule ptr_at_frame [OF wf2 addr, rotated 2])
    fix x assume "data_blocks s' x \<noteq> data_blocks ?s2 x"
    then have "\<not> (x < a \<or> a + 16 \<le> x)" using C(4) by auto
    then have "x div BLOCK_SIZE = b" using b(2) by simp
    moreover have "ptr_at ?s2 L \<noteq> blk_addr ?s2 b" if "valid_loc L" "index_loc L" for L
    proof
      assume "ptr_at ?s2 L = blk_addr ?s2 b"
      then have "ptr_at s L = blk_addr s b"
        using blk_addr_nonzero [OF wf_region [OF wf] b(3)] by (simp add: ptr_at_zero_inode split: if_splits)
      then show False using b(1) [OF that(1)] that(2) by (simp add: data_loc_def)
    qed
    ultimately show "\<forall>L. valid_loc L \<longrightarrow> index_loc L \<longrightarrow> ptr_at ?s2 L \<noteq> blk_addr ?s2 (x div BLOCK_SIZE)" by simp
  qed (use mn in \<open>simp add: C(7)\<close>)
  show "ptr_at s' l = (if node_of l = m then 0 else ptr_at s l)" if "valid_loc l" for l
    using p [OF that] by (simp add: ptr_at_zero_inode)
  show "wf_blocks s'"
    using p C(2) by (intro wf_blocks_frame [OF wf2 addr]) simp_all
qed

text \<open>Entries are aligned, so another entry is disjoint from the one written.\<close>

lemma entries_disjoint:
  assumes "BLOCK_SIZE * c + 16 * j \<noteq> BLOCK_SIZE * d + 16 * (i :: nat)" "i < ENTRIES_PER_BLOCK" "j < ENTRIES_PER_BLOCK"
  shows "BLOCK_SIZE * c + 16 * j + 16 \<le> BLOCK_SIZE * d + 16 * i \<or> BLOCK_SIZE * d + 16 * i + 16 \<le> BLOCK_SIZE * c + 16 * j"
proof -
  have "16 * c + j \<noteq> 16 * d + i" using assms(1) by auto
  then have "16 * c + j + 1 \<le> 16 * d + i \<or> 16 * d + i + 1 \<le> 16 * c + j" by linarith
  then show ?thesis by linarith
qed

lemma created_entries:
  assumes wf: "wf_blocks s" and fe: "free_entry s n a" and c: "created s n a m t type mode s'" and mn: "m \<noteq> n"
    and n: "n < MAX_NUM_FILE"
  shows "entries s' n = entries s n" "\<And>e. e \<in> set (entries s n) \<Longrightarrow> e \<noteq> a \<Longrightarrow> same_entry s s' e"
    "\<And>k. k < MAX_NUM_FILE \<Longrightarrow> k \<noteq> n \<Longrightarrow> k \<noteq> m \<Longrightarrow> same_dir s s' k"
    "m < MAX_NUM_FILE \<Longrightarrow> entries s' m = []"
proof -
  note C = createdD [OF c] and F = created_frame [OF wf fe c mn]
  from free_entryE [OF fe] obtain b j where
    b: "b < DATA_BLOCKS_NUM" "j < ENTRIES_PER_BLOCK" "a = BLOCK_SIZE * b + 16 * j"
       "\<And>l. valid_loc l \<Longrightarrow> ptr_at s l = blk_addr s b \<Longrightarrow> data_loc n l" by metis
  have disj: "same_entry s s' e" if e: "k < MAX_NUM_FILE" "e \<in> set (entries s k)" "e \<noteq> a" for e k
  proof -
    from entries_elim [OF wf e(1,2)] obtain l d i where
      d: "d < DATA_BLOCKS_NUM" "i < ENTRIES_PER_BLOCK" "e = BLOCK_SIZE * d + 16 * i" by metis
    have "a + 16 \<le> e \<or> e + 16 \<le> a"
      using entries_disjoint [of b j d i] b(2,3) d(2,3) e(3) by simp
    then show ?thesis using C(4) by (auto simp: same_entry_def)
  qed
  show "entries s' n = entries s n"
    using F(2) mn by (intro entries_cong C(1) n) (auto simp: data_loc_def)
  show "same_entry s s' e" if "e \<in> set (entries s n)" "e \<noteq> a" for e
    by (rule disj [OF n that])
  show "same_dir s s' k" if k: "k < MAX_NUM_FILE" "k \<noteq> n" "k \<noteq> m" for k
  proof -
    have "a \<notin> set (entries s k)"
    proof
      assume "a \<in> set (entries s k)"
      from entries_elim [OF wf k(1) this] obtain l d i where
        l: "data_loc k l" "d < DATA_BLOCKS_NUM" "ptr_at s l = blk_addr s d" "i < ENTRIES_PER_BLOCK"
          "a = BLOCK_SIZE * d + 16 * i" by metis
      have "d = b"
      proof -
        have "a div BLOCK_SIZE = d" "a div BLOCK_SIZE = b" using l(4,5) b(2,3) by auto
        then show ?thesis by simp
      qed
      moreover have "valid_loc l" using l(1) by (simp add: data_loc_def)
      ultimately have "data_loc n l" using b(4) [of l] l(3) by blast
      then show False using l(1) k(2) by (simp add: data_loc_def)
    qed
    then have "\<forall>e \<in> set (entries s k). same_entry s s' e" using disj [OF k(1)] by blast
    moreover have "entries s' k = entries s k"
      using F(2) k by (intro entries_cong C(1)) (auto simp: data_loc_def)
    ultimately show ?thesis by (simp add: same_dir_def)
  qed
  show "entries s' m = []" if m: "m < MAX_NUM_FILE"
  proof -
    have "loc_entries s' l = []" if "l \<in> set (data_locs m)" for l
    proof -
      have "ptr_at s' l = 0" using data_locs_sound [OF m that] F(2) by (auto simp: data_loc_def)
      then show ?thesis by (simp add: loc_entries_def block_entries_def)
    qed
    then show ?thesis by (simp add: entries_def)
  qed
qed

section \<open>The invariant\<close>

text \<open>The invariant of the file system: the pointers, the directories and the free block
  counter are well formed, and index node 0 is a directory.\<close>

definition fs_ok :: "filesys_struct \<Rightarrow> bool" where
  "fs_ok s \<longleftrightarrow> wf_blocks s \<and> dirs_ok s \<and> counter_ok s \<and> is_dir s 0"

lemma fs_okD:
  assumes "fs_ok s"
  shows "wf_blocks s" "dirs_ok s" "counter_ok s" "is_dir s 0"
  using assms by (auto simp: fs_ok_def)

lemma grown_type: "grown n s s' \<Longrightarrow> itype (inodes s' k) = itype (inodes s k)"
  using node_stepD(4,5) [OF grownD(2)] by (cases "k = n") metis+

lemma grown_dir: "grown n s s' \<Longrightarrow> wf_blocks s \<Longrightarrow> k \<noteq> n \<Longrightarrow> k < MAX_NUM_FILE \<Longrightarrow> same_dir s s' k"
  using node_step_dir grownD(2) by blast

lemma grown_ok:
  assumes "fs_ok s" "grown n s s'" "is_dir s n"
  shows "fs_ok s'"
proof -
  note S = fs_okD [OF assms(1)] and G = grownD [OF assms(2)] and T = grown_type [OF assms(2)]
  have n: "n < MAX_NUM_FILE" using assms(3) by (simp add: is_dir_def)
  have dir: "is_dir s' k = is_dir s k" for k using T by (simp add: is_dir_def)
  have "\<forall>a \<in> set (entries s' k). slot_wf s' k a" if k: "is_dir s k" for k
  proof (cases "k = n")
    case True
    then show ?thesis
      using grown_slots [OF assms(2) n S(1)] S(2) k by (auto simp: dirs_ok_def)
  next
    case False
    then show ?thesis
      using grown_dir [OF assms(2) S(1) False] same_dir_slots [of s s' k] S(2) k
      by (auto simp: dirs_ok_def is_dir_def)
  qed
  then have "dirs_ok s'" using dir by (simp add: dirs_ok_def)
  then show ?thesis using G(1) node_stepD(9) [OF G(2) S(3)] S(4) dir by (simp add: fs_ok_def)
qed

lemma created_ok:
  assumes ok: "fs_ok s" and dir: "is_dir s n" and fe: "free_entry s n a" and c: "created s n a m t type mode s'"
    and m: "m \<noteq> n" "0 < m" "m < MAX_NUM_FILE"
  shows "fs_ok s'"
proof -
  note S = fs_okD [OF ok] and C = createdD [OF c]
  have n: "n < MAX_NUM_FILE" using dir by (simp add: is_dir_def)
  note F = created_frame [OF S(1) fe c m(1)] and E = created_entries [OF S(1) fe c m(1) n]
  have "slot_wf s' k e" if k: "is_dir s' k" "e \<in> set (entries s' k)" for k e
  proof (cases "k = m")
    case True
    then show ?thesis using k(2) E(4) [OF m(3)] by simp
  next
    case km: False
    have k': "is_dir s k" using k(1) km by (auto simp: is_dir_def C(7) split: if_splits)
    show ?thesis
    proof (cases "k = n")
      case True
      show ?thesis
      proof (cases "e = a")
        case True
        then show ?thesis using C(6) m \<open>k = n\<close> by (simp add: slot_wf_def)
      next
        case False
        have e: "e \<in> set (entries s n)" using k(2) E(1) \<open>k = n\<close> by simp
        then have "slot_wf s n e" using S(2) dir by (simp add: dirs_ok_def)
        then show ?thesis using same_entry_facts(4) [OF E(2) [OF e False]] \<open>k = n\<close> by simp
      qed
    next
      case False
      then show ?thesis
        using same_dir_slots [OF E(3) [OF _ False km]] k' k(2) S(2) by (auto simp: dirs_ok_def is_dir_def)
    qed
  qed
  then have "dirs_ok s'" by (simp add: dirs_ok_def)
  moreover have "counter_ok s'" using S(3) C(2,3) by (simp add: counter_ok_def free_set_def)
  moreover have "is_dir s' 0" using S(4) m(2) by (auto simp: is_dir_def C(7))
  ultimately show ?thesis using F(1) by (simp add: fs_ok_def)
qed

section \<open>Paths stay found\<close>

text \<open>Every name that a directory of \<open>s\<close> has, it has in \<open>s'\<close>, for the same index node.\<close>

definition keeps :: "filesys_struct \<Rightarrow> filesys_struct \<Rightarrow> bool" where
  "keeps s s' \<longleftrightarrow> (\<forall>k. is_dir s k \<longrightarrow> is_dir s' k
     \<and> (\<forall>u e. is_name u \<longrightarrow> dir_find s k u = Some e \<longrightarrow>
          dir_find s' k u = Some e \<and> entry_num s' e = entry_num s e))"

lemma keepsD:
  assumes "keeps s s'" "is_dir s k"
  shows "is_dir s' k" "is_name u \<Longrightarrow> dir_find s k u = Some e \<Longrightarrow> dir_find s' k u = Some e"
    "is_name u \<Longrightarrow> dir_find s k u = Some e \<Longrightarrow> entry_num s' e = entry_num s e"
  using assms by (auto simp: keeps_def)

lemma keeps_lookup:
  assumes "keeps s s'" "through_dirs s k us" "\<forall>u \<in> set us. is_name u" "lookup_path s k us = Some m"
  shows "lookup_path s' k us = Some m \<and> through_dirs s' k us"
  using assms(2-4)
proof (induction us arbitrary: k)
  case (Cons u us)
  then obtain e where e: "dir_find s k u = Some e" by (auto split: option.splits)
  have k: "is_dir s k" "is_name u" using Cons.prems by auto
  note K = keepsD [OF assms(1) k(1)]
  show ?case using Cons e K(1) K(2,3) [OF k(2) e] by simp
qed simp

lemma free_slot_no_match:
  assumes "slot_wf s n a" "entry_num s a = 0" "is_name u"
  shows "\<not> entry_is s u a"
  using entry_is_num(1) [OF assms(1) _ assms(3)] assms(2) by auto

lemma grown_keeps:
  assumes ok: "fs_ok s" and n: "is_dir s n" and g: "grown n s s1"
  shows "keeps s s1"
  unfolding keeps_def
proof (intro allI impI conjI)
  note S = fs_okD [OF ok]
  have nn: "n < MAX_NUM_FILE" using n by (simp add: is_dir_def)
  fix k assume k: "is_dir s k"
  then show "is_dir s1 k" using grown_type [OF g] by (simp add: is_dir_def)
  fix u e assume u: "is_name u" and e: "dir_find s k u = Some e"
  have kk: "k < MAX_NUM_FILE" using k by (simp add: is_dir_def)
  have f: "dir_find s1 k u = dir_find s k u"
    using grown_find [OF g nn S(1) u] same_dir_find [OF grown_dir [OF g S(1) _ kk] u] by (cases "k = n") auto
  then show "dir_find s1 k u = Some e" using e by simp
  show "entry_num s1 e = entry_num s e"
  proof (cases "k = n")
    case True
    have "entry_is s1 u e" "e \<in> set (entries s1 n)"
      using find_Some_mem [of "entry_is s1 u"] f e True by (auto simp: dir_find_def)
    moreover have "\<not> (entry_num s1 e = 0 \<and> data_blocks s1 e = NUL)"
      using entry_is_first [OF calculation(1)] is_name_props [OF u] by auto
    ultimately have "same_entry s s1 e" using grown_entry [OF g nn _ S(1)] by blast
    then show ?thesis by (rule same_entry_facts(1))
  next
    case False
    then show ?thesis using same_dir_find_num [OF grown_dir [OF g S(1) False kk] e] by simp
  qed
qed

lemma created_find:
  assumes ok: "fs_ok s" and n: "is_dir s n" and fe: "free_entry s n a" and c: "created s n a m t type mode s'"
    and m: "m \<noteq> n" and t: "is_name t" and a: "a \<in> set (entries s n)" and fresh: "dir_find s n t = None"
  shows "dir_find s' n t = Some a"
proof -
  note S = fs_okD [OF ok] and C = createdD [OF c]
  have nn: "n < MAX_NUM_FILE" using n by (simp add: is_dir_def)
  note E = created_entries [OF S(1) fe c m nn]
  have P: "entry_is s' t x \<longleftrightarrow> x = a" if "x \<in> set (entries s n)" for x
  proof (cases "x = a")
    case False
    have "\<not> entry_is s t x" using fresh that by (auto simp: dir_find_def find_None_iff)
    then show ?thesis
      using same_entry_facts(3) [OF E(2) [OF that False]] is_name_props [OF t] False by simp
  qed (simp add: C(5))
  have "find (\<lambda>x. x = a) xs = Some a" if "a \<in> set xs" for xs using that by (induction xs) auto
  then have "find (entry_is s' t) (entries s n) = Some a"
    using find_cong [OF refl P, of "entries s n" "\<lambda>x. x"] a by simp
  then show ?thesis by (simp add: dir_find_def E(1))
qed

lemma created_find_other:
  assumes ok: "fs_ok s" and n: "is_dir s n" and fe: "free_entry s n a" and c: "created s n a m t type mode s'"
    and m: "m \<noteq> n" "itype (inodes s m) = ''''" and t: "is_name t"
    and k: "is_dir s k" "is_name u" "k = n \<Longrightarrow> u \<noteq> t"
  shows "dir_find s' k u = dir_find s k u" "dir_find s k u = Some e \<Longrightarrow> entry_num s' e = entry_num s e"
proof -
  note S = fs_okD [OF ok] and C = createdD [OF c]
  have nn: "n < MAX_NUM_FILE" using n by (simp add: is_dir_def)
  note E = created_entries [OF S(1) fe c m(1) nn]
  have km: "k \<noteq> m" using k(1) m(2) by (auto simp: is_dir_def)
  have "dir_find s' k u = dir_find s k u \<and> (dir_find s k u = Some e \<longrightarrow> entry_num s' e = entry_num s e)"
  proof (cases "k = n")
    case True
    have free: "\<not> entry_is s u a" if "a \<in> set (entries s n)"
    proof (rule free_slot_no_match [OF _ _ k(2)])
      show "slot_wf s n a" using that S(2) n by (simp add: dirs_ok_def)
      show "entry_num s a = 0" using free_entryE [OF fe] by metis
    qed
    have "entry_is s' u x = entry_is s u x" if "x \<in> set (entries s n)" for x
    proof (cases "x = a")
      case True
      have "\<not> entry_is s' u a"
        using strcmp_unique [of s' a u t] C(5) k(3) \<open>k = n\<close> is_name_props [OF k(2)] is_name_props [OF t]
        by (auto simp: entry_is_def)
      then show ?thesis using True free that by simp
    next
      case False
      then show ?thesis using same_entry_facts(3) [OF E(2) [OF that False]] is_name_props [OF k(2)] by simp
    qed
    then have eq: "dir_find s' n u = dir_find s n u"
      unfolding dir_find_def E(1) by (intro find_cong refl) auto
    have "entry_num s' e = entry_num s e" if "dir_find s n u = Some e"
    proof -
      have e: "entry_is s u e" "e \<in> set (entries s n)" using find_Some_mem [OF that [unfolded dir_find_def]] by auto
      then have "e \<noteq> a" using free by auto
      then show ?thesis using same_entry_facts(1) [OF E(2) [OF e(2)]] by simp
    qed
    with eq True show ?thesis by simp
  next
    case False
    have sd: "same_dir s s' k" using E(3) k False km by (simp add: is_dir_def)
    show ?thesis using same_dir_find [OF sd k(2)] same_dir_find_num [OF sd] by simp
  qed
  then show "dir_find s' k u = dir_find s k u" "dir_find s k u = Some e \<Longrightarrow> entry_num s' e = entry_num s e"
    by blast+
qed

lemma created_keeps:
  assumes "fs_ok s" "is_dir s n" "free_entry s n a" "created s n a m t type mode s'"
    "m \<noteq> n" "itype (inodes s m) = ''''" "is_name t" and fresh: "dir_find s n t = None"
  shows "keeps s s'"
  unfolding keeps_def
proof (intro allI impI conjI)
  note O = created_find_other [OF assms(1-7)]
  fix k assume k: "is_dir s k"
  then have "k \<noteq> m" using assms(6) by (auto simp: is_dir_def)
  then show "is_dir s' k" using k createdD(7) [OF assms(4)] by (auto simp: is_dir_def)
  fix u e assume u: "is_name u" and e: "dir_find s k u = Some e"
  have "k = n \<Longrightarrow> u \<noteq> t" using e fresh by auto
  then show "dir_find s' k u = Some e" "entry_num s' e = entry_num s e" using O [OF k u] e by auto
qed

text \<open>The two outcomes of creating a file on a path through directories.\<close>

lemma rd_create_outcome:
  assumes ok: "fs_ok s" and vm: "serves vm (path_of (ds @ [t]))" and names: "\<forall>u \<in> set ds. is_name u" "is_name t"
    and path: "through_dirs s 0 ds" "lookup_path s 0 ds = Some n" "is_dir s n"
  obtains (failed) s1 where "rd_create vm s (path_of (ds @ [t])) type mode = Some (-1, s1)" "grown n s s1"
    "free_inodes s = 0 \<or> free_blocks s = 0 \<or> get_next_entry s n = Some (None, s1)
      \<or> (\<forall>i. 0 < i \<longrightarrow> i < MAX_NUM_FILE \<longrightarrow> itype (inodes s i) \<noteq> '''')"
  | (entered) s1 a m s' where "rd_create vm s (path_of (ds @ [t])) type mode = Some (0, s')" "grown n s s1"
    "fs_ok s1" "is_dir s1 n" "free_entry s1 n a"
    "get_next_entry s n = Some (Some a, s1)"
    "0 < m" "m < MAX_NUM_FILE" "m \<noteq> n" "itype (inodes s m) = ''''"
    "\<forall>i. 0 < i \<longrightarrow> i < m \<longrightarrow> itype (inodes s i) \<noteq> ''''" "created s1 n a m t type mode s'"
proof -
  note S = fs_okD [OF ok]
  have n: "n < MAX_NUM_FILE" "itype (inodes s n) \<noteq> ''''" using path(3) by (auto simp: is_dir_def)
  have p: "split_path vm (path_of (ds @ [t])) = Some (path_of ds, t)" by (rule split_path_served [OF names vm])
  have "my_find_inode_number vm s (path_of ds) = Some (int n)"
    using lookup_spec [OF S(1,2) path(1) names(1)] path(2) my_find_granted [OF serves_find(2) [OF vm names]] by simp
  from S(1) n p this names(2) show thesis
  proof (cases rule: rd_create_cases [where type = type and mode = mode])
    case (failed s1)
    then show ?thesis by (rule that(1))
  next
    case (entered s1 a m s')
    have "fs_ok s1" "is_dir s1 n"
      using grown_ok [OF ok entered(2) path(3)] path(3) grown_type [OF entered(2)] by (auto simp: is_dir_def)
    with entered show ?thesis by (intro that(2)) auto
  qed
qed

end
