(* ===== verification/UnlinkInv.thy ===== *)
theory UnlinkInv
  imports ClearInv CreateSpec
begin

text \<open>
  \<^verbatim>\<open>rd_unlink\<close> on a well-formed partition.  After \<^verbatim>\<open>my_clear_inode\<close> the index node still
  points to the blocks it freed until the end of the function, where it is zeroed; since
  removing the directory entry does not look at that node, the zeroing is moved to the
  front, and every intermediate state is well formed.
\<close>

section \<open>Zeroing an index node\<close>

abbreviation zap :: "nat \<Rightarrow> filesys_struct \<Rightarrow> filesys_struct" where
  "zap n s \<equiv> set_inode s n zero_inode"

lemma zap_reads [simp]:
  "load_bytes (zap n s) = load_bytes s" "load_char (zap n s) = load_char s"
  "load_inode_num (zap n s) = load_inode_num s" "load_index (zap n s) = load_index s"
  "block_index (zap n s) = block_index s" "strcmp_eq (zap n s) = strcmp_eq s"
proof -
  show b: "load_bytes (zap n s) = load_bytes s" "load_char (zap n s) = load_char s"
    by (simp_all add: fun_eq_iff load_bytes_def load_char_def)
  show "load_inode_num (zap n s) = load_inode_num s" "load_index (zap n s) = load_index s"
    by (simp_all add: fun_eq_iff load_inode_num_def load_index_def b)
  show "block_index (zap n s) = block_index s" by (rule addr_frame(5)) simp
  have "strcmp_eq (zap n s) a str = strcmp_eq s a str" for a str
    by (induction str arbitrary: a) (simp_all add: b cong: if_cong)
  then show "strcmp_eq (zap n s) = strcmp_eq s" by (simp add: fun_eq_iff)
qed

lemma zap_writes:
  "store_bytes (zap n s) a cs = map_option (zap n) (store_bytes s a cs)"
  "memset0 (zap n s) a k = map_option (zap n) (memset0 s a k)"
  "store_index (zap n s) p i q = map_option (zap n) (store_index s p i q)"
  "drop_bit_of (zap n s) p = map_option (zap n) (drop_bit_of s p)"
  by (auto simp: store_bytes_def memset0_def store_index_def drop_bit_of_def set_inode_def
      ptr_off_def data_base_def block_index_def split: option.splits bind_splits)

lemma zap_swap: "m \<noteq> n \<Longrightarrow> set_inode (zap n s) m ino = zap n (set_inode s m ino)"
  by (simp add: set_inode_def fun_upd_twist)

lemma zap_entries:
  "clear_entries (zap n s) block f j m cnt fnd
     = map_option (\<lambda>(c, b, t). (c, b, zap n t)) (clear_entries s block f j m cnt fnd)"
proof (induction m arbitrary: s j cnt fnd)
  case (Suc m)
  then show ?case
    by (auto simp: zap_writes Let_def split: bind_splits option.splits)
qed simp

lemma zap_entry_direct:
  assumes "node \<noteq> n"
  shows "clear_entry_direct (zap n s) node f i m fnd
    = map_option (\<lambda>(b, t). (b, zap n t)) (clear_entry_direct s node f i m fnd)"
proof (induction m arbitrary: s i fnd)
  case (Suc m)
  have "inodes (zap n t) node = inodes t node" for t using assms by simp
  then show ?case
    using Suc assms
    by (auto simp: zap_entries zap_writes zap_swap Let_def simp del: set_inode_fields split: bind_splits option.splits)
qed simp

lemma zap_entry_single:
  "clear_entry_single (zap n s) p f i m nb le fnd
     = map_option (\<lambda>(a, b, c, t). (a, b, c, zap n t)) (clear_entry_single s p f i m nb le fnd)"
proof (induction m arbitrary: s i nb le fnd)
  case (Suc m)
  then show ?case
    by (auto simp: zap_entries zap_writes Let_def simp del: set_inode_fields split: bind_splits option.splits)
qed simp

lemma zap_find_entry:
  "find_entry_block (zap n s) p f i m = find_entry_block s p f i m"
  "find_entry_single (zap n s) q f i m = find_entry_single s q f i m"
  "find_entry_double (zap n s) d f i m = find_entry_double s d f i m"
proof -
  show b: "find_entry_block (zap n s) p f i m = find_entry_block s p f i m" for p i m
    by (induction m arbitrary: i) (simp_all cong: if_cong)
  show c: "find_entry_single (zap n s) q f i m = find_entry_single s q f i m" for q i m
    by (induction m arbitrary: i) (simp_all add: b cong: if_cong)
  show "find_entry_double (zap n s) d f i m = find_entry_double s d f i m"
    by (induction m arbitrary: i) (simp_all add: c cong: if_cong)
qed

lemma map_option_bind: "map_option g (Option.bind m k) = Option.bind m (\<lambda>x. map_option g (k x))"
  by (cases m) simp_all

lemma bind_map_option: "Option.bind (map_option h m) k = Option.bind m (\<lambda>x. k (h x))"
  by (cases m) simp_all

lemma zap_clear_entry:
  assumes "node \<noteq> n"
  shows "clear_entry_in_current_dir (zap n s) node f = map_option (zap n) (clear_entry_in_current_dir s node f)"
proof -
  have i: "inodes (zap n t) node = inodes t node" for t using assms by simp
  show ?thesis
    unfolding clear_entry_in_current_dir_def
    by (simp add: zap_entry_direct [OF assms] zap_entry_single zap_find_entry zap_writes zap_swap [OF assms] i Let_def
        map_option_bind bind_map_option split_def if_distrib [of "map_option (zap n)"]
        if_distrib [of "\<lambda>m. Option.bind m k" for k]
        del: set_inode_fields cong: if_cong)
qed

section \<open>Removing the entries of one block\<close>

definition wipe :: "nat list \<Rightarrow> filesys_struct \<Rightarrow> filesys_struct" where
  "wipe as s = s\<lparr>data_blocks := (\<lambda>x. if \<exists>a \<in> set as. a \<le> x \<and> x < a + 16 then NUL else data_blocks s x)\<rparr>"

lemma wipe_fields [simp]:
  "discos_addr (wipe as s) = discos_addr s" "inodes (wipe as s) = inodes s" "bitmap (wipe as s) = bitmap s"
  "free_blocks (wipe as s) = free_blocks s" "free_inodes (wipe as s) = free_inodes s"
  by (simp_all add: wipe_def)

lemma wipe_data: "data_blocks (wipe as s) x = (if \<exists>a \<in> set as. a \<le> x \<and> x < a + 16 then NUL else data_blocks s x)"
  by (simp add: wipe_def)

lemma wipe_Nil [simp]: "wipe [] s = s"
  by (simp add: wipe_def)

lemma wipe_wipe: "wipe bs (wipe as s) = wipe (as @ bs) s"
  by (rule filesys_struct.equality) (auto simp: wipe_data fun_eq_iff)

lemma memset0_wipe: "a + 16 \<le> DATA_BYTES \<Longrightarrow> memset0 s a 16 = Some (wipe [a] s)"
proof -
  have "upd_region (data_blocks s) a (replicate 16 NUL)
      = (\<lambda>x. if a \<le> x \<and> x < a + 16 then NUL else data_blocks s x)"
    by (auto simp: upd_region_def fun_eq_iff)
  then show "a + 16 \<le> DATA_BYTES \<Longrightarrow> memset0 s a 16 = Some (wipe [a] s)"
    by (simp add: memset0_def store_bytes_def wipe_def)
qed

lemma wipe_same_entry: "\<forall>b \<in> set as. a + 16 \<le> b \<or> b + 16 \<le> a \<Longrightarrow> same_entry s (wipe as s) a"
  unfolding same_entry_def wipe_data by auto

lemma wipe_entry:
  assumes "a \<in> set as"
  shows "entry_num (wipe as s) a = 0" "data_blocks (wipe as s) a = NUL"
proof -
  have z: "data_blocks (wipe as s) x = NUL" if "a \<le> x" "x < a + 16" for x
    using assms that by (auto simp: wipe_data)
  have "map (data_blocks (wipe as s)) [a + 14..<a + 14 + 2] = replicate 2 NUL"
    using z by (intro nth_equalityI) auto
  then have "entry_num (wipe as s) a = dec_le (replicate 2 NUL)" by (simp only: entry_num_def)
  then show "entry_num (wipe as s) a = 0" by (simp only: dec_le_replicate_NUL)
  show "data_blocks (wipe as s) a = NUL" using z by simp
qed

abbreviation slots :: "nat \<Rightarrow> nat \<Rightarrow> nat \<Rightarrow> nat list" where
  "slots c j m \<equiv> map (\<lambda>k. BLOCK_SIZE * c + 16 * k) [j..<j + m]"

lemma slots_Suc: "slots c j (Suc m) = (BLOCK_SIZE * c + 16 * j) # slots c (Suc j) m"
  by (simp add: upt_conv_Cons del: upt_Suc)

lemma clear_entries_eq:
  assumes "c < DATA_BLOCKS_NUM" "length f < 14" "j + m \<le> ENTRIES_PER_BLOCK"
  shows "clear_entries s (blk_addr s c) f j m cnt fnd =
    Some (cnt + length (filter (\<lambda>a. entry_num s a \<noteq> 0) (slots c j m)),
          fnd \<or> filter (entry_is s f) (slots c j m) \<noteq> [],
          wipe (filter (entry_is s f) (slots c j m)) s)"
  using assms(3)
proof (induction m arbitrary: s j cnt fnd)
  case (Suc m)
  let ?a = "BLOCK_SIZE * c + 16 * j"
  define cnt' where "cnt' = (if entry_num s ?a \<noteq> 0 then cnt + 1 else cnt)"
  have j: "j < ENTRIES_PER_BLOCK" using Suc.prems by simp
  have a: "entry_addr s (blk_addr s c) j = ?a" "?a + 16 \<le> DATA_BYTES"
    using entry_in_block [OF assms(1) j] by auto
  have rd: "load_inode_num s ?a = Some (entry_num s ?a)" "strcmp_eq s ?a f = Some (entry_is s f ?a)"
    using load_num_entry [OF assms(1) j, of s] strcmp_entry [OF assms(1) j assms(2), of s] a(1) by auto
  have later: "b = ?a \<or> b \<ge> ?a + 16" if "b \<in> set (slots c j (Suc m))" for b using that by auto
  have IH: "clear_entries s1 (blk_addr s c) f (Suc j) m cnt' fnd1 =
      Some (cnt' + length (filter (\<lambda>a. entry_num s1 a \<noteq> 0) (slots c (Suc j) m)),
          fnd1 \<or> filter (entry_is s1 f) (slots c (Suc j) m) \<noteq> [],
          wipe (filter (entry_is s1 f) (slots c (Suc j) m)) s1)" if "discos_addr s1 = discos_addr s" for s1 fnd1
    using Suc.IH [of "Suc j" s1 cnt' fnd1] Suc.prems addr_frame(1) [OF that] by simp
  show ?case
  proof (cases "entry_is s f ?a")
    case False
    then have "clear_entries s (blk_addr s c) f j (Suc m) cnt fnd = clear_entries s (blk_addr s c) f (Suc j) m cnt' fnd"
      using rd by (simp add: a(1) cnt'_def Let_def)
    then show ?thesis
      using IH [of s fnd] False unfolding slots_Suc by (simp add: cnt'_def del: upt_Suc)
  next
    case True
    let ?s1 = "wipe [?a] s"
    have same: "same_entry s ?s1 b" if "b \<in> set (slots c (Suc j) m)" for b
      using that by (intro wipe_same_entry) auto
    have f1: "filter (\<lambda>a. entry_num ?s1 a \<noteq> 0) (slots c (Suc j) m) = filter (\<lambda>a. entry_num s a \<noteq> 0) (slots c (Suc j) m)"
      using same_entry_facts(1) [OF same] by (intro filter_cong refl) auto
    have f2: "filter (entry_is ?s1 f) (slots c (Suc j) m) = filter (entry_is s f) (slots c (Suc j) m)"
      using same_entry_facts(3) [OF same assms(2)] by (intro filter_cong refl) auto
    have "clear_entries s (blk_addr s c) f j (Suc m) cnt fnd = clear_entries ?s1 (blk_addr s c) f (Suc j) m cnt' True"
      using rd True a(2) by (simp add: a(1) cnt'_def Let_def memset0_wipe)
    then show ?thesis
      using IH [of ?s1 True] True unfolding slots_Suc f1 f2
      by (simp add: cnt'_def wipe_wipe del: upt_Suc)
  qed
qed simp

section \<open>Pruning a directory\<close>

text \<open>\<open>pruned n s s'\<close>: some pointers of index node \<open>n\<close> became null, some of its entries were
  zeroed, blocks only became free, and nothing else changed.\<close>

definition kept_or_zero :: "filesys_struct \<Rightarrow> filesys_struct \<Rightarrow> nat \<Rightarrow> bool" where
  "kept_or_zero s s' a \<longleftrightarrow> same_entry s s' a \<or> entry_num s' a = 0 \<and> data_blocks s' a = NUL"

definition pruned :: "nat \<Rightarrow> filesys_struct \<Rightarrow> filesys_struct \<Rightarrow> bool" where
  "pruned n s s' \<longleftrightarrow>
     wf_blocks s' \<and> discos_addr s' = discos_addr s \<and> free_inodes s' = free_inodes s
     \<and> free_blocks s' = free_blocks s \<and> (\<forall>m. m \<noteq> n \<longrightarrow> inodes s' m = inodes s m)
     \<and> itype (inodes s' n) = itype (inodes s n) \<and> isize (inodes s' n) = isize (inodes s n)
     \<and> (\<forall>b. blk_used s' b \<longrightarrow> blk_used s b)
     \<and> (\<forall>l. valid_loc l \<longrightarrow> node_of l = n \<longrightarrow> ptr_at s' l = ptr_at s l \<or> ptr_at s' l = 0)
     \<and> (\<forall>b < DATA_BLOCKS_NUM. \<not> owns s n b \<longrightarrow> same_block s s' b)
     \<and> (\<forall>l b j. data_loc n l \<longrightarrow> b < DATA_BLOCKS_NUM \<longrightarrow> ptr_at s' l = blk_addr s b \<longrightarrow>
          j < ENTRIES_PER_BLOCK \<longrightarrow> kept_or_zero s s' (BLOCK_SIZE * b + 16 * j))"

lemma prunedD:
  assumes "pruned n s s'"
  shows "wf_blocks s'" "discos_addr s' = discos_addr s" "free_inodes s' = free_inodes s"
    "free_blocks s' = free_blocks s" "\<And>m. m \<noteq> n \<Longrightarrow> inodes s' m = inodes s m"
    "itype (inodes s' n) = itype (inodes s n)" "isize (inodes s' n) = isize (inodes s n)"
    "\<And>b. blk_used s' b \<Longrightarrow> blk_used s b"
    "\<And>l. valid_loc l \<Longrightarrow> node_of l = n \<Longrightarrow> ptr_at s' l = ptr_at s l \<or> ptr_at s' l = 0"
    "\<And>b. b < DATA_BLOCKS_NUM \<Longrightarrow> \<not> owns s n b \<Longrightarrow> same_block s s' b"
    "\<And>l b j. data_loc n l \<Longrightarrow> b < DATA_BLOCKS_NUM \<Longrightarrow> ptr_at s' l = blk_addr s b \<Longrightarrow>
       j < ENTRIES_PER_BLOCK \<Longrightarrow> kept_or_zero s s' (BLOCK_SIZE * b + 16 * j)"
  using assms unfolding pruned_def by blast+

lemma same_entry_refl [simp]: "same_entry s s a"
  by (simp add: same_entry_def)

lemma pruned_refl: "wf_blocks s \<Longrightarrow> pruned n s s"
  by (simp add: pruned_def kept_or_zero_def)

lemma kept_or_zero_trans:
  assumes "kept_or_zero s s' a" "kept_or_zero s' s'' a"
  shows "kept_or_zero s s'' a"
proof (cases "same_entry s' s'' a")
  case True
  note F = same_entry_facts(1,2) [OF True]
  show ?thesis
  proof (cases "same_entry s s' a")
    case True
    then have "same_entry s s'' a" using \<open>same_entry s' s'' a\<close> by (simp add: same_entry_def)
    then show ?thesis by (simp add: kept_or_zero_def)
  next
    case False
    then show ?thesis using assms(1) F by (simp add: kept_or_zero_def)
  qed
next
  case False
  then show ?thesis using assms(2) by (simp add: kept_or_zero_def)
qed

lemma pruned_owns:
  assumes "pruned n s s'" "b < DATA_BLOCKS_NUM" "owns s' n b"
  shows "owns s n b"
proof -
  note P = prunedD [OF assms(1)]
  obtain l where l: "valid_loc l" "node_of l = n" "ptr_at s' l = blk_addr s' b"
    using assms(3) by (auto simp: owns_def)
  moreover have "blk_addr s' b \<noteq> 0" using blk_addr_nonzero P(1) assms(2) by simp
  ultimately show ?thesis
    using P(9) [OF l(1,2)] addr_frame(1) [OF P(2)] by (auto simp: owns_def)
qed

lemma pruned_trans:
  assumes "pruned n s s'" "pruned n s' s''"
  shows "pruned n s s''"
proof -
  note 1 = prunedD [OF assms(1)] and 2 = prunedD [OF assms(2)]
  have A: "blk_addr s' = blk_addr s" by (rule addr_frame(1) [OF 1(2)])
  have "same_block s s'' b" if "b < DATA_BLOCKS_NUM" "\<not> owns s n b" for b
    using 1(10) [OF that] 2(10) [OF that(1)] pruned_owns [OF assms(1) that(1)] that(2) same_block_trans
    by blast
  moreover have "kept_or_zero s s'' (BLOCK_SIZE * b + 16 * j)"
    if "data_loc n l" "b < DATA_BLOCKS_NUM" "ptr_at s'' l = blk_addr s b" "j < ENTRIES_PER_BLOCK" for l b j
  proof -
    have l: "valid_loc l" "node_of l = n" using that(1) by (auto simp: data_loc_def)
    have "blk_addr s b \<noteq> 0" using blk_addr_nonzero [of s' b] 1(1) that(2) A by simp
    then have "ptr_at s' l = blk_addr s b" using 2(9) [OF l] that(3) by auto
    then show ?thesis
      using kept_or_zero_trans [OF 1(11) [OF that(1,2) _ that(4)] 2(11) [OF that(1,2) _ that(4)]] that(3) A by simp
  qed
  moreover have "ptr_at s'' l = ptr_at s l \<or> ptr_at s'' l = 0" if "valid_loc l" "node_of l = n" for l
    using 1(9) [OF that] 2(9) [OF that] by auto
  ultimately show ?thesis
    unfolding pruned_def using 1(2-8) 2(1-8) by auto
qed

text \<open>Other nodes keep their pointers.\<close>

lemma foreign_ptr:
  assumes wf: "wf_blocks s" and "discos_addr s' = discos_addr s" "\<And>m. m \<noteq> n \<Longrightarrow> inodes s' m = inodes s m"
    and data: "\<And>b. b < DATA_BLOCKS_NUM \<Longrightarrow> \<not> owns s n b \<Longrightarrow> same_block s s' b"
    and "valid_loc l" "node_of l \<noteq> n"
  shows "ptr_at s' l = ptr_at s l"
  using assms(5,6)
proof (induction l)
  case (Sub L k)
  then have IH: "ptr_at s' L = ptr_at s L" and L: "valid_loc L" "k < PTRS_PER_BLOCK" "node_of L \<noteq> n" by auto
  show ?case
  proof (cases "ptr_at s L = 0")
    case False
    obtain b where b: "b < DATA_BLOCKS_NUM" "ptr_at s L = blk_addr s b" by (rule wf_blocksD [OF wf L(1) False])
    then have "same_block s s' b" using data wf_not_owned [OF wf L(1,3)] by simp
    then have "index_at s' (ptr_at s L) k = index_at s (ptr_at s L) k"
      using b L(2) by (intro index_at_cong [OF assms(2)]) (auto simp: same_block_def)
    then show ?thesis using IH by simp
  qed (use IH in simp)
qed (use assms(3) in auto)

lemma pruned_intro:
  assumes wf: "wf_blocks s"
    and fields: "discos_addr s' = discos_addr s" "free_inodes s' = free_inodes s" "free_blocks s' = free_blocks s"
    and inds: "\<And>m. m \<noteq> n \<Longrightarrow> inodes s' m = inodes s m"
    and ino: "itype (inodes s' n) = itype (inodes s n)" "isize (inodes s' n) = isize (inodes s n)"
    and bits: "\<And>b. blk_used s' b \<longleftrightarrow> blk_used s b \<and> b \<notin> B"
    and freed: "\<And>b. b \<in> B \<Longrightarrow> \<exists>l. valid_loc l \<and> node_of l = n \<and> ptr_at s l = blk_addr s b \<and> ptr_at s' l = 0"
    and ptrs: "\<And>l. valid_loc l \<Longrightarrow> node_of l = n \<Longrightarrow> ptr_at s' l = ptr_at s l \<or> ptr_at s' l = 0"
    and foreign: "\<And>b. b < DATA_BLOCKS_NUM \<Longrightarrow> \<not> owns s n b \<Longrightarrow> same_block s s' b"
    and ents: "\<And>l b j. data_loc n l \<Longrightarrow> b < DATA_BLOCKS_NUM \<Longrightarrow> ptr_at s l = blk_addr s b \<Longrightarrow>
       j < ENTRIES_PER_BLOCK \<Longrightarrow> kept_or_zero s s' (BLOCK_SIZE * b + 16 * j)"
  shows "pruned n s s'"
proof -
  have A: "blk_addr s' = blk_addr s" "region_ok s' = region_ok s" using addr_frame(1,6) [OF fields(1)] by auto
  have p: "ptr_at s' l = ptr_at s l \<or> ptr_at s' l = 0" if "valid_loc l" for l
    using ptrs [OF that] foreign_ptr [OF wf fields(1) inds foreign that] by blast
  have "\<exists>b < DATA_BLOCKS_NUM. ptr_at s' l = blk_addr s' b \<and> blk_used s' b" if l: "valid_loc l" "ptr_at s' l \<noteq> 0" for l
  proof -
    have same: "ptr_at s' l = ptr_at s l" using p l by blast
    then obtain b where b: "b < DATA_BLOCKS_NUM" "ptr_at s l = blk_addr s b" "blk_used s b"
      using wf_blocksD [OF wf l(1)] l(2) by metis
    have "b \<notin> B"
    proof
      assume "b \<in> B"
      then obtain l0 where l0: "valid_loc l0" "ptr_at s l0 = blk_addr s b" "ptr_at s' l0 = 0" using freed by blast
      then have "l = l0" using wf_blocks_inj [OF wf l(1) l0(1)] same l(2) b(2) by simp
      then show False using l0(3) l(2) by simp
    qed
    then show ?thesis using b bits same A(1) by auto
  qed
  moreover have "l = l'" if "valid_loc l" "valid_loc l'" "ptr_at s' l \<noteq> 0" "ptr_at s' l = ptr_at s' l'" for l l'
    using p [OF that(1)] p [OF that(2)] that wf_blocks_inj [OF wf that(1,2)] by auto
  ultimately have "wf_blocks s'" using wf A(2) by (simp add: wf_blocks_def)
  moreover have "kept_or_zero s s' (BLOCK_SIZE * b + 16 * j)"
    if "data_loc n l" "b < DATA_BLOCKS_NUM" "ptr_at s' l = blk_addr s b" "j < ENTRIES_PER_BLOCK" for l b j
  proof -
    have "blk_addr s b \<noteq> 0" using blk_addr_nonzero wf that(2) by simp
    then have "ptr_at s l = blk_addr s b" using p [of l] that(1,3) by (auto simp: data_loc_def)
    then show ?thesis using ents that by blast
  qed
  ultimately show ?thesis
    unfolding pruned_def using fields inds ino bits ptrs foreign by blast
qed

section \<open>The steps\<close>

lemma in_slots:
  assumes "set as \<subseteq> set (slots c 0 ENTRIES_PER_BLOCK)" "a \<in> set as"
  shows "\<exists>k < ENTRIES_PER_BLOCK. a = BLOCK_SIZE * c + 16 * k"
  using subsetD [OF assms] by auto

lemma wipe_in_block:
  assumes "set as \<subseteq> set (slots c 0 ENTRIES_PER_BLOCK)" "x div BLOCK_SIZE \<noteq> c"
  shows "data_blocks (wipe as s) x = data_blocks s x"
proof -
  have "\<not> (a \<le> x \<and> x < a + 16)" if "a \<in> set as" for a
  proof
    assume x: "a \<le> x \<and> x < a + 16"
    obtain k where "k < 16" "a = BLOCK_SIZE * c + 16 * k" using in_slots [OF assms(1)] \<open>a \<in> set as\<close> by blast
    then have "x div BLOCK_SIZE = c" using x by auto
    then show False using assms(2) by simp
  qed
  then show ?thesis by (auto simp: wipe_data)
qed

lemma wipe_kept_or_zero:
  assumes "set as \<subseteq> set (slots c 0 ENTRIES_PER_BLOCK)" "j < ENTRIES_PER_BLOCK"
  shows "kept_or_zero s (wipe as s) (BLOCK_SIZE * b + 16 * j)"
proof (cases "BLOCK_SIZE * b + 16 * j \<in> set as")
  case True
  then show ?thesis using wipe_entry by (simp add: kept_or_zero_def)
next
  case False
  have "e + 16 \<le> BLOCK_SIZE * b + 16 * j \<or> BLOCK_SIZE * b + 16 * j + 16 \<le> e" if "e \<in> set as" for e
  proof -
    obtain k where k: "k < 16" "e = BLOCK_SIZE * c + 16 * k" using in_slots [OF assms(1)] \<open>e \<in> set as\<close> by blast
    have "BLOCK_SIZE * b + 16 * j \<noteq> BLOCK_SIZE * c + 16 * k" using k(2) False that by metis
    then show ?thesis using entries_disjoint [OF _ k(1) assms(2)] k(2) by blast
  qed
  then have "same_entry s (wipe as s) (BLOCK_SIZE * b + 16 * j)" by (intro wipe_same_entry) auto
  then show ?thesis by (simp add: kept_or_zero_def)
qed

lemma pruned_wipe:
  assumes wf: "wf_blocks s" and l: "data_loc n l" and c: "c < DATA_BLOCKS_NUM" "ptr_at s l = blk_addr s c"
    and as: "set as \<subseteq> set (slots c 0 ENTRIES_PER_BLOCK)"
  shows "pruned n s (wipe as s)" "\<And>l'. valid_loc l' \<Longrightarrow> ptr_at (wipe as s) l' = ptr_at s l'"
proof -
  have l': "valid_loc l" "\<not> index_loc l" "node_of l = n" using l by (auto simp: data_loc_def)
  have nz: "ptr_at s l \<noteq> 0" using c blk_addr_nonzero wf by simp
  show p: "ptr_at (wipe as s) l' = ptr_at s l'" if "valid_loc l'" for l'
  proof (rule ptr_at_frame [OF wf _ _ _ that])
    fix x assume "data_blocks (wipe as s) x \<noteq> data_blocks s x"
    then have "x div BLOCK_SIZE = c" using wipe_in_block [OF as] by metis
    then show "\<forall>L. valid_loc L \<longrightarrow> index_loc L \<longrightarrow> ptr_at s L \<noteq> blk_addr s (x div BLOCK_SIZE)"
      using wf_blocks_inj [OF wf l'(1) _ nz] l'(2) c(2) by metis
  qed simp_all
  have own: "owns s n c" using l' c(2) by (auto simp: owns_def)
  show "pruned n s (wipe as s)"
  proof (rule pruned_intro [OF wf, where B = "{}"])
    show "same_block s (wipe as s) b" if "b < DATA_BLOCKS_NUM" "\<not> owns s n b" for b
    proof -
      have "b \<noteq> c" using that own by auto
      then show ?thesis using wipe_in_block [OF as] by (auto simp: same_block_def)
    qed
  qed (use p wipe_kept_or_zero [OF as] in auto)
qed

text \<open>Dropping a block: its bit is cleared and the pointer to it becomes null.\<close>

lemma drop_bit_of_eq:
  "b < DATA_BLOCKS_NUM \<Longrightarrow>
     drop_bit_of s (blk_addr s b) = Some (s\<lparr>bitmap := snd (clear_bitmap (bitmap s) (int b))\<rparr>)"
  by (simp add: drop_bit_of_def)

abbreviation drop_bit :: "nat \<Rightarrow> filesys_struct \<Rightarrow> filesys_struct" where
  "drop_bit b s \<equiv> s\<lparr>bitmap := snd (clear_bitmap (bitmap s) (int b))\<rparr>"

lemma pruned_drop_inode:
  assumes wf: "wf_blocks s" and l0: "valid_loc l0" "node_of l0 = n"
    and b: "b < DATA_BLOCKS_NUM" "ptr_at s l0 = blk_addr s b"
    and f: "(\<exists>i. l0 = Dir n i \<and> ino = (inodes s n)\<lparr>pointers := (pointers (inodes s n))(i := 0)\<rparr>)
       \<or> (l0 = Sng n \<and> ino = (inodes s n)\<lparr>single_indirect_ptrs := 0\<rparr>)"
  shows "pruned n s (set_inode (drop_bit b s) n ino)"
proof -
  let ?s' = "set_inode (drop_bit b s) n ino"
  have p: "ptr_at ?s' l = ptr_at s l \<or> ptr_at ?s' l = 0" for l
  proof (induction l)
    case (Sub L k)
    then show ?case by (auto simp: index_at_def)
  qed (use f in auto)
  have p0: "ptr_at ?s' l0 = 0" using f by auto
  show ?thesis
  proof (rule pruned_intro [OF wf, where B = "{b}"])
    show "blk_used ?s' c \<longleftrightarrow> blk_used s c \<and> c \<notin> {b}" for c using b(1) by simp
    show "\<exists>l. valid_loc l \<and> node_of l = n \<and> ptr_at s l = blk_addr s c \<and> ptr_at ?s' l = 0" if "c \<in> {b}" for c
      using that l0 b(2) p0 by blast
    show "kept_or_zero s ?s' a" for a by (simp add: kept_or_zero_def same_entry_def)
  qed (use f p in \<open>auto simp: same_block_def\<close>)
qed

lemma pruned_drop_slot:
  assumes wf: "wf_blocks s" and L: "valid_loc (Sub (Sng n) i)" "c < DATA_BLOCKS_NUM" "ptr_at s (Sng n) = blk_addr s c"
    and b: "b < DATA_BLOCKS_NUM" "ptr_at s (Sub (Sng n) i) = blk_addr s b"
  obtains s' where "store_index (drop_bit b s) (blk_addr s c) i 0 = Some s'" "pruned n s s'" "inodes s' = inodes s"
    "\<And>l. valid_loc l \<Longrightarrow> ptr_at s' l = (if l = Sub (Sng n) i then 0 else ptr_at s l)"
    "\<And>x. x div BLOCK_SIZE \<noteq> c \<Longrightarrow> data_blocks s' x = data_blocks s x"
proof -
  have i: "i < PTRS_PER_BLOCK" "valid_loc (Sng n)" using L(1) by auto
  define s' where "s' = s\<lparr>bitmap := snd (clear_bitmap (bitmap s) (int b)),
    data_blocks := upd_region (data_blocks s) (BLOCK_SIZE * c + 4 * i) (enc_le 4 0)\<rparr>"
  have st: "store_index (drop_bit b s) (blk_addr s c) i 0 = Some s'"
    using store_index_blk [OF L(2) i(1), of "drop_bit b s" 0] by (simp add: s'_def)
  have fld: "inodes s' = inodes s" "discos_addr s' = discos_addr s" "free_inodes s' = free_inodes s"
    "free_blocks s' = free_blocks s"
    and bits: "\<And>d. blk_used s' d \<longleftrightarrow> blk_used s d \<and> d \<noteq> b"
    using b(1) by (simp_all add: s'_def)
  have data: "data_blocks s' x = data_blocks s x" if "x div BLOCK_SIZE \<noteq> c" for x
    using that i(1) by (auto simp: s'_def upd_region_def simp del: enc_le.simps)
  have nz: "blk_addr s c \<noteq> 0" using blk_addr_nonzero wf L(2) by simp
  have at_c: "index_at s' (blk_addr s c) k = (if k = i then 0 else index_at s (blk_addr s c) k)"
    if "k < PTRS_PER_BLOCK" for k
    using index_at_store [OF st, of c "blk_addr s c" c k] L(2) i(1) that by (simp add: index_at_def)
  have own: "owns s n c" using i(2) L(3) by (auto simp: owns_def intro!: exI [of _ "Sng n"])
  have p0: "ptr_at s' (Sub (Sng n) i) = 0" using L(3) fld(1) nz at_c [OF i(1)] by simp
  have p: "ptr_at s' l = (if l = Sub (Sng n) i then 0 else ptr_at s l)" if "valid_loc l" for l
    using that
  proof (induction l)
    case (Sub L' k)
    then have v: "valid_loc L'" "index_loc L'" "k < PTRS_PER_BLOCK" by auto
    then have "L' \<noteq> Sub (Sng n) i" by auto
    then have IH: "ptr_at s' L' = ptr_at s L'" using Sub.IH v(1) by simp
    show ?case
    proof (cases "Sub L' k = Sub (Sng n) i")
      case ne: False
      have "ptr_at s' (Sub L' k) = ptr_at s (Sub L' k)"
      proof (cases "ptr_at s L' = 0")
        case False
        obtain d where d: "d < DATA_BLOCKS_NUM" "ptr_at s L' = blk_addr s d" using wf_blocksD [OF wf v(1) False] by metis
        show ?thesis
        proof (cases "d = c")
          case True
          then have "L' = Sng n" using wf_blocks_inj [OF wf v(1) i(2) False] d(2) L(3) by simp
          then show ?thesis using at_c [OF v(3)] d(2) True IH ne nz by simp
        next
          case False
          have "index_at s' (ptr_at s L') k = index_at s (ptr_at s L') k"
            using d v(3) False data by (intro index_at_cong [OF fld(2), of _ d]) auto
          then show ?thesis using IH by simp
        qed
      qed (use IH in simp)
      then show ?thesis unfolding if_not_P [OF ne] .
    qed (simp only: p0 if_True refl)
  qed (simp_all add: fld)
  have "pruned n s s'"
  proof (rule pruned_intro [OF wf, where B = "{b}"])
    show "\<exists>l. valid_loc l \<and> node_of l = n \<and> ptr_at s l = blk_addr s d \<and> ptr_at s' l = 0" if "d \<in> {b}" for d
      using that L(1) b(2) p0 by (intro exI [of _ "Sub (Sng n) i"]) auto
    show "same_block s s' d" if "d < DATA_BLOCKS_NUM" "\<not> owns s n d" for d
    proof -
      have "d \<noteq> c" using that own by auto
      then show ?thesis using data by (auto simp: same_block_def)
    qed
    show "kept_or_zero s s' (BLOCK_SIZE * d + 16 * j)"
      if l: "data_loc n l" "d < DATA_BLOCKS_NUM" "ptr_at s l = blk_addr s d" "j < ENTRIES_PER_BLOCK" for l d j
    proof -
      have "d \<noteq> c"
      proof
        assume "d = c"
        then have "l = Sng n" using wf_blocks_inj [OF wf _ i(2), of l] l L(3) nz by (auto simp: data_loc_def)
        then show False using l(1) by (simp add: data_loc_def)
      qed
      then have "same_block s s' d" using data by (auto simp: same_block_def)
      then show ?thesis using same_block_entry [OF _ l(4)] by (simp add: kept_or_zero_def)
    qed
    show "ptr_at s' l = ptr_at s l \<or> ptr_at s' l = 0" if "valid_loc l" for l using p [OF that] by simp
  qed (use fld bits in auto)
  with st show thesis using that [of s'] fld(1) p data by simp
qed

section \<open>The loops\<close>

text \<open>What happens to one block of the directory.\<close>

lemma clear_block:
  assumes wf: "wf_blocks s" and l: "data_loc n l" and c: "c < DATA_BLOCKS_NUM" "ptr_at s l = blk_addr s c"
    and len: "length f < 14"
  obtains cnt hit s1 where
    "clear_entries s (blk_addr s c) f 0 ENTRIES_PER_BLOCK 0 fnd = Some (cnt, fnd \<or> hit, s1)"
    "s1 = wipe (filter (entry_is s f) (loc_entries s l)) s"
    "cnt = length (filter (\<lambda>a. entry_num s a \<noteq> 0) (loc_entries s l))"
    "hit \<longleftrightarrow> filter (entry_is s f) (loc_entries s l) \<noteq> []"
    "pruned n s s1" "\<And>l'. valid_loc l' \<Longrightarrow> ptr_at s1 l' = ptr_at s l'"
proof -
  have es: "loc_entries s l = slots c 0 ENTRIES_PER_BLOCK" using loc_entries_blk [OF wf c] by simp
  have sub: "set (filter (entry_is s f) (slots c 0 ENTRIES_PER_BLOCK)) \<subseteq> set (slots c 0 ENTRIES_PER_BLOCK)"
    by (rule filter_is_subset)
  show thesis
    using that clear_entries_eq [OF c(1) len, of 0 ENTRIES_PER_BLOCK s 0 fnd]
      pruned_wipe [OF wf l c sub]
    unfolding es by (simp del: upt_Suc)
qed

lemma clear_entry_direct_pruned:
  assumes "wf_blocks s" "n < MAX_NUM_FILE" "length f < 14" "i + m \<le> INODE_NUM_DIRECT_PTR"
  shows "\<exists>r s'. clear_entry_direct s n f i m fnd = Some (r, s') \<and> pruned n s s'"
  using assms(1,4)
proof (induction m arbitrary: s i fnd)
  case 0
  then show ?case by (simp add: pruned_refl)
next
  case (Suc m)
  note wf = Suc.prems(1)
  have l: "data_loc n (Dir n i)" "valid_loc (Dir n i)" using assms(2) Suc.prems by (auto simp: data_loc_def)
  have IH: "\<exists>r s'. clear_entry_direct s2 n f (Suc i) m fnd2 = Some (r, s') \<and> pruned n s s'"
    if "pruned n s s2" for s2 fnd2
    using Suc.IH [OF prunedD(1) [OF that], of "Suc i" fnd2] Suc.prems(2) pruned_trans [OF that] by auto
  show ?case
  proof (cases "ptr_at s (Dir n i) = 0")
    case True
    then show ?thesis using IH [OF pruned_refl [OF wf], of fnd] by simp
  next
    case False
    obtain c where c: "c < DATA_BLOCKS_NUM" "ptr_at s (Dir n i) = blk_addr s c" by (rule wf_blocksD [OF wf l(2) False])
    obtain cnt hit s1 where 1: "clear_entries s (blk_addr s c) f 0 ENTRIES_PER_BLOCK 0 fnd = Some (cnt, fnd \<or> hit, s1)"
      "pruned n s s1" "\<And>l'. valid_loc l' \<Longrightarrow> ptr_at s1 l' = ptr_at s l'" "inodes s1 = inodes s"
      using clear_block [OF wf l(1) c assms(3), of fnd] wipe_fields(2) by metis
    note P = prunedD [OF 1(2)]
    have A: "blk_addr s1 = blk_addr s" by (rule addr_frame(1) [OF P(2)])
    define s2 where "s2 = (if (fnd \<or> hit) \<and> cnt = 1 then set_inode (drop_bit c s1) n
      ((inodes s1 n)\<lparr>pointers := (pointers (inodes s1 n))(i := 0)\<rparr>) else s1)"
    have "pruned n s s2"
    proof (cases "(fnd \<or> hit) \<and> cnt = 1")
      case True
      have "pruned n s1 s2" unfolding s2_def if_P [OF True]
        by (rule pruned_drop_inode [OF P(1) l(2) _ c(1)]) (use c(2) 1(3) [OF l(2)] A in auto)
      then show ?thesis using pruned_trans [OF 1(2)] by blast
    next
      case False
      show ?thesis unfolding s2_def if_not_P [OF False] by (rule 1(2))
    qed
    moreover have "clear_entry_direct s n f i (Suc m) fnd = clear_entry_direct s2 n f (Suc i) m (fnd \<or> hit)"
      using False c 1(1,4) drop_bit_of_eq [OF c(1), of s1] A by (simp add: Let_def s2_def)
    ultimately show ?thesis using IH by simp
  qed
qed

lemma clear_entry_single_pruned:
  assumes "wf_blocks s" "n < MAX_NUM_FILE" "length f < 14" "i + m \<le> PTRS_PER_BLOCK"
    "c < DATA_BLOCKS_NUM" "ptr_at s (Sng n) = blk_addr s c"
  shows "\<exists>a b r s'. clear_entry_single s (blk_addr s c) f i m nb le fnd = Some (a, b, r, s')
    \<and> pruned n s s' \<and> inodes s' = inodes s"
  using assms(1,4,6)
proof (induction m arbitrary: s i nb le fnd)
  case 0
  then show ?case by (simp add: pruned_refl)
next
  case (Suc m)
  note wf = Suc.prems(1)
  let ?l = "Sub (Sng n) i"
  have l: "data_loc n ?l" "valid_loc ?l" using assms(2) Suc.prems(2) by (auto simp: data_loc_def)
  have nz: "blk_addr s c \<noteq> 0" using blk_addr_nonzero wf assms(5) by simp
  have load: "load_index s (blk_addr s c) i = Some (ptr_at s ?l)"
    using load_index_blk [OF assms(5)] Suc.prems(2,3) nz by simp
  have IH: "\<exists>a b r s'. clear_entry_single s2 (blk_addr s c) f (Suc i) m nb2 le2 fnd2 = Some (a, b, r, s')
      \<and> pruned n s s' \<and> inodes s' = inodes s" if P: "pruned n s s2" "inodes s2 = inodes s" for s2 nb2 le2 fnd2
  proof -
    have A: "blk_addr s2 = blk_addr s" by (rule addr_frame(1) [OF prunedD(2) [OF P(1)]])
    have "ptr_at s2 (Sng n) = blk_addr s2 c" using Suc.prems(3) P(2) A by simp
    then show ?thesis
      using Suc.IH [OF prunedD(1) [OF P(1)], of "Suc i" nb2 le2 fnd2] Suc.prems(2) pruned_trans [OF P(1)] P(2) A
      by auto
  qed
  show ?case
  proof (cases "ptr_at s ?l = 0")
    case True
    then show ?thesis
      using IH [OF pruned_refl [OF wf] refl, of nb le fnd] load by (simp del: ptr_at.simps)
  next
    case False
    obtain d where d: "d < DATA_BLOCKS_NUM" "ptr_at s ?l = blk_addr s d" by (rule wf_blocksD [OF wf l(2) False])
    obtain cnt hit s1 where 1: "clear_entries s (blk_addr s d) f 0 ENTRIES_PER_BLOCK 0 fnd = Some (cnt, fnd \<or> hit, s1)"
      "pruned n s s1" "\<And>l'. valid_loc l' \<Longrightarrow> ptr_at s1 l' = ptr_at s l'" "inodes s1 = inodes s"
      using clear_block [OF wf l(1) d assms(3), of fnd] wipe_fields(2) by metis
    note P = prunedD [OF 1(2)]
    have A: "blk_addr s1 = blk_addr s" by (rule addr_frame(1) [OF P(2)])
    have p1: "ptr_at s1 (Sng n) = blk_addr s1 c" "ptr_at s1 ?l = blk_addr s1 d"
      using 1(3) [of "Sng n"] 1(3) [OF l(2)] Suc.prems(3) d(2) A assms(2) by (simp_all del: ptr_at.simps)
    have load1: "load_index s1 (blk_addr s c) i = Some (blk_addr s1 d)"
      using load_index_ptr_at [OF l(2) p1(1) assms(5) P(1)] p1(2) A by simp
    obtain s2 where s2: "store_index (drop_bit d s1) (blk_addr s1 c) i 0 = Some s2" "pruned n s1 s2" "inodes s2 = inodes s1"
      by (rule pruned_drop_slot [OF P(1) l(2) assms(5) p1(1) d(1) p1(2)])
    have step: "clear_entry_single s (blk_addr s c) f i (Suc m) nb le fnd =
        (if (fnd \<or> hit) \<and> cnt = 1 then clear_entry_single s2 (blk_addr s c) f (Suc i) m (nb + 1) True (fnd \<or> hit)
         else clear_entry_single s1 (blk_addr s c) f (Suc i) m (nb + 1) le (fnd \<or> hit))"
      using False d(2) 1(1) load load1 drop_bit_of_eq [OF d(1), of s1] s2(1) A
      by (simp add: Let_def del: ptr_at.simps)
    show ?thesis
      unfolding step using IH [OF 1(2,4)] IH [OF pruned_trans [OF 1(2) s2(2)]] s2(3) 1(4) by simp
  qed
qed

section \<open>Removing a directory entry\<close>

lemma clear_entry_pruned:
  assumes wf: "wf_blocks s" and n: "n < MAX_NUM_FILE" and len: "length f < 14"
  obtains s' where "clear_entry_in_current_dir s n f = Some s'" "pruned n s s'"
proof -
  obtain r1 s1 where 1: "clear_entry_direct s n f 0 INODE_NUM_DIRECT_PTR False = Some (r1, s1)" "pruned n s s1"
    using clear_entry_direct_pruned [OF wf n len, of 0 INODE_NUM_DIRECT_PTR False] by auto
  note P1 = prunedD [OF 1(2)]
  let ?p = "single_indirect_ptrs (inodes s1 n)"
  obtain r2 s2 where 2: "(if ?p \<noteq> 0 then do {
            (nonEmptyBlocks, lastEntry, findEntry, s') \<leftarrow>
              clear_entry_single s1 ?p f 0 PTRS_PER_BLOCK 0 False False;
            s'' \<leftarrow> (if findEntry \<and> nonEmptyBlocks = 1 \<and> lastEntry
                  then do {
                    t \<leftarrow> drop_bit_of s' (single_indirect_ptrs (inodes s' n));
                    Some (set_inode t n ((inodes t n)\<lparr>single_indirect_ptrs := 0\<rparr>))
                  }
                  else Some s');
            Some (findEntry, s'')
          }
          else Some (False, s1)) = Some (r2, s2)" "pruned n s1 s2"
  proof (cases "?p = 0")
    case True
    then show ?thesis using that [of False s1] pruned_refl [OF P1(1)] by simp
  next
    case False
    obtain c where c: "c < DATA_BLOCKS_NUM" "ptr_at s1 (Sng n) = blk_addr s1 c"
      using wf_blocksD [OF P1(1), of "Sng n"] False n by auto
    obtain a b r t where t: "clear_entry_single s1 (blk_addr s1 c) f 0 PTRS_PER_BLOCK 0 False False = Some (a, b, r, t)"
      "pruned n s1 t" "inodes t = inodes s1"
      using clear_entry_single_pruned [OF P1(1) n len _ c, of 0 PTRS_PER_BLOCK 0 False False] by auto
    note T = prunedD [OF t(2)]
    have A: "blk_addr t = blk_addr s1" by (rule addr_frame(1) [OF T(2)])
    have pt: "ptr_at t (Sng n) = blk_addr t c" using c(2) t(3) A by simp
    define u where "u = set_inode (drop_bit c t) n ((inodes t n)\<lparr>single_indirect_ptrs := 0\<rparr>)"
    have "pruned n t u"
      unfolding u_def by (rule pruned_drop_inode [OF T(1) _ _ c(1) pt]) (use n in auto)
    then have u: "pruned n s1 u" by (rule pruned_trans [OF t(2)])
    show ?thesis
    proof (rule that [of r "if r \<and> a = 1 \<and> b then u else t"])
      show "pruned n s1 (if r \<and> a = 1 \<and> b then u else t)" using u t(2) by simp
    qed (use False c(2) t(1) pt drop_bit_of_eq [OF c(1), of t] in \<open>simp add: u_def\<close>)
  qed
  note P2 = prunedD [OF 2(2)]
  have A2: "pruned n s s2" by (rule pruned_trans [OF 1(2) 2(2)])
  have dbl: "find_entry_double s2 (double_indirect_ptrs (inodes s2 n)) f 0 PTRS_PER_BLOCK \<noteq> None"
    if "double_indirect_ptrs (inodes s2 n) \<noteq> 0"
    using double_search(2) [OF P2(1) n len, of] that by simp
  have eq: "clear_entry_in_current_dir s n f = (if r1 then Some s1 else if r2 then Some s2 else do {
         e \<leftarrow> (if double_indirect_ptrs (inodes s2 n) \<noteq> 0
              then find_entry_double s2 (double_indirect_ptrs (inodes s2 n)) f 0 PTRS_PER_BLOCK
              else Some None);
         Some s2 })"
    by (simp only: clear_entry_in_current_dir_def 1(1) Option.bind.bind_lunit case_prod_conv Let_def 2(1))
  have "clear_entry_in_current_dir s n f = Some (if r1 then s1 else s2)"
    unfolding eq using dbl by auto
  moreover have "pruned n s (if r1 then s1 else s2)" using 1(2) A2 by simp
  ultimately show thesis by (rule that)
qed

section \<open>The invariant\<close>

lemma kept_or_zero_slot:
  assumes "kept_or_zero s s' a" "slot_wf s n a"
  shows "slot_wf s' n a"
  using assms same_entry_facts(4) [of s s' a n] by (auto simp: kept_or_zero_def slot_wf_def)

lemma pruned_entries:
  assumes p: "pruned n s s'" and n: "n < MAX_NUM_FILE" and a: "a \<in> set (entries s' n)"
    and wf: "wf_blocks s"
  shows "a \<in> set (entries s n) \<and> kept_or_zero s s' a"
proof -
  note P = prunedD [OF p]
  have A: "blk_addr s' = blk_addr s" by (rule addr_frame(1) [OF P(2)])
  from entries_elim [OF P(1) n a] obtain l c j where
    l: "data_loc n l" "c < DATA_BLOCKS_NUM" "ptr_at s' l = blk_addr s' c" "j < ENTRIES_PER_BLOCK"
      "a = BLOCK_SIZE * c + 16 * j" .
  have "ptr_at s' l \<noteq> 0" using l(2,3) blk_addr_nonzero P(1) by simp
  then have "ptr_at s l = blk_addr s c" using P(9) [of l] l(1,3) A by (auto simp: data_loc_def)
  then show ?thesis
    using entries_mem [OF wf l(1,2) _ l(4)] P(11) [OF l(1,2) _ l(4)] l(3,5) A by simp
qed

lemma pruned_other_dir:
  assumes p: "pruned n s s'" and wf: "wf_blocks s" and m: "m \<noteq> n" "m < MAX_NUM_FILE"
  shows "same_dir s s' m"
proof -
  note P = prunedD [OF p]
  have ptr: "ptr_at s' l = ptr_at s l" if "data_loc m l" for l
    using foreign_ptr [OF wf P(2,5,10)] that m(1) by (auto simp: data_loc_def)
  have "same_entry s s' a" if a: "a \<in> set (entries s m)" for a
  proof -
    from entries_elim [OF wf m(2) a] obtain l c j where
      l: "data_loc m l" "c < DATA_BLOCKS_NUM" "ptr_at s l = blk_addr s c" "j < ENTRIES_PER_BLOCK"
        "a = BLOCK_SIZE * c + 16 * j" .
    have "same_block s s' c"
      using P(10) [OF l(2)] wf_not_owned [OF wf _ _ l(2,3), of n] l(1) m(1) by (auto simp: data_loc_def)
    then show ?thesis using same_block_entry l(4,5) by simp
  qed
  then show ?thesis using entries_cong [OF P(2) m(2) ptr] by (simp add: same_dir_def)
qed

lemma pruned_type: "pruned n s s' \<Longrightarrow> itype (inodes s' k) = itype (inodes s k)"
  using prunedD(5,6) by (cases "k = n") metis+

lemma pruned_ok:
  assumes ok: "fs_ok s" and p: "pruned n s s'" and n: "n < MAX_NUM_FILE"
  shows "fs_ok s'"
proof -
  note S = fs_okD [OF ok] and P = prunedD [OF p]
  have dir: "is_dir s' k = is_dir s k" for k using pruned_type [OF p] by (simp add: is_dir_def)
  have "slot_wf s' k a" if k: "is_dir s' k" "a \<in> set (entries s' k)" for k a
  proof (cases "k = n")
    case True
    have "a \<in> set (entries s n)" "kept_or_zero s s' a" using pruned_entries [OF p n _ S(1)] k(2) True by auto
    then show ?thesis using kept_or_zero_slot S(2) k(1) dir True by (auto simp: dirs_ok_def)
  next
    case False
    then show ?thesis
      using same_dir_slots [OF pruned_other_dir [OF p S(1) False]] S(2) k dir
      by (auto simp: dirs_ok_def is_dir_def)
  qed
  moreover have "card (free_set s) \<le> card (free_set s')"
    using P(8) by (intro card_mono) (auto simp: free_set_def)
  then have "counter_ok s'" using S(3) P(4) by (simp add: counter_ok_def)
  ultimately show ?thesis using P(1) S(4) dir by (simp add: fs_ok_def dirs_ok_def)
qed

text \<open>The file's blocks are free and its index node is zero.\<close>

definition cleared :: "nat \<Rightarrow> filesys_struct \<Rightarrow> filesys_struct" where
  "cleared n s = zap n (fold release (owned s n) s)"

lemma cleared_fields [simp]:
  "discos_addr (cleared n s) = discos_addr s" "free_inodes (cleared n s) = free_inodes s"
  "inodes (cleared n s) = (inodes s)(n := zero_inode)"
  by (simp_all add: cleared_def)

lemma cleared_block:
  assumes "wf_blocks s" "n < MAX_NUM_FILE" "b < DATA_BLOCKS_NUM" "\<not> owns s n b"
  shows "same_block s (cleared n s) b"
  using owned_facts(1) [OF assms(1,2)] assms(3,4)
  by (auto simp: same_block_def cleared_def fold_release_data)

lemma cleared_used:
  assumes "wf_blocks s" "n < MAX_NUM_FILE"
  shows "blk_used (cleared n s) b \<longleftrightarrow> blk_used s b \<and> b \<notin> set (owned s n)"
  using fold_release_used [OF owned_facts(3) [OF assms]] by (simp add: cleared_def)

lemma cleared_ptr:
  assumes wf: "wf_blocks s" and n: "n < MAX_NUM_FILE" and l: "valid_loc l"
  shows "ptr_at (cleared n s) l = (if node_of l = n then 0 else ptr_at s l)"
proof (cases "node_of l = n")
  case True
  then have "ptr_at (cleared n s) l = 0" by (induction l) (auto simp: zero_inode_def)
  then show ?thesis using True by simp
next
  case False
  have "ptr_at (cleared n s) l = ptr_at s l"
    by (rule foreign_ptr [OF wf _ _ cleared_block [OF wf n] l False]) auto
  then show ?thesis using False by simp
qed

lemma cleared_wf:
  assumes wf: "wf_blocks s" and n: "n < MAX_NUM_FILE"
  shows "wf_blocks (cleared n s)"
proof -
  have A: "blk_addr (cleared n s) = blk_addr s" "region_ok (cleared n s) = region_ok s"
    using addr_frame(1,6) [of "cleared n s" s] by auto
  have "\<exists>b < DATA_BLOCKS_NUM. ptr_at (cleared n s) l = blk_addr (cleared n s) b \<and> blk_used (cleared n s) b"
    if l: "valid_loc l" "ptr_at (cleared n s) l \<noteq> 0" for l
  proof -
    have k: "node_of l \<noteq> n" "ptr_at (cleared n s) l = ptr_at s l"
      using cleared_ptr [OF wf n l(1)] l(2) by (auto split: if_splits)
    obtain b where b: "b < DATA_BLOCKS_NUM" "ptr_at s l = blk_addr s b" "blk_used s b"
      using wf_blocksD [OF wf l(1)] k(2) l(2) by metis
    have "\<not> owns s n b" by (rule wf_not_owned [OF wf l(1) k(1) b(1,2)])
    then show ?thesis using b k(2) A(1) cleared_used [OF wf n] owned_facts(1) [OF wf n] by auto
  qed
  moreover have "l = l'" if "valid_loc l" "valid_loc l'" "ptr_at (cleared n s) l \<noteq> 0"
    "ptr_at (cleared n s) l = ptr_at (cleared n s) l'" for l l'
    using that cleared_ptr [OF wf n that(1)] cleared_ptr [OF wf n that(2)] wf_blocks_inj [OF wf that(1,2)]
    by (auto split: if_splits)
  ultimately show ?thesis using wf A(2) by (simp add: wf_blocks_def)
qed

lemma cleared_dir:
  assumes wf: "wf_blocks s" and n: "n < MAX_NUM_FILE" and m: "m \<noteq> n" "m < MAX_NUM_FILE"
  shows "same_dir s (cleared n s) m"
proof -
  have ptr: "ptr_at (cleared n s) l = ptr_at s l" if "data_loc m l" for l
    using cleared_ptr [OF wf n, of l] that m(1) by (auto simp: data_loc_def)
  have "same_entry s (cleared n s) a" if a: "a \<in> set (entries s m)" for a
  proof -
    from entries_elim [OF wf m(2) a] obtain l c j where
      l: "data_loc m l" "c < DATA_BLOCKS_NUM" "ptr_at s l = blk_addr s c" "j < ENTRIES_PER_BLOCK"
        "a = BLOCK_SIZE * c + 16 * j" .
    have "\<not> owns s n c" using wf_not_owned [OF wf _ _ l(2,3), of n] l(1) m(1) by (auto simp: data_loc_def)
    then show ?thesis using same_block_entry [OF cleared_block [OF wf n l(2)] l(4)] l(5) by simp
  qed
  then show ?thesis using entries_cong [OF _ m(2) ptr] by (simp add: same_dir_def)
qed

lemma cleared_counter:
  assumes wf: "wf_blocks s" and n: "n < MAX_NUM_FILE" and c: "counter_ok s"
  shows "counter_ok (cleared n s)"
proof -
  note O = owned_facts [OF wf n]
  have used: "blk_used s b" if "b \<in> set (owned s n)" for b
    using O(1) that wf_used [OF wf] by (auto simp: owns_def)
  have "free_set (cleared n s) = free_set s \<union> set (owned s n)"
    using cleared_used [OF wf n] O(3) by (auto simp: free_set_def)
  moreover have "free_set s \<inter> set (owned s n) = {}" using used by (auto simp: free_set_def)
  ultimately have card: "card (free_set (cleared n s)) = card (free_set s) + length (owned s n)"
    using distinct_card [OF O(2)] by (simp add: card_Un_disjoint free_set_def)
  have "free_blocks (cleared n s) = free_blocks s + of_nat (length (owned s n))" by (simp add: cleared_def)
  then have "unat (free_blocks (cleared n s)) \<le> unat (free_blocks s) + length (owned s n)"
    by (simp add: unat_word_ariths unat_of_nat)
  then show ?thesis using c card by (simp add: counter_ok_def)
qed

lemma cleared_ok:
  assumes ok: "fs_ok s" and n: "n < MAX_NUM_FILE" "n \<noteq> 0"
  shows "fs_ok (cleared n s)"
proof -
  note S = fs_okD [OF ok]
  have dir: "is_dir (cleared n s) k \<longleftrightarrow> is_dir s k \<and> k \<noteq> n" for k
    by (auto simp: is_dir_def zero_inode_def)
  have "slot_wf (cleared n s) k a" if k: "is_dir (cleared n s) k" "a \<in> set (entries (cleared n s) k)" for k a
    using same_dir_slots [OF cleared_dir [OF S(1) n(1), of k]] S(2) k dir
    by (auto simp: dirs_ok_def is_dir_def)
  then have "dirs_ok (cleared n s)" by (simp add: dirs_ok_def)
  then show ?thesis
    using cleared_wf [OF S(1) n(1)] cleared_counter [OF S(1) n(1) S(3)] S(4) dir n(2) by (simp add: fs_ok_def)
qed

end
