(* ===== verification/Namespace.thy ===== *)
theory Namespace
  imports CreateSpec
begin

text \<open>
  The abstract file system: a map from a directory and a name to an index node number.
  Following a path and entering a file are one line each on this map; the operations of
  \<^verbatim>\<open>discos.c\<close> are shown to implement them.
\<close>

section \<open>The specification\<close>

type_synonym namespace = "nat \<Rightarrow> string \<Rightarrow> nat option"

fun resolve :: "namespace \<Rightarrow> nat \<Rightarrow> string list \<Rightarrow> nat option" where
  "resolve D n [] = Some n"
| "resolve D n (t # ts) = (case D n t of None \<Rightarrow> None | Some m \<Rightarrow> resolve D m ts)"

definition enter :: "namespace \<Rightarrow> nat \<Rightarrow> string \<Rightarrow> nat \<Rightarrow> namespace" where
  "enter D n t m = D(n := (D n)(t \<mapsto> m))"

lemma resolve_append:
  "resolve D n (ts @ us) = (case resolve D n ts of None \<Rightarrow> None | Some m \<Rightarrow> resolve D m us)"
  by (induction ts arbitrary: n) (auto split: option.splits)

lemma resolve_enter_keeps:
  assumes "D n t = None" "resolve D k us = Some x"
  shows "resolve (enter D n t m) k us = Some x"
  using assms(2)
proof (induction us arbitrary: k)
  case (Cons u us)
  then obtain j where j: "D k u = Some j" by (auto split: option.splits)
  then have "enter D n t m k u = Some j" using assms(1) by (auto simp: enter_def)
  then show ?case using Cons j by simp
qed simp

section \<open>The abstraction\<close>

definition dir_map :: "filesys_struct \<Rightarrow> namespace" where
  "dir_map s n t =
     (if is_dir s n \<and> is_name t then map_option (entry_num s) (dir_find s n t) else None)"

lemma resolve_lookup:
  assumes "\<forall>t \<in> set ts. is_name t" "through_dirs s n ts"
  shows "resolve (dir_map s) n ts = lookup_path s n ts"
  using assms by (induction ts arbitrary: n) (auto simp: dir_map_def split: option.splits)

lemma resolve_dirs:
  "resolve (dir_map s) n ts = Some m \<Longrightarrow> through_dirs s n ts \<and> (\<forall>t \<in> set ts. is_name t)"
  by (induction ts arbitrary: n) (auto simp: dir_map_def split: option.splits if_splits)

lemma resolve_is_lookup: "resolve (dir_map s) n ts = Some m \<Longrightarrow> lookup_path s n ts = Some m"
  using resolve_lookup resolve_dirs by metis

lemma dir_map_range:
  assumes "fs_ok s" "dir_map s n t = Some m"
  shows "0 < m" "m < MAX_NUM_FILE" "m \<noteq> n"
proof -
  obtain a where a: "is_dir s n" "is_name t" "dir_find s n t = Some a" "entry_num s a = m"
    using assms(2) by (auto simp: dir_map_def split: if_splits)
  show "0 < m" "m < MAX_NUM_FILE" "m \<noteq> n"
    using dir_find_num(1-3) [OF fs_okD(2) [OF assms(1)] a(1-3)] a(4) by auto
qed

lemma lookup_map:
  assumes "fs_ok s" "through_dirs s 0 ts" "\<forall>t \<in> set ts. is_name t"
  shows "search_path s (path_of ts) =
    Some (case resolve (dir_map s) 0 ts of None \<Rightarrow> -1 | Some m \<Rightarrow> int m)"
  using lookup_spec [OF fs_okD(1) [OF assms(1)] fs_okD(2) [OF assms(1)] assms(2,3)] resolve_lookup [OF assms(3,2)] by simp

lemma lookup_found:
  "fs_ok s \<Longrightarrow> resolve (dir_map s) 0 ts = Some m \<Longrightarrow> search_path s (path_of ts) = Some (int m)"
  using lookup_map resolve_dirs by fastforce

section \<open>Growing a directory\<close>

lemma grown_find_all:
  assumes "fs_ok s" "is_dir s n" "grown n s s1" "k < MAX_NUM_FILE" "is_name u"
  shows "dir_find s1 k u = dir_find s k u"
proof -
  note S = fs_okD [OF assms(1)]
  have nn: "n < MAX_NUM_FILE" using assms(2) by (simp add: is_dir_def)
  show ?thesis
    using grown_find [OF assms(3) nn S(1) assms(5)] same_dir_find [OF grown_dir [OF assms(3) S(1) _ assms(4)] assms(5)]
    by (cases "k = n") auto
qed

lemma grown_map:
  assumes "fs_ok s" "is_dir s n" "grown n s s1"
  shows "dir_map s1 = dir_map s"
proof (intro ext)
  fix k u
  have dir: "is_dir s1 k = is_dir s k" using grown_type [OF assms(3)] by (simp add: is_dir_def)
  show "dir_map s1 k u = dir_map s k u"
  proof (cases "is_dir s k \<and> is_name u")
    case True
    then have f: "dir_find s1 k u = dir_find s k u"
      using grown_find_all [OF assms] by (simp add: is_dir_def)
    show ?thesis
      using True dir f keepsD(3) [OF grown_keeps [OF assms]]
      by (cases "dir_find s k u") (auto simp: dir_map_def)
  next
    case False
    then show ?thesis using dir by (auto simp: dir_map_def)
  qed
qed

section \<open>Entering a file\<close>

lemma created_map:
  assumes "fs_ok s" "is_dir s n" "free_entry s n a" "created s n a m t type mode s'"
    "m \<noteq> n" "itype (inodes s m) = ''''" "is_name t" "m < MAX_NUM_FILE"
    and a: "a \<in> set (entries s n)" and fresh: "dir_map s n t = None"
  shows "dir_map s' = enter (dir_map s) n t m"
proof (intro ext)
  note O = created_find_other [OF assms(1-7)] and C = createdD [OF assms(4)]
  have nn: "n < MAX_NUM_FILE" using assms(2) by (simp add: is_dir_def)
  have f: "dir_find s n t = None" using fresh assms(2,7) by (simp add: dir_map_def)
  have dir: "is_dir s' k = is_dir s k" if "k \<noteq> m" for k
    using that by (auto simp: is_dir_def C(7))
  have nm: "dir_map s m u = None" for u using assms(6) by (simp add: dir_map_def is_dir_def)
  fix k u
  consider "k = m" | "k = n" "u = t" | "\<not> (is_dir s k \<and> is_name u)" "k \<noteq> m" "\<not> (k = n \<and> u = t)"
    | "is_dir s k" "is_name u" "k \<noteq> m" "\<not> (k = n \<and> u = t)" by blast
  then show "dir_map s' k u = enter (dir_map s) n t m k u"
  proof cases
    case 1
    have "entries s' m = []"
      using created_entries(4) [OF fs_okD(1) [OF assms(1)] assms(3-5) nn assms(8)] .
    then have "dir_map s' m u = None" by (simp add: dir_map_def dir_find_def)
    then show ?thesis using 1 nm assms(5) by (simp add: enter_def)
  next
    case 2
    have "dir_find s' n t = Some a" by (rule created_find [OF assms(1-5,7) a f])
    moreover have "is_dir s' n" using dir [of n] assms(2,5) by simp
    ultimately show ?thesis using 2 assms(7) C(6) by (simp add: dir_map_def enter_def)
  next
    case 3
    then show ?thesis using dir [of k] by (auto simp: dir_map_def enter_def)
  next
    case 4
    have "dir_map s' k u = dir_map s k u"
      using O [OF 4(1,2)] 4 dir [of k] by (cases "dir_find s k u") (auto simp: dir_map_def)
    then show ?thesis using 4(4) by (auto simp: enter_def)
  qed
qed

end
