(* ===== verification/FileTable.thy ===== *)
theory FileTable
  imports Unlink Sample
begin

text \<open>
  The per-process file descriptor tables and the operations on them: \<^verbatim>\<open>get_fd_table\<close>,
  \<^verbatim>\<open>create_file_object\<close>, \<^verbatim>\<open>rd_open\<close>, \<^verbatim>\<open>rd_close\<close>, \<^verbatim>\<open>rd_lseek\<close> of
  \<^verbatim>\<open>kernelspace/discos.c\<close>, and the global state of the module, \<open>kernel\<close>.
  An \<^verbatim>\<open>inode_struct*\<close> is the number of the index node, \<^term>\<open>None\<close> for \<^verbatim>\<open>NULL\<close>.
\<close>

section \<open>Types\<close>

abbreviation THERAD_POOL_SIZE :: nat where "THERAD_POOL_SIZE \<equiv> 10"
abbreviation FD_TABLE_SIZE :: nat where "FD_TABLE_SIZE \<equiv> 1024"
abbreviation READ_BUFFER_SIZE :: nat where "READ_BUFFER_SIZE \<equiv> 1048576"

record file_object =
  inode_ptr :: "nat option"
  status :: "32 word"
  cursor :: "32 word"
  pos :: "32 word"
  usable :: "32 word"

record process_fd_table =
  pid :: "32 word"
  fd_table :: "nat \<Rightarrow> file_object"

record kernel =
  fs :: filesys_struct
  p_fd_table :: "nat \<Rightarrow> process_fd_table"
  read_buffer :: "nat \<Rightarrow> char"

definition zero_file_object :: file_object where
  "zero_file_object = \<lparr>inode_ptr = None, status = 0, cursor = 0, pos = 0, usable = 0\<rparr>"

definition init_file_sys :: "allocator \<Rightarrow> ptr \<Rightarrow> (nat \<Rightarrow> char) \<Rightarrow> (int \<times> kernel) option" where
  "init_file_sys vm a rb = do {
     (ret, s) \<leftarrow> init_filesys vm a;
     Some (ret, \<lparr>fs = s,
                 p_fd_table = (\<lambda>_. \<lparr>pid = 0, fd_table = (\<lambda>_. zero_file_object)\<rparr>),
                 read_buffer = rb\<rparr>)
   }"

section \<open>Finding the table and the file object\<close>

fun find_pid :: "(nat \<Rightarrow> process_fd_table) \<Rightarrow> 32 word \<Rightarrow> nat \<Rightarrow> nat \<Rightarrow> nat option" where
  "find_pid tbl p i 0 = None"
| "find_pid tbl p i (Suc n) = (if pid (tbl i) = p then Some i else find_pid tbl p (Suc i) n)"

text \<open>The first loop looks for the process, the second for an entry with pid 0; the entry it
  returns is not given the new pid.\<close>

definition get_fd_table :: "(nat \<Rightarrow> process_fd_table) \<Rightarrow> int \<Rightarrow> nat option" where
  "get_fd_table tbl p =
     (case find_pid tbl (word_of_int p) 0 THERAD_POOL_SIZE of
        Some i \<Rightarrow> Some i
      | None \<Rightarrow> find_pid tbl 0 0 THERAD_POOL_SIZE)"

fun find_unused :: "(nat \<Rightarrow> file_object) \<Rightarrow> nat \<Rightarrow> nat \<Rightarrow> nat option" where
  "find_unused objs i 0 = None"
| "find_unused objs i (Suc n) =
     (if usable (objs i) = 0 then Some i else find_unused objs (Suc i) n)"

definition upd_fobj :: "kernel \<Rightarrow> nat \<Rightarrow> nat \<Rightarrow> file_object \<Rightarrow> kernel" where
  "upd_fobj k t i f = k\<lparr>p_fd_table := (p_fd_table k)(t :=
     (p_fd_table k t)\<lparr>fd_table := (fd_table (p_fd_table k t))(i := f)\<rparr>)\<rparr>"

abbreviation fobj :: "kernel \<Rightarrow> nat \<Rightarrow> nat \<Rightarrow> file_object" where
  "fobj k t i \<equiv> fd_table (p_fd_table k t) i"

definition create_file_object :: "kernel \<Rightarrow> int \<Rightarrow> ((nat \<times> nat) \<times> kernel) option" where
  "create_file_object k p =
     (case get_fd_table (p_fd_table k) p of
        None \<Rightarrow> None
      | Some t \<Rightarrow>
          (case find_unused (fd_table (p_fd_table k t)) 0 FD_TABLE_SIZE of
             None \<Rightarrow> None
           | Some i \<Rightarrow>
               Some ((t, i), upd_fobj k t i ((fobj k t i)\<lparr>pos := of_nat i, usable := 1\<rparr>))))"

text \<open>The search every operation on a descriptor starts with: the first file object of the
  table whose \<open>pos\<close> is the descriptor.\<close>

fun find_fobj :: "(nat \<Rightarrow> file_object) \<Rightarrow> 32 word \<Rightarrow> nat \<Rightarrow> nat \<Rightarrow> nat option" where
  "find_fobj objs fd i 0 = None"
| "find_fobj objs fd i (Suc n) = (if pos (objs i) = fd then Some i else find_fobj objs fd (Suc i) n)"

definition lookup_fd :: "kernel \<Rightarrow> int \<Rightarrow> int \<Rightarrow> (nat \<times> nat) option" where
  "lookup_fd k p fd =
     (case get_fd_table (p_fd_table k) p of
        None \<Rightarrow> None
      | Some t \<Rightarrow> map_option (\<lambda>i. (t, i))
          (find_fobj (fd_table (p_fd_table k t)) (word_of_int fd) 0 FD_TABLE_SIZE))"

section \<open>Opening\<close>

definition access_denied :: "32 word \<Rightarrow> 32 word \<Rightarrow> bool" where
  "access_denied flags acc \<longleftrightarrow>
     flags = RD \<and> acc = WR \<or> flags = WR \<and> acc = RD \<or> flags = RW \<and> acc \<noteq> RW"

definition rd_open :: "allocator \<Rightarrow> kernel \<Rightarrow> string \<Rightarrow> 32 word \<Rightarrow> int \<Rightarrow> (int \<times> kernel) option" where
  "rd_open vm k path flags p = do {
     pathname \<leftarrow> copy_path vm Path_Copy path;
     if pathname = ''/'' then Some (-1, k)
     else do {
       file_inode_num \<leftarrow> my_find_inode_number vm (fs k) pathname;
       if file_inode_num = -1 then Some (-1, k)
       else do {
         file_inode \<leftarrow> get_inode (fs k) (nat file_inode_num);
         if access_denied flags (access file_inode) then Some (-1, k)
         else (case create_file_object k p of
             None \<Rightarrow> Some (-1, k)
           | Some ((t, i), k1) \<Rightarrow>
               let k2 = upd_fobj k1 t i ((fobj k1 t i)\<lparr>cursor := 0,
                          inode_ptr := Some (nat file_inode_num), status := flags\<rparr>)
               in Some (sint (pos (fobj k2 t i)), k2))
       }
     }
   }"

section \<open>Closing\<close>

definition rd_close :: "kernel \<Rightarrow> int \<Rightarrow> int \<Rightarrow> (int \<times> kernel) option" where
  "rd_close k fd p =
     (case lookup_fd k p fd of
        None \<Rightarrow> Some (-1, k)
      | Some (t, i) \<Rightarrow>
          (let f_obj = fobj k t i in
           case inode_ptr f_obj of
             None \<Rightarrow> Some (-1, k)
           | Some n \<Rightarrow>
               if usable f_obj \<noteq> 1 then Some (-1, k)
               else do {
                 inode \<leftarrow> get_inode (fs k) n;
                 if itype inode = ''dir'' then Some (-1, k)
                 else if usable f_obj = 1
                 then Some (0, upd_fobj k t i (f_obj\<lparr>inode_ptr := None, usable := 0,
                                                 cursor := 0, pos := 0, status := 0\<rparr>))
                 else Some (-1, k)
               }))"

section \<open>Seeking\<close>

text \<open>\<open>offset\<close> is a C \<^verbatim>\<open>int\<close>, compared with the unsigned size after the test that it is
  not negative; \<^verbatim>\<open>file_size - 1\<close> is unsigned.\<close>

definition rd_lseek :: "kernel \<Rightarrow> int \<Rightarrow> int \<Rightarrow> int \<Rightarrow> (int \<times> kernel) option" where
  "rd_lseek k fd offset p =
     (case lookup_fd k p fd of
        None \<Rightarrow> Some (-1, k)
      | Some (t, i) \<Rightarrow>
          (let f_obj = fobj k t i in
           case inode_ptr f_obj of
             None \<Rightarrow> Some (-1, k)
           | Some n \<Rightarrow>
               if usable f_obj \<noteq> 1 then Some (-1, k)
               else do {
                 inode \<leftarrow> get_inode (fs k) n;
                 if itype inode = ''dir'' then Some (-1, k)
                 else if offset < 0 then Some (-1, k)
                 else let file_size = isize inode in
                   if word_of_int offset \<ge> file_size
                   then Some (sint (file_size - 1), upd_fobj k t i (f_obj\<lparr>cursor := file_size - 1\<rparr>))
                   else let f1 = f_obj\<lparr>cursor := word_of_int offset\<rparr>
                        in Some (sint (cursor f1), upd_fobj k t i f1)
               }))"

section \<open>The searches\<close>

interpretation fp: linear_search "\<lambda>i. pid (tbl i) = p" Some None "find_pid tbl p" for tbl p
  by unfold_locales auto

interpretation fu: linear_search "\<lambda>i. usable (objs i) = 0" Some None "find_unused objs" for objs
  by unfold_locales auto

interpretation ff: linear_search "\<lambda>i. pos (objs i) = fd" Some None "find_fobj objs fd" for objs fd
  by unfold_locales auto

section \<open>The invariant of the tables\<close>

text \<open>What holds of the tables in every state the module reaches: no entry has a pid, so
  only table 0 is ever used; an unused file object is all zero; a used one records its own
  position and an index node of the partition.\<close>

definition slot_ok :: "nat \<Rightarrow> file_object \<Rightarrow> bool" where
  "slot_ok i f \<longleftrightarrow>
     (usable f = 0 \<and> f = zero_file_object)
     \<or> (usable f = 1 \<and> pos f = of_nat i \<and> (\<exists>n < MAX_NUM_FILE. inode_ptr f = Some n))"

definition fds_ok :: "kernel \<Rightarrow> bool" where
  "fds_ok k \<longleftrightarrow> (\<forall>t < THERAD_POOL_SIZE. pid (p_fd_table k t) = 0)
     \<and> (\<forall>i < FD_TABLE_SIZE. slot_ok i (fobj k 0 i))"

lemma fds_okD:
  assumes "fds_ok k"
  shows "t < THERAD_POOL_SIZE \<Longrightarrow> pid (p_fd_table k t) = 0" "i < FD_TABLE_SIZE \<Longrightarrow> slot_ok i (fobj k 0 i)"
  using assms by (auto simp: fds_ok_def)

lemma get_fd_table_0: "fds_ok k \<Longrightarrow> get_fd_table (p_fd_table k) p = Some 0"
proof -
  assume ok: "fds_ok k"
  have "find_pid (p_fd_table k) q 0 THERAD_POOL_SIZE = (if q = 0 then Some 0 else None)" for q
  proof (cases "q = 0")
    case True
    then show ?thesis using fds_okD(1) [OF ok, of 0] by (simp add: fp.loop_hit)
  next
    case False
    then show ?thesis using fds_okD(1) [OF ok] by (simp add: fp.loop_miss)
  qed
  then show ?thesis by (simp add: get_fd_table_def)
qed

lemma of_nat_32_inj: "a < 2 ^ 32 \<Longrightarrow> b < 2 ^ 32 \<Longrightarrow> (of_nat a :: 32 word) = of_nat b \<longleftrightarrow> a = b"
proof -
  assume "a < 2 ^ 32" "b < 2 ^ 32"
  then have "unat (of_nat a :: 32 word) = a" "unat (of_nat b :: 32 word) = b"
    by (simp_all add: unat_of_nat)
  then show ?thesis by metis
qed

lemma word_of_int_fd:
  assumes "- (2 ^ 31) \<le> fd" "fd < 2 ^ 31" "j < FD_TABLE_SIZE"
  shows "of_nat j = (word_of_int fd :: 32 word) \<longleftrightarrow> fd = int j"
proof
  assume "of_nat j = (word_of_int fd :: 32 word)"
  then have "(word_of_int (int j) :: 32 word) = word_of_int fd" by simp
  then have "int j mod 2 ^ 32 = fd mod 2 ^ 32"
    unfolding word_of_int_eq_iff by (simp add: take_bit_eq_mod)
  moreover have "fd mod 2 ^ 32 = (if 0 \<le> fd then fd else fd + 2 ^ 32)"
  proof (cases "0 \<le> fd")
    case False
    have "fd mod 2 ^ 32 = (fd + 2 ^ 32) mod 2 ^ 32" by simp
    also have "\<dots> = fd + 2 ^ 32" using False assms(1) by (intro mod_pos_pos_trivial) simp_all
    finally show ?thesis using False by simp
  qed (use assms(2) in simp)
  ultimately show "fd = int j" using assms by (simp split: if_splits)
qed simp

lemma slot_pos: "slot_ok i f \<Longrightarrow> pos f = (if usable f = 1 then of_nat i else 0)"
  by (auto simp: slot_ok_def zero_file_object_def)

lemma slot_inode: "slot_ok i f \<Longrightarrow> inode_ptr f = None \<longleftrightarrow> usable f \<noteq> 1"
  by (auto simp: slot_ok_def zero_file_object_def)

lemma lookup_fd_spec:
  assumes ok: "fds_ok k" and fd: "- (2 ^ 31) \<le> fd" "fd < 2 ^ 31"
  shows "lookup_fd k p fd =
    (if fd = 0 \<or> 0 < fd \<and> fd < int FD_TABLE_SIZE \<and> usable (fobj k 0 (nat fd)) = 1
     then Some (0, nat fd) else None)"
proof -
  let ?objs = "fd_table (p_fd_table k 0)" and ?w = "word_of_int fd :: 32 word"
  have pos: "pos (?objs j) = (if usable (?objs j) = 1 then of_nat j else 0)" if "j < FD_TABLE_SIZE" for j
    using slot_pos [OF fds_okD(2) [OF ok that]] .
  have w0: "0 = ?w \<longleftrightarrow> fd = 0" using word_of_int_fd [OF fd, of 0] by simp
  have eq: "pos (?objs j) = ?w \<longleftrightarrow> (if usable (?objs j) = 1 then fd = int j else fd = 0)"
    if "j < FD_TABLE_SIZE" for j
    using pos [OF that] word_of_int_fd [OF fd that] w0 by auto
  have "find_fobj ?objs ?w 0 FD_TABLE_SIZE =
     (if fd = 0 \<or> 0 < fd \<and> fd < int FD_TABLE_SIZE \<and> usable (?objs (nat fd)) = 1
      then Some (nat fd) else None)"
  proof (cases "fd = 0 \<or> 0 < fd \<and> fd < int FD_TABLE_SIZE \<and> usable (?objs (nat fd)) = 1")
    case True
    have "find_fobj ?objs ?w 0 FD_TABLE_SIZE = Some (nat fd)"
      by (rule ff.loop_hit) (use True eq in \<open>auto split: if_splits\<close>)
    then show ?thesis using True by simp
  next
    case False
    have "find_fobj ?objs ?w 0 FD_TABLE_SIZE = None"
      by (rule ff.loop_miss) (use False eq in \<open>auto split: if_splits\<close>)
    then show ?thesis using False by simp
  qed
  then show ?thesis by (simp add: lookup_fd_def get_fd_table_0 [OF ok])
qed

section \<open>Updates of one file object\<close>

lemma upd_fobj_simps [simp]:
  "upd_fobj (upd_fobj k t i f) t i g = upd_fobj k t i g"
  "fs (upd_fobj k t i f) = fs k" "read_buffer (upd_fobj k t i f) = read_buffer k"
  "fobj (upd_fobj k t i f) t' j = (if t' = t \<and> j = i then f else fobj k t' j)"
  "pid (p_fd_table (upd_fobj k t i f) t') = pid (p_fd_table k t')"
  by (auto simp: upd_fobj_def)

lemma upd_fobj_same: "upd_fobj k t i (fobj k t i) = k"
proof -
  have "(p_fd_table k)(t := (p_fd_table k t)\<lparr>fd_table := (fd_table (p_fd_table k t))(i := fobj k t i)\<rparr>)
      = p_fd_table k"
    by (rule ext) simp
  then show ?thesis by (simp add: upd_fobj_def)
qed

lemma fds_ok_upd: "fds_ok k \<Longrightarrow> slot_ok i f \<Longrightarrow> fds_ok (upd_fobj k 0 i f)"
  by (simp add: fds_ok_def)

lemma fds_ok_fs [simp]: "fds_ok (k\<lparr>fs := s\<rparr>) = fds_ok k" "fds_ok (k\<lparr>read_buffer := rb\<rparr>) = fds_ok k"
  by (simp_all add: fds_ok_def)

text \<open>A descriptor is valid when it is the position of a used file object; \<open>fd_node\<close> is
  the index node it was opened for.\<close>

definition valid_fd :: "kernel \<Rightarrow> int \<Rightarrow> bool" where
  "valid_fd k fd \<longleftrightarrow> 0 \<le> fd \<and> fd < int FD_TABLE_SIZE \<and> usable (fobj k 0 (nat fd)) = 1"

definition fd_node :: "kernel \<Rightarrow> int \<Rightarrow> nat" where
  "fd_node k fd = the (inode_ptr (fobj k 0 (nat fd)))"

lemma valid_fd_slot:
  assumes "fds_ok k" "valid_fd k fd"
  shows "inode_ptr (fobj k 0 (nat fd)) = Some (fd_node k fd)" "fd_node k fd < MAX_NUM_FILE"
    "usable (fobj k 0 (nat fd)) = 1" "pos (fobj k 0 (nat fd)) = of_nat (nat fd)"
proof -
  have "nat fd < FD_TABLE_SIZE" using assms(2) by (simp add: valid_fd_def nat_less_iff)
  from fds_okD(2) [OF assms(1) this] show "inode_ptr (fobj k 0 (nat fd)) = Some (fd_node k fd)"
    "fd_node k fd < MAX_NUM_FILE" "usable (fobj k 0 (nat fd)) = 1" "pos (fobj k 0 (nat fd)) = of_nat (nat fd)"
    using assms(2) by (auto simp: valid_fd_def slot_ok_def zero_file_object_def fd_node_def)
qed

text \<open>The preamble that \<^verbatim>\<open>rd_read\<close>, \<^verbatim>\<open>rd_write\<close>, \<^verbatim>\<open>rd_lseek\<close> and \<^verbatim>\<open>rd_close\<close> share.\<close>

lemma lookup_fd_valid:
  assumes "fds_ok k" "valid_fd k fd"
  shows "lookup_fd k p fd = Some (0, nat fd)"
proof -
  have "- (2 ^ 31) \<le> fd" "fd < 2 ^ 31" using assms(2) by (auto simp: valid_fd_def)
  from lookup_fd_spec [OF assms(1) this] show ?thesis using assms(2) by (auto simp: valid_fd_def)
qed

lemma lookup_fd_invalid:
  assumes "fds_ok k" "- (2 ^ 31) \<le> fd" "fd < 2 ^ 31" "\<not> valid_fd k fd"
  shows "lookup_fd k p fd = None \<or> (\<exists>i. lookup_fd k p fd = Some (0, i) \<and> fobj k 0 i = zero_file_object)"
proof (cases "fd = 0")
  case True
  then have "fobj k 0 0 = zero_file_object"
    using assms(4) fds_okD(2) [OF assms(1), of 0] by (auto simp: valid_fd_def slot_ok_def)
  then show ?thesis using True lookup_fd_spec [OF assms(1-3)] by simp
next
  case False
  then show ?thesis using lookup_fd_spec [OF assms(1-3)] assms(4) by (auto simp: valid_fd_def)
qed

section \<open>What the operations do\<close>

lemma fobj_overwrite:
  "f\<lparr>inode_ptr := a, usable := u, cursor := c, pos := q, status := st\<rparr>
     = \<lparr>inode_ptr = a, status = st, cursor = c, pos = q, usable = u\<rparr>"
  "f\<lparr>pos := q, usable := u, cursor := c, inode_ptr := a, status := st\<rparr>
     = \<lparr>inode_ptr = a, status = st, cursor = c, pos = q, usable = u\<rparr>"
  by simp_all

lemma sint_small: "i < 2 ^ 31 \<Longrightarrow> sint (of_nat i :: 32 word) = int i"
  by (simp add: signed_of_nat signed_take_bit_int_eq_self)

lemma create_file_object_spec:
  assumes "fds_ok k"
  shows "create_file_object k p =
    (if \<exists>i < FD_TABLE_SIZE. usable (fobj k 0 i) = 0
     then (let i = LEAST i. usable (fobj k 0 i) = 0
           in Some ((0, i), upd_fobj k 0 i ((fobj k 0 i)\<lparr>pos := of_nat i, usable := 1\<rparr>)))
     else None)"
  by (simp add: create_file_object_def get_fd_table_0 [OF assms] fu.loop_Least Let_def)

lemma rd_open_eq:
  assumes "fds_ok k" "pathname \<noteq> ''/''" "my_find_inode_number vm (fs k) pathname = Some (int n)"
    "n < MAX_NUM_FILE" "copy_path vm Path_Copy pathname = Some pathname"
  shows "rd_open vm k pathname flags p = Some
    (if access_denied flags (access (inodes (fs k) n)) \<or> (\<forall>i < FD_TABLE_SIZE. usable (fobj k 0 i) \<noteq> 0)
     then (-1, k)
     else (let i = LEAST i. usable (fobj k 0 i) = 0
           in (int i, upd_fobj k 0 i \<lparr>inode_ptr = Some n, status = flags, cursor = 0, pos = of_nat i, usable = 1\<rparr>)))"
proof (cases "\<exists>i < FD_TABLE_SIZE. usable (fobj k 0 i) = 0")
  case True
  define i where "i = (LEAST i. usable (fobj k 0 i) = 0)"
  from True obtain j where "j < FD_TABLE_SIZE" "usable (fobj k 0 j) = 0" by blast
  then have i: "i < FD_TABLE_SIZE" using Least_le [of "\<lambda>i. usable (fobj k 0 i) = 0" j] by (simp add: i_def)
  then have s: "sint (of_nat i :: 32 word) = int i" by (intro sint_small) simp
  show ?thesis
    using assms True s unfolding rd_open_def create_file_object_spec [OF assms(1)] i_def [symmetric]
    by (auto simp: get_inode_def Let_def i_def [symmetric] fobj_overwrite)
next
  case False
  then show ?thesis
    using assms unfolding rd_open_def create_file_object_spec [OF assms(1)]
    by (auto simp: get_inode_def)
qed

lemma rd_close_eq:
  assumes "fds_ok k" "- (2 ^ 31) \<le> fd" "fd < 2 ^ 31"
  shows "rd_close k fd p = Some
    (if valid_fd k fd \<and> itype (inodes (fs k) (fd_node k fd)) \<noteq> ''dir''
     then (0, upd_fobj k 0 (nat fd) zero_file_object) else (-1, k))"
proof (cases "valid_fd k fd")
  case True
  then show ?thesis
    using valid_fd_slot [OF assms(1) True] lookup_fd_valid [OF assms(1) True]
    by (simp add: rd_close_def get_inode_def zero_file_object_def Let_def fobj_overwrite)
next
  case False
  then show ?thesis
    using lookup_fd_invalid [OF assms False, of p] by (auto simp: rd_close_def zero_file_object_def Let_def)
qed

lemma rd_lseek_eq:
  assumes "fds_ok k" "- (2 ^ 31) \<le> fd" "fd < 2 ^ 31"
  shows "rd_lseek k fd offset p = Some
    (if valid_fd k fd \<and> itype (inodes (fs k) (fd_node k fd)) \<noteq> ''dir'' \<and> 0 \<le> offset
     then (let size = isize (inodes (fs k) (fd_node k fd));
               c = (if word_of_int offset < size then word_of_int offset else size - 1)
           in (sint c, upd_fobj k 0 (nat fd) ((fobj k 0 (nat fd))\<lparr>cursor := c\<rparr>)))
     else (-1, k))"
proof (cases "valid_fd k fd")
  case True
  then show ?thesis
    using valid_fd_slot [OF assms(1) True] lookup_fd_valid [OF assms(1) True]
    by (auto simp: rd_lseek_def get_inode_def Let_def not_le dest: leD)
next
  case False
  then show ?thesis
    using lookup_fd_invalid [OF assms False, of p] by (auto simp: rd_lseek_def zero_file_object_def Let_def)
qed

section \<open>Properties\<close>

lemma walk_range: "walk s n ts = Some r \<Longrightarrow> -1 \<le> r"
  by (induction s n ts rule: walk.induct) (auto simp: bind_eq_Some_conv split: if_splits)

lemma lookup_range: "my_find_inode_number vm s p = Some r \<Longrightarrow> r \<noteq> -1 \<Longrightarrow> r = int (nat r)"
  using walk_range by (fastforce simp: search_path_def dest: my_find_SomeD split: if_splits)

lemma copy_path_SomeD: "copy_path vm u path = Some p \<Longrightarrow> p = path"
  by (auto simp: copy_path_def bind_eq_Some_conv split: if_splits)

text \<open>How a successful open got there.\<close>

lemma rd_open_cases:
  assumes "fds_ok k" "rd_open vm k pathname flags p = Some (fd, k1)" "fd \<noteq> -1"
  obtains n i where "my_find_inode_number vm (fs k) pathname = Some (int n)" "n < MAX_NUM_FILE"
    "\<not> access_denied flags (access (inodes (fs k) n))"
    "i < FD_TABLE_SIZE" "fobj k 0 i = zero_file_object" "\<forall>j < i. usable (fobj k 0 j) \<noteq> 0" "fd = int i"
    "k1 = upd_fobj k 0 i \<lparr>inode_ptr = Some n, status = flags, cursor = 0, pos = of_nat i, usable = 1\<rparr>"
proof -
  from assms(2,3) obtain r where r: "pathname \<noteq> ''/''" "my_find_inode_number vm (fs k) pathname = Some r"
    "r \<noteq> -1" "nat r < MAX_NUM_FILE" "copy_path vm Path_Copy pathname = Some pathname"
    by (auto simp: rd_open_def bind_eq_Some_conv get_inode_def dest: copy_path_SomeD split: if_splits)
  define n where "n = nat r"
  have n: "my_find_inode_number vm (fs k) pathname = Some (int n)" "n < MAX_NUM_FILE"
    using lookup_range [OF r(2,3)] r by (simp_all add: n_def)
  define i where "i = (LEAST i. usable (fobj k 0 i) = 0)"
  have op: "\<not> access_denied flags (access (inodes (fs k) n))"
    "\<exists>i < FD_TABLE_SIZE. usable (fobj k 0 i) = 0" "fd = int i"
    "k1 = upd_fobj k 0 i \<lparr>inode_ptr = Some n, status = flags, cursor = 0, pos = of_nat i, usable = 1\<rparr>"
    using assms(2,3) rd_open_eq [OF assms(1) r(1) n r(5), of flags p]
    by (auto simp: i_def Let_def split: if_splits)
  have i: "i < FD_TABLE_SIZE" "usable (fobj k 0 i) = 0" "\<forall>j < i. usable (fobj k 0 j) \<noteq> 0"
    using bounded_Least [OF op(2)] unfolding i_def by blast+
  then have "fobj k 0 i = zero_file_object"
    using fds_okD(2) [OF assms(1) i(1)] by (auto simp: slot_ok_def)
  then show thesis using that n op i by blast
qed

definition sample_kernel :: kernel where
  "sample_kernel = \<lparr>fs = sample_fs,
     p_fd_table = (\<lambda>_. \<lparr>pid = 0, fd_table = (\<lambda>_. zero_file_object)\<rparr>), read_buffer = (\<lambda>_. NUL)\<rparr>"

lemma sample_kernel_ok [simp]: "fds_ok sample_kernel" "fs sample_kernel = sample_fs"
  "fobj sample_kernel t i = zero_file_object"
  by (simp_all add: fds_ok_def slot_ok_def sample_kernel_def zero_file_object_def)

lemma sample_open:
  "rd_open zero_vm sample_kernel ''/f'' RW p = Some (0, upd_fobj sample_kernel 0 0
     \<lparr>inode_ptr = Some 1, status = RW, cursor = 0, pos = 0, usable = 1\<rparr>)"
proof -
  have "my_find_inode_number zero_vm (fs sample_kernel) ''/f'' = Some (int 1)"
    by (simp add: sample_lookup)
  from rd_open_eq [OF sample_kernel_ok(1) _ this _ copy_path_served, of RW p] show ?thesis
    by (auto simp: access_denied_def sample_file_def zero_file_object_def zero_inode_def
        intro: exI [of _ 0])
qed

text \<open>C37: \<^verbatim>\<open>rd_open\<close> returns the lowest unused descriptor.  When it does not return \<open>-1\<close>,
  the path names an index node that the mode in \<open>flags\<close> may open, the descriptor is the
  position of the first unused file object, that object is set up with cursor 0, the
  flags and the index node, and nothing else changes.\<close>

theorem rd_open_lowest:
  assumes "fds_ok k" "rd_open vm k pathname flags p = Some (fd, k1)" "fd \<noteq> -1"
  shows "\<exists>n < MAX_NUM_FILE. my_find_inode_number vm (fs k) pathname = Some (int n)
    \<and> \<not> access_denied flags (access (inodes (fs k) n))
    \<and> 0 \<le> fd \<and> fd < int FD_TABLE_SIZE \<and> usable (fobj k 0 (nat fd)) = 0
    \<and> (\<forall>j < nat fd. usable (fobj k 0 j) \<noteq> 0)
    \<and> k1 = upd_fobj k 0 (nat fd)
        \<lparr>inode_ptr = Some n, status = flags, cursor = 0, pos = of_nat (nat fd), usable = 1\<rparr>"
proof -
  obtain n i where "my_find_inode_number vm (fs k) pathname = Some (int n)" "n < MAX_NUM_FILE"
    "\<not> access_denied flags (access (inodes (fs k) n))"
    "i < FD_TABLE_SIZE" "fobj k 0 i = zero_file_object" "\<forall>j < i. usable (fobj k 0 j) \<noteq> 0" "fd = int i"
    "k1 = upd_fobj k 0 i \<lparr>inode_ptr = Some n, status = flags, cursor = 0, pos = of_nat i, usable = 1\<rparr>"
    using rd_open_cases [OF assms] by metis
  then show ?thesis by (intro exI [of _ n]) (simp add: zero_file_object_def)
qed

theorem rd_open_lowest_witness:
  "\<exists>k1. rd_open zero_vm sample_kernel ''/f'' RW 7 = Some (0, k1) \<and> usable (fobj sample_kernel 0 0) = 0"
  using rd_open_lowest [OF sample_kernel_ok(1) sample_open [of 7]] sample_open [of 7] by auto

text \<open>Closing undoes opening.  If \<^verbatim>\<open>rd_open\<close> returned a descriptor of a file that is not
  a directory, \<^verbatim>\<open>rd_close\<close> of that descriptor, from any process, returns 0 and restores
  exactly the state before the open.\<close>

theorem rd_close_undoes_open:
  assumes "fds_ok k" "rd_open vm k pathname flags p = Some (fd, k1)" "fd \<noteq> -1"
    "itype (inodes (fs k1) (fd_node k1 fd)) \<noteq> ''dir''"
  shows "rd_close k1 fd q = Some (0, k)"
proof -
  obtain n i where n: "n < MAX_NUM_FILE" "i < FD_TABLE_SIZE" "fobj k 0 i = zero_file_object" "fd = int i"
    "k1 = upd_fobj k 0 i \<lparr>inode_ptr = Some n, status = flags, cursor = 0, pos = of_nat i, usable = 1\<rparr>"
    using rd_open_cases [OF assms(1-3)] by metis
  have ok: "fds_ok k1" unfolding n(5) using n(1) by (intro fds_ok_upd assms(1)) (auto simp: slot_ok_def)
  have "valid_fd k1 fd" using n by (simp add: valid_fd_def)
  then have "rd_close k1 fd q = Some (0, upd_fobj k1 0 i zero_file_object)"
    using rd_close_eq [OF ok, of fd q] n(2,4) assms(4) by simp
  then show ?thesis using n(3,5) upd_fobj_same [of k 0 i] by simp
qed

theorem rd_close_undoes_open_witness:
  "\<exists>k1. rd_open zero_vm sample_kernel ''/f'' RW 7 = Some (0, k1) \<and> rd_close k1 0 8 = Some (0, sample_kernel)"
  using rd_close_undoes_open [OF sample_kernel_ok(1) sample_open [of 7], of 8] sample_open [of 7]
  by (simp add: fd_node_def sample_file_def)

text \<open>\<^verbatim>\<open>rd_lseek\<close> on a file that has bytes.  For a non-negative offset and a size up to
  \<open>2^31\<close> it returns the smaller of the offset and the position of the last byte, and
  the cursor is that position, which lies inside the file.\<close>

theorem rd_lseek_inside:
  assumes "fds_ok k" "valid_fd k fd" "itype (inodes (fs k) (fd_node k fd)) \<noteq> ''dir''"
    "0 < isize (inodes (fs k) (fd_node k fd))" "isize (inodes (fs k) (fd_node k fd)) \<le> 2 ^ 31"
    "0 \<le> offset" "offset < 2 ^ 31"
  shows "\<exists>r k1. rd_lseek k fd offset p = Some (r, k1)
    \<and> r = min offset (uint (isize (inodes (fs k) (fd_node k fd))) - 1) \<and> fs k1 = fs k
    \<and> uint (cursor (fobj k1 0 (nat fd))) = r
    \<and> (\<forall>i. i \<noteq> nat fd \<longrightarrow> fobj k1 0 i = fobj k 0 i)"
proof -
  define size where "size = isize (inodes (fs k) (fd_node k fd))"
  define c where "c = (if word_of_int offset < size then word_of_int offset else size - 1)"
  have fd: "- (2 ^ 31) \<le> fd" "fd < 2 ^ 31" using assms(2) by (auto simp: valid_fd_def)
  have "rd_lseek k fd offset p = Some (sint c, upd_fobj k 0 (nat fd) ((fobj k 0 (nat fd))\<lparr>cursor := c\<rparr>))"
    using rd_lseek_eq [OF assms(1) fd] assms(2,3,6) by (simp add: c_def size_def Let_def)
  moreover have off: "uint (word_of_int offset :: 32 word) = offset"
    using assms(6,7) by (simp add: uint_word_of_int)
  have last: "uint (size - 1) = uint size - 1"
    using assms(4) uint_sub_lem [of 1 size] by (simp add: size_def word_less_def)
  have bound: "uint size \<le> 2 ^ 31" using assms(5) by (simp add: size_def word_le_def)
  have c: "uint c = min offset (uint size - 1)"
    using off last by (auto simp: c_def word_less_def)
  moreover have "sint c = uint c"
  proof -
    have "int (unat c) < int (2 ^ 31)" using c bound by simp
    then have "unat c < 2 ^ 31" by (simp only: of_nat_less_iff)
    from sint_small [OF this] show ?thesis by simp
  qed
  ultimately show ?thesis by (auto simp: size_def)
qed

text \<open>On an empty file \<^verbatim>\<open>rd_lseek\<close> returns \<open>-1\<close>, its error code, but moves the cursor to
  \<open>2^32 - 1\<close>, because \<^verbatim>\<open>file_size - 1\<close> wraps.\<close>

theorem rd_lseek_empty:
  assumes "fds_ok k" "valid_fd k fd" "itype (inodes (fs k) (fd_node k fd)) \<noteq> ''dir''"
    "isize (inodes (fs k) (fd_node k fd)) = 0" "0 \<le> offset"
  shows "rd_lseek k fd offset p =
    Some (-1, upd_fobj k 0 (nat fd) ((fobj k 0 (nat fd))\<lparr>cursor := - 1\<rparr>))"
proof -
  have fd: "- (2 ^ 31) \<le> fd" "fd < 2 ^ 31" using assms(2) by (auto simp: valid_fd_def)
  show ?thesis using rd_lseek_eq [OF assms(1) fd, of offset p] assms(2-5) by simp
qed

definition sample_opened :: kernel where
  "sample_opened = upd_fobj sample_kernel 0 0
     \<lparr>inode_ptr = Some 1, status = RW, cursor = 0, pos = 0, usable = 1\<rparr>"

lemma sample_opened_ok [simp]: "fds_ok sample_opened" "valid_fd sample_opened 0"
  "fd_node sample_opened 0 = 1" "fs sample_opened = sample_fs"
  unfolding sample_opened_def
  by (auto intro: fds_ok_upd simp: slot_ok_def valid_fd_def fd_node_def)

theorem rd_lseek_empty_witness:
  "\<exists>k1. rd_lseek sample_opened 0 5 7 = Some (-1, k1) \<and> cursor (fobj k1 0 0) = 0xFFFFFFFF"
  using rd_lseek_empty [OF sample_opened_ok(1,2), of 5 7] by (simp add: sample_file_def zero_inode_def)

definition sample_sized :: kernel where
  "sample_sized = sample_opened\<lparr>fs := set_inode sample_fs 1 (sample_file\<lparr>isize := 3\<rparr>)\<rparr>"

lemma sample_sized_ok [simp]: "fds_ok sample_sized" "valid_fd sample_sized 0"
  "fd_node sample_sized 0 = 1" "inodes (fs sample_sized) (Suc 0) = sample_file\<lparr>isize := 3\<rparr>"
  using sample_opened_ok by (auto simp: sample_sized_def valid_fd_def fd_node_def simp del: sample_opened_ok)

theorem rd_lseek_inside_witness:
  "\<exists>k1. rd_lseek sample_sized 0 5 7 = Some (2, k1) \<and> uint (cursor (fobj k1 0 0)) = 2"
  using rd_lseek_inside [OF sample_sized_ok(1,2), of 5 7] by (auto simp: sample_file_def)

text \<open>A directory can be opened but never closed: \<^verbatim>\<open>rd_close\<close> of a descriptor of a
  directory returns \<open>-1\<close> and changes nothing, so the file object stays in use.\<close>

theorem rd_close_directory:
  assumes "fds_ok k" "valid_fd k fd" "itype (inodes (fs k) (fd_node k fd)) = ''dir''"
  shows "rd_close k fd p = Some (-1, k)"
proof -
  have fd: "- (2 ^ 31) \<le> fd" "fd < 2 ^ 31" using assms(2) by (auto simp: valid_fd_def)
  show ?thesis using rd_close_eq [OF assms(1) fd, of p] assms(3) by simp
qed

theorem rd_close_directory_witness:
  "rd_close (sample_opened\<lparr>fs := set_inode sample_fs 1 sample_root\<rparr>) 0 7
     = Some (-1, sample_opened\<lparr>fs := set_inode sample_fs 1 sample_root\<rparr>)"
  using sample_opened_ok
  by (intro rd_close_directory) (auto simp: valid_fd_def fd_node_def sample_root_def simp del: sample_opened_ok)

text \<open>All processes share one descriptor table: \<^verbatim>\<open>get_fd_table\<close> hands out the entry with
  pid 0 and never stores the new pid in it, so whatever the pid, a descriptor means the
  file object it means for any other process.\<close>

theorem descriptors_shared:
  assumes "fds_ok k"
  shows "lookup_fd k p fd = lookup_fd k q fd \<and> get_fd_table (p_fd_table k) p = Some 0"
  using get_fd_table_0 [OF assms] by (simp_all add: lookup_fd_def)

theorem descriptors_shared_witness:
  "lookup_fd sample_opened 7 0 = lookup_fd sample_opened 8 0 \<and> lookup_fd sample_opened 8 0 = Some (0, 0)"
  using descriptors_shared [OF sample_opened_ok(1), of 7 0 8] lookup_fd_valid [OF sample_opened_ok(1,2)]
  by simp

end
