(* ===== verification/ReadWrite.thy ===== *)
theory ReadWrite
  imports FileTable
begin

text \<open>
  \<^verbatim>\<open>rd_write\<close> and \<^verbatim>\<open>rd_read\<close> of \<^verbatim>\<open>kernelspace/discos.c\<close>.  Both go through the direct,
  the single indirect and the double indirect blocks in three stages.  The state of a
  transfer is the cursor of the file object and the number of bytes moved so far; the
  data to write is the list of the bytes at the caller's address, and reading past its
  end is undefined.
\<close>

section \<open>Writing\<close>

definition data_at :: "string \<Rightarrow> nat \<Rightarrow> char option" where
  "data_at buf i = (if i < length buf then Some (buf ! i) else None)"

text \<open>One block, from position \<open>j\<close>, with \<open>m\<close> positions left: a NUL in the data is not
  written and not skipped.  The boolean says whether the last byte was written.\<close>

fun write_block ::
  "filesys_struct \<Rightarrow> nat \<Rightarrow> ptr \<Rightarrow> string \<Rightarrow> int \<Rightarrow> nat \<Rightarrow> nat \<Rightarrow> 32 word \<Rightarrow> nat
     \<Rightarrow> (bool \<times> 32 word \<times> nat \<times> filesys_struct) option" where
  "write_block s node block buf num_bytes j 0 cur written = Some (False, cur, written, s)"
| "write_block s node block buf num_bytes j (Suc m) cur written = do {
     c \<leftarrow> data_at buf written;
     if c \<noteq> NUL then do {
       s1 \<leftarrow> store_char s (ptr_off s block + j) c;
       let s2 = set_inode s1 node ((inodes s1 node)\<lparr>isize := isize (inodes s1 node) + 1\<rparr>);
       if int (written + 1) = num_bytes then Some (True, cur + 1, written + 1, s2)
       else write_block s2 node block buf num_bytes (Suc j) m (cur + 1) (written + 1)
     }
     else write_block s node block buf num_bytes (Suc j) m cur written
   }"

text \<open>The three loops over blocks: on \<open>Return r\<close> the C function returns \<open>r\<close>.\<close>

fun write_direct ::
  "filesys_struct \<Rightarrow> nat \<Rightarrow> string \<Rightarrow> int \<Rightarrow> nat \<Rightarrow> nat \<Rightarrow> nat \<Rightarrow> 32 word \<Rightarrow> nat
     \<Rightarrow> (int ctl \<times> 32 word \<times> nat \<times> filesys_struct) option" where
  "write_direct s node buf num_bytes offset i 0 cur written = Some (Fall, cur, written, s)"
| "write_direct s node buf num_bytes offset i (Suc n) cur written =
     (let free_block_num = get_free_block_num_from_bitmap s in
      if pointers (inodes s node) i = 0 \<and> free_block_num = -1
      then Some (Return (-1), cur, written, s)
      else do {
        s1 \<leftarrow> (if pointers (inodes s node) i = 0
              then do {
                (q, s') \<leftarrow> allocate_data_block s free_block_num;
                let ino = inodes s' node;
                Some (set_inode s' node (ino\<lparr>pointers := (pointers ino)(i := q)\<rparr>))
              }
              else Some s);
        (finished, cur1, written1, s2) \<leftarrow>
          write_block s1 node (pointers (inodes s1 node) i) buf num_bytes offset
            (BLOCK_SIZE - offset) cur written;
        if finished then Some (Return (int written1), cur1, written1, s2)
        else write_direct s2 node buf num_bytes offset (Suc i) n cur1 written1
      })"

fun write_index ::
  "filesys_struct \<Rightarrow> nat \<Rightarrow> ptr \<Rightarrow> string \<Rightarrow> int \<Rightarrow> nat \<Rightarrow> nat \<Rightarrow> nat \<Rightarrow> 32 word \<Rightarrow> nat
     \<Rightarrow> (int ctl \<times> 32 word \<times> nat \<times> filesys_struct) option" where
  "write_index s node single_indirect buf num_bytes offset i 0 cur written =
     Some (Fall, cur, written, s)"
| "write_index s node single_indirect buf num_bytes offset i (Suc n) cur written = do {
     block \<leftarrow> load_index s single_indirect i;
     let free_block_num = get_free_block_num_from_bitmap s;
     if block = 0 \<and> free_block_num = -1 then Some (Return (-1), cur, written, s)
     else do {
       (block1, s1) \<leftarrow>
         (if block = 0
          then do {
            (q, s') \<leftarrow> allocate_data_block s free_block_num;
            s'' \<leftarrow> store_index s' single_indirect i q;
            b \<leftarrow> load_index s'' single_indirect i;
            Some (b, s'')
          }
          else Some (block, s));
       (finished, cur1, written1, s2) \<leftarrow>
         write_block s1 node block1 buf num_bytes offset (BLOCK_SIZE - offset) cur written;
       if finished then Some (Return (int written1), cur1, written1, s2)
       else write_index s2 node single_indirect buf num_bytes offset (Suc i) n cur1 written1
     }
   }"

text \<open>The double indirect loop starts at index 0 whatever the position is, and divides
  \<open>seg\<close> by 64 in every iteration.\<close>

fun write_double ::
  "filesys_struct \<Rightarrow> nat \<Rightarrow> ptr \<Rightarrow> string \<Rightarrow> int \<Rightarrow> nat \<Rightarrow> nat \<Rightarrow> nat \<Rightarrow> nat \<Rightarrow> 32 word \<Rightarrow> nat
     \<Rightarrow> (int ctl \<times> nat \<times> 32 word \<times> nat \<times> filesys_struct) option" where
  "write_double s node double_indirect buf num_bytes offset seg i 0 cur written =
     Some (Fall, seg, cur, written, s)"
| "write_double s node double_indirect buf num_bytes offset seg i (Suc n) cur written = do {
     single_indirect \<leftarrow> load_index s double_indirect i;
     let free_block_num = get_free_block_num_from_bitmap s;
     if single_indirect = 0 \<and> free_block_num = -1 then Some (Return (-1), seg, cur, written, s)
     else do {
       (single1, s1) \<leftarrow>
         (if single_indirect = 0
          then do {
            (q, s') \<leftarrow> allocate_data_block s free_block_num;
            s'' \<leftarrow> store_index s' (double_indirect_ptrs (inodes s' node)) i q;
            b \<leftarrow> load_index s'' (double_indirect_ptrs (inodes s'' node)) i;
            Some (b, s'')
          }
          else Some (single_indirect, s));
       let seg1 = seg div 64;
       (r, cur1, written1, s2) \<leftarrow>
         write_index s1 node single1 buf num_bytes offset seg1 (PTRS_PER_BLOCK - seg1) cur written;
       (case r of
          Return v \<Rightarrow> Some (Return v, seg1, cur1, written1, s2)
        | Fall \<Rightarrow> write_double s2 node double_indirect buf num_bytes offset seg1 (Suc i) n cur1 written1)
     }
   }"

definition write_single_stage ::
  "filesys_struct \<Rightarrow> nat \<Rightarrow> string \<Rightarrow> int \<Rightarrow> nat \<Rightarrow> nat \<Rightarrow> 32 word \<Rightarrow> nat
     \<Rightarrow> (int ctl \<times> 32 word \<times> nat \<times> filesys_struct) option" where
  "write_single_stage s node buf num_bytes seg offset cur written =
     (let free_block_num = get_free_block_num_from_bitmap s in
      if single_indirect_ptrs (inodes s node) = 0 \<and> free_block_num = -1
      then Some (Return (-1), cur, written, s)
      else do {
        s1 \<leftarrow> (if single_indirect_ptrs (inodes s node) = 0
              then do {
                (q, s') \<leftarrow> allocate_data_block s free_block_num;
                Some (set_inode s' node ((inodes s' node)\<lparr>single_indirect_ptrs := q\<rparr>))
              }
              else Some s);
        write_index s1 node (single_indirect_ptrs (inodes s1 node)) buf num_bytes offset
          (seg - 8) (PTRS_PER_BLOCK - (seg - 8)) cur written
      })"

definition write_double_stage ::
  "filesys_struct \<Rightarrow> nat \<Rightarrow> string \<Rightarrow> int \<Rightarrow> nat \<Rightarrow> nat \<Rightarrow> 32 word \<Rightarrow> nat
     \<Rightarrow> (int ctl \<times> nat \<times> 32 word \<times> nat \<times> filesys_struct) option" where
  "write_double_stage s node buf num_bytes seg offset cur written =
     (let free_block_num = get_free_block_num_from_bitmap s in
      if double_indirect_ptrs (inodes s node) = 0 \<and> free_block_num = -1
      then Some (Return (-1), seg, cur, written, s)
      else do {
        s1 \<leftarrow> (if double_indirect_ptrs (inodes s node) = 0
              then do {
                (q, s') \<leftarrow> allocate_data_block s free_block_num;
                Some (set_inode s' node ((inodes s' node)\<lparr>double_indirect_ptrs := q\<rparr>))
              }
              else Some s);
        write_double s1 node (double_indirect_ptrs (inodes s1 node)) buf num_bytes offset
          (seg - 8 - 64) 0 PTRS_PER_BLOCK cur written
      })"

text \<open>The three stages in order; between them the position is recomputed from the size of
  the file, not from the cursor.\<close>

definition write_stages ::
  "filesys_struct \<Rightarrow> nat \<Rightarrow> string \<Rightarrow> int \<Rightarrow> 32 word \<Rightarrow> (int \<times> 32 word \<times> filesys_struct) option" where
  "write_stages s node buf num_bytes cur = do {
     let seg = unat cur div BLOCK_SIZE;
     (r1, cur1, w1, s1) \<leftarrow>
       write_direct s node buf num_bytes (unat cur mod BLOCK_SIZE) seg
         (INODE_NUM_DIRECT_PTR - seg) cur 0;
     (case r1 of
        Return v \<Rightarrow> Some (v, cur1, s1)
      | Fall \<Rightarrow> do {
          let seg1 = unat (isize (inodes s1 node)) div BLOCK_SIZE;
          (r2, cur2, w2, s2) \<leftarrow>
            (if 8 \<le> seg1 \<and> seg1 < 8 + 64
             then write_single_stage s1 node buf num_bytes seg1
                    (unat (isize (inodes s1 node)) mod BLOCK_SIZE) cur1 w1
             else Some (Fall, cur1, w1, s1));
          (case r2 of
             Return v \<Rightarrow> Some (v, cur2, s2)
           | Fall \<Rightarrow> do {
               let seg2 = unat (isize (inodes s2 node)) div BLOCK_SIZE;
               (r3, seg3, cur3, w3, s3) \<leftarrow>
                 (if 8 + 64 \<le> seg2 \<and> seg2 < 8 + 64 + 64 * 64
                  then write_double_stage s2 node buf num_bytes seg2
                         (unat (isize (inodes s2 node)) mod BLOCK_SIZE) cur2 w2
                  else Some (Fall, seg2, cur2, w2, s2));
               (case r3 of
                  Return v \<Rightarrow> Some (v, cur3, s3)
                | Fall \<Rightarrow> Some (if 8 + 64 + 64 * 64 \<le> seg3 then int w3 else 0, cur3, s3))
             })
        })
   }"

definition rd_write :: "kernel \<Rightarrow> int \<Rightarrow> int \<Rightarrow> string \<Rightarrow> int \<Rightarrow> (int \<times> kernel) option" where
  "rd_write k fd p buf num_bytes =
     (case lookup_fd k p fd of
        None \<Rightarrow> Some (-1, k)
      | Some (t, i) \<Rightarrow>
          (let f_obj = fobj k t i in
           case inode_ptr f_obj of
             None \<Rightarrow> Some (-1, k)
           | Some n \<Rightarrow> do {
               inode \<leftarrow> get_inode (fs k) n;
               if itype inode = ''dir'' then Some (-1, k)
               else if access inode = RD \<or> status f_obj = RD then Some (-1, k)
               else do {
                 (r, cur, s) \<leftarrow> write_stages (fs k) n buf num_bytes (cursor f_obj);
                 Some (r, upd_fobj (k\<lparr>fs := s\<rparr>) t i (f_obj\<lparr>cursor := cur\<rparr>))
               }
             }))"

section \<open>Reading\<close>

text \<open>One block: every byte that is not NUL is appended to \<^verbatim>\<open>read_buffer\<close>; the loop stops
  when the requested number is reached.\<close>

fun read_block ::
  "filesys_struct \<Rightarrow> ptr \<Rightarrow> int \<Rightarrow> nat \<Rightarrow> nat \<Rightarrow> 32 word \<Rightarrow> nat \<Rightarrow> (nat \<Rightarrow> char)
     \<Rightarrow> (32 word \<times> nat \<times> (nat \<Rightarrow> char)) option" where
  "read_block s block to_read j 0 cur n_read rb = Some (cur, n_read, rb)"
| "read_block s block to_read j (Suc m) cur n_read rb = do {
     c \<leftarrow> load_char s (ptr_off s block + j);
     if c \<noteq> NUL then
       (if n_read < READ_BUFFER_SIZE then
          (let rb1 = rb(n_read := c) in
           if int (n_read + 1) = to_read then Some (cur + 1, n_read + 1, rb1)
           else read_block s block to_read (Suc j) m (cur + 1) (n_read + 1) rb1)
        else None)
     else read_block s block to_read (Suc j) m cur n_read rb
   }"

fun read_direct ::
  "filesys_struct \<Rightarrow> inode_struct \<Rightarrow> int \<Rightarrow> nat \<Rightarrow> nat \<Rightarrow> nat \<Rightarrow> 32 word \<Rightarrow> nat \<Rightarrow> (nat \<Rightarrow> char)
     \<Rightarrow> (32 word \<times> nat \<times> (nat \<Rightarrow> char)) option" where
  "read_direct s ino to_read offset i 0 cur n_read rb = Some (cur, n_read, rb)"
| "read_direct s ino to_read offset i (Suc n) cur n_read rb = do {
     (cur1, n1, rb1) \<leftarrow>
       (if pointers ino i \<noteq> 0
        then read_block s (pointers ino i) to_read offset (BLOCK_SIZE - offset) cur n_read rb
        else Some (cur, n_read, rb));
     if int n1 = to_read then Some (cur1, n1, rb1)
     else read_direct s ino to_read offset (Suc i) n cur1 n1 rb1
   }"

fun read_index ::
  "filesys_struct \<Rightarrow> ptr \<Rightarrow> int \<Rightarrow> nat \<Rightarrow> nat \<Rightarrow> nat \<Rightarrow> 32 word \<Rightarrow> nat \<Rightarrow> (nat \<Rightarrow> char)
     \<Rightarrow> (32 word \<times> nat \<times> (nat \<Rightarrow> char)) option" where
  "read_index s idx to_read offset i 0 cur n_read rb = Some (cur, n_read, rb)"
| "read_index s idx to_read offset i (Suc n) cur n_read rb = do {
     block \<leftarrow> load_index s idx i;
     (cur1, n1, rb1) \<leftarrow>
       (if block \<noteq> 0
        then read_block s block to_read offset (BLOCK_SIZE - offset) cur n_read rb
        else Some (cur, n_read, rb));
     if int n1 = to_read then Some (cur1, n1, rb1)
     else read_index s idx to_read offset (Suc i) n cur1 n1 rb1
   }"

fun read_double ::
  "filesys_struct \<Rightarrow> ptr \<Rightarrow> int \<Rightarrow> nat \<Rightarrow> nat \<Rightarrow> nat \<Rightarrow> nat \<Rightarrow> 32 word \<Rightarrow> nat \<Rightarrow> (nat \<Rightarrow> char)
     \<Rightarrow> (32 word \<times> nat \<times> (nat \<Rightarrow> char)) option" where
  "read_double s dbl to_read offset seg i 0 cur n_read rb = Some (cur, n_read, rb)"
| "read_double s dbl to_read offset seg i (Suc n) cur n_read rb = do {
     single_indirect \<leftarrow> load_index s dbl i;
     let seg1 = (if single_indirect \<noteq> 0 then seg div 64 else seg);
     (cur1, n1, rb1) \<leftarrow>
       (if single_indirect \<noteq> 0
        then read_index s single_indirect to_read offset seg1 (PTRS_PER_BLOCK - seg1) cur n_read rb
        else Some (cur, n_read, rb));
     if int n1 = to_read then Some (cur1, n1, rb1)
     else read_double s dbl to_read offset seg1 (Suc i) n cur1 n1 rb1
   }"

definition read_stages ::
  "filesys_struct \<Rightarrow> inode_struct \<Rightarrow> int \<Rightarrow> 32 word \<Rightarrow> (nat \<Rightarrow> char)
     \<Rightarrow> (32 word \<times> nat \<times> (nat \<Rightarrow> char)) option" where
  "read_stages s ino to_read cur rb = do {
     let seg = unat cur div BLOCK_SIZE;
     (cur1, n1, rb1) \<leftarrow>
       read_direct s ino to_read (unat cur mod BLOCK_SIZE) seg (INODE_NUM_DIRECT_PTR - seg) cur 0 rb;
     let seg1 = unat cur1 div BLOCK_SIZE;
     (cur2, n2, rb2) \<leftarrow>
       (if int n1 < to_read \<and> 8 \<le> seg1 \<and> seg1 < 8 + 64 \<and> single_indirect_ptrs ino \<noteq> 0
        then read_index s (single_indirect_ptrs ino) to_read (unat cur1 mod BLOCK_SIZE)
               (seg1 - 8) (PTRS_PER_BLOCK - (seg1 - 8)) cur1 n1 rb1
        else Some (cur1, n1, rb1));
     let seg2 = unat cur2 div BLOCK_SIZE;
     if int n2 < to_read \<and> 8 + 64 \<le> seg2 \<and> seg2 < 8 + 64 + 64 * 64 \<and> double_indirect_ptrs ino \<noteq> 0
     then read_double s (double_indirect_ptrs ino) to_read (unat cur2 mod BLOCK_SIZE)
            (seg2 - 8 - 64) 0 PTRS_PER_BLOCK cur2 n2 rb2
     else Some (cur2, n2, rb2)
   }"

text \<open>The copy loop hands \<^verbatim>\<open>read_buffer\<close> to \<^verbatim>\<open>copy_to_user\<close> in chunks of at most 4096 bytes;
  the result is the list of those calls, each the offset from the user address and the
  bytes.\<close>

function copy_chunks :: "(nat \<Rightarrow> char) \<Rightarrow> nat \<Rightarrow> int \<Rightarrow> (nat \<times> string) list" where
  "copy_chunks rb src left =
     (if left > 4096
      then (src, map rb [src..<src + 4096]) # copy_chunks rb (src + 4096) (left - 4096)
      else [(src, map rb [src..<src + nat left])])"
  by pat_completeness auto
termination
  by (relation "measure (\<lambda>(rb, src, left). nat left)") auto

declare copy_chunks.simps [simp del]

text \<open>\<^verbatim>\<open>memset(read_buffer, 0, sizeof(bytes_to_read))\<close> clears the first four bytes only.
  Handing \<^verbatim>\<open>copy_to_user\<close> a negative count, or more than \<^verbatim>\<open>read_buffer\<close> holds, is
  undefined.\<close>

definition rd_read :: "kernel \<Rightarrow> int \<Rightarrow> int \<Rightarrow> int \<Rightarrow> (int \<times> (nat \<times> string) list \<times> kernel) option" where
  "rd_read k fd num_bytes p =
     (case lookup_fd k p fd of
        None \<Rightarrow> Some (-1, [], k)
      | Some (t, i) \<Rightarrow>
          (let f_obj = fobj k t i in
           case inode_ptr f_obj of
             None \<Rightarrow> Some (-1, [], k)
           | Some n \<Rightarrow>
               if usable f_obj \<noteq> 1 then Some (-1, [], k)
               else do {
                 inode \<leftarrow> get_inode (fs k) n;
                 if itype inode = ''dir'' then Some (-1, [], k)
                 else if word_of_int num_bytes > isize inode - cursor f_obj then Some (-1, [], k)
                 else do {
                   let rb0 = upd_region (read_buffer k) 0 (replicate 4 NUL);
                   (cur, n_read, rb) \<leftarrow> read_stages (fs k) inode num_bytes (cursor f_obj) rb0;
                   if num_bytes < 0 \<or> num_bytes > int READ_BUFFER_SIZE then None
                   else Some (int n_read, copy_chunks rb 0 num_bytes,
                          upd_fobj (k\<lparr>read_buffer := rb\<rparr>) t i (f_obj\<lparr>cursor := cur\<rparr>))
                 }
               }))"

end
