(* ===== verification/WriteInv.thy ===== *)
theory WriteInv
  imports ReadWrite BlockInv
begin

text \<open>
  \<^verbatim>\<open>rd_write\<close> never leaves the ram disk: from a well-formed partition, with a positive
  byte count and as many bytes at the caller's address, every stage returns, keeps the
  partition well formed, and is a step of the written file's index node only.
\<close>

section \<open>One byte and one block\<close>

text \<open>A change inside a data block of node \<open>n\<close> (and of its size).\<close>

lemma data_update_step:
  assumes wf: "wf_blocks s" and l: "valid_loc l" "\<not> index_loc l" "node_of l = n"
    and c: "c < DATA_BLOCKS_NUM" "ptr_at s l = blk_addr s c"
    and fields: "discos_addr s' = discos_addr s" "free_inodes s' = free_inodes s"
      "bitmap s' = bitmap s" "free_blocks s' = free_blocks s"
    and data: "\<And>x. x div BLOCK_SIZE \<noteq> c \<Longrightarrow> data_blocks s' x = data_blocks s x"
    and inds: "\<And>m. m \<noteq> n \<Longrightarrow> inodes s' m = inodes s m"
    and ino: "itype (inodes s' n) = itype (inodes s n)" "access (inodes s' n) = access (inodes s n)"
      "pointers (inodes s' n) = pointers (inodes s n)"
      "single_indirect_ptrs (inodes s' n) = single_indirect_ptrs (inodes s n)"
      "double_indirect_ptrs (inodes s' n) = double_indirect_ptrs (inodes s n)"
  shows "wf_blocks s'" "node_step n s s'" "\<And>l'. valid_loc l' \<Longrightarrow> ptr_at s' l' = ptr_at s l'"
proof -
  have ptrs: "pointers (inodes s' m) = pointers (inodes s m)
      \<and> single_indirect_ptrs (inodes s' m) = single_indirect_ptrs (inodes s m)
      \<and> double_indirect_ptrs (inodes s' m) = double_indirect_ptrs (inodes s m)" for m
    using inds ino by (cases "m = n") auto
  have nz: "ptr_at s l \<noteq> 0" using c wf blk_addr_nonzero by simp
  show p: "ptr_at s' l' = ptr_at s l'" if "valid_loc l'" for l'
  proof (rule ptr_at_frame [OF wf fields(1) ptrs _ that])
    fix x
    assume "data_blocks s' x \<noteq> data_blocks s x"
    then have x: "x div BLOCK_SIZE = c" using data by metis
    show "\<forall>L. valid_loc L \<longrightarrow> index_loc L \<longrightarrow> ptr_at s L \<noteq> blk_addr s (x div BLOCK_SIZE)"
    proof (intro allI impI notI)
      fix L assume L: "valid_loc L" "index_loc L" "ptr_at s L = blk_addr s (x div BLOCK_SIZE)"
      then have "l = L" using wf_blocks_inj [OF wf l(1) L(1) nz] x c(2) by simp
      then show False using L(2) l(2) by simp
    qed
  qed
  show "wf_blocks s'"
    using wf_blocks_frame [OF wf fields(1) p] fields(3) by simp
  have own: "owns s' n b \<longleftrightarrow> owns s n b" for b
    using p by (auto simp: owns_def addr_frame [OF fields(1)])
  have "owns s n c" using l c by (auto simp: owns_def)
  then have "same_block s s' b" if "\<not> owns s n b" for b
    using that data by (auto simp: same_block_def) (metis)
  then show "node_step n s s'"
    using fields inds ino own
    by (intro node_stepI) (auto simp: counter_ok_def free_set_def)
qed

definition inc_size :: "filesys_struct \<Rightarrow> nat \<Rightarrow> filesys_struct" where
  "inc_size s n = set_inode s n ((inodes s n)\<lparr>isize := isize (inodes s n) + 1\<rparr>)"

lemma store_char_step:
  assumes "wf_blocks s" "valid_loc l" "\<not> index_loc l" "node_of l = n"
    "c < DATA_BLOCKS_NUM" "ptr_at s l = blk_addr s c" "j < BLOCK_SIZE"
  obtains s1 where "store_char s (ptr_off s (ptr_at s l) + j) ch = Some s1"
    "wf_blocks (inc_size s1 n)" "node_step n s (inc_size s1 n)"
    "\<And>l'. valid_loc l' \<Longrightarrow> ptr_at (inc_size s1 n) l' = ptr_at s l'"
    "discos_addr s1 = discos_addr s"
proof -
  define s1 where "s1 = s\<lparr>data_blocks := (data_blocks s)(BLOCK_SIZE * c + j := ch)\<rparr>"
  have "(BLOCK_SIZE * c + j) div BLOCK_SIZE = c" using assms(7) by simp
  then have d: "data_blocks (inc_size s1 n) x = data_blocks s x" if "x div BLOCK_SIZE \<noteq> c" for x
    using that by (auto simp: s1_def inc_size_def)
  have "store_char s (ptr_off s (ptr_at s l) + j) ch = Some s1"
    using assms by (simp add: store_char_def s1_def)
  moreover note data_update_step [OF assms(1-6), of "inc_size s1 n"]
  ultimately show thesis
    using d by (intro that [of s1]) (auto simp: s1_def inc_size_def)
qed

text \<open>What the loops over positions and blocks have in common.\<close>

definition write_post :: "nat \<Rightarrow> filesys_struct \<Rightarrow> int \<Rightarrow> nat \<Rightarrow> nat \<Rightarrow> filesys_struct \<Rightarrow> bool" where
  "write_post n s num_bytes written written' s' \<longleftrightarrow>
     wf_blocks s' \<and> node_step n s s' \<and> written \<le> written' \<and> int written' \<le> num_bytes"

lemma write_postD:
  assumes "write_post n s num written written' s'"
  shows "wf_blocks s'" "node_step n s s'" "written \<le> written'" "int written' \<le> num"
  using assms by (auto simp: write_post_def)

lemma write_post_trans:
  "node_step n s s1 \<Longrightarrow> written \<le> w1 \<Longrightarrow> write_post n s1 num w1 w2 s2 \<Longrightarrow> write_post n s num written w2 s2"
  unfolding write_post_def using node_step_trans by force

lemma write_block_safe:
  assumes "wf_blocks s" "valid_loc l" "\<not> index_loc l" "node_of l = n"
    "c < DATA_BLOCKS_NUM" "ptr_at s l = blk_addr s c" "j + m \<le> BLOCK_SIZE"
    "num_bytes \<le> int (length buf)" "int written < num_bytes"
  shows "\<exists>fin cur' w' s'.
    write_block s n (ptr_at s l) buf num_bytes j m cur written = Some (fin, cur', w', s')
    \<and> write_post n s num_bytes written w' s' \<and> (fin \<longleftrightarrow> int w' = num_bytes)
    \<and> (\<forall>l'. valid_loc l' \<longrightarrow> ptr_at s' l' = ptr_at s l')"
  using assms
proof (induction m arbitrary: s j cur written)
  case 0
  then show ?case by (intro exI [of _ False]) (simp add: write_post_def)
next
  case (Suc m)
  note prems = Suc.prems
  have dat: "data_at buf written = Some (buf ! written)"
    using prems(8,9) by (simp add: data_at_def)
  show ?case
  proof (cases "buf ! written = NUL")
    case True
    then show ?thesis
      using Suc.IH [OF prems(1-6) _ prems(8,9), of "Suc j" cur] prems(7) dat by simp
  next
    case False
    have j: "j < BLOCK_SIZE" using prems(7) by simp
    obtain s1 where s1: "store_char s (ptr_off s (ptr_at s l) + j) (buf ! written) = Some s1"
      "wf_blocks (inc_size s1 n)" "node_step n s (inc_size s1 n)"
      "\<And>l'. valid_loc l' \<Longrightarrow> ptr_at (inc_size s1 n) l' = ptr_at s l'"
      "discos_addr s1 = discos_addr s"
      using store_char_step [OF prems(1-6) j, of "buf ! written"] by blast
    show ?thesis
    proof (cases "int (written + 1) = num_bytes")
      case True
      then show ?thesis
        using dat False s1 by (auto simp: write_post_def inc_size_def)
    next
      case more: False
      have ptr: "ptr_at (inc_size s1 n) l = blk_addr (inc_size s1 n) c"
        using s1(4) [OF prems(2)] prems(6) by (simp add: inc_size_def addr_frame(1) [OF s1(5)])
      have "\<exists>fin cur' w' s'.
          write_block (inc_size s1 n) n (ptr_at (inc_size s1 n) l) buf num_bytes (Suc j) m (cur + 1) (written + 1)
            = Some (fin, cur', w', s')
          \<and> write_post n (inc_size s1 n) num_bytes (written + 1) w' s' \<and> (fin \<longleftrightarrow> int w' = num_bytes)
          \<and> (\<forall>l'. valid_loc l' \<longrightarrow> ptr_at s' l' = ptr_at (inc_size s1 n) l')"
        using more prems(7-9) by (intro Suc.IH [OF s1(2) prems(2-5) ptr]) auto
      then obtain fin cur' w' s' where
        r: "write_block (inc_size s1 n) n (ptr_at s l) buf num_bytes (Suc j) m (cur + 1) (written + 1)
            = Some (fin, cur', w', s')"
          "write_post n (inc_size s1 n) num_bytes (written + 1) w' s'" "fin \<longleftrightarrow> int w' = num_bytes"
          "\<forall>l'. valid_loc l' \<longrightarrow> ptr_at s' l' = ptr_at (inc_size s1 n) l'"
        using s1(4) [OF prems(2)] by auto
      have "write_post n s num_bytes written w' s'"
        by (rule write_post_trans [OF s1(3) _ r(2)]) simp
      then show ?thesis
        using dat False s1(1,4) more r by (simp add: inc_size_def [symmetric])
    qed
  qed
qed

section \<open>The loops over blocks\<close>

text \<open>How a stage ends: the count was reached, there was no free block, or the stage ran
  out of blocks with bytes left.\<close>

definition stage_end :: "int ctl \<Rightarrow> int \<Rightarrow> nat \<Rightarrow> bool" where
  "stage_end r num_bytes w \<longleftrightarrow>
     (case r of Return v \<Rightarrow> v = -1 \<or> v = num_bytes \<and> int w = num_bytes | Fall \<Rightarrow> int w < num_bytes)"

lemma write_direct_safe:
  assumes "wf_blocks s" "node < MAX_NUM_FILE" "i + n \<le> INODE_NUM_DIRECT_PTR" "offset \<le> BLOCK_SIZE"
    "num_bytes \<le> int (length buf)" "int written < num_bytes"
  shows "\<exists>r cur' w' s'.
    write_direct s node buf num_bytes offset i n cur written = Some (r, cur', w', s')
    \<and> write_post node s num_bytes written w' s' \<and> stage_end r num_bytes w'"
  using assms
proof (induction n arbitrary: s i cur written)
  case 0
  then show ?case by (simp add: write_post_def stage_end_def)
next
  case (Suc n)
  note prems = Suc.prems
  let ?l = "Dir node i"
  have l: "valid_loc ?l" "\<not> index_loc ?l" "node_of ?l = node" using prems by auto
  let ?fb = "get_free_block_num_from_bitmap s"
  show ?case
  proof (cases "pointers (inodes s node) i = 0 \<and> ?fb = -1")
    case True
    then show ?thesis using prems by (auto simp: write_post_def stage_end_def)
  next
    case ok: False
    obtain s1 c where s1: "(if ptr_at s ?l = 0
        then Option.bind (allocate_data_block s ?fb)
               (\<lambda>(q, s'). Some (set_inode s' node ((\<lambda>ino q. ino\<lparr>pointers := (pointers ino)(i := q)\<rparr>) (inodes s' node) q)))
        else Some s) = Some s1"
      "wf_blocks s1" "node_step node s s1" "c < DATA_BLOCKS_NUM" "ptr_at s1 ?l = blk_addr s1 c"
      by (rule ensure_inode_ptr [OF prems(1) l(1,3), of "\<lambda>ino q. ino\<lparr>pointers := (pointers ino)(i := q)\<rparr>"])
        (use ok in auto)
    obtain fin cur1 w1 s2 where w: "write_block s1 node (ptr_at s1 ?l) buf num_bytes offset (BLOCK_SIZE - offset) cur written
          = Some (fin, cur1, w1, s2)"
      "write_post node s1 num_bytes written w1 s2" "fin \<longleftrightarrow> int w1 = num_bytes"
      using write_block_safe [OF s1(2) l s1(4,5) _ prems(5,6), of offset "BLOCK_SIZE - offset" cur] prems(4)
      by auto
    note w2 = write_postD [OF w(2)]
    have step: "node_step node s s2" using s1(3) w2(2) by (rule node_step_trans)
    have eq: "write_direct s node buf num_bytes offset i (Suc n) cur written =
      (if fin then Some (Return (int w1), cur1, w1, s2)
       else write_direct s2 node buf num_bytes offset (Suc i) n cur1 w1)"
    proof -
      have "(pointers (inodes s node) i = 0 \<and> ?fb = -1) = False" using ok by blast
      with s1(1) w(1) show ?thesis
        by (simp only: ptr_at.simps write_direct.simps Let_def if_False Option.bind.bind_lunit
            case_prod_conv)
    qed
    show ?thesis
    proof (cases fin)
      case True
      then show ?thesis
        unfolding eq using w w2 step by (simp add: write_post_def stage_end_def)
    next
      case False
      have "int w1 < num_bytes" using False w(3) w2(4) by simp
      then obtain r cur' w' s' where
        r: "write_direct s2 node buf num_bytes offset (Suc i) n cur1 w1 = Some (r, cur', w', s')"
          "write_post node s2 num_bytes w1 w' s'" "stage_end r num_bytes w'"
        using Suc.IH [OF w2(1) prems(2) _ prems(4,5), of "Suc i" w1 cur1] prems(3) by auto
      have "write_post node s num_bytes written w' s'"
        by (rule write_post_trans [OF step w2(3) r(2)])
      then show ?thesis
        unfolding eq using False r by simp
    qed
  qed
qed

lemma write_index_safe:
  assumes "wf_blocks s" "valid_loc L" "index_loc L" "node_of L = node"
    "c < DATA_BLOCKS_NUM" "ptr_at s L = blk_addr s c" "i + n \<le> PTRS_PER_BLOCK" "offset \<le> BLOCK_SIZE"
    "num_bytes \<le> int (length buf)" "int written < num_bytes"
    "\<And>k. index_loc (Sub L k) \<Longrightarrow> False"
  shows "\<exists>r cur' w' s'.
    write_index s node (ptr_at s L) buf num_bytes offset i n cur written = Some (r, cur', w', s')
    \<and> write_post node s num_bytes written w' s' \<and> stage_end r num_bytes w'
    \<and> (\<forall>l. valid_loc l \<longrightarrow> (\<forall>k. l \<noteq> Sub L k) \<longrightarrow> ptr_at s' l = ptr_at s l)"
  using assms(1-10)
proof (induction n arbitrary: s i cur written)
  case 0
  then show ?case by (simp add: write_post_def stage_end_def)
next
  case (Suc n)
  note prems = Suc.prems
  let ?l = "Sub L i"
  have l: "valid_loc ?l" "\<not> index_loc ?l" "node_of ?l = node" using prems assms(11) by auto
  have ld: "load_index s (ptr_at s L) i = Some (ptr_at s ?l)"
    using load_index_ptr_at [OF l(1) prems(6,5,1)] prems(6) by simp
  let ?fb = "get_free_block_num_from_bitmap s"
  show ?case
  proof (cases "ptr_at s ?l = 0 \<and> ?fb = -1")
    case True
    then have "write_index s node (ptr_at s L) buf num_bytes offset i (Suc n) cur written
        = Some (Return (-1), cur, written, s)"
      by (simp only: write_index.simps ld Option.bind.bind_lunit Let_def if_True simp_thms)
    then show ?thesis
      using prems by (auto simp: write_post_def stage_end_def simp del: ptr_at.simps)
  next
    case ok: False
    obtain p s1 d where s1: "(if ptr_at s ?l = 0
        then Option.bind (allocate_data_block s ?fb)
             (\<lambda>(q, s'). Option.bind (store_index s' (blk_addr s c) i q)
                (\<lambda>s''. Option.bind (load_index s'' (blk_addr s c) i) (\<lambda>b. Some (b, s''))))
        else Some (ptr_at s ?l, s)) = Some (p, s1)"
      "wf_blocks s1" "node_step (node_of L) s s1" "d < DATA_BLOCKS_NUM" "p = blk_addr s1 d"
      "ptr_at s1 ?l = p" "\<And>l. valid_loc l \<Longrightarrow> l \<noteq> ?l \<Longrightarrow> ptr_at s1 l = ptr_at s l"
      by (rule ensure_index_ptr [OF prems(1) l(1) prems(6,5)]) (use ok in blast)+
    have ps: "ptr_at s1 ?l = blk_addr s1 d" using s1(5,6) by simp
    obtain fin cur1 w1 s2 where w: "write_block s1 node (ptr_at s1 ?l) buf num_bytes offset (BLOCK_SIZE - offset) cur written
          = Some (fin, cur1, w1, s2)"
      "write_post node s1 num_bytes written w1 s2" "fin \<longleftrightarrow> int w1 = num_bytes"
      "\<forall>l'. valid_loc l' \<longrightarrow> ptr_at s2 l' = ptr_at s1 l'"
      using write_block_safe [OF s1(2) l s1(4) ps _ prems(9,10), of offset "BLOCK_SIZE - offset" cur] prems(8)
      by auto
    note w2 = write_postD [OF w(2)]
    have step: "node_step node s s2" using s1(3) w2(2) prems(4) node_step_trans by blast
    have keep: "ptr_at s2 l' = ptr_at s l'" if "valid_loc l'" "\<forall>k. l' \<noteq> Sub L k" for l'
      using that w(4) s1(7) by simp
    have L2: "ptr_at s2 L = ptr_at s L" using keep [OF prems(2)] by auto
    have eq: "write_index s node (ptr_at s L) buf num_bytes offset i (Suc n) cur written =
      (if fin then Some (Return (int w1), cur1, w1, s2)
       else write_index s2 node (ptr_at s L) buf num_bytes offset (Suc i) n cur1 w1)"
    proof -
      have "(ptr_at s ?l = 0 \<and> ?fb = -1) = False" using ok by blast
      with s1(1) [folded prems(6)] w(1) show ?thesis
        by (simp only: write_index.simps ld Let_def if_False Option.bind.bind_lunit case_prod_conv
            s1(6))
    qed
    show ?thesis
    proof (cases fin)
      case True
      then show ?thesis
        unfolding eq using w w2 step keep by (simp add: write_post_def stage_end_def)
    next
      case False
      have "int w1 < num_bytes" using False w(3) w2(4) by simp
      moreover have "ptr_at s2 L = blk_addr s2 c"
        using L2 prems(6) by (simp add: addr_frame(1) [OF node_step_addr [OF step]])
      ultimately obtain r cur' w' s' where
        r: "write_index s2 node (ptr_at s2 L) buf num_bytes offset (Suc i) n cur1 w1 = Some (r, cur', w', s')"
          "write_post node s2 num_bytes w1 w' s'" "stage_end r num_bytes w'"
          "\<forall>l. valid_loc l \<longrightarrow> (\<forall>k. l \<noteq> Sub L k) \<longrightarrow> ptr_at s' l = ptr_at s2 l"
        using Suc.IH [OF w2(1) prems(2-5) _ _ prems(8,9), of "Suc i" w1 cur1] prems(7) by auto
      have "write_post node s num_bytes written w' s'"
        by (rule write_post_trans [OF step w2(3) r(2)])
      then show ?thesis
        unfolding eq using False r keep by (simp add: L2)
    qed
  qed
qed

text \<open>The double indirect loop reloads the address of its index block from the index node.\<close>

lemma write_double_ensure:
  fixes i :: nat
  assumes wf: "wf_blocks s" and D: "ptr_at s (Dbl node) = blk_addr s c"
  defines "l \<equiv> Sub (Dbl node) i" and "fb \<equiv> get_free_block_num_from_bitmap s"
  assumes ok: "\<not> (ptr_at s l = 0 \<and> fb = -1)"
    and s1: "(if ptr_at s l = 0
        then Option.bind (allocate_data_block s fb)
             (\<lambda>(q, s'). Option.bind (store_index s' (blk_addr s c) i q)
                (\<lambda>s''. Option.bind (load_index s'' (blk_addr s c) i) (\<lambda>b. Some (b, s''))))
        else Some (ptr_at s l, s)) = Some (p, s1)" "inodes s1 = inodes s"
  shows "(if ptr_at s l = 0
      then Option.bind (allocate_data_block s fb)
           (\<lambda>(q, s'). Option.bind (store_index s' (double_indirect_ptrs (inodes s' node)) i q)
              (\<lambda>s''. Option.bind (load_index s'' (double_indirect_ptrs (inodes s'' node)) i) (\<lambda>b. Some (b, s''))))
      else Some (ptr_at s l, s)) = Some (p, s1)"
proof (cases "ptr_at s l = 0")
  case True
  then obtain b s' where a: "allocate_data_block s fb = Some (blk_addr s b, s')" "fresh_alloc s b s'"
    using alloc_fresh [OF wf] ok unfolding fb_def by blast
  have "double_indirect_ptrs (inodes s' node) = blk_addr s c"
    using fresh_allocD(5) [OF a(2)] D by simp
  moreover from s1(1) True a(1) obtain s'' where "store_index s' (blk_addr s c) i (blk_addr s b) = Some s''"
    "s'' = s1" by (auto simp: bind_eq_Some_conv simp del: ptr_at.simps)
  moreover have "double_indirect_ptrs (inodes s1 node) = blk_addr s c"
    using s1(2) D by simp
  ultimately show ?thesis using s1(1) True a(1) by (simp del: ptr_at.simps)
next
  case False
  then show ?thesis using s1(1) by (simp only: if_False)
qed

lemma write_double_safe:
  assumes "wf_blocks s" "node < MAX_NUM_FILE"
    "c < DATA_BLOCKS_NUM" "ptr_at s (Dbl node) = blk_addr s c" "i + n \<le> PTRS_PER_BLOCK" "offset \<le> BLOCK_SIZE"
    "num_bytes \<le> int (length buf)" "int written < num_bytes"
  shows "\<exists>r seg' cur' w' s'.
    write_double s node (ptr_at s (Dbl node)) buf num_bytes offset seg i n cur written
      = Some (r, seg', cur', w', s')
    \<and> write_post node s num_bytes written w' s' \<and> stage_end r num_bytes w' \<and> seg' \<le> seg"
  using assms
proof (induction n arbitrary: s i cur written seg)
  case 0
  then show ?case by (simp add: write_post_def stage_end_def)
next
  case (Suc n)
  note prems = Suc.prems
  let ?D = "Dbl node" let ?l = "Sub ?D i"
  have l: "valid_loc ?l" "index_loc ?l" "node_of ?l = node" using prems by auto
  have ld: "load_index s (ptr_at s ?D) i = Some (ptr_at s ?l)"
    using load_index_ptr_at [OF l(1) prems(4,3,1)] prems(4) by simp
  let ?fb = "get_free_block_num_from_bitmap s"
  show ?case
  proof (cases "ptr_at s ?l = 0 \<and> ?fb = -1")
    case True
    then have "write_double s node (ptr_at s ?D) buf num_bytes offset seg i (Suc n) cur written
        = Some (Return (-1), seg, cur, written, s)"
      by (simp only: write_double.simps ld Option.bind.bind_lunit Let_def if_True simp_thms)
    then show ?thesis
      using prems by (auto simp: write_post_def stage_end_def simp del: ptr_at.simps)
  next
    case ok: False
    obtain p s1 d where s1: "(if ptr_at s ?l = 0
        then Option.bind (allocate_data_block s ?fb)
             (\<lambda>(q, s'). Option.bind (store_index s' (blk_addr s c) i q)
                (\<lambda>s''. Option.bind (load_index s'' (blk_addr s c) i) (\<lambda>b. Some (b, s''))))
        else Some (ptr_at s ?l, s)) = Some (p, s1)"
      "wf_blocks s1" "node_step (node_of ?D) s s1" "d < DATA_BLOCKS_NUM" "p = blk_addr s1 d"
      "ptr_at s1 ?l = p" "\<And>l. valid_loc l \<Longrightarrow> l \<noteq> ?l \<Longrightarrow> ptr_at s1 l = ptr_at s l"
      "inodes s1 = inodes s"
      by (rule ensure_index_ptr [OF prems(1) l(1) prems(4,3)]) (use ok in blast)+
    have ps: "ptr_at s1 ?l = blk_addr s1 d" using s1(5,6) by simp
    obtain r1 cur1 w1 s2 where w:
      "write_index s1 node (ptr_at s1 ?l) buf num_bytes offset (seg div 64) (PTRS_PER_BLOCK - seg div 64) cur written
          = Some (r1, cur1, w1, s2)"
      "write_post node s1 num_bytes written w1 s2" "stage_end r1 num_bytes w1"
      "\<forall>l'. valid_loc l' \<longrightarrow> (\<forall>k. l' \<noteq> Sub ?l k) \<longrightarrow> ptr_at s2 l' = ptr_at s1 l'"
    proof (cases "seg div 64 \<le> PTRS_PER_BLOCK")
      case True
      then show ?thesis
        using that write_index_safe [OF s1(2) l s1(4) ps _ prems(6-8), of "seg div 64" "PTRS_PER_BLOCK - seg div 64" cur]
        by auto
    next
      case False
      then show ?thesis
        using that [of Fall cur written s1] s1(2) prems(8) by (simp add: write_post_def stage_end_def)
    qed
    note w2 = write_postD [OF w(2)]
    have step: "node_step node s s2" using s1(3) w2(2) node_step_trans by fastforce
    have D2: "ptr_at s2 ?D = ptr_at s ?D" using w(4) [rule_format, of ?D] s1(7) [of ?D] prems(2) by auto
    have eq: "write_double s node (ptr_at s ?D) buf num_bytes offset seg i (Suc n) cur written =
      (case r1 of Return v \<Rightarrow> Some (Return v, seg div 64, cur1, w1, s2)
       | Fall \<Rightarrow> write_double s2 node (ptr_at s ?D) buf num_bytes offset (seg div 64) (Suc i) n cur1 w1)"
    proof -
      have F: "(ptr_at s ?l = 0 \<and> ?fb = -1) = False" using ok by blast
      note st = write_double_ensure [OF prems(1,4) ok s1(1,8)]
      show ?thesis
        using st w(1)
        by (simp only: write_double.simps ld F Let_def if_False Option.bind.bind_lunit case_prod_conv
            s1(6))
    qed
    show ?thesis
    proof (cases r1)
      case (Return v)
      have "seg div 64 \<le> seg" by simp
      then show ?thesis
        unfolding eq using Return w w2 step by (simp add: write_post_def stage_end_def)
    next
      case Fall
      then have "int w1 < num_bytes" using w(3) by (simp add: stage_end_def)
      moreover have "ptr_at s2 ?D = blk_addr s2 c"
        using D2 prems(4) by (simp add: addr_frame(1) [OF node_step_addr [OF step]])
      ultimately obtain r seg' cur' w' s' where
        r: "write_double s2 node (ptr_at s2 ?D) buf num_bytes offset (seg div 64) (Suc i) n cur1 w1
              = Some (r, seg', cur', w', s')"
          "write_post node s2 num_bytes w1 w' s'" "stage_end r num_bytes w'" "seg' \<le> seg div 64"
        using Suc.IH [OF w2(1) prems(2,3) _ _ prems(6,7), of "Suc i" w1 "seg div 64" cur1] prems(5) by auto
      have "write_post node s num_bytes written w' s'"
        by (rule write_post_trans [OF step w2(3) r(2)])
      moreover have "seg' \<le> seg" using r(4) by (meson div_le_dividend le_trans)
      ultimately show ?thesis
        unfolding eq using Fall r by (simp add: D2 del: ptr_at.simps)
    qed
  qed
qed

section \<open>The three stages\<close>

lemma write_direct_total:
  assumes "wf_blocks s" "node < MAX_NUM_FILE" "offset \<le> BLOCK_SIZE"
    "num_bytes \<le> int (length buf)" "int written < num_bytes"
  shows "\<exists>r cur' w' s'.
    write_direct s node buf num_bytes offset seg (INODE_NUM_DIRECT_PTR - seg) cur written
      = Some (r, cur', w', s')
    \<and> write_post node s num_bytes written w' s' \<and> stage_end r num_bytes w'"
proof (cases "seg \<le> INODE_NUM_DIRECT_PTR")
  case True
  then show ?thesis using write_direct_safe [OF assms(1,2) _ assms(3-5)] by simp
next
  case False
  then show ?thesis using assms by (simp add: write_post_def stage_end_def)
qed

lemma write_single_stage_safe:
  assumes "wf_blocks s" "node < MAX_NUM_FILE" "offset \<le> BLOCK_SIZE" "8 \<le> seg" "seg < 72"
    "num_bytes \<le> int (length buf)" "int written < num_bytes"
  shows "\<exists>r cur' w' s'.
    write_single_stage s node buf num_bytes seg offset cur written = Some (r, cur', w', s')
    \<and> write_post node s num_bytes written w' s' \<and> stage_end r num_bytes w'"
proof -
  let ?l = "Sng node" let ?fb = "get_free_block_num_from_bitmap s"
  have l: "valid_loc ?l" "node_of ?l = node" "index_loc ?l" using assms by auto
  show ?thesis
  proof (cases "single_indirect_ptrs (inodes s node) = 0 \<and> ?fb = -1")
    case True
    then show ?thesis using assms by (auto simp: write_single_stage_def write_post_def stage_end_def)
  next
    case ok: False
    obtain s1 c where s1: "(if ptr_at s ?l = 0
        then Option.bind (allocate_data_block s ?fb)
               (\<lambda>(q, s'). Some (set_inode s' node ((\<lambda>ino q. ino\<lparr>single_indirect_ptrs := q\<rparr>) (inodes s' node) q)))
        else Some s) = Some s1"
      "wf_blocks s1" "node_step node s s1" "c < DATA_BLOCKS_NUM" "ptr_at s1 ?l = blk_addr s1 c"
      by (rule ensure_inode_ptr [OF assms(1) l(1,2), of "\<lambda>ino q. ino\<lparr>single_indirect_ptrs := q\<rparr>"])
        (use ok in auto)
    obtain r cur' w' s' where r:
      "write_index s1 node (ptr_at s1 ?l) buf num_bytes offset (seg - 8) (PTRS_PER_BLOCK - (seg - 8)) cur written
         = Some (r, cur', w', s')"
      "write_post node s1 num_bytes written w' s'" "stage_end r num_bytes w'"
      using write_index_safe [OF s1(2) l(1,3,2) s1(4,5) _ assms(3,6,7), of "seg - 8" "PTRS_PER_BLOCK - (seg - 8)" cur]
        assms(5) by auto
    have F: "(single_indirect_ptrs (inodes s node) = 0 \<and> ?fb = -1) = False" using ok by blast
    have "write_single_stage s node buf num_bytes seg offset cur written = Some (r, cur', w', s')"
      using s1(1) r(1)
      by (simp only: write_single_stage_def ptr_at.simps F Let_def if_False Option.bind.bind_lunit)
    then show ?thesis
      using write_post_trans [OF s1(3) order_refl r(2)] r(3) by simp
  qed
qed

lemma write_double_stage_safe:
  assumes "wf_blocks s" "node < MAX_NUM_FILE" "offset \<le> BLOCK_SIZE"
    "num_bytes \<le> int (length buf)" "int written < num_bytes"
  shows "\<exists>r seg' cur' w' s'.
    write_double_stage s node buf num_bytes seg offset cur written = Some (r, seg', cur', w', s')
    \<and> write_post node s num_bytes written w' s' \<and> stage_end r num_bytes w' \<and> seg' \<le> seg"
proof -
  let ?l = "Dbl node" let ?fb = "get_free_block_num_from_bitmap s"
  have l: "valid_loc ?l" "node_of ?l = node" using assms by auto
  show ?thesis
  proof (cases "double_indirect_ptrs (inodes s node) = 0 \<and> ?fb = -1")
    case True
    then show ?thesis using assms by (auto simp: write_double_stage_def write_post_def stage_end_def)
  next
    case ok: False
    obtain s1 c where s1: "(if ptr_at s ?l = 0
        then Option.bind (allocate_data_block s ?fb)
               (\<lambda>(q, s'). Some (set_inode s' node ((\<lambda>ino q. ino\<lparr>double_indirect_ptrs := q\<rparr>) (inodes s' node) q)))
        else Some s) = Some s1"
      "wf_blocks s1" "node_step node s s1" "c < DATA_BLOCKS_NUM" "ptr_at s1 ?l = blk_addr s1 c"
      by (rule ensure_inode_ptr [OF assms(1) l, of "\<lambda>ino q. ino\<lparr>double_indirect_ptrs := q\<rparr>"])
        (use ok in auto)
    obtain r seg' cur' w' s' where r:
      "write_double s1 node (ptr_at s1 ?l) buf num_bytes offset (seg - 8 - 64) 0 PTRS_PER_BLOCK cur written
         = Some (r, seg', cur', w', s')"
      "write_post node s1 num_bytes written w' s'" "stage_end r num_bytes w'" "seg' \<le> seg - 8 - 64"
      using write_double_safe [OF s1(2) assms(2) s1(4,5) _ assms(3-5), of 0 PTRS_PER_BLOCK "seg - 8 - 64" cur]
      by auto
    have F: "(double_indirect_ptrs (inodes s node) = 0 \<and> ?fb = -1) = False" using ok by blast
    have "write_double_stage s node buf num_bytes seg offset cur written = Some (r, seg', cur', w', s')"
      using s1(1) r(1)
      by (simp only: write_double_stage_def ptr_at.simps F Let_def if_False Option.bind.bind_lunit)
    then show ?thesis
      using write_post_trans [OF s1(3) order_refl r(2)] r(3,4) by simp
  qed
qed

lemma stage_skip:
  assumes "wf_blocks s" "int written < num_bytes"
  shows "write_post n s num_bytes written written s" "stage_end Fall num_bytes written"
  using assms by (simp_all add: write_post_def stage_end_def)

lemma write_single_branch:
  assumes "wf_blocks s" "node < MAX_NUM_FILE" "num_bytes \<le> int (length buf)" "int written < num_bytes"
  shows "\<exists>r cur' w' s'.
    (if 8 \<le> seg \<and> seg < 8 + 64 then write_single_stage s node buf num_bytes seg (x mod BLOCK_SIZE) cur written
     else Some (Fall, cur, written, s)) = Some (r, cur', w', s')
    \<and> write_post node s num_bytes written w' s' \<and> stage_end r num_bytes w'"
proof (cases "8 \<le> seg \<and> seg < 8 + 64")
  case True
  then have "\<exists>r cur' w' s'.
    write_single_stage s node buf num_bytes seg (x mod BLOCK_SIZE) cur written = Some (r, cur', w', s')
    \<and> write_post node s num_bytes written w' s' \<and> stage_end r num_bytes w'"
    by (intro write_single_stage_safe assms) simp_all
  then show ?thesis using True by simp
next
  case False
  then show ?thesis using stage_skip [OF assms(1,4)] by auto
qed

lemma write_double_branch:
  assumes "wf_blocks s" "node < MAX_NUM_FILE" "num_bytes \<le> int (length buf)" "int written < num_bytes"
  shows "\<exists>r seg' cur' w' s'.
    (if 8 + 64 \<le> seg \<and> seg < 8 + 64 + 64 * 64
     then write_double_stage s node buf num_bytes seg (x mod BLOCK_SIZE) cur written
     else Some (Fall, seg, cur, written, s)) = Some (r, seg', cur', w', s')
    \<and> write_post node s num_bytes written w' s' \<and> stage_end r num_bytes w'"
proof (cases "8 + 64 \<le> seg \<and> seg < 8 + 64 + 64 * 64")
  case True
  then show ?thesis
    using write_double_stage_safe [OF assms(1,2) _ assms(3,4), of "x mod BLOCK_SIZE" seg cur] by auto
next
  case False
  then show ?thesis using stage_skip [OF assms(1,4)] by auto
qed

text \<open>What \<^verbatim>\<open>rd_write\<close> can return: \<open>-1\<close>, or a number of bytes between 0 and the request.\<close>

lemma write_stages_safe:
  assumes "wf_blocks s" "node < MAX_NUM_FILE" "0 < num_bytes" "num_bytes \<le> int (length buf)"
  shows "\<exists>r cur' s'. write_stages s node buf num_bytes cur = Some (r, cur', s')
    \<and> wf_blocks s' \<and> node_step node s s' \<and> -1 \<le> r \<and> r \<le> num_bytes"
proof -
  have off: "x mod BLOCK_SIZE \<le> BLOCK_SIZE" for x :: nat by simp
  have ret: "-1 \<le> v \<and> v \<le> num_bytes" if "stage_end (Return v) num_bytes w" for v w
    using that assms(3) by (auto simp: stage_end_def)
  obtain r1 cur1 w1 s1 where 1:
    "write_direct s node buf num_bytes (unat cur mod BLOCK_SIZE) (unat cur div BLOCK_SIZE)
       (INODE_NUM_DIRECT_PTR - unat cur div BLOCK_SIZE) cur 0 = Some (r1, cur1, w1, s1)"
    "write_post node s num_bytes 0 w1 s1" "stage_end r1 num_bytes w1"
    using write_direct_total [OF assms(1,2) off assms(4), of 0 "unat cur" "unat cur div BLOCK_SIZE" cur]
      assms(3) by auto
  show ?thesis
  proof (cases r1)
    case (Return v)
    then show ?thesis
      using 1 ret write_postD [OF 1(2)] by (simp add: write_stages_def Let_def)
  next
    case Fall
    note P1 = write_postD [OF 1(2)]
    have w1: "int w1 < num_bytes" using 1(3) Fall by (simp add: stage_end_def)
    let ?seg1 = "unat (isize (inodes s1 node)) div BLOCK_SIZE"
    let ?o1 = "unat (isize (inodes s1 node)) mod BLOCK_SIZE"
    obtain r2 cur2 w2 s2 where 2:
      "(if 8 \<le> ?seg1 \<and> ?seg1 < 8 + 64 then write_single_stage s1 node buf num_bytes ?seg1 ?o1 cur1 w1
        else Some (Fall, cur1, w1, s1)) = Some (r2, cur2, w2, s2)"
      "write_post node s1 num_bytes w1 w2 s2" "stage_end r2 num_bytes w2"
      using write_single_branch [OF P1(1) assms(2,4) w1] by blast
    show ?thesis
    proof (cases r2)
      case (Return v)
      have "write_stages s node buf num_bytes cur = Some (v, cur2, s2)"
        using 1(1) 2(1) Fall Return
        by (simp only: write_stages_def Let_def Option.bind.bind_lunit case_prod_conv ctl.case)
      then show ?thesis
        using ret 2(3) Return write_postD [OF 2(2)] node_step_trans [OF P1(2)] by simp
    next
      case Fall2: Fall
      note P2 = write_postD [OF 2(2)]
      have w2: "int w2 < num_bytes" using 2(3) Fall2 by (simp add: stage_end_def)
      let ?seg2 = "unat (isize (inodes s2 node)) div BLOCK_SIZE"
      let ?o2 = "unat (isize (inodes s2 node)) mod BLOCK_SIZE"
      obtain r3 seg3 cur3 w3 s3 where 3:
        "(if 8 + 64 \<le> ?seg2 \<and> ?seg2 < 8 + 64 + 64 * 64
          then write_double_stage s2 node buf num_bytes ?seg2 ?o2 cur2 w2
          else Some (Fall, ?seg2, cur2, w2, s2)) = Some (r3, seg3, cur3, w3, s3)"
        "write_post node s2 num_bytes w2 w3 s3" "stage_end r3 num_bytes w3"
        using write_double_branch [OF P2(1) assms(2,4) w2] by blast
      note P3 = write_postD [OF 3(2)]
      have eq: "write_stages s node buf num_bytes cur = (case r3 of
          Return v \<Rightarrow> Some (v, cur3, s3)
        | Fall \<Rightarrow> Some (if 8 + 64 + 64 * 64 \<le> seg3 then int w3 else 0, cur3, s3))"
        using 1(1) 2(1) 3(1) Fall Fall2
        by (simp only: write_stages_def Let_def Option.bind.bind_lunit case_prod_conv ctl.case)
      have step: "node_step node s s3"
        using node_step_trans [OF P1(2) node_step_trans [OF P2(2) P3(2)]] .
      show ?thesis
        unfolding eq using ret 3(3) P3 step assms(3) by (cases r3) (auto simp: stage_end_def)
    qed
  qed
qed

section \<open>The system call\<close>

lemma fobj_no_inode: "inode_ptr zero_file_object = None" "usable zero_file_object = 0"
  by (simp_all add: zero_file_object_def)

lemma fds_ok_cursor:
  assumes "fds_ok k" "valid_fd k fd"
  shows "fds_ok (upd_fobj (k\<lparr>fs := s\<rparr>) 0 (nat fd) ((fobj k 0 (nat fd))\<lparr>cursor := c\<rparr>))"
proof (rule fds_ok_upd)
  show "fds_ok (k\<lparr>fs := s\<rparr>)" using assms by simp
  have "slot_ok (nat fd) (fobj k 0 (nat fd))"
    using assms by (intro fds_okD(2)) (auto simp: valid_fd_def)
  then show "slot_ok (nat fd) ((fobj k 0 (nat fd))\<lparr>cursor := c\<rparr>)"
    using assms(2) by (auto simp: slot_ok_def valid_fd_def)
qed

lemma rd_write_step:
  assumes "fds_ok k" "wf_blocks (fs k)" "- (2 ^ 31) \<le> fd" "fd < 2 ^ 31"
    "0 < num_bytes" "num_bytes \<le> int (length buf)"
  obtains (refused) "rd_write k fd p buf num_bytes = Some (-1, k)"
  | (written) r s c where
    "rd_write k fd p buf num_bytes
       = Some (r, upd_fobj (k\<lparr>fs := s\<rparr>) 0 (nat fd) ((fobj k 0 (nat fd))\<lparr>cursor := c\<rparr>))"
    "valid_fd k fd" "-1 \<le> r" "r \<le> num_bytes" "wf_blocks s" "node_step (fd_node k fd) (fs k) s"
    "itype (inodes (fs k) (fd_node k fd)) \<noteq> ''dir''" "access (inodes (fs k) (fd_node k fd)) \<noteq> RD"
    "status (fobj k 0 (nat fd)) \<noteq> RD"
proof (cases "valid_fd k fd")
  case False
  then have "rd_write k fd p buf num_bytes = Some (-1, k)"
    using lookup_fd_invalid [OF assms(1,3,4) False, of p]
    by (auto simp: rd_write_def fobj_no_inode Let_def)
  then show ?thesis by (rule refused)
next
  case True
  note slot = valid_fd_slot [OF assms(1) True]
  let ?n = "fd_node k fd" and ?f = "fobj k 0 (nat fd)"
  obtain r cur s where w: "write_stages (fs k) ?n buf num_bytes (cursor ?f) = Some (r, cur, s)"
    "wf_blocks s" "node_step ?n (fs k) s" "-1 \<le> r" "r \<le> num_bytes"
    using write_stages_safe [OF assms(2) slot(2) assms(5,6), of "cursor ?f"] by blast
  have eq: "rd_write k fd p buf num_bytes =
      (if itype (inodes (fs k) ?n) = ''dir'' \<or> access (inodes (fs k) ?n) = RD \<or> status ?f = RD
       then Some (-1, k)
       else Some (r, upd_fobj (k\<lparr>fs := s\<rparr>) 0 (nat fd) (?f\<lparr>cursor := cur\<rparr>)))"
    using slot w(1) by (simp add: rd_write_def lookup_fd_valid [OF assms(1) True] get_inode_def Let_def)
  show ?thesis
  proof (cases "itype (inodes (fs k) ?n) = ''dir'' \<or> access (inodes (fs k) ?n) = RD \<or> status ?f = RD")
    case True
    then show ?thesis using eq refused by simp
  next
    case False
    then show ?thesis using eq w \<open>valid_fd k fd\<close> by (intro written [of r s cur]) auto
  qed
qed

section \<open>Properties\<close>

text \<open>C6: \<^verbatim>\<open>rd_write\<close> is memory safe and total.  For every descriptor, and a positive
  number of bytes that the caller's buffer holds, it returns; the result is \<open>-1\<close> or at
  most the number asked for; afterwards every block pointer of every index node is still
  null or the address of a used data block, no two of them equal, the descriptor tables
  are well formed, and the counter of free blocks promises no more blocks than there are.\<close>

theorem rd_write_safe:
  assumes "fds_ok k" "wf_blocks (fs k)" "counter_ok (fs k)" "- (2 ^ 31) \<le> fd" "fd < 2 ^ 31"
    "0 < num_bytes" "num_bytes \<le> int (length buf)"
  shows "\<exists>r k1. rd_write k fd p buf num_bytes = Some (r, k1) \<and> -1 \<le> r \<and> r \<le> num_bytes
    \<and> fds_ok k1 \<and> wf_blocks (fs k1) \<and> counter_ok (fs k1)"
  using assms(1,2,4-7)
proof (cases rule: rd_write_step [where p = p])
  case refused
  then show ?thesis using assms by simp
next
  case (written r s c)
  then show ?thesis
    using fds_ok_cursor [OF assms(1)] node_stepD(9) [OF written(6) assms(3)] by simp
qed

lemma sample_counter: "counter_ok sample_fs"
proof -
  have "free_set sample_fs = {..<DATA_BLOCKS_NUM} - {0}" by (auto simp: free_set_def)
  then have "card (free_set sample_fs) = 7930" by simp
  then show ?thesis by (simp add: counter_ok_def) (simp add: sample_fs_def)
qed

theorem rd_write_safe_witness:
  "\<exists>r k1. rd_write sample_opened 0 7 ''hi'' 2 = Some (r, k1) \<and> r \<le> 2 \<and> wf_blocks (fs k1)"
  using rd_write_safe [of sample_opened 0 2 "''hi''" 7] sample_counter by auto

text \<open>C9: \<^verbatim>\<open>rd_write\<close> touches one file only.  For every other index node the node itself
  (type, size, access rights, pointers) is unchanged, and so is every byte of every block
  that its pointers, direct or through index blocks, lead to.\<close>

theorem rd_write_isolated:
  assumes "fds_ok k" "wf_blocks (fs k)" "- (2 ^ 31) \<le> fd" "fd < 2 ^ 31"
    "0 < num_bytes" "num_bytes \<le> int (length buf)"
    "rd_write k fd p buf num_bytes = Some (r, k1)"
    "valid_loc l" "node_of l \<noteq> fd_node k fd"
  shows "inodes (fs k1) (node_of l) = inodes (fs k) (node_of l)
    \<and> ptr_at (fs k1) l = ptr_at (fs k) l
    \<and> (\<forall>b < DATA_BLOCKS_NUM. ptr_at (fs k) l = blk_addr (fs k) b \<longrightarrow>
         (\<forall>j < BLOCK_SIZE. data_blocks (fs k1) (BLOCK_SIZE * b + j) = data_blocks (fs k) (BLOCK_SIZE * b + j)))"
proof -
  have "fs k1 = fs k \<or> node_step (fd_node k fd) (fs k) (fs k1)"
    using assms(1-6)
  proof (cases rule: rd_write_step [where p = p])
    case refused
    then show ?thesis using assms(7) by simp
  next
    case (written r s c)
    then show ?thesis using assms(7) by auto
  qed
  then have step: "node_step (fd_node k fd) (fs k) (fs k1)" using node_step_refl by metis
  have "same_block (fs k) (fs k1) b" if "b < DATA_BLOCKS_NUM" "ptr_at (fs k) l = blk_addr (fs k) b" for b
    using node_step_content [OF step assms(2,8,9) that] .
  then show ?thesis
    using node_stepD(4) [OF step assms(9)] node_step_ptr [OF step assms(2,8,9)]
    by (auto simp: same_block_def)
qed

lemma sample_write:
  obtains r k1 where "rd_write sample_opened 0 7 ''hi'' 2 = Some (r, k1)"
  by (rule rd_write_step [of sample_opened 0 2 "''hi''" 7]) (use that in auto)

theorem rd_write_isolated_witness:
  "\<exists>r k1. rd_write sample_opened 0 7 ''hi'' 2 = Some (r, k1) \<and>
     inodes (fs k1) 0 = sample_root \<and> data_blocks (fs k1) 0 = CHR ''f''"
proof -
  obtain r k1 where w: "rd_write sample_opened 0 7 ''hi'' 2 = Some (r, k1)" by (rule sample_write)
  then have "inodes (fs k1) 0 = sample_root \<and> data_blocks (fs k1) 0 = CHR ''f''"
    using rd_write_isolated [of sample_opened 0 2 "''hi''" 7 r k1 "Dir 0 0"] sample_ptr [of "Dir 0 0"]
    by (auto simp: sample_blk dest!: spec [of _ 0]) (simp add: sample_fs_def sample_data_def)
  with w show ?thesis by blast
qed

end
