(* ===== verification/CreateProps.thy ===== *)
theory CreateProps
  imports Namespace WriteInv
begin

text \<open>
  The contracts of path lookup, \<^verbatim>\<open>rd_create\<close>, \<^verbatim>\<open>rd_mkdir\<close> and the initialisation of the
  partition, and their instances on \<^const>\<open>sample_fs\<close>.
\<close>

section \<open>When there is room\<close>

text \<open>A directory whose last direct pointer is still null takes a new entry.\<close>

lemma next_entry_direct_room:
  assumes "wf_blocks s" "node < MAX_NUM_FILE" "i + m = INODE_NUM_DIRECT_PTR" "0 < m"
    and room: "pointers (inodes s node) 7 = 0" "get_free_block_num_from_bitmap s \<noteq> -1"
  shows "\<exists>a s'. next_entry_direct s node i m = Some (Return (Some a), s')"
  using assms(3,4)
proof (induction m arbitrary: i)
  case 0
  then show ?case by simp
next
  case (Suc m)
  let ?l = "Dir node i" and ?fb = "get_free_block_num_from_bitmap s"
  have l: "data_loc node ?l" "valid_loc ?l"
    using assms(2) Suc.prems by (auto simp: data_loc_def)
  show ?case
  proof (cases "ptr_at s ?l = 0")
    case True
    obtain b s1 where "allocate_data_block s ?fb = Some (blk_addr s b, s1)"
      using alloc_fresh [OF assms(1) room(2)] by blast
    then show ?thesis using True room(2) by (simp add: Let_def del: set_inode_fields addr_update)
  next
    case False
    then have "0 < m" using room(1) Suc.prems by (cases m) auto
    then have IH: "\<exists>a s'. next_entry_direct s node (Suc i) m = Some (Return (Some a), s')"
      using Suc.IH [of "Suc i"] Suc.prems by simp
    obtain c where c: "c < DATA_BLOCKS_NUM" "ptr_at s ?l = blk_addr s c"
      using wf_blocksD [OF assms(1) l(2) False] by blast
    obtain e where e: "get_next_dir_entry s (blk_addr s c) = Some e"
      using next_in_block [OF assms(1) l(1) c] by blast
    then show ?thesis using False c(2) IH by (cases e) (simp_all add: Let_def)
  qed
qed

definition has_room :: "filesys_struct \<Rightarrow> nat \<Rightarrow> bool" where
  "has_room s n \<longleftrightarrow> free_blocks s \<noteq> 0 \<and> free_inodes s \<noteq> 0
     \<and> (\<exists>i < MAX_NUM_FILE. 0 < i \<and> itype (inodes s i) = '''')
     \<and> unat (isize (inodes s n)) < 8 * BLOCK_SIZE \<and> pointers (inodes s n) 7 = 0"

lemma counter_free:
  assumes "counter_ok s" "free_blocks s \<noteq> 0"
  shows "get_free_block_num_from_bitmap s \<noteq> -1"
proof
  assume "get_free_block_num_from_bitmap s = -1"
  then have all: "\<forall>b < DATA_BLOCKS_NUM. blk_used s b" using get_free_block_num_None assms(2) by auto
  have "free_set s = {}" using all by (auto simp: free_set_def)
  then have "unat (free_blocks s) = 0" using assms(1) by (simp add: counter_ok_def)
  then show False using assms(2) by (simp add: unat_eq_0)
qed

lemma has_room_block: "fs_ok s \<Longrightarrow> has_room s n \<Longrightarrow> get_free_block_num_from_bitmap s \<noteq> -1"
  using counter_free fs_okD(3) by (simp add: has_room_def)

lemma room_entry:
  assumes ok: "fs_ok s" and n: "n < MAX_NUM_FILE" and room: "has_room s n"
  obtains a s1 where "get_next_entry s n = Some (Some a, s1)" "a \<in> set (entries s1 n)"
proof -
  define seg where "seg = unat (isize (inodes s n)) div BLOCK_SIZE"
  have "seg < 8" using room unfolding seg_def has_room_def by (simp add: less_mult_imp_div_less)
  then obtain a s1 where "next_entry_direct s n seg (INODE_NUM_DIRECT_PTR - seg) = Some (Return (Some a), s1)"
    using next_entry_direct_room [OF fs_okD(1) [OF ok] n, of seg "INODE_NUM_DIRECT_PTR - seg"] room
      has_room_block [OF ok room] by (auto simp: has_room_def)
  then have "get_next_entry s n = Some (Some a, s1)"
    using n by (simp only: get_next_entry_def get_inode_def Let_def seg_def [symmetric] if_True
        Option.bind.bind_lunit case_prod_conv ctl.case)
  moreover obtain r s' where "get_next_entry s n = Some (r, s')"
    "\<And>a. r = Some a \<Longrightarrow> unat (isize (inodes s n)) < 8 * BLOCK_SIZE \<Longrightarrow> a \<in> set (entries s' n)"
    by (rule get_next_entry_spec [OF fs_okD(1) [OF ok] n]) (rule that)
  ultimately show thesis using that room by (auto simp: has_room_def)
qed

section \<open>Outcomes\<close>

lemma rd_create_at:
  assumes ok: "fs_ok s" and vm: "serves vm (path_of (ds @ [t]))" and t: "is_name t"
    and path: "resolve (dir_map s) 0 ds = Some n" "is_dir s n"
    and room: "free_blocks s \<noteq> 0" "free_inodes s \<noteq> 0" "\<exists>i < MAX_NUM_FILE. 0 < i \<and> itype (inodes s i) = ''''"
    and e: "get_next_entry s n = Some (Some a, s1)" "a \<in> set (entries s1 n)"
  obtains m s' where "rd_create vm s (path_of (ds @ [t])) type mode = Some (0, s')" "grown n s s1"
    "fs_ok s1" "is_dir s1 n" "free_entry s1 n a"
    "0 < m" "m < MAX_NUM_FILE" "m \<noteq> n" "itype (inodes s m) = ''''"
    "\<forall>i. 0 < i \<longrightarrow> i < m \<longrightarrow> itype (inodes s i) \<noteq> ''''" "created s1 n a m t type mode s'"
proof -
  note D = resolve_dirs [OF path(1)]
  from ok vm D [THEN conjunct2] t D [THEN conjunct1] resolve_is_lookup [OF path(1)] path(2) show thesis
  proof (cases rule: rd_create_outcome [where type = type and mode = mode])
    case (failed s0)
    then show ?thesis using room e by auto
  next
    case (entered s0 a0 m s')
    then have "a0 = a" "s0 = s1" using e(1) by simp_all
    then show ?thesis using entered that by blast
  qed
qed

lemma created_new_dir:
  assumes "fs_ok s1" "is_dir s1 n" "free_entry s1 n a" "created s1 n a m t type mode s'"
    "m \<noteq> n" "m < MAX_NUM_FILE"
  shows "inodes s' m = zero_inode\<lparr>itype := type, access := mode\<rparr>" "entries s' m = []"
    "isize (inodes s' n) = isize (inodes s1 n) + 16"
proof -
  have n: "n < MAX_NUM_FILE" using assms(2) by (simp add: is_dir_def)
  show "entries s' m = []"
    by (rule created_entries(4) [OF fs_okD(1) [OF assms(1)] assms(3-5) n assms(6)])
  show "inodes s' m = zero_inode\<lparr>itype := type, access := mode\<rparr>"
    "isize (inodes s' n) = isize (inodes s1 n) + 16"
    using createdD(7) [OF assms(4)] assms(5) by auto
qed

text \<open>What a successful \<^verbatim>\<open>rd_create\<close> of a new name establishes.\<close>

definition enters ::
  "filesys_struct \<Rightarrow> nat \<Rightarrow> string \<Rightarrow> string \<Rightarrow> 32 word \<Rightarrow> nat \<Rightarrow> filesys_struct \<Rightarrow> bool" where
  "enters s n t type mode m s' \<longleftrightarrow>
     fs_ok s' \<and> 0 < m \<and> m < MAX_NUM_FILE \<and> itype (inodes s m) = ''''
     \<and> (\<forall>i \<in> {1..<m}. itype (inodes s i) \<noteq> '''')
     \<and> dir_map s' = enter (dir_map s) n t m
     \<and> inodes s' m = zero_inode\<lparr>itype := type, access := mode\<rparr>
     \<and> isize (inodes s' n) = isize (inodes s n) + 16"

lemma rd_create_enters_at:
  assumes ok: "fs_ok s" and vm: "serves vm (path_of (ds @ [t]))" and t: "is_name t"
    and path: "resolve (dir_map s) 0 ds = Some n" "is_dir s n"
    and room: "free_blocks s \<noteq> 0" "free_inodes s \<noteq> 0" "\<exists>i < MAX_NUM_FILE. 0 < i \<and> itype (inodes s i) = ''''"
    and e: "get_next_entry s n = Some (Some a, s1)" "a \<in> set (entries s1 n)"
    and fresh: "dir_map s n t = None"
  obtains m s' where "rd_create vm s (path_of (ds @ [t])) type mode = Some (0, s')" "enters s n t type mode m s'"
    "m \<noteq> n" "grown n s s1" "fs_ok s1" "free_entry s1 n a" "created s1 n a m t type mode s'"
proof -
  obtain m s' where c: "rd_create vm s (path_of (ds @ [t])) type mode = Some (0, s')" "grown n s s1"
    "fs_ok s1" "is_dir s1 n" "free_entry s1 n a"
    "0 < m" "m < MAX_NUM_FILE" "m \<noteq> n" "itype (inodes s m) = ''''"
    "\<forall>i. 0 < i \<longrightarrow> i < m \<longrightarrow> itype (inodes s i) \<noteq> ''''" "created s1 n a m t type mode s'"
    by (rule rd_create_at [OF ok vm t path room e])
  have map1: "dir_map s1 = dir_map s" by (rule grown_map [OF ok path(2) c(2)])
  have "itype (inodes s1 m) = ''''" using c(9) grown_type [OF c(2)] by simp
  then have "dir_map s' = enter (dir_map s1) n t m"
    using created_map [OF c(3-5,11,8) _ t c(7) e(2)] fresh map1 by simp
  moreover have "fs_ok s'" by (rule created_ok [OF c(3-5,11,8,6,7)])
  ultimately have "enters s n t type mode m s'"
    using c(6,7,9,10) map1 created_new_dir [OF c(3-5,11,8,7)] grownD(4) [OF c(2)]
    by (auto simp: enters_def)
  with c show thesis by (intro that)
qed

lemma rd_create_enters:
  assumes ok: "fs_ok s" and vm: "serves vm (path_of (ds @ [t]))" and t: "is_name t"
    and path: "resolve (dir_map s) 0 ds = Some n" "is_dir s n" and room: "has_room s n"
    and fresh: "dir_map s n t = None"
  shows "\<exists>m s'. rd_create vm s (path_of (ds @ [t])) type mode = Some (0, s') \<and> enters s n t type mode m s'"
proof -
  have n: "n < MAX_NUM_FILE" using path(2) by (simp add: is_dir_def)
  obtain a s1 where e: "get_next_entry s n = Some (Some a, s1)" "a \<in> set (entries s1 n)" by (rule room_entry [OF ok n room])
  note R = room [unfolded has_room_def]
  obtain m s' where "rd_create vm s (path_of (ds @ [t])) type mode = Some (0, s')" "enters s n t type mode m s'"
    by (rule rd_create_enters_at [OF ok vm t path _ _ _ e fresh]) (use R in blast)+
  then show ?thesis by blast
qed

section \<open>The sample partition\<close>

lemma sample_entry:
  assumes "is_dir sample_fs n" "a \<in> set (entries sample_fs n)"
  obtains j where "n = 0" "a = 16 * j" "j < ENTRIES_PER_BLOCK"
proof -
  have n: "n < MAX_NUM_FILE" using assms(1) by (simp add: is_dir_def)
  from entries_elim [OF sample_wf n assms(2)] obtain l c j where
    l: "data_loc n l" "c < DATA_BLOCKS_NUM" "ptr_at sample_fs l = blk_addr sample_fs c"
      "j < ENTRIES_PER_BLOCK" "a = BLOCK_SIZE * c + 16 * j" .
  have "blk_addr sample_fs c \<noteq> 0" using blk_addr_nonzero l(2) by simp
  then have "l = Dir 0 0" "blk_addr sample_fs c = blk_addr sample_fs 0"
    using l(1,3) sample_ptr [of l] by (auto simp: data_loc_def split: if_splits)
  then have "c = 0" "n = 0" using blk_addr_inj [of c 0 sample_fs] l(1,2) by (auto simp: data_loc_def)
  then show thesis using that [of j] l(4,5) by simp
qed

lemma sample_entry_num: "entry_num sample_fs (16 * j) = (if j = 0 then 1 else 0)"
proof -
  have "map (data_blocks sample_fs) [16 * j + 14..<16 * j + 14 + 2] =
      [data_blocks sample_fs (16 * j + 14), data_blocks sample_fs (16 * j + 15)]"
    by (simp add: upt_rec add.commute)
  then show ?thesis by (simp add: entry_num_def sample_fs_def sample_data_def)
qed

lemma sample_dirs: "dirs_ok sample_fs"
  unfolding dirs_ok_def
proof (intro allI impI)
  fix n a assume "is_dir sample_fs n" "a \<in> set (entries sample_fs n)"
  then obtain j where j: "n = 0" "a = 16 * j" "j < ENTRIES_PER_BLOCK" by (rule sample_entry)
  then show "slot_wf sample_fs n a"
    using sample_entry_num [of j] by (auto simp: slot_wf_def sample_fs_def sample_data_def)
qed

lemma sample_is_dir [simp]: "is_dir sample_fs 0"
  by (simp add: is_dir_def sample_root_def)

lemma sample_ok [simp]: "fs_ok sample_fs"
  using sample_dirs sample_counter by (simp add: fs_ok_def)

lemma sample_find_g: "dir_map sample_fs 0 ''g'' = None"
proof -
  have "\<not> entry_is sample_fs ''g'' a" if "a \<in> set (entries sample_fs 0)" for a
    using entry_is_first [of sample_fs "''g''" a] by (auto simp: sample_fs_def sample_data_def split: if_splits)
  then have "dir_find sample_fs 0 ''g'' = None" by (auto simp: dir_find_def find_None_iff)
  then show ?thesis by (simp add: dir_map_def)
qed

lemma sample_find_f: "dir_map sample_fs 0 ''f'' = Some 1"
proof -
  have f: "is_name ''f''" by (simp add: is_name_def)
  have "dir_search sample_fs 0 ''f'' = Some (case dir_find sample_fs 0 ''f'' of None \<Rightarrow> 0 | Some a \<Rightarrow> entry_num sample_fs a)"
    using dir_search_dir [OF sample_wf sample_dirs sample_is_dir f] .
  then show ?thesis using sample_root_search f by (auto simp: dir_map_def split: option.splits)
qed

lemma sample_room: "has_room sample_fs 0"
proof -
  have "itype (inodes sample_fs 2) = ''''" by (simp add: zero_inode_def)
  then have "\<exists>i < MAX_NUM_FILE. 0 < i \<and> itype (inodes sample_fs i) = ''''" by (intro exI [of _ 2]) simp
  then show ?thesis by (simp add: has_room_def) (simp add: sample_fs_def sample_root_def zero_inode_def)
qed

section \<open>Contracts\<close>

text \<open>C17: Path lookup refines the abstract name space.  For a path whose components before
  the last are directories, \<^verbatim>\<open>my_find_inode_number\<close> (strsep, direct, single and double
  indirect scans) returns the index node the map leads to from the root, and -1 exactly
  when some component has no entry.  The only undefined case is its copy of the path, for which
  it asks for one byte less than it stores.\<close>

theorem lookup_refines:
  assumes "fs_ok s" "through_dirs s 0 ts" "\<forall>t \<in> set ts. is_name t"
  shows "my_find_inode_number vm s (path_of ts) =
    (case copy_path vm Temp_Path (path_of ts) of
       None \<Rightarrow> None
     | Some _ \<Rightarrow> Some (case resolve (dir_map s) 0 ts of None \<Rightarrow> -1 | Some m \<Rightarrow> int m))"
  using lookup_map [OF assms] copy_path_SomeD [of vm Temp_Path "path_of ts"]
  by (auto simp: my_find_inode_number_def split: option.splits)

theorem lookup_refines_witness:
  "my_find_inode_number zero_vm sample_fs ''/g'' = Some (-1) \<and> my_find_inode_number zero_vm sample_fs ''/f'' = Some 1"
proof -
  have "through_dirs sample_fs 0 [t]" for t by (auto split: option.splits)
  then show ?thesis
    using lookup_refines [of sample_fs "[''g'']" zero_vm] lookup_refines [of sample_fs "[''f'']" zero_vm]
      copy_path_served [OF zero_vm_grants] sample_find_f sample_find_g by (simp add: is_name_def path_of_def)
qed

text \<open>The two copies of the directory search agree.  In a directory,
  \<^verbatim>\<open>find_entry_in_current_dir\<close> returns the address of an entry exactly when the search of
  \<^verbatim>\<open>my_find_inode_number\<close> leaves the directory, and then the search's result is the number
  in that entry.\<close>

theorem searches_agree:
  assumes "fs_ok s" "is_dir s n" "is_name t"
  shows "\<exists>r. find_entry_in_current_dir s n t = Some r
    \<and> dir_search s n t = Some (case r of None \<Rightarrow> n | Some a \<Rightarrow> entry_num s a)
    \<and> (r = None \<longleftrightarrow> dir_search s n t = Some n)"
proof -
  note S = fs_okD [OF assms(1)]
  have n: "n < MAX_NUM_FILE" using assms(2) by (simp add: is_dir_def)
  have len: "length t < 14" using is_name_props [OF assms(3)] by simp
  show ?thesis
    using find_entry_hit [OF S(1) n len] dir_search_dir [OF S(1,2) assms(2,3)]
      dir_find_num(3) [OF S(2) assms(2,3)]
    by (intro exI [of _ "dir_find s n t"]) (auto split: option.splits)
qed

theorem searches_agree_witness:
  "\<exists>r. find_entry_in_current_dir sample_fs 0 ''f'' = Some r \<and> r \<noteq> None"
  using searches_agree [of sample_fs 0 "''f''"] sample_root_search by (auto simp: is_name_def)

lemma rd_create_keeps:
  assumes "fs_ok s" "serves vm (path_of (ds @ [t]))" "is_name t" "resolve (dir_map s) 0 ds = Some n" "is_dir s n"
  shows "\<exists>r s'. rd_create vm s (path_of (ds @ [t])) type mode = Some (r, s') \<and> r \<in> {0, -1} \<and> fs_ok s'"
proof -
  note D = resolve_dirs [OF assms(4)]
  from assms(1,2) D [THEN conjunct2] assms(3) D [THEN conjunct1] resolve_is_lookup [OF assms(4)] assms(5)
  show ?thesis
  proof (cases rule: rd_create_outcome [where type = type and mode = mode])
    case (failed s1)
    then show ?thesis using grown_ok [OF assms(1) _ assms(5)] by blast
  next
    case (entered s1 a m s')
    then show ?thesis using created_ok [OF entered(3-5,12,9,7,8)] by blast
  qed
qed

text \<open>C11: \<^verbatim>\<open>rd_create\<close> on a path through directories returns 0 or -1, and the
  partition stays well formed: the pointers, the bitmap, the free block counter, and every
  entry of every directory.  This is on condition that the allocations for the copies of the
  path succeed and yield the spare byte and the NULs that the code relies on (\<open>serves\<close>); with
  other memory the directory part of the path has no terminator.\<close>

theorem rd_create_safe:
  assumes "fs_ok s" "serves vm (path_of (ds @ [t]))" "is_name t" "resolve (dir_map s) 0 ds = Some n" "is_dir s n"
  shows "\<exists>r s'. rd_create vm s (path_of (ds @ [t])) type mode = Some (r, s') \<and> r \<in> {0, -1} \<and> fs_ok s'"
  by (rule rd_create_keeps [OF assms])

theorem rd_create_safe_witness:
  "\<exists>r s'. rd_create zero_vm sample_fs ''/g'' ''reg'' 420 = Some (r, s') \<and> fs_ok s'"
  using rd_create_safe [of sample_fs zero_vm "[]" "''g''" 0 "''reg''" 420]
  by (auto simp: is_name_def path_of_def)

text \<open>C7: \<^verbatim>\<open>rd_create\<close> of a new name in a directory with room succeeds and refines the
  abstract operation: the name space changes in exactly one point, the new file is the
  least unused index node, empty and with the given type and mode, the directory grows
  by 16 bytes, and its path then leads to it.  Room (\<open>has_room\<close>) means that a block and an index node
  are free, and that the directory has a size below 2048 bytes and no eighth direct block yet.
  The allocations for the copies of the path yield the spare byte and the NULs that the
  code relies on (\<open>serves\<close>).\<close>

theorem rd_create_refines:
  assumes "fs_ok s" "serves vm (path_of (ds @ [t]))" "is_name t" "resolve (dir_map s) 0 ds = Some n" "is_dir s n"
    "has_room s n" "dir_map s n t = None"
  shows "\<exists>m s'. rd_create vm s (path_of (ds @ [t])) type mode = Some (0, s')
    \<and> m = (LEAST i. 0 < i \<and> itype (inodes s i) = '''') \<and> m < MAX_NUM_FILE
    \<and> dir_map s' = enter (dir_map s) n t m
    \<and> inodes s' m = zero_inode\<lparr>itype := type, access := mode\<rparr>
    \<and> isize (inodes s' n) = isize (inodes s n) + 16
    \<and> my_find_inode_number vm s' (path_of (ds @ [t])) = Some (int m)"
proof -
  obtain m s' where c: "rd_create vm s (path_of (ds @ [t])) type mode = Some (0, s')"
    "enters s n t type mode m s'"
    using rd_create_enters [OF assms] by blast
  have E: "0 < m" "m < MAX_NUM_FILE" "itype (inodes s m) = ''''" "\<forall>i \<in> {1..<m}. itype (inodes s i) \<noteq> ''''"
    "dir_map s' = enter (dir_map s) n t m" "inodes s' m = zero_inode\<lparr>itype := type, access := mode\<rparr>"
    "isize (inodes s' n) = isize (inodes s n) + 16" "fs_ok s'"
    using c(2) by (auto simp: enters_def)
  have least: "m = (LEAST i. 0 < i \<and> itype (inodes s i) = '''')"
  proof (rule Least_equality [symmetric])
    show "m \<le> y" if "0 < y \<and> itype (inodes s y) = ''''" for y
      using that E(4) by (cases "y < m") auto
  qed (use E(1,3) in simp)
  have "resolve (dir_map s') 0 (ds @ [t]) = Some m"
    using resolve_enter_keeps [where D = "dir_map s" and n = n and t = t, OF assms(7,4), of m] E(5)
    by (simp add: resolve_append enter_def)
  then have "search_path s' (path_of (ds @ [t])) = Some (int m)" by (rule lookup_found [OF E(8)])
  moreover have "grants vm Temp_Path (length (path_of (ds @ [t])))" using assms(2) by (simp add: serves_def)
  ultimately have "my_find_inode_number vm s' (path_of (ds @ [t])) = Some (int m)" by (simp add: my_find_granted)
  then show ?thesis using c(1) least E(2,5-7) by blast
qed

theorem rd_create_refines_witness:
  "\<exists>m s'. rd_create zero_vm sample_fs ''/g'' ''reg'' 420 = Some (0, s')
    \<and> my_find_inode_number zero_vm s' ''/g'' = Some (int m)"
  using rd_create_refines [of sample_fs zero_vm "[]" "''g''" 0 "''reg''" 420] sample_room sample_find_g
  by (auto simp: is_name_def path_of_def)

text \<open>C18: \<^verbatim>\<open>rd_mkdir\<close> of a new name succeeds where there is room and makes an empty
  directory, entered in the name space under its path: what \<^verbatim>\<open>rd_create\<close> and
  \<^verbatim>\<open>rd_mkdir\<close> then need to work inside it.  Room (\<open>has_room\<close>) is a free block, a free index
  node, and a parent directory of fewer than 2048 bytes without an eighth direct block; the
  memory for the copies of the path is as the code relies on (\<open>serves\<close>).\<close>

theorem rd_mkdir_refines:
  assumes "fs_ok s" "serves vm (path_of (ds @ [d]))" "is_name d" "resolve (dir_map s) 0 ds = Some n" "is_dir s n"
    "has_room s n" "dir_map s n d = None"
  shows "\<exists>m s'. rd_mkdir vm s (path_of (ds @ [d])) = Some (0, s') \<and> fs_ok s' \<and> is_dir s' m
    \<and> dir_map s' = enter (dir_map s) n d m \<and> dir_map s' m = Map.empty
    \<and> resolve (dir_map s') 0 (ds @ [d]) = Some m"
proof -
  obtain m s' where c: "rd_create vm s (path_of (ds @ [d])) ''dir'' 1 = Some (0, s')"
    "enters s n d ''dir'' 1 m s'"
    using rd_create_enters [OF assms] by blast
  have E: "m < MAX_NUM_FILE" "itype (inodes s m) = ''''"
    "dir_map s' = enter (dir_map s) n d m" "itype (inodes s' m) = ''dir''" "fs_ok s'"
    using c(2) by (auto simp: enters_def)
  have names: "\<forall>u \<in> set (ds @ [d]). is_name u" using resolve_dirs [OF assms(4)] assms(3) by auto
  have "path_of (ds @ [d]) \<noteq> ''/''" using path_of_Cons_neq [OF _ names] by simp
  moreover have "grants vm Pwd (length (path_of (ds @ [d])))" "grants vm Filename (length (path_of (ds @ [d])))"
    using assms(2) by (simp_all add: serves_def)
  then have "\<exists>b. fresh_buffer vm Pwd (length (path_of (ds @ [d]))) = Some b"
    "\<exists>b. fresh_buffer vm Filename (length (path_of (ds @ [d]))) = Some b" by (auto elim!: fresh_granted)
  ultimately have "rd_mkdir vm s (path_of (ds @ [d])) = Some (0, s')"
    using c(1) by (auto simp: rd_mkdir_def)
  moreover have "m \<noteq> n" using E(2) assms(5) by (auto simp: is_dir_def)
  then have "dir_map s' m = Map.empty"
    using E(2,3) by (auto simp: enter_def dir_map_def is_dir_def fun_eq_iff)
  moreover have "resolve (dir_map s') 0 (ds @ [d]) = Some m"
    using resolve_enter_keeps [where D = "dir_map s" and n = n and t = d, OF assms(7,4), of m] E(3)
    by (simp add: resolve_append enter_def)
  ultimately show ?thesis using E(1,3-5) by (auto simp: is_dir_def)
qed

theorem rd_mkdir_refines_witness:
  "\<exists>m s'. rd_mkdir zero_vm sample_fs ''/g'' = Some (0, s') \<and> is_dir s' m
    \<and> resolve (dir_map s') 0 [''g''] = Some m"
  using rd_mkdir_refines [of sample_fs zero_vm "[]" "''g''" 0] sample_room sample_find_g
  by (auto simp: is_name_def path_of_def)

text \<open>C38: \<^verbatim>\<open>rd_create\<close> does not look for an existing entry: a name that is already in the
  directory is entered a second time, for another index node, although the comment of the
  function calls that an error.  Room is as for a new name, and the memory for the path is such
  that the call does not fail on it (\<open>serves\<close>).\<close>

theorem rd_create_duplicate:
  assumes "fs_ok s" "serves vm (path_of (ds @ [t]))" "is_name t" "resolve (dir_map s) 0 ds = Some n" "is_dir s n"
    "has_room s n" "dir_map s n t = Some old" "itype (inodes s old) \<noteq> ''''"
  shows "\<exists>m s' a b. rd_create vm s (path_of (ds @ [t])) type mode = Some (0, s') \<and> m \<noteq> old
    \<and> a \<in> set (entries s' n) \<and> b \<in> set (entries s' n) \<and> a \<noteq> b
    \<and> entry_is s' t a \<and> entry_is s' t b \<and> entry_num s' a = m \<and> entry_num s' b = old"
proof -
  have n: "n < MAX_NUM_FILE" using assms(5) by (simp add: is_dir_def)
  obtain a s1 where e: "get_next_entry s n = Some (Some a, s1)" "a \<in> set (entries s1 n)" by (rule room_entry [OF assms(1) n assms(6)])
  note R = assms(6) [unfolded has_room_def]
  obtain m s' where c: "rd_create vm s (path_of (ds @ [t])) type mode = Some (0, s')" "grown n s s1"
    "fs_ok s1" "is_dir s1 n" "free_entry s1 n a"
    "0 < m" "m < MAX_NUM_FILE" "m \<noteq> n" "itype (inodes s m) = ''''"
    "\<forall>i. 0 < i \<longrightarrow> i < m \<longrightarrow> itype (inodes s i) \<noteq> ''''" "created s1 n a m t type mode s'"
    by (rule rd_create_at [OF assms(1-5) _ _ _ e]) (use R in blast)+
  note E = created_entries [OF fs_okD(1) [OF c(3)] c(5,11,8) n] and C = createdD [OF c(11)]
  have "dir_map s1 n t = Some old" using grown_map [OF assms(1,5) c(2)] assms(7) by simp
  then obtain b where b: "dir_find s1 n t = Some b" "entry_num s1 b = old"
    by (auto simp: dir_map_def split: if_splits)
  have b': "entry_is s1 t b" "b \<in> set (entries s1 n)"
    using find_Some_mem [OF b(1) [unfolded dir_find_def]] by auto
  have "0 < old" using dir_map_range(1) [OF assms(1,7)] .
  moreover have "entry_num s1 a = 0" using free_entryE [OF c(5)] by metis
  ultimately have ba: "b \<noteq> a" using b(2) by auto
  note same = same_entry_facts [OF E(2) [OF b'(2) ba]]
  have "entry_is s' t b" "entry_num s' b = old"
    using same(1) same(3) [of t] b(2) b'(1) is_name_props [OF assms(3)] by auto
  moreover have "m \<noteq> old" using c(9) assms(8) by auto
  ultimately show ?thesis using c(1) e(2) C(5,6) E(1) b'(2) ba by metis
qed

theorem rd_create_duplicate_witness:
  "\<exists>s' m. rd_create zero_vm sample_fs ''/f'' ''reg'' 420 = Some (0, s') \<and> m \<noteq> (1 :: nat)
    \<and> (\<exists>a. entry_is s' ''f'' a \<and> entry_num s' a = m)"
  using rd_create_duplicate [of sample_fs zero_vm "[]" "''f''" 0 1 "''reg''" 420] sample_room sample_find_f
  by (auto simp: is_name_def path_of_def sample_file_def)

section \<open>Initialisation\<close>

definition empty_fs :: "ptr \<Rightarrow> filesys_struct" where
  "empty_fs a = (zero_filesys a)\<lparr>free_blocks := 7931, free_inodes := 1023,
     inodes := (\<lambda>n. if n = 0 then zero_inode\<lparr>itype := ''dir''\<rparr> else zero_inode)\<rparr>"

lemma init_filesys_eq:
  assumes "a \<noteq> 0" "serves vm ''/''"
  shows "init_filesys vm a = Some (0, empty_fs a)"
proof -
  have "grants vm Pwd 1" "grants vm Filename 1" using assms(2) by (simp_all add: serves_def)
  then have "\<exists>b. fresh_buffer vm Pwd 1 = Some b" "\<exists>b. fresh_buffer vm Filename 1 = Some b" by (auto elim!: fresh_granted)
  then show ?thesis
    using assms(1)
    by (auto simp: init_filesys_def rd_mkdir_def empty_fs_def zero_filesys_def set_inode_def fun_eq_iff)
qed

lemma empty_ptr: "ptr_at (empty_fs a) l = 0"
  by (induction l) (auto simp: empty_fs_def zero_inode_def)

lemma empty_used [simp]: "\<not> blk_used (empty_fs a) b"
  by (simp add: bit_used_def empty_fs_def zero_filesys_def)

lemma empty_entries: "n < MAX_NUM_FILE \<Longrightarrow> entries (empty_fs a) n = []"
  by (simp add: entries_def loc_entries_def block_entries_def empty_ptr)

lemma empty_region: "region_ok (empty_fs a) = region_ok (zero_filesys a)"
  by (simp add: region_ok_def empty_fs_def)

lemma empty_ok:
  assumes "region_ok (zero_filesys a)"
  shows "fs_ok (empty_fs a)"
proof -
  have "wf_blocks (empty_fs a)"
    using assms empty_region by (simp add: wf_blocks_def empty_ptr)
  moreover have "dirs_ok (empty_fs a)" by (auto simp: dirs_ok_def is_dir_def empty_entries)
  moreover have "free_set (empty_fs a) = {..<DATA_BLOCKS_NUM}" by (auto simp: free_set_def)
  then have "counter_ok (empty_fs a)" by (simp add: counter_ok_def) (simp add: empty_fs_def)
  moreover have "is_dir (empty_fs a) 0" by (simp add: is_dir_def empty_fs_def)
  ultimately show ?thesis by (simp add: fs_ok_def)
qed

text \<open>The initialisation makes the empty file system: 7931 free blocks, 1023 free index
  nodes, and a root directory without entries in a well-formed partition.\<close>

theorem init_filesys_ok:
  assumes "region_ok (zero_filesys a)" "serves vm ''/''"
  shows "\<exists>s. init_filesys vm a = Some (0, s) \<and> fs_ok s \<and> free_blocks s = 7931 \<and> free_inodes s = 1023
    \<and> dir_map s = (\<lambda>_. Map.empty) \<and> (\<forall>b. \<not> blk_used s b)"
proof (intro exI conjI)
  have a: "a \<noteq> 0" using assms(1) by (auto simp: region_ok_def zero_filesys_def)
  show "init_filesys vm a = Some (0, empty_fs a)" by (rule init_filesys_eq [OF a assms(2)])
  show "fs_ok (empty_fs a)" by (rule empty_ok [OF assms(1)])
  show "dir_map (empty_fs a) = (\<lambda>_. Map.empty)"
    by (auto simp: fun_eq_iff dir_map_def is_dir_def dir_find_def empty_entries)
qed (simp_all, simp_all add: empty_fs_def)

theorem init_filesys_ok_witness:
  "\<exists>s. init_filesys zero_vm 0xE0000000 = Some (0, s) \<and> fs_ok s"
  using init_filesys_ok [of "0xE0000000" zero_vm] by (auto simp: region_ok_def zero_filesys_def)

end
