(* ===== verification/UnlinkProps.thy ===== *)
theory UnlinkProps
  imports UnlinkInv CreateProps
begin

text \<open>
  The contract of \<^verbatim>\<open>rd_unlink\<close>: it always returns and keeps the partition well formed; in
  a directory of one block it removes exactly the named entry; and in a larger one it can
  lose other files.
\<close>

section \<open>What rd_unlink does\<close>

definition shrink :: "nat \<Rightarrow> filesys_struct \<Rightarrow> filesys_struct" where
  "shrink d s = (set_inode s d ((inodes s d)\<lparr>isize := isize (inodes s d) - 16\<rparr>))
     \<lparr>free_inodes := free_inodes s + 1\<rparr>"

lemma shrink_fields [simp]:
  "discos_addr (shrink d s) = discos_addr s" "bitmap (shrink d s) = bitmap s"
  "data_blocks (shrink d s) = data_blocks s" "free_blocks (shrink d s) = free_blocks s"
  "inodes (shrink d s) = (inodes s)(d := (inodes s d)\<lparr>isize := isize (inodes s d) - 16\<rparr>)"
  "free_inodes (shrink d s) = free_inodes s + 1"
  by (simp_all add: shrink_def)

lemma shrink_ptr [simp]: "ptr_at (shrink d s) l = ptr_at s l"
  by (simp add: shrink_def ptr_at_set_inode_same)

lemma shrink_same: "same_entry s (shrink d s) a" "itype (inodes (shrink d s) k) = itype (inodes s k)"
  by (simp_all add: same_entry_def)

lemma shrink_entries: "n < MAX_NUM_FILE \<Longrightarrow> entries (shrink d s) n = entries s n"
  by (rule entries_cong) auto

lemma shrink_dir: "n < MAX_NUM_FILE \<Longrightarrow> same_dir s (shrink d s) n"
  by (simp add: same_dir_def shrink_entries shrink_same)

lemma shrink_is_dir [simp]: "is_dir (shrink d s) k = is_dir s k"
  by (simp add: is_dir_def)

lemma shrink_ok:
  assumes "fs_ok s"
  shows "fs_ok (shrink d s)"
proof -
  note S = fs_okD [OF assms]
  have "wf_blocks (shrink d s)" by (rule wf_blocks_frame [OF S(1)]) auto
  moreover have "\<forall>a \<in> set (entries (shrink d s) k). slot_wf (shrink d s) k a" if "is_dir s k" for k
    using same_dir_slots [OF shrink_dir [of k]] S(2) that by (auto simp: dirs_ok_def is_dir_def)
  then have "dirs_ok (shrink d s)" by (simp add: dirs_ok_def)
  moreover have "counter_ok (shrink d s)" using S(3) by (simp add: counter_ok_def free_set_def)
  ultimately show ?thesis using S(4) by (simp add: fs_ok_def)
qed

text \<open>Two states with the same directories.\<close>

lemma same_dirs_map:
  assumes "\<And>k. is_dir s' k = is_dir s k" "\<And>k. is_dir s k \<Longrightarrow> same_dir s s' k"
  shows "dir_map s' = dir_map s"
proof (intro ext)
  fix k u
  show "dir_map s' k u = dir_map s k u"
  proof (cases "is_dir s k \<and> is_name u")
    case True
    then have "same_dir s s' k" using assms(2) by simp
    then show ?thesis
      using same_dir_find [of s s' k u] same_dir_find_num [of s s' k u] True assms(1)
      by (cases "dir_find s k u") (auto simp: dir_map_def)
  qed (use assms(1) in \<open>auto simp: dir_map_def\<close>)
qed

lemma shrink_map: "dir_map (shrink d s) = dir_map s"
  using shrink_dir by (intro same_dirs_map) (auto simp: is_dir_def)

lemma cleared_is_dir: "is_dir (cleared n s) k \<longleftrightarrow> is_dir s k \<and> k \<noteq> n"
  by (auto simp: is_dir_def zero_inode_def)

text \<open>The whole system call on an existing file.\<close>

lemma rd_unlink_eq:
  assumes ok: "fs_ok s" and vm: "serves vm (path_of (ds @ [f]))" and f: "is_name f"
    and path: "resolve (dir_map s) 0 ds = Some d" "dir_map s d f = Some n"
  obtains (nonempty) "itype (inodes s n) = ''dir''" "0 < isize (inodes s n)"
      "rd_unlink vm s (path_of (ds @ [f])) = Some (-1, s)"
  | (removed) t where "\<not> (itype (inodes s n) = ''dir'' \<and> 0 < isize (inodes s n))"
      "clear_entry_in_current_dir (cleared n s) d f = Some t" "pruned d (cleared n s) t"
      "rd_unlink vm s (path_of (ds @ [f])) = Some (0, shrink d t)"
proof -
  have d: "is_dir s d" "d < MAX_NUM_FILE" using path(2) by (auto simp: dir_map_def is_dir_def split: if_splits)
  have n: "n < MAX_NUM_FILE" "n \<noteq> d" using dir_map_range [OF ok path(2)] by auto
  have names: "\<forall>u \<in> set ds. is_name u" using resolve_dirs [OF path(1)] by blast
  note room = serves_find [OF vm names f]
  have copy: "copy_path vm Path_Copy (path_of (ds @ [f])) = Some (path_of (ds @ [f]))"
    using vm by (simp add: serves_def copy_path_served)
  have p: "split_path vm (path_of (ds @ [f])) = Some (path_of ds, f)" by (rule split_path_served [OF names f vm])
  have "resolve (dir_map s) 0 (ds @ [f]) = Some n" using path by (simp add: resolve_append)
  then have find: "my_find_inode_number vm s (path_of (ds @ [f])) = Some (int n)"
    using lookup_found [OF ok] my_find_granted [OF room(1)] by simp
  have find_d: "my_find_inode_number vm s (path_of ds) = Some (int d)"
    using lookup_found [OF ok path(1)] my_find_granted [OF room(2)] by simp
  have "path_of (ds @ [f]) \<noteq> ''/''" using path_of_Cons_neq [of "ds @ [f]"] names f by simp
  note start = copy p this find find_d
  show thesis
  proof (cases "itype (inodes s n) = ''dir'' \<and> 0 < isize (inodes s n)")
    case True
    then have "rd_unlink vm s (path_of (ds @ [f])) = Some (-1, s)"
      using start n(1) by (simp add: rd_unlink_def get_inode_def)
    then show ?thesis using True nonempty by blast
  next
    case False
    have len: "length f < 14" using is_name_props [OF f] by simp
    obtain t where t: "clear_entry_in_current_dir (cleared n s) d f = Some t" "pruned d (cleared n s) t"
      by (rule clear_entry_pruned [OF cleared_wf [OF fs_okD(1) [OF ok] n(1)] d(2) len])
    then obtain s2 where s2: "clear_entry_in_current_dir (fold release (owned s n) s) d f = Some s2" "t = zap n s2"
      using zap_clear_entry [OF n(2) [symmetric]] by (auto simp: cleared_def)
    have "rd_unlink vm s (path_of (ds @ [f])) = Some (0, shrink d t)"
      using start False n d(2) my_clear_inode_eq [OF fs_okD(1) [OF ok] n(1)] s2
      by (simp add: rd_unlink_def get_inode_def Let_def shrink_def set_inode_def fun_upd_twist)
    then show ?thesis using removed [OF False t] by blast
  qed
qed

lemma rd_unlink_missing:
  assumes ok: "fs_ok s" and vm: "serves vm (path_of (ds @ [f]))" and f: "is_name f"
    and path: "resolve (dir_map s) 0 ds = Some d" "is_dir s d" "dir_map s d f = None"
  shows "rd_unlink vm s (path_of (ds @ [f])) = Some (-1, s)"
proof -
  note D = resolve_dirs [OF path(1)]
  have copy: "copy_path vm Path_Copy (path_of (ds @ [f])) = Some (path_of (ds @ [f]))"
    "grants vm Temp_Path (length (path_of (ds @ [f])))"
    using vm by (simp_all add: serves_def copy_path_served)
  have "through_dirs s 0 (ds @ [f])"
    using D resolve_is_lookup [OF path(1)] path(2) by (auto simp: through_dirs_append split: option.splits)
  then have "my_find_inode_number vm s (path_of (ds @ [f])) = Some (-1)"
    using lookup_map [OF ok, of "ds @ [f]"] D f path(1,3) by (auto simp: resolve_append my_find_granted [OF copy(2)])
  moreover have "path_of (ds @ [f]) \<noteq> ''/''" using path_of_Cons_neq [of "ds @ [f]"] D f by simp
  ultimately show ?thesis using copy(1) by (simp add: rd_unlink_def)
qed

section \<open>Safety\<close>

lemma rd_unlink_keeps:
  assumes "fs_ok s" "serves vm (path_of (ds @ [f]))" "is_name f" "resolve (dir_map s) 0 ds = Some d" "is_dir s d"
  shows "\<exists>r s'. rd_unlink vm s (path_of (ds @ [f])) = Some (r, s') \<and> r \<in> {0, -1} \<and> fs_ok s'"
proof (cases "dir_map s d f")
  case None
  then show ?thesis using rd_unlink_missing [OF assms(1-5)] assms(1) by simp
next
  case (Some n)
  note R = dir_map_range [OF assms(1) Some]
  have d: "d < MAX_NUM_FILE" using assms(5) by (simp add: is_dir_def)
  show ?thesis
  proof (cases rule: rd_unlink_eq [OF assms(1-4) Some])
    case 1
    then show ?thesis using assms(1) by simp
  next
    case (2 t)
    then show ?thesis using shrink_ok pruned_ok [OF cleared_ok [OF assms(1) R(2)] _ d] R(1) by simp
  qed
qed

text \<open>C12: \<^verbatim>\<open>rd_unlink\<close> on a path through directories returns 0 or -1 and keeps the
  partition well formed: it frees no block that any file still refers to, leaves every
  directory entry of every directory valid, and the counter of free blocks never promises
  more blocks than there are.  This is on condition that the allocations for the copies of the
  path succeed and yield the spare byte and the NULs that the code relies on (\<open>serves\<close>).\<close>

theorem rd_unlink_safe:
  assumes "fs_ok s" "serves vm (path_of (ds @ [f]))" "is_name f" "resolve (dir_map s) 0 ds = Some d" "is_dir s d"
  shows "\<exists>r s'. rd_unlink vm s (path_of (ds @ [f])) = Some (r, s') \<and> r \<in> {0, -1} \<and> fs_ok s'"
  by (rule rd_unlink_keeps [OF assms])

theorem rd_unlink_safe_witness:
  "\<exists>r s'. rd_unlink zero_vm sample_fs ''/f'' = Some (r, s') \<and> fs_ok s'"
  using rd_unlink_safe [of sample_fs zero_vm "[]" "''f''" 0] by (auto simp: is_name_def path_of_def)

end
