(* ===== verification/UnlinkExact.thy ===== *)
theory UnlinkExact
  imports UnlinkProps
begin

text \<open>
  The exact effect of \<^verbatim>\<open>clear_entry_in_current_dir\<close> on the direct blocks of a directory.
  From the first block with the name on, every block with exactly one used entry is
  dropped, whether or not that entry is the removed one.
\<close>

section \<open>Places that are left alone\<close>

definition untouched :: "filesys_struct \<Rightarrow> filesys_struct \<Rightarrow> loc \<Rightarrow> bool" where
  "untouched s s' l \<longleftrightarrow> ptr_at s' l = ptr_at s l
     \<and> (\<forall>b < DATA_BLOCKS_NUM. ptr_at s l = blk_addr s b \<longrightarrow> same_block s s' b)"

lemma untouched_refl [simp]: "untouched s s l"
  by (simp add: untouched_def)

lemma untouched_trans:
  assumes "untouched s s' l" "untouched s' s'' l" "discos_addr s' = discos_addr s"
  shows "untouched s s'' l"
proof -
  have "blk_addr s' = blk_addr s" by (rule addr_frame(1) [OF assms(3)])
  then show ?thesis using assms(1,2) same_block_trans unfolding untouched_def by metis
qed

lemma untouched_entries:
  assumes "untouched s s' l" "discos_addr s' = discos_addr s" "wf_blocks s" "valid_loc l"
  shows "loc_entries s' l = loc_entries s l" "\<And>a. a \<in> set (loc_entries s l) \<Longrightarrow> same_entry s s' a"
proof -
  have p: "ptr_at s' l = ptr_at s l" using assms(1) by (simp add: untouched_def)
  show "loc_entries s' l = loc_entries s l" by (rule loc_entries_cong [OF assms(2) p])
  fix a assume a: "a \<in> set (loc_entries s l)"
  then have "ptr_at s l \<noteq> 0" by (auto simp: loc_entries_def block_entries_def)
  then obtain b where b: "b < DATA_BLOCKS_NUM" "ptr_at s l = blk_addr s b" by (rule wf_blocksD [OF assms(3,4)])
  then have "same_block s s' b" using assms(1) by (simp add: untouched_def)
  then show "same_entry s s' a" using a same_block_entry loc_entries_blk [OF assms(3) b] by auto
qed

section \<open>The outcome for one block\<close>

abbreviation used_entries :: "filesys_struct \<Rightarrow> loc \<Rightarrow> nat" where
  "used_entries s l \<equiv> length (filter (\<lambda>a. entry_num s a \<noteq> 0) (loc_entries s l))"

abbreviation has_entry :: "filesys_struct \<Rightarrow> string \<Rightarrow> loc \<Rightarrow> bool" where
  "has_entry s f l \<equiv> filter (entry_is s f) (loc_entries s l) \<noteq> []"

definition outcome :: "filesys_struct \<Rightarrow> filesys_struct \<Rightarrow> string \<Rightarrow> loc \<Rightarrow> bool \<Rightarrow> bool" where
  "outcome s s' f l dropped \<longleftrightarrow>
     (if dropped then ptr_at s' l = 0
      else ptr_at s' l = ptr_at s l \<and> (\<forall>a \<in> set (loc_entries s l).
        if entry_is s f a then entry_num s' a = 0 \<and> data_blocks s' a = NUL else same_entry s s' a))"

lemma same_used:
  assumes "loc_entries s' l = loc_entries s l" "\<And>a. a \<in> set (loc_entries s l) \<Longrightarrow> same_entry s s' a" "length f < 14"
  shows "used_entries s' l = used_entries s l" "has_entry s' f l = has_entry s f l"
proof -
  have "filter (\<lambda>a. entry_num s' a \<noteq> 0) (loc_entries s l) = filter (\<lambda>a. entry_num s a \<noteq> 0) (loc_entries s l)"
    using same_entry_facts(1) [OF assms(2)] by (intro filter_cong refl) auto
  then show "used_entries s' l = used_entries s l" by (simp only: assms(1))
  have "filter (entry_is s' f) (loc_entries s l) = filter (entry_is s f) (loc_entries s l)"
    using same_entry_facts(3) [OF assms(2) assms(3)] by (intro filter_cong refl) auto
  then show "has_entry s' f l = has_entry s f l" by (simp only: assms(1))
qed

lemma outcome_before:
  assumes "untouched s s1 l" "outcome s1 s' f l dr" "discos_addr s1 = discos_addr s" "wf_blocks s" "valid_loc l"
    "length f < 14"
  shows "outcome s s' f l dr"
proof -
  note U = untouched_entries [OF assms(1,3-5)]
  have p: "ptr_at s1 l = ptr_at s l" using assms(1) by (simp add: untouched_def)
  have "if entry_is s f a then entry_num s' a = 0 \<and> data_blocks s' a = NUL else same_entry s s' a"
    if a: "a \<in> set (loc_entries s l)" and "\<not> dr" for a
  proof -
    have "entry_is s1 f a = entry_is s f a" using same_entry_facts(3) [OF U(2) [OF a] assms(6)] .
    moreover have "if entry_is s1 f a then entry_num s' a = 0 \<and> data_blocks s' a = NUL else same_entry s1 s' a"
      using assms(2) a U(1) that(2) by (simp add: outcome_def)
    ultimately show ?thesis using U(2) [OF a] by (auto simp: same_entry_def split: if_splits)
  qed
  then show ?thesis using assms(2) p by (auto simp: outcome_def)
qed

lemma outcome_after:
  assumes "outcome s s1 f l dr" "untouched s1 s' l" "discos_addr s1 = discos_addr s" "discos_addr s' = discos_addr s1"
    "wf_blocks s1" "valid_loc l"
  shows "outcome s s' f l dr"
proof -
  note U = untouched_entries [OF assms(2,4-6)]
  have p: "ptr_at s' l = ptr_at s1 l" using assms(2) by (simp add: untouched_def)
  show ?thesis
  proof (cases dr)
    case False
    then have "ptr_at s1 l = ptr_at s l" using assms(1) by (simp add: outcome_def)
    then have eq: "loc_entries s1 l = loc_entries s l" by (rule loc_entries_cong [OF assms(3)])
    have "if entry_is s f a then entry_num s' a = 0 \<and> data_blocks s' a = NUL else same_entry s s' a"
      if a: "a \<in> set (loc_entries s l)" for a
    proof -
      have "same_entry s1 s' a" using U(2) a eq by simp
      note F = same_entry_facts(1,2) [OF this]
      have "if entry_is s f a then entry_num s1 a = 0 \<and> data_blocks s1 a = NUL else same_entry s s1 a"
        using assms(1) a False by (simp add: outcome_def)
      then show ?thesis using F \<open>same_entry s1 s' a\<close> by (auto simp: same_entry_def split: if_splits)
    qed
    then show ?thesis using False p \<open>ptr_at s1 l = ptr_at s l\<close> by (simp add: outcome_def)
  qed (use assms(1) p in \<open>simp add: outcome_def\<close>)
qed

section \<open>One step of the loop\<close>

lemma drop_pointer_ptr:
  "ptr_at (set_inode (drop_bit b s) n ((inodes s n)\<lparr>pointers := (pointers (inodes s n))(i := 0)\<rparr>)) l
     = (if l = Dir n i then 0 else ptr_at s l)" if "valid_loc l"
  using that
proof (induction l)
  case (Sub L k)
  then have "L \<noteq> Dir n i" by auto
  then show ?case using Sub by (auto simp: index_at_def)
qed auto

text \<open>The entries of a block after those with the name have been zeroed, and of any other block.\<close>

lemma wiped_entries:
  assumes wf: "wf_blocks s" and c: "c < DATA_BLOCKS_NUM" "ptr_at s l = blk_addr s c"
    and a: "a \<in> set (loc_entries s l)"
    and data: "\<And>x. x div BLOCK_SIZE = c \<Longrightarrow> data_blocks s2 x = data_blocks (wipe (filter (entry_is s f) (loc_entries s l)) s) x"
  shows "if entry_is s f a then entry_num s2 a = 0 \<and> data_blocks s2 a = NUL else same_entry s s2 a"
proof -
  let ?s1 = "wipe (filter (entry_is s f) (loc_entries s l)) s"
  have es: "loc_entries s l = slots c 0 ENTRIES_PER_BLOCK" using loc_entries_blk [OF wf c] by simp
  obtain k where k: "k < ENTRIES_PER_BLOCK" "a = BLOCK_SIZE * c + 16 * k" using a es by auto
  have "same_block ?s1 s2 c" using data by (simp add: same_block_def)
  then have s12: "same_entry ?s1 s2 a" using same_block_entry k by simp
  show ?thesis
  proof (cases "entry_is s f a")
    case True
    then have "entry_num ?s1 a = 0" "data_blocks ?s1 a = NUL" using wipe_entry [of a _ s] a by auto
    then show ?thesis using True same_entry_facts(1,2) [OF s12] by simp
  next
    case False
    have "a + 16 \<le> e \<or> e + 16 \<le> a" if e: "e \<in> set (filter (entry_is s f) (loc_entries s l))" for e
    proof -
      obtain j where j: "j < ENTRIES_PER_BLOCK" "e = BLOCK_SIZE * c + 16 * j" using e es by auto
      have "a \<noteq> e" using e False by auto
      then show ?thesis using entries_disjoint [OF _ j(1) k(1), of c c] j(2) k(2) by auto
    qed
    then have "same_entry s ?s1 a" by (intro wipe_same_entry) blast
    then show ?thesis using False s12 by (simp add: same_entry_def)
  qed
qed

lemma wiped_same_block:
  assumes wf: "wf_blocks s" and c: "c < DATA_BLOCKS_NUM" "ptr_at s l = blk_addr s c" "valid_loc l"
    and b: "b < DATA_BLOCKS_NUM" "ptr_at s l' = blk_addr s b" "valid_loc l'" "l' \<noteq> l"
  shows "b \<noteq> c" "same_block s (wipe (filter (entry_is s f) (loc_entries s l)) s) b"
proof -
  show "b \<noteq> c" using wf_blocks_inj [OF wf b(3) c(3)] blk_addr_nonzero [OF wf_region [OF wf] b(1)] b c by auto
  moreover have "set (filter (entry_is s f) (loc_entries s l)) \<subseteq> set (slots c 0 ENTRIES_PER_BLOCK)"
    using loc_entries_blk [OF wf c(1,2)] by simp
  ultimately show "same_block s (wipe (filter (entry_is s f) (loc_entries s l)) s) b"
    using wipe_in_block by (simp add: same_block_def)
qed

lemma direct_step:
  assumes wf: "wf_blocks s" and n: "n < MAX_NUM_FILE" and len: "length f < 14" and i: "i < INODE_NUM_DIRECT_PTR"
  defines "l \<equiv> Dir n i"
  obtains s2 where
    "\<And>m. clear_entry_direct s n f i (Suc m) fnd = clear_entry_direct s2 n f (Suc i) m (fnd \<or> has_entry s f l)"
    "pruned n s s2" "outcome s s2 f l ((fnd \<or> has_entry s f l) \<and> used_entries s l = 1)"
    "\<And>l'. valid_loc l' \<Longrightarrow> l' \<noteq> l \<Longrightarrow> untouched s s2 l'"
proof (cases "ptr_at s l = 0")
  case True
  then have "loc_entries s l = []" by (simp add: loc_entries_def block_entries_def)
  then show thesis using that [of s] True pruned_refl [OF wf] by (simp add: outcome_def l_def)
next
  case False
  have l: "data_loc n l" "valid_loc l" using n i by (auto simp: data_loc_def l_def)
  obtain c where c: "c < DATA_BLOCKS_NUM" "ptr_at s l = blk_addr s c" by (rule wf_blocksD [OF wf l(2) False])
  obtain cnt hit s1 where 1: "clear_entries s (blk_addr s c) f 0 ENTRIES_PER_BLOCK 0 fnd = Some (cnt, fnd \<or> hit, s1)"
    "s1 = wipe (filter (entry_is s f) (loc_entries s l)) s" "cnt = used_entries s l" "hit \<longleftrightarrow> has_entry s f l"
    "pruned n s s1" "\<And>l'. valid_loc l' \<Longrightarrow> ptr_at s1 l' = ptr_at s l'"
    by (rule clear_block [OF wf l(1) c len, where fnd = fnd], rule that)
  note P = prunedD [OF 1(5)]
  have es: "loc_entries s l = slots c 0 ENTRIES_PER_BLOCK" using loc_entries_blk [OF wf c] by simp
  have i1: "inodes s1 = inodes s" using 1(2) by simp
  have A: "blk_addr s1 = blk_addr s" by (rule addr_frame(1) [OF P(2)])
  have drop: "drop_bit_of s1 (pointers (inodes s1 n) i) = Some (drop_bit c s1)"
    using drop_bit_of_eq [OF c(1), of s1] c(2) A i1 by (simp add: l_def)
  define dr where "dr \<longleftrightarrow> (fnd \<or> hit) \<and> cnt = 1"
  define s2 where "s2 = (if dr then set_inode (drop_bit c s1) n
    ((inodes s1 n)\<lparr>pointers := (pointers (inodes s1 n))(i := 0)\<rparr>) else s1)"
  have ptr2: "ptr_at s2 l' = (if dr \<and> l' = l then 0 else ptr_at s l')" if "valid_loc l'" for l'
    using drop_pointer_ptr [OF that, where b = c and s = s1 and n = n and i = i] 1(6) [OF that] by (simp add: s2_def l_def)
  have data2: "data_blocks s2 = data_blocks s1" by (simp add: s2_def)
  have "pruned n s1 s2"
  proof (cases dr)
    case True
    show ?thesis unfolding s2_def if_P [OF True]
      by (rule pruned_drop_inode [OF P(1) l(2) _ c(1)]) (use c(2) 1(6) [OF l(2)] A in \<open>auto simp: l_def\<close>)
  qed (simp add: s2_def pruned_refl [OF P(1)])
  then have pr: "pruned n s s2" by (rule pruned_trans [OF 1(5)])
  have out: "outcome s s2 f l dr"
    using ptr2 [OF l(2)] wiped_entries [OF wf c] data2 1(2) by (simp add: outcome_def)
  have unt: "untouched s s2 l'" if l': "valid_loc l'" "l' \<noteq> l" for l'
  proof -
    have "same_block s s2 b" if b: "b < DATA_BLOCKS_NUM" "ptr_at s l' = blk_addr s b" for b
      using wiped_same_block(2) [OF wf c l(2) b l'] data2 1(2) by (simp add: same_block_def)
    then show ?thesis using ptr2 [OF l'(1)] l'(2) by (simp add: untouched_def)
  qed
  have "clear_entry_direct s n f i (Suc m) fnd = clear_entry_direct s2 n f (Suc i) m (fnd \<or> hit)" for m
    using False c 1(1) drop by (simp add: Let_def s2_def dr_def l_def)
  then show thesis using out unt by (intro that [OF _ pr]) (simp_all only: dr_def 1(3,4))
qed

section \<open>The loop over the direct blocks\<close>

lemma has_entry_pruned_back:
  assumes "untouched s s2 l" "discos_addr s2 = discos_addr s" "wf_blocks s" "valid_loc l" "length f < 14"
  shows "has_entry s2 f l = has_entry s f l" "used_entries s2 l = used_entries s l"
  using same_used [OF untouched_entries [OF assms(1-4)] assms(5)] by blast+

lemma clear_entry_direct_exact:
  assumes "wf_blocks s" "n < MAX_NUM_FILE" "length f < 14" "i + m \<le> INODE_NUM_DIRECT_PTR"
  shows "\<exists>s'. clear_entry_direct s n f i m fnd = Some (fnd \<or> (\<exists>j \<in> {i..<i + m}. has_entry s f (Dir n j)), s')
    \<and> pruned n s s'
    \<and> (\<forall>j \<in> {i..<i + m}. outcome s s' f (Dir n j)
         ((fnd \<or> (\<exists>k \<in> {i..j}. has_entry s f (Dir n k))) \<and> used_entries s (Dir n j) = 1))
    \<and> (\<forall>l. valid_loc l \<longrightarrow> l \<notin> Dir n ` {i..<i + m} \<longrightarrow> untouched s s' l)"
  using assms(1,4)
proof (induction m arbitrary: s i fnd)
  case 0
  then show ?case by (simp add: pruned_refl)
next
  case (Suc m)
  note wf = Suc.prems(1)
  let ?l = "Dir n i" and ?h = "\<lambda>j. has_entry s f (Dir n j)" and ?u = "\<lambda>j. used_entries s (Dir n j)"
  have i: "i < INODE_NUM_DIRECT_PTR" using Suc.prems(2) by simp
  obtain s2 where 2: "\<And>m. clear_entry_direct s n f i (Suc m) fnd = clear_entry_direct s2 n f (Suc i) m (fnd \<or> ?h i)"
    "pruned n s s2" "outcome s s2 f ?l ((fnd \<or> ?h i) \<and> ?u i = 1)"
    "\<And>l'. valid_loc l' \<Longrightarrow> l' \<noteq> ?l \<Longrightarrow> untouched s s2 l'"
    by (rule direct_step [OF wf assms(2,3) i, where fnd = fnd], rule that)
  note P = prunedD [OF 2(2)]
  have keep: "has_entry s2 f (Dir n j) = ?h j" "used_entries s2 (Dir n j) = ?u j" if "Suc i \<le> j" "j < Suc i + m" for j
  proof -
    have v: "valid_loc (Dir n j)" using that Suc.prems(2) assms(2) by simp
    have "untouched s s2 (Dir n j)" using 2(4) [OF v] that by simp
    from has_entry_pruned_back [OF this P(2) wf v assms(3)]
    show "has_entry s2 f (Dir n j) = ?h j" "used_entries s2 (Dir n j) = ?u j" by blast+
  qed
  obtain s' where IH: "clear_entry_direct s2 n f (Suc i) m (fnd \<or> ?h i)
      = Some ((fnd \<or> ?h i) \<or> (\<exists>j \<in> {Suc i..<Suc i + m}. has_entry s2 f (Dir n j)), s')"
    "pruned n s2 s'"
    "\<forall>j \<in> {Suc i..<Suc i + m}. outcome s2 s' f (Dir n j)
         (((fnd \<or> ?h i) \<or> (\<exists>k \<in> {Suc i..j}. has_entry s2 f (Dir n k))) \<and> used_entries s2 (Dir n j) = 1)"
    "\<forall>l. valid_loc l \<longrightarrow> l \<notin> Dir n ` {Suc i..<Suc i + m} \<longrightarrow> untouched s2 s' l"
    using Suc.IH [OF P(1), of "Suc i" "fnd \<or> ?h i"] Suc.prems(2) by auto
  note P' = prunedD [OF IH(2)]
  have range: "{i..<i + Suc m} = insert i {Suc i..<Suc i + m}" by auto
  have upto: "{i..j} = insert i {Suc i..j}" if "i \<le> j" for j using that by auto
  have res: "clear_entry_direct s n f i (Suc m) fnd = Some (fnd \<or> (\<exists>j \<in> {i..<i + Suc m}. ?h j), s')"
    unfolding 2(1) IH(1) range using keep by auto
  have out: "outcome s s' f (Dir n j) ((fnd \<or> (\<exists>k \<in> {i..j}. ?h k)) \<and> ?u j = 1)"
    if j: "j \<in> {i..<i + Suc m}" for j
  proof (cases "j = i")
    case True
    have "valid_loc ?l" "?l \<notin> Dir n ` {Suc i..<Suc i + m}" using i assms(2) by auto
    then have "untouched s2 s' ?l" using IH(4) by blast
    from outcome_after [OF 2(3) this P(2) P'(2) P(1)] show ?thesis using True i assms(2) by simp
  next
    case False
    then have j': "Suc i \<le> j" "j < Suc i + m" using j by auto
    have v: "valid_loc (Dir n j)" using j' Suc.prems(2) assms(2) by simp
    have "outcome s2 s' f (Dir n j)
        (((fnd \<or> ?h i) \<or> (\<exists>k \<in> {Suc i..j}. has_entry s2 f (Dir n k))) \<and> used_entries s2 (Dir n j) = 1)"
      using IH(3) j' by simp
    moreover have "(\<exists>k \<in> {Suc i..j}. has_entry s2 f (Dir n k)) \<longleftrightarrow> (\<exists>k \<in> {Suc i..j}. ?h k)"
      using keep(1) j' by (intro bex_cong refl) auto
    moreover have "used_entries s2 (Dir n j) = ?u j" by (rule keep(2) [OF j'])
    ultimately have "outcome s2 s' f (Dir n j) ((fnd \<or> (\<exists>k \<in> {i..j}. ?h k)) \<and> ?u j = 1)"
      using upto [of j] j' by (simp only:) auto
    then show ?thesis
      using outcome_before [OF 2(4) [OF v] _ P(2) wf v assms(3)] False by simp
  qed
  have unt: "untouched s s' l" if "valid_loc l" "l \<notin> Dir n ` {i..<i + Suc m}" for l
    using untouched_trans [OF 2(4) [OF that(1)] _ P(2)] IH(4) that unfolding range by auto
  show ?case
    using res pruned_trans [OF 2(2) IH(2)] out unt by blast
qed

section \<open>Names after the removal\<close>

text \<open>The name occurs in direct blocks only.\<close>

definition direct_only :: "filesys_struct \<Rightarrow> nat \<Rightarrow> string \<Rightarrow> bool" where
  "direct_only s d f \<longleftrightarrow>
     (\<forall>l. data_loc d l \<longrightarrow> has_entry s f l \<longrightarrow> l \<in> Dir d ` {0..<INODE_NUM_DIRECT_PTR})"

text \<open>No direct block after one with the name has exactly one used entry, unless that block
  has the name too.\<close>

definition none_lonely :: "filesys_struct \<Rightarrow> nat \<Rightarrow> string \<Rightarrow> bool" where
  "none_lonely s d f \<longleftrightarrow> (\<forall>i < INODE_NUM_DIRECT_PTR. \<forall>j < i.
     has_entry s f (Dir d j) \<longrightarrow> used_entries s (Dir d i) = 1 \<longrightarrow> has_entry s f (Dir d i))"

text \<open>The number of the entry a name is found at, and when there is none.\<close>

lemma has_entry_find: "has_entry s f l \<longleftrightarrow> find (entry_is s f) (loc_entries s l) \<noteq> None"
  by (auto simp: filter_empty_conv find_None_iff)

lemma dir_find_hit:
  assumes "n < MAX_NUM_FILE"
  shows "dir_find s n f = None \<longleftrightarrow> (\<forall>l. data_loc n l \<longrightarrow> \<not> has_entry s f l)"
proof -
  have "dir_find s n f = None \<longleftrightarrow> (\<forall>l \<in> set (data_locs n). find (entry_is s f) (loc_entries s l) = None)"
    by (auto simp: dir_find_def entries_def find_None_iff)
  moreover have "l \<in> set (data_locs n) \<longleftrightarrow> data_loc n l" for l
    using data_locs_sound [OF assms] data_loc_mem by blast
  ultimately show ?thesis by (simp only: has_entry_find Ball_def not_not)
qed

lemma dir_find_cong:
  assumes "n < MAX_NUM_FILE"
    "\<And>l. data_loc n l \<Longrightarrow> find (entry_is s' u) (loc_entries s' l) = find (entry_is s u) (loc_entries s l)"
  shows "dir_find s' n u = dir_find s n u"
proof -
  have "find P (concat (map g ls)) = find Q (concat (map h ls))"
    if "\<And>l. l \<in> set ls \<Longrightarrow> find P (g l) = find Q (h l)" for P Q g h and ls :: "loc list"
    using that by (induction ls) (auto simp: find_append split: option.splits)
  then show ?thesis
    unfolding dir_find_def entries_def using data_locs_sound [OF assms(1)] assms(2) by blast
qed

text \<open>The entries of a well-formed directory for which names are compared.\<close>

lemma zero_no_name: "data_blocks s a = NUL \<Longrightarrow> is_name u \<Longrightarrow> \<not> entry_is s u a"
  using entry_is_first [of s u a] is_name_props [of u] by auto

lemma one_name: "entry_is s f a \<Longrightarrow> entry_is s u a \<Longrightarrow> is_name f \<Longrightarrow> is_name u \<Longrightarrow> u = f"
  using strcmp_unique [of s a u f] is_name_props by (auto simp: entry_is_def)

lemma filter_one:
  assumes "length (filter P xs) = 1" "a \<in> set xs" "P a" "b \<in> set xs" "P b"
  shows "a = b"
proof -
  obtain x where "filter P xs = [x]" using assms(1) by (auto simp: length_Suc_conv)
  moreover have "a \<in> set (filter P xs)" "b \<in> set (filter P xs)" using assms(2-5) by simp_all
  ultimately show ?thesis by simp
qed

lemma outcome_find:
  assumes o: "outcome s s' f l dr" and addr: "discos_addr s' = discos_addr s" and u: "is_name u" "is_name f"
    and slots: "\<forall>a \<in> set (loc_entries s l). slot_wf s n a"
    and dr: "dr \<Longrightarrow> has_entry s f l \<and> used_entries s l = 1"
  shows "find (entry_is s' u) (loc_entries s' l) = (if u = f then None else find (entry_is s u) (loc_entries s l))"
proof (cases dr)
  case True
  then have "loc_entries s' l = []" using o by (simp add: outcome_def loc_entries_def block_entries_def)
  moreover have "find (entry_is s u) (loc_entries s l) = None" if "u \<noteq> f"
  proof -
    obtain a where a: "a \<in> set (loc_entries s l)" "entry_is s f a"
      using dr [OF True] by (auto simp: filter_empty_conv)
    have used: "0 < entry_num s x" if "x \<in> set (loc_entries s l)" "entry_is s v x" "is_name v" for x v
      using entry_is_num(1) slots that by blast
    have False if b: "b \<in> set (loc_entries s l)" "entry_is s u b" for b
    proof -
      have "a = b" using filter_one [of "\<lambda>a. entry_num s a \<noteq> 0", OF _ a(1) _ b(1)] dr [OF True]
          used [OF a u(2)] used [OF b u(1)] by simp
      then show False using one_name [of s f a u] a(2) b(2) u that \<open>u \<noteq> f\<close> by blast
    qed
    then show ?thesis by (auto simp: find_None_iff)
  qed
  ultimately show ?thesis by simp
next
  case False
  then have p: "ptr_at s' l = ptr_at s l" using o by (simp add: outcome_def)
  have es: "loc_entries s' l = loc_entries s l" by (rule loc_entries_cong [OF addr p])
  have P: "entry_is s' u a \<longleftrightarrow> u \<noteq> f \<and> entry_is s u a" if a: "a \<in> set (loc_entries s l)" for a
  proof (cases "entry_is s f a")
    case True
    then have "data_blocks s' a = NUL" using o False a by (simp add: outcome_def)
    then show ?thesis using zero_no_name [OF _ u(1)] one_name [OF True _ u(2,1)] by blast
  next
    case no: False
    then have "same_entry s s' a" using o False a by (simp add: outcome_def)
    then have "entry_is s' u a = entry_is s u a" using same_entry_facts(3) is_name_props [OF u(1)] by blast
    then show ?thesis using no by auto
  qed
  show ?thesis
  proof (cases "u = f")
    case True
    then show ?thesis using P es by (auto simp: find_None_iff)
  next
    case False
    then have "find (entry_is s' u) (loc_entries s l) = find (entry_is s u) (loc_entries s l)"
      using P by (intro find_cong refl) auto
    then show ?thesis using False es by simp
  qed
qed

lemma untouched_find:
  assumes "untouched s s' l" "discos_addr s' = discos_addr s" "wf_blocks s" "valid_loc l" "is_name u"
  shows "find (entry_is s' u) (loc_entries s' l) = find (entry_is s u) (loc_entries s l)"
proof -
  note U = untouched_entries [OF assms(1-4)]
  have "find (entry_is s' u) (loc_entries s l) = find (entry_is s u) (loc_entries s l)"
    using same_entry_facts(3) [OF U(2)] is_name_props [OF assms(5)] by (intro find_cong refl) auto
  then show ?thesis by (simp add: U(1))
qed

lemma untouched_outcome:
  assumes "untouched s s' l" "\<not> has_entry s f l" "discos_addr s' = discos_addr s" "wf_blocks s" "valid_loc l"
  shows "outcome s s' f l False"
  using untouched_entries [OF assms(1,3-5)] assms(1,2) by (auto simp: outcome_def untouched_def filter_empty_conv)

text \<open>The names a directory has after the removal.\<close>

lemma outcomes_find:
  assumes ok: "fs_ok s" and d: "is_dir s d" and f: "is_name f" and addr: "discos_addr s' = discos_addr s"
    and out: "\<And>l. data_loc d l \<Longrightarrow> \<exists>dr. outcome s s' f l dr \<and> (dr \<longrightarrow> has_entry s f l \<and> used_entries s l = 1)"
    and u: "is_name u"
  shows "dir_find s' d u = (if u = f then None else dir_find s d u)"
proof -
  note S = fs_okD [OF ok]
  have n: "d < MAX_NUM_FILE" using d by (simp add: is_dir_def)
  have loc: "find (entry_is s' u) (loc_entries s' l) = (if u = f then None else find (entry_is s u) (loc_entries s l))"
    if l: "data_loc d l" for l
  proof -
    have slots: "\<forall>a \<in> set (loc_entries s l). slot_wf s d a"
      using S(2) d data_loc_mem [OF l] by (auto simp: dirs_ok_def entries_def)
    obtain dr where dr: "outcome s s' f l dr" "dr \<longrightarrow> has_entry s f l \<and> used_entries s l = 1" using out [OF l] by blast
    show ?thesis by (rule outcome_find [OF dr(1) addr u f slots]) (use dr(2) in blast)
  qed
  show ?thesis
  proof (cases "u = f")
    case True
    then have "\<not> has_entry s' f l" if "data_loc d l" for l using loc [OF that] by (simp add: has_entry_find)
    then show ?thesis using True dir_find_hit [OF n, of s' f] by simp
  qed (use dir_find_cong [OF n, of s' u s] loc in simp)
qed
section \<open>The directory entry\<close>

lemma clear_entry_direct_hit:
  assumes wf: "wf_blocks s" and n: "d < MAX_NUM_FILE" and f: "is_name f"
    and hit: "j < INODE_NUM_DIRECT_PTR" "has_entry s f (Dir d j)"
  obtains s' where "clear_entry_in_current_dir s d f = Some s'" "pruned d s s'"
    "\<And>i. i < INODE_NUM_DIRECT_PTR \<Longrightarrow> outcome s s' f (Dir d i)
       ((\<exists>k \<le> i. has_entry s f (Dir d k)) \<and> used_entries s (Dir d i) = 1)"
    "\<And>l. valid_loc l \<Longrightarrow> l \<notin> Dir d ` {0..<INODE_NUM_DIRECT_PTR} \<Longrightarrow> untouched s s' l"
proof -
  have len: "length f < 14" using is_name_props [OF f] by simp
  obtain s' where c: "clear_entry_direct s d f 0 INODE_NUM_DIRECT_PTR False
      = Some (\<exists>j \<in> {0..<INODE_NUM_DIRECT_PTR}. has_entry s f (Dir d j), s')"
    "pruned d s s'"
    "\<forall>j \<in> {0..<INODE_NUM_DIRECT_PTR}. outcome s s' f (Dir d j)
         ((\<exists>k \<in> {0..j}. has_entry s f (Dir d k)) \<and> used_entries s (Dir d j) = 1)"
    "\<forall>l. valid_loc l \<longrightarrow> l \<notin> Dir d ` {0..<INODE_NUM_DIRECT_PTR} \<longrightarrow> untouched s s' l"
    using clear_entry_direct_exact [OF wf n len, of 0 INODE_NUM_DIRECT_PTR False] by auto
  have "\<exists>j \<in> {0..<INODE_NUM_DIRECT_PTR}. has_entry s f (Dir d j)" using hit by auto
  then have "clear_entry_in_current_dir s d f = Some s'"
    using c(1) by (simp only: clear_entry_in_current_dir_def Option.bind.bind_lunit case_prod_conv if_True)
  then show thesis
  proof (rule that [OF _ c(2)])
    fix i assume i: "i < INODE_NUM_DIRECT_PTR"
    have eq: "(\<exists>k \<in> {0..i}. has_entry s f (Dir d k)) \<longleftrightarrow> (\<exists>k \<le> i. has_entry s f (Dir d k))" by auto
    show "outcome s s' f (Dir d i)
       ((\<exists>k \<le> i. has_entry s f (Dir d k)) \<and> used_entries s (Dir d i) = 1)"
    proof -
      from i have "i \<in> {0..<INODE_NUM_DIRECT_PTR}" by simp
      from bspec [OF c(3) this] show ?thesis by (simp only: eq)
    qed
  qed (use c(4) in blast)
qed

lemma clear_entry_removes:
  assumes ok: "fs_ok s" and d: "is_dir s d" and f: "is_name f"
    and hit: "dir_find s d f \<noteq> None" and H: "direct_only s d f" "none_lonely s d f"
  obtains s' where "clear_entry_in_current_dir s d f = Some s'" "pruned d s s'"
    "\<And>u. is_name u \<Longrightarrow> dir_find s' d u = (if u = f then None else dir_find s d u)"
proof -
  note S = fs_okD [OF ok]
  have n: "d < MAX_NUM_FILE" using d by (simp add: is_dir_def)
  have "\<not> (\<forall>l. data_loc d l \<longrightarrow> \<not> has_entry s f l)" using hit unfolding dir_find_hit [OF n] .
  then have "\<exists>l. data_loc d l \<and> has_entry s f l" by (simp only: not_all not_imp not_not)
  then obtain l0 where l0: "data_loc d l0" "has_entry s f l0" by (elim exE conjE)
  then have "l0 \<in> Dir d ` {0..<INODE_NUM_DIRECT_PTR}" using H(1) unfolding direct_only_def by blast
  then obtain j where j: "j < INODE_NUM_DIRECT_PTR" "has_entry s f (Dir d j)" using l0(2) by auto
  obtain s' where c: "clear_entry_in_current_dir s d f = Some s'" "pruned d s s'"
    "\<And>i. i < INODE_NUM_DIRECT_PTR \<Longrightarrow> outcome s s' f (Dir d i)
       ((\<exists>k \<le> i. has_entry s f (Dir d k)) \<and> used_entries s (Dir d i) = 1)"
    "\<And>l. valid_loc l \<Longrightarrow> l \<notin> Dir d ` {0..<INODE_NUM_DIRECT_PTR} \<Longrightarrow> untouched s s' l"
    by (rule clear_entry_direct_hit [OF S(1) n f j], rule that)
  note P = prunedD [OF c(2)]
  have out: "\<exists>dr. outcome s s' f l dr \<and> (dr \<longrightarrow> has_entry s f l \<and> used_entries s l = 1)" if l: "data_loc d l" for l
  proof (cases "l \<in> Dir d ` {0..<INODE_NUM_DIRECT_PTR}")
    case True
    then obtain i where i: "i < INODE_NUM_DIRECT_PTR" "l = Dir d i" by auto
    have "has_entry s f l \<and> used_entries s l = 1" if dr: "(\<exists>k \<le> i. has_entry s f (Dir d k)) \<and> used_entries s l = 1"
    proof -
      obtain k where k: "k \<le> i" "has_entry s f (Dir d k)" using dr by blast
      have "has_entry s f (Dir d i)"
        using H(2) i dr k unfolding none_lonely_def by (cases "k = i") auto
      then show ?thesis using dr i(2) by simp
    qed
    then show ?thesis using c(3) [OF i(1), folded i(2)] by blast
  next
    case False
    have v: "valid_loc l" using l by (simp add: data_loc_def)
    have "\<not> has_entry s f l" using H(1) l False by (auto simp: direct_only_def)
    then show ?thesis using untouched_outcome [OF c(4) [OF v False] _ P(2) S(1) v] by blast
  qed
  have "dir_find s' d u = (if u = f then None else dir_find s d u)" if u: "is_name u" for u
    by (rule outcomes_find [OF ok d f P(2) out u])
  then show thesis using that c(1,2) by blast
qed

end
