(* ===== verification/UnlinkRefines.thy ===== *)
theory UnlinkRefines
  imports UnlinkExact
begin

text \<open>
  Removing a file on the map of names: \<^verbatim>\<open>rd_unlink\<close> takes the name out of its directory
  when no other block of the directory is touched, and loses another file when one is.
\<close>

section \<open>The specification\<close>

definition remove :: "namespace \<Rightarrow> nat \<Rightarrow> string \<Rightarrow> nat \<Rightarrow> namespace" where
  "remove D d f n = D(d := (D d)(f := None), n := Map.empty)"

lemma resolve_remove:
  "resolve (remove D d f n) k us = Some x \<Longrightarrow> resolve D k us = Some x"
proof (induction us arbitrary: k)
  case (Cons u us)
  then obtain m where m: "remove D d f n k u = Some m" "resolve (remove D d f n) m us = Some x"
    by (auto split: option.splits)
  then have "D k u = Some m" by (auto simp: remove_def split: if_splits)
  then show ?case using Cons.IH [OF m(2)] by simp
qed simp

lemma resolve_removed:
  assumes "resolve D k ds = Some d"
  shows "resolve (remove D d f n) k (ds @ [f]) = None"
proof (cases "resolve (remove D d f n) k ds")
  case (Some x)
  from resolve_remove [OF Some] have "x = d" using assms by simp
  then show ?thesis using Some by (simp add: resolve_append remove_def)
qed (simp add: resolve_append)

section \<open>After the index node is cleared\<close>

lemma cleared_names:
  assumes ok: "fs_ok s" and n: "n < MAX_NUM_FILE" "d < MAX_NUM_FILE" "d \<noteq> n" and f: "length f < 14"
    and l: "data_loc d l"
  shows "has_entry (cleared n s) f l = has_entry s f l" "used_entries (cleared n s) l = used_entries s l"
proof -
  note wf = fs_okD(1) [OF ok]
  note D = cleared_dir [OF wf n(1) n(3,2)]
  have "ptr_at (cleared n s) l = ptr_at s l"
    using cleared_ptr [OF wf n(1), of l] l n(3) by (auto simp: data_loc_def)
  then have es: "loc_entries (cleared n s) l = loc_entries s l" by (rule loc_entries_cong [rotated]) simp
  have "same_entry s (cleared n s) a" if "a \<in> set (loc_entries s l)" for a
    using D that data_loc_mem [OF l] by (auto simp: same_dir_def entries_def)
  from same_used [OF es this f]
  show "has_entry (cleared n s) f l = has_entry s f l" "used_entries (cleared n s) l = used_entries s l" by simp_all
qed

lemma cleared_side_conditions:
  assumes ok: "fs_ok s" and n: "n < MAX_NUM_FILE" "d < MAX_NUM_FILE" "d \<noteq> n" and f: "length f < 14"
    and H: "direct_only s d f" "none_lonely s d f"
  shows "direct_only (cleared n s) d f" "none_lonely (cleared n s) d f"
proof -
  note N = cleared_names [OF ok n f]
  have dl: "data_loc d (Dir d i)" if "i < INODE_NUM_DIRECT_PTR" for i
    using that n(2) by (auto simp: data_loc_def)
  show "direct_only (cleared n s) d f" unfolding direct_only_def
    using H(1) N(1) by (simp only: direct_only_def) blast
  have "has_entry (cleared n s) f (Dir d i)"
    if "i < INODE_NUM_DIRECT_PTR" "j < i" "has_entry (cleared n s) f (Dir d j)"
      "used_entries (cleared n s) (Dir d i) = 1" for i j
  proof -
    have "has_entry s f (Dir d j)" "used_entries s (Dir d i) = 1"
      using N [OF dl] that by simp_all
    then have "has_entry s f (Dir d i)" using H(2) that(1,2) unfolding none_lonely_def by blast
    then show ?thesis using N(1) [OF dl [OF that(1)]] by simp
  qed
  then show "none_lonely (cleared n s) d f" unfolding none_lonely_def by blast
qed

lemma cleared_map:
  assumes ok: "fs_ok s" and n: "n < MAX_NUM_FILE"
  shows "dir_map (cleared n s) = (dir_map s)(n := Map.empty)"
proof (intro ext)
  fix k u
  show "dir_map (cleared n s) k u = ((dir_map s)(n := Map.empty)) k u"
  proof (cases "is_dir s k \<and> is_name u \<and> k \<noteq> n")
    case True
    then have "k < MAX_NUM_FILE" by (simp add: is_dir_def)
    then have D: "same_dir s (cleared n s) k" using cleared_dir [OF fs_okD(1) [OF ok] n] True by blast
    then show ?thesis using True cleared_is_dir [of n s k] same_dir_find [OF D] same_dir_find_num [OF D]
      by (cases "dir_find s k u") (auto simp: dir_map_def)
  qed (use cleared_is_dir [of n s k] in \<open>auto simp: dir_map_def\<close>)
qed

lemma pruned_map:
  assumes ok: "fs_ok s" and p: "pruned d s t" and d: "d < MAX_NUM_FILE"
    and find: "\<And>u. is_name u \<Longrightarrow> dir_find t d u = (if u = f then None else dir_find s d u)"
  shows "dir_map t = (dir_map s)(d := (dir_map s d)(f := None))"
proof (intro ext)
  fix k u
  note wf = fs_okD(1) [OF ok]
  have dir: "is_dir t k = is_dir s k" using pruned_type [OF p] by (simp add: is_dir_def)
  consider "\<not> (is_dir s k \<and> is_name u)" | "is_dir s k" "is_name u" "k \<noteq> d" | "is_name u" "k = d" "is_dir s d" by blast
  then show "dir_map t k u = ((dir_map s)(d := (dir_map s d)(f := None))) k u"
  proof cases
    case 2
    then have D: "same_dir s t k" using pruned_other_dir [OF p wf 2(3)] by (simp add: is_dir_def)
    then show ?thesis using 2 dir same_dir_find [OF D 2(2)] same_dir_find_num [OF D]
      by (cases "dir_find s k u") (auto simp: dir_map_def)
  next
    case 3
    have "entry_num t a = entry_num s a" if a: "dir_find t d u = Some a" for a
    proof -
      have m: "a \<in> set (entries t d)" "entry_is t u a" using find_Some_mem a by (fastforce simp: dir_find_def)+
      then have "data_blocks t a \<noteq> NUL" using zero_no_name 3(1) by blast
      then have "same_entry s t a" using pruned_entries [OF p d m(1) wf] by (simp add: kept_or_zero_def)
      then show ?thesis by (rule same_entry_facts(1))
    qed
    then show ?thesis using 3 dir find [OF 3(1)]
      by (cases "dir_find s d u") (auto simp: dir_map_def)
  qed (use dir in \<open>auto simp: dir_map_def\<close>)
qed

text \<open>A directory of one block, as every directory of at most sixteen entries is, meets both
  conditions.\<close>

lemma one_block_side:
  assumes d: "d < MAX_NUM_FILE" and null: "\<And>l. data_loc d l \<Longrightarrow> l \<noteq> Dir d 0 \<Longrightarrow> ptr_at s l = 0"
  shows "direct_only s d f" "none_lonely s d f"
proof -
  have none: "loc_entries s l = []" if "data_loc d l" "l \<noteq> Dir d 0" for l
    using null [OF that] by (simp add: loc_entries_def block_entries_def)
  have dl: "data_loc d (Dir d i)" if "i < INODE_NUM_DIRECT_PTR" for i
    using that d by (auto simp: data_loc_def)
  show "direct_only s d f" unfolding direct_only_def
  proof (intro allI impI)
    fix l assume "data_loc d l" "has_entry s f l"
    then have "l = Dir d 0" using none [of l] by fastforce
    then show "l \<in> Dir d ` {0..<INODE_NUM_DIRECT_PTR}" by simp
  qed
  have False if "i < INODE_NUM_DIRECT_PTR" "j < i" "used_entries s (Dir d i) = 1" for i j :: nat
    using none [OF dl [OF that(1)]] that(2,3) by simp
  then show "none_lonely s d f" unfolding none_lonely_def by blast
qed

lemma sample_side: "direct_only sample_fs 0 f" "none_lonely sample_fs 0 f"
proof -
  have "ptr_at sample_fs l = 0" if "data_loc 0 l" "l \<noteq> Dir 0 0" for l
    using sample_ptr [of l] that by (simp add: data_loc_def)
  from one_block_side [OF _ this] show "direct_only sample_fs 0 f" "none_lonely sample_fs 0 f" by simp_all
qed

section \<open>The contract\<close>

lemma unlinked_node:
  assumes ok: "fs_ok s" and n: "n < MAX_NUM_FILE" "d \<noteq> n" and p: "pruned d (cleared n s) t"
  shows "inodes (shrink d t) n = zero_inode" "owns s n b \<Longrightarrow> b < DATA_BLOCKS_NUM \<Longrightarrow> \<not> blk_used (shrink d t) b"
proof -
  note wf = fs_okD(1) [OF ok] and P = prunedD [OF p]
  show "inodes (shrink d t) n = zero_inode" using P(5) [of n] n(2) by simp
  assume b: "owns s n b" "b < DATA_BLOCKS_NUM"
  then have "b \<in> set (owned s n)" using owned_facts(1) [OF wf n(1)] by simp
  then have "\<not> blk_used (cleared n s) b" using cleared_used [OF wf n(1)] by simp
  then show "\<not> blk_used (shrink d t) b" using P(8) [of b] by auto
qed

text \<open>C8: \<^verbatim>\<open>rd_unlink\<close> refines the abstract removal.  When the name is found in a direct
  block of its directory, no later direct block of the directory holds a single entry, and
  the file is not a directory with entries, \<^verbatim>\<open>rd_unlink\<close> returns 0, exactly this name leaves
  the name space, the path no longer leads anywhere, and the file's index node and all its
  blocks are free.  This holds for a file that is open, too: the code never looks at the tables of
  open files, although its comment calls that an error.  The memory allocated for the path has
  the room and the NULs that \<open>serves\<close> states.\<close>

theorem rd_unlink_refines:
  assumes "fs_ok s" "serves vm (path_of (ds @ [f]))" "is_name f"
    and "resolve (dir_map s) 0 ds = Some d" "dir_map s d f = Some n"
    and "\<not> (itype (inodes s n) = ''dir'' \<and> 0 < isize (inodes s n))"
    and "direct_only s d f" "none_lonely s d f"
  shows "\<exists>s'. rd_unlink vm s (path_of (ds @ [f])) = Some (0, s')
    \<and> dir_map s' = remove (dir_map s) d f n \<and> resolve (dir_map s') 0 (ds @ [f]) = None
    \<and> inodes s' n = zero_inode \<and> (\<forall>b < DATA_BLOCKS_NUM. owns s n b \<longrightarrow> \<not> blk_used s' b)"
proof (cases rule: rd_unlink_eq [OF assms(1-5)])
  case 1
  then show ?thesis using assms(6) by simp
next
  case (2 t)
  note R = dir_map_range [OF assms(1,5)]
  have dir: "is_dir s d" "d < MAX_NUM_FILE" using assms(5) by (auto simp: dir_map_def is_dir_def split: if_splits)
  have ok: "fs_ok (cleared n s)" using cleared_ok [OF assms(1) R(2)] R(1) by simp
  have dir': "is_dir (cleared n s) d" using cleared_is_dir [of n s d] dir(1) R(3) by simp
  have len: "length f < 14" using is_name_props [OF assms(3)] by simp
  have "dir_map (cleared n s) d f \<noteq> None" using cleared_map [OF assms(1) R(2)] assms(5) R(3) by simp
  then have hit: "dir_find (cleared n s) d f \<noteq> None" by (auto simp: dir_map_def split: if_splits)
  obtain t' where t': "clear_entry_in_current_dir (cleared n s) d f = Some t'"
    "\<And>u. is_name u \<Longrightarrow> dir_find t' d u = (if u = f then None else dir_find (cleared n s) d u)"
    by (rule clear_entry_removes [OF ok dir' assms(3) hit
        cleared_side_conditions [OF assms(1) R(2) dir(2) R(3) [symmetric] len assms(7,8)]], rule that)
  have find: "\<And>u. is_name u \<Longrightarrow> dir_find t d u = (if u = f then None else dir_find (cleared n s) d u)"
    using t' 2(2) by simp
  have map: "dir_map (shrink d t) = remove (dir_map s) d f n"
    using pruned_map [OF ok 2(3) dir(2) find] cleared_map [OF assms(1) R(2)] R(1,3)
    by (simp add: shrink_map remove_def fun_upd_twist)
  then show ?thesis
    using 2(4) resolve_removed [OF assms(4)] unlinked_node [OF assms(1) R(2) _ 2(3)] R(3) by auto
qed

theorem rd_unlink_refines_witness:
  "\<exists>s'. rd_unlink zero_vm sample_fs ''/f'' = Some (0, s') \<and> inodes s' 1 = zero_inode
    \<and> resolve (dir_map s') 0 [''f''] = None"
  using rd_unlink_refines [of sample_fs zero_vm "[]" "''f''" 0 1] sample_find_f sample_side
  by (auto simp: is_name_def path_of_def sample_file_def)

end
