(* ===== verification/UnlinkLoss.thy ===== *)
theory UnlinkLoss
  imports UnlinkRefines
begin

text \<open>
  \<^verbatim>\<open>clear_entry_in_current_dir\<close> drops every block with one used entry once it has found the
  name. A file whose entry is alone in a later block of the directory is lost: its name
  disappears, its index node stays in use.
\<close>

section \<open>The lost file\<close>

lemma no_entry_anywhere:
  assumes ok: "fs_ok s" and d: "d < MAX_NUM_FILE" and p: "pruned d s t" and u: "is_name u"
    and l: "data_loc d l" and no: "\<not> has_entry s u l"
  shows "\<not> has_entry t u l"
proof
  assume "has_entry t u l"
  then obtain a where a: "a \<in> set (loc_entries t l)" "entry_is t u a" by (auto simp: filter_empty_conv)
  note P = prunedD [OF p]
  have "ptr_at t l \<noteq> 0" using a(1) by (auto simp: loc_entries_def block_entries_def)
  then have "ptr_at t l = ptr_at s l" using P(9) [of l] l by (auto simp: data_loc_def)
  then have mem: "a \<in> set (loc_entries s l)" using a(1) loc_entries_cong [OF P(2), of l] by simp
  have "a \<in> set (entries t d)" using a(1) data_loc_mem [OF l] by (auto simp: entries_def)
  then have "kept_or_zero s t a" using pruned_entries [OF p d _ fs_okD(1) [OF ok]] by blast
  then have "same_entry s t a" using zero_no_name [OF _ u, of t a] a(2) by (auto simp: kept_or_zero_def)
  then have "entry_is s u a" using same_entry_facts(3) is_name_props [OF u] a(2) by metis
  then show False using no mem by (auto simp: filter_empty_conv)
qed

lemma dropped_block:
  assumes ok: "fs_ok s" and d: "is_dir s d" and f: "is_name f" and u: "is_name u"
    and pos: "j < i" "i < INODE_NUM_DIRECT_PTR" "has_entry s f (Dir d j)" "used_entries s (Dir d i) = 1"
    and only: "\<And>l. data_loc d l \<Longrightarrow> has_entry s u l \<Longrightarrow> l = Dir d i"
    and t: "clear_entry_in_current_dir s d f = Some t"
  shows "dir_find t d u = None"
proof -
  note wf = fs_okD(1) [OF ok]
  have n: "d < MAX_NUM_FILE" using d by (simp add: is_dir_def)
  have j: "j < INODE_NUM_DIRECT_PTR" using pos by simp
  obtain t' where c: "clear_entry_in_current_dir s d f = Some t'" "pruned d s t'"
    "\<And>i. i < INODE_NUM_DIRECT_PTR \<Longrightarrow> outcome s t' f (Dir d i)
       ((\<exists>k \<le> i. has_entry s f (Dir d k)) \<and> used_entries s (Dir d i) = 1)"
    by (rule clear_entry_direct_hit [OF wf n f j pos(3)], rule that)
  have t': "t' = t" using c(1) t by simp
  have "\<exists>k \<le> i. has_entry s f (Dir d k)" using pos(1,3) by (intro exI [of _ j]) simp
  then have "outcome s t f (Dir d i) True" using c(3) [OF pos(2)] pos(4) t' by simp
  then have none: "loc_entries t (Dir d i) = []"
    by (simp add: outcome_def loc_entries_def block_entries_def)
  have "\<not> has_entry t u l" if l: "data_loc d l" for l
  proof (cases "l = Dir d i")
    case True
    then show ?thesis using none by simp
  next
    case False
    then show ?thesis using no_entry_anywhere [OF ok n c(2) u l] only [OF l] t' by blast
  qed
  then show ?thesis using dir_find_hit [OF n] by blast
qed

text \<open>C13: \<^verbatim>\<open>rd_unlink\<close> can lose a file that it was not asked to remove.  When the removed
  name \<open>f\<close> is in a direct block of the directory and a later direct block holds a single
  entry, of another file \<open>u\<close>, the call returns 0 and \<open>u\<close> is no longer in the directory,
  although its index node is still allocated: the code tests the number of entries of each
  later block without testing whether the removed entry was in it.  The memory for the copies of
  the path is such that the call does not fail on it (\<open>serves\<close>).\<close>

theorem rd_unlink_loses:
  assumes "fs_ok s" "serves vm (path_of (ds @ [f]))" "is_name f" "is_name u"
    and "resolve (dir_map s) 0 ds = Some d" "dir_map s d f = Some n" "dir_map s d u = Some m" "m \<noteq> n"
    and "\<not> (itype (inodes s n) = ''dir'' \<and> 0 < isize (inodes s n))"
    and "j < i" "i < INODE_NUM_DIRECT_PTR" "has_entry s f (Dir d j)" "used_entries s (Dir d i) = 1"
    and "\<And>l. data_loc d l \<Longrightarrow> has_entry s u l \<Longrightarrow> l = Dir d i"
  shows "\<exists>s'. rd_unlink vm s (path_of (ds @ [f])) = Some (0, s')
    \<and> dir_map s' d u = None \<and> inodes s' m = inodes s m"
proof (cases rule: rd_unlink_eq [OF assms(1,2,3,5,6)])
  case 1
  then show ?thesis using assms(9) by simp
next
  case (2 t)
  note R = dir_map_range [OF assms(1,6)] and R' = dir_map_range [OF assms(1,7)]
  have dir: "is_dir s d" "d < MAX_NUM_FILE" using assms(6) by (auto simp: dir_map_def is_dir_def split: if_splits)
  have ok: "fs_ok (cleared n s)" using cleared_ok [OF assms(1) R(2)] R(1) by simp
  have dir': "is_dir (cleared n s) d" using cleared_is_dir [of n s d] dir(1) R(3) by simp
  have len: "length f < 14" "length u < 14" using is_name_props assms(3,4) by simp_all
  note N = cleared_names [OF assms(1) R(2) dir(2) R(3) [symmetric]]
  have dl: "data_loc d (Dir d k)" if "k < INODE_NUM_DIRECT_PTR" for k
    using that dir(2) by (auto simp: data_loc_def)
  have "dir_find t d u = None"
  proof (rule dropped_block [OF ok dir' assms(3,4,10,11) _ _ _ 2(2)])
    show "has_entry (cleared n s) f (Dir d j)" using N(1) [OF len(1) dl, of j] assms(10-12) by simp
    show "used_entries (cleared n s) (Dir d i) = 1" using N(2) [OF len(1) dl, of i] assms(11,13) by simp
    show "l = Dir d i" if "data_loc d l" "has_entry (cleared n s) u l" for l
      using assms(14) [OF that(1)] N(1) [OF len(2) that(1)] that(2) by blast
  qed
  then have "dir_map (shrink d t) d u = None" unfolding shrink_map by (simp add: dir_map_def)
  moreover have "inodes (shrink d t) m = inodes s m"
    using prunedD(5) [OF 2(3), of m] R'(3) assms(8) by (simp add: fold_release_data cleared_def)
  ultimately show ?thesis using 2(4) by blast
qed

section \<open>A partition with two directory blocks\<close>

text \<open>The root directory has \<^verbatim>\<open>/f\<close> in its first block and \<^verbatim>\<open>/g\<close> in its second, as after
  creating seventeen files or more and removing the others.\<close>

definition two_data :: "nat \<Rightarrow> char" where
  "two_data x = (if x = 0 then CHR ''f'' else if x = 14 then CHR 0x01
     else if x = 256 then CHR ''g'' else if x = 270 then CHR 0x02 else NUL)"

definition two_fs :: filesys_struct where
  "two_fs = sample_fs\<lparr>free_blocks := 7929, free_inodes := 1021,
     inodes := (\<lambda>n. if n = 0 then zero_inode\<lparr>itype := ''dir'', isize := 32,
          pointers := (\<lambda>i. if i = 0 then 0xE0010500 else if i = 1 then 0xE0010600 else 0)\<rparr>
        else if n = 1 \<or> n = 2 then sample_file else zero_inode),
     bitmap := (\<lambda>i. if i = 0 then 3 else 0), data_blocks := two_data\<rparr>"

lemma two_fields [simp]:
  "discos_addr two_fs = 0xE0000000" "data_blocks two_fs = two_data"
  "inodes two_fs 0 = zero_inode\<lparr>itype := ''dir'', isize := 32,
     pointers := (\<lambda>i. if i = 0 then 0xE0010500 else if i = 1 then 0xE0010600 else 0)\<rparr>"
  "inodes two_fs 1 = sample_file" "inodes two_fs (Suc 0) = sample_file"
  "inodes two_fs 2 = sample_file" "3 \<le> n \<Longrightarrow> inodes two_fs n = zero_inode"
  by (simp_all add: two_fs_def sample_fs_def)

lemma two_blk: "blk_addr two_fs 0 = 0xE0010500" "blk_addr two_fs 1 = 0xE0010600"
  by (simp_all add: blk_addr_def data_base_def)

lemma two_region [simp]: "region_ok two_fs"
  by (simp add: region_ok_def)

lemma two_used [simp]: "blk_used two_fs b \<longleftrightarrow> b = 0 \<or> b = 1"
proof -
  have "(3 :: 8 word) = mask 2" by (simp add: mask_eq_exp_minus_1)
  then have "bit (3 :: 8 word) k \<longleftrightarrow> k = 0 \<or> k = 1" for k
    by (simp only: bit_mask_iff) auto
  note three = this
  show ?thesis
  proof (cases "b < 8")
    case True
    then show ?thesis using three [of b] unfolding bit_used_def two_fs_def by simp
  next
    case False
    then have "b div 8 \<noteq> 0" "b \<noteq> 0" "b \<noteq> 1" by auto
    then show ?thesis by (simp add: bit_used_def two_fs_def)
  qed
qed

lemma two_ptr:
  "valid_loc l \<Longrightarrow> ptr_at two_fs l =
     (if l = Dir 0 0 then blk_addr two_fs 0 else if l = Dir 0 1 then blk_addr two_fs 1 else 0)"
proof (induction l)
  case (Dir n i)
  consider "n = 0" | "n = 1" | "n = 2" | "3 \<le> n" by linarith
  then show ?case by cases (auto simp: two_blk [simplified] sample_file_def zero_inode_def)
next
  case (Sub L k)
  then show ?case by (cases L) auto
next
  case (Sng n)
  consider "n = 0" | "n = 1" | "n = 2" | "3 \<le> n" by linarith
  then show ?case by cases (auto simp: sample_file_def zero_inode_def)
next
  case (Dbl n)
  consider "n = 0" | "n = 1" | "n = 2" | "3 \<le> n" by linarith
  then show ?case by cases (auto simp: sample_file_def zero_inode_def)
qed

lemma two_wf: "wf_blocks two_fs"
  unfolding wf_blocks_def
proof (intro conjI allI impI)
  fix l assume l: "valid_loc l" "ptr_at two_fs l \<noteq> 0"
  show "\<exists>b < DATA_BLOCKS_NUM. ptr_at two_fs l = blk_addr two_fs b \<and> blk_used two_fs b"
    using two_ptr [OF l(1)] l(2)
    by (cases "l = Dir 0 0"; cases "l = Dir 0 1")
      (auto simp del: ptr_at.simps intro: exI [of _ "0 :: nat"] exI [of _ "1 :: nat"])
next
  fix l l' assume "valid_loc l" "valid_loc l'" "ptr_at two_fs l \<noteq> 0" "ptr_at two_fs l = ptr_at two_fs l'"
  then show "l = l'" using two_ptr [of l] two_ptr [of l'] two_blk by (auto split: if_splits)
qed simp

lemma two_counter: "counter_ok two_fs"
proof -
  have "free_set two_fs = {..<DATA_BLOCKS_NUM} - {0, 1}" by (auto simp: free_set_def)
  then have "card (free_set two_fs) = 7929" by simp
  then show ?thesis by (simp add: counter_ok_def) (simp add: two_fs_def)
qed

lemma two_entries:
  "loc_entries two_fs (Dir 0 0) = slots 0 0 ENTRIES_PER_BLOCK"
  "loc_entries two_fs (Dir 0 1) = slots 1 0 ENTRIES_PER_BLOCK"
  "data_loc 0 l \<Longrightarrow> l \<noteq> Dir 0 0 \<Longrightarrow> l \<noteq> Dir 0 1 \<Longrightarrow> loc_entries two_fs l = []"
proof -
  show "loc_entries two_fs (Dir 0 0) = slots 0 0 ENTRIES_PER_BLOCK"
    using loc_entries_blk [OF two_wf, of 0 "Dir 0 0"] two_ptr [of "Dir 0 0"] by simp
  show "loc_entries two_fs (Dir 0 1) = slots 1 0 ENTRIES_PER_BLOCK"
    using loc_entries_blk [OF two_wf, of 1 "Dir 0 1"] two_ptr [of "Dir 0 1"] by simp
  assume "data_loc 0 l" "l \<noteq> Dir 0 0" "l \<noteq> Dir 0 1"
  then have "ptr_at two_fs l = 0" using two_ptr [of l] by (simp add: data_loc_def)
  then show "loc_entries two_fs l = []" by (simp add: loc_entries_def block_entries_def)
qed

lemma two_num: "entry_num two_fs (16 * j) = (if j = 0 then 1 else if j = 16 then 2 else 0)"
proof -
  have "map (data_blocks two_fs) [16 * j + 14..<16 * j + 14 + 2] =
      [data_blocks two_fs (16 * j + 14), data_blocks two_fs (16 * j + 15)]"
    by (simp add: upt_rec add.commute)
  then show ?thesis by (auto simp: entry_num_def two_data_def)
qed

lemma two_is:
  "entry_is two_fs ''f'' (16 * j) \<longleftrightarrow> j = 0" "entry_is two_fs ''g'' (16 * j) \<longleftrightarrow> j = 16"
proof -
  have "entry_is two_fs ''f'' 0" "entry_is two_fs ''g'' 256"
    by (simp_all add: entry_is_def load_char_def two_data_def)
  then show "entry_is two_fs ''f'' (16 * j) \<longleftrightarrow> j = 0" "entry_is two_fs ''g'' (16 * j) \<longleftrightarrow> j = 16"
    using entry_is_first [of two_fs "''f''" "16 * j"] entry_is_first [of two_fs "''g''" "16 * j"]
    by (auto simp: two_data_def split: if_splits)
qed

lemma two_slot: "BLOCK_SIZE * 0 + 16 * k = 16 * k" "BLOCK_SIZE * 1 + 16 * k = 16 * (k + 16)"
  by simp_all

lemma two_blocks:
  "has_entry two_fs ''f'' (Dir 0 0)" "used_entries two_fs (Dir 0 1) = 1"
  "\<And>l. data_loc 0 l \<Longrightarrow> has_entry two_fs ''g'' l \<Longrightarrow> l = Dir 0 1"
proof -
  show "has_entry two_fs ''f'' (Dir 0 0)"
    unfolding two_entries by (auto simp: filter_empty_conv two_is intro!: bexI [of _ 0])
  show "used_entries two_fs (Dir 0 1) = 1"
    unfolding two_entries two_slot filter_map comp_def two_num by (simp add: upt_rec)
  fix l assume l: "data_loc 0 l" "has_entry two_fs ''g'' l"
  moreover have "\<not> has_entry two_fs ''g'' (Dir 0 0)"
    unfolding two_entries two_slot by (auto simp: filter_empty_conv two_is)
  ultimately show "l = Dir 0 1" using two_entries(3) [of l] by fastforce
qed

lemma two_entry:
  assumes "is_dir two_fs n" "a \<in> set (entries two_fs n)"
  obtains k where "n = 0" "a = 16 * k"
proof -
  have n: "n < MAX_NUM_FILE" using assms(1) by (simp add: is_dir_def)
  from entries_elim [OF two_wf n assms(2)] obtain l c j where
    l: "data_loc n l" "c < DATA_BLOCKS_NUM" "ptr_at two_fs l = blk_addr two_fs c" "a = BLOCK_SIZE * c + 16 * j" .
  have "blk_addr two_fs c \<noteq> 0" using blk_addr_nonzero l(2) by simp
  then have "l = Dir 0 0 \<or> l = Dir 0 1"
    using l(1,3) two_ptr [of l] by (auto simp: data_loc_def split: if_splits)
  then have "n = 0" using l(1) by (auto simp: data_loc_def)
  then show thesis using that [of "16 * c + j"] l(4) by simp
qed

lemma two_ok: "fs_ok two_fs"
proof -
  have "slot_wf two_fs n a" if d: "is_dir two_fs n" "a \<in> set (entries two_fs n)" for n a
  proof -
    obtain k where "n = 0" "a = 16 * k" by (rule two_entry [OF d])
    then show ?thesis using two_num [of k] by (auto simp: slot_wf_def two_data_def)
  qed
  then show ?thesis using two_wf two_counter by (simp add: fs_ok_def dirs_ok_def) (simp add: is_dir_def)
qed

lemma two_find:
  assumes "has_entry two_fs t l" "data_loc 0 l" "is_name t"
    "\<And>j. entry_is two_fs t (16 * j) \<Longrightarrow> entry_num two_fs (16 * j) = n"
  shows "dir_map two_fs 0 t = Some n"
proof -
  have dir: "is_dir two_fs 0" by (simp add: is_dir_def)
  have "dir_find two_fs 0 t \<noteq> None" using assms(1,2) dir_find_hit [of 0 two_fs t] by auto
  then obtain a where a: "dir_find two_fs 0 t = Some a" by auto
  then have "a \<in> set (entries two_fs 0)" "entry_is two_fs t a"
    using find_Some_mem [OF a [unfolded dir_find_def]] by simp_all
  moreover obtain k where "a = 16 * k" by (rule two_entry [OF dir calculation(1)])
  ultimately show ?thesis using a dir assms(3,4) by (simp add: dir_map_def)
qed

lemma two_names: "dir_map two_fs 0 ''f'' = Some 1" "dir_map two_fs 0 ''g'' = Some 2"
proof -
  have "has_entry two_fs ''g'' (Dir 0 1)"
    unfolding two_entries using two_is(2) [of 16] by (auto simp: filter_empty_conv intro!: bexI [of _ 0])
  then show "dir_map two_fs 0 ''f'' = Some 1" "dir_map two_fs 0 ''g'' = Some 2"
    using two_blocks(1) two_num [of 0] two_num [of 16] two_is
    by (auto intro!: two_find [of "''f''" "Dir 0 0"] two_find [of "''g''" "Dir 0 1"] simp: data_loc_def is_name_def)
qed

theorem rd_unlink_loses_witness:
  "\<exists>s'. rd_unlink zero_vm two_fs ''/f'' = Some (0, s') \<and> dir_map s' 0 ''g'' = None
    \<and> inodes s' 2 = sample_file"
  using rd_unlink_loses [OF two_ok serves_zero_vm, of "''f''" "''g''" "[]" 0 1 2 0 1] two_names two_blocks
  by (auto simp: is_name_def path_of_def sample_file_def zero_inode_def)

end
