(* ===== verification/Contents.thy ===== *)
theory Contents
  imports WriteInv
begin

text \<open>
  The bytes of a file, and what a write into an empty file stores: after block \<open>b\<close> of the
  data has been written, the first \<open>b\<close> blocks of the file hold the first bytes of the
  buffer, whichever of the three stages wrote them.
\<close>

section \<open>The blocks of a file\<close>

abbreviation MAX_FILE_BLOCKS :: nat where "MAX_FILE_BLOCKS \<equiv> 4168"

definition file_loc :: "nat \<Rightarrow> nat \<Rightarrow> loc" where
  "file_loc n b =
     (if b < 8 then Dir n b
      else if b < 72 then Sub (Sng n) (b - 8)
      else Sub (Sub (Dbl n) ((b - 72) div 64)) ((b - 72) mod 64))"

lemma file_loc_props:
  assumes "n < MAX_NUM_FILE" "b < MAX_FILE_BLOCKS"
  shows "valid_loc (file_loc n b)" "\<not> index_loc (file_loc n b)" "node_of (file_loc n b) = n"
proof -
  have "(b - 72) div 64 < 64" using assms(2) by (simp add: less_mult_imp_div_less)
  moreover have "b - 8 < 64" if "b < 72" using that by linarith
  ultimately show "valid_loc (file_loc n b)" using assms by (simp add: file_loc_def)
  show "\<not> index_loc (file_loc n b)" "node_of (file_loc n b) = n" by (simp_all add: file_loc_def)
qed

lemma file_loc_inj: "file_loc n b = file_loc n b' \<Longrightarrow> b = b'"
proof -
  assume eq: "file_loc n b = file_loc n b'"
  have "b = b'" if "72 \<le> b" "72 \<le> b'" "(b - 72) div 64 = (b' - 72) div 64" "(b - 72) mod 64 = (b' - 72) mod 64"
  proof -
    have "b - 72 = b' - 72" using that(3,4) by (metis div_mult_mod_eq)
    then show ?thesis using that(1,2) by simp
  qed
  with eq show ?thesis by (auto simp: file_loc_def split: if_splits)
qed

lemma file_loc_single: "k < 64 \<Longrightarrow> file_loc n (8 + k) = Sub (Sng n) k"
  by (simp add: file_loc_def)

lemma file_loc_double: "k < 64 \<Longrightarrow> file_loc n (72 + 64 * i + k) = Sub (Sub (Dbl n) i) k"
  by (simp add: file_loc_def)

definition file_byte :: "filesys_struct \<Rightarrow> nat \<Rightarrow> nat \<Rightarrow> nat \<Rightarrow> char" where
  "file_byte s n b j = data_blocks s (ptr_off s (ptr_at s (file_loc n b)) + j)"

text \<open>The first \<open>w\<close> bytes of the file are those of the buffer.\<close>

definition holds :: "filesys_struct \<Rightarrow> nat \<Rightarrow> string \<Rightarrow> nat \<Rightarrow> bool" where
  "holds s n buf w \<longleftrightarrow> (\<forall>b < MAX_FILE_BLOCKS. \<forall>j < BLOCK_SIZE. BLOCK_SIZE * b + j < w \<longrightarrow>
     ptr_at s (file_loc n b) \<noteq> 0 \<and> file_byte s n b j = buf ! (BLOCK_SIZE * b + j))"

lemma holdsD:
  "holds s n buf w \<Longrightarrow> b < MAX_FILE_BLOCKS \<Longrightarrow> j < BLOCK_SIZE \<Longrightarrow> BLOCK_SIZE * b + j < w \<Longrightarrow>
     ptr_at s (file_loc n b) \<noteq> 0 \<and> file_byte s n b j = buf ! (BLOCK_SIZE * b + j)"
  by (simp add: holds_def)

lemma holds_0 [simp]: "holds s n buf 0"
  by (simp add: holds_def)

text \<open>A change that leaves the data blocks of the file in place.\<close>

lemma holds_frame:
  assumes h: "holds s n buf w" and wf: "wf_blocks s" and n: "n < MAX_NUM_FILE" and addr: "discos_addr s' = discos_addr s"
    and ptr: "\<And>b. b < MAX_FILE_BLOCKS \<Longrightarrow> BLOCK_SIZE * b < w \<Longrightarrow> ptr_at s' (file_loc n b) = ptr_at s (file_loc n b)"
    and data: "\<And>b c. b < MAX_FILE_BLOCKS \<Longrightarrow> BLOCK_SIZE * b < w \<Longrightarrow> c < DATA_BLOCKS_NUM \<Longrightarrow>
      ptr_at s (file_loc n b) = blk_addr s c \<Longrightarrow> same_block s s' c"
  shows "holds s' n buf w"
  unfolding holds_def
proof (intro allI impI)
  fix b j assume b: "b < MAX_FILE_BLOCKS" "j < BLOCK_SIZE" "BLOCK_SIZE * b + j < w"
  note H = holdsD [OF h b]
  have bw: "BLOCK_SIZE * b < w" using b(3) by simp
  obtain c where c: "c < DATA_BLOCKS_NUM" "ptr_at s (file_loc n b) = blk_addr s c"
    using H wf_blocksD [OF wf file_loc_props(1) [OF n b(1)]] by blast
  have "file_byte s' n b j = file_byte s n b j"
    using data [OF b(1) bw c] b(2) c ptr [OF b(1) bw]
    by (simp add: file_byte_def addr_frame(2) [OF addr] same_block_def)
  then show "ptr_at s' (file_loc n b) \<noteq> 0 \<and> file_byte s' n b j = buf ! (BLOCK_SIZE * b + j)"
    using H ptr [OF b(1) bw] by simp
qed

section \<open>Filling one block\<close>

lemma upd_region_Cons: "upd_region (f(a := c)) (Suc a) cs = upd_region f a (c # cs)"
  by (auto simp: upd_region_def fun_eq_iff nth_Cons split: nat.splits intro!: arg_cong [of _ _ "(!) cs"])

lemma upd_region_Nil [simp]: "upd_region f a [] = f"
  by (auto simp: upd_region_def fun_eq_iff)

lemma upd_region_single: "upd_region f a [c] = f(a := c)"
  using upd_region_Cons [of f a c "[]"] by simp

definition fill :: "filesys_struct \<Rightarrow> nat \<Rightarrow> nat \<Rightarrow> string \<Rightarrow> filesys_struct" where
  "fill s n a cs = set_inode (s\<lparr>data_blocks := upd_region (data_blocks s) a cs\<rparr>) n
     ((inodes s n)\<lparr>isize := isize (inodes s n) + of_nat (length cs)\<rparr>)"

lemma fill_fields [simp]:
  "discos_addr (fill s n a cs) = discos_addr s" "bitmap (fill s n a cs) = bitmap s"
  "free_blocks (fill s n a cs) = free_blocks s" "free_inodes (fill s n a cs) = free_inodes s"
  "data_blocks (fill s n a cs) = upd_region (data_blocks s) a cs"
  "inodes (fill s n a cs) = (inodes s)(n := (inodes s n)\<lparr>isize := isize (inodes s n) + of_nat (length cs)\<rparr>)"
  "ptr_off (fill s n a cs) = ptr_off s" "blk_addr (fill s n a cs) = blk_addr s"
  by (simp_all add: fill_def)

lemma fill_Nil [simp]: "fill s n a [] = s"
  by (simp add: fill_def set_inode_def)

lemma fill_Cons: "fill (fill s n a [c]) n (Suc a) cs = fill s n a (c # cs)"
proof -
  have "isize (inodes s n) + 1 + of_nat (length cs) = isize (inodes s n) + of_nat (length (c # cs))"
    by (simp add: algebra_simps)
  then show ?thesis by (simp add: fill_def set_inode_def upd_region_single upd_region_Cons algebra_simps)
qed

lemma fill_one:
  assumes "c < DATA_BLOCKS_NUM" "j < BLOCK_SIZE" "store_char s (ptr_off s (blk_addr s c) + j) ch = Some s1"
  shows "set_inode s1 n ((inodes s1 n)\<lparr>isize := isize (inodes s1 n) + 1\<rparr>) = fill s n (BLOCK_SIZE * c + j) [ch]"
  using assms by (auto simp: store_char_def fill_def upd_region_single)

lemma write_block_fill:
  assumes c: "c < DATA_BLOCKS_NUM" and N: "N \<le> length buf" "\<forall>x < N. buf ! x \<noteq> NUL"
  shows "j + m \<le> BLOCK_SIZE \<Longrightarrow> w < N \<Longrightarrow>
    write_block s n (blk_addr s c) buf (int N) j m cur w =
      (let k = min m (N - w) in
       Some (w + k = N, cur + of_nat k, w + k, fill s n (BLOCK_SIZE * c + j) (take k (drop w buf))))"
proof (induction m arbitrary: s j cur w)
  case 0
  then show ?case by simp
next
  case (Suc m)
  have dat: "data_at buf w = Some (buf ! w)" using Suc.prems N(1) by (simp add: data_at_def)
  have nz: "buf ! w \<noteq> NUL" using N(2) Suc.prems(2) by simp
  have j: "j < BLOCK_SIZE" using Suc.prems(1) by simp
  have "BLOCK_SIZE * c + j < DATA_BYTES" using c j by simp
  then obtain s1 where s1: "store_char s (ptr_off s (blk_addr s c) + j) (buf ! w) = Some s1"
    using c by (simp add: store_char_def)
  let ?s2 = "fill s n (BLOCK_SIZE * c + j) [buf ! w]"
  have eq: "write_block s n (blk_addr s c) buf (int N) j (Suc m) cur w =
      (if int (w + 1) = int N then Some (True, cur + 1, w + 1, ?s2)
       else write_block ?s2 n (blk_addr s c) buf (int N) (Suc j) m (cur + 1) (w + 1))"
    using dat nz s1 fill_one [OF c j s1, of n] by (simp add: Let_def)
  show ?case
  proof (cases "w + 1 = N")
    case True
    moreover have "take (Suc 0) (drop w buf) = [buf ! w]" using Suc.prems(2) N(1) by (simp add: take_Suc_conv_app_nth)
    moreover have "min (Suc m) (N - w) = 1" using True by simp
    ultimately show ?thesis using eq by (simp add: Let_def del: write_block.simps)
  next
    case False
    define k where "k = min m (N - (w + 1))"
    have k: "min (Suc m) (N - w) = Suc k" using Suc.prems(2) False by (simp add: k_def)
    have "take (Suc k) (drop w buf) = buf ! w # take k (drop (Suc w) buf)"
      using Suc.prems(2) N(1) by (simp add: Cons_nth_drop_Suc [symmetric])
    then have fill: "fill ?s2 n (BLOCK_SIZE * c + Suc j) (take k (drop (w + 1) buf))
        = fill s n (BLOCK_SIZE * c + j) (take (Suc k) (drop w buf))"
      using fill_Cons [of s n "BLOCK_SIZE * c + j" "buf ! w" "take k (drop (Suc w) buf)"] by simp
    have "write_block ?s2 n (blk_addr ?s2 c) buf (int N) (Suc j) m (cur + 1) (w + 1) =
      Some (w + 1 + k = N, cur + 1 + of_nat k, w + 1 + k, fill ?s2 n (BLOCK_SIZE * c + Suc j) (take k (drop (w + 1) buf)))"
      using Suc.IH [of "Suc j" "w + 1" ?s2 "cur + 1"] Suc.prems False unfolding k_def Let_def by simp
    then show ?thesis using eq False unfolding k Let_def fill by (simp add: algebra_simps)
  qed
qed

lemma fill_step:
  assumes wf: "wf_blocks s" and l: "valid_loc l" "\<not> index_loc l" "node_of l = n"
    and c: "c < DATA_BLOCKS_NUM" "ptr_at s l = blk_addr s c" and len: "j + length cs \<le> BLOCK_SIZE"
  shows "wf_blocks (fill s n (BLOCK_SIZE * c + j) cs)" "node_step n s (fill s n (BLOCK_SIZE * c + j) cs)"
    "\<And>l'. valid_loc l' \<Longrightarrow> ptr_at (fill s n (BLOCK_SIZE * c + j) cs) l' = ptr_at s l'"
    "\<And>x. x div BLOCK_SIZE \<noteq> c \<Longrightarrow> data_blocks (fill s n (BLOCK_SIZE * c + j) cs) x = data_blocks s x"
proof -
  let ?s = "fill s n (BLOCK_SIZE * c + j) cs"
  show data: "data_blocks ?s x = data_blocks s x" if "x div BLOCK_SIZE \<noteq> c" for x
  proof -
    have "x < BLOCK_SIZE * c + j \<or> BLOCK_SIZE * c + j + length cs \<le> x"
    proof (rule ccontr)
      assume "\<not> ?thesis"
      then have "BLOCK_SIZE * c \<le> x" "x < BLOCK_SIZE * Suc c" using len by simp_all
      then have "x div BLOCK_SIZE = c" by (intro div_nat_eqI) (simp_all add: mult.commute)
      then show False using that by blast
    qed
    then show ?thesis by simp
  qed
  have fields: "discos_addr ?s = discos_addr s" "free_inodes ?s = free_inodes s" "bitmap ?s = bitmap s"
    "free_blocks ?s = free_blocks s" "\<And>m. m \<noteq> n \<Longrightarrow> inodes ?s m = inodes s m"
    "itype (inodes ?s n) = itype (inodes s n)" "access (inodes ?s n) = access (inodes s n)"
    "pointers (inodes ?s n) = pointers (inodes s n)"
    "single_indirect_ptrs (inodes ?s n) = single_indirect_ptrs (inodes s n)"
    "double_indirect_ptrs (inodes ?s n) = double_indirect_ptrs (inodes s n)" by simp_all
  show "wf_blocks ?s" "node_step n s ?s" "\<And>l'. valid_loc l' \<Longrightarrow> ptr_at ?s l' = ptr_at s l'"
    by (rule data_update_step [OF wf l c fields(1-4) data fields(5-)]; assumption)+
qed

lemma fill_file_byte:
  assumes "c < DATA_BLOCKS_NUM" "ptr_at s (file_loc n b) = blk_addr s c"
    and "ptr_at (fill s n (BLOCK_SIZE * c + j) cs) (file_loc n b) = ptr_at s (file_loc n b)" "t < length cs"
  shows "file_byte (fill s n (BLOCK_SIZE * c + j) cs) n b (j + t) = cs ! t"
  using assms upd_region_inside [of t cs "data_blocks s" "BLOCK_SIZE * c + j"]
  by (simp add: file_byte_def add.assoc)

section \<open>The state of a write\<close>

text \<open>After \<open>b\<close> blocks: the bytes are in place and the size counts them; and enough free
  blocks are left for the rest of the data and \<open>r\<close> index blocks.\<close>

definition stored :: "nat \<Rightarrow> string \<Rightarrow> nat \<Rightarrow> filesys_struct \<Rightarrow> nat \<Rightarrow> bool" where
  "stored N buf n s b \<longleftrightarrow> wf_blocks s \<and> counter_ok s
     \<and> isize (inodes s n) = of_nat (min N (BLOCK_SIZE * b)) \<and> holds s n buf (min N (BLOCK_SIZE * b))"

definition budget :: "nat \<Rightarrow> filesys_struct \<Rightarrow> nat \<Rightarrow> nat \<Rightarrow> bool" where
  "budget N s b r \<longleftrightarrow> (N + 255) div BLOCK_SIZE - b + r \<le> unat (free_blocks s)"

lemma storedD:
  assumes "stored N buf n s b"
  shows "wf_blocks s" "counter_ok s" "isize (inodes s n) = of_nat (min N (BLOCK_SIZE * b))"
    "holds s n buf (min N (BLOCK_SIZE * b))"
  using assms by (auto simp: stored_def)

lemma enough_free:
  assumes "counter_ok s" "0 < unat (free_blocks s)"
  shows "get_free_block_num_from_bitmap s \<noteq> -1"
proof -
  have "free_set s \<noteq> {}" using assms by (auto simp: counter_ok_def)
  then have "\<exists>b < DATA_BLOCKS_NUM. \<not> blk_used s b" by (auto simp: free_set_def)
  moreover have "free_blocks s \<noteq> 0" using assms(2) by auto
  ultimately show ?thesis by (auto simp: get_free_block_num_None)
qed

lemma budget_positive: "budget N s b r \<Longrightarrow> BLOCK_SIZE * b < N \<or> 0 < r \<Longrightarrow> 0 < unat (free_blocks s)"
  by (auto simp: budget_def)

text \<open>Attaching a fresh block at an empty place.\<close>

lemma attached_stored:
  assumes s: "stored N buf n s b" and n: "n < MAX_NUM_FILE" and a: "attached s L c s1"
    and null: "ptr_at s L = 0"
  shows "stored N buf n s1 b" "unat (free_blocks s) \<noteq> 0 \<Longrightarrow> unat (free_blocks s1) = unat (free_blocks s) - 1"
proof -
  note S = storedD [OF s] and A = attachedD [OF a]
  have "holds s1 n buf (min N (BLOCK_SIZE * b))"
  proof (rule holds_frame [OF S(4,1) n A(4)])
    fix b' assume b': "b' < MAX_FILE_BLOCKS" "BLOCK_SIZE * b' < min N (BLOCK_SIZE * b)"
    note F = file_loc_props [OF n b'(1)]
    have "ptr_at s (file_loc n b') \<noteq> 0" using holdsD [OF S(4) b'(1), of 0] b'(2) by simp
    then have "file_loc n b' \<noteq> L" using null by auto
    then show "ptr_at s1 (file_loc n b') = ptr_at s (file_loc n b')" using A(7) [OF F(1)] by simp
    show "same_block s s1 d" if "d < DATA_BLOCKS_NUM" "ptr_at s (file_loc n b') = blk_addr s d" for d
      using A(10) [OF F(1,2) that] .
  qed
  then show "stored N buf n s1 b" using A(8) node_stepD(9) [OF A(9) S(2)] A(11) S(3) by (simp add: stored_def)
  show "unat (free_blocks s1) = unat (free_blocks s) - 1" if "unat (free_blocks s) \<noteq> 0"
    using that A(5) by (simp add: unat_minus_one unat_eq_zero)
qed

text \<open>Writing block \<open>b\<close>, whose pointer has been set.  The contents of the file are the first
  bytes of \<open>buf\<close>; the write started at position \<open>B0\<close>, so that its data is the rest from there.\<close>

lemma stored_block:
  assumes s: "stored N buf n s b" and n: "n < MAX_NUM_FILE" and b: "b < MAX_FILE_BLOCKS" "BLOCK_SIZE * b < N"
    and c: "c < DATA_BLOCKS_NUM" "ptr_at s (file_loc n b) = blk_addr s c"
    and N: "N \<le> length buf" "\<forall>x < N. buf ! x \<noteq> NUL" and B0: "B0 \<le> BLOCK_SIZE * b"
  shows "\<exists>s2. write_block s n (blk_addr s c) (drop B0 buf) (int (N - B0)) 0 BLOCK_SIZE (of_nat (BLOCK_SIZE * b)) (BLOCK_SIZE * b - B0)
      = Some (N \<le> BLOCK_SIZE * Suc b, of_nat (min N (BLOCK_SIZE * Suc b)), min N (BLOCK_SIZE * Suc b) - B0, s2)
    \<and> stored N buf n s2 (Suc b) \<and> free_blocks s2 = free_blocks s \<and> discos_addr s2 = discos_addr s
    \<and> (\<forall>l. valid_loc l \<longrightarrow> ptr_at s2 l = ptr_at s l)"
proof -
  note S = storedD [OF s] and F = file_loc_props [OF n b(1)]
  define k where "k = min BLOCK_SIZE (N - BLOCK_SIZE * b)"
  define cs where "cs = take k (drop (BLOCK_SIZE * b) buf)"
  define s2 where "s2 = fill s n (BLOCK_SIZE * c + 0) cs"
  have k: "BLOCK_SIZE * b + k = min N (BLOCK_SIZE * Suc b)" "k \<le> BLOCK_SIZE" using b(2) by (auto simp: k_def)
  have len: "length cs = k" using k(1) N(1) by (auto simp: cs_def)
  have N': "N - B0 \<le> length (drop B0 buf)" "\<forall>x < N - B0. drop B0 buf ! x \<noteq> NUL"
    using N b(2) B0 by (auto simp: less_diff_conv add.commute)
  have rel: "N - B0 - (BLOCK_SIZE * b - B0) = N - BLOCK_SIZE * b" "drop (BLOCK_SIZE * b - B0) (drop B0 buf) = drop (BLOCK_SIZE * b) buf"
    "BLOCK_SIZE * b - B0 + k = BLOCK_SIZE * b + k - B0" "BLOCK_SIZE * b + k - B0 = N - B0 \<longleftrightarrow> BLOCK_SIZE * b + k = N"
    "BLOCK_SIZE * b - B0 < N - B0"
    using B0 b(2) by auto
  have w: "write_block s n (blk_addr s c) (drop B0 buf) (int (N - B0)) 0 BLOCK_SIZE (of_nat (BLOCK_SIZE * b)) (BLOCK_SIZE * b - B0)
      = Some (BLOCK_SIZE * b + k = N, of_nat (BLOCK_SIZE * b) + of_nat k, BLOCK_SIZE * b + k - B0, s2)"
    using write_block_fill [OF c(1) N' _ rel(5), of 0 BLOCK_SIZE s n "of_nat (BLOCK_SIZE * b)"]
    unfolding Let_def rel(1,2) k_def [symmetric] rel(3,4) cs_def [symmetric] s2_def [symmetric] by simp
  have fin: "BLOCK_SIZE * b + k = N \<longleftrightarrow> N \<le> BLOCK_SIZE * Suc b" using k(1) by auto
  have fits: "0 + length cs \<le> BLOCK_SIZE" using len k(2) by simp
  note D' = fill_step(1-3) [OF S(1) F c fits, folded s2_def] and data = fill_step(4) [OF S(1) F c fits, folded s2_def]
  have fields: "free_blocks s2 = free_blocks s" by (simp add: s2_def)
  have addr: "discos_addr s2 = discos_addr s" by (simp add: s2_def)
  have "holds s2 n buf (min N (BLOCK_SIZE * Suc b))"
    unfolding holds_def
  proof (intro allI impI)
    fix b' j assume h: "b' < MAX_FILE_BLOCKS" "j < BLOCK_SIZE" "BLOCK_SIZE * b' + j < min N (BLOCK_SIZE * Suc b)"
    note F' = file_loc_props(1) [OF n h(1)]
    show "ptr_at s2 (file_loc n b') \<noteq> 0 \<and> file_byte s2 n b' j = buf ! (BLOCK_SIZE * b' + j)"
    proof (cases "b' = b")
      case True
      then have jk: "j < k" using h(2,3) by (simp add: k_def less_diff_conv)
      have "file_byte s2 n b j = upd_region (data_blocks s) (BLOCK_SIZE * c) cs (BLOCK_SIZE * c + j)"
        using c D'(3) [OF F(1)] by (simp add: file_byte_def s2_def)
      also have "\<dots> = buf ! (BLOCK_SIZE * b + j)"
        using jk len upd_region_inside [of j cs] k(1) N(1) by (simp add: cs_def)
      finally show ?thesis using True c blk_addr_nonzero [OF wf_region [OF S(1)] c(1)] D'(3) [OF F(1)] by simp
    next
      case False
      then have less: "BLOCK_SIZE * b' + j < min N (BLOCK_SIZE * b)" using h(2,3) by auto
      note H = holdsD [OF S(4) h(1,2) less]
      obtain d where d: "d < DATA_BLOCKS_NUM" "ptr_at s (file_loc n b') = blk_addr s d"
        using H wf_blocksD [OF S(1) F'] by blast
      have "d \<noteq> c"
        using wf_blocks_inj [OF S(1) F' F(1)] H d(2) c(2) file_loc_inj [of n b' b] False by auto
      then have "file_byte s2 n b' j = file_byte s n b' j"
        using d h(2) D'(3) [OF F'] data [of "BLOCK_SIZE * d + j"]
        by (simp add: file_byte_def addr_frame(2) [OF addr])
      then show ?thesis using H D'(3) [OF F'] by simp
    qed
  qed
  moreover have "min N (BLOCK_SIZE * b) = BLOCK_SIZE * b" using b(2) by simp
  then have "isize (inodes s2 n) = of_nat (BLOCK_SIZE * b) + of_nat k" using S(3) len by (simp add: s2_def)
  then have "isize (inodes s2 n) = of_nat (min N (BLOCK_SIZE * Suc b))" by (simp only: k(1) flip: of_nat_add)
  ultimately have "stored N buf n s2 (Suc b)"
    using D'(1) node_stepD(9) [OF D'(2) S(2)] by (simp add: stored_def)
  moreover have "of_nat (BLOCK_SIZE * b) + of_nat k = (of_nat (min N (BLOCK_SIZE * Suc b)) :: 32 word)"
    by (simp only: k(1) flip: of_nat_add)
  note w [unfolded fin this, unfolded k(1)]
  ultimately show ?thesis using addr fields D'(3) by blast
qed

end
