(* ===== verification/WriteContent.thy ===== *)
theory WriteContent
  imports Contents
begin

text \<open>
  The contents of a file after a write at its end: each stage of \<^verbatim>\<open>rd_write\<close> stores its
  blocks and hands over to the next at a block boundary.  The file is to hold the first \<open>N\<close>
  bytes of \<open>buf\<close>; the first \<open>B0\<close> of them were there before, so the write is of \<^term>\<open>drop B0 buf\<close>.
\<close>

section \<open>Steps shared by the stages\<close>

lemma stored_done:
  assumes "N \<le> BLOCK_SIZE * b" "b \<le> b'"
  shows "stored N buf n s b = stored N buf n s b'" "budget N s b r = budget N s b' r"
    "min N (BLOCK_SIZE * b') = min N (BLOCK_SIZE * b)"
proof -
  have le: "N \<le> BLOCK_SIZE * b'" using assms by (meson le_trans mult_le_mono2)
  then have "min N (BLOCK_SIZE * b) = N" "min N (BLOCK_SIZE * b') = N" using assms(1) by simp_all
  then show "stored N buf n s b = stored N buf n s b'" "min N (BLOCK_SIZE * b') = min N (BLOCK_SIZE * b)"
    by (simp_all only: stored_def)
  have "N + 255 < Suc b * BLOCK_SIZE" using assms(1) by simp
  then have "(N + 255) div BLOCK_SIZE < Suc b" by (rule less_mult_imp_div_less)
  then show "budget N s b r = budget N s b' r" using assms(2) by (simp add: budget_def)
qed

lemma not_null_or_free:
  assumes "stored N buf n s b" "budget N s b r" "BLOCK_SIZE * b < N \<or> 0 < r"
  shows "get_free_block_num_from_bitmap s \<noteq> -1"
  using enough_free [OF storedD(2) [OF assms(1)] budget_positive [OF assms(2,3)]] .

lemma ensured_index:
  assumes "stored N buf n s b" "budget N s b (Suc r)" "n < MAX_NUM_FILE"
    and "ptr_at s L = 0 \<Longrightarrow> attached s L c s1" "ptr_at s L \<noteq> 0 \<Longrightarrow> s1 = s"
  shows "stored N buf n s1 b" "budget N s1 b r"
proof -
  have pos: "unat (free_blocks s) \<noteq> 0" using budget_positive [OF assms(2)] by simp
  have "stored N buf n s1 b \<and> budget N s1 b r"
  proof (cases "ptr_at s L = 0")
    case True
    then show ?thesis using attached_stored [OF assms(1,3) assms(4) True] pos assms(2) by (simp add: budget_def)
  qed (use assms(1,2,5) in \<open>simp add: budget_def\<close>)
  then show "stored N buf n s1 b" "budget N s1 b r" by simp_all
qed

lemma budget_data: "BLOCK_SIZE * b < N \<Longrightarrow> budget N s b r \<longleftrightarrow> budget N s (Suc b) (Suc r)"
proof -
  assume "BLOCK_SIZE * b < N"
  then have "b < (N + 255) div BLOCK_SIZE" by (simp add: less_eq_div_iff_mult_less_eq Suc_le_eq [symmetric])
  then show ?thesis unfolding budget_def by arith
qed

lemma budget_weaken: "budget N s b (m + r) \<Longrightarrow> budget N s b r"
  by (simp add: budget_def)

lemma budget_cong: "free_blocks s' = free_blocks s \<Longrightarrow> budget N s' b r = budget N s b r"
  by (simp add: budget_def)

lemma ensured_data:
  assumes "stored N buf n s b" "budget N s b r" "n < MAX_NUM_FILE" "BLOCK_SIZE * b < N"
    and "ptr_at s L = 0 \<Longrightarrow> attached s L c s1" "ptr_at s L \<noteq> 0 \<Longrightarrow> s1 = s"
  shows "stored N buf n s1 b" "budget N s1 (Suc b) r"
proof -
  have pos: "unat (free_blocks s) \<noteq> 0" using budget_positive [OF assms(2)] assms(4) by simp
  have "stored N buf n s1 b \<and> budget N s1 (Suc b) r"
  proof (cases "ptr_at s L = 0")
    case True
    then show ?thesis using attached_stored [OF assms(1,3) assms(5) True] pos assms(2) budget_data [OF assms(4)]
      by (simp add: budget_def)
  qed (use assms(1,2,6) budget_data [OF assms(4)] in \<open>simp add: budget_def\<close>)
  then show "stored N buf n s1 b" "budget N s1 (Suc b) r" by simp_all
qed

section \<open>The direct blocks\<close>

lemma write_direct_content:
  assumes n: "n < MAX_NUM_FILE" and N: "N \<le> length buf" "\<forall>x < N. buf ! x \<noteq> NUL"
  shows "i + m = 8 \<Longrightarrow> stored N buf n s i \<Longrightarrow> budget N s i r \<Longrightarrow> BLOCK_SIZE * i < N \<Longrightarrow> B0 \<le> BLOCK_SIZE * i \<Longrightarrow>
    \<exists>s'. write_direct s n (drop B0 buf) (int (N - B0)) 0 i m (of_nat (BLOCK_SIZE * i)) (BLOCK_SIZE * i - B0) =
        Some (if N \<le> BLOCK_SIZE * 8 then Return (int (N - B0)) else Fall, of_nat (min N (BLOCK_SIZE * 8)), min N (BLOCK_SIZE * 8) - B0, s')
      \<and> stored N buf n s' 8 \<and> budget N s' 8 r"
proof (induction m arbitrary: s i)
  case 0
  then have "i = 8" by simp
  then show ?case using 0 by (intro exI [of _ s]) (simp add: min_def)
next
  case (Suc m)
  note prems = Suc.prems
  let ?l = "Dir n i" let ?fb = "get_free_block_num_from_bitmap s"
  have loc: "file_loc n i = ?l" using prems(1) by (simp add: file_loc_def)
  have l: "valid_loc ?l" "node_of ?l = n" using prems(1) n by auto
  have fb: "?fb \<noteq> -1" using not_null_or_free [OF prems(2,3)] prems(4) by blast
  obtain s1 c where s1: "(if ptr_at s ?l = 0
      then Option.bind (allocate_data_block s ?fb)
             (\<lambda>(q, s'). Some (set_inode s' n ((\<lambda>ino q. ino\<lparr>pointers := (pointers ino)(i := q)\<rparr>) (inodes s' n) q)))
      else Some s) = Some s1"
    "c < DATA_BLOCKS_NUM" "ptr_at s1 ?l = blk_addr s1 c"
    "ptr_at s ?l = 0 \<Longrightarrow> attached s ?l c s1" "ptr_at s ?l \<noteq> 0 \<Longrightarrow> s1 = s"
    by (rule ensure_inode_ptr [OF storedD(1) [OF prems(2)] l, of "\<lambda>ino q. ino\<lparr>pointers := (pointers ino)(i := q)\<rparr>"])
      (use fb in auto)
  note E = ensured_data [OF prems(2,3) n prems(4) s1(4,5)]
  obtain s2 where s2: "write_block s1 n (blk_addr s1 c) (drop B0 buf) (int (N - B0)) 0 BLOCK_SIZE (of_nat (BLOCK_SIZE * i)) (BLOCK_SIZE * i - B0)
      = Some (N \<le> BLOCK_SIZE * Suc i, of_nat (min N (BLOCK_SIZE * Suc i)), min N (BLOCK_SIZE * Suc i) - B0, s2)"
    "stored N buf n s2 (Suc i)" "free_blocks s2 = free_blocks s1"
    using stored_block [OF E(1) n _ prems(4) s1(2) _ N prems(5)] s1(3) loc prems(1) by auto
  have B: "budget N s2 (Suc i) r" using E(2) budget_cong [OF s2(3)] by simp
  have eq: "write_direct s n (drop B0 buf) (int (N - B0)) 0 i (Suc m) (of_nat (BLOCK_SIZE * i)) (BLOCK_SIZE * i - B0) =
    (if N \<le> BLOCK_SIZE * Suc i then Some (Return (int (min N (BLOCK_SIZE * Suc i) - B0)), of_nat (min N (BLOCK_SIZE * Suc i)), min N (BLOCK_SIZE * Suc i) - B0, s2)
     else write_direct s2 n (drop B0 buf) (int (N - B0)) 0 (Suc i) m (of_nat (min N (BLOCK_SIZE * Suc i))) (min N (BLOCK_SIZE * Suc i) - B0))"
  proof -
    have F: "(pointers (inodes s n) i = 0 \<and> ?fb = -1) = False" using fb by blast
    have p: "pointers (inodes s1 n) i = blk_addr s1 c" using s1(3) by simp
    show ?thesis using s1(1) s2(1)
      by (simp only: ptr_at.simps write_direct.simps Let_def F if_False Option.bind.bind_lunit case_prod_conv p diff_zero)
  qed
  show ?case
  proof (cases "N \<le> BLOCK_SIZE * Suc i")
    case True
    then have "min N (BLOCK_SIZE * Suc i) = N" by simp
    moreover have "Suc i \<le> 8" using prems(1) by simp
    ultimately show ?thesis
      using eq True s2(2) B stored_done [OF True, of 8] by (intro exI [of _ s2]) simp
  next
    case False
    then have "min N (BLOCK_SIZE * Suc i) = BLOCK_SIZE * Suc i" by simp
    moreover have "B0 \<le> BLOCK_SIZE * Suc i" using prems(5) by simp
    ultimately show ?thesis using Suc.IH [OF _ s2(2) B] prems(1) False unfolding eq by (simp del: mult_Suc_right of_nat_diff)
  qed
qed

section \<open>The blocks behind an index block\<close>

lemma write_index_content:
  assumes n: "n < MAX_NUM_FILE" and N: "N \<le> length buf" "\<forall>x < N. buf ! x \<noteq> NUL"
    and L: "valid_loc L" "node_of L = n" "\<And>k. k < PTRS_PER_BLOCK \<Longrightarrow> file_loc n (B + k) = Sub L k" "B + 64 \<le> MAX_FILE_BLOCKS"
    and c: "c < DATA_BLOCKS_NUM"
  shows "i + m = 64 \<Longrightarrow> stored N buf n s (B + i) \<Longrightarrow> budget N s (B + i) r \<Longrightarrow> BLOCK_SIZE * (B + i) < N \<Longrightarrow>
    B0 \<le> BLOCK_SIZE * (B + i) \<Longrightarrow> ptr_at s L = blk_addr s c \<Longrightarrow>
    \<exists>s'. write_index s n (ptr_at s L) (drop B0 buf) (int (N - B0)) 0 i m (of_nat (BLOCK_SIZE * (B + i))) (BLOCK_SIZE * (B + i) - B0) =
        Some (if N \<le> BLOCK_SIZE * (B + 64) then Return (int (N - B0)) else Fall, of_nat (min N (BLOCK_SIZE * (B + 64))),
          min N (BLOCK_SIZE * (B + 64)) - B0, s')
      \<and> stored N buf n s' (B + 64) \<and> budget N s' (B + 64) r \<and> discos_addr s' = discos_addr s
      \<and> (\<forall>l. valid_loc l \<longrightarrow> (\<forall>k. l \<noteq> Sub L k) \<longrightarrow> ptr_at s' l = ptr_at s l)"
proof (induction m arbitrary: s i)
  case 0
  then have "i = 64" by simp
  then show ?case using 0 by (intro exI [of _ s]) (simp add: min_def)
next
  case (Suc m)
  note prems = Suc.prems
  let ?l = "Sub L i" let ?fb = "get_free_block_num_from_bitmap s" let ?b = "B + i"
  have i: "i < PTRS_PER_BLOCK" using prems(1) by simp
  have b: "?b < MAX_FILE_BLOCKS" using i L(4) by simp
  have loc: "file_loc n ?b = ?l" using L(3) [OF i] .
  have l: "valid_loc ?l" using file_loc_props(1) [OF n b] loc by simp
  have fb: "?fb \<noteq> -1" using not_null_or_free [OF prems(2,3)] prems(4) by blast
  note wf = storedD(1) [OF prems(2)]
  have ld: "load_index s (ptr_at s L) i = Some (ptr_at s ?l)"
    using load_index_ptr_at [OF l prems(6) c wf] prems(6) by simp
  obtain p s1 d where s1: "(if ptr_at s ?l = 0
      then Option.bind (allocate_data_block s ?fb)
           (\<lambda>(q, s'). Option.bind (store_index s' (blk_addr s c) i q)
              (\<lambda>s''. Option.bind (load_index s'' (blk_addr s c) i) (\<lambda>b. Some (b, s''))))
      else Some (ptr_at s ?l, s)) = Some (p, s1)"
    "node_step (node_of L) s s1" "d < DATA_BLOCKS_NUM" "p = blk_addr s1 d"
    "ptr_at s1 ?l = p" "\<And>l. valid_loc l \<Longrightarrow> l \<noteq> ?l \<Longrightarrow> ptr_at s1 l = ptr_at s l"
    "ptr_at s ?l = 0 \<Longrightarrow> attached s ?l d s1" "ptr_at s ?l \<noteq> 0 \<Longrightarrow> s1 = s"
    by (rule ensure_index_ptr [OF wf l prems(6) c]) (use fb in blast)+
  note E = ensured_data [OF prems(2,3) n prems(4) s1(7,8)]
  have p: "ptr_at s1 (file_loc n ?b) = blk_addr s1 d" using s1(4,5) loc by simp
  obtain s2 where s2: "write_block s1 n (blk_addr s1 d) (drop B0 buf) (int (N - B0)) 0 BLOCK_SIZE (of_nat (BLOCK_SIZE * ?b)) (BLOCK_SIZE * ?b - B0)
      = Some (N \<le> BLOCK_SIZE * Suc ?b, of_nat (min N (BLOCK_SIZE * Suc ?b)), min N (BLOCK_SIZE * Suc ?b) - B0, s2)"
    "stored N buf n s2 (Suc ?b)" "free_blocks s2 = free_blocks s1" "discos_addr s2 = discos_addr s1"
    "\<And>l. valid_loc l \<Longrightarrow> ptr_at s2 l = ptr_at s1 l"
    using stored_block [OF E(1) n b prems(4) s1(3) p N prems(5)] by blast
  have B: "budget N s2 (Suc ?b) r" using E(2) budget_cong [OF s2(3)] by simp
  have addr: "discos_addr s2 = discos_addr s" using s2(4) node_step_addr [OF s1(2)] by simp
  have keep: "ptr_at s2 l' = ptr_at s l'" if "valid_loc l'" "\<forall>k. l' \<noteq> Sub L k" for l'
    using that s2(5) s1(6) by simp
  have L2: "ptr_at s2 L = ptr_at s L" using keep [OF L(1)] by auto
  have eq: "write_index s n (ptr_at s L) (drop B0 buf) (int (N - B0)) 0 i (Suc m) (of_nat (BLOCK_SIZE * ?b)) (BLOCK_SIZE * ?b - B0) =
    (if N \<le> BLOCK_SIZE * Suc ?b then Some (Return (int (min N (BLOCK_SIZE * Suc ?b) - B0)), of_nat (min N (BLOCK_SIZE * Suc ?b)), min N (BLOCK_SIZE * Suc ?b) - B0, s2)
     else write_index s2 n (ptr_at s L) (drop B0 buf) (int (N - B0)) 0 (Suc i) m (of_nat (min N (BLOCK_SIZE * Suc ?b))) (min N (BLOCK_SIZE * Suc ?b) - B0))"
  proof -
    have F: "(ptr_at s ?l = 0 \<and> ?fb = -1) = False" using fb by blast
    show ?thesis using s1(1) [folded prems(6)] s2(1)
      by (simp only: write_index.simps ld Let_def F if_False Option.bind.bind_lunit case_prod_conv s1(4) diff_zero)
  qed
  show ?case
  proof (cases "N \<le> BLOCK_SIZE * Suc ?b")
    case True
    then have m: "min N (BLOCK_SIZE * Suc ?b) = N" by simp
    have le: "Suc ?b \<le> B + 64" using i by simp
    have "N \<le> BLOCK_SIZE * (B + 64)" using True le by (meson le_trans mult_le_mono2)
    then show ?thesis
      unfolding eq m using True s2(2) B stored_done [OF True le] addr keep by (intro exI [of _ s2]) simp
  next
    case False
    then have m: "min N (BLOCK_SIZE * Suc ?b) = BLOCK_SIZE * Suc ?b" by simp
    have p2: "ptr_at s2 L = blk_addr s2 c" using L2 prems(6) by (simp add: addr_frame(1) [OF addr])
    have Sb: "Suc ?b = B + Suc i" by simp
    obtain s' where r: "write_index s2 n (ptr_at s2 L) (drop B0 buf) (int (N - B0)) 0 (Suc i) m (of_nat (BLOCK_SIZE * (B + Suc i))) (BLOCK_SIZE * (B + Suc i) - B0) =
        Some (if N \<le> BLOCK_SIZE * (B + 64) then Return (int (N - B0)) else Fall, of_nat (min N (BLOCK_SIZE * (B + 64))),
          min N (BLOCK_SIZE * (B + 64)) - B0, s')"
      "stored N buf n s' (B + 64)" "budget N s' (B + 64) r" "discos_addr s' = discos_addr s2"
      "\<forall>l. valid_loc l \<longrightarrow> (\<forall>k. l \<noteq> Sub L k) \<longrightarrow> ptr_at s' l = ptr_at s2 l"
      using Suc.IH [OF _ s2(2) [unfolded Sb] B [unfolded Sb] _ _ p2] prems(1,5) False by auto
    show ?thesis
      unfolding eq m using False r addr keep by (intro exI [of _ s']) (simp only: if_False L2 Sb, simp)
  qed
qed

lemma write_double_content:
  assumes n: "n < MAX_NUM_FILE" and N: "N \<le> length buf" "\<forall>x < N. buf ! x \<noteq> NUL"
    and c: "c < DATA_BLOCKS_NUM"
  shows "i + m = 64 \<Longrightarrow> stored N buf n s (72 + 64 * i) \<Longrightarrow> budget N s (72 + 64 * i) (m + r) \<Longrightarrow>
    BLOCK_SIZE * (72 + 64 * i) < N \<Longrightarrow> B0 \<le> BLOCK_SIZE * (72 + 64 * i) \<Longrightarrow> ptr_at s (Dbl n) = blk_addr s c \<Longrightarrow>
    \<exists>s'. write_double s n (ptr_at s (Dbl n)) (drop B0 buf) (int (N - B0)) 0 0 i m (of_nat (BLOCK_SIZE * (72 + 64 * i))) (BLOCK_SIZE * (72 + 64 * i) - B0) =
        Some (if N \<le> BLOCK_SIZE * MAX_FILE_BLOCKS then Return (int (N - B0)) else Fall, 0,
          of_nat (min N (BLOCK_SIZE * MAX_FILE_BLOCKS)), min N (BLOCK_SIZE * MAX_FILE_BLOCKS) - B0, s')
      \<and> stored N buf n s' MAX_FILE_BLOCKS \<and> budget N s' MAX_FILE_BLOCKS r"
proof (induction m arbitrary: s i)
  case 0
  then have "i = 64" by simp
  then show ?case using 0 by (intro exI [of _ s]) (simp add: min_def)
next
  case (Suc m)
  note prems = Suc.prems
  let ?D = "Dbl n" let ?l = "Sub ?D i" let ?fb = "get_free_block_num_from_bitmap s" let ?b = "72 + 64 * i"
  have i: "i < PTRS_PER_BLOCK" using prems(1) by simp
  have l: "valid_loc ?l" "node_of ?l = n" using i n by simp_all
  have fb: "?fb \<noteq> -1" using not_null_or_free [OF prems(2,3)] by simp
  note wf = storedD(1) [OF prems(2)]
  have ld: "load_index s (ptr_at s ?D) i = Some (ptr_at s ?l)"
    using load_index_ptr_at [OF l(1) prems(6) c wf] prems(6) by simp
  obtain p s1 d where s1: "(if ptr_at s ?l = 0
      then Option.bind (allocate_data_block s ?fb)
           (\<lambda>(q, s'). Option.bind (store_index s' (blk_addr s c) i q)
              (\<lambda>s''. Option.bind (load_index s'' (blk_addr s c) i) (\<lambda>b. Some (b, s''))))
      else Some (ptr_at s ?l, s)) = Some (p, s1)"
    "node_step (node_of ?D) s s1" "d < DATA_BLOCKS_NUM" "p = blk_addr s1 d"
    "ptr_at s1 ?l = p" "\<And>l. valid_loc l \<Longrightarrow> l \<noteq> ?l \<Longrightarrow> ptr_at s1 l = ptr_at s l" "inodes s1 = inodes s"
    "ptr_at s ?l = 0 \<Longrightarrow> attached s ?l d s1" "ptr_at s ?l \<noteq> 0 \<Longrightarrow> s1 = s"
    by (rule ensure_index_ptr [OF wf l(1) prems(6) c]) (use fb in blast)+
  have bud: "budget N s ?b (Suc (m + r))" using prems(3) by simp
  note E = ensured_index [OF prems(2) bud n s1(8,9)]
  have loc: "file_loc n (?b + k) = Sub ?l k" if "k < PTRS_PER_BLOCK" for k
    using file_loc_double [of k n i] that by simp
  have p: "ptr_at s1 ?l = blk_addr s1 d" using s1(4,5) by simp
  have bound: "?b + 64 \<le> MAX_FILE_BLOCKS" using i by simp
  have "\<exists>s2. write_index s1 n (ptr_at s1 ?l) (drop B0 buf) (int (N - B0)) 0 0 64 (of_nat (BLOCK_SIZE * (?b + 0))) (BLOCK_SIZE * (?b + 0) - B0) =
      Some (if N \<le> BLOCK_SIZE * (?b + 64) then Return (int (N - B0)) else Fall, of_nat (min N (BLOCK_SIZE * (?b + 64))),
        min N (BLOCK_SIZE * (?b + 64)) - B0, s2)
    \<and> stored N buf n s2 (?b + 64) \<and> budget N s2 (?b + 64) (m + r) \<and> discos_addr s2 = discos_addr s1
    \<and> (\<forall>l. valid_loc l \<longrightarrow> (\<forall>k. l \<noteq> Sub ?l k) \<longrightarrow> ptr_at s2 l = ptr_at s1 l)"
    by (rule write_index_content [OF n N l loc bound s1(3)]) (use E prems(4,5) p in simp_all)
  then obtain s2 where s2: "write_index s1 n p (drop B0 buf) (int (N - B0)) 0 0 64 (of_nat (BLOCK_SIZE * ?b)) (BLOCK_SIZE * ?b - B0) =
      Some (if N \<le> BLOCK_SIZE * (?b + 64) then Return (int (N - B0)) else Fall, of_nat (min N (BLOCK_SIZE * (?b + 64))),
        min N (BLOCK_SIZE * (?b + 64)) - B0, s2)"
    "stored N buf n s2 (?b + 64)" "budget N s2 (?b + 64) (m + r)" "discos_addr s2 = discos_addr s1"
    "\<And>l. valid_loc l \<Longrightarrow> (\<forall>k. l \<noteq> Sub ?l k) \<Longrightarrow> ptr_at s2 l = ptr_at s1 l"
    unfolding add_0_right s1(5) by blast
  have addr: "discos_addr s2 = discos_addr s" using s2(4) node_step_addr [OF s1(2)] by simp
  have D2: "ptr_at s2 ?D = ptr_at s ?D" using s2(5) [of ?D] s1(6) [of ?D] n by simp
  have not: "\<not> (ptr_at s ?l = 0 \<and> ?fb = -1)" using fb by blast
  note st = write_double_ensure [OF wf prems(6) not s1(1,7)]
  have eq: "write_double s n (ptr_at s ?D) (drop B0 buf) (int (N - B0)) 0 0 i (Suc m) (of_nat (BLOCK_SIZE * ?b)) (BLOCK_SIZE * ?b - B0) =
    (case (if N \<le> BLOCK_SIZE * (?b + 64) then Return (int (N - B0)) else Fall) of
       Return v \<Rightarrow> Some (Return v, 0, of_nat (min N (BLOCK_SIZE * (?b + 64))), min N (BLOCK_SIZE * (?b + 64)) - B0, s2)
     | Fall \<Rightarrow> write_double s2 n (ptr_at s ?D) (drop B0 buf) (int (N - B0)) 0 0 (Suc i) m (of_nat (min N (BLOCK_SIZE * (?b + 64)))) (min N (BLOCK_SIZE * (?b + 64)) - B0))"
  proof -
    have F: "(ptr_at s ?l = 0 \<and> ?fb = -1) = False" using fb by blast
    show ?thesis using st s2(1)
      by (simp only: write_double.simps ld F Let_def if_False Option.bind.bind_lunit case_prod_conv div_0 diff_zero)
  qed
  show ?case
  proof (cases "N \<le> BLOCK_SIZE * (?b + 64)")
    case True
    then have "min N (BLOCK_SIZE * (?b + 64)) = N" by simp
    moreover have "N \<le> BLOCK_SIZE * MAX_FILE_BLOCKS" using True bound by (meson le_trans mult_le_mono2)
    ultimately show ?thesis
      using True s2(2) stored_done [OF True bound] budget_weaken [OF s2(3)] unfolding eq by (intro exI [of _ s2]) simp
  next
    case False
    then have m: "min N (BLOCK_SIZE * (?b + 64)) = BLOCK_SIZE * (?b + 64)" by simp
    have p2: "ptr_at s2 ?D = blk_addr s2 c" using D2 prems(6) by (simp add: addr_frame(1) [OF addr])
    have Sb: "?b + 64 = 72 + 64 * Suc i" by simp
    obtain s' where r: "write_double s2 n (ptr_at s2 ?D) (drop B0 buf) (int (N - B0)) 0 0 (Suc i) m
        (of_nat (BLOCK_SIZE * (72 + 64 * Suc i))) (BLOCK_SIZE * (72 + 64 * Suc i) - B0) =
        Some (if N \<le> BLOCK_SIZE * MAX_FILE_BLOCKS then Return (int (N - B0)) else Fall, 0,
          of_nat (min N (BLOCK_SIZE * MAX_FILE_BLOCKS)), min N (BLOCK_SIZE * MAX_FILE_BLOCKS) - B0, s')"
      "stored N buf n s' MAX_FILE_BLOCKS" "budget N s' MAX_FILE_BLOCKS r"
      using Suc.IH [OF _ s2(2,3) [unfolded Sb] _ _ p2] prems(1,5) False unfolding Sb by auto
    show ?thesis
      unfolding eq m using False r by (intro exI [of _ s']) (simp only: if_False D2 Sb, simp)
  qed
qed

section \<open>All stages\<close>

lemma single_stage_content:
  assumes n: "n < MAX_NUM_FILE" and N: "N \<le> length buf" "\<forall>x < N. buf ! x \<noteq> NUL"
    and b: "8 \<le> b" "b < 72" "B0 \<le> BLOCK_SIZE * b"
    and s: "stored N buf n s b" "budget N s b (Suc r)" "BLOCK_SIZE * b < N"
  shows "\<exists>s'. write_single_stage s n (drop B0 buf) (int (N - B0)) b 0 (of_nat (BLOCK_SIZE * b)) (BLOCK_SIZE * b - B0) =
      Some (if N \<le> BLOCK_SIZE * 72 then Return (int (N - B0)) else Fall, of_nat (min N (BLOCK_SIZE * 72)), min N (BLOCK_SIZE * 72) - B0, s')
    \<and> stored N buf n s' 72 \<and> budget N s' 72 r"
proof -
  let ?l = "Sng n" let ?fb = "get_free_block_num_from_bitmap s"
  have l: "valid_loc ?l" "node_of ?l = n" using n by simp_all
  have fb: "?fb \<noteq> -1" using not_null_or_free [OF s(1,2)] by simp
  obtain s1 c where s1: "(if ptr_at s ?l = 0
      then Option.bind (allocate_data_block s ?fb)
             (\<lambda>(q, s'). Some (set_inode s' n ((\<lambda>ino q. ino\<lparr>single_indirect_ptrs := q\<rparr>) (inodes s' n) q)))
      else Some s) = Some s1"
    "c < DATA_BLOCKS_NUM" "ptr_at s1 ?l = blk_addr s1 c"
    "ptr_at s ?l = 0 \<Longrightarrow> attached s ?l c s1" "ptr_at s ?l \<noteq> 0 \<Longrightarrow> s1 = s"
    by (rule ensure_inode_ptr [OF storedD(1) [OF s(1)] l, of "\<lambda>ino q. ino\<lparr>single_indirect_ptrs := q\<rparr>"])
      (use fb in auto)
  note E = ensured_index [OF s(1,2) n s1(4,5)]
  have loc: "file_loc n (8 + k) = Sub ?l k" if "k < PTRS_PER_BLOCK" for k using file_loc_single that by simp
  have bk: "8 + (b - 8) = b" using b by simp
  have "\<exists>s'. write_index s1 n (ptr_at s1 ?l) (drop B0 buf) (int (N - B0)) 0 (b - 8) (64 - (b - 8)) (of_nat (BLOCK_SIZE * (8 + (b - 8)))) (BLOCK_SIZE * (8 + (b - 8)) - B0) =
      Some (if N \<le> BLOCK_SIZE * (8 + 64) then Return (int (N - B0)) else Fall, of_nat (min N (BLOCK_SIZE * (8 + 64))),
        min N (BLOCK_SIZE * (8 + 64)) - B0, s')
    \<and> stored N buf n s' (8 + 64) \<and> budget N s' (8 + 64) r \<and> discos_addr s' = discos_addr s1
    \<and> (\<forall>l. valid_loc l \<longrightarrow> (\<forall>k. l \<noteq> Sub ?l k) \<longrightarrow> ptr_at s' l = ptr_at s1 l)"
    by (rule write_index_content [OF n N l loc _ s1(2)]; (unfold bk)?) (use E s(3) b s1(3) in simp_all)
  then obtain s' where r: "write_index s1 n (single_indirect_ptrs (inodes s1 n)) (drop B0 buf) (int (N - B0)) 0 (b - 8) (64 - (b - 8)) (of_nat (BLOCK_SIZE * b)) (BLOCK_SIZE * b - B0) =
      Some (if N \<le> BLOCK_SIZE * 72 then Return (int (N - B0)) else Fall, of_nat (min N (BLOCK_SIZE * 72)), min N (BLOCK_SIZE * 72) - B0, s')"
    "stored N buf n s' 72" "budget N s' 72 r" unfolding bk by auto
  have F: "(single_indirect_ptrs (inodes s n) = 0 \<and> ?fb = -1) = False" using fb by blast
  show ?thesis
    using s1(1) r
    by (intro exI [of _ s']) (simp only: write_single_stage_def ptr_at.simps F Let_def if_False
        Option.bind.bind_lunit)
qed

lemma double_stage_content:
  assumes n: "n < MAX_NUM_FILE" and N: "N \<le> length buf" "\<forall>x < N. buf ! x \<noteq> NUL" "N \<le> BLOCK_SIZE * MAX_FILE_BLOCKS"
    and B0: "B0 \<le> BLOCK_SIZE * 72"
    and s: "stored N buf n s 72" "budget N s 72 (65 + x)" "BLOCK_SIZE * 72 < N"
  shows "\<exists>s'. write_double_stage s n (drop B0 buf) (int (N - B0)) 72 0 (of_nat (BLOCK_SIZE * 72)) (BLOCK_SIZE * 72 - B0) =
      Some (Return (int (N - B0)), 0, of_nat N, N - B0, s') \<and> stored N buf n s' MAX_FILE_BLOCKS \<and> budget N s' MAX_FILE_BLOCKS x"
proof -
  let ?l = "Dbl n" let ?fb = "get_free_block_num_from_bitmap s"
  have l: "valid_loc ?l" "node_of ?l = n" using n by simp_all
  have fb: "?fb \<noteq> -1" using not_null_or_free [OF s(1,2)] by simp
  obtain s1 c where s1: "(if ptr_at s ?l = 0
      then Option.bind (allocate_data_block s ?fb)
             (\<lambda>(q, s'). Some (set_inode s' n ((\<lambda>ino q. ino\<lparr>double_indirect_ptrs := q\<rparr>) (inodes s' n) q)))
      else Some s) = Some s1"
    "c < DATA_BLOCKS_NUM" "ptr_at s1 ?l = blk_addr s1 c"
    "ptr_at s ?l = 0 \<Longrightarrow> attached s ?l c s1" "ptr_at s ?l \<noteq> 0 \<Longrightarrow> s1 = s"
    by (rule ensure_inode_ptr [OF storedD(1) [OF s(1)] l, of "\<lambda>ino q. ino\<lparr>double_indirect_ptrs := q\<rparr>"])
      (use fb in auto)
  have "budget N s 72 (Suc (64 + x))" using s(2) by simp
  note E = ensured_index [OF s(1) this n s1(4,5)]
  have "\<exists>s'. write_double s1 n (ptr_at s1 ?l) (drop B0 buf) (int (N - B0)) 0 0 0 64 (of_nat (BLOCK_SIZE * (72 + 64 * 0))) (BLOCK_SIZE * (72 + 64 * 0) - B0) =
        Some (if N \<le> BLOCK_SIZE * MAX_FILE_BLOCKS then Return (int (N - B0)) else Fall, 0,
          of_nat (min N (BLOCK_SIZE * MAX_FILE_BLOCKS)), min N (BLOCK_SIZE * MAX_FILE_BLOCKS) - B0, s')
      \<and> stored N buf n s' MAX_FILE_BLOCKS \<and> budget N s' MAX_FILE_BLOCKS x"
    by (rule write_double_content [OF n N(1,2) s1(2)]) (use E s(3) s1(3) B0 in simp_all)
  then obtain s' where r: "write_double s1 n (double_indirect_ptrs (inodes s1 n)) (drop B0 buf) (int (N - B0)) 0 0 0 64
      (of_nat (BLOCK_SIZE * 72)) (BLOCK_SIZE * 72 - B0) = Some (Return (int (N - B0)), 0, of_nat N, N - B0, s')"
    "stored N buf n s' MAX_FILE_BLOCKS" "budget N s' MAX_FILE_BLOCKS x" using N(3) by auto
  have F: "(double_indirect_ptrs (inodes s n) = 0 \<and> ?fb = -1) = False" using fb by blast
  have z: "72 - 8 - 64 = (0 :: nat)" by simp
  show ?thesis
    using s1(1) r
    by (intro exI [of _ s']) (simp only: write_double_stage_def ptr_at.simps F Let_def if_False
        Option.bind.bind_lunit z diff_zero)
qed

lemma size_unat: "stored N buf n s b \<Longrightarrow> BLOCK_SIZE * b < N \<Longrightarrow> b \<le> MAX_FILE_BLOCKS \<Longrightarrow>
  unat (isize (inodes s n)) = BLOCK_SIZE * b"
proof -
  assume s: "stored N buf n s b" "BLOCK_SIZE * b < N" "b \<le> MAX_FILE_BLOCKS"
  have "BLOCK_SIZE * b < 2 ^ 32" using s(3) by simp
  moreover have "isize (inodes s n) = of_nat (BLOCK_SIZE * b)" using storedD(3) [OF s(1)] s(2) by (simp add: min_def)
  ultimately show ?thesis by (simp add: unat_of_nat del: of_nat_mult)
qed

lemma write_stages_append:
  assumes n: "n < MAX_NUM_FILE" and N: "N \<le> length buf" "\<forall>x < N. buf ! x \<noteq> NUL" "N \<le> BLOCK_SIZE * MAX_FILE_BLOCKS"
    and b: "b \<le> 72" "BLOCK_SIZE * b < N"
    and s: "stored N buf n s b" "budget N s b (66 + x)"
  shows "\<exists>s'. write_stages s n (drop (BLOCK_SIZE * b) buf) (int (N - BLOCK_SIZE * b)) (of_nat (BLOCK_SIZE * b)) =
      Some (int (N - BLOCK_SIZE * b), of_nat N, s') \<and> stored N buf n s' MAX_FILE_BLOCKS \<and> budget N s' MAX_FILE_BLOCKS x"
proof -
  define B0 where "B0 = BLOCK_SIZE * b"
  define b1 where "b1 = max b 8"
  have b1: "b1 \<le> 72" "8 \<le> b1" "b \<le> b1" "B0 \<le> BLOCK_SIZE * b1" using b(1) by (auto simp: b1_def B0_def)
  have "BLOCK_SIZE * b < 2 ^ 32" using b(1) by simp
  then have u0: "unat (of_nat (BLOCK_SIZE * b) :: 32 word) = BLOCK_SIZE * b" by (simp add: unat_of_nat del: of_nat_mult)
  have start: "unat (of_nat (BLOCK_SIZE * b) :: 32 word) div BLOCK_SIZE = b" "unat (of_nat (BLOCK_SIZE * b) :: 32 word) mod BLOCK_SIZE = 0"
    unfolding u0 by simp_all
  have seg: "BLOCK_SIZE * k div BLOCK_SIZE = k" "BLOCK_SIZE * k mod BLOCK_SIZE = 0" for k :: nat by simp_all
  obtain s1 where 1: "write_direct s n (drop B0 buf) (int (N - B0)) 0 b (8 - b) (of_nat (BLOCK_SIZE * b)) 0 =
      Some (if N \<le> BLOCK_SIZE * b1 then Return (int (N - B0)) else Fall, of_nat (min N (BLOCK_SIZE * b1)), min N (BLOCK_SIZE * b1) - B0, s1)"
    "stored N buf n s1 b1" "budget N s1 b1 (66 + x)"
  proof (cases "b < 8")
    case True
    then have "b1 = 8" by (simp add: b1_def)
    then show thesis
      using that write_direct_content [OF n N(1,2) _ s b(2), of "8 - b" B0] True by (auto simp: B0_def)
  next
    case False
    then have "b1 = b" "8 - b = 0" by (auto simp: b1_def)
    then show thesis using that [of s] s b(2) by (simp add: B0_def)
  qed
  have "\<exists>s'. write_stages s n (drop B0 buf) (int (N - B0)) (of_nat (BLOCK_SIZE * b)) = Some (int (N - B0), of_nat N, s')
    \<and> stored N buf n s' MAX_FILE_BLOCKS \<and> budget N s' MAX_FILE_BLOCKS x"
  proof (cases "N \<le> BLOCK_SIZE * b1")
    case True
    then have "min N (BLOCK_SIZE * b1) = N" by simp
    then have "write_stages s n (drop B0 buf) (int (N - B0)) (of_nat (BLOCK_SIZE * b)) = Some (int (N - B0), of_nat N, s1)"
      using 1(1) True unfolding write_stages_def Let_def start by simp
    then show ?thesis using 1(2) budget_weaken [OF 1(3)] stored_done(1,2) [OF True, of MAX_FILE_BLOCKS] b1(1) by auto
  next
    case big: False
    then have m1: "min N (BLOCK_SIZE * b1) = BLOCK_SIZE * b1" by simp
    have u1: "unat (isize (inodes s1 n)) = BLOCK_SIZE * b1" using size_unat [OF 1(2)] big b1(1) by simp
    obtain s2 where 2: "(if 8 \<le> b1 \<and> b1 < 8 + 64
        then write_single_stage s1 n (drop B0 buf) (int (N - B0)) b1 0 (of_nat (BLOCK_SIZE * b1)) (BLOCK_SIZE * b1 - B0)
        else Some (Fall, of_nat (BLOCK_SIZE * b1), BLOCK_SIZE * b1 - B0, s1)) =
        Some (if N \<le> BLOCK_SIZE * 72 then Return (int (N - B0)) else Fall, of_nat (min N (BLOCK_SIZE * 72)), min N (BLOCK_SIZE * 72) - B0, s2)"
      "stored N buf n s2 72" "budget N s2 72 (65 + x)"
    proof (cases "b1 < 72")
      case True
      have "budget N s1 b1 (Suc (65 + x))" using 1(3) by simp
      from single_stage_content [OF n N(1,2) b1(2) True b1(4) 1(2) this] show thesis using that True b1(2) big by auto
    next
      case False
      then have "b1 = 72" using b1(1) by simp
      then show thesis using that [of s1] 1(2,3) big by (simp add: budget_def)
    qed
    show ?thesis
    proof (cases "N \<le> BLOCK_SIZE * 72")
      case True
      then have "min N (BLOCK_SIZE * 72) = N" by simp
      then have "write_stages s n (drop B0 buf) (int (N - B0)) (of_nat (BLOCK_SIZE * b)) = Some (int (N - B0), of_nat N, s2)"
        using 1(1) 2(1) True big unfolding write_stages_def Let_def start m1 by (simp add: u1 seg b1(2) del: of_nat_diff of_nat_mult)
      then show ?thesis using 2(2) budget_weaken [OF 2(3)] stored_done(1,2) [OF True, of MAX_FILE_BLOCKS] by auto
    next
      case huge: False
      then have m2: "min N (BLOCK_SIZE * 72) = BLOCK_SIZE * 72" by simp
      have u2: "unat (isize (inodes s2 n)) = BLOCK_SIZE * 72" using size_unat [OF 2(2)] huge by simp
      have B0: "B0 \<le> BLOCK_SIZE * 72" using b(1) by (simp add: B0_def)
      obtain s3 where 3: "write_double_stage s2 n (drop B0 buf) (int (N - B0)) 72 0 (of_nat (BLOCK_SIZE * 72)) (BLOCK_SIZE * 72 - B0) =
          Some (Return (int (N - B0)), 0, of_nat N, N - B0, s3)" "stored N buf n s3 MAX_FILE_BLOCKS" "budget N s3 MAX_FILE_BLOCKS x"
        using double_stage_content [OF n N B0 2(2,3)] huge by auto
      have "write_stages s n (drop B0 buf) (int (N - B0)) (of_nat (BLOCK_SIZE * b)) = Some (int (N - B0), of_nat N, s3)"
      proof (cases "b1 < 72")
        case True
        then show ?thesis using 1(1) 2(1) 3(1) big huge unfolding write_stages_def Let_def start m1 m2
          by (simp add: u1 u2 seg b1(2) del: of_nat_diff of_nat_mult)
      next
        case False
        then have "b1 = 72" using b1(1) by simp
        then show ?thesis using 1(1) 2(1) 3(1) huge u1 unfolding write_stages_def Let_def start m1 m2 by simp
      qed
      then show ?thesis using 3(2,3) by blast
    qed
  qed
  then show ?thesis by (simp only: B0_def)
qed

end
