(* ===== verification/ReadInv.thy ===== *)
theory ReadInv
  imports WriteInv
begin

text \<open>
  \<^verbatim>\<open>rd_read\<close> always returns on a well-formed partition: the blocks it reads are blocks of
  the partition, and the buffer holds every request it serves.
\<close>

section \<open>One block\<close>

definition read_post :: "int \<Rightarrow> nat \<Rightarrow> nat \<Rightarrow> bool" where
  "read_post to_read n n' \<longleftrightarrow> n \<le> n' \<and> int n' \<le> to_read"

lemma read_postI: "int n \<le> to_read \<Longrightarrow> read_post to_read n n"
  by (simp add: read_post_def)

lemma read_post_trans: "read_post t n n' \<Longrightarrow> read_post t n' n'' \<Longrightarrow> read_post t n n''"
  by (simp add: read_post_def)

lemma load_char_blk:
  assumes "c < DATA_BLOCKS_NUM" "j < BLOCK_SIZE"
  shows "load_char s (ptr_off s (blk_addr s c) + j) = Some (data_blocks s (BLOCK_SIZE * c + j))"
  using assms by (simp add: load_char_def)

lemma read_block_total:
  assumes "c < DATA_BLOCKS_NUM" "j + m \<le> BLOCK_SIZE" "int n < to_read" "to_read \<le> int READ_BUFFER_SIZE"
  shows "\<exists>cur' n' rb'. read_block s (blk_addr s c) to_read j m cur n rb = Some (cur', n', rb')
    \<and> read_post to_read n n'"
  using assms(2,3)
proof (induction m arbitrary: j cur n rb)
  case 0
  then show ?case by (simp add: read_post_def)
next
  case (Suc m)
  let ?c = "data_blocks s (BLOCK_SIZE * c + j)"
  have ld: "load_char s (ptr_off s (blk_addr s c) + j) = Some ?c"
    by (rule load_char_blk [OF assms(1)]) (use Suc.prems in simp)
  have small: "n < READ_BUFFER_SIZE" using Suc.prems(2) assms(4) by simp
  show ?case
  proof (cases "?c = NUL \<or> int (n + 1) \<noteq> to_read")
    case True
    then show ?thesis
      using Suc.IH [of "Suc j" n] Suc.IH [of "Suc j" "n + 1" "cur + 1" "rb(n := ?c)"] Suc.prems ld small
      by (cases "?c = NUL") (fastforce simp: read_post_def Let_def simp del: fun_upd_apply)+
  next
    case False
    then show ?thesis using ld small by (simp add: read_post_def)
  qed
qed

section \<open>The loops over blocks\<close>

lemma block_or_skip:
  assumes wf: "wf_blocks s" and l: "valid_loc l" and o: "offset \<le> BLOCK_SIZE"
    and n: "int n < to_read" "to_read \<le> int READ_BUFFER_SIZE"
  obtains cur1 n1 rb1 where
    "(if ptr_at s l \<noteq> 0 then read_block s (ptr_at s l) to_read offset (BLOCK_SIZE - offset) cur n rb
      else Some (cur, n, rb)) = Some (cur1, n1, rb1)" "read_post to_read n n1"
proof (cases "ptr_at s l = 0")
  case True
  then show ?thesis using n that by (simp add: read_post_def)
next
  case False
  obtain c where c: "c < DATA_BLOCKS_NUM" "ptr_at s l = blk_addr s c" by (rule wf_blocksD [OF wf l False])
  then show ?thesis
    using read_block_total [OF c(1) _ n, of offset "BLOCK_SIZE - offset" s cur rb] o False that by auto
qed

lemma read_direct_total:
  assumes wf: "wf_blocks s" and node: "node < MAX_NUM_FILE" and o: "offset \<le> BLOCK_SIZE"
    and t: "to_read \<le> int READ_BUFFER_SIZE"
  shows "i + m \<le> INODE_NUM_DIRECT_PTR \<Longrightarrow> int n < to_read \<Longrightarrow>
    \<exists>cur' n' rb'. read_direct s (inodes s node) to_read offset i m cur n rb = Some (cur', n', rb')
      \<and> read_post to_read n n'"
proof (induction m arbitrary: i cur n rb)
  case 0
  then show ?case by (simp add: read_post_def)
next
  case (Suc m)
  have l: "valid_loc (Dir node i)" using Suc.prems node by simp
  obtain cur1 n1 rb1 where r: "(if ptr_at s (Dir node i) \<noteq> 0
      then read_block s (ptr_at s (Dir node i)) to_read offset (BLOCK_SIZE - offset) cur n rb
      else Some (cur, n, rb)) = Some (cur1, n1, rb1)" "read_post to_read n n1"
    by (rule block_or_skip [OF wf l o Suc.prems(2) t])
  have eq: "read_direct s (inodes s node) to_read offset i (Suc m) cur n rb =
      (if int n1 = to_read then Some (cur1, n1, rb1)
       else read_direct s (inodes s node) to_read offset (Suc i) m cur1 n1 rb1)"
    by (simp only: read_direct.simps r(1) [unfolded ptr_at.simps] Option.bind.bind_lunit case_prod_conv)
  show ?case
  proof (cases "int n1 = to_read")
    case False
    then have "int n1 < to_read" using r(2) by (simp add: read_post_def)
    then show ?thesis
      using Suc.IH [of "Suc i" n1 cur1 rb1] Suc.prems(1) read_post_trans [OF r(2)] False unfolding eq by auto
  qed (use eq r(2) in simp)
qed

lemma read_index_total:
  assumes wf: "wf_blocks s" and L: "valid_loc L" "\<And>k. k < PTRS_PER_BLOCK \<Longrightarrow> valid_loc (Sub L k)"
    and c: "c < DATA_BLOCKS_NUM" "ptr_at s L = blk_addr s c" and o: "offset \<le> BLOCK_SIZE"
    and t: "to_read \<le> int READ_BUFFER_SIZE"
  shows "i + m \<le> PTRS_PER_BLOCK \<Longrightarrow> int n < to_read \<Longrightarrow>
    \<exists>cur' n' rb'. read_index s (ptr_at s L) to_read offset i m cur n rb = Some (cur', n', rb')
      \<and> read_post to_read n n'"
proof (induction m arbitrary: i cur n rb)
  case 0
  then show ?case by (simp add: read_post_def)
next
  case (Suc m)
  have l: "valid_loc (Sub L i)" using Suc.prems by (intro L(2)) simp
  have ld: "load_index s (ptr_at s L) i = Some (ptr_at s (Sub L i))"
    using load_index_ptr_at [OF l c(2,1) wf] c(2) by simp
  obtain cur1 n1 rb1 where r: "(if ptr_at s (Sub L i) \<noteq> 0
      then read_block s (ptr_at s (Sub L i)) to_read offset (BLOCK_SIZE - offset) cur n rb
      else Some (cur, n, rb)) = Some (cur1, n1, rb1)" "read_post to_read n n1"
    by (rule block_or_skip [OF wf l o Suc.prems(2) t])
  have eq: "read_index s (ptr_at s L) to_read offset i (Suc m) cur n rb =
      (if int n1 = to_read then Some (cur1, n1, rb1)
       else read_index s (ptr_at s L) to_read offset (Suc i) m cur1 n1 rb1)"
    by (simp only: read_index.simps ld r(1) Option.bind.bind_lunit case_prod_conv)
  show ?case
  proof (cases "int n1 = to_read")
    case False
    then have "int n1 < to_read" using r(2) by (simp add: read_post_def)
    then show ?thesis
      using Suc.IH [of "Suc i" n1 cur1 rb1] Suc.prems(1) read_post_trans [OF r(2)] False unfolding eq by auto
  qed (use eq r(2) in simp)
qed

lemma read_double_total:
  assumes wf: "wf_blocks s" and node: "node < MAX_NUM_FILE"
    and c: "c < DATA_BLOCKS_NUM" "ptr_at s (Dbl node) = blk_addr s c" and o: "offset \<le> BLOCK_SIZE"
    and t: "to_read \<le> int READ_BUFFER_SIZE"
  shows "i + m \<le> PTRS_PER_BLOCK \<Longrightarrow> int n < to_read \<Longrightarrow>
    \<exists>cur' n' rb'. read_double s (ptr_at s (Dbl node)) to_read offset seg i m cur n rb = Some (cur', n', rb')
      \<and> read_post to_read n n'"
proof (induction m arbitrary: i cur n rb seg)
  case 0
  then show ?case by (simp add: read_post_def)
next
  case (Suc m)
  let ?L = "Sub (Dbl node) i"
  have l: "valid_loc ?L" using Suc.prems node by simp
  have ld: "load_index s (ptr_at s (Dbl node)) i = Some (ptr_at s ?L)"
    using load_index_ptr_at [OF l c(2,1) wf] c(2) by simp
  define seg1 where "seg1 = (if ptr_at s ?L \<noteq> 0 then seg div 64 else seg)"
  obtain cur1 n1 rb1 where r: "(if ptr_at s ?L \<noteq> 0
      then read_index s (ptr_at s ?L) to_read offset seg1 (PTRS_PER_BLOCK - seg1) cur n rb
      else Some (cur, n, rb)) = Some (cur1, n1, rb1)" "read_post to_read n n1"
  proof (cases "ptr_at s ?L = 0")
    case True
    then show ?thesis using that Suc.prems(2) by (simp add: read_post_def)
  next
    case False
    obtain d where d: "d < DATA_BLOCKS_NUM" "ptr_at s ?L = blk_addr s d" by (rule wf_blocksD [OF wf l False])
    have v: "valid_loc (Sub ?L k)" if "k < PTRS_PER_BLOCK" for k using that l by simp
    show ?thesis
    proof (cases "seg1 \<le> PTRS_PER_BLOCK")
      case True
      then show ?thesis
        using read_index_total [OF wf l v d o t, of seg1 "PTRS_PER_BLOCK - seg1" n cur rb] Suc.prems(2) False that
        by (simp del: ptr_at.simps) blast
    next
      case big: False
      then show ?thesis using that False Suc.prems(2) by (simp add: read_post_def del: ptr_at.simps)
    qed
  qed
  have eq: "read_double s (ptr_at s (Dbl node)) to_read offset seg i (Suc m) cur n rb =
      (if int n1 = to_read then Some (cur1, n1, rb1)
       else read_double s (ptr_at s (Dbl node)) to_read offset seg1 (Suc i) m cur1 n1 rb1)"
    by (simp only: read_double.simps ld seg1_def [symmetric] r(1) Let_def Option.bind.bind_lunit case_prod_conv)
  show ?case
  proof (cases "int n1 = to_read")
    case False
    then have "int n1 < to_read" using r(2) by (simp add: read_post_def)
    then show ?thesis
      using Suc.IH [of "Suc i" n1 seg1 cur1 rb1] Suc.prems(1) read_post_trans [OF r(2)] False unfolding eq by auto
  qed (use eq r(2) in simp)
qed

section \<open>The system call\<close>

lemma read_stage_branch:
  assumes "P \<Longrightarrow> \<exists>cur' n' rb'. e = Some (cur', n', rb') \<and> read_post to_read n n'" "int n \<le> to_read"
  obtains cur' n' rb' where "(if P then e else Some (cur, n, rb)) = Some (cur', n', rb')" "read_post to_read n n'"
  using assms read_postI by (cases P) auto

lemma read_stages_total:
  assumes wf: "wf_blocks s" and node: "node < MAX_NUM_FILE" and t: "0 < to_read" "to_read \<le> int READ_BUFFER_SIZE"
  shows "\<exists>cur' n' rb'. read_stages s (inodes s node) to_read cur rb = Some (cur', n', rb') \<and> int n' \<le> to_read"
proof -
  have o: "x mod BLOCK_SIZE \<le> BLOCK_SIZE" for x by (rule less_imp_le) simp
  have e1: "\<exists>cur' n' rb'. read_direct s (inodes s node) to_read (unat cur mod BLOCK_SIZE) (unat cur div BLOCK_SIZE)
      (INODE_NUM_DIRECT_PTR - unat cur div BLOCK_SIZE) cur 0 rb = Some (cur', n', rb') \<and> read_post to_read 0 n'"
  proof (cases "unat cur div BLOCK_SIZE \<le> INODE_NUM_DIRECT_PTR")
    case True
    then show ?thesis using t(1) by (intro read_direct_total [OF wf node o t(2)]) simp_all
  next
    case False
    then have "INODE_NUM_DIRECT_PTR - unat cur div BLOCK_SIZE = 0" by simp
    then show ?thesis using t(1) by (simp only: read_direct.simps) (simp add: read_post_def)
  qed
  then obtain cur1 n1 rb1 where r1: "read_direct s (inodes s node) to_read (unat cur mod BLOCK_SIZE) (unat cur div BLOCK_SIZE)
      (INODE_NUM_DIRECT_PTR - unat cur div BLOCK_SIZE) cur 0 rb = Some (cur1, n1, rb1)" "int n1 \<le> to_read"
    by (auto simp: read_post_def)
  let ?g1 = "unat cur1 div BLOCK_SIZE" and ?S = "Sng node" and ?D = "Dbl node"
  have e2: "\<exists>cur' n' rb'. read_index s (ptr_at s ?S) to_read (unat cur1 mod BLOCK_SIZE)
      (?g1 - 8) (PTRS_PER_BLOCK - (?g1 - 8)) cur1 n1 rb1 = Some (cur', n', rb') \<and> read_post to_read n1 n'"
    if "int n1 < to_read \<and> 8 \<le> ?g1 \<and> ?g1 < 8 + 64 \<and> ptr_at s ?S \<noteq> 0"
  proof -
    have v: "valid_loc ?S" "\<And>k. k < PTRS_PER_BLOCK \<Longrightarrow> valid_loc (Sub ?S k)" using node by simp_all
    from that have nz: "ptr_at s ?S \<noteq> 0" by blast
    obtain c where c: "c < DATA_BLOCKS_NUM" "ptr_at s ?S = blk_addr s c" by (rule wf_blocksD [OF wf v(1) nz])
    show ?thesis using that by (intro read_index_total [OF wf v c o t(2)]) auto
  qed
  obtain cur2 n2 rb2 where r2: "(if int n1 < to_read \<and> 8 \<le> ?g1 \<and> ?g1 < 8 + 64 \<and> ptr_at s ?S \<noteq> 0
      then read_index s (ptr_at s ?S) to_read (unat cur1 mod BLOCK_SIZE) (?g1 - 8) (PTRS_PER_BLOCK - (?g1 - 8)) cur1 n1 rb1
      else Some (cur1, n1, rb1)) = Some (cur2, n2, rb2)" "int n2 \<le> to_read"
    using read_stage_branch [OF e2 r1(2), where cur = cur1 and rb = rb1] by (simp only: read_post_def) metis
  let ?g2 = "unat cur2 div BLOCK_SIZE"
  have e3: "\<exists>cur' n' rb'. read_double s (ptr_at s ?D) to_read (unat cur2 mod BLOCK_SIZE)
      (?g2 - 8 - 64) 0 PTRS_PER_BLOCK cur2 n2 rb2 = Some (cur', n', rb') \<and> read_post to_read n2 n'"
    if "int n2 < to_read \<and> 8 + 64 \<le> ?g2 \<and> ?g2 < 8 + 64 + 64 * 64 \<and> ptr_at s ?D \<noteq> 0"
  proof -
    have v: "valid_loc ?D" using node by simp
    from that have nz: "ptr_at s ?D \<noteq> 0" by blast
    obtain c where c: "c < DATA_BLOCKS_NUM" "ptr_at s ?D = blk_addr s c" by (rule wf_blocksD [OF wf v nz])
    show ?thesis using that by (intro read_double_total [OF wf node c o t(2)]) auto
  qed
  obtain cur3 n3 rb3 where r3: "(if int n2 < to_read \<and> 8 + 64 \<le> ?g2 \<and> ?g2 < 8 + 64 + 64 * 64 \<and> ptr_at s ?D \<noteq> 0
      then read_double s (ptr_at s ?D) to_read (unat cur2 mod BLOCK_SIZE) (?g2 - 8 - 64) 0 PTRS_PER_BLOCK cur2 n2 rb2
      else Some (cur2, n2, rb2)) = Some (cur3, n3, rb3)" "int n3 \<le> to_read"
    using read_stage_branch [OF e3 r2(2), where cur = cur2 and rb = rb2] by (simp only: read_post_def) metis
  have "read_stages s (inodes s node) to_read cur rb = Some (cur3, n3, rb3)"
    unfolding read_stages_def Let_def using r1(1) r2(1) r3(1)
    by (simp only: ptr_at.simps Option.bind.bind_lunit case_prod_conv)
  then show ?thesis using r3(2) by blast
qed

lemma rd_read_step:
  assumes "fds_ok k" "wf_blocks (fs k)" "- (2 ^ 31) \<le> fd" "fd < 2 ^ 31"
    "0 < num_bytes" "num_bytes \<le> int READ_BUFFER_SIZE"
  obtains (refused) "rd_read k fd num_bytes p = Some (-1, [], k)"
  | (served) r rb c where "valid_fd k fd" "0 \<le> r" "r \<le> num_bytes"
      "rd_read k fd num_bytes p = Some (r, copy_chunks rb 0 num_bytes,
         upd_fobj (k\<lparr>read_buffer := rb\<rparr>) 0 (nat fd) ((fobj k 0 (nat fd))\<lparr>cursor := c\<rparr>))"
proof (cases "valid_fd k fd")
  case False
  then have "rd_read k fd num_bytes p = Some (-1, [], k)"
    using lookup_fd_invalid [OF assms(1,3,4) False, of p] by (auto simp: rd_read_def fobj_no_inode Let_def)
  then show ?thesis by (rule refused)
next
  case True
  note slot = valid_fd_slot [OF assms(1) True]
  let ?n = "fd_node k fd" and ?f = "fobj k 0 (nat fd)"
  let ?rb0 = "upd_region (read_buffer k) 0 (replicate 4 NUL)"
  obtain cur n' rb where r: "read_stages (fs k) (inodes (fs k) ?n) num_bytes (cursor ?f) ?rb0 = Some (cur, n', rb)"
    "int n' \<le> num_bytes"
    using read_stages_total [OF assms(2) slot(2) assms(5,6)] by blast
  have "rd_read k fd num_bytes p =
      (if itype (inodes (fs k) ?n) = ''dir'' \<or> word_of_int num_bytes > isize (inodes (fs k) ?n) - cursor ?f
       then Some (-1, [], k)
       else Some (int n', copy_chunks rb 0 num_bytes,
         upd_fobj (k\<lparr>read_buffer := rb\<rparr>) 0 (nat fd) (?f\<lparr>cursor := cur\<rparr>)))"
    using slot r(1) assms(5,6)
    by (simp add: rd_read_def lookup_fd_valid [OF assms(1) True] get_inode_def Let_def)
  then show ?thesis using refused served [OF True _ r(2)] by (auto split: if_splits)
qed

end
