(* ===== verification/ReadContent.thy ===== *)
theory ReadContent
  imports WriteContent ReadInv
begin

text \<open>
  Reading a file from a block boundary fetches the bytes that its blocks hold, through all
  three stages of \<^verbatim>\<open>rd_read\<close>; and the copy loop hands them on in order.  The first \<open>N\<close> bytes
  of the file are those of \<open>buf\<close>; the read starts at position \<open>B0\<close> and is to get the rest.
\<close>

section \<open>One block\<close>

definition got :: "(nat \<Rightarrow> char) \<Rightarrow> string \<Rightarrow> nat \<Rightarrow> bool" where
  "got rb buf w \<longleftrightarrow> (\<forall>x < w. rb x = buf ! x)"

lemma got_0 [simp]: "got rb buf 0"
  by (simp add: got_def)

lemma got_Suc: "got rb buf w \<Longrightarrow> c = buf ! w \<Longrightarrow> got (rb(w := c)) buf (Suc w)"
  by (simp add: got_def less_Suc_eq)

lemma read_block_fetch:
  assumes c: "c < DATA_BLOCKS_NUM" and N: "N \<le> READ_BUFFER_SIZE" "\<forall>x < N. buf ! x \<noteq> NUL"
  shows "j + m \<le> BLOCK_SIZE \<Longrightarrow> w < N \<Longrightarrow> got rb buf w \<Longrightarrow>
    (\<And>t. t < m \<Longrightarrow> w + t < N \<Longrightarrow> data_blocks s (BLOCK_SIZE * c + j + t) = buf ! (w + t)) \<Longrightarrow>
    \<exists>rb'. read_block s (blk_addr s c) (int N) j m cur w rb =
        Some (cur + of_nat (min m (N - w)), w + min m (N - w), rb') \<and> got rb' buf (w + min m (N - w))"
proof (induction m arbitrary: j cur w rb)
  case 0
  then show ?case by simp
next
  case (Suc m)
  have byte: "data_blocks s (BLOCK_SIZE * c + j) = buf ! w" using Suc.prems(4) [of 0] Suc.prems(2) by simp
  have ld: "load_char s (ptr_off s (blk_addr s c) + j) = Some (buf ! w)"
    using load_char_blk [OF c, of j s] Suc.prems(1) byte by simp
  have nz: "buf ! w \<noteq> NUL" "w < READ_BUFFER_SIZE" using N Suc.prems(2) by simp_all
  let ?rb1 = "rb(w := buf ! w)"
  have g: "got ?rb1 buf (Suc w)" using Suc.prems(3) by (rule got_Suc) simp
  have eq: "read_block s (blk_addr s c) (int N) j (Suc m) cur w rb =
      (if int (w + 1) = int N then Some (cur + 1, w + 1, ?rb1)
       else read_block s (blk_addr s c) (int N) (Suc j) m (cur + 1) (w + 1) ?rb1)"
    using ld nz by (simp add: Let_def)
  show ?case
  proof (cases "w + 1 = N")
    case True
    moreover from this have "min (Suc m) (N - w) = 1" by simp
    ultimately show ?thesis using eq g by (simp del: read_block.simps)
  next
    case False
    have k: "min (Suc m) (N - w) = Suc (min m (N - (w + 1)))" using Suc.prems(2) False by simp
    have "data_blocks s (BLOCK_SIZE * c + Suc j + t) = buf ! (w + 1 + t)" if "t < m" "w + 1 + t < N" for t
      using Suc.prems(4) [of "Suc t"] that by simp
    then obtain rb' where "read_block s (blk_addr s c) (int N) (Suc j) m (cur + 1) (w + 1) ?rb1 =
        Some (cur + 1 + of_nat (min m (N - (w + 1))), w + 1 + min m (N - (w + 1)), rb')"
      "got rb' buf (w + 1 + min m (N - (w + 1)))"
      using Suc.IH [of "Suc j" "w + 1" ?rb1 "cur + 1"] Suc.prems(1,2) False g by (auto simp del: fun_upd_apply)
    then show ?thesis using eq False unfolding k by (intro exI [of _ rb']) (simp add: algebra_simps)
  qed
qed

text \<open>Block \<open>b\<close> of a file that holds the data.\<close>

lemma fetch_block:
  assumes wf: "wf_blocks s" and n: "n < MAX_NUM_FILE" and h: "holds s n buf N"
    and N: "N - B0 \<le> READ_BUFFER_SIZE" "\<forall>x < N. buf ! x \<noteq> NUL" "N \<le> length buf"
    and b: "b < MAX_FILE_BLOCKS" "BLOCK_SIZE * b < N" and g: "got rb (drop B0 buf) (BLOCK_SIZE * b - B0)"
    and B0: "B0 \<le> BLOCK_SIZE * b"
  shows "ptr_at s (file_loc n b) \<noteq> 0
    \<and> (\<exists>rb'. read_block s (ptr_at s (file_loc n b)) (int (N - B0)) 0 BLOCK_SIZE (of_nat (BLOCK_SIZE * b)) (BLOCK_SIZE * b - B0) rb =
        Some (of_nat (min N (BLOCK_SIZE * Suc b)), min N (BLOCK_SIZE * Suc b) - B0, rb')
      \<and> got rb' (drop B0 buf) (min N (BLOCK_SIZE * Suc b) - B0))"
proof -
  have nz: "ptr_at s (file_loc n b) \<noteq> 0" using holdsD [OF h b(1), of 0] b(2) by simp
  obtain c where c: "c < DATA_BLOCKS_NUM" "ptr_at s (file_loc n b) = blk_addr s c"
    by (rule wf_blocksD [OF wf file_loc_props(1) [OF n b(1)] nz])
  let ?w = "BLOCK_SIZE * b - B0"
  have len: "B0 \<le> length buf" using B0 b(2) N(3) by simp
  have dat: "data_blocks s (BLOCK_SIZE * c + 0 + t) = drop B0 buf ! (?w + t)" if "t < BLOCK_SIZE" "?w + t < N - B0" for t
    using holdsD [OF h b(1), of t] that c B0 len by (simp add: file_byte_def)
  have nz': "\<forall>x < N - B0. drop B0 buf ! x \<noteq> NUL" using N(2) len by (auto simp: less_diff_conv add.commute)
  have w: "?w < N - B0" using B0 b(2) by simp
  obtain rb' where r: "read_block s (blk_addr s c) (int (N - B0)) 0 BLOCK_SIZE (of_nat (BLOCK_SIZE * b)) ?w rb =
      Some (of_nat (BLOCK_SIZE * b) + of_nat (min BLOCK_SIZE (N - B0 - ?w)), ?w + min BLOCK_SIZE (N - B0 - ?w), rb')"
    "got rb' (drop B0 buf) (?w + min BLOCK_SIZE (N - B0 - ?w))"
    using read_block_fetch [OF c(1) N(1) nz' _ w g, of 0 BLOCK_SIZE s "of_nat (BLOCK_SIZE * b)"] dat by auto
  have d: "N - B0 - ?w = N - BLOCK_SIZE * b" using B0 b(2) by simp
  have m: "BLOCK_SIZE * b + min BLOCK_SIZE (N - BLOCK_SIZE * b) = min N (BLOCK_SIZE * Suc b)"
    "?w + min BLOCK_SIZE (N - BLOCK_SIZE * b) = min N (BLOCK_SIZE * Suc b) - B0" using b(2) B0 by auto
  show ?thesis using nz r unfolding d of_nat_add [symmetric] m c(2) by blast
qed

lemma full_or_more:
  assumes "B0 < N" "B0 \<le> X"
  shows "int (min N X - B0) = int (N - B0) \<longleftrightarrow> N \<le> X"
proof -
  have "min N X - B0 = N - B0 \<longleftrightarrow> N \<le> X" using assms by auto
  then show ?thesis by (simp only: of_nat_eq_iff)
qed

section \<open>The loops\<close>

lemma read_direct_fetch:
  assumes wf: "wf_blocks s" and n: "n < MAX_NUM_FILE" and h: "holds s n buf N"
    and N: "N - B0 \<le> READ_BUFFER_SIZE" "\<forall>x < N. buf ! x \<noteq> NUL" "N \<le> length buf"
  shows "i + m = 8 \<Longrightarrow> BLOCK_SIZE * i < N \<Longrightarrow> B0 \<le> BLOCK_SIZE * i \<Longrightarrow> got rb (drop B0 buf) (BLOCK_SIZE * i - B0) \<Longrightarrow>
    \<exists>rb'. read_direct s (inodes s n) (int (N - B0)) 0 i m (of_nat (BLOCK_SIZE * i)) (BLOCK_SIZE * i - B0) rb =
        Some (of_nat (min N (BLOCK_SIZE * 8)), min N (BLOCK_SIZE * 8) - B0, rb') \<and> got rb' (drop B0 buf) (min N (BLOCK_SIZE * 8) - B0)"
proof (induction m arbitrary: i rb)
  case 0
  then have "i = 8" by simp
  then show ?case using 0 by (simp add: min_def)
next
  case (Suc m)
  have loc: "ptr_at s (file_loc n i) = pointers (inodes s n) i" using Suc.prems(1) by (simp add: file_loc_def)
  have i: "i < MAX_FILE_BLOCKS" using Suc.prems(1) by simp
  let ?w = "min N (BLOCK_SIZE * Suc i)"
  obtain rb1 where r: "pointers (inodes s n) i \<noteq> 0"
    "read_block s (pointers (inodes s n) i) (int (N - B0)) 0 BLOCK_SIZE (of_nat (BLOCK_SIZE * i)) (BLOCK_SIZE * i - B0) rb = Some (of_nat ?w, ?w - B0, rb1)"
    "got rb1 (drop B0 buf) (?w - B0)"
    using fetch_block [OF wf n h N i Suc.prems(2,4,3)] unfolding loc by blast
  have w: "int (?w - B0) = int (N - B0) \<longleftrightarrow> N \<le> BLOCK_SIZE * Suc i"
    by (rule full_or_more) (use Suc.prems(2,3) in simp_all)
  have eq: "read_direct s (inodes s n) (int (N - B0)) 0 i (Suc m) (of_nat (BLOCK_SIZE * i)) (BLOCK_SIZE * i - B0) rb =
      (if N \<le> BLOCK_SIZE * Suc i then Some (of_nat ?w, ?w - B0, rb1)
       else read_direct s (inodes s n) (int (N - B0)) 0 (Suc i) m (of_nat ?w) (?w - B0) rb1)"
    using r(1,2) by (simp only: read_direct.simps if_True not_False_eq_True diff_zero Option.bind.bind_lunit
        case_prod_conv w)
  show ?case
  proof (cases "N \<le> BLOCK_SIZE * Suc i")
    case True
    have "Suc i \<le> 8" using Suc.prems(1) by simp
    then show ?thesis using eq True r(3) stored_done(3) [OF True, of 8] by auto
  next
    case False
    then have m: "?w = BLOCK_SIZE * Suc i" by simp
    have "B0 \<le> BLOCK_SIZE * Suc i" using Suc.prems(3) by simp
    then show ?thesis using Suc.IH [of "Suc i" rb1] Suc.prems(1) False r(3) unfolding eq m by (auto simp del: of_nat_diff)
  qed
qed

lemma read_index_fetch:
  assumes wf: "wf_blocks s" and n: "n < MAX_NUM_FILE" and h: "holds s n buf N"
    and N: "N - B0 \<le> READ_BUFFER_SIZE" "\<forall>x < N. buf ! x \<noteq> NUL" "N \<le> length buf"
    and L: "\<And>k. k < PTRS_PER_BLOCK \<Longrightarrow> file_loc n (B + k) = Sub L k" "B + 64 \<le> MAX_FILE_BLOCKS"
    and c: "c < DATA_BLOCKS_NUM" "ptr_at s L = blk_addr s c"
  shows "i + m = 64 \<Longrightarrow> BLOCK_SIZE * (B + i) < N \<Longrightarrow> B0 \<le> BLOCK_SIZE * (B + i) \<Longrightarrow> got rb (drop B0 buf) (BLOCK_SIZE * (B + i) - B0) \<Longrightarrow>
    \<exists>rb'. read_index s (ptr_at s L) (int (N - B0)) 0 i m (of_nat (BLOCK_SIZE * (B + i))) (BLOCK_SIZE * (B + i) - B0) rb =
        Some (of_nat (min N (BLOCK_SIZE * (B + 64))), min N (BLOCK_SIZE * (B + 64)) - B0, rb')
      \<and> got rb' (drop B0 buf) (min N (BLOCK_SIZE * (B + 64)) - B0)"
proof (induction m arbitrary: i rb)
  case 0
  then have "i = 64" by simp
  then show ?case using 0 by (simp add: min_def)
next
  case (Suc m)
  have i: "i < PTRS_PER_BLOCK" using Suc.prems(1) by simp
  have b: "B + i < MAX_FILE_BLOCKS" using i L(2) by simp
  have loc: "file_loc n (B + i) = Sub L i" using L(1) [OF i] .
  have l: "valid_loc (Sub L i)" using file_loc_props(1) [OF n b] loc by simp
  have ld: "load_index s (ptr_at s L) i = Some (ptr_at s (Sub L i))"
    using load_index_ptr_at [OF l c(2,1) wf] c(2) by simp
  let ?w = "min N (BLOCK_SIZE * Suc (B + i))"
  obtain rb1 where r: "ptr_at s (Sub L i) \<noteq> 0"
    "read_block s (ptr_at s (Sub L i)) (int (N - B0)) 0 BLOCK_SIZE (of_nat (BLOCK_SIZE * (B + i))) (BLOCK_SIZE * (B + i) - B0) rb = Some (of_nat ?w, ?w - B0, rb1)"
    "got rb1 (drop B0 buf) (?w - B0)"
    using fetch_block [OF wf n h N b Suc.prems(2,4,3)] unfolding loc by blast
  have w: "int (?w - B0) = int (N - B0) \<longleftrightarrow> N \<le> BLOCK_SIZE * Suc (B + i)"
    by (rule full_or_more) (use Suc.prems(2,3) in simp_all)
  have eq: "read_index s (ptr_at s L) (int (N - B0)) 0 i (Suc m) (of_nat (BLOCK_SIZE * (B + i))) (BLOCK_SIZE * (B + i) - B0) rb =
      (if N \<le> BLOCK_SIZE * Suc (B + i) then Some (of_nat ?w, ?w - B0, rb1)
       else read_index s (ptr_at s L) (int (N - B0)) 0 (Suc i) m (of_nat ?w) (?w - B0) rb1)"
    using r(1,2) by (simp only: read_index.simps ld if_True not_False_eq_True diff_zero Option.bind.bind_lunit
        case_prod_conv w)
  show ?case
  proof (cases "N \<le> BLOCK_SIZE * Suc (B + i)")
    case True
    have "Suc (B + i) \<le> B + 64" using i by simp
    then show ?thesis using eq True r(3) stored_done(3) [OF True, of "B + 64"] by auto
  next
    case False
    then have m: "?w = BLOCK_SIZE * (B + Suc i)" by simp
    have "B0 \<le> BLOCK_SIZE * (B + Suc i)" using Suc.prems(3) by simp
    then show ?thesis using Suc.IH [of "Suc i" rb1] Suc.prems(1) False r(3) unfolding eq m by (auto simp del: of_nat_diff)
  qed
qed

lemma index_not_null: "ptr_at s (Sub L k) \<noteq> 0 \<Longrightarrow> ptr_at s L \<noteq> 0"
  by auto

lemma holds_not_null:
  "holds s n buf N \<Longrightarrow> b < MAX_FILE_BLOCKS \<Longrightarrow> BLOCK_SIZE * b < N \<Longrightarrow> ptr_at s (file_loc n b) \<noteq> 0"
  using holdsD [of s n buf N b 0] by simp

lemma read_double_fetch:
  assumes wf: "wf_blocks s" and n: "n < MAX_NUM_FILE" and h: "holds s n buf N"
    and N: "N - B0 \<le> READ_BUFFER_SIZE" "\<forall>x < N. buf ! x \<noteq> NUL" "N \<le> length buf" and big: "BLOCK_SIZE * 72 < N"
  shows "i + m = 64 \<Longrightarrow> BLOCK_SIZE * (72 + 64 * i) < N \<Longrightarrow> B0 \<le> BLOCK_SIZE * (72 + 64 * i) \<Longrightarrow> got rb (drop B0 buf) (BLOCK_SIZE * (72 + 64 * i) - B0) \<Longrightarrow>
    \<exists>rb'. read_double s (ptr_at s (Dbl n)) (int (N - B0)) 0 0 i m (of_nat (BLOCK_SIZE * (72 + 64 * i))) (BLOCK_SIZE * (72 + 64 * i) - B0) rb =
        Some (of_nat (min N (BLOCK_SIZE * MAX_FILE_BLOCKS)), min N (BLOCK_SIZE * MAX_FILE_BLOCKS) - B0, rb')
      \<and> got rb' (drop B0 buf) (min N (BLOCK_SIZE * MAX_FILE_BLOCKS) - B0)"
proof (induction m arbitrary: i rb)
  case 0
  then have "i = 64" by simp
  then show ?case using 0 by (simp add: min_def)
next
  case (Suc m)
  let ?D = "Dbl n" let ?L = "Sub ?D i" let ?b = "72 + 64 * i"
  have i: "i < PTRS_PER_BLOCK" using Suc.prems(1) by simp
  have l: "valid_loc ?D" "valid_loc ?L" using n i by simp_all
  have loc: "file_loc n (?b + k) = Sub ?L k" if "k < PTRS_PER_BLOCK" for k
    using file_loc_double [of k n i] that by simp
  have bound: "?b + 64 \<le> MAX_FILE_BLOCKS" using i by simp
  have "ptr_at s (Sub ?L 0) \<noteq> 0" using holds_not_null [OF h _ Suc.prems(2)] i loc [of 0] by simp
  then have nz: "ptr_at s ?L \<noteq> 0" by (rule index_not_null)
  obtain c where c: "c < DATA_BLOCKS_NUM" "ptr_at s ?D = blk_addr s c"
    by (rule wf_blocksD [OF wf l(1) index_not_null [OF nz]])
  obtain d where d: "d < DATA_BLOCKS_NUM" "ptr_at s ?L = blk_addr s d" by (rule wf_blocksD [OF wf l(2) nz])
  have ld: "load_index s (ptr_at s ?D) i = Some (ptr_at s ?L)"
    using load_index_ptr_at [OF l(2) c(2,1) wf] c(2) by simp
  let ?w = "min N (BLOCK_SIZE * (?b + 64))"
  have "\<exists>rb'. read_index s (ptr_at s ?L) (int (N - B0)) 0 0 64 (of_nat (BLOCK_SIZE * (?b + 0))) (BLOCK_SIZE * (?b + 0) - B0) rb =
        Some (of_nat ?w, ?w - B0, rb') \<and> got rb' (drop B0 buf) (?w - B0)"
    by (rule read_index_fetch [OF wf n h N loc bound d]) (use Suc.prems in simp_all)
  then obtain rb1 where r: "read_index s (ptr_at s ?L) (int (N - B0)) 0 0 64 (of_nat (BLOCK_SIZE * ?b)) (BLOCK_SIZE * ?b - B0) rb =
      Some (of_nat ?w, ?w - B0, rb1)" "got rb1 (drop B0 buf) (?w - B0)" unfolding add_0_right by blast
  have w: "int (?w - B0) = int (N - B0) \<longleftrightarrow> N \<le> BLOCK_SIZE * (?b + 64)"
    by (rule full_or_more) (use Suc.prems(2,3) in simp_all)
  have eq: "read_double s (ptr_at s ?D) (int (N - B0)) 0 0 i (Suc m) (of_nat (BLOCK_SIZE * ?b)) (BLOCK_SIZE * ?b - B0) rb =
      (if N \<le> BLOCK_SIZE * (?b + 64) then Some (of_nat ?w, ?w - B0, rb1)
       else read_double s (ptr_at s ?D) (int (N - B0)) 0 0 (Suc i) m (of_nat ?w) (?w - B0) rb1)"
    using r(1) nz by (simp only: read_double.simps ld if_True not_False_eq_True div_0 diff_zero Let_def if_cancel
        Option.bind.bind_lunit case_prod_conv w)
  show ?case
  proof (cases "N \<le> BLOCK_SIZE * (?b + 64)")
    case True
    then show ?thesis using eq r(2) stored_done(3) [OF True bound] by auto
  next
    case False
    then have m: "?w = BLOCK_SIZE * (72 + 64 * Suc i)" by simp
    have "B0 \<le> BLOCK_SIZE * (72 + 64 * Suc i)" using Suc.prems(3) by simp
    then show ?thesis using Suc.IH [of "Suc i" rb1] Suc.prems(1) False r(2) unfolding eq m by (auto simp del: of_nat_diff)
  qed
qed

section \<open>All stages\<close>

lemma read_stages_fetch:
  assumes wf: "wf_blocks s" and n: "n < MAX_NUM_FILE" and h: "holds s n buf N"
    and b: "b \<le> 72" "BLOCK_SIZE * b < N"
    and N: "N - BLOCK_SIZE * b \<le> READ_BUFFER_SIZE" "\<forall>x < N. buf ! x \<noteq> NUL" "N \<le> length buf"
      "N \<le> BLOCK_SIZE * MAX_FILE_BLOCKS"
  shows "\<exists>rb'. read_stages s (inodes s n) (int (N - BLOCK_SIZE * b)) (of_nat (BLOCK_SIZE * b)) rb =
      Some (of_nat N, N - BLOCK_SIZE * b, rb') \<and> got rb' (drop (BLOCK_SIZE * b) buf) (N - BLOCK_SIZE * b)"
proof -
  define B0 where "B0 = BLOCK_SIZE * b"
  define b1 where "b1 = max b 8"
  have b1: "b1 \<le> 72" "8 \<le> b1" "B0 \<le> BLOCK_SIZE * b1" using b(1) by (auto simp: b1_def B0_def)
  have N': "N - B0 \<le> READ_BUFFER_SIZE" using N(1) by (simp add: B0_def)
  have u: "unat (of_nat (BLOCK_SIZE * k) :: 32 word) = BLOCK_SIZE * k" if "k \<le> 72" for k
  proof -
    have "BLOCK_SIZE * k < 2 ^ 32" using that by simp
    then show ?thesis by (simp add: unat_of_nat del: of_nat_mult)
  qed
  have seg: "unat (of_nat (BLOCK_SIZE * k) :: 32 word) div BLOCK_SIZE = k" "unat (of_nat (BLOCK_SIZE * k) :: 32 word) mod BLOCK_SIZE = 0"
    if "k \<le> 72" for k unfolding u [OF that] by simp_all
  have more: "int (X - B0) < int (N - B0) \<longleftrightarrow> X < N" if "B0 \<le> X" for X using that by auto
  obtain rb1 where 1: "read_direct s (inodes s n) (int (N - B0)) 0 b (8 - b) (of_nat (BLOCK_SIZE * b)) 0 rb =
      Some (of_nat (min N (BLOCK_SIZE * b1)), min N (BLOCK_SIZE * b1) - B0, rb1)" "got rb1 (drop B0 buf) (min N (BLOCK_SIZE * b1) - B0)"
  proof (cases "b < 8")
    case True
    then have "b1 = 8" by (simp add: b1_def)
    then show thesis
      using that read_direct_fetch [OF wf n h N' N(2,3), of b "8 - b" rb] b(2) True by (auto simp: B0_def)
  next
    case False
    then have "b1 = b" "8 - b = 0" by (auto simp: b1_def)
    then show thesis using that [of rb] b(2) by (simp add: B0_def)
  qed
  have "\<exists>rb'. read_stages s (inodes s n) (int (N - B0)) (of_nat (BLOCK_SIZE * b)) rb = Some (of_nat N, N - B0, rb')
    \<and> got rb' (drop B0 buf) (N - B0)"
  proof (cases "N \<le> BLOCK_SIZE * b1")
    case True
    then have m: "min N (BLOCK_SIZE * b1) = N" by simp
    have "read_stages s (inodes s n) (int (N - B0)) (of_nat (BLOCK_SIZE * b)) rb = Some (of_nat N, N - B0, rb1)"
      using 1(1) unfolding read_stages_def Let_def seg [OF b(1)] m by simp
    then show ?thesis using 1(2) unfolding m by blast
  next
    case big: False
    then have m1: "min N (BLOCK_SIZE * b1) = BLOCK_SIZE * b1" by simp
    have ge: "BLOCK_SIZE * 8 < N" using big b1(2) by (meson le_less_trans mult_le_mono2 not_le)
    have loc: "file_loc n (8 + k) = Sub (Sng n) k" if "k < PTRS_PER_BLOCK" for k using file_loc_single that by simp
    have "ptr_at s (Sub (Sng n) 0) \<noteq> 0" using holds_not_null [OF h, of 8] ge loc [of 0] by simp
    then have nz: "ptr_at s (Sng n) \<noteq> 0" by (rule index_not_null)
    then have ns: "single_indirect_ptrs (inodes s n) \<noteq> 0" by simp
    obtain c where c: "c < DATA_BLOCKS_NUM" "ptr_at s (Sng n) = blk_addr s c"
      by (rule wf_blocksD [OF wf _ nz]) (use n in simp)
    obtain rb2 where 2: "(if int (BLOCK_SIZE * b1 - B0) < int (N - B0) \<and> 8 \<le> b1 \<and> b1 < 8 + 64 \<and> single_indirect_ptrs (inodes s n) \<noteq> 0
        then read_index s (single_indirect_ptrs (inodes s n)) (int (N - B0)) 0 (b1 - 8) (PTRS_PER_BLOCK - (b1 - 8))
               (of_nat (BLOCK_SIZE * b1)) (BLOCK_SIZE * b1 - B0) rb1
        else Some (of_nat (BLOCK_SIZE * b1), BLOCK_SIZE * b1 - B0, rb1)) =
        Some (of_nat (min N (BLOCK_SIZE * 72)), min N (BLOCK_SIZE * 72) - B0, rb2)"
      "got rb2 (drop B0 buf) (min N (BLOCK_SIZE * 72) - B0)"
    proof (cases "b1 < 72")
      case True
      have bk: "8 + (b1 - 8) = b1" using b1(2) by simp
      have "\<exists>rb'. read_index s (ptr_at s (Sng n)) (int (N - B0)) 0 (b1 - 8) (64 - (b1 - 8)) (of_nat (BLOCK_SIZE * (8 + (b1 - 8))))
          (BLOCK_SIZE * (8 + (b1 - 8)) - B0) rb1 =
          Some (of_nat (min N (BLOCK_SIZE * (8 + 64))), min N (BLOCK_SIZE * (8 + 64)) - B0, rb')
          \<and> got rb' (drop B0 buf) (min N (BLOCK_SIZE * (8 + 64)) - B0)"
        by (rule read_index_fetch [OF wf n h N' N(2,3) loc _ c]; (unfold bk)?) (use big 1(2) m1 b1 True in simp_all)
      then obtain rb2 where "read_index s (single_indirect_ptrs (inodes s n)) (int (N - B0)) 0 (b1 - 8) (64 - (b1 - 8))
          (of_nat (BLOCK_SIZE * b1)) (BLOCK_SIZE * b1 - B0) rb1 =
          Some (of_nat (min N (BLOCK_SIZE * 72)), min N (BLOCK_SIZE * 72) - B0, rb2)"
        "got rb2 (drop B0 buf) (min N (BLOCK_SIZE * 72) - B0)" unfolding bk by auto
      then show thesis using that [of rb2] True b1(2) ns big unfolding more [OF b1(3)] by simp
    next
      case False
      then have "b1 = 72" using b1(1) by simp
      then show thesis using that [of rb1] 1(2) big by simp
    qed
    show ?thesis
    proof (cases "N \<le> BLOCK_SIZE * 72")
      case True
      then have m2: "min N (BLOCK_SIZE * 72) = N" by simp
      have lt: "BLOCK_SIZE * b1 - B0 < N - B0" "b1 < 72" using big b1(3) True by auto
      have "read_stages s (inodes s n) (int (N - B0)) (of_nat (BLOCK_SIZE * b)) rb = Some (of_nat N, N - B0, rb2)"
        using 1(1) 2(1) unfolding read_stages_def Let_def seg [OF b(1)] m1 m2
        by (simp add: seg [OF b1(1)] lt b1(2) ns del: of_nat_mult of_nat_diff)
      then show ?thesis using 2(2) unfolding m2 by blast
    next
      case huge: False
      then have m2: "min N (BLOCK_SIZE * 72) = BLOCK_SIZE * 72" by simp
      have m3: "min N (BLOCK_SIZE * MAX_FILE_BLOCKS) = N" using N(4) by simp
      have B0: "B0 \<le> BLOCK_SIZE * 72" using b(1) by (simp add: B0_def)
      obtain rb3 where 3: "read_double s (ptr_at s (Dbl n)) (int (N - B0)) 0 0 0 64 (of_nat (BLOCK_SIZE * 72)) (BLOCK_SIZE * 72 - B0) rb2 =
          Some (of_nat N, N - B0, rb3)" "got rb3 (drop B0 buf) (N - B0)"
        using read_double_fetch [OF wf n h N' N(2,3), of 0 64 rb2] huge 2(2) m2 m3 B0 by auto
      have "ptr_at s (Sub (Sub (Dbl n) 0) 0) \<noteq> 0"
        using holds_not_null [OF h, of 72] huge by (simp add: file_loc_def del: ptr_at.simps)
      then have nd: "double_indirect_ptrs (inodes s n) \<noteq> 0" using index_not_null ptr_at.simps(3) by metis
      have lt: "18432 - B0 < N - B0" "BLOCK_SIZE * b1 - B0 < N - B0" using huge B0 big b1(3) by auto
      have "read_stages s (inodes s n) (int (N - B0)) (of_nat (BLOCK_SIZE * b)) rb = Some (of_nat N, N - B0, rb3)"
      proof (cases "b1 < 72")
        case True
        then show ?thesis using 1(1) 2(1) 3(1) unfolding read_stages_def Let_def seg [OF b(1)] m1 m2
          by (simp add: seg [OF b1(1)] lt b1(2) ns nd del: of_nat_mult of_nat_diff)
      next
        case False
        then have "b1 = 72" using b1(1) by simp
        then show ?thesis using 1(1) 2(1) 3(1) unfolding read_stages_def Let_def seg [OF b(1)] m1 m2
          by (simp add: lt nd del: of_nat_diff)
      qed
      then show ?thesis using 3(2) by blast
    qed
  qed
  then show ?thesis by (simp only: B0_def)
qed

section \<open>The copy to the user\<close>

text \<open>The calls of \<^verbatim>\<open>copy_to_user\<close> tile the request: each starts where the last one ended,
  and together they carry the read buffer.\<close>

lemma copy_chunks_all:
  "0 \<le> left \<Longrightarrow> concat (map snd (copy_chunks rb src left)) = map rb [src..<src + nat left]
     \<and> (\<forall>i < length (copy_chunks rb src left). fst (copy_chunks rb src left ! i) =
          src + length (concat (map snd (take i (copy_chunks rb src left)))))"
proof (induction rb src left rule: copy_chunks.induct)
  case (1 rb src left)
  show ?case
  proof (cases "left > 4096")
    case True
    have IH: "concat (map snd (copy_chunks rb (src + 4096) (left - 4096))) = map rb [src + 4096..<src + nat left]"
      "\<And>i. i < length (copy_chunks rb (src + 4096) (left - 4096)) \<Longrightarrow> fst (copy_chunks rb (src + 4096) (left - 4096) ! i) =
        src + 4096 + length (concat (map snd (take i (copy_chunks rb (src + 4096) (left - 4096)))))"
      using "1.IH" [OF True] True by (auto simp: nat_diff_distrib)
    have eq: "copy_chunks rb src left = (src, map rb [src..<src + 4096]) # copy_chunks rb (src + 4096) (left - 4096)"
      using True by (subst copy_chunks.simps) simp
    have "[src..<src + nat left] = [src..<src + 4096] @ [src + 4096..<src + nat left]"
      using True upt_add_eq_append [of src "src + 4096" "nat left - 4096"] by simp
    then show ?thesis using IH unfolding eq by (auto simp: nth_Cons split: nat.splits)
  next
    case False
    then have "copy_chunks rb src left = [(src, map rb [src..<src + nat left])]" by (subst copy_chunks.simps) simp
    then show ?thesis by simp
  qed
qed

end
