(* ===== verification/Ioctl.thy ===== *)
theory Ioctl
  imports ReadWrite
begin

text \<open>
  The two ends of the system call interface: \<^verbatim>\<open>discos_ioctl\<close> of
  \<^verbatim>\<open>kernelspace/discosModule.c\<close>, which copies the arguments in and dispatches, and the
  wrappers of \<^verbatim>\<open>userspace/userspace_interface.c\<close>, which fill in the argument structure.

  User memory at a pointer is the list of the bytes that are mapped from there on.  The
  functions of the Linux kernel that the module calls are the fields of a record; what
  the code relies on of them is \<open>api_ok\<close>.  \<^verbatim>\<open>vfree\<close> and \<^verbatim>\<open>kfree\<close> have no effect on the
  state that is modelled (some of the calls hand \<^verbatim>\<open>vfree\<close> a pointer from \<^verbatim>\<open>kmalloc\<close>, or
  one that was advanced, which the kernel refuses with a warning).
\<close>

section \<open>Types\<close>

datatype request = RD_INIT | RD_CREATE | RD_MKDIR | RD_OPEN | RD_CLOSE | RD_READ | RD_WRITE
  | RD_LSEEK | RD_UNLINK | RD_READDIR | RD_CHMOD | Unknown "32 word"

record ioctl_args =
  arg_size :: int
  arg_mode :: "32 word"
  arg_pid :: int
  arg_fd :: int
  arg_pathname :: "string option"
  arg_data :: string

definition zero_args :: ioctl_args where
  "zero_args = \<lparr>arg_size = 0, arg_mode = 0, arg_pid = 0, arg_fd = 0, arg_pathname = None,
     arg_data = []\<rparr>"

text \<open>\<open>alloc u n\<close> is the object that \<^verbatim>\<open>vmalloc(n)\<close> or \<^verbatim>\<open>kmalloc(n)\<close> returns for the use
  \<open>u\<close>, \<open>disk_addr\<close> the address \<^verbatim>\<open>init_file_sys\<close> gets for the partition; \<open>copy_from_user mem n\<close>
  are the \<open>n\<close> bytes the call stores.\<close>

record kernel_api =
  alloc :: allocator
  disk_addr :: ptr
  strnlen_user :: "string \<Rightarrow> nat \<Rightarrow> nat"
  copy_from_user :: "string \<Rightarrow> nat \<Rightarrow> string"

text \<open>The documented behaviour: \<^verbatim>\<open>strnlen_user\<close> counts the terminator, and returns more than
  the limit for a string that is too long; \<^verbatim>\<open>copy_from_user\<close> copies mapped memory, and pads
  with zero bytes what it cannot read; an object has at least the size that was asked for.\<close>

definition api_ok :: "kernel_api \<Rightarrow> bool" where
  "api_ok api \<longleftrightarrow>
     (\<forall>mem n. NUL \<in> set mem \<longrightarrow>
        (if length (cstring mem) < n then strnlen_user api mem n = length (cstring mem) + 1
         else n < strnlen_user api mem n))
     \<and> (\<forall>mem n. length (copy_from_user api mem n) = n
         \<and> (n \<le> length mem \<longrightarrow> copy_from_user api mem n = take n mem))
     \<and> (\<forall>u n buf. alloc api u n = Some buf \<longrightarrow> n \<le> length buf)"

section \<open>The kernel side\<close>

text \<open>The copy of the path name, of the size that \<^verbatim>\<open>strnlen_user\<close> tells for a limit of 14: the
  object with these bytes in front.  It is a string only if there is a NUL in it.\<close>

definition path_arg :: "kernel_api \<Rightarrow> string \<Rightarrow> string option" where
  "path_arg api m = do {
     let n = strnlen_user api m 14;
     buf \<leftarrow> alloc api Path_Arg n;
     let bytes = copy_from_user api m n;
     if length bytes \<le> length buf then Some (bytes @ drop (length bytes) buf) else None
   }"

text \<open>\<^verbatim>\<open>vmalloc(0)\<close> is \<^verbatim>\<open>NULL\<close>, from which and to which nothing is copied.\<close>

definition data_buffer :: "kernel_api \<Rightarrow> int \<Rightarrow> string option" where
  "data_buffer api n = (if n = 0 then Some [] else alloc api Data_Arg (nat n))"

definition user_string :: "string option \<Rightarrow> string option" where
  "user_string mem = Option.bind mem c_string"

text \<open>The loop of \<^verbatim>\<open>RD_WRITE\<close>: chunks of at most 4096 bytes from \<open>from\<close> to the buffer
  \<open>data\<close> at position \<open>off\<close>.  The result is the buffer and the final position.\<close>

function copy_in ::
  "kernel_api \<Rightarrow> string \<Rightarrow> string \<Rightarrow> nat \<Rightarrow> int \<Rightarrow> (string \<times> nat) option" where
  "copy_in api mem data off left =
     (let n = (if left > 4096 then 4096 else nat left);
          chunk = copy_from_user api (drop off mem) n;
          data1 = take off data @ chunk @ drop (off + n) data
      in if left < 0 \<or> length data < off + n then None
         else if left > 4096 then copy_in api mem data1 (off + 4096) (left - 4096)
         else Some (data1, off + n))"
  by pat_completeness auto
termination
  by (relation "measure (\<lambda>(api, mem, data, off, left). nat left)") auto

declare copy_in.simps [simp del]

text \<open>The result is the return value and the calls of \<^verbatim>\<open>copy_to_user\<close>; \<open>EINVAL\<close> is 22.  The
  structure of the arguments has 24 bytes; without a path argument the variable \<open>pathname\<close> has
  no value.  \<^verbatim>\<open>rd_create\<close> looks at its path only when there are free index nodes and blocks.\<close>

definition discos_ioctl ::
  "kernel_api \<Rightarrow> kernel \<Rightarrow> request \<Rightarrow> ioctl_args \<Rightarrow> (int \<times> (nat \<times> string) list \<times> kernel) option"
  where
  "discos_ioctl api k cmd args = do {
     _ \<leftarrow> alloc api Args 24;
     path \<leftarrow> (case arg_pathname args of None \<Rightarrow> Some [] | Some m \<Rightarrow> path_arg api m);
     (case cmd of
        RD_INIT \<Rightarrow> map_option (\<lambda>(r, k1). (r, [], k1))
                     (init_file_sys (alloc api) (disk_addr api) (read_buffer k))
      | RD_OPEN \<Rightarrow> do {
          pathname \<leftarrow> user_string (arg_pathname args);
          (r, k1) \<leftarrow> rd_open (alloc api) k pathname (arg_mode args) (arg_pid args);
          Some (r, [], k1)
        }
      | RD_CLOSE \<Rightarrow> do { (r, k1) \<leftarrow> rd_close k (arg_fd args) (arg_pid args); Some (r, [], k1) }
      | RD_READ \<Rightarrow> rd_read k (arg_fd args) (arg_size args) (arg_pid args)
      | RD_WRITE \<Rightarrow> do {
          buf \<leftarrow> data_buffer api (arg_size args);
          (data, off) \<leftarrow> copy_in api (arg_data args) buf 0 (arg_size args);
          (r, k1) \<leftarrow> rd_write k (arg_fd args) (arg_pid args)
                      (drop (off - nat (arg_size args)) data) (arg_size args);
          Some (r, [], k1)
        }
      | RD_CREATE \<Rightarrow>
          if free_inodes (fs k) = 0 \<or> free_blocks (fs k) = 0 then Some (-1, [], k)
          else do {
            pathname \<leftarrow> c_string path;
            (r, s) \<leftarrow> rd_create (alloc api) (fs k) pathname ''reg'' (arg_mode args);
            Some (r, [], k\<lparr>fs := s\<rparr>)
          }
      | RD_LSEEK \<Rightarrow> do {
          (r, k1) \<leftarrow> rd_lseek k (arg_fd args) (arg_size args) (arg_pid args);
          Some (r, [], k1)
        }
      | RD_MKDIR \<Rightarrow> do {
          pathname \<leftarrow> c_string path;
          (r, s) \<leftarrow> rd_mkdir (alloc api) (fs k) pathname;
          Some (r, [], k\<lparr>fs := s\<rparr>)
        }
      | RD_UNLINK \<Rightarrow> do {
          pathname \<leftarrow> c_string path;
          (r, s) \<leftarrow> rd_unlink (alloc api) (fs k) pathname;
          Some (r, [], k\<lparr>fs := s\<rparr>)
        }
      | RD_CHMOD \<Rightarrow> do {
          pathname \<leftarrow> c_string path;
          (r, s) \<leftarrow> rd_chmod (alloc api) (fs k) pathname (arg_mode args);
          Some (r, [], k\<lparr>fs := s\<rparr>)
        }
      | RD_READDIR \<Rightarrow> Some (-22, [], k)
      | Unknown nr \<Rightarrow> Some (-22, [], k))
   }"

section \<open>The user side\<close>

text \<open>Each wrapper zeroes an argument structure, fills in what the call needs and issues one
  \<^verbatim>\<open>ioctl\<close>; \<open>me\<close> is \<^verbatim>\<open>getpid()\<close>.\<close>

definition u_init where "u_init api k = discos_ioctl api k RD_INIT zero_args"

definition u_creat where
  "u_creat api k pathname mode =
     discos_ioctl api k RD_CREATE (zero_args\<lparr>arg_pathname := Some pathname, arg_mode := mode\<rparr>)"

definition u_unlink where
  "u_unlink api k pathname = discos_ioctl api k RD_UNLINK (zero_args\<lparr>arg_pathname := Some pathname\<rparr>)"

definition u_mkdir where
  "u_mkdir api k pathname = discos_ioctl api k RD_MKDIR (zero_args\<lparr>arg_pathname := Some pathname\<rparr>)"

definition u_open where
  "u_open api me k pathname mode = discos_ioctl api k RD_OPEN
     (zero_args\<lparr>arg_pathname := Some pathname, arg_mode := mode, arg_pid := me\<rparr>)"

definition u_write where
  "u_write api me k fd data number_of_data = discos_ioctl api k RD_WRITE
     (zero_args\<lparr>arg_pid := me, arg_fd := fd, arg_size := number_of_data, arg_data := data\<rparr>)"

definition u_chmod where
  "u_chmod api me k pathname mode = discos_ioctl api k RD_CHMOD
     (zero_args\<lparr>arg_mode := mode, arg_pathname := Some pathname, arg_pid := me\<rparr>)"

definition u_lseek where
  "u_lseek api me k fd offset = discos_ioctl api k RD_LSEEK
     (zero_args\<lparr>arg_fd := fd, arg_size := offset, arg_pid := me\<rparr>)"

text \<open>The data pointer of a read is the destination; the kernel side returns what it copies
  there.\<close>

definition u_read where
  "u_read api me k fd number_of_data = discos_ioctl api k RD_READ
     (zero_args\<lparr>arg_fd := fd, arg_size := number_of_data, arg_pid := me\<rparr>)"

definition u_close where
  "u_close api me k fd = discos_ioctl api k RD_CLOSE (zero_args\<lparr>arg_fd := fd, arg_pid := me\<rparr>)"

section \<open>Copying in\<close>

lemma copy_in_spec:
  assumes "api_ok api" "0 \<le> left" "off + nat left \<le> length mem" "off + nat left \<le> length data"
  shows "\<exists>data1. copy_in api mem data off left = Some (data1, off + nat left)
    \<and> length data1 = length data \<and> take off data1 = take off data
    \<and> take (nat left) (drop off data1) = take (nat left) (drop off mem)"
  using assms(2-4)
proof (induction "nat left" arbitrary: left off data rule: less_induct)
  case less
  define n where "n = (if left > 4096 then 4096 else nat left)"
  define chunk where "chunk = take n (drop off mem)"
  define data1 where "data1 = take off data @ chunk @ drop (off + n) data"
  have n: "n \<le> nat left" using less.prems(1) by (auto simp: n_def)
  have copy: "copy_from_user api (drop off mem) n = chunk"
    using assms(1) less.prems(2) n by (simp add: api_ok_def chunk_def)
  have len: "length chunk = n" "off + n \<le> length data" using less.prems n by (auto simp: chunk_def)
  then have data1: "length data1 = length data" "take off data1 = take off data"
    "take n (drop off data1) = chunk" by (simp_all add: data1_def)
  have step: "copy_in api mem data off left =
      (if left > 4096 then copy_in api mem data1 (off + 4096) (left - 4096) else Some (data1, off + n))"
    using less.prems(1) len(2) copy
    by (subst copy_in.simps) (simp add: Let_def n_def [symmetric] data1_def not_less)
  show ?case
  proof (cases "left > 4096")
    case False
    then have "n = nat left" by (simp add: n_def)
    then show ?thesis using step False data1 by (simp add: chunk_def)
  next
    case True
    then have n4: "n = 4096" and split: "nat left = 4096 + nat (left - 4096)" by (simp_all add: n_def)
    obtain data2 where IH: "copy_in api mem data1 (off + 4096) (left - 4096) = Some (data2, off + nat left)"
      "length data2 = length data1" "take (off + 4096) data2 = take (off + 4096) data1"
      "take (nat (left - 4096)) (drop (off + 4096) data2) = take (nat (left - 4096)) (drop (off + 4096) mem)"
      using less.hyps [of "left - 4096" "off + 4096" data1] True less.prems data1(1) split by auto
    have "take off data2 = take off data1" using arg_cong [OF IH(3), of "take off"] by simp
    moreover have "take 4096 (drop off data2) = take 4096 (drop off data1)"
      using arg_cong [OF IH(3), of "drop off"] by (simp add: drop_take)
    then have "take (nat left) (drop off data2) = take (nat left) (drop off mem)"
      using IH(4) data1(3) n4 by (simp add: split take_add chunk_def add.commute)
    ultimately show ?thesis using step True IH(1,2) data1(1,2) by simp
  qed
qed

lemma path_arg_short:
  assumes "api_ok api" "NUL \<in> set m" "length (cstring m) < 14" "alloc api Path_Arg (strnlen_user api m 14) \<noteq> None"
  obtains path where "path_arg api m = Some path" "c_string path = Some (cstring m)"
proof -
  obtain xs ys where m: "m = xs @ NUL # ys" "NUL \<notin> set xs" using assms(2) by (meson split_list_first)
  have xs: "cstring m = xs" using m by (auto simp: is_cstr_def)
  have n: "strnlen_user api m 14 = Suc (length xs)" using assms(1-3) xs by (simp add: api_ok_def)
  then obtain buf where buf: "alloc api Path_Arg (Suc (length xs)) = Some buf" "Suc (length xs) \<le> length buf"
    using assms(1,4) by (auto simp: api_ok_def)
  have "copy_from_user api m (Suc (length xs)) = xs @ [NUL]" using assms(1) m(1) by (simp add: api_ok_def)
  then have "path_arg api m = Some (xs @ NUL # drop (Suc (length xs)) buf)" using n buf by (simp add: path_arg_def Let_def)
  then show thesis using that xs m(2) c_string_terminated [of xs] by (simp add: is_cstr_def)
qed

text \<open>A count that ends before the terminator, and an object without a NUL behind the copy.\<close>

lemma path_arg_cut:
  assumes "api_ok api" "strnlen_user api m 14 \<le> length (cstring m)"
    "alloc api Path_Arg (strnlen_user api m 14) = Some buf" "NUL \<notin> set (drop (strnlen_user api m 14) buf)"
  obtains path where "path_arg api m = Some path" "c_string path = None"
proof -
  let ?n = "strnlen_user api m 14"
  have c: "\<forall>c \<in> set (cstring m). c \<noteq> NUL" by (auto simp: cstring_def dest: set_takeWhileD)
  have "length (cstring m) \<le> length m" by (simp add: cstring_def length_takeWhile_le)
  then have "copy_from_user api m ?n = take ?n m" using assms(1,2) by (simp add: api_ok_def)
  also have "take ?n m = take ?n (cstring m)"
    using assms(2) unfolding cstring_def by (metis length_takeWhile_le take_all_iff take_take takeWhile_eq_take min.absorb1)
  finally have "NUL \<notin> set (copy_from_user api m ?n)" using c by (auto dest: in_set_takeD)
  moreover have "path_arg api m = Some (copy_from_user api m ?n @ drop ?n buf)"
    using assms(1,3) by (simp add: path_arg_def Let_def api_ok_def)
  ultimately show thesis using that assms(4) by (simp add: c_string_def)
qed

section \<open>Properties\<close>

definition sample_api :: kernel_api where
  "sample_api = \<lparr>alloc = zero_vm, disk_addr = 0xE0000000,
     strnlen_user = (\<lambda>mem n. if length (cstring mem) < n then Suc (length (cstring mem)) else Suc n),
     copy_from_user = (\<lambda>mem n. take n mem @ replicate (n - length mem) NUL)\<rparr>"

lemma sample_api_fields:
  "alloc sample_api = zero_vm"
  "strnlen_user sample_api mem n = (if length (cstring mem) < n then Suc (length (cstring mem)) else Suc n)"
  by (simp_all add: sample_api_def)

lemma sample_api_ok [simp]: "api_ok sample_api"
  by (auto simp: api_ok_def sample_api_def zero_vm_def)

lemma user_write_agrees:
  assumes "api_ok api" "0 < n" "nat n \<le> length data" "alloc api Args 24 \<noteq> None" "alloc api Data_Arg (nat n) \<noteq> None"
  shows "\<exists>buf. take (nat n) buf = take (nat n) data \<and> nat n \<le> length buf
    \<and> u_write api me k fd data n = map_option (\<lambda>(r, k1). (r, [], k1)) (rd_write k fd me buf n)"
proof -
  obtain obj where obj: "data_buffer api n = Some obj" "nat n \<le> length obj"
    using assms(1,2,5) by (auto simp: data_buffer_def api_ok_def)
  obtain buf where c: "copy_in api data obj 0 n = Some (buf, nat n)"
    "length buf = length obj" "take (nat n) buf = take (nat n) data"
    using copy_in_spec [OF assms(1), of n 0 data obj] assms(2,3) obj(2) by auto
  have "u_write api me k fd data n = map_option (\<lambda>(r, k1). (r, [], k1)) (rd_write k fd me buf n)"
    using c(1) obj(1) assms(4) by (auto simp: u_write_def discos_ioctl_def zero_args_def map_option_case
        split: option.splits)
  then show ?thesis using c obj(2) by auto
qed

text \<open>A write reaches the file system whole.  However many chunks of 4096 bytes the
  \<^verbatim>\<open>ioctl\<close> copies, and although it moves its buffer pointer while copying, what it hands to
  \<^verbatim>\<open>rd_write\<close> starts at the first byte and agrees with the caller's buffer in every byte of
  the request, when its two allocations succeed.\<close>

theorem user_write_whole:
  assumes "api_ok api" "0 < n" "nat n \<le> length data" "alloc api Args 24 \<noteq> None" "alloc api Data_Arg (nat n) \<noteq> None"
  shows "\<exists>buf. take (nat n) buf = take (nat n) data \<and> nat n \<le> length buf
    \<and> u_write api me k fd data n = map_option (\<lambda>(r, k1). (r, [], k1)) (rd_write k fd me buf n)"
  by (rule user_write_agrees [OF assms])

theorem user_write_whole_witness:
  "\<exists>buf. take 2 buf = ''hi'' \<and> u_write sample_api 7 sample_opened 0 ''hi'' 2
     = map_option (\<lambda>(r, k1). (r, [], k1)) (rd_write sample_opened 0 7 buf 2)"
  using user_write_whole [of sample_api 2 "''hi''" 7 sample_opened 0]
  by (auto simp: sample_api_fields zero_vm_def)

lemma path_calls:
  assumes "api_ok api" "NUL \<in> set m" "length (cstring m) < 14" "alloc api Args 24 \<noteq> None"
    "alloc api Path_Arg (strnlen_user api m 14) \<noteq> None"
  shows "u_creat api k m mode = map_option (\<lambda>(r, s). (r, [], k\<lparr>fs := s\<rparr>))
        (rd_create (alloc api) (fs k) (cstring m) ''reg'' mode)"
    "u_mkdir api k m = map_option (\<lambda>(r, s). (r, [], k\<lparr>fs := s\<rparr>)) (rd_mkdir (alloc api) (fs k) (cstring m))"
    "u_unlink api k m = map_option (\<lambda>(r, s). (r, [], k\<lparr>fs := s\<rparr>)) (rd_unlink (alloc api) (fs k) (cstring m))"
    "u_chmod api me k m mode = map_option (\<lambda>(r, s). (r, [], k\<lparr>fs := s\<rparr>)) (rd_chmod (alloc api) (fs k) (cstring m) mode)"
proof -
  obtain path where path: "path_arg api m = Some path" "c_string path = Some (cstring m)"
    by (rule path_arg_short [OF assms(1-3,5)])
  have free: "free_inodes (fs k) = 0 \<or> free_blocks (fs k) = 0 \<Longrightarrow> rd_create vm (fs k) p ty mode = Some (-1, fs k)"
    for vm p ty by (auto simp: rd_create_def)
  note calls = discos_ioctl_def zero_args_def map_option_case
  show "u_creat api k m mode = map_option (\<lambda>(r, s). (r, [], k\<lparr>fs := s\<rparr>))
      (rd_create (alloc api) (fs k) (cstring m) ''reg'' mode)"
    using assms(4) path free by (auto simp: u_creat_def calls split: option.splits)
  show "u_mkdir api k m = map_option (\<lambda>(r, s). (r, [], k\<lparr>fs := s\<rparr>)) (rd_mkdir (alloc api) (fs k) (cstring m))"
    using assms(4) path by (auto simp: u_mkdir_def calls split: option.splits)
  show "u_unlink api k m = map_option (\<lambda>(r, s). (r, [], k\<lparr>fs := s\<rparr>)) (rd_unlink (alloc api) (fs k) (cstring m))"
    using assms(4) path by (auto simp: u_unlink_def calls split: option.splits)
  show "u_chmod api me k m mode = map_option (\<lambda>(r, s). (r, [], k\<lparr>fs := s\<rparr>)) (rd_chmod (alloc api) (fs k) (cstring m) mode)"
    using assms(4) path by (auto simp: u_chmod_def calls split: option.splits)
qed

lemma path_calls_cut:
  assumes "api_ok api" "strnlen_user api m 14 \<le> length (cstring m)" "alloc api Args 24 \<noteq> None"
    "alloc api Path_Arg (strnlen_user api m 14) = Some buf" "NUL \<notin> set (drop (strnlen_user api m 14) buf)"
  shows "u_creat api k m mode = (if free_inodes (fs k) = 0 \<or> free_blocks (fs k) = 0 then Some (-1, [], k) else None)"
    "u_mkdir api k m = None" "u_unlink api k m = None" "u_chmod api me k m mode = None"
proof -
  obtain path where path: "path_arg api m = Some path" "c_string path = None"
    by (rule path_arg_cut [OF assms(1,2,4,5)])
  then show "u_creat api k m mode = (if free_inodes (fs k) = 0 \<or> free_blocks (fs k) = 0 then Some (-1, [], k) else None)"
    "u_mkdir api k m = None" "u_unlink api k m = None" "u_chmod api me k m mode = None"
    using assms(3) by (auto simp: u_creat_def u_mkdir_def u_unlink_def u_chmod_def discos_ioctl_def zero_args_def)
qed

text \<open>C40: The \<^verbatim>\<open>ioctl\<close> copies what \<^verbatim>\<open>strnlen_user(pathname, 14)\<close> counts.  A path of fewer than
  14 bytes arrives unchanged in each of the four calls that take the copy.  When the count ends
  before the terminator and no NUL follows the copy in its object, the copy is not a string, and
  \<^verbatim>\<open>rd_mkdir\<close>, \<^verbatim>\<open>rd_unlink\<close> and \<^verbatim>\<open>rd_chmod\<close> read beyond it, as does \<^verbatim>\<open>rd_create\<close> unless it
  returns -1 before, for want of a free index node or block.  The allocations of the arguments
  and of the copy succeed.\<close>

theorem path_length_limit:
  assumes "api_ok api" "NUL \<in> set m" "alloc api Args 24 \<noteq> None"
    "alloc api Path_Arg (strnlen_user api m 14) = Some buf"
  shows "(length (cstring m) < 14 \<longrightarrow>
      u_creat api k m mode = map_option (\<lambda>(r, s). (r, [], k\<lparr>fs := s\<rparr>))
        (rd_create (alloc api) (fs k) (cstring m) ''reg'' mode)
      \<and> u_mkdir api k m = map_option (\<lambda>(r, s). (r, [], k\<lparr>fs := s\<rparr>)) (rd_mkdir (alloc api) (fs k) (cstring m))
      \<and> u_unlink api k m = map_option (\<lambda>(r, s). (r, [], k\<lparr>fs := s\<rparr>)) (rd_unlink (alloc api) (fs k) (cstring m))
      \<and> u_chmod api me k m mode = map_option (\<lambda>(r, s). (r, [], k\<lparr>fs := s\<rparr>))
        (rd_chmod (alloc api) (fs k) (cstring m) mode))
    \<and> (strnlen_user api m 14 \<le> length (cstring m) \<and> NUL \<notin> set (drop (strnlen_user api m 14) buf) \<longrightarrow>
      u_creat api k m mode = (if free_inodes (fs k) = 0 \<or> free_blocks (fs k) = 0 then Some (-1, [], k) else None)
      \<and> u_mkdir api k m = None \<and> u_unlink api k m = None \<and> u_chmod api me k m mode = None)"
  using path_calls [OF assms(1,2) _ assms(3)] path_calls_cut [OF assms(1) _ assms(3,4)]
    assms(4) by simp

text \<open>An allocator that hands out exactly what it is asked for.\<close>

definition exact_vm :: allocator where
  "exact_vm u n = Some (replicate n NUL)"

text \<open>On it no path can be copied: \<^verbatim>\<open>rd_open\<close>, \<^verbatim>\<open>rd_chmod\<close> and \<^verbatim>\<open>rd_unlink\<close> store the
  terminator behind the object.\<close>

lemma exact_copy: "copy_path exact_vm u path = None"
proof -
  have "length b = length path" if "fresh_buffer exact_vm u (length path) = Some b" for b
    using that length_memset_strlen [of "replicate (length path) NUL" b] by (simp add: fresh_buffer_def exact_vm_def)
  then show ?thesis by (cases "fresh_buffer exact_vm u (length path)") (simp_all add: copy_path_def)
qed

lemma exact_calls:
  "rd_open exact_vm k path flags p = None" "rd_chmod exact_vm s path mode = None" "rd_unlink exact_vm s path = None"
  by (simp_all add: rd_open_def rd_chmod_def rd_unlink_def exact_copy)

theorem path_length_limit_witness:
  "u_creat (sample_api\<lparr>alloc := exact_vm\<rparr>) sample_kernel (''/a/long/path/to/f'' @ [NUL]) 420 = None"
proof -
  let ?api = "sample_api\<lparr>alloc := exact_vm\<rparr>"
  have "api_ok ?api" using sample_api_ok by (simp add: api_ok_def exact_vm_def)
  moreover have "free_inodes (fs sample_kernel) \<noteq> 0" "free_blocks (fs sample_kernel) \<noteq> 0"
    by (simp_all add: sample_kernel_def sample_fs_def)
  ultimately show ?thesis
    using path_length_limit [of ?api "''/a/long/path/to/f'' @ [NUL]" "replicate 15 NUL" sample_kernel 420]
    by (simp add: sample_api_fields cstring_def exact_vm_def)
qed

end
