(* ===== verification/KernelInv.thy ===== *)
theory KernelInv
  imports UnlinkProps ReadInv Ioctl
begin

text \<open>
  The invariant of the whole module, and what one call of \<^verbatim>\<open>discos_ioctl\<close> needs to keep it:
  the state the module reaches from \<^verbatim>\<open>RD_INIT\<close> by any sequence of such calls.
\<close>

section \<open>The remaining system calls\<close>

lemma set_access_ok:
  assumes ok: "fs_ok s"
  shows "fs_ok (set_inode s n ((inodes s n)\<lparr>access := mode\<rparr>))" (is "fs_ok ?s")
proof -
  note S = fs_okD [OF ok]
  have ptr: "ptr_at ?s l = ptr_at s l" for l by (rule ptr_at_set_inode_same) simp_all
  have dir: "is_dir ?s k = is_dir s k" for k by (simp add: is_dir_def)
  have "entries ?s k = entries s k" if "k < MAX_NUM_FILE" for k
    by (rule entries_cong [OF _ that ptr]) simp
  then have "same_dir s ?s k" if "k < MAX_NUM_FILE" for k
    using that by (simp add: same_dir_def same_entry_def)
  then have "slot_wf ?s k a" if "is_dir ?s k" "a \<in> set (entries ?s k)" for k a
    using same_dir_slots [of s ?s k] S(2) that dir by (auto simp: dirs_ok_def is_dir_def)
  then have "dirs_ok ?s" by (simp add: dirs_ok_def)
  moreover have "wf_blocks ?s" using ptr by (intro wf_blocks_frame [OF S(1)]) auto
  moreover have "counter_ok ?s" using S(3) by (simp add: counter_ok_def free_set_def)
  ultimately show ?thesis using S(4) dir by (simp add: fs_ok_def)
qed

text \<open>A step of a file that is not a directory.\<close>

lemma file_step_ok:
  assumes ok: "fs_ok s" and step: "node_step n s s'" and wf: "wf_blocks s'"
    and n: "itype (inodes s n) \<noteq> ''dir''"
  shows "fs_ok s'"
proof -
  note S = fs_okD [OF ok] and N = node_stepD [OF step]
  have "itype (inodes s' k) = itype (inodes s k)" for k using N(4,5) by (cases "k = n") auto
  then have dir: "is_dir s' k = is_dir s k" for k by (simp add: is_dir_def)
  have "slot_wf s' k a" if k: "is_dir s' k" "a \<in> set (entries s' k)" for k a
  proof -
    have "is_dir s k" using k(1) dir by simp
    moreover from this have "k \<noteq> n" "k < MAX_NUM_FILE" using n by (auto simp: is_dir_def)
    then have "same_dir s s' k" using node_step_dir [OF step S(1)] by blast
    ultimately show ?thesis using same_dir_slots S(2) k(2) unfolding dirs_ok_def by blast
  qed
  then have "dirs_ok s'" by (simp add: dirs_ok_def)
  then show ?thesis using wf N(9) [OF S(3)] S(4) dir by (simp add: fs_ok_def)
qed

lemma served_copies:
  assumes "serves vm path"
  shows "copy_path vm Path_Copy path = Some path" "my_find_inode_number vm s path = search_path s path"
  using assms by (simp_all add: serves_def copy_path_served my_find_granted)

lemma lookup_result:
  assumes "fs_ok s" "serves vm (path_of ts)" "through_dirs s 0 ts" "\<forall>t \<in> set ts. is_name t"
  obtains (none) "my_find_inode_number vm s (path_of ts) = Some (-1)"
  | (found) n where "my_find_inode_number vm s (path_of ts) = Some (int n)" "n < MAX_NUM_FILE"
proof (cases "lookup_path s 0 ts")
  case None
  then show ?thesis
    using none lookup_spec [OF fs_okD(1) [OF assms(1)] fs_okD(2) [OF assms(1)] assms(3,4)]
      served_copies(2) [OF assms(2)] by simp
next
  case (Some n)
  then show ?thesis
    using found lookup_spec [OF fs_okD(1) [OF assms(1)] fs_okD(2) [OF assms(1)] assms(3,4)]
      lookup_path_range [OF fs_okD(2) [OF assms(1)] assms(3,4)] served_copies(2) [OF assms(2)] by simp
qed

lemma rd_chmod_step:
  assumes "fs_ok s" "serves vm (path_of ts)" "through_dirs s 0 ts" "\<forall>t \<in> set ts. is_name t"
  shows "\<exists>r s'. rd_chmod vm s (path_of ts) mode = Some (r, s') \<and> fs_ok s'"
proof (cases rule: lookup_result [OF assms])
  case 1
  then show ?thesis using assms(1) served_copies(1) [OF assms(2)] by (simp add: rd_chmod_def)
next
  case (2 n)
  then show ?thesis using assms(1) set_access_ok [OF assms(1)] served_copies(1) [OF assms(2)]
    by (simp add: rd_chmod_def get_inode_def)
qed

lemma rd_mkdir_step:
  assumes "fs_ok s" "serves vm (path_of (ds @ [f]))" "is_name f" "resolve (dir_map s) 0 ds = Some d" "is_dir s d"
  shows "\<exists>r s'. rd_mkdir vm s (path_of (ds @ [f])) = Some (r, s') \<and> fs_ok s'"
proof -
  have names: "\<forall>u \<in> set (ds @ [f]). is_name u" using resolve_dirs [OF assms(4)] assms(3) by auto
  have "path_of (ds @ [f]) \<noteq> ''/''" using path_of_Cons_neq [OF _ names] by simp
  moreover have "grants vm Pwd (length (path_of (ds @ [f])))" "grants vm Filename (length (path_of (ds @ [f])))"
    using assms(2) by (simp_all add: serves_def)
  then obtain b c where "fresh_buffer vm Pwd (length (path_of (ds @ [f]))) = Some b"
    "fresh_buffer vm Filename (length (path_of (ds @ [f]))) = Some c" by (auto elim!: fresh_granted)
  moreover obtain r s' where "rd_create vm s (path_of (ds @ [f])) ''dir'' 1 = Some (r, s')" "fs_ok s'"
    using rd_create_keeps [OF assms, of "''dir''" 1] by blast
  ultimately show ?thesis by (simp add: rd_mkdir_def)
qed

lemma rd_open_step:
  assumes "fds_ok k" "fs_ok (fs k)" "serves vm (path_of ts)" "through_dirs (fs k) 0 ts" "\<forall>t \<in> set ts. is_name t"
  shows "\<exists>r k1. rd_open vm k (path_of ts) flags p = Some (r, k1) \<and> fds_ok k1 \<and> fs k1 = fs k"
proof (cases "path_of ts = ''/''")
  case True
  then show ?thesis using assms(1) served_copies(1) [OF assms(3)] by (simp add: rd_open_def)
next
  case False
  show ?thesis
  proof (cases rule: lookup_result [OF assms(2-5)])
    case 1
    then show ?thesis using assms(1) served_copies(1) [OF assms(3)] by (simp add: rd_open_def)
  next
    case (2 n)
    have "fds_ok (upd_fobj k 0 i \<lparr>inode_ptr = Some n, status = flags, cursor = 0, pos = of_nat i, usable = 1\<rparr>)" for i
      using 2(2) by (intro fds_ok_upd assms(1)) (auto simp: slot_ok_def)
    then show ?thesis
      using rd_open_eq [OF assms(1) False 2(1) 2(2) served_copies(1) [OF assms(3)], of flags p] assms(1) by (auto simp: Let_def)
  qed
qed

section \<open>Calls that respect the interface\<close>

definition int_fd :: "int \<Rightarrow> bool" where
  "int_fd fd \<longleftrightarrow> - (2 ^ 31) \<le> fd \<and> fd < 2 ^ 31"

text \<open>The path argument is an absolute path whose components before the last are directories;
  for the calls that change a directory it has a last component and is short enough for the
  copy of 14 bytes.\<close>

definition names_file :: "kernel \<Rightarrow> ioctl_args \<Rightarrow> bool" where
  "names_file k args \<longleftrightarrow> (\<exists>m ts. arg_pathname args = Some m \<and> NUL \<in> set m \<and> cstring m = path_of ts
     \<and> (\<forall>t \<in> set ts. is_name t) \<and> through_dirs (fs k) 0 ts)"

definition names_entry :: "kernel \<Rightarrow> ioctl_args \<Rightarrow> bool" where
  "names_entry k args \<longleftrightarrow> (\<exists>m ds f d. arg_pathname args = Some m \<and> NUL \<in> set m
     \<and> cstring m = path_of (ds @ [f]) \<and> length (cstring m) < 14 \<and> is_name f
     \<and> resolve (dir_map (fs k)) 0 ds = Some d \<and> is_dir (fs k) d)"

text \<open>The memory that the call gets: no allocation fails, and the copies of its path have the
  room and the NULs that the code relies on (\<open>serves\<close>).  This is not what the allocators
  promise but what a call needs of the objects it happens to get.\<close>

definition memory_ok :: "kernel_api \<Rightarrow> request \<Rightarrow> ioctl_args \<Rightarrow> bool" where
  "memory_ok api cmd args \<longleftrightarrow> alloc api Args 24 \<noteq> None
     \<and> (\<forall>m. arg_pathname args = Some m \<longrightarrow> alloc api Path_Arg (strnlen_user api m 14) \<noteq> None)
     \<and> (cmd = RD_INIT \<longrightarrow> serves (alloc api) ''/'')
     \<and> (cmd = RD_WRITE \<longrightarrow> alloc api Data_Arg (nat (arg_size args)) \<noteq> None)
     \<and> (cmd \<in> {RD_OPEN, RD_CREATE, RD_MKDIR, RD_UNLINK, RD_CHMOD} \<longrightarrow>
          (\<forall>m. arg_pathname args = Some m \<longrightarrow> serves (alloc api) (cstring m)))"

definition call_ok :: "kernel_api \<Rightarrow> kernel \<Rightarrow> request \<Rightarrow> ioctl_args \<Rightarrow> bool" where
  "call_ok api k cmd args \<longleftrightarrow> memory_ok api cmd args \<and>
     (case cmd of
        RD_OPEN \<Rightarrow> names_file k args
      | RD_CLOSE \<Rightarrow> int_fd (arg_fd args)
      | RD_LSEEK \<Rightarrow> int_fd (arg_fd args)
      | RD_READ \<Rightarrow> int_fd (arg_fd args) \<and> 0 < arg_size args \<and> arg_size args \<le> int READ_BUFFER_SIZE
      | RD_WRITE \<Rightarrow> int_fd (arg_fd args) \<and> 0 < arg_size args \<and> arg_size args \<le> int (length (arg_data args))
      | RD_CREATE \<Rightarrow> names_entry k args
      | RD_MKDIR \<Rightarrow> names_entry k args
      | RD_UNLINK \<Rightarrow> names_entry k args
      | RD_CHMOD \<Rightarrow> names_file k args \<and> (\<forall>m. arg_pathname args = Some m \<longrightarrow> length (cstring m) < 14)
      | _ \<Rightarrow> True)"

definition kernel_ok :: "kernel \<Rightarrow> bool" where
  "kernel_ok k \<longleftrightarrow> fds_ok k \<and> fs_ok (fs k)"

definition env_ok :: "kernel_api \<Rightarrow> bool" where
  "env_ok api \<longleftrightarrow> api_ok api \<and> region_ok (zero_filesys (disk_addr api))"

lemma env_okD:
  assumes "env_ok api"
  shows "api_ok api" "region_ok (zero_filesys (disk_addr api))"
  using assms by (auto simp: env_ok_def)

lemma kernel_okD: "kernel_ok k \<Longrightarrow> fds_ok k" "kernel_ok k \<Longrightarrow> fs_ok (fs k)" "kernel_ok k \<Longrightarrow> wf_blocks (fs k)"
  using fs_okD(1) by (auto simp: kernel_ok_def)

section \<open>Each call\<close>

lemma init_step:
  assumes "env_ok api" "serves (alloc api) ''/''"
  shows "\<exists>k1. init_file_sys (alloc api) (disk_addr api) rb = Some (0, k1) \<and> kernel_ok k1
    \<and> fs k1 = empty_fs (disk_addr api) \<and> read_buffer k1 = rb"
proof -
  have "disk_addr api \<noteq> 0" using env_okD(2) [OF assms(1)] by (auto simp: region_ok_def zero_filesys_def)
  then show ?thesis
    using init_filesys_eq assms(2) empty_ok [OF env_okD(2) [OF assms(1)]]
    by (simp add: init_file_sys_def kernel_ok_def fds_ok_def slot_ok_def fobj_no_inode)
qed

lemma close_step:
  assumes "fds_ok k" "int_fd fd"
  shows "\<exists>r k1. rd_close k fd p = Some (r, k1) \<and> fds_ok k1 \<and> fs k1 = fs k"
proof -
  have "fds_ok (upd_fobj k 0 i zero_file_object)" for i
    by (intro fds_ok_upd assms(1)) (simp add: slot_ok_def zero_file_object_def)
  then show ?thesis using rd_close_eq [OF assms(1), of fd p] assms by (simp add: int_fd_def)
qed

lemma lseek_step:
  assumes "fds_ok k" "int_fd fd"
  shows "\<exists>r k1. rd_lseek k fd offset p = Some (r, k1) \<and> fds_ok k1 \<and> fs k1 = fs k"
proof (cases "valid_fd k fd")
  case True
  have "fds_ok (upd_fobj k 0 (nat fd) ((fobj k 0 (nat fd))\<lparr>cursor := c\<rparr>))" for c
    using fds_ok_cursor [OF assms(1) True, of "fs k"] by simp
  then show ?thesis using rd_lseek_eq [OF assms(1), of fd offset p] assms by (auto simp: int_fd_def Let_def)
qed (use rd_lseek_eq [OF assms(1), of fd offset p] assms in \<open>simp add: int_fd_def\<close>)

lemma names_file_step:
  assumes "names_file k args"
  obtains m ts where "arg_pathname args = Some m" "c_string m = Some (path_of ts)" "cstring m = path_of ts"
    "\<forall>t \<in> set ts. is_name t" "through_dirs (fs k) 0 ts" "NUL \<in> set m"
  using assms by (auto simp: names_file_def c_string_def)

lemma path_arg_some:
  assumes "api_ok api" "alloc api Path_Arg (strnlen_user api m 14) \<noteq> None"
  shows "\<exists>path. path_arg api m = Some path"
  using assms by (auto simp: path_arg_def api_ok_def Let_def)

text \<open>The stage of \<^verbatim>\<open>discos_ioctl\<close> before it dispatches.\<close>

lemma entry_stage:
  assumes "api_ok api" "memory_ok api cmd args"
  obtains x path where "alloc api Args 24 = Some x"
    "(case arg_pathname args of None \<Rightarrow> Some [] | Some m \<Rightarrow> path_arg api m) = Some path"
    "\<And>m. arg_pathname args = Some m \<Longrightarrow> NUL \<in> set m \<Longrightarrow> length (cstring m) < 14 \<Longrightarrow> c_string path = Some (cstring m)"
proof (cases "arg_pathname args")
  case None
  then show thesis using that assms(2) by (auto simp: memory_ok_def)
next
  case (Some m)
  obtain path where path: "path_arg api m = Some path"
    using path_arg_some [OF assms(1), of m] assms(2) Some by (auto simp: memory_ok_def)
  have "c_string path = Some (cstring m)" if "NUL \<in> set m" "length (cstring m) < 14"
    using path_arg_short [OF assms(1) that] path assms(2) Some by (auto simp: memory_ok_def)
  then show thesis using that path Some assms(2) by (auto simp: memory_ok_def)
qed

lemma names_entry_step:
  assumes "names_entry k args"
  obtains m ds f d where "arg_pathname args = Some m" "NUL \<in> set m" "length (cstring m) < 14"
    "cstring m = path_of (ds @ [f])" "is_name f" "resolve (dir_map (fs k)) 0 ds = Some d" "is_dir (fs k) d"
  using assms by (auto simp: names_entry_def)

text \<open>A call that changes the partition only.\<close>

lemma fs_call:
  assumes "kernel_ok k" "c_string buf = Some path" "\<exists>r s. f path = Some (r, s) \<and> fs_ok s"
  shows "\<exists>r out k1. Option.bind (c_string buf) (\<lambda>path. Option.bind (f path) (\<lambda>(r, s). Some (r, [], k\<lparr>fs := s\<rparr>)))
    = Some (r, out :: (nat \<times> string) list, k1) \<and> kernel_ok k1"
  using assms by (auto simp: kernel_ok_def)

lemma entry_call:
  assumes k: "kernel_ok k" and mem: "memory_ok api cmd args" "cmd \<in> {RD_CREATE, RD_MKDIR, RD_UNLINK}"
    and n: "names_entry k args"
    and path: "\<And>m. arg_pathname args = Some m \<Longrightarrow> NUL \<in> set m \<Longrightarrow> length (cstring m) < 14 \<Longrightarrow> c_string path = Some (cstring m)"
    and f: "\<And>ds u d. serves (alloc api) (path_of (ds @ [u])) \<Longrightarrow> is_name u \<Longrightarrow>
      resolve (dir_map (fs k)) 0 ds = Some d \<Longrightarrow> is_dir (fs k) d \<Longrightarrow>
      \<exists>r s. f (path_of (ds @ [u])) = Some (r, s) \<and> fs_ok s"
  shows "\<exists>r out k1. Option.bind (c_string path) (\<lambda>path. Option.bind (f path) (\<lambda>(r, s). Some (r, [], k\<lparr>fs := s\<rparr>)))
    = Some (r, out :: (nat \<times> string) list, k1) \<and> kernel_ok k1"
proof -
  obtain m ds u d where m: "arg_pathname args = Some m" "NUL \<in> set m" "length (cstring m) < 14"
    "cstring m = path_of (ds @ [u])" "is_name u" "resolve (dir_map (fs k)) 0 ds = Some d" "is_dir (fs k) d"
    by (rule names_entry_step [OF n])
  have "serves (alloc api) (path_of (ds @ [u]))" using mem m(1,4) by (auto simp: memory_ok_def)
  from fs_call [where f = f, OF k path [OF m(1-3)]] f [OF this m(5-7)] show ?thesis by (simp add: m(4))
qed

text \<open>A call that changes the descriptor tables only.\<close>

lemma fd_call:
  assumes "kernel_ok k" "\<exists>r k1. e = Some (r, k1) \<and> fds_ok k1 \<and> fs k1 = fs k"
  shows "\<exists>r out k1. Option.bind e (\<lambda>(r, k1). Some (r, [], k1)) = Some (r, out :: (nat \<times> string) list, k1) \<and> kernel_ok k1"
  using assms by (auto simp: kernel_ok_def)

lemma write_call:
  assumes k: "kernel_ok k" and e: "env_ok api" and fd: "int_fd fd"
    and n: "0 < n" "n \<le> int (length data)" "alloc api Data_Arg (nat n) \<noteq> None"
  shows "\<exists>r out k1. Option.bind (data_buffer api n) (\<lambda>obj. Option.bind (copy_in api data obj 0 n)
      (\<lambda>(buf, off). Option.bind (rd_write k fd p (drop (off - nat n) buf) n) (\<lambda>(r, k1). Some (r, [], k1))))
    = Some (r, out :: (nat \<times> string) list, k1) \<and> kernel_ok k1"
proof -
  note K = kernel_okD [OF k] and E = env_okD [OF e]
  obtain obj where obj: "data_buffer api n = Some obj" "nat n \<le> length obj"
    using n E(1) by (auto simp: data_buffer_def api_ok_def)
  have small: "nat n \<le> length data" using n by linarith
  obtain buf where c: "copy_in api data obj 0 n = Some (buf, nat n)" "length buf = length obj"
    using copy_in_spec [OF E(1), of n 0 data obj] n(1) small obj(2) by auto
  have fd': "- (2 ^ 31) \<le> fd" "fd < 2 ^ 31" "n \<le> int (length buf)" using fd c(2) obj(2) by (auto simp: int_fd_def)
  have "\<exists>r k1. rd_write k fd p buf n = Some (r, k1) \<and> kernel_ok k1"
  proof (cases rule: rd_write_step [OF K(1,3) fd'(1,2) n(1) fd'(3), of p])
    case 1
    then show ?thesis using k by blast
  next
    case (2 r s c)
    have "fs_ok s" by (rule file_step_ok [OF K(2) 2(6,5,7)])
    then show ?thesis using 2(1) fds_ok_cursor [OF K(1) 2(2)] by (simp add: kernel_ok_def)
  qed
  then show ?thesis using c(1) obj(1) by auto
qed

lemma read_call:
  assumes k: "kernel_ok k" and fd: "int_fd fd" and n: "0 < n" "n \<le> int READ_BUFFER_SIZE"
  shows "\<exists>r out k1. rd_read k fd n p = Some (r, out, k1) \<and> kernel_ok k1"
proof -
  note K = kernel_okD [OF k]
  have fd': "- (2 ^ 31) \<le> fd" "fd < 2 ^ 31" using fd by (auto simp: int_fd_def)
  show ?thesis
  proof (cases rule: rd_read_step [OF K(1,3) fd' n, of p])
    case 1
    then show ?thesis using k by blast
  next
    case (2 r rb c)
    have "fds_ok (upd_fobj (k\<lparr>read_buffer := rb\<rparr>) 0 (nat fd) ((fobj k 0 (nat fd))\<lparr>cursor := c\<rparr>))"
      using fds_ok_cursor [of "k\<lparr>read_buffer := rb\<rparr>" fd "fs k" c] K(1) 2(1) by (simp add: valid_fd_def)
    then show ?thesis using 2(4) K(2) by (simp add: kernel_ok_def)
  qed
qed

section \<open>Every call\<close>

lemma call_keeps:
  assumes k: "kernel_ok k" and e: "env_ok api" and c: "call_ok api k cmd args"
  shows "\<exists>r out k1. discos_ioctl api k cmd args = Some (r, out, k1) \<and> kernel_ok k1"
proof -
  note K = kernel_okD [OF k] and E = env_okD [OF e]
  have mem: "memory_ok api cmd args" using c by (simp add: call_ok_def)
  obtain x path where entry: "alloc api Args 24 = Some x"
    "(case arg_pathname args of None \<Rightarrow> Some [] | Some m \<Rightarrow> path_arg api m) = Some path"
    and path: "\<And>m. arg_pathname args = Some m \<Longrightarrow> NUL \<in> set m \<Longrightarrow> length (cstring m) < 14 \<Longrightarrow> c_string path = Some (cstring m)"
    by (rule entry_stage [OF E(1) mem], rule that)
  note start = discos_ioctl_def entry
  show ?thesis
  proof (cases cmd)
    case RD_INIT
    then show ?thesis using init_step [OF e, of "read_buffer k"] mem by (auto simp: start memory_ok_def)
  next
    case RD_CREATE
    then have n: "names_entry k args" using c by (simp add: call_ok_def)
    have "\<exists>r s. rd_create (alloc api) (fs k) (path_of (ds @ [u])) ''reg'' (arg_mode args) = Some (r, s) \<and> fs_ok s"
      if "serves (alloc api) (path_of (ds @ [u]))" "is_name u" "resolve (dir_map (fs k)) 0 ds = Some d" "is_dir (fs k) d" for u ds d
      using rd_create_keeps [OF K(2) that] by blast
    from entry_call [where f = "\<lambda>p. rd_create (alloc api) (fs k) p ''reg'' (arg_mode args)", OF k mem _ n path this]
    show ?thesis using k by (simp add: start RD_CREATE)
  next
    case RD_MKDIR
    then have n: "names_entry k args" using c by (simp add: call_ok_def)
    from entry_call [where f = "rd_mkdir (alloc api) (fs k)", OF k mem _ n path rd_mkdir_step [OF K(2)]]
    show ?thesis by (simp add: start RD_MKDIR)
  next
    case RD_UNLINK
    then have n: "names_entry k args" using c by (simp add: call_ok_def)
    have "\<exists>r s. rd_unlink (alloc api) (fs k) (path_of (ds @ [u])) = Some (r, s) \<and> fs_ok s"
      if "serves (alloc api) (path_of (ds @ [u]))" "is_name u" "resolve (dir_map (fs k)) 0 ds = Some d" "is_dir (fs k) d" for u ds d
      using rd_unlink_keeps [OF K(2) that] by blast
    from entry_call [where f = "rd_unlink (alloc api) (fs k)", OF k mem _ n path this]
    show ?thesis by (simp add: start RD_UNLINK)
  next
    case RD_OPEN
    then have "names_file k args" using c by (simp add: call_ok_def)
    then obtain m ts where m: "arg_pathname args = Some m" "c_string m = Some (path_of ts)" "cstring m = path_of ts"
      "\<forall>t \<in> set ts. is_name t" "through_dirs (fs k) 0 ts" by (rule names_file_step)
    have "serves (alloc api) (path_of ts)" using mem RD_OPEN m(1,3) by (simp add: memory_ok_def)
    from fd_call [OF k rd_open_step [OF K(1,2) this m(5,4), of "arg_mode args" "arg_pid args"]]
    show ?thesis
      using m(2) entry by (simp add: discos_ioctl_def RD_OPEN user_string_def m(1))
  next
    case RD_CLOSE
    then show ?thesis using c fd_call [OF k close_step [OF K(1), of "arg_fd args" "arg_pid args"]]
      by (simp add: start call_ok_def)
  next
    case RD_LSEEK
    then show ?thesis using c fd_call [OF k lseek_step [OF K(1), of "arg_fd args" "arg_size args" "arg_pid args"]]
      by (simp add: start call_ok_def)
  next
    case RD_READ
    then show ?thesis using c read_call [OF k, of "arg_fd args" "arg_size args" "arg_pid args"]
      by (simp add: start call_ok_def)
  next
    case RD_WRITE
    then show ?thesis using c mem write_call [OF k e, of "arg_fd args" "arg_size args" "arg_data args" "arg_pid args"]
      by (simp add: start call_ok_def memory_ok_def)
  next
    case RD_CHMOD
    then have n: "names_file k args" "\<And>m. arg_pathname args = Some m \<Longrightarrow> length (cstring m) < 14"
      using c by (auto simp: call_ok_def)
    from n(1) obtain m ts where m: "arg_pathname args = Some m" "cstring m = path_of ts"
      "\<forall>t \<in> set ts. is_name t" "through_dirs (fs k) 0 ts" "NUL \<in> set m" by (rule names_file_step)
    have "serves (alloc api) (path_of ts)" using mem RD_CHMOD m(1,2) by (simp add: memory_ok_def)
    from fs_call [where f = "\<lambda>p. rd_chmod (alloc api) (fs k) p (arg_mode args)", OF k path [OF m(1,5) n(2) [OF m(1)]]]
      rd_chmod_step [OF K(2) this m(4,3), of "arg_mode args"]
    show ?thesis by (simp add: start RD_CHMOD m(2))
  qed (use k in \<open>simp_all add: start\<close>)
qed

section \<open>Reachable states\<close>

text \<open>The states from \<^verbatim>\<open>init_file_sys\<close> on, by calls of any process in any order.  Each call gets
  its own memory from the allocators, and each initialisation its own partition.\<close>

inductive reached :: "kernel \<Rightarrow> bool" where
  boot: "env_ok api \<Longrightarrow> serves (alloc api) ''/'' \<Longrightarrow>
    init_file_sys (alloc api) (disk_addr api) rb = Some (0, k) \<Longrightarrow> reached k"
| call: "reached k \<Longrightarrow> env_ok api \<Longrightarrow> call_ok api k cmd args \<Longrightarrow>
    discos_ioctl api k cmd args = Some (r, out, k1) \<Longrightarrow> reached k1"

lemma reached_kernel_ok: "reached k \<Longrightarrow> kernel_ok k"
proof (induction rule: reached.induct)
  case (boot api rb k)
  then show ?case using init_step [OF boot(1,2), of rb] by auto
next
  case (call k api cmd args r out k1)
  then show ?case using call_keeps [OF call.IH call(2), of cmd args] by auto
qed

lemma env_sample [simp]: "env_ok sample_api"
  by (simp add: env_ok_def) (simp add: sample_api_def region_ok_def zero_filesys_def)

lemma sample_boot: obtains k where "reached k" "fs k = empty_fs 0xE0000000"
proof -
  have serves: "serves (alloc sample_api) ''/''" by (simp add: sample_api_fields)
  obtain k where k: "init_file_sys (alloc sample_api) (disk_addr sample_api) (\<lambda>_. NUL) = Some (0, k)"
    "fs k = empty_fs (disk_addr sample_api)"
    using init_step [OF env_sample serves, of "\<lambda>_. NUL"] by blast
  show thesis by (rule that [OF reached.boot [OF env_sample serves k(1)]]) (simp add: k(2) sample_api_def)
qed

text \<open>C2: The module keeps its invariant.  The states considered are those it reaches from its
  initialisation by calls of any processes in any order that respect the interface
  (\<open>call_ok\<close>): 32-bit descriptors, positive sizes within the caller's buffer (at most 1048576
  bytes for a read), paths whose components before the last are existing directories, of fewer
  than 14 bytes where the \<^verbatim>\<open>ioctl\<close> copies them, and memory whose allocations succeed with the
  spare byte and the NULs that the copies of the path need (\<open>memory_ok\<close>).  In every such state
  the descriptor tables are well formed and so is the partition: every pointer of every index
  node is null or the address of a used data block, no two pointers are equal, so no two files
  share a byte, every entry of every directory is empty or names an index node, and the counter
  of free blocks promises no more than there are.\<close>

theorem reached_ok:
  assumes "reached k"
  shows "kernel_ok k"
  by (rule reached_kernel_ok [OF assms])

theorem reached_ok_witness:
  "\<exists>k. reached k \<and> fs k = empty_fs 0xE0000000 \<and> kernel_ok k"
proof -
  obtain k where "reached k" "fs k = empty_fs 0xE0000000" by (rule sample_boot)
  then show ?thesis using reached_ok [of k] by blast
qed

text \<open>C3: No call that respects the interface goes wrong.  In every state reached by such calls,
  every further one (\<open>call_ok\<close>: a 32-bit descriptor, a positive size within the caller's buffer, a
  path through existing directories and of fewer than 14 bytes where the \<^verbatim>\<open>ioctl\<close> copies it, and
  memory whose allocations succeed with the spare byte and the NULs that the copies of the
  path need) returns: no access leaves the partition, an index node, a descriptor table, the read
  buffer or a copy of the path, no loop runs on, and the state it leaves is reachable again.\<close>

theorem calls_return:
  assumes "reached k" "env_ok api" "call_ok api k cmd args"
  shows "\<exists>r out k1. discos_ioctl api k cmd args = Some (r, out, k1) \<and> reached k1"
proof -
  obtain r out k1 where "discos_ioctl api k cmd args = Some (r, out, k1)"
    using call_keeps [OF reached_kernel_ok [OF assms(1)] assms(2,3)] by blast
  then show ?thesis using reached.call [OF assms] by blast
qed

text \<open>The first directory of a new partition.\<close>

theorem calls_return_witness:
  "\<exists>k r out k1. fs k = empty_fs 0xE0000000 \<and> u_mkdir sample_api k (''/d'' @ [NUL]) = Some (r, out, k1)
    \<and> reached k1"
proof -
  obtain k where k: "reached k" "fs k = empty_fs 0xE0000000" by (rule sample_boot)
  define args where "args = zero_args\<lparr>arg_pathname := Some (''/d'' @ [NUL])\<rparr>"
  have "is_dir (fs k) 0" unfolding k(2) by (simp add: is_dir_def empty_fs_def)
  then have "names_entry k args" unfolding names_entry_def args_def
    by (intro exI [of _ "''/d'' @ [NUL]"] exI [of _ "[]"] exI [of _ "''d''"] exI [of _ 0])
      (simp add: path_of_def is_name_def cstring_def)
  moreover have "memory_ok sample_api RD_MKDIR args"
    by (simp add: memory_ok_def sample_api_fields) (simp add: zero_vm_def)
  ultimately have "call_ok sample_api k RD_MKDIR args" by (simp add: call_ok_def)
  from calls_return [OF k(1) env_sample this] show ?thesis using k(2) by (auto simp: u_mkdir_def args_def)
qed

end
