(* ===== verification/RoundTrip.thy ===== *)
theory RoundTrip
  imports ReadContent KernelInv
begin

text \<open>
  What is written is what is read back: from the system calls up to the wrappers of the
  user space library.
\<close>

section \<open>The system calls\<close>

text \<open>An open descriptor of an empty file that may be written, at its start.\<close>

definition fresh_fd :: "kernel \<Rightarrow> int \<Rightarrow> bool" where
  "fresh_fd k fd \<longleftrightarrow> valid_fd k fd \<and> cursor (fobj k 0 (nat fd)) = 0 \<and> status (fobj k 0 (nat fd)) \<noteq> RD
     \<and> itype (inodes (fs k) (fd_node k fd)) \<noteq> ''dir'' \<and> access (inodes (fs k) (fd_node k fd)) \<noteq> RD
     \<and> isize (inodes (fs k) (fd_node k fd)) = 0"

text \<open>Bytes that a read can tell from the padding of a block, and room for them: one block
  for every 256 bytes, and the index blocks.\<close>

definition storable :: "filesys_struct \<Rightarrow> string \<Rightarrow> nat \<Rightarrow> bool" where
  "storable s buf N \<longleftrightarrow> 0 < N \<and> N \<le> READ_BUFFER_SIZE \<and> N \<le> length buf \<and> (\<forall>x < N. buf ! x \<noteq> NUL)
     \<and> (N + 255) div BLOCK_SIZE + 66 \<le> unat (free_blocks s)"

lemma valid_fd_cursor:
  assumes "valid_fd k fd"
  shows "valid_fd (upd_fobj (k\<lparr>fs := s\<rparr>) 0 (nat fd) ((fobj k 0 (nat fd))\<lparr>cursor := c\<rparr>)) fd"
    "fd_node (upd_fobj (k\<lparr>fs := s\<rparr>) 0 (nat fd) ((fobj k 0 (nat fd))\<lparr>cursor := c\<rparr>)) fd = fd_node k fd"
  using assms by (auto simp: valid_fd_def fd_node_def)

lemma fds_ok_moved:
  "fds_ok k \<Longrightarrow> valid_fd k fd \<Longrightarrow> fds_ok (upd_fobj k 0 (nat fd) ((fobj k 0 (nat fd))\<lparr>cursor := c\<rparr>))"
  using fds_ok_cursor [of k fd "fs k" c] by simp

lemma fd_range: "valid_fd k fd \<Longrightarrow> - (2 ^ 31) \<le> fd \<and> fd < 2 ^ 31"
  by (auto simp: valid_fd_def)

text \<open>A descriptor at the end of a file, a block boundary, whose contents are the first \<open>b\<close>
  blocks of \<open>buf\<close>; and room to append the rest of the first \<open>N\<close> bytes.  The last boundary
  from which the code finds its place again is the end of the single indirect blocks.\<close>

definition at_end :: "kernel \<Rightarrow> int \<Rightarrow> string \<Rightarrow> nat \<Rightarrow> bool" where
  "at_end k fd buf b \<longleftrightarrow> valid_fd k fd \<and> cursor (fobj k 0 (nat fd)) = of_nat (BLOCK_SIZE * b) \<and> status (fobj k 0 (nat fd)) \<noteq> RD
     \<and> itype (inodes (fs k) (fd_node k fd)) \<noteq> ''dir'' \<and> access (inodes (fs k) (fd_node k fd)) \<noteq> RD
     \<and> isize (inodes (fs k) (fd_node k fd)) = of_nat (BLOCK_SIZE * b) \<and> holds (fs k) (fd_node k fd) buf (BLOCK_SIZE * b)"

definition room_for :: "filesys_struct \<Rightarrow> string \<Rightarrow> nat \<Rightarrow> nat \<Rightarrow> bool" where
  "room_for s buf b N \<longleftrightarrow> b \<le> 72 \<and> BLOCK_SIZE * b < N \<and> N \<le> BLOCK_SIZE * MAX_FILE_BLOCKS \<and> N \<le> length buf
     \<and> (\<forall>x < N. buf ! x \<noteq> NUL) \<and> (N + 255) div BLOCK_SIZE - b + 66 \<le> unat (free_blocks s)"

lemma append_step:
  assumes k: "fds_ok k" "wf_blocks (fs k)" "counter_ok (fs k)" "at_end k fd buf b" "room_for (fs k) buf b N"
  defines "n \<equiv> fd_node k fd"
  obtains s where
    "rd_write k fd p (drop (BLOCK_SIZE * b) buf) (int (N - BLOCK_SIZE * b)) = Some (int (N - BLOCK_SIZE * b),
       upd_fobj (k\<lparr>fs := s\<rparr>) 0 (nat fd) ((fobj k 0 (nat fd))\<lparr>cursor := of_nat N\<rparr>))"
    "wf_blocks s" "counter_ok s" "isize (inodes s n) = of_nat N" "holds s n buf N"
    "itype (inodes s n) = itype (inodes (fs k) n)" "access (inodes s n) = access (inodes (fs k) n)"
    "unat (free_blocks (fs k)) \<le> unat (free_blocks s) + ((N + 255) div BLOCK_SIZE - b + 66)"
    "node_step n (fs k) s"
proof -
  define x where "x = unat (free_blocks (fs k)) - ((N + 255) div BLOCK_SIZE - b + 66)"
  let ?d = "drop (BLOCK_SIZE * b) buf" and ?m = "int (N - BLOCK_SIZE * b)" and ?c = "of_nat (BLOCK_SIZE * b) :: 32 word"
  note R = k(5) [unfolded room_for_def]
  have F: "valid_fd k fd" "cursor (fobj k 0 (nat fd)) = ?c" "status (fobj k 0 (nat fd)) \<noteq> RD"
    "itype (inodes (fs k) n) \<noteq> ''dir''" "access (inodes (fs k) n) \<noteq> RD" "isize (inodes (fs k) n) = ?c"
    "holds (fs k) n buf (BLOCK_SIZE * b)"
    using k(4) by (simp_all add: at_end_def n_def)
  note slot = valid_fd_slot [OF k(1) F(1), folded n_def]
  have le: "min N (BLOCK_SIZE * b) = BLOCK_SIZE * b" using R by simp
  have st: "stored N buf n (fs k) b" "budget N (fs k) b (66 + x)"
    using k(2,3) F(6,7) R unfolding stored_def budget_def le x_def by simp_all
  obtain s where s: "write_stages (fs k) n ?d ?m ?c = Some (?m, of_nat N, s)" "stored N buf n s MAX_FILE_BLOCKS"
      "budget N s MAX_FILE_BLOCKS x"
    using write_stages_append [OF slot(2) _ _ _ _ _ st] R by blast
  have m: "min N (BLOCK_SIZE * MAX_FILE_BLOCKS) = N" using R by simp
  note T = storedD [OF s(2), unfolded m]
  have w: "rd_write k fd p ?d ?m = Some (?m, upd_fobj (k\<lparr>fs := s\<rparr>) 0 (nat fd) ((fobj k 0 (nat fd))\<lparr>cursor := of_nat N\<rparr>))"
    using slot F(1-5) s(1) by (simp add: rd_write_def lookup_fd_valid [OF k(1) F(1)] get_inode_def Let_def)
  obtain r cur s' where "write_stages (fs k) n ?d ?m ?c = Some (r, cur, s')" "node_step n (fs k) s'"
    using write_stages_safe [OF k(2) slot(2), of ?m ?d ?c] R by auto
  then have step: "node_step n (fs k) s" using s(1) by simp
  have "unat (free_blocks (fs k)) \<le> unat (free_blocks s) + ((N + 255) div BLOCK_SIZE - b + 66)"
    using s(3) by (simp add: budget_def x_def)
  then show thesis using that w T node_stepD(5,6) [OF step] step by blast
qed

lemma write_step:
  assumes k: "fds_ok k" "wf_blocks (fs k)" "counter_ok (fs k)" "fresh_fd k fd" "storable (fs k) buf N"
  defines "n \<equiv> fd_node k fd"
  obtains s where
    "rd_write k fd p buf (int N) = Some (int N, upd_fobj (k\<lparr>fs := s\<rparr>) 0 (nat fd) ((fobj k 0 (nat fd))\<lparr>cursor := of_nat N\<rparr>))"
    "wf_blocks s" "isize (inodes s n) = of_nat N" "holds s n buf N"
    "itype (inodes s n) = itype (inodes (fs k) n)" "access (inodes s n) = access (inodes (fs k) n)"
proof -
  have "at_end k fd buf 0" "room_for (fs k) buf 0 N"
    using k(4,5) by (auto simp: fresh_fd_def at_end_def storable_def room_for_def)
  from append_step [OF k(1-3) this, of p] show thesis using that by (auto simp: n_def)
qed

lemma request_fits:
  assumes "BLOCK_SIZE * b < N" "N \<le> S" "S \<le> BLOCK_SIZE * MAX_FILE_BLOCKS"
  shows "(word_of_int (int (N - BLOCK_SIZE * b)) :: 32 word) \<le> of_nat S - of_nat (BLOCK_SIZE * b)"
proof -
  have "(of_nat S :: 32 word) - of_nat (BLOCK_SIZE * b) = of_nat (S - BLOCK_SIZE * b)" using assms(1,2) by (simp add: of_nat_diff)
  moreover have "N - BLOCK_SIZE * b < 2 ^ 32" "S - BLOCK_SIZE * b < 2 ^ 32" using assms(2,3) by simp_all
  then have "(of_nat (N - BLOCK_SIZE * b) :: 32 word) \<le> of_nat (S - BLOCK_SIZE * b)"
    using assms(2) by (simp add: word_le_nat_alt unat_of_nat del: of_nat_diff)
  ultimately show ?thesis by simp
qed

text \<open>Reading the bytes from a block boundary up to position \<open>N\<close>.\<close>

lemma read_part_chunks:
  assumes k: "fds_ok k" "wf_blocks (fs k)" "valid_fd k fd" "cursor (fobj k 0 (nat fd)) = of_nat (BLOCK_SIZE * b)"
  defines "n \<equiv> fd_node k fd"
  assumes n: "itype (inodes (fs k) n) \<noteq> ''dir''" "isize (inodes (fs k) n) = of_nat S" "holds (fs k) n buf N"
    and N: "b \<le> 72" "BLOCK_SIZE * b < N" "N \<le> S" "S \<le> BLOCK_SIZE * MAX_FILE_BLOCKS" "N - BLOCK_SIZE * b \<le> READ_BUFFER_SIZE"
      "N \<le> length buf" "\<forall>x < N. buf ! x \<noteq> NUL"
  defines "d \<equiv> take (N - BLOCK_SIZE * b) (drop (BLOCK_SIZE * b) buf)"
  obtains rb where
    "rd_read k fd (int (N - BLOCK_SIZE * b)) p = Some (int (N - BLOCK_SIZE * b), copy_chunks rb 0 (int (N - BLOCK_SIZE * b)),
       upd_fobj (k\<lparr>read_buffer := rb\<rparr>) 0 (nat fd) ((fobj k 0 (nat fd))\<lparr>cursor := of_nat N\<rparr>))"
    "map rb [0..<N - BLOCK_SIZE * b] = d"
proof -
  note slot = valid_fd_slot [OF k(1,3), folded n_def]
  let ?m = "N - BLOCK_SIZE * b" and ?rb0 = "upd_region (read_buffer k) 0 (replicate 4 NUL)"
  have big: "N \<le> BLOCK_SIZE * MAX_FILE_BLOCKS" using N(3,4) by simp
  obtain rb where r: "read_stages (fs k) (inodes (fs k) n) (int ?m) (of_nat (BLOCK_SIZE * b)) ?rb0 = Some (of_nat N, ?m, rb)"
    "got rb (drop (BLOCK_SIZE * b) buf) ?m"
    using read_stages_fetch [OF k(2) slot(2) n(3) N(1,2,5,7,6) big] by blast
  have fits: "\<not> isize (inodes (fs k) n) - cursor (fobj k 0 (nat fd)) < word_of_int (int ?m)"
    using request_fits [OF N(2,3,4)] n(2) k(4) by (simp only: not_less)
  have "rd_read k fd (int ?m) p = Some (int ?m, copy_chunks rb 0 (int ?m),
      upd_fobj (k\<lparr>read_buffer := rb\<rparr>) 0 (nat fd) ((fobj k 0 (nat fd))\<lparr>cursor := of_nat N\<rparr>))"
    using slot n(1) r(1) k(4) fits N(5)
    by (simp add: rd_read_def lookup_fd_valid [OF k(1,3)] get_inode_def Let_def del: of_nat_diff of_nat_mult)
  moreover have "map rb [0..<?m] = d"
    unfolding d_def using r(2) N(6) by (intro nth_equalityI) (auto simp: got_def)
  ultimately show thesis using that by metis
qed

lemma read_part:
  assumes k: "fds_ok k" "wf_blocks (fs k)" "valid_fd k fd" "cursor (fobj k 0 (nat fd)) = of_nat (BLOCK_SIZE * b)"
    and n: "itype (inodes (fs k) (fd_node k fd)) \<noteq> ''dir''" "isize (inodes (fs k) (fd_node k fd)) = of_nat S" "holds (fs k) (fd_node k fd) buf N"
    and N: "b \<le> 72" "BLOCK_SIZE * b < N" "N \<le> S" "S \<le> BLOCK_SIZE * MAX_FILE_BLOCKS" "N - BLOCK_SIZE * b \<le> READ_BUFFER_SIZE"
      "N \<le> length buf" "\<forall>x < N. buf ! x \<noteq> NUL"
  obtains calls rb where
    "rd_read k fd (int (N - BLOCK_SIZE * b)) p = Some (int (N - BLOCK_SIZE * b), calls,
       upd_fobj (k\<lparr>read_buffer := rb\<rparr>) 0 (nat fd) ((fobj k 0 (nat fd))\<lparr>cursor := of_nat N\<rparr>))"
    "concat (map snd calls) = take (N - BLOCK_SIZE * b) (drop (BLOCK_SIZE * b) buf)"
proof -
  let ?m = "N - BLOCK_SIZE * b"
  obtain rb where r: "rd_read k fd (int ?m) p = Some (int ?m, copy_chunks rb 0 (int ?m),
       upd_fobj (k\<lparr>read_buffer := rb\<rparr>) 0 (nat fd) ((fobj k 0 (nat fd))\<lparr>cursor := of_nat N\<rparr>))"
    "map rb [0..<?m] = take ?m (drop (BLOCK_SIZE * b) buf)"
    by (rule read_part_chunks [OF k n N])
  have "concat (map snd (copy_chunks rb 0 (int ?m))) = map rb [0..<?m]"
    using copy_chunks_all [of "int ?m" rb 0] by (simp del: of_nat_diff)
  then show thesis using that r by metis
qed

lemma read_step:
  assumes k: "fds_ok k" "wf_blocks (fs k)" "valid_fd k fd" "cursor (fobj k 0 (nat fd)) = 0"
  defines "n \<equiv> fd_node k fd"
  assumes n: "itype (inodes (fs k) n) \<noteq> ''dir''" "isize (inodes (fs k) n) = of_nat N" "holds (fs k) n buf N"
    and N: "0 < N" "N \<le> READ_BUFFER_SIZE" "N \<le> length buf" "\<forall>x < N. buf ! x \<noteq> NUL"
  obtains calls rb where
    "rd_read k fd (int N) p = Some (int N, calls,
       upd_fobj (k\<lparr>read_buffer := rb\<rparr>) 0 (nat fd) ((fobj k 0 (nat fd))\<lparr>cursor := of_nat N\<rparr>))"
    "concat (map snd calls) = take N buf"
proof -
  have c: "cursor (fobj k 0 (nat fd)) = of_nat (BLOCK_SIZE * 0)" using k(4) by simp
  have "N \<le> BLOCK_SIZE * MAX_FILE_BLOCKS" using N(2) by simp
  from read_part [OF k(1-3) c n [unfolded n_def] _ _ order_refl this, of p] show thesis using that N unfolding n_def by auto
qed

lemma lseek_start:
  assumes "fds_ok k" "valid_fd k fd" "itype (inodes (fs k) (fd_node k fd)) \<noteq> ''dir''"
    "isize (inodes (fs k) (fd_node k fd)) \<noteq> 0"
  shows "rd_lseek k fd 0 p = Some (0, upd_fobj k 0 (nat fd) ((fobj k 0 (nat fd))\<lparr>cursor := 0\<rparr>))"
proof -
  have "(0 :: 32 word) < isize (inodes (fs k) (fd_node k fd))" using assms(4) by (simp add: word_neq_0_conv)
  then show ?thesis using rd_lseek_eq [OF assms(1), of fd 0 p] fd_range [OF assms(2)] assms(2,3) by (simp add: Let_def)
qed

lemma write_lseek:
  assumes k: "fds_ok k" "wf_blocks (fs k)" "counter_ok (fs k)" "fresh_fd k fd" "storable (fs k) buf N"
  obtains k1 k2 s f where "rd_write k fd p buf (int N) = Some (int N, k1)" "rd_lseek k1 fd 0 p = Some (0, k2)"
    "isize (inodes (fs k1) (fd_node k fd)) = of_nat N" "k2 = upd_fobj (k\<lparr>fs := s\<rparr>) 0 (nat fd) f"
    "fds_ok k2" "valid_fd k2 fd" "fd_node k2 fd = fd_node k fd" "cursor (fobj k2 0 (nat fd)) = 0"
    "wf_blocks s" "isize (inodes s (fd_node k fd)) = of_nat N" "holds s (fd_node k fd) buf N"
    "itype (inodes s (fd_node k fd)) \<noteq> ''dir''"
proof -
  let ?n = "fd_node k fd" and ?f = "fobj k 0 (nat fd)"
  note S = assms(5) [unfolded storable_def]
  have F: "valid_fd k fd" "itype (inodes (fs k) ?n) \<noteq> ''dir''" using k(4) by (simp_all add: fresh_fd_def)
  obtain s where w: "rd_write k fd p buf (int N) = Some (int N, upd_fobj (k\<lparr>fs := s\<rparr>) 0 (nat fd) (?f\<lparr>cursor := of_nat N\<rparr>))"
    "wf_blocks s" "isize (inodes s ?n) = of_nat N" "holds s ?n buf N" "itype (inodes s ?n) = itype (inodes (fs k) ?n)"
    by (rule write_step [OF assms, of p])
  define k1 where "k1 = upd_fobj (k\<lparr>fs := s\<rparr>) 0 (nat fd) (?f\<lparr>cursor := of_nat N\<rparr>)"
  have V1: "valid_fd k1 fd" "fd_node k1 fd = ?n" using valid_fd_cursor [OF F(1)] by (simp_all add: k1_def)
  have O1: "fds_ok k1" "fs k1 = s" using fds_ok_cursor [OF k(1) F(1)] by (simp_all add: k1_def)
  have "(of_nat N :: 32 word) \<noteq> 0" using S of_nat_32_inj [of N 0] by simp
  then have l: "rd_lseek k1 fd 0 p = Some (0, upd_fobj k1 0 (nat fd) ((fobj k1 0 (nat fd))\<lparr>cursor := 0\<rparr>))"
    using lseek_start [OF O1(1) V1(1)] O1(2) V1(2) w(3,5) F(2) by simp
  define k2 where "k2 = upd_fobj k1 0 (nat fd) ((fobj k1 0 (nat fd))\<lparr>cursor := 0\<rparr>)"
  have V2: "valid_fd k2 fd" "fd_node k2 fd = ?n" using valid_fd_cursor [OF V1(1), of s 0] O1(2) V1(2) by (simp_all add: k2_def valid_fd_def fd_node_def)
  have O2: "fds_ok k2" "cursor (fobj k2 0 (nat fd)) = 0"
    using fds_ok_moved [OF O1(1) V1(1), of 0] by (simp_all add: k2_def)
  have "k2 = upd_fobj (k\<lparr>fs := s\<rparr>) 0 (nat fd) ((fobj k1 0 (nat fd))\<lparr>cursor := 0\<rparr>)"
    by (simp add: k2_def k1_def upd_fobj_def)
  then show thesis
    using that w(1) [folded k1_def] l [folded k2_def] O1(2) O2 V2 w(2-5) F(2) by metis
qed

lemma write_lseek_read:
  assumes k: "fds_ok k" "wf_blocks (fs k)" "counter_ok (fs k)" "fresh_fd k fd" "storable (fs k) buf N"
  obtains k1 k2 calls k3 where "rd_write k fd p buf (int N) = Some (int N, k1)" "rd_lseek k1 fd 0 p = Some (0, k2)"
    "rd_read k2 fd (int N) p = Some (int N, calls, k3)" "concat (map snd calls) = take N buf"
    "isize (inodes (fs k1) (fd_node k fd)) = of_nat N" "fds_ok k3" "valid_fd k3 fd" "fd_node k3 fd = fd_node k fd"
    "itype (inodes (fs k3) (fd_node k fd)) \<noteq> ''dir''"
    "\<exists>s rb f. k3 = upd_fobj (k\<lparr>fs := s, read_buffer := rb\<rparr>) 0 (nat fd) f"
proof -
  let ?n = "fd_node k fd"
  note S = assms(5) [unfolded storable_def]
  obtain k1 k2 s f where w: "rd_write k fd p buf (int N) = Some (int N, k1)" "rd_lseek k1 fd 0 p = Some (0, k2)"
    "isize (inodes (fs k1) ?n) = of_nat N" "k2 = upd_fobj (k\<lparr>fs := s\<rparr>) 0 (nat fd) f"
    and O: "fds_ok k2" "valid_fd k2 fd" "fd_node k2 fd = ?n" "cursor (fobj k2 0 (nat fd)) = 0"
    and F: "wf_blocks s" "isize (inodes s ?n) = of_nat N" "holds s ?n buf N" "itype (inodes s ?n) \<noteq> ''dir''"
    by (rule write_lseek [OF assms, of p])
  have fs2: "fs k2 = s" using w(4) by simp
  obtain calls rb where r: "rd_read k2 fd (int N) p = Some (int N, calls,
       upd_fobj (k2\<lparr>read_buffer := rb\<rparr>) 0 (nat fd) ((fobj k2 0 (nat fd))\<lparr>cursor := of_nat N\<rparr>))"
    "concat (map snd calls) = take N buf"
    by (rule read_step [of k2 fd N buf p]) (use O F fs2 S in auto)
  let ?k3 = "upd_fobj (k2\<lparr>read_buffer := rb\<rparr>) 0 (nat fd) ((fobj k2 0 (nat fd))\<lparr>cursor := of_nat N\<rparr>)"
  have "valid_fd (k2\<lparr>read_buffer := rb\<rparr>) fd" using O(2) by (simp add: valid_fd_def)
  then have O3: "fds_ok ?k3" using fds_ok_moved [of "k2\<lparr>read_buffer := rb\<rparr>" fd] O(1) by simp
  show thesis
  proof (rule that [OF w(1,2) r w(3)])
    show "fds_ok ?k3" by (rule O3)
    show "valid_fd ?k3 fd" "fd_node ?k3 fd = ?n" using O by (simp_all add: valid_fd_def fd_node_def)
    show "itype (inodes (fs ?k3) ?n) \<noteq> ''dir''" using fs2 F(4) by simp
    show "\<exists>s rb f. ?k3 = upd_fobj (k\<lparr>fs := s, read_buffer := rb\<rparr>) 0 (nat fd) f"
      by (intro exI [of _ s] exI [of _ rb] exI [of _ "(fobj k2 0 (nat fd))\<lparr>cursor := of_nat N\<rparr>"])
        (simp add: w(4) upd_fobj_def)
  qed
qed

section \<open>From user space\<close>

lemma u_open_eq:
  assumes e: "api_ok api" and k: "kernel_ok k" and mem: "memory_ok api RD_OPEN (zero_args\<lparr>arg_pathname := Some m\<rparr>)"
    and m: "NUL \<in> set m" "cstring m = path_of ts" "ts \<noteq> []"
    and n: "resolve (dir_map (fs k)) 0 ts = Some n" "access (inodes (fs k) n) = RW"
    and free: "\<exists>i < FD_TABLE_SIZE. usable (fobj k 0 i) = 0"
  obtains i where "i < FD_TABLE_SIZE" "fobj k 0 i = zero_file_object"
    "u_open api me k m RW = Some (int i, [], upd_fobj k 0 i
       \<lparr>inode_ptr = Some n, status = RW, cursor = 0, pos = of_nat i, usable = 1\<rparr>)" "n < MAX_NUM_FILE"
proof -
  note K = kernel_okD [OF k]
  note D = resolve_dirs [OF n(1)]
  have served: "serves (alloc api) (path_of ts)" using mem m(2) by (simp add: memory_ok_def)
  have lk: "my_find_inode_number (alloc api) (fs k) (path_of ts) = Some (int n)"
    using lookup_found [OF K(2) n(1)] served_copies(2) [OF served] by simp
  have nn: "n < MAX_NUM_FILE"
    using lookup_path_range [OF fs_okD(2) [OF K(2)] _ _ resolve_is_lookup [OF n(1)]] D by simp
  have root: "path_of ts \<noteq> ''/''" using path_of_Cons_neq [OF m(3)] D by simp
  define i where "i = (LEAST i. usable (fobj k 0 i) = 0)"
  obtain j where j: "j < FD_TABLE_SIZE" "usable (fobj k 0 j) = 0" using free by blast
  then have i: "i < FD_TABLE_SIZE" "usable (fobj k 0 i) = 0"
    using Least_le [of "\<lambda>i. usable (fobj k 0 i) = 0" j] LeastI [of "\<lambda>i. usable (fobj k 0 i) = 0" j]
    by (simp_all add: i_def)
  then have z: "fobj k 0 i = zero_file_object" using fds_okD(2) [OF K(1) i(1)] by (auto simp: slot_ok_def)
  have "rd_open (alloc api) k (path_of ts) RW me = Some (int i, upd_fobj k 0 i
       \<lparr>inode_ptr = Some n, status = RW, cursor = 0, pos = of_nat i, usable = 1\<rparr>)"
    using rd_open_eq [OF K(1) root lk nn served_copies(1) [OF served], of RW me] n(2) i j unfolding i_def [symmetric]
    by (auto simp: access_denied_def Let_def)
  moreover obtain path where "path_arg api m = Some path"
    using path_arg_some [OF e, of m] mem by (auto simp: memory_ok_def)
  ultimately show thesis
    using that [OF i(1) z _ nn] m(1,2) mem
    by (auto simp: u_open_def discos_ioctl_def user_string_def c_string_def memory_ok_def)
qed

lemma u_write_eq:
  assumes e: "api_ok api" "alloc api Args 24 \<noteq> None" "alloc api Data_Arg N \<noteq> None" and k: "kernel_ok k" "fresh_fd k fd" "storable (fs k) data N"
  obtains k1 k2 calls k3 where "u_write api me k fd data (int N) = Some (int N, [], k1)"
    "u_lseek api me k1 fd 0 = Some (0, [], k2)" "u_read api me k2 fd (int N) = Some (int N, calls, k3)"
    "concat (map snd calls) = take N data" "fds_ok k3" "valid_fd k3 fd"
    "itype (inodes (fs k3) (fd_node k3 fd)) \<noteq> ''dir''"
    "\<exists>s rb f. k3 = upd_fobj (k\<lparr>fs := s, read_buffer := rb\<rparr>) 0 (nat fd) f"
proof -
  note K = kernel_okD [OF k(1)] and S = k(3) [unfolded storable_def]
  obtain buf where b: "take (nat (int N)) buf = take (nat (int N)) data" "nat (int N) \<le> length buf"
    "u_write api me k fd data (int N) = map_option (\<lambda>(r, k1). (r, [], k1)) (rd_write k fd me buf (int N))"
    using user_write_agrees [OF e(1) _ _ e(2), of "int N" data me k fd] e(3) S by auto
  have eq: "take N buf = take N data" "N \<le> length buf" using b by simp_all
  have "buf ! x \<noteq> NUL" if "x < N" for x
    using S that nth_take [OF that, of buf] nth_take [OF that, of data] eq(1) by metis
  then have "storable (fs k) buf N" using S eq by (simp add: storable_def)
  then obtain k1 k2 calls k3 where r: "rd_write k fd me buf (int N) = Some (int N, k1)" "rd_lseek k1 fd 0 me = Some (0, k2)"
    "rd_read k2 fd (int N) me = Some (int N, calls, k3)" "concat (map snd calls) = take N buf" "fds_ok k3" "valid_fd k3 fd"
    "fd_node k3 fd = fd_node k fd" "itype (inodes (fs k3) (fd_node k fd)) \<noteq> ''dir''"
    "\<exists>s rb f. k3 = upd_fobj (k\<lparr>fs := s, read_buffer := rb\<rparr>) 0 (nat fd) f"
    using write_lseek_read [OF K(1,3) fs_okD(3) [OF K(2)] k(2), of buf N me] by metis
  show thesis
    by (rule that [of k1 k2 calls k3])
      (use r b(3) eq(1) e(2) in \<open>auto simp: u_lseek_def u_read_def discos_ioctl_def zero_args_def\<close>)
qed

section \<open>Properties\<close>

text \<open>What is written is read back.  Through a descriptor of an empty file, \<^verbatim>\<open>rd_write\<close>
  of \<open>N\<close> bytes without a NUL, up to the megabyte of the read buffer and so through direct,
  single and double indirect blocks, writes all of them and makes the file \<open>N\<close> bytes long;
  after \<^verbatim>\<open>rd_lseek\<close> to the start, \<^verbatim>\<open>rd_read\<close> of \<open>N\<close> bytes returns \<open>N\<close> and copies exactly these
  bytes, in order, to the user.\<close>

theorem write_read_back:
  assumes "fds_ok k" "wf_blocks (fs k)" "counter_ok (fs k)" "fresh_fd k fd" "storable (fs k) buf N"
  shows "\<exists>k1 k2 calls k3. rd_write k fd p buf (int N) = Some (int N, k1) \<and> rd_lseek k1 fd 0 p = Some (0, k2)
    \<and> rd_read k2 fd (int N) p = Some (int N, calls, k3) \<and> concat (map snd calls) = take N buf
    \<and> isize (inodes (fs k1) (fd_node k fd)) = of_nat N"
  using write_lseek_read [OF assms, of p] by metis

theorem write_read_back_witness:
  "\<exists>k1 k2 calls k3. rd_write sample_opened 0 7 ''hi'' 2 = Some (2, k1) \<and> rd_lseek k1 0 0 7 = Some (0, k2)
    \<and> rd_read k2 0 2 7 = Some (2, calls, k3) \<and> concat (map snd calls) = ''hi''"
proof -
  have "fobj sample_opened 0 0 = \<lparr>inode_ptr = Some 1, status = RW, cursor = 0, pos = 0, usable = 1\<rparr>"
    by (simp add: sample_opened_def)
  then have "fresh_fd sample_opened 0" by (simp add: fresh_fd_def sample_file_def zero_inode_def)
  moreover have "(''hi'' ! x) \<noteq> NUL" if "x < 2" for x using that by (cases x) auto
  then have "storable (fs sample_opened) ''hi'' 2" by (simp add: storable_def) (simp add: sample_fs_def)
  ultimately show ?thesis
    using write_read_back [of sample_opened 0 "''hi''" 2 7] sample_counter by auto
qed

text \<open>C5: The same through the user library and the \<^verbatim>\<open>ioctl\<close>: opening an empty regular file
  with access rights \<^verbatim>\<open>RW\<close> by its path, writing, seeking to the start, reading and closing
  all succeed; the bytes copied to the user are the bytes written; and the descriptor
  tables are as before.  The data have no NUL and at least one byte, at most 1048576, and there are
  blocks for them and 66 more (\<open>storable\<close>).  All allocations succeed, and the copies of the path
  have the spare byte and the NULs that the code needs (\<open>memory_ok\<close>).\<close>

theorem file_round_trip:
  assumes "api_ok api" "kernel_ok k" "memory_ok api RD_OPEN (zero_args\<lparr>arg_pathname := Some m\<rparr>)"
    "alloc api Data_Arg N \<noteq> None" "NUL \<in> set m" "cstring m = path_of ts" "ts \<noteq> []"
    and "resolve (dir_map (fs k)) 0 ts = Some n" "access (inodes (fs k) n) = RW"
    "itype (inodes (fs k) n) \<noteq> ''dir''" "isize (inodes (fs k) n) = 0"
    and "\<exists>i < FD_TABLE_SIZE. usable (fobj k 0 i) = 0" "storable (fs k) data N"
  shows "\<exists>fd k1 k2 k3 calls k4 k5. u_open api me k m RW = Some (fd, [], k1)
    \<and> u_write api me k1 fd data (int N) = Some (int N, [], k2) \<and> u_lseek api me k2 fd 0 = Some (0, [], k3)
    \<and> u_read api me k3 fd (int N) = Some (int N, calls, k4) \<and> concat (map snd calls) = take N data
    \<and> u_close api me k4 fd = Some (0, [], k5) \<and> p_fd_table k5 = p_fd_table k"
proof -
  note K = kernel_okD [OF assms(2)]
  obtain i where i: "i < FD_TABLE_SIZE" "fobj k 0 i = zero_file_object"
    "u_open api me k m RW = Some (int i, [], upd_fobj k 0 i
       \<lparr>inode_ptr = Some n, status = RW, cursor = 0, pos = of_nat i, usable = 1\<rparr>)" "n < MAX_NUM_FILE"
    by (rule u_open_eq [OF assms(1-3,5-9,12)])
  define k1 where "k1 = upd_fobj k 0 i \<lparr>inode_ptr = Some n, status = RW, cursor = 0, pos = of_nat i, usable = 1\<rparr>"
  have ok: "kernel_ok k1"
    using fds_ok_upd [OF K(1)] i(4) K(2) by (auto simp: kernel_ok_def k1_def slot_ok_def)
  have fresh: "fresh_fd k1 (int i)" using i(1) assms(9-11) by (simp add: fresh_fd_def valid_fd_def fd_node_def k1_def)
  have args: "alloc api Args 24 \<noteq> None" using assms(3) by (simp add: memory_ok_def)
  have st: "storable (fs k1) data N" using assms(13) by (simp add: k1_def)
  obtain k2 k3 calls k4 where r: "u_write api me k1 (int i) data (int N) = Some (int N, [], k2)"
    "u_lseek api me k2 (int i) 0 = Some (0, [], k3)" "u_read api me k3 (int i) (int N) = Some (int N, calls, k4)"
    "concat (map snd calls) = take N data" "fds_ok k4" "valid_fd k4 (int i)"
    "itype (inodes (fs k4) (fd_node k4 (int i))) \<noteq> ''dir''"
    "\<exists>s rb f. k4 = upd_fobj (k1\<lparr>fs := s, read_buffer := rb\<rparr>) 0 (nat (int i)) f"
    by (rule u_write_eq [OF assms(1) args assms(4) ok fresh st])
  define k5 where "k5 = upd_fobj k4 0 i zero_file_object"
  have "u_close api me k4 (int i) = Some (0, [], k5)"
    using rd_close_eq [OF r(5), of "int i" me] fd_range [OF r(6)] r(6,7) args
    by (auto simp: u_close_def discos_ioctl_def zero_args_def k5_def)
  moreover have "p_fd_table k5 = p_fd_table k"
    using r(8) i(2) upd_fobj_same [of k 0 i] by (auto simp: k5_def k1_def upd_fobj_def fun_upd_idem_iff)
  ultimately show ?thesis using i(3) [folded k1_def] r(1-4) by blast
qed

theorem file_round_trip_witness:
  "\<exists>fd k1 k2 k3 calls k4 k5. u_open sample_api 7 sample_kernel (''/f'' @ [NUL]) RW = Some (fd, [], k1)
    \<and> u_write sample_api 7 k1 fd ''hi'' 2 = Some (2, [], k2) \<and> u_lseek sample_api 7 k2 fd 0 = Some (0, [], k3)
    \<and> u_read sample_api 7 k3 fd 2 = Some (2, calls, k4) \<and> concat (map snd calls) = ''hi''
    \<and> u_close sample_api 7 k4 fd = Some (0, [], k5)"
proof -
  have "(''hi'' ! x) \<noteq> NUL" if "x < 2" for x using that by (cases x) auto
  then have "storable (fs sample_kernel) ''hi'' 2" by (simp add: storable_def) (simp add: sample_fs_def)
  moreover have "kernel_ok sample_kernel" by (simp add: kernel_ok_def)
  moreover have "memory_ok sample_api RD_OPEN (zero_args\<lparr>arg_pathname := Some (''/f'' @ [NUL])\<rparr>)"
    by (simp add: memory_ok_def sample_api_fields) (simp add: zero_vm_def)
  moreover have "alloc sample_api Data_Arg 2 \<noteq> None" by (simp add: sample_api_fields zero_vm_def)
  moreover have "resolve (dir_map (fs sample_kernel)) 0 [''f''] = Some 1" by (simp add: sample_find_f)
  moreover have "\<exists>i < FD_TABLE_SIZE. usable (fobj sample_kernel 0 i) = 0"
    by (intro exI [of _ 0]) (simp add: fobj_no_inode)
  ultimately show ?thesis
    using file_round_trip [of sample_api sample_kernel "''/f'' @ [NUL]" 2 "[''f'']" 1 "''hi''" 7]
    by (auto simp: cstring_def path_of_def sample_file_def zero_inode_def)
qed

end
