(* ===== verification/Append.thy ===== *)
theory Append
  imports RoundTrip
begin

text \<open>
  Writing to a file that already has contents.  From a block boundary up to the end of the
  single indirect blocks an append works; from any other position \<^verbatim>\<open>rd_write\<close> loses data:
  it starts every block it enters at the offset of the first one, and behind the first of
  the double indirect blocks it starts from the wrong block.
\<close>

section \<open>Descriptors that may be written\<close>

definition writable_fd :: "kernel \<Rightarrow> int \<Rightarrow> bool" where
  "writable_fd k fd \<longleftrightarrow> valid_fd k fd \<and> status (fobj k 0 (nat fd)) \<noteq> RD
     \<and> itype (inodes (fs k) (fd_node k fd)) \<noteq> ''dir'' \<and> access (inodes (fs k) (fd_node k fd)) \<noteq> RD"

text \<open>The kernel after a transfer through descriptor \<open>fd\<close>.\<close>

definition moved :: "kernel \<Rightarrow> int \<Rightarrow> filesys_struct \<Rightarrow> 32 word \<Rightarrow> kernel" where
  "moved k fd s c = upd_fobj (k\<lparr>fs := s\<rparr>) 0 (nat fd) ((fobj k 0 (nat fd))\<lparr>cursor := c\<rparr>)"

lemma moved_simps [simp]:
  "fs (moved k fd s c) = s" "cursor (fobj (moved k fd s c) 0 (nat fd)) = c"
  "fd_node (moved k fd s c) fd = fd_node k fd" "valid_fd (moved k fd s c) fd = valid_fd k fd"
  by (simp_all add: moved_def fd_node_def valid_fd_def)

lemma moved_moved [simp]: "moved (moved k fd s c) fd s' c' = moved k fd s' c'"
  by (simp add: moved_def upd_fobj_def)

lemma moved_buffer [simp]: "read_buffer (moved k fd s c) = read_buffer k"
  by (simp add: moved_def upd_fobj_def)

lemma moved_ok: "fds_ok k \<Longrightarrow> valid_fd k fd \<Longrightarrow> fds_ok (moved k fd s c)"
  unfolding moved_def by (rule fds_ok_cursor)

lemma writable_moved:
  assumes "writable_fd k fd" "node_step (fd_node k fd) (fs k) s"
  shows "writable_fd (moved k fd s c) fd"
  using assms(1) node_stepD(5,6) [OF assms(2)] by (simp add: writable_fd_def) (simp add: moved_def)

lemma rd_write_moved:
  assumes "fds_ok k" "writable_fd k fd"
    and "write_stages (fs k) (fd_node k fd) buf num_bytes (cursor (fobj k 0 (nat fd))) = Some (r, c, s)"
  shows "rd_write k fd p buf num_bytes = Some (r, moved k fd s c)"
proof -
  have F: "valid_fd k fd" using assms(2) by (simp add: writable_fd_def)
  show ?thesis
    using valid_fd_slot [OF assms(1) F] assms(2,3)
    by (simp add: writable_fd_def rd_write_def lookup_fd_valid [OF assms(1) F] get_inode_def Let_def moved_def)
qed

section \<open>Appending at a block boundary\<close>

lemma lseek_boundary:
  assumes k: "fds_ok k" "valid_fd k fd" "itype (inodes (fs k) (fd_node k fd)) \<noteq> ''dir''"
    and size: "isize (inodes (fs k) (fd_node k fd)) = of_nat S" "x < S" "S \<le> BLOCK_SIZE * MAX_FILE_BLOCKS"
  shows "rd_lseek k fd (int x) p = Some (int x, moved k fd (fs k) (of_nat x))"
proof -
  have small: "x < 2 ^ 31" "S < 2 ^ 32" using size(2,3) by simp_all
  then have "(of_nat x :: 32 word) < of_nat S" using size(2) by (simp add: word_less_nat_alt unat_of_nat)
  moreover have "sint (of_nat x :: 32 word) = int x" using small(1) by (intro sint_small)
  moreover have "k\<lparr>fs := fs k\<rparr> = k" by simp
  ultimately show ?thesis
    using rd_lseek_eq [OF k(1), of fd "int x" p] fd_range [OF k(2)] k(2,3) size(1) by (simp add: Let_def moved_def)
qed

lemma rewind:
  assumes "fds_ok k" "writable_fd k fd" "isize (inodes s (fd_node k fd)) = of_nat S" "0 < S" "S \<le> BLOCK_SIZE * MAX_FILE_BLOCKS"
    and "node_step (fd_node k fd) (fs k) s"
  shows "rd_lseek (moved k fd s c) fd 0 p = Some (0, moved k fd s 0)"
proof -
  have V: "valid_fd k fd" using assms(2) by (simp add: writable_fd_def)
  have W: "writable_fd (moved k fd s c) fd" by (rule writable_moved [OF assms(2,6)])
  have "rd_lseek (moved k fd s c) fd (int 0) p = Some (int 0, moved (moved k fd s c) fd (fs (moved k fd s c)) (of_nat 0))"
    by (rule lseek_boundary [OF moved_ok [OF assms(1) V] _ _ _ assms(4,5)]) (use W assms(3) in \<open>auto simp: writable_fd_def\<close>)
  then show ?thesis by simp
qed

lemma append_moved:
  assumes k: "fds_ok k" "wf_blocks (fs k)" "counter_ok (fs k)" "at_end k fd buf b" "room_for (fs k) buf b N"
  obtains s where
    "rd_write k fd p (drop (BLOCK_SIZE * b) buf) (int (N - BLOCK_SIZE * b)) = Some (int (N - BLOCK_SIZE * b), moved k fd s (of_nat N))"
    "fds_ok (moved k fd s (of_nat N))" "wf_blocks s" "counter_ok s" "isize (inodes s (fd_node k fd)) = of_nat N" "holds s (fd_node k fd) buf N"
    "itype (inodes s (fd_node k fd)) \<noteq> ''dir''"
    "unat (free_blocks (fs k)) \<le> unat (free_blocks s) + ((N + 255) div BLOCK_SIZE - b + 66)"
    "\<And>c. N = BLOCK_SIZE * c \<Longrightarrow> at_end (moved k fd s (of_nat N)) fd buf c" "node_step (fd_node k fd) (fs k) s"
proof -
  have F: "valid_fd k fd" "itype (inodes (fs k) (fd_node k fd)) \<noteq> ''dir''" "access (inodes (fs k) (fd_node k fd)) \<noteq> RD"
    "status (fobj k 0 (nat fd)) \<noteq> RD" using k(4) by (simp_all add: at_end_def)
  obtain s where s: "rd_write k fd p (drop (BLOCK_SIZE * b) buf) (int (N - BLOCK_SIZE * b)) = Some (int (N - BLOCK_SIZE * b), moved k fd s (of_nat N))"
    "wf_blocks s" "counter_ok s" "isize (inodes s (fd_node k fd)) = of_nat N" "holds s (fd_node k fd) buf N"
    "itype (inodes s (fd_node k fd)) = itype (inodes (fs k) (fd_node k fd))"
    "access (inodes s (fd_node k fd)) = access (inodes (fs k) (fd_node k fd))"
    "unat (free_blocks (fs k)) \<le> unat (free_blocks s) + ((N + 255) div BLOCK_SIZE - b + 66)"
    "node_step (fd_node k fd) (fs k) s"
    using append_step [OF assms, of p] unfolding moved_def by metis
  have "at_end (moved k fd s (of_nat N)) fd buf c" if "N = BLOCK_SIZE * c" for c
    using F s(4-7) that by (simp add: at_end_def) (simp add: moved_def)
  then show thesis using that s(1-6,8,9) F(2) moved_ok [OF k(1) F(1)] by metis
qed

lemma holds_cong: "(\<And>x. x < w \<Longrightarrow> buf ! x = buf' ! x) \<Longrightarrow> holds s n buf w \<Longrightarrow> holds s n buf' w"
  by (simp add: holds_def)


section \<open>Writing from inside a block\<close>

lemma seg_off:
  assumes "b < 8" "j < BLOCK_SIZE"
  shows "unat (of_nat (BLOCK_SIZE * b + j) :: 32 word) div BLOCK_SIZE = b"
    "unat (of_nat (BLOCK_SIZE * b + j) :: 32 word) mod BLOCK_SIZE = j"
proof -
  have "BLOCK_SIZE * b + j < 2 ^ 32" using assms by simp
  then have "unat (of_nat (BLOCK_SIZE * b + j) :: 32 word) = BLOCK_SIZE * b + j"
    by (simp add: unat_of_nat del: of_nat_add of_nat_mult)
  then show "unat (of_nat (BLOCK_SIZE * b + j) :: 32 word) div BLOCK_SIZE = b"
    "unat (of_nat (BLOCK_SIZE * b + j) :: 32 word) mod BLOCK_SIZE = j" using assms(2) by simp_all
qed

text \<open>One block of the direct loop, from position \<open>j\<close>.\<close>

lemma write_direct_block:
  assumes c: "c < DATA_BLOCKS_NUM" "pointers (inodes s n) i = blk_addr s c" "blk_addr s c \<noteq> 0"
    and M: "M \<le> length d" "\<forall>x < M. d ! x \<noteq> NUL" "w < M" "j \<le> BLOCK_SIZE"
  defines "k \<equiv> min (BLOCK_SIZE - j) (M - w)"
  defines "s1 \<equiv> fill s n (BLOCK_SIZE * c + j) (take k (drop w d))"
  shows "write_direct s n d (int M) j i (Suc m) cur w =
    (if w + k = M then Some (Return (int M), cur + of_nat k, M, s1)
     else write_direct s1 n d (int M) j (Suc i) m (cur + of_nat k) (w + k))"
proof -
  have "write_block s n (blk_addr s c) d (int M) j (BLOCK_SIZE - j) cur w = Some (w + k = M, cur + of_nat k, w + k, s1)"
    using write_block_fill [OF c(1) M(1,2), of j "BLOCK_SIZE - j" w s n cur] M(3,4)
    unfolding Let_def k_def s1_def by simp
  then show ?thesis using c(2,3) by (simp add: Let_def)
qed

text \<open>A null pointer gets a block first; then the loop goes on as if the block had been there.\<close>

lemma write_direct_ensured:
  assumes "(if ptr_at s (Dir n i) = 0
      then Option.bind (allocate_data_block s (get_free_block_num_from_bitmap s))
             (\<lambda>(q, s'). Some (set_inode s' n ((\<lambda>ino q. ino\<lparr>pointers := (pointers ino)(i := q)\<rparr>) (inodes s' n) q)))
      else Some s) = Some s1"
    and "ptr_at s (Dir n i) = 0 \<Longrightarrow> get_free_block_num_from_bitmap s \<noteq> -1" "ptr_at s1 (Dir n i) \<noteq> 0"
  shows "write_direct s n d num_bytes j i (Suc m) cur w = write_direct s1 n d num_bytes j i (Suc m) cur w"
proof (cases "ptr_at s (Dir n i) = 0")
  case True
  then have "pointers (inodes s n) i = 0" "pointers (inodes s1 n) i \<noteq> 0" using assms(3) by simp_all
  then show ?thesis using assms(1,2) True by (simp add: Let_def)
next
  case False
  then show ?thesis using assms(1) by simp
qed

lemma write_inside:
  assumes wf: "wf_blocks s" and b: "b < 8" and c: "c < DATA_BLOCKS_NUM" "ptr_at s (Dir n b) = blk_addr s c"
    and M: "M \<le> length d" "\<forall>x < M. d ! x \<noteq> NUL" "0 < M" "j + M \<le> BLOCK_SIZE"
  shows "write_stages s n d (int M) (of_nat (BLOCK_SIZE * b + j)) =
    Some (int M, of_nat (BLOCK_SIZE * b + j) + of_nat M, fill s n (BLOCK_SIZE * c + j) (take M d))"
proof -
  have j: "j < BLOCK_SIZE" "j \<le> BLOCK_SIZE" using M(3,4) by simp_all
  obtain m where m: "8 - b = Suc m" using b by (cases "8 - b") auto
  have k: "min (BLOCK_SIZE - j) (M - 0) = M" using M(4) by simp
  have p: "pointers (inodes s n) b = blk_addr s c" using c(2) by simp
  note w = write_direct_block [OF c(1) p blk_addr_nonzero [OF wf_region [OF wf] c(1)] M(1-3) j(2), unfolded k]
  show ?thesis unfolding write_stages_def Let_def seg_off [OF b j(1)] m w by simp
qed

lemma write_over_edge:
  assumes wf: "wf_blocks s" and n: "n < MAX_NUM_FILE" and b: "b < 7" and nz: "ptr_at s (Dir n b) \<noteq> 0"
    and free: "ptr_at s (Dir n (Suc b)) = 0 \<Longrightarrow> get_free_block_num_from_bitmap s \<noteq> -1"
    and M: "M \<le> length d" "\<forall>x < M. d ! x \<noteq> NUL" and j: "j < BLOCK_SIZE" "BLOCK_SIZE - j < M" "M \<le> 2 * (BLOCK_SIZE - j)"
  obtains s2 c where "write_stages s n d (int M) (of_nat (BLOCK_SIZE * b + j)) =
      Some (int M, of_nat (BLOCK_SIZE * b + j) + of_nat M, s2)"
    "wf_blocks s2" "node_step n s s2" "c < DATA_BLOCKS_NUM" "ptr_at s2 (Dir n (Suc b)) = blk_addr s2 c"
    "\<And>t. t < M - (BLOCK_SIZE - j) \<Longrightarrow> file_byte s2 n (Suc b) (j + t) = d ! (BLOCK_SIZE - j + t)"
proof -
  let ?k = "BLOCK_SIZE - j" and ?l = "Dir n b" and ?l' = "Dir n (Suc b)"
  have l: "valid_loc ?l" "\<not> index_loc ?l" "node_of ?l = n" "valid_loc ?l'" "\<not> index_loc ?l'" "node_of ?l' = n" using n b by simp_all
  obtain c0 where c0: "c0 < DATA_BLOCKS_NUM" "ptr_at s ?l = blk_addr s c0" by (rule wf_blocksD [OF wf l(1) nz])
  define s0 where "s0 = fill s n (BLOCK_SIZE * c0 + j) (take ?k d)"
  have len0: "j + length (take ?k d) \<le> BLOCK_SIZE" using j(1) by simp
  note S0 = fill_step [OF wf l(1-3) c0 len0, folded s0_def]
  have F0: "bitmap s0 = bitmap s" "free_blocks s0 = free_blocks s" by (simp_all add: s0_def)
  let ?fb = "get_free_block_num_from_bitmap s0"
  have "?fb = get_free_block_num_from_bitmap s" by (simp only: get_free_block_num_from_bitmap_def F0)
  then have fb: "?fb \<noteq> -1" if "ptr_at s0 ?l' = 0" using that free S0(3) [OF l(4)] by simp
  obtain s1 c where s1: "(if ptr_at s0 ?l' = 0
      then Option.bind (allocate_data_block s0 ?fb)
             (\<lambda>(q, s'). Some (set_inode s' n ((\<lambda>ino q. ino\<lparr>pointers := (pointers ino)(Suc b := q)\<rparr>) (inodes s' n) q)))
      else Some s0) = Some s1"
    "wf_blocks s1" "node_step n s0 s1" "c < DATA_BLOCKS_NUM" "ptr_at s1 ?l' = blk_addr s1 c"
    by (rule ensure_inode_ptr [OF S0(1) l(4,6), of "\<lambda>ino q. ino\<lparr>pointers := (pointers ino)(Suc b := q)\<rparr>"]) (use fb in auto)
  define s2 where "s2 = fill s1 n (BLOCK_SIZE * c + j) (take (M - ?k) (drop ?k d))"
  have len: "length (take (M - ?k) (drop ?k d)) = M - ?k" using M(1) by simp
  have len2: "j + length (take (M - ?k) (drop ?k d)) \<le> BLOCK_SIZE" unfolding len using j by simp
  note S2 = fill_step [OF s1(2) l(4-6) s1(4,5) len2, folded s2_def]
  have k: "min ?k (M - 0) = ?k" "min ?k (M - ?k) = M - ?k" using j by simp_all
  obtain m where m: "8 - b = Suc (Suc m)" using b by (cases "8 - b"; cases "8 - b - 1") auto
  have p: "pointers (inodes s n) b = blk_addr s c0" "pointers (inodes s1 n) (Suc b) = blk_addr s1 c" using c0(2) s1(5) by simp_all
  have M0: "0 < M" "j \<le> BLOCK_SIZE" "?k \<noteq> M" "?k + (M - ?k) = M" using j by simp_all
  have nz1: "ptr_at s1 ?l' \<noteq> 0" using s1(5) blk_addr_nonzero [OF wf_region [OF s1(2)] s1(4)] by simp
  have step: "write_direct s0 n d (int M) j (Suc b) (Suc m) cur w = write_direct s1 n d (int M) j (Suc b) (Suc m) cur w" for cur w
    by (rule write_direct_ensured [OF s1(1) _ nz1]) (rule fb)
  note w1 = write_direct_block [OF c0(1) p(1) blk_addr_nonzero [OF wf_region [OF wf] c0(1)] M M0(1,2), unfolded k drop_0, folded s0_def]
    and w2 = write_direct_block [OF s1(4) p(2) blk_addr_nonzero [OF wf_region [OF s1(2)] s1(4)] M j(2) M0(2), unfolded k, folded s2_def]
  have b8: "b < 8" using b by simp
  have "(of_nat ?k :: 32 word) + of_nat (M - ?k) = of_nat M" using j(2) by (simp only: flip: of_nat_add) simp
  then have W: "write_stages s n d (int M) (of_nat (BLOCK_SIZE * b + j)) = Some (int M, of_nat (BLOCK_SIZE * b + j) + of_nat M, s2)"
    unfolding write_stages_def Let_def seg_off [OF b8 j(1)] m w1 add_0 step w2 M0(4) by (simp add: add.assoc M0(3))
  have "file_byte s2 n (Suc b) (j + t) = d ! (?k + t)" if t: "t < M - ?k" for t
  proof -
    have loc: "file_loc n (Suc b) = ?l'" using b by (simp add: file_loc_def)
    have "file_byte s2 n (Suc b) (j + t) = take (M - ?k) (drop ?k d) ! t"
      unfolding s2_def by (rule fill_file_byte) (use s1(4,5) S2(3) [OF l(4)] loc t len in \<open>simp_all add: s2_def\<close>)
    then show ?thesis using t M(1) by simp
  qed
  moreover have "ptr_at s2 ?l' = blk_addr s2 c" using S2(3) [OF l(4)] s1(5) by (simp add: s2_def)
  moreover have "node_step n s s2" using node_step_trans [OF node_step_trans [OF S0(2) s1(3)] S2(2)] .
  ultimately show thesis using that W S2(1) s1(4) by blast
qed

section \<open>Writing behind the first double indirect block\<close>

lemma write_double_region:
  assumes wf: "wf_blocks s" and n: "n < MAX_NUM_FILE" and h: "holds s n buf (BLOCK_SIZE * (72 + q))"
    and size: "isize (inodes s n) = of_nat (BLOCK_SIZE * (72 + q))" and q: "0 < q" "q < 4096"
    and M: "M \<le> length d" "\<forall>x < M. d ! x \<noteq> NUL" "0 < M" "M \<le> BLOCK_SIZE"
  obtains c where "c < DATA_BLOCKS_NUM" "ptr_at s (file_loc n (72 + q div 64)) = blk_addr s c"
    "write_stages s n d (int M) (of_nat (BLOCK_SIZE * (72 + q))) =
      Some (int M, of_nat (BLOCK_SIZE * (72 + q)) + of_nat M, fill s n (BLOCK_SIZE * c) (take M d))"
proof -
  let ?D = "Dbl n" and ?b = "72 + q div 64"
  have k: "q div 64 < 64" using q(2) by (simp add: less_mult_imp_div_less)
  have less: "q div 64 < q" using q(1) by simp
  have loc: "file_loc n ?b = Sub (Sub ?D 0) (q div 64)" using k by (simp add: file_loc_def)
  have l: "valid_loc ?D" "valid_loc (Sub ?D 0)" "valid_loc (Sub (Sub ?D 0) (q div 64))" using n k by simp_all
  have nz: "ptr_at s (Sub (Sub ?D 0) (q div 64)) \<noteq> 0"
    using holds_not_null [OF h, of ?b] q less unfolding loc [symmetric] by simp
  note nz1 = index_not_null [OF nz] and nz2 = index_not_null [OF index_not_null [OF nz]]
  obtain c where c: "c < DATA_BLOCKS_NUM" "ptr_at s (Sub (Sub ?D 0) (q div 64)) = blk_addr s c" by (rule wf_blocksD [OF wf l(3) nz])
  obtain c1 where c1: "c1 < DATA_BLOCKS_NUM" "ptr_at s (Sub ?D 0) = blk_addr s c1" by (rule wf_blocksD [OF wf l(2) nz1])
  obtain c2 where c2: "c2 < DATA_BLOCKS_NUM" "ptr_at s ?D = blk_addr s c2" by (rule wf_blocksD [OF wf l(1) nz2])
  have ld1: "load_index s (ptr_at s ?D) 0 = Some (ptr_at s (Sub ?D 0))"
    using load_index_ptr_at [OF l(2) c2(2,1) wf] c2(2) by simp
  have ld2: "load_index s (ptr_at s (Sub ?D 0)) (q div 64) = Some (ptr_at s (Sub (Sub ?D 0) (q div 64)))"
    using load_index_ptr_at [OF l(3) c1(2,1) wf] c1(2) by simp
  define s2 where "s2 = fill s n (BLOCK_SIZE * c) (take M d)"
  have kk: "min BLOCK_SIZE (M - 0) = M" using M(4) by simp
  have wb: "write_block s n (blk_addr s c) d (int M) 0 BLOCK_SIZE cur 0 = Some (True, cur + of_nat M, M, s2)" for cur
    using write_block_fill [OF c(1) M(1,2), of 0 BLOCK_SIZE 0 s n cur] M(3) unfolding Let_def kk s2_def by simp
  obtain m where m: "64 - q div 64 = Suc m" using k by (cases "64 - q div 64") auto
  have wi: "write_index s n (ptr_at s (Sub ?D 0)) d (int M) 0 (q div 64) (64 - q div 64) cur 0 =
      Some (Return (int M), cur + of_nat M, M, s2)" for cur
    unfolding m write_index.simps ld2 using nz c(2) wb by (simp add: Let_def del: ptr_at.simps)
  have wd: "write_double s n (ptr_at s ?D) d (int M) 0 q 0 64 cur 0 = Some (Return (int M), q div 64, cur + of_nat M, M, s2)" for cur
  proof -
    have "write_double s n (ptr_at s ?D) d (int M) 0 q 0 (Suc 63) cur 0 = Some (Return (int M), q div 64, cur + of_nat M, M, s2)"
      unfolding write_double.simps ld1 using nz1 wi by (simp add: Let_def del: ptr_at.simps)
    then show ?thesis by simp
  qed
  have bound: "BLOCK_SIZE * (72 + q) < 2 ^ 32" using q(2) by simp
  then have u: "unat (of_nat (BLOCK_SIZE * (72 + q)) :: 32 word) = BLOCK_SIZE * (72 + q)" by (simp add: unat_of_nat del: of_nat_mult of_nat_add)
  have seg: "BLOCK_SIZE * (72 + q) div BLOCK_SIZE = 72 + q" "BLOCK_SIZE * (72 + q) mod BLOCK_SIZE = 0" by simp_all
  have sizes: "8 - (72 + q) = 0" "72 + q - 8 - 64 = q" "\<not> 72 + q < 8 + 64" "8 + 64 \<le> 72 + q" "72 + q < 8 + 64 + 64 * 64" using q by simp_all
  have "write_double_stage s n d (int M) (72 + q) 0 cur 0 = Some (Return (int M), q div 64, cur + of_nat M, M, s2)" for cur
    using nz2 wd unfolding write_double_stage_def sizes(2) by (simp add: Let_def)
  moreover have at: "unat (isize (inodes s n)) div BLOCK_SIZE = 72 + q" "unat (isize (inodes s n)) mod BLOCK_SIZE = 0"
    unfolding size u seg by simp_all
  ultimately have "write_stages s n d (int M) (of_nat (BLOCK_SIZE * (72 + q))) =
      Some (int M, of_nat (BLOCK_SIZE * (72 + q)) + of_nat M, s2)"
    unfolding write_stages_def Let_def u seg sizes(1) write_direct.simps
    by (simp add: at sizes(3-5) q(2) del: of_nat_mult of_nat_add)
  then show thesis using that c loc by (simp add: s2_def)
qed

section \<open>Properties\<close>

text \<open>C1: A file is written piece by piece.  Through a descriptor at the end of a file of \<open>b\<close>
  whole blocks, up to the end of its single indirect blocks, \<^verbatim>\<open>rd_write\<close> of data without NUL
  bytes appends all of it, even when the data goes on through the double indirect blocks;
  afterwards any part of the file that starts at one of the first 73 block boundaries is
  reached by \<^verbatim>\<open>rd_lseek\<close> and read back exactly by \<^verbatim>\<open>rd_read\<close>.\<close>

theorem append_read_back:
  assumes "fds_ok k" "wf_blocks (fs k)" "counter_ok (fs k)" "at_end k fd old b" "length old = BLOCK_SIZE * b"
    "room_for (fs k) (old @ new) b (length (old @ new))"
  shows "\<exists>k1. rd_write k fd p new (int (length new)) = Some (int (length new), k1)
    \<and> isize (inodes (fs k1) (fd_node k fd)) = of_nat (length (old @ new))
    \<and> (\<forall>c N. c \<le> 72 \<and> BLOCK_SIZE * c < N \<and> N \<le> length (old @ new) \<and> N - BLOCK_SIZE * c \<le> READ_BUFFER_SIZE \<longrightarrow>
        (\<exists>k2 calls k3. rd_lseek k1 fd (int (BLOCK_SIZE * c)) p = Some (int (BLOCK_SIZE * c), k2)
          \<and> rd_read k2 fd (int (N - BLOCK_SIZE * c)) p = Some (int (N - BLOCK_SIZE * c), calls, k3)
          \<and> concat (map snd calls) = take (N - BLOCK_SIZE * c) (drop (BLOCK_SIZE * c) (old @ new))))"
proof -
  let ?buf = "old @ new" and ?n = "fd_node k fd"
  have old: "at_end k fd ?buf b"
    using assms(4,5) holds_cong [of "BLOCK_SIZE * b" old ?buf "fs k" ?n] by (simp add: at_end_def nth_append)
  have F: "valid_fd k fd" using assms(4) by (simp add: at_end_def)
  have R: "length ?buf \<le> BLOCK_SIZE * MAX_FILE_BLOCKS" "\<forall>x < length ?buf. ?buf ! x \<noteq> NUL"
    using assms(6) by (simp_all add: room_for_def)
  obtain s where s: "rd_write k fd p (drop (BLOCK_SIZE * b) ?buf) (int (length ?buf - BLOCK_SIZE * b)) =
      Some (int (length ?buf - BLOCK_SIZE * b), moved k fd s (of_nat (length ?buf)))"
    "fds_ok (moved k fd s (of_nat (length ?buf)))" "wf_blocks s" "counter_ok s" "isize (inodes s ?n) = of_nat (length ?buf)"
    "holds s ?n ?buf (length ?buf)" "itype (inodes s ?n) \<noteq> ''dir''"
    using append_moved [OF assms(1-3) old assms(6), of p] by metis
  define k1 where "k1 = moved k fd s (of_nat (length ?buf))"
  have k1: "fds_ok k1" "fs k1 = s" "valid_fd k1 fd" "fd_node k1 fd = ?n" using s(2) F by (simp_all add: k1_def)
  have read: "\<exists>k2 calls k3. rd_lseek k1 fd (int (BLOCK_SIZE * c)) p = Some (int (BLOCK_SIZE * c), k2)
      \<and> rd_read k2 fd (int (N - BLOCK_SIZE * c)) p = Some (int (N - BLOCK_SIZE * c), calls, k3)
      \<and> concat (map snd calls) = take (N - BLOCK_SIZE * c) (drop (BLOCK_SIZE * c) ?buf)"
    if c: "c \<le> 72" "BLOCK_SIZE * c < N" "N \<le> length ?buf" "N - BLOCK_SIZE * c \<le> READ_BUFFER_SIZE" for c N
  proof -
    define k2 where "k2 = moved k1 fd s (of_nat (BLOCK_SIZE * c))"
    have l: "rd_lseek k1 fd (int (BLOCK_SIZE * c)) p = Some (int (BLOCK_SIZE * c), k2)"
      unfolding k2_def k1(2) [symmetric]
      by (rule lseek_boundary [OF k1(1,3)]) (use k1(2,4) s(5,7) c R(1) in auto)
    have k2: "fds_ok k2" "fs k2 = s" "valid_fd k2 fd" "fd_node k2 fd = ?n" "cursor (fobj k2 0 (nat fd)) = of_nat (BLOCK_SIZE * c)"
      using moved_ok [OF k1(1,3)] k1(3,4) by (simp_all add: k2_def)
    have "holds s ?n ?buf N" using s(6) c(3) by (simp add: holds_def)
    then obtain calls rb where "rd_read k2 fd (int (N - BLOCK_SIZE * c)) p = Some (int (N - BLOCK_SIZE * c), calls,
       upd_fobj (k2\<lparr>read_buffer := rb\<rparr>) 0 (nat fd) ((fobj k2 0 (nat fd))\<lparr>cursor := of_nat N\<rparr>))"
      "concat (map snd calls) = take (N - BLOCK_SIZE * c) (drop (BLOCK_SIZE * c) ?buf)"
      using read_part [OF k2(1) _ k2(3,5), of "length ?buf" ?buf N p] k2(2,4) s(3,5,7) c R by auto
    then show ?thesis using l by blast
  qed
  have "drop (BLOCK_SIZE * b) ?buf = new" "length ?buf - BLOCK_SIZE * b = length new" using assms(5) by simp_all
  then have "rd_write k fd p new (int (length new)) = Some (int (length new), k1)" using s(1) by (simp add: k1_def)
  then show ?thesis using read s(5) k1(2) by auto
qed

text \<open>The sample file after writing whole blocks of letters.\<close>

lemma sample_written:
  assumes "0 < b" "b \<le> 80"
  obtains k1 where "rd_write sample_opened 0 p (replicate (BLOCK_SIZE * b) CHR ''a'') (int (BLOCK_SIZE * b)) = Some (int (BLOCK_SIZE * b), k1)"
    "fds_ok k1" "wf_blocks (fs k1)" "counter_ok (fs k1)" "at_end k1 0 (replicate (BLOCK_SIZE * b) CHR ''a'') b" "fd_node k1 0 = 1"
    "7700 \<le> unat (free_blocks (fs k1))"
proof -
  let ?a = "replicate (BLOCK_SIZE * b) CHR ''a''"
  have "fobj sample_opened 0 0 = \<lparr>inode_ptr = Some 1, status = RW, cursor = 0, pos = 0, usable = 1\<rparr>"
    by (simp add: sample_opened_def)
  then have at: "at_end sample_opened 0 ?a 0" by (simp add: at_end_def sample_file_def zero_inode_def)
  have div: "(BLOCK_SIZE * b + 255) div BLOCK_SIZE = b" by simp
  have free: "unat (free_blocks sample_fs) = 7930" by (simp add: sample_fs_def)
  have "room_for (fs sample_opened) ?a 0 (BLOCK_SIZE * b)"
    using assms by (simp add: room_for_def div free del: mult_Suc_right)
  from append_moved [OF sample_opened_ok(1) _ _ at this, of p] obtain s where s:
    "rd_write sample_opened 0 p ?a (int (BLOCK_SIZE * b)) = Some (int (BLOCK_SIZE * b), moved sample_opened 0 s (of_nat (BLOCK_SIZE * b)))"
    "fds_ok (moved sample_opened 0 s (of_nat (BLOCK_SIZE * b)))" "wf_blocks s" "counter_ok s"
    "at_end (moved sample_opened 0 s (of_nat (BLOCK_SIZE * b))) 0 ?a b"
    "7930 \<le> unat (free_blocks s) + (b + 66)"
    unfolding div using sample_counter free by auto
  show thesis by (rule that [OF s(1,2)]) (use s(3-6) assms in auto)
qed

theorem append_read_back_witness:
  "\<exists>k1 k2 k3 calls k4. rd_write sample_opened 0 7 (replicate 256 CHR ''a'') 256 = Some (256, k1)
    \<and> rd_write k1 0 7 ''bcd'' 3 = Some (3, k2) \<and> rd_lseek k2 0 256 7 = Some (256, k3)
    \<and> rd_read k3 0 2 7 = Some (2, calls, k4) \<and> concat (map snd calls) = ''bc''"
proof -
  obtain k1 where k1: "rd_write sample_opened 0 7 (replicate (BLOCK_SIZE * 1) CHR ''a'') (int (BLOCK_SIZE * 1)) = Some (int (BLOCK_SIZE * 1), k1)"
    "fds_ok k1" "wf_blocks (fs k1)" "counter_ok (fs k1)" "at_end k1 0 (replicate (BLOCK_SIZE * 1) CHR ''a'') 1"
    "7700 \<le> unat (free_blocks (fs k1))"
    by (rule sample_written [of 1 7]) simp_all
  let ?old = "replicate (BLOCK_SIZE * 1) CHR ''a''"
  have "(?old @ ''bcd'') ! x \<noteq> NUL" if "x < 259" for x
    using that by (auto simp: nth_append nth_Cons split: nat.splits)
  then have "room_for (fs k1) (?old @ ''bcd'') 1 (length (?old @ ''bcd''))" using k1(6) by (simp add: room_for_def)
  from append_read_back [OF k1(2-5) _ this, of 7] obtain k2 where k2: "rd_write k1 0 7 ''bcd'' 3 = Some (3, k2)"
    and r: "\<And>c N. c \<le> 72 \<Longrightarrow> BLOCK_SIZE * c < N \<Longrightarrow> N \<le> 259 \<Longrightarrow> N - BLOCK_SIZE * c \<le> READ_BUFFER_SIZE \<Longrightarrow>
        \<exists>k3 calls k4. rd_lseek k2 0 (int (BLOCK_SIZE * c)) 7 = Some (int (BLOCK_SIZE * c), k3)
          \<and> rd_read k3 0 (int (N - BLOCK_SIZE * c)) 7 = Some (int (N - BLOCK_SIZE * c), calls, k4)
          \<and> concat (map snd calls) = take (N - BLOCK_SIZE * c) (drop (BLOCK_SIZE * c) (?old @ ''bcd''))"
    by auto
  have "\<exists>k3 calls k4. rd_lseek k2 0 256 7 = Some (256, k3) \<and> rd_read k3 0 2 7 = Some (2, calls, k4)
      \<and> concat (map snd calls) = ''bc''"
    using r [of 1 258] by simp
  then show ?thesis using k1(1) k2 by auto
qed

text \<open>C14: Writing from inside a block loses data.  When the data of \<^verbatim>\<open>rd_write\<close> reaches the next
  block, it goes on there at the offset \<open>j\<close> the write had in its first block, not at its
  start, while the cursor and the size count the bytes without this gap.  The next write
  then begins inside the bytes just written and replaces them: the byte at \<open>x\<close>, which held
  a byte of the first write, holds one of the second, though both reported success.\<close>

theorem append_overwrites:
  assumes "fds_ok k" "wf_blocks (fs k)" "writable_fd k fd" "cursor (fobj k 0 (nat fd)) = of_nat (BLOCK_SIZE * b + j)"
    and "b < 7" "j < BLOCK_SIZE" "pointers (inodes (fs k) (fd_node k fd)) b \<noteq> 0" "get_free_block_num_from_bitmap (fs k) \<noteq> -1"
    and "NUL \<notin> set d1" "BLOCK_SIZE - j < length d1" "r = length d1 - (BLOCK_SIZE - j)" "r \<le> BLOCK_SIZE - j"
    and "NUL \<notin> set d2" "0 < length d2" "r + length d2 \<le> BLOCK_SIZE"
    and "j \<le> x" "x < j + r" "r \<le> x" "x < r + length d2"
  shows "\<exists>k1 k2. rd_write k fd p d1 (int (length d1)) = Some (int (length d1), k1)
    \<and> rd_write k1 fd p d2 (int (length d2)) = Some (int (length d2), k2)
    \<and> file_byte (fs k1) (fd_node k fd) (Suc b) x = d1 ! (BLOCK_SIZE - j + (x - j))
    \<and> file_byte (fs k2) (fd_node k fd) (Suc b) x = d2 ! (x - r)"
proof -
  let ?n = "fd_node k fd" and ?m1 = "length d1" and ?m2 = "length d2"
  have F: "valid_fd k fd" using assms(3) by (simp add: writable_fd_def)
  have n: "?n < MAX_NUM_FILE" using valid_fd_slot [OF assms(1) F] by simp
  have nn: "\<forall>y < ?m1. d1 ! y \<noteq> NUL" "\<forall>y < ?m2. d2 ! y \<noteq> NUL" using assms(9,13) nth_mem by metis+
  have nz: "ptr_at (fs k) (Dir ?n b) \<noteq> 0" and le: "?m1 \<le> 2 * (BLOCK_SIZE - j)" and b8: "Suc b < 8"
    using assms(5,7,11,12) by simp_all
  obtain s c where w: "write_stages (fs k) ?n d1 (int ?m1) (of_nat (BLOCK_SIZE * b + j)) =
      Some (int ?m1, of_nat (BLOCK_SIZE * b + j) + of_nat ?m1, s)"
    "wf_blocks s" "node_step ?n (fs k) s" "c < DATA_BLOCKS_NUM" "ptr_at s (Dir ?n (Suc b)) = blk_addr s c"
    "\<And>t. t < ?m1 - (BLOCK_SIZE - j) \<Longrightarrow> file_byte s ?n (Suc b) (j + t) = d1 ! (BLOCK_SIZE - j + t)"
    by (rule write_over_edge [OF assms(2) n assms(5) nz _ order_refl nn(1) assms(6,10) le]) (use assms(8) in auto)
  define k1 where "k1 = moved k fd s (of_nat (BLOCK_SIZE * b + j) + of_nat ?m1)"
  have w1: "rd_write k fd p d1 (int ?m1) = Some (int ?m1, k1)"
    unfolding k1_def by (rule rd_write_moved [OF assms(1,3)]) (use w(1) assms(4) in simp)
  have K1: "fds_ok k1" "writable_fd k1 fd" "fs k1 = s" "fd_node k1 fd = ?n"
    using moved_ok [OF assms(1) F] writable_moved [OF assms(3) w(3)] by (simp_all add: k1_def)
  have "BLOCK_SIZE * b + j + ?m1 = BLOCK_SIZE * Suc b + r" using assms(6,10,11) by simp
  then have cur: "cursor (fobj k1 0 (nat fd)) = of_nat (BLOCK_SIZE * Suc b + r)"
    by (simp only: k1_def moved_simps flip: of_nat_add)
  define s2 where "s2 = fill s ?n (BLOCK_SIZE * c + r) (take ?m2 d2)"
  define k2 where "k2 = moved k1 fd s2 (of_nat (BLOCK_SIZE * Suc b + r) + of_nat ?m2)"
  have w2: "rd_write k1 fd p d2 (int ?m2) = Some (int ?m2, k2)"
    unfolding k2_def s2_def
    by (rule rd_write_moved [OF K1(1,2)])
      (unfold K1(3,4) cur, rule write_inside [OF w(2) b8 w(4,5) order_refl nn(2) assms(14,15)])
  have loc: "file_loc ?n (Suc b) = Dir ?n (Suc b)" using b8 by (simp add: file_loc_def)
  have l: "valid_loc (Dir ?n (Suc b))" "\<not> index_loc (Dir ?n (Suc b))" "node_of (Dir ?n (Suc b)) = ?n" using n b8 by simp_all
  have len: "r + length (take ?m2 d2) \<le> BLOCK_SIZE" using assms(15) by simp
  have "file_byte s2 ?n (Suc b) (r + (x - r)) = take ?m2 d2 ! (x - r)"
    unfolding s2_def
    by (rule fill_file_byte) (use w(4,5) loc fill_step(3) [OF w(2) l w(4,5) len l(1)] assms(18,19) in simp_all)
  moreover have "file_byte s ?n (Suc b) (j + (x - j)) = d1 ! (BLOCK_SIZE - j + (x - j))"
    using w(6) [of "x - j"] assms(11,16,17) by simp
  moreover have "fs k2 = s2" by (simp add: k2_def)
  ultimately show ?thesis using w1 w2 K1(3) assms(16,18) by (intro exI [of _ k1] exI [of _ k2]) simp
qed

lemma at_end_writable: "at_end k fd buf b \<Longrightarrow> writable_fd k fd"
  by (simp add: at_end_def writable_fd_def)

theorem append_overwrites_witness:
  "\<exists>k1 k2 k3. rd_write k1 0 7 (replicate 256 CHR ''b'') 256 = Some (256, k2) \<and> rd_write k2 0 7 ''c'' 1 = Some (1, k3)
    \<and> file_byte (fs k2) 1 1 128 = CHR ''b'' \<and> file_byte (fs k3) 1 1 128 = CHR ''c''"
proof -
  obtain k0 where k0: "fds_ok k0" "wf_blocks (fs k0)" "counter_ok (fs k0)"
    "at_end k0 0 (replicate (BLOCK_SIZE * 1) CHR ''a'') 1" "fd_node k0 0 = 1" "7700 \<le> unat (free_blocks (fs k0))"
    by (rule sample_written [of 1 7]) simp_all
  define k1 where "k1 = moved k0 0 (fs k0) (of_nat (BLOCK_SIZE * 0 + 128))"
  have W: "writable_fd k0 0" by (rule at_end_writable [OF k0(4)])
  then have V: "valid_fd k0 0" by (simp add: writable_fd_def)
  have K1: "fds_ok k1" "writable_fd k1 0" "fs k1 = fs k0" "fd_node k1 0 = 1" "cursor (fobj k1 0 (nat 0)) = of_nat (BLOCK_SIZE * 0 + 128)"
    using moved_ok [OF k0(1) V] writable_moved [OF W node_step_refl] k0(5) moved_simps(2) [of k0 0] by (simp_all add: k1_def)
  have "holds (fs k0) 1 (replicate (BLOCK_SIZE * 1) CHR ''a'') (BLOCK_SIZE * 1)" using k0(4,5) by (simp add: at_end_def)
  from holdsD [OF this, of 0 0] have nz: "pointers (inodes (fs k1) (fd_node k1 0)) 0 \<noteq> 0"
    using K1(3,4) by (simp add: file_loc_def)
  have fb: "get_free_block_num_from_bitmap (fs k1) \<noteq> -1" using enough_free [OF k0(3)] k0(6) K1(3) by simp
  have "\<exists>k2 k3. rd_write k1 0 7 (replicate 256 CHR ''b'') (int (length (replicate 256 CHR ''b''))) =
        Some (int (length (replicate 256 CHR ''b'')), k2)
      \<and> rd_write k2 0 7 ''c'' (int (length ''c'')) = Some (int (length ''c''), k3)
      \<and> file_byte (fs k2) (fd_node k1 0) (Suc 0) 128 = replicate 256 CHR ''b'' ! (BLOCK_SIZE - 128 + (128 - 128))
      \<and> file_byte (fs k3) (fd_node k1 0) (Suc 0) 128 = ''c'' ! (128 - 128)"
    by (rule append_overwrites [OF K1(1) _ K1(2,5) _ _ nz fb]) (use k0(2) K1(3) in simp_all)
  then show ?thesis using K1(4) by auto
qed

text \<open>C15: Behind the first of the double indirect blocks an append goes to the wrong place.  When the
  file ends at block \<open>72 + q\<close>, \<open>0 < q\<close>, \<^verbatim>\<open>rd_write\<close> starts at block \<open>72 + q div 64\<close>, which holds
  contents of the file: they are replaced by the data, although it reports success and
  moves the cursor and the size as for an append.\<close>

theorem double_append_overwrites:
  assumes "fds_ok k" "wf_blocks (fs k)" "at_end k fd old (72 + q)" "0 < q" "q < 4096"
    and "NUL \<notin> set d" "0 < length d" "length d \<le> BLOCK_SIZE" "x < length d"
  shows "\<exists>k1. rd_write k fd p d (int (length d)) = Some (int (length d), k1)
    \<and> 72 + q div 64 < 72 + q
    \<and> file_byte (fs k) (fd_node k fd) (72 + q div 64) x = old ! (BLOCK_SIZE * (72 + q div 64) + x)
    \<and> file_byte (fs k1) (fd_node k fd) (72 + q div 64) x = d ! x
    \<and> isize (inodes (fs k1) (fd_node k fd)) = of_nat (BLOCK_SIZE * (72 + q) + length d)"
proof -
  let ?n = "fd_node k fd" and ?b = "72 + q div 64"
  have E: "valid_fd k fd" "cursor (fobj k 0 (nat fd)) = of_nat (BLOCK_SIZE * (72 + q))"
    "isize (inodes (fs k) ?n) = of_nat (BLOCK_SIZE * (72 + q))" "holds (fs k) ?n old (BLOCK_SIZE * (72 + q))"
    using assms(3) by (simp_all add: at_end_def)
  have n: "?n < MAX_NUM_FILE" using valid_fd_slot [OF assms(1) E(1)] by simp
  have nn: "\<forall>y < length d. d ! y \<noteq> NUL" using assms(6) nth_mem by metis
  obtain c where c: "c < DATA_BLOCKS_NUM" "ptr_at (fs k) (file_loc ?n ?b) = blk_addr (fs k) c"
    "write_stages (fs k) ?n d (int (length d)) (of_nat (BLOCK_SIZE * (72 + q))) =
      Some (int (length d), of_nat (BLOCK_SIZE * (72 + q)) + of_nat (length d), fill (fs k) ?n (BLOCK_SIZE * c) (take (length d) d))"
    by (rule write_double_region [OF assms(2) n E(4,3) assms(4,5) order_refl nn assms(7,8)])
  define s where "s = fill (fs k) ?n (BLOCK_SIZE * c + 0) (take (length d) d)"
  define k1 where "k1 = moved k fd s (of_nat (BLOCK_SIZE * (72 + q)) + of_nat (length d))"
  have w: "rd_write k fd p d (int (length d)) = Some (int (length d), k1)"
    unfolding k1_def s_def
    by (rule rd_write_moved [OF assms(1) at_end_writable [OF assms(3)]]) (unfold E(2) add_0_right, rule c(3))
  have b: "?b < MAX_FILE_BLOCKS" "q div 64 < q" using assms(4,5) by (simp_all add: less_mult_imp_div_less)
  note loc = file_loc_props [OF n b(1)]
  have len: "0 + length (take (length d) d) \<le> BLOCK_SIZE" using assms(8) by simp
  have "file_byte s ?n ?b (0 + x) = take (length d) d ! x"
    unfolding s_def by (rule fill_file_byte [OF c(1,2)]) (use fill_step(3) [OF assms(2) loc c(1,2) len loc(1)] assms(9) in simp_all)
  moreover have "BLOCK_SIZE * ?b + x < BLOCK_SIZE * (72 + q)" using b(2) assms(8,9) by simp
  then have "file_byte (fs k) ?n ?b x = old ! (BLOCK_SIZE * ?b + x)"
    using holdsD [OF E(4) b(1)] assms(8,9) by simp
  moreover have "isize (inodes s ?n) = of_nat (BLOCK_SIZE * (72 + q) + length d)"
    by (simp add: s_def E(3))
  moreover have "fs k1 = s" by (simp add: k1_def)
  ultimately show ?thesis using w b(2) by auto
qed

theorem double_append_overwrites_witness:
  "\<exists>k1 k2. rd_write sample_opened 0 7 (replicate 18688 CHR ''a'') 18688 = Some (18688, k1)
    \<and> rd_write k1 0 7 ''b'' 1 = Some (1, k2)
    \<and> file_byte (fs k1) 1 72 0 = CHR ''a'' \<and> file_byte (fs k2) 1 72 0 = CHR ''b''"
proof -
  obtain k1 where k1: "rd_write sample_opened 0 7 (replicate (BLOCK_SIZE * 73) CHR ''a'') (int (BLOCK_SIZE * 73)) = Some (int (BLOCK_SIZE * 73), k1)"
    "fds_ok k1" "wf_blocks (fs k1)" "at_end k1 0 (replicate (BLOCK_SIZE * 73) CHR ''a'') 73" "fd_node k1 0 = 1"
    by (rule sample_written [of 73 7]) simp_all
  have at: "at_end k1 0 (replicate (BLOCK_SIZE * 73) CHR ''a'') (72 + 1)" using k1(4) by simp
  show ?thesis using double_append_overwrites [OF k1(2,3) at, of "''b''" 0 7] k1(1,5) by auto
qed
end
