(* ===== verification/Stale.thy ===== *)
theory Stale
  imports Append
begin

text \<open>
  Sizes and contents drift apart.  \<^verbatim>\<open>rd_write\<close> adds to the size of a file also when it
  overwrites, so the size can exceed the bytes the file has; \<^verbatim>\<open>rd_read\<close> then finds fewer
  bytes than the size promises, and hands what an earlier read left in its buffer to the
  user.
\<close>

section \<open>A read that runs out of bytes\<close>

text \<open>What is left of a block after its NUL bytes are dropped.\<close>

definition payload :: "filesys_struct \<Rightarrow> nat \<Rightarrow> nat \<Rightarrow> string" where
  "payload s a m = filter (\<lambda>c. c \<noteq> NUL) (map (data_blocks s) [a..<a + m])"

lemma payload_Suc: "payload s a (Suc m) =
    (if data_blocks s a \<noteq> NUL then data_blocks s a # payload s (Suc a) m else payload s (Suc a) m)"
proof -
  have "[a..<a + Suc m] = a # [Suc a..<Suc a + m]" by (simp add: upt_conv_Cons del: upt_Suc)
  then show ?thesis by (simp add: payload_def del: upt_Suc)
qed

lemma read_block_payload:
  assumes c: "c < DATA_BLOCKS_NUM"
  shows "j + m \<le> BLOCK_SIZE \<Longrightarrow> int (w + length (payload s (BLOCK_SIZE * c + j) m)) < to_read \<Longrightarrow> to_read \<le> int READ_BUFFER_SIZE \<Longrightarrow>
    read_block s (blk_addr s c) to_read j m cur w rb =
      (let cs = payload s (BLOCK_SIZE * c + j) m in Some (cur + of_nat (length cs), w + length cs, upd_region rb w cs))"
proof (induction m arbitrary: j cur w rb)
  case 0
  then show ?case by (simp add: payload_def)
next
  case (Suc m)
  have ld: "load_char s (ptr_off s (blk_addr s c) + j) = Some (data_blocks s (BLOCK_SIZE * c + j))"
    using load_char_blk [OF c, of j s] Suc.prems(1) by simp
  show ?case
  proof (cases "data_blocks s (BLOCK_SIZE * c + j) = NUL")
    case True
    then show ?thesis using ld Suc.IH [of "Suc j" w cur rb] Suc.prems by (simp add: payload_Suc)
  next
    case False
    then have "w < READ_BUFFER_SIZE" "int (w + 1) \<noteq> to_read" using Suc.prems by (simp_all add: payload_Suc)
    then show ?thesis
      using False ld Suc.IH [of "Suc j" "w + 1" "cur + 1" "rb(w := data_blocks s (BLOCK_SIZE * c + j))"] Suc.prems
      by (simp add: payload_Suc Let_def upd_region_Cons algebra_simps del: fun_upd_apply)
  qed
qed

lemma read_direct_nulls:
  assumes "\<And>l. i \<le> l \<Longrightarrow> l < i + n \<Longrightarrow> pointers ino l = 0" "int w \<noteq> to_read"
  shows "read_direct s ino to_read j i n cur w rb = Some (cur, w, rb)"
  using assms by (induction n arbitrary: i) auto

text \<open>A file whose bytes all lie in its first block.\<close>

lemma read_stages_short:
  assumes wf: "wf_blocks s" and c: "c < DATA_BLOCKS_NUM" "pointers ino 0 = blk_addr s c"
    and null: "\<And>i. 0 < i \<Longrightarrow> i < 8 \<Longrightarrow> pointers ino i = 0"
    and M: "length (payload s (BLOCK_SIZE * c) BLOCK_SIZE) < M" "M \<le> READ_BUFFER_SIZE"
  shows "read_stages s ino (int M) 0 rb =
    (let cs = payload s (BLOCK_SIZE * c) BLOCK_SIZE in Some (of_nat (length cs), length cs, upd_region rb 0 cs))"
proof -
  define cs where "cs = payload s (BLOCK_SIZE * c) BLOCK_SIZE"
  have len: "length cs \<le> BLOCK_SIZE" using length_filter_le [of "\<lambda>c. c \<noteq> NUL" "map (data_blocks s) [BLOCK_SIZE * c..<BLOCK_SIZE * c + BLOCK_SIZE]"]
    by (simp add: cs_def payload_def del: upt_Suc)
  have nz: "blk_addr s c \<noteq> 0" by (rule blk_addr_nonzero [OF wf_region [OF wf] c(1)])
  have rb: "read_block s (blk_addr s c) (int M) 0 BLOCK_SIZE 0 0 rb = Some (of_nat (length cs), length cs, upd_region rb 0 cs)"
    using read_block_payload [OF c(1), of 0 BLOCK_SIZE 0 s "int M" 0 rb] M by (simp add: cs_def Let_def)
  have ne: "int (length cs) \<noteq> int M" using M(1) by (simp add: cs_def)
  have "read_direct s ino (int M) 0 0 (Suc 7) 0 0 rb = Some (of_nat (length cs), length cs, upd_region rb 0 cs)"
    unfolding read_direct.simps using rb nz c(2) ne read_direct_nulls [of 1 7 ino "length cs" "int M"] null by simp
  moreover have "Suc 7 = 8" by simp
  ultimately have d: "read_direct s ino (int M) 0 0 8 0 0 rb = Some (of_nat (length cs), length cs, upd_region rb 0 cs)" by metis
  have u: "unat (of_nat (length cs) :: 32 word) div BLOCK_SIZE < 8" using len by (simp add: unat_of_nat)
  have z: "unat (0 :: 32 word) div BLOCK_SIZE = 0" "unat (0 :: 32 word) mod BLOCK_SIZE = 0" by simp_all
  have F: "(8 \<le> unat (of_nat (length cs) :: 32 word) div BLOCK_SIZE) = False"
    "(72 \<le> unat (of_nat (length cs) :: 32 word) div BLOCK_SIZE) = False" using u by simp_all
  show ?thesis
    unfolding read_stages_def Let_def z cs_def [symmetric] diff_zero d Option.bind.bind_lunit case_prod_conv F by (simp add: F)
qed


section \<open>Overwriting\<close>

lemma write_first_block:
  assumes wf: "wf_blocks s" and n: "n < MAX_NUM_FILE" and null: "\<forall>i < 8. pointers (inodes s n) i = 0"
    and free: "get_free_block_num_from_bitmap s \<noteq> -1" and d: "NUL \<notin> set d" "0 < length d" "length d \<le> BLOCK_SIZE"
  obtains s1 c where "write_stages s n d (int (length d)) 0 = Some (int (length d), of_nat (length d), fill s1 n (BLOCK_SIZE * c) d)"
    "wf_blocks s1" "node_step n s s1" "c < DATA_BLOCKS_NUM" "ptr_at s1 (Dir n 0) = blk_addr s1 c"
    "\<And>i. 0 < i \<Longrightarrow> i < 8 \<Longrightarrow> pointers (inodes s1 n) i = 0" "\<And>x. x div BLOCK_SIZE = c \<Longrightarrow> data_blocks s1 x = NUL"
    "isize (inodes s1 n) = isize (inodes s n)"
proof -
  let ?l = "Dir n 0" and ?fb = "get_free_block_num_from_bitmap s"
  have l: "valid_loc ?l" "node_of ?l = n" using n by simp_all
  have z: "ptr_at s ?l = 0" using null by simp
  obtain s1 c where s1: "(if ptr_at s ?l = 0
      then Option.bind (allocate_data_block s ?fb)
             (\<lambda>(q, s'). Some (set_inode s' n ((\<lambda>ino q. ino\<lparr>pointers := (pointers ino)(0 := q)\<rparr>) (inodes s' n) q)))
      else Some s) = Some s1"
    "wf_blocks s1" "node_step n s s1" "c < DATA_BLOCKS_NUM" "ptr_at s1 ?l = blk_addr s1 c" "ptr_at s ?l = 0 \<Longrightarrow> attached s ?l c s1"
    by (rule ensure_inode_ptr [OF wf l, of "\<lambda>ino q. ino\<lparr>pointers := (pointers ino)(0 := q)\<rparr>"]) (use free in auto)
  note A = attachedD [OF s1(6) [OF z]]
  have other: "pointers (inodes s1 n) i = 0" if "0 < i" "i < 8" for i
    using A(7) [of "Dir n i"] n null that by simp
  have nz: "ptr_at s1 ?l \<noteq> 0" using s1(5) blk_addr_nonzero [OF wf_region [OF s1(2)] s1(4)] by simp
  have nn: "\<forall>x < length d. d ! x \<noteq> NUL" using d(1) nth_mem by metis
  note w = write_direct_ensured [OF s1(1) _ nz]
  have start: "(0 :: 32 word) = of_nat (BLOCK_SIZE * 0 + 0)" by simp
  have seg: "unat (0 :: 32 word) div BLOCK_SIZE = 0" by simp
  have eight: "8 - (0 :: nat) = Suc 7" by simp
  have "write_stages s n d (int (length d)) 0 = write_stages s1 n d (int (length d)) 0"
    unfolding write_stages_def Let_def seg eight by (subst w) (use free in simp_all)
  also have "\<dots> = Some (int (length d), of_nat (length d), fill s1 n (BLOCK_SIZE * c + 0) d)"
    using write_inside [OF s1(2) _ s1(4,5) order_refl nn d(2), of 0] d(3) by simp
  finally show thesis using that s1(2-5) other A(6) A(11) [of n] by simp
qed

text \<open>The first block after the two writes.\<close>

lemma payload_overwritten:
  assumes zero: "\<And>x. x div BLOCK_SIZE = c \<Longrightarrow> data_blocks s x = NUL"
    and d: "NUL \<notin> set d1" "NUL \<notin> set d2" "length d2 \<le> length d1" "length d1 \<le> BLOCK_SIZE"
  shows "payload (fill (fill s n (BLOCK_SIZE * c) d1) n (BLOCK_SIZE * c) d2) (BLOCK_SIZE * c) BLOCK_SIZE = d2 @ drop (length d2) d1"
proof -
  let ?s = "fill (fill s n (BLOCK_SIZE * c) d1) n (BLOCK_SIZE * c) d2"
  have "data_blocks s (BLOCK_SIZE * c + i) = NUL" if "i < BLOCK_SIZE" for i by (rule zero) (use that in simp)
  then have "map (data_blocks ?s) [BLOCK_SIZE * c..<BLOCK_SIZE * c + BLOCK_SIZE] =
      (d2 @ drop (length d2) d1) @ replicate (BLOCK_SIZE - length d1) NUL"
    using d(3,4) by (intro nth_equalityI) (auto simp: upd_region_def nth_append simp del: upt_Suc)
  moreover have zeros: "filter (\<lambda>c. c \<noteq> NUL) (replicate m NUL) = []" for m by (simp add: filter_replicate)
  moreover have "filter (\<lambda>c. c \<noteq> NUL) (d2 @ drop (length d2) d1) = d2 @ drop (length d2) d1"
    unfolding filter_id_conv using d(1,2) by (auto dest: in_set_dropD)
  ultimately show ?thesis
    unfolding payload_def filter_append [of _ "d2 @ drop (length d2) d1"] by (simp only: append_Nil2 filter_append)
qed

text \<open>A byte the user gets although the file does not have it: what \<^verbatim>\<open>read_buffer\<close> held before,
  of which only the first four bytes were cleared.\<close>

definition stale :: "kernel \<Rightarrow> nat \<Rightarrow> char" where
  "stale k x = (if x < 4 then NUL else read_buffer k x)"

lemma read_short:
  assumes k: "fds_ok k" "wf_blocks (fs k)" "valid_fd k fd" "cursor (fobj k 0 (nat fd)) = 0"
  defines "n \<equiv> fd_node k fd"
  assumes n: "itype (inodes (fs k) n) \<noteq> ''dir''" "c < DATA_BLOCKS_NUM" "pointers (inodes (fs k) n) 0 = blk_addr (fs k) c"
      "\<And>i. 0 < i \<Longrightarrow> i < 8 \<Longrightarrow> pointers (inodes (fs k) n) i = 0"
    and cs: "payload (fs k) (BLOCK_SIZE * c) BLOCK_SIZE = cs" "length cs < M" "M \<le> READ_BUFFER_SIZE" "of_nat M \<le> isize (inodes (fs k) n)"
  shows "\<exists>calls k1. rd_read k fd (int M) p = Some (int (length cs), calls, k1)
    \<and> concat (map snd calls) = cs @ map (stale k) [length cs..<M]"
proof -
  note slot = valid_fd_slot [OF k(1,3), folded n_def]
  let ?rb0 = "upd_region (read_buffer k) 0 (replicate 4 NUL)"
  have r: "read_stages (fs k) (inodes (fs k) n) (int M) 0 ?rb0 = Some (of_nat (length cs), length cs, upd_region ?rb0 0 cs)"
    using read_stages_short [OF k(2) n(2,3) n(4), of M ?rb0] cs(1-3) by (simp add: Let_def)
  have "rd_read k fd (int M) p = Some (int (length cs), copy_chunks (upd_region ?rb0 0 cs) 0 (int M),
      upd_fobj (k\<lparr>read_buffer := upd_region ?rb0 0 cs\<rparr>) 0 (nat fd) ((fobj k 0 (nat fd))\<lparr>cursor := of_nat (length cs)\<rparr>))"
    using slot n(1) r k(4) cs(3,4) by (simp add: rd_read_def lookup_fd_valid [OF k(1,3)] get_inode_def Let_def)
  moreover have "concat (map snd (copy_chunks (upd_region ?rb0 0 cs) 0 (int M))) = map (upd_region ?rb0 0 cs) [0..<M]"
    using copy_chunks_all [of "int M" "upd_region ?rb0 0 cs" 0] by simp
  moreover have "map (upd_region ?rb0 0 cs) [0..<M] = cs @ map (stale k) [length cs..<M]"
    using cs(2) by (intro nth_equalityI) (auto simp: nth_append upd_region_def stale_def)
  ultimately show ?thesis by metis
qed

section \<open>Properties\<close>

text \<open>C16: Overwriting makes a file grow, and reading it hands out what other reads left behind.  In an
  empty file \<^verbatim>\<open>rd_write\<close> stores \<open>d1\<close>; after \<^verbatim>\<open>rd_lseek\<close> to the start it replaces the first
  bytes by \<open>d2\<close>.  The size is now the sum of both lengths; reading this many bytes returns
  the length of \<open>d1\<close>, but the user gets, behind the contents of the file, as many bytes of the
  kernel's \<^verbatim>\<open>read_buffer\<close> as \<open>d2\<close> has, whichever file they were read from.\<close>

theorem overwrite_leaks:
  assumes "fds_ok k" "wf_blocks (fs k)" "writable_fd k fd" "cursor (fobj k 0 (nat fd)) = 0"
    and "isize (inodes (fs k) (fd_node k fd)) = 0" "\<forall>i < 8. pointers (inodes (fs k) (fd_node k fd)) i = 0"
    and "get_free_block_num_from_bitmap (fs k) \<noteq> -1"
    and "NUL \<notin> set d1" "NUL \<notin> set d2" "0 < length d2" "length d2 \<le> length d1" "length d1 \<le> BLOCK_SIZE"
  shows "\<exists>k1 k2 k3 k4 calls k5. rd_write k fd p d1 (int (length d1)) = Some (int (length d1), k1)
    \<and> rd_lseek k1 fd 0 p = Some (0, k2) \<and> rd_write k2 fd p d2 (int (length d2)) = Some (int (length d2), k3)
    \<and> isize (inodes (fs k3) (fd_node k fd)) = of_nat (length d1 + length d2)
    \<and> rd_lseek k3 fd 0 p = Some (0, k4)
    \<and> rd_read k4 fd (int (length d1 + length d2)) p = Some (int (length d1), calls, k5)
    \<and> concat (map snd calls) = d2 @ drop (length d2) d1 @ map (stale k) [length d1..<length d1 + length d2]"
proof -
  let ?n = "fd_node k fd" and ?m1 = "length d1" and ?m2 = "length d2"
  have F: "valid_fd k fd" using assms(3) by (simp add: writable_fd_def)
  have n: "?n < MAX_NUM_FILE" using valid_fd_slot [OF assms(1) F] by simp
  have pos: "0 < ?m1" "?m1 + ?m2 \<le> BLOCK_SIZE * MAX_FILE_BLOCKS" "?m1 \<le> BLOCK_SIZE * MAX_FILE_BLOCKS" using assms(10-12) by linarith+
  have l: "valid_loc (Dir ?n 0)" "\<not> index_loc (Dir ?n 0)" "node_of (Dir ?n 0) = ?n" using n by simp_all
  obtain t c where w: "write_stages (fs k) ?n d1 (int ?m1) 0 = Some (int ?m1, of_nat ?m1, fill t ?n (BLOCK_SIZE * c) d1)"
    and T: "wf_blocks t" "node_step ?n (fs k) t" "c < DATA_BLOCKS_NUM" "ptr_at t (Dir ?n 0) = blk_addr t c"
      "\<And>i. 0 < i \<Longrightarrow> i < 8 \<Longrightarrow> pointers (inodes t ?n) i = 0" "\<And>x. x div BLOCK_SIZE = c \<Longrightarrow> data_blocks t x = NUL"
      "isize (inodes t ?n) = isize (inodes (fs k) ?n)"
    by (rule write_first_block [OF assms(2) n assms(6-8) pos(1) assms(12)]) blast
  define s1 s2 where "s1 = fill t ?n (BLOCK_SIZE * c + 0) d1" and "s2 = fill s1 ?n (BLOCK_SIZE * c + 0) d2"
  have len: "0 + length d1 \<le> BLOCK_SIZE" "0 + length d2 \<le> BLOCK_SIZE" using assms(11,12) by simp_all
  note S1 = fill_step [OF T(1) l T(3,4) len(1), folded s1_def]
  have p1: "ptr_at s1 (Dir ?n 0) = blk_addr s1 c" using S1(3) [OF l(1)] T(4) by (simp add: s1_def)
  note S2 = fill_step [OF S1(1) l T(3) p1 len(2), folded s2_def]
  have N: "node_step ?n (fs k) s1" "node_step ?n (fs k) s2"
    using node_step_trans [OF T(2) S1(2)] node_step_trans [OF node_step_trans [OF T(2) S1(2)] S2(2)] by simp_all
  have z: "isize (inodes s1 ?n) = of_nat ?m1" "isize (inodes s2 ?n) = of_nat (?m1 + ?m2)"
    using T(7) assms(5) by (simp_all add: s1_def s2_def)
  have w1: "rd_write k fd p d1 (int ?m1) = Some (int ?m1, moved k fd s1 (of_nat ?m1))"
    by (rule rd_write_moved [OF assms(1,3)]) (use w assms(4) in \<open>simp add: s1_def\<close>)
  have nn: "\<forall>y < ?m2. d2 ! y \<noteq> NUL" using assms(9) nth_mem by metis
  note K = moved_ok [OF assms(1) F] and W = writable_moved [OF assms(3)]
  have "write_stages s1 ?n d2 (int ?m2) 0 = Some (int ?m2, of_nat ?m2, s2)"
    using write_inside [OF S1(1) _ T(3) p1 order_refl nn assms(10) len(2)] by (simp add: s2_def)
  then have "rd_write (moved k fd s1 0) fd p d2 (int ?m2) = Some (int ?m2, moved (moved k fd s1 0) fd s2 (of_nat ?m2))"
    by (intro rd_write_moved [OF K W [OF N(1)]]) simp
  then have w2: "rd_write (moved k fd s1 0) fd p d2 (int ?m2) = Some (int ?m2, moved k fd s2 (of_nat ?m2))" by simp
  let ?k = "moved k fd s2 0" and ?cs = "d2 @ drop ?m2 d1"
  have V: "valid_fd ?k fd" "itype (inodes s2 ?n) \<noteq> ''dir''" using W [OF N(2), of 0] by (simp_all add: writable_fd_def)
  have cs: "payload s2 (BLOCK_SIZE * c) BLOCK_SIZE = ?cs" "length ?cs = ?m1"
    using payload_overwritten [OF T(6) assms(8,9,11,12)] assms(11) by (simp_all add: s2_def s1_def)
  have p2: "pointers (inodes s2 ?n) 0 = blk_addr s2 c" "\<And>i. 0 < i \<Longrightarrow> i < 8 \<Longrightarrow> pointers (inodes s2 ?n) i = 0"
    using S2(3) [OF l(1)] p1 T(5) by (simp_all add: s2_def s1_def)
  have "\<exists>calls k5. rd_read ?k fd (int (?m1 + ?m2)) p = Some (int (length ?cs), calls, k5)
      \<and> concat (map snd calls) = ?cs @ map (stale ?k) [length ?cs..<?m1 + ?m2]"
    by (rule read_short [OF K _ V(1)]) (use S2(1) V(2) T(3) p2 cs z(2) assms(10-12) in simp_all)
  moreover have "stale ?k = stale k" by (simp add: stale_def fun_eq_iff)
  ultimately show ?thesis
    using w1 w2 rewind [OF assms(1,3) z(1) pos(1,3) N(1)] rewind [OF assms(1,3) z(2) _ pos(2) N(2)] pos(1) z(2) cs(2)
    by (intro exI [of _ "moved k fd s1 (of_nat ?m1)"] exI [of _ "moved k fd s1 0"] exI [of _ "moved k fd s2 (of_nat ?m2)"] exI [of _ ?k])
      auto
qed


theorem overwrite_leaks_witness:
  "\<exists>k1 k2 k3 k4 calls k5. rd_write sample_opened 0 7 ''secret'' 6 = Some (6, k1)
    \<and> rd_lseek k1 0 0 7 = Some (0, k2) \<and> rd_write k2 0 7 ''go'' 2 = Some (2, k3) \<and> rd_lseek k3 0 0 7 = Some (0, k4)
    \<and> rd_read k4 0 8 7 = Some (6, calls, k5)
    \<and> concat (map snd calls) = ''gocret'' @ [read_buffer sample_opened 6, read_buffer sample_opened 7]"
proof -
  have f: "fobj sample_opened 0 0 = \<lparr>inode_ptr = Some 1, status = RW, cursor = 0, pos = 0, usable = 1\<rparr>"
    by (simp add: sample_opened_def)
  then have W: "writable_fd sample_opened 0" "cursor (fobj sample_opened 0 (nat 0)) = 0"
    by (simp_all add: writable_fd_def sample_file_def zero_inode_def)
  have e: "isize (inodes (fs sample_opened) (fd_node sample_opened 0)) = 0"
    "\<forall>i < 8. pointers (inodes (fs sample_opened) (fd_node sample_opened 0)) i = 0"
    by (simp_all add: sample_file_def zero_inode_def)
  have "0 < unat (free_blocks sample_fs)" by (simp add: sample_fs_def)
  then have fb: "get_free_block_num_from_bitmap (fs sample_opened) \<noteq> -1" using enough_free sample_counter by simp
  have u: "[6..<8] = [6, 7 :: nat]" by (simp add: upt_rec)
  show ?thesis
    using overwrite_leaks [OF sample_opened_ok(1) _ W e fb, of "''secret''" "''go''" 7]
    by (simp add: u stale_def eval_nat_numeral) blast
qed
end
