(* ===== verification/Proto_Disk.thy ===== *)
theory Proto_Disk
  imports FileTable
begin

text \<open>
  The helper routines of the prototype \<^verbatim>\<open>Ramdisk/userspace/discos.c\<close>, translated on their own
  from its text: every \<^verbatim>\<open>for\<close> loop is an instance of one combinator, \<open>for_loop\<close>, whose body
  says how an iteration ends.  The module's copies of these routines have been translated
  as recursive functions; that both translations agree, routine by routine, is proved at
  the end of each section and collected in \<open>proto_helpers\<close>.
\<close>

named_theorems proto_helpers \<open>a routine of the prototype is the routine of the module\<close>

section \<open>Loops\<close>

text \<open>How an iteration ends: with the next one, by \<^verbatim>\<open>break\<close>, or by a \<^verbatim>\<open>return\<close> of the function.\<close>

datatype ('s, 'r) flow = Next 's | Break 's | Ret 'r

text \<open>\<^verbatim>\<open>for (i = a; i < a + n; i++)\<close>; the result is the state after the loop, or the value
  returned from inside it.\<close>

fun for_loop :: "nat \<Rightarrow> nat \<Rightarrow> (nat \<Rightarrow> 's \<Rightarrow> ('s, 'r) flow option) \<Rightarrow> 's \<Rightarrow> ('s + 'r) option" where
  "for_loop i 0 body s = Some (Inl s)"
| "for_loop i (Suc n) body s = do {
     r \<leftarrow> body i s;
     (case r of Next s' \<Rightarrow> for_loop (Suc i) n body s' | Break s' \<Rightarrow> Some (Inl s') | Ret v \<Rightarrow> Some (Inr v))
   }"

text \<open>What follows a loop, and a loop as the body of another.\<close>

definition after :: "('s + 'r) option \<Rightarrow> ('s \<Rightarrow> 'r option) \<Rightarrow> 'r option" where
  "after l k = do { r \<leftarrow> l; (case r of Inl s \<Rightarrow> k s | Inr v \<Rightarrow> Some v) }"

definition nest :: "('s + 'r) option \<Rightarrow> ('s, 'r) flow option" where
  "nest l = map_option (case_sum Next Ret) l"

lemma after_simps [simp]:
  "after None k = None" "after (Some (Inl s)) k = k s" "after (Some (Inr v)) k = Some v"
  by (simp_all add: after_def)

lemma nest_simps [simp]:
  "nest None = None" "nest (Some (Inl s)) = Some (Next s)" "nest (Some (Inr v)) = Some (Ret v)"
  by (simp_all add: nest_def)

lemma after_bind: "after (do { x \<leftarrow> m; f x }) k = do { x \<leftarrow> m; after (f x) k }"
  by (cases m) simp_all

lemma after_step:
  "after (case r of Next s' \<Rightarrow> for_loop (Suc i) n body s' | Break s' \<Rightarrow> Some (Inl s') | Ret v \<Rightarrow> Some (Inr v)) k =
   (case r of Next s' \<Rightarrow> after (for_loop (Suc i) n body s') k | Break s' \<Rightarrow> k s' | Ret v \<Rightarrow> Some v)"
  by (cases r) simp_all

lemma after_loop:
  "after (for_loop i 0 body s) k = k s"
  "after (for_loop i (Suc n) body s) k = do {
     r \<leftarrow> body i s;
     (case r of Next s' \<Rightarrow> after (for_loop (Suc i) n body s') k | Break s' \<Rightarrow> k s' | Ret v \<Rightarrow> Some v) }"
  by (simp_all add: after_bind after_step)

declare for_loop.simps [simp del]

section \<open>The bitmap\<close>

definition proto_get_free_block_num_from_bitmap :: "filesys_struct \<Rightarrow> int option" where
  "proto_get_free_block_num_from_bitmap s =
     (if free_blocks s = 0 then Some (-1)
      else after (for_loop 0 1024 (\<lambda>i free_byte_pos.
          Some (if bitmap s i \<noteq> 255 then Break (Some i) else Next free_byte_pos)) None) (\<lambda>free_byte_pos.
        (case free_byte_pos of
           None \<Rightarrow> Some (-1)
         | Some p \<Rightarrow>
             after (for_loop 0 8 (\<lambda>i (free_bit, free_byte).
                 Some (if free_byte AND 1 = 0 then Break (free_bit + i, free_byte)
                       else Next (free_bit, drop_bit 1 free_byte))) (p * 8, bitmap s p))
             (\<lambda>(free_bit, free_byte). Some (if free_bit \<ge> 7931 then -1 else int free_bit)))))"

definition proto_clear_bitmap :: "(nat \<Rightarrow> 8 word) \<Rightarrow> int \<Rightarrow> int \<times> (nat \<Rightarrow> 8 word)" where
  "proto_clear_bitmap m index =
     (if index < 0 \<or> index > 7931 then (-1, m)
      else (0, m(nat (index div 8) := m (nat (index div 8)) AND NOT (push_bit (nat (index mod 8)) 1))))"

definition proto_set_bitmap :: "(nat \<Rightarrow> 8 word) \<Rightarrow> int \<Rightarrow> int \<times> (nat \<Rightarrow> 8 word)" where
  "proto_set_bitmap m index =
     (if index < 0 \<or> index > 7931 then (-1, m)
      else (0, m(nat (index div 8) := m (nat (index div 8)) OR push_bit (nat (index mod 8)) 1)))"

definition proto_allocate_data_block :: "filesys_struct \<Rightarrow> int \<Rightarrow> (ptr \<times> filesys_struct) option" where
  "proto_allocate_data_block s free_block_number = do {
     let s1 = s\<lparr>bitmap := snd (proto_set_bitmap (bitmap s) free_block_number), free_blocks := free_blocks s - 1\<rparr>;
     s2 \<leftarrow> memset0 s1 (BLOCK_SIZE * nat free_block_number) BLOCK_SIZE;
     Some (blk_addr s2 (nat free_block_number), s2)
   }"

lemma byte_loop:
  "after (for_loop i n (\<lambda>i p. Some (if m i \<noteq> 255 then Break (Some i) else Next p)) None) k = k (find_free_byte m i n)"
  by (induction n arbitrary: i) (simp_all add: after_loop)

lemma bit_loop:
  "after (for_loop i n (\<lambda>i (free_bit, free_byte). Some (if free_byte AND 1 = 0 then Break (free_bit + i, free_byte)
       else Next (free_bit, drop_bit 1 free_byte))) (p, b)) (\<lambda>(free_bit, free_byte). k free_bit) = k (find_free_bit p b i n)"
  by (induction n arbitrary: i b) (simp_all add: after_loop)

lemma proto_get_free_block [proto_helpers]:
  "proto_get_free_block_num_from_bitmap s = Some (get_free_block_num_from_bitmap s)"
  by (simp add: proto_get_free_block_num_from_bitmap_def get_free_block_num_from_bitmap_def byte_loop bit_loop
      Let_def split: option.split)

lemma proto_bitmaps [proto_helpers]:
  "proto_clear_bitmap m b = clear_bitmap m b" "proto_set_bitmap m b = set_bitmap m b"
  by (simp_all add: proto_clear_bitmap_def clear_bitmap_def proto_set_bitmap_def set_bitmap_def Let_def
      nat_div_distrib nat_mod_distrib)

lemma proto_allocate [proto_helpers]: "proto_allocate_data_block s b = allocate_data_block s b"
  by (simp add: proto_allocate_data_block_def allocate_data_block_def proto_helpers Let_def)

section \<open>Paths\<close>

text \<open>The loop of \<^verbatim>\<open>parse_absolute_path\<close> runs down from the last character; \<open>j\<close> counts its iterations,
  and \<open>start\<close> is \<^verbatim>\<open>i + 1\<close>, where the last component begins.\<close>

definition proto_parse_absolute_path :: "string \<Rightarrow> string \<Rightarrow> (string \<times> string) option" where
  "proto_parse_absolute_path path current_dir =
     after (for_loop 0 (length path) (\<lambda>j (dir, start).
         let i = length path - 1 - j in
         Some (if path ! i = CHR ''/'' \<and> i \<noteq> 0 then Break (strncpy_buf dir path i, i + 1)
               else if path ! i = CHR ''/'' \<and> i = 0 then Break (strcpy_buf dir ''/'', i + 1)
               else Next (dir, i))) (current_dir, length path))
     (\<lambda>(dir, start). Some (dir, drop start path))"

lemma parse_loop:
  "n \<le> length path \<Longrightarrow>
   after (for_loop (length path - n) n (\<lambda>j (dir, start).
         let i = length path - 1 - j in
         Some (if path ! i = CHR ''/'' \<and> i \<noteq> 0 then Break (strncpy_buf dir path i, i + 1)
               else if path ! i = CHR ''/'' \<and> i = 0 then Break (strcpy_buf dir ''/'', i + 1)
               else Next (dir, i))) (current_dir, n))
     (\<lambda>(dir, start). Some (dir, drop start path)) =
   Some (case last_slash path n of
        None \<Rightarrow> (current_dir, path)
      | Some i \<Rightarrow> (if i \<noteq> 0 then strncpy_buf current_dir path i else strcpy_buf current_dir ''/'', drop (Suc i) path))"
proof (induction n)
  case 0
  then show ?case by (simp add: after_loop)
next
  case (Suc n)
  then have i: "length path - 1 - (length path - Suc n) = n" "Suc (length path - Suc n) = length path - n" "n \<le> length path"
    by simp_all
  show ?case
    unfolding after_loop case_prod_conv i(1,2) Let_def Option.bind.bind_lunit
    by (cases "path ! n = CHR ''/''"; cases "n = 0")
      (simp_all only: Suc.IH [OF i(3), unfolded Let_def] if_True if_False flow.case case_prod_conv last_slash.simps option.case
        after_loop HOL.simp_thms Suc_eq_plus1, simp_all)
qed

lemma proto_parse [proto_helpers]: "proto_parse_absolute_path path dir = Some (parse_absolute_path path dir)"
  using parse_loop [OF order_refl, of path dir] by (simp add: proto_parse_absolute_path_def parse_absolute_path_def)


section \<open>Creating\<close>

definition proto_get_free_inode_num :: "filesys_struct \<Rightarrow> int option" where
  "proto_get_free_inode_num s =
     (if free_inodes s = 0 then Some (-1)
      else after (for_loop 1 (MAX_NUM_FILE - 1) (\<lambda>i _.
          Some (if itype (inodes s i) = '''' then Ret (int i) else Next ())) ()) (\<lambda>_. Some (-1)))"

definition proto_allocate_inode :: "filesys_struct \<Rightarrow> nat \<Rightarrow> filesys_struct option" where
  "proto_allocate_inode s free_inode_num =
     (let s1 = s\<lparr>free_inodes := free_inodes s - 1\<rparr> in
      if free_inode_num < MAX_NUM_FILE then Some (set_inode s1 free_inode_num zero_inode) else None)"

definition proto_get_next_dir_entry :: "filesys_struct \<Rightarrow> ptr \<Rightarrow> nat option option" where
  "proto_get_next_dir_entry s block =
     after (for_loop 0 ENTRIES_PER_BLOCK (\<lambda>j _. do {
         num \<leftarrow> load_inode_num s (entry_addr s block j);
         Some (if num = 0 then Ret (Some (entry_addr s block j)) else Next ())
       }) ()) (\<lambda>_. Some None)"

definition proto_get_next_dir_entry_single ::
  "filesys_struct \<Rightarrow> ptr \<Rightarrow> nat \<Rightarrow> (nat option \<times> filesys_struct) option" where
  "proto_get_next_dir_entry_single s single_indirect seg = do {
     block \<leftarrow> load_index s single_indirect seg;
     if block = 0 then do {
       free_block_num \<leftarrow> proto_get_free_block_num_from_bitmap s;
       if free_block_num = -1 then Some (None, s)
       else do {
         (new_data_block, s1) \<leftarrow> proto_allocate_data_block s free_block_num;
         s2 \<leftarrow> store_index s1 single_indirect seg new_data_block;
         q \<leftarrow> load_index s2 single_indirect seg;
         Some (Some (entry_addr s2 q 0), s2)
       }
     }
     else do {
       q \<leftarrow> load_index s single_indirect seg;
       e \<leftarrow> proto_get_next_dir_entry s q;
       Some (e, s)
     }
   }"

definition proto_get_next_dir_entry_double ::
  "filesys_struct \<Rightarrow> ptr \<Rightarrow> nat \<Rightarrow> (nat option \<times> filesys_struct) option" where
  "proto_get_next_dir_entry_double s double_indirect segment = do {
     block \<leftarrow> load_index s double_indirect (segment div 64);
     if block = 0 then do {
       free_block_num \<leftarrow> proto_get_free_block_num_from_bitmap s;
       if free_block_num = -1 then Some (None, s)
       else do {
         (new_index_block, s1) \<leftarrow> proto_allocate_data_block s free_block_num;
         proto_get_next_dir_entry_single s1 new_index_block (segment mod 64)
       }
     }
     else proto_get_next_dir_entry_single s block (segment mod 64)
   }"

text \<open>The lines that give a null pointer of an index node a new block, three times in
  \<^verbatim>\<open>get_next_entry\<close>; without a free block the function returns \<^verbatim>\<open>NULL\<close>.\<close>

definition proto_fill_pointer ::
  "filesys_struct \<Rightarrow> nat \<Rightarrow> ptr \<Rightarrow> (ptr \<Rightarrow> inode_struct \<Rightarrow> inode_struct) \<Rightarrow> filesys_struct option option" where
  "proto_fill_pointer s node old update =
     (if old = 0 then do {
        free_block_num \<leftarrow> proto_get_free_block_num_from_bitmap s;
        if free_block_num = -1 then Some None
        else do {
          (new_block, s1) \<leftarrow> proto_allocate_data_block s free_block_num;
          Some (Some (set_inode s1 node (update new_block (inodes s1 node))))
        }
      }
      else Some (Some s))"

text \<open>The three stages: the loop over the direct pointers; the single indirect blocks, which go on
  with \<^verbatim>\<open>seg = 72\<close> when they have no entry; the double indirect blocks.\<close>

definition proto_get_next_entry :: "filesys_struct \<Rightarrow> nat \<Rightarrow> (nat option \<times> filesys_struct) option" where
  "proto_get_next_entry s0 node = do {
     ino \<leftarrow> get_inode s0 node;
     let seg = unat (isize ino) div BLOCK_SIZE;
     after (for_loop seg (INODE_NUM_DIRECT_PTR - seg) (\<lambda>i s.
         let dir_ptr = pointers (inodes s node) i in
         if dir_ptr = 0 then do {
           r \<leftarrow> proto_fill_pointer s node dir_ptr (\<lambda>b ino. ino\<lparr>pointers := (pointers ino)(i := b)\<rparr>);
           (case r of
              None \<Rightarrow> Some (Ret (None, s))
            | Some s1 \<Rightarrow> Some (Ret (Some (entry_addr s1 (pointers (inodes s1 node) i) 0), s1)))
         }
         else do {
           free_dir_entry \<leftarrow> proto_get_next_dir_entry s dir_ptr;
           Some (if free_dir_entry \<noteq> None then Ret (free_dir_entry, s) else Next s)
         }) s0) (\<lambda>s.
     let double_stage = (\<lambda>s seg.
         if 8 + 64 \<le> seg \<and> seg < 8 + 64 + 64 * 64 then do {
           r \<leftarrow> proto_fill_pointer s node (double_indirect_ptrs (inodes s node)) (\<lambda>b ino. ino\<lparr>double_indirect_ptrs := b\<rparr>);
           (case r of
              None \<Rightarrow> Some (None, s)
            | Some s1 \<Rightarrow> proto_get_next_dir_entry_double s1 (double_indirect_ptrs (inodes s1 node)) (seg - 72))
         }
         else Some (None, s)) in
     if 8 \<le> seg \<and> seg < 8 + 64 then do {
       r \<leftarrow> proto_fill_pointer s node (single_indirect_ptrs (inodes s node)) (\<lambda>b ino. ino\<lparr>single_indirect_ptrs := b\<rparr>);
       (case r of
          None \<Rightarrow> Some (None, s)
        | Some s1 \<Rightarrow> do {
            (free_dir_entry, s2) \<leftarrow> proto_get_next_dir_entry_single s1 (single_indirect_ptrs (inodes s1 node)) (seg - 8);
            if free_dir_entry \<noteq> None then Some (free_dir_entry, s2) else double_stage s2 72
          })
     }
     else double_stage s seg)
   }"

lemma free_inode_loop:
  "after (for_loop i n (\<lambda>i _. Some (if itype (inds i) = '''' then Ret (int i) else Next ())) ()) (\<lambda>_. Some (-1))
     = Some (find_free_inode inds i n)"
  by (induction n arbitrary: i) (simp_all add: after_loop)

lemma proto_free_inode [proto_helpers]: "proto_get_free_inode_num s = Some (get_free_inode_num s)"
  by (simp add: proto_get_free_inode_num_def get_free_inode_num_def free_inode_loop)

lemma proto_inode [proto_helpers]: "proto_allocate_inode s n = allocate_inode s n"
  by (simp add: proto_allocate_inode_def allocate_inode_def Let_def)

lemma dir_entry_loop:
  "after (for_loop i n (\<lambda>j _. do {
         num \<leftarrow> load_inode_num s (entry_addr s block j);
         Some (if num = 0 then Ret (Some (entry_addr s block j)) else Next ())
       }) ()) (\<lambda>_. Some None) = next_dir_entry_loop s block i n"
  by (induction n arbitrary: i) (simp_all add: after_loop if_distrib [of "case_flow _ _ _"] cong: if_cong)

lemma proto_next_dir_entry [proto_helpers]: "proto_get_next_dir_entry s block = get_next_dir_entry s block"
  by (simp add: proto_get_next_dir_entry_def get_next_dir_entry_def dir_entry_loop)

lemma proto_next_single [proto_helpers]: "proto_get_next_dir_entry_single s p seg = get_next_dir_entry_single s p seg"
proof (cases "load_index s p seg")
  case (Some block)
  then show ?thesis
    by (simp add: proto_get_next_dir_entry_single_def get_next_dir_entry_single_def proto_helpers Let_def cong: if_cong)
qed (simp add: proto_get_next_dir_entry_single_def get_next_dir_entry_single_def)

lemma proto_next_double [proto_helpers]: "proto_get_next_dir_entry_double s p seg = get_next_dir_entry_double s p seg"
  by (simp add: proto_get_next_dir_entry_double_def get_next_dir_entry_double_def proto_helpers Let_def cong: if_cong)

lemma next_entry_loop:
  "after (for_loop i n (\<lambda>i s.
         let dir_ptr = pointers (inodes s node) i in
         if dir_ptr = 0 then do {
           r \<leftarrow> proto_fill_pointer s node dir_ptr (\<lambda>b ino. ino\<lparr>pointers := (pointers ino)(i := b)\<rparr>);
           (case r of
              None \<Rightarrow> Some (Ret (None, s))
            | Some s1 \<Rightarrow> Some (Ret (Some (entry_addr s1 (pointers (inodes s1 node) i) 0), s1)))
         }
         else do {
           free_dir_entry \<leftarrow> proto_get_next_dir_entry s dir_ptr;
           Some (if free_dir_entry \<noteq> None then Ret (free_dir_entry, s) else Next s)
         }) s) k =
   do { (r, s1) \<leftarrow> next_entry_direct s node i n; (case r of Return e \<Rightarrow> Some (e, s1) | Fall \<Rightarrow> k s1) }"
proof (induction n arbitrary: i)
  case (Suc n)
  show ?case
  proof (cases "pointers (inodes s node) i = 0")
    case True
    then show ?thesis
      by (cases "allocate_data_block s (get_free_block_num_from_bitmap s)")
        (auto simp: after_loop proto_fill_pointer_def proto_helpers Let_def)
  next
    case False
    then show ?thesis using Suc
      by (cases "get_next_dir_entry s (pointers (inodes s node) i)")
        (auto simp: after_loop proto_helpers Let_def)
  qed
qed (simp add: after_loop)

lemma single_stage:
  "do { r \<leftarrow> proto_fill_pointer s node (single_indirect_ptrs (inodes s node)) (\<lambda>b ino. ino\<lparr>single_indirect_ptrs := b\<rparr>);
       (case r of
          None \<Rightarrow> Some (None, s)
        | Some s1 \<Rightarrow> do {
            (free_dir_entry, s2) \<leftarrow> get_next_dir_entry_single s1 (single_indirect_ptrs (inodes s1 node)) (seg - 8);
            if free_dir_entry \<noteq> None then Some (free_dir_entry, s2) else k s2
          }) } =
   do { (r, s1) \<leftarrow> next_entry_single s node seg; (case r of Return e \<Rightarrow> Some (e, s1) | Fall \<Rightarrow> k s1) }"
proof (cases "single_indirect_ptrs (inodes s node) = 0")
  case True
  then show ?thesis
    by (cases "allocate_data_block s (get_free_block_num_from_bitmap s)")
      (auto simp: proto_fill_pointer_def next_entry_single_def proto_helpers Let_def case_prod_unfold
        if_distrib [of "case_ctl _ _"] cong: if_cong)
qed (auto simp: proto_fill_pointer_def next_entry_single_def proto_helpers Let_def case_prod_unfold
        if_distrib [of "case_ctl _ _"] cong: if_cong)

lemma double_stage:
  "do { r \<leftarrow> proto_fill_pointer s node (double_indirect_ptrs (inodes s node)) (\<lambda>b ino. ino\<lparr>double_indirect_ptrs := b\<rparr>);
       (case r of
          None \<Rightarrow> Some (None, s)
        | Some s1 \<Rightarrow> get_next_dir_entry_double s1 (double_indirect_ptrs (inodes s1 node)) (seg - 72)) } =
   next_entry_double s node seg"
proof (cases "double_indirect_ptrs (inodes s node) = 0")
  case True
  then show ?thesis
    by (cases "allocate_data_block s (get_free_block_num_from_bitmap s)")
      (auto simp: proto_fill_pointer_def next_entry_double_def proto_helpers Let_def)
qed (auto simp: proto_fill_pointer_def next_entry_double_def proto_helpers Let_def)

lemma proto_next_entry [proto_helpers]: "proto_get_next_entry s node = get_next_entry s node"
proof (cases "get_inode s node")
  case (Some ino)
  have last: "(if 8 + 64 \<le> (72 :: nat) \<and> (72 :: nat) < 8 + 64 + 64 * 64 then x else y) = x" for x y :: "(nat option \<times> filesys_struct) option"
    by simp
  show ?thesis
    unfolding proto_get_next_entry_def get_next_entry_def next_entry_loop
    unfolding proto_helpers Let_def double_stage single_stage
    by (cases "8 \<le> unat (isize ino) div BLOCK_SIZE \<and> unat (isize ino) div BLOCK_SIZE < 8 + 64")
      (simp_all only: Some Option.bind.bind_lunit simp_thms if_True if_False last case_prod_conv ctl.case cong: if_cong)
qed (simp add: proto_get_next_entry_def get_next_entry_def)

section \<open>Freeing the blocks of a file\<close>

text \<open>The three statements that free a block: its bit, its contents, the counter.\<close>

definition proto_release_block :: "filesys_struct \<Rightarrow> ptr \<Rightarrow> filesys_struct option" where
  "proto_release_block s p = do {
     idx \<leftarrow> block_index s p;
     s1 \<leftarrow> memset0 (s\<lparr>bitmap := snd (proto_clear_bitmap (bitmap s) idx)\<rparr>) (ptr_off s p) BLOCK_SIZE;
     Some (s1\<lparr>free_blocks := free_blocks s1 + 1\<rparr>)
   }"

definition proto_clear_inode_single_indirect :: "filesys_struct \<Rightarrow> ptr \<Rightarrow> filesys_struct option" where
  "proto_clear_inode_single_indirect s0 single_indirect =
     after (for_loop 0 PTRS_PER_BLOCK (\<lambda>i s. do {
         block \<leftarrow> load_index s single_indirect i;
         if block \<noteq> 0 then do { q \<leftarrow> load_index s single_indirect i; s1 \<leftarrow> proto_release_block s q; Some (Next s1) }
         else Some (Next s)
       }) s0) (\<lambda>s. proto_release_block s single_indirect)"

definition proto_clear_inode_double_indirect :: "filesys_struct \<Rightarrow> ptr \<Rightarrow> filesys_struct option" where
  "proto_clear_inode_double_indirect s0 double_indirect =
     after (for_loop 0 PTRS_PER_BLOCK (\<lambda>i s. do {
         single_indirect \<leftarrow> load_index s double_indirect i;
         if single_indirect \<noteq> 0 then do { s1 \<leftarrow> proto_clear_inode_single_indirect s single_indirect; Some (Next s1) }
         else Some (Next s)
       }) s0) (\<lambda>s. proto_release_block s double_indirect)"

definition clear_inode :: "filesys_struct \<Rightarrow> nat \<Rightarrow> filesys_struct option" where
  "clear_inode s0 node =
     after (for_loop 0 INODE_NUM_DIRECT_PTR (\<lambda>i s.
         let temp_block_ptr = pointers (inodes s node) i in
         if temp_block_ptr \<noteq> 0 then do { s1 \<leftarrow> proto_release_block s temp_block_ptr; Some (Next s1) }
         else Some (Next s)) s0) (\<lambda>s. do {
       s1 \<leftarrow> (if single_indirect_ptrs (inodes s node) \<noteq> 0
             then proto_clear_inode_single_indirect s (single_indirect_ptrs (inodes s node)) else Some s);
       if double_indirect_ptrs (inodes s1 node) \<noteq> 0
       then proto_clear_inode_double_indirect s1 (double_indirect_ptrs (inodes s1 node)) else Some s1
     })"

lemma bind_Next: "do { r \<leftarrow> (do { s1 \<leftarrow> m; Some (Next s1) }); (case r of Next s' \<Rightarrow> f s' | Break s' \<Rightarrow> g s' | Ret v \<Rightarrow> h v) }
    = do { s1 \<leftarrow> m; f s1 }"
  by (cases m) simp_all

lemma proto_release [proto_helpers]: "proto_release_block s p = release_block s p"
proof -
  have "ptr_off (s\<lparr>bitmap := b\<rparr>) p = ptr_off s p" for b by (simp add: ptr_off_def data_base_def)
  then show ?thesis by (simp add: proto_release_block_def release_block_def proto_helpers Let_def)
qed

lemma proto_single_loop:
  "after (for_loop i n (\<lambda>i s. do {
         block \<leftarrow> load_index s p i;
         if block \<noteq> 0 then do { q \<leftarrow> load_index s p i; s1 \<leftarrow> release_block s q; Some (Next s1) }
         else Some (Next s)
       }) s) k = do { s1 \<leftarrow> clear_single_loop s p i n; k s1 }"
proof (induction n arbitrary: i s)
  case (Suc n)
  show ?case
  proof (cases "load_index s p i")
    case (Some block)
    then show ?thesis using Suc by (cases "release_block s block") (simp_all add: after_loop)
  qed (simp add: after_loop)
qed (simp add: after_loop)

lemma proto_clear_single [proto_helpers]: "proto_clear_inode_single_indirect s p = clear_inode_single_indirect s p"
  by (simp add: proto_clear_inode_single_indirect_def clear_inode_single_indirect_def proto_helpers proto_single_loop cong: if_cong)

lemma proto_double_loop:
  "after (for_loop i n (\<lambda>i s. do {
         single_indirect \<leftarrow> load_index s p i;
         if single_indirect \<noteq> 0 then do { s1 \<leftarrow> clear_inode_single_indirect s single_indirect; Some (Next s1) }
         else Some (Next s)
       }) s) k = do { s1 \<leftarrow> clear_double_loop s p i n; k s1 }"
proof (induction n arbitrary: i s)
  case (Suc n)
  show ?case
  proof (cases "load_index s p i")
    case (Some q)
    then show ?thesis using Suc by (cases "clear_inode_single_indirect s q") (simp_all add: after_loop)
  qed (simp add: after_loop)
qed (simp add: after_loop)

lemma proto_clear_double [proto_helpers]: "proto_clear_inode_double_indirect s p = clear_inode_double_indirect s p"
  by (simp add: proto_clear_inode_double_indirect_def clear_inode_double_indirect_def proto_helpers proto_double_loop cong: if_cong)

lemma proto_direct_loop:
  "after (for_loop i n (\<lambda>i s.
         let temp_block_ptr = pointers (inodes s node) i in
         if temp_block_ptr \<noteq> 0 then do { s1 \<leftarrow> release_block s temp_block_ptr; Some (Next s1) }
         else Some (Next s)) s) k = do { s1 \<leftarrow> clear_direct_loop s node i n; k s1 }"
proof (induction n arbitrary: i s)
  case (Suc n)
  then show ?case
    by (cases "release_block s (pointers (inodes s node) i)") (simp_all add: after_loop Let_def)
qed (simp add: after_loop)

lemma proto_clear_inode [proto_helpers]: "clear_inode s node = my_clear_inode s node"
  unfolding clear_inode_def proto_helpers proto_direct_loop my_clear_inode_def ..

section \<open>Searching a directory for a name\<close>

definition proto_find_in_block :: "filesys_struct \<Rightarrow> ptr \<Rightarrow> string \<Rightarrow> (unit, nat option) flow option" where
  "proto_find_in_block s block filename =
     (if block \<noteq> 0 then nest (for_loop 0 ENTRIES_PER_BLOCK (\<lambda>j _. do {
          eq \<leftarrow> strcmp_eq s (entry_addr s block j) filename;
          Some (if eq then Ret (Some (entry_addr s block j)) else Next ())
        }) ())
      else Some (Next ()))"

definition proto_find_in_single :: "filesys_struct \<Rightarrow> ptr \<Rightarrow> string \<Rightarrow> (unit + nat option) option" where
  "proto_find_in_single s single_indirect filename =
     for_loop 0 PTRS_PER_BLOCK (\<lambda>i _. do {
         block \<leftarrow> load_index s single_indirect i;
         proto_find_in_block s block filename
       }) ()"

definition proto_find_in_double :: "filesys_struct \<Rightarrow> ptr \<Rightarrow> string \<Rightarrow> (unit + nat option) option" where
  "proto_find_in_double s double_indirect filename =
     for_loop 0 PTRS_PER_BLOCK (\<lambda>i _. do {
         single \<leftarrow> load_index s double_indirect i;
         if single \<noteq> 0 then nest (proto_find_in_single s single filename) else Some (Next ())
       }) ()"

definition proto_find_entry_in_current_dir :: "filesys_struct \<Rightarrow> nat \<Rightarrow> string \<Rightarrow> nat option option" where
  "proto_find_entry_in_current_dir s cur_dir filename = do {
     ino \<leftarrow> get_inode s cur_dir;
     after (for_loop 0 INODE_NUM_DIRECT_PTR (\<lambda>i _. proto_find_in_block s (pointers ino i) filename) ()) (\<lambda>_.
     after (if single_indirect_ptrs ino \<noteq> 0 then proto_find_in_single s (single_indirect_ptrs ino) filename else Some (Inl ())) (\<lambda>_.
     after (if double_indirect_ptrs ino \<noteq> 0 then proto_find_in_double s (double_indirect_ptrs ino) filename else Some (Inl ())) (\<lambda>_.
     Some None)))
   }"

text \<open>The loops of the module return an entry or go on: as the result of a loop.\<close>

abbreviation found :: "nat option \<Rightarrow> unit + nat option" where
  "found r \<equiv> (if r = None then Inl () else Inr r)"

lemma find_block_loop:
  "for_loop i n (\<lambda>j _. do {
          eq \<leftarrow> strcmp_eq s (entry_addr s block j) filename;
          Some (if eq then Ret (Some (entry_addr s block j)) else Next ())
        }) () = map_option found (find_entry_block s block filename i n)"
proof (induction n arbitrary: i)
  case (Suc n)
  then show ?case by (cases "strcmp_eq s (entry_addr s block i) filename") (simp_all add: for_loop.simps)
qed (simp add: for_loop.simps)

lemma find_block_eq:
  "proto_find_in_block s block filename = map_option (\<lambda>r. if r = None then Next () else Ret r)
     (if block \<noteq> 0 then find_entry_block s block filename 0 ENTRIES_PER_BLOCK else Some None)"
  by (cases "find_entry_block s block filename 0 ENTRIES_PER_BLOCK") (simp_all add: proto_find_in_block_def find_block_loop)

lemma find_single_loop:
  "for_loop i n (\<lambda>i _. do { block \<leftarrow> load_index s p i; proto_find_in_block s block filename }) ()
     = map_option found (find_entry_single s p filename i n)"
proof (induction n arbitrary: i)
  case (Suc n)
  show ?case
  proof (cases "load_index s p i")
    case (Some block)
    then show ?thesis using Suc
      by (cases "if block \<noteq> 0 then find_entry_block s block filename 0 ENTRIES_PER_BLOCK else Some None")
        (simp_all add: for_loop.simps find_block_eq)
  qed (simp add: for_loop.simps)
qed (simp add: for_loop.simps)

lemma find_single_eq: "proto_find_in_single s p filename = map_option found (find_entry_single s p filename 0 PTRS_PER_BLOCK)"
  unfolding proto_find_in_single_def by (rule find_single_loop)

lemma find_double_loop:
  "for_loop i n (\<lambda>i _. do {
         single \<leftarrow> load_index s p i;
         if single \<noteq> 0 then nest (proto_find_in_single s single filename) else Some (Next ())
       }) () = map_option found (find_entry_double s p filename i n)"
proof (induction n arbitrary: i)
  case (Suc n)
  show ?case
  proof (cases "load_index s p i")
    case (Some q)
    then show ?thesis using Suc
      by (cases "find_entry_single s q filename 0 PTRS_PER_BLOCK") (simp_all add: for_loop.simps find_single_eq)
  qed (simp add: for_loop.simps)
qed (simp add: for_loop.simps)

lemma find_double_eq: "proto_find_in_double s p filename = map_option found (find_entry_double s p filename 0 PTRS_PER_BLOCK)"
  unfolding proto_find_in_double_def by (rule find_double_loop)

lemma after_found: "after (map_option found m) k = do { r \<leftarrow> m; if r \<noteq> None then Some r else k () }"
  by (cases m) simp_all

lemma find_direct_loop:
  "for_loop i n (\<lambda>i _. proto_find_in_block s (pointers ino i) filename) ()
     = map_option found (find_entry_direct s ino filename i n)"
proof (induction n arbitrary: i)
  case (Suc n)
  then show ?case
    by (cases "if pointers ino i \<noteq> 0 then find_entry_block s (pointers ino i) filename 0 ENTRIES_PER_BLOCK else Some None")
      (simp_all add: for_loop.simps find_block_eq)
qed (simp add: for_loop.simps)

lemma if_found: "(if b then map_option found m else Some (Inl ())) = map_option found (if b then m else Some None)"
  by simp

lemma proto_find_entry [proto_helpers]: "proto_find_entry_in_current_dir s dir filename = find_entry_in_current_dir s dir filename"
  unfolding proto_find_entry_in_current_dir_def find_direct_loop find_single_eq find_double_eq if_found after_found
    find_entry_in_current_dir_def
  by (intro arg_cong2 [where f = Option.bind] refl ext) (auto split: Option.bind_splits)

section \<open>Removing a name from a directory\<close>

text \<open>The loop over the entries of a block counts the used ones, and zeroes those with the name.\<close>

definition proto_clear_in_block ::
  "filesys_struct \<Rightarrow> ptr \<Rightarrow> string \<Rightarrow> bool \<Rightarrow> ((nat \<times> bool \<times> filesys_struct) + 'r) option" where
  "proto_clear_in_block s0 block filename findEntry0 =
     (if block \<noteq> 0 then
        for_loop 0 ENTRIES_PER_BLOCK (\<lambda>j (nonEmptyEntries, findEntry, s). do {
          num \<leftarrow> load_inode_num s (entry_addr s block j);
          let nonEmptyEntries = (if num \<noteq> 0 then nonEmptyEntries + 1 else nonEmptyEntries);
          eq \<leftarrow> strcmp_eq s (entry_addr s block j) filename;
          if eq then do { s1 \<leftarrow> memset0 s (entry_addr s block j) 16; Some (Next (nonEmptyEntries, True, s1)) }
          else Some (Next (nonEmptyEntries, findEntry, s))
        }) (0, findEntry0, s0)
      else Some (Inl (0, findEntry0, s0)))"

definition proto_clear_entry_in_current_dir :: "filesys_struct \<Rightarrow> nat \<Rightarrow> string \<Rightarrow> filesys_struct option" where
  "proto_clear_entry_in_current_dir s0 node filename =
     after (for_loop 0 INODE_NUM_DIRECT_PTR (\<lambda>i (findEntry, s).
         after (proto_clear_in_block s (pointers (inodes s node) i) filename findEntry) (\<lambda>(nonEmptyEntries, findEntry, s).
         if findEntry \<and> nonEmptyEntries = 1 then do {
           idx \<leftarrow> block_index s (pointers (inodes s node) i);
           let s1 = s\<lparr>bitmap := snd (proto_clear_bitmap (bitmap s) idx)\<rparr>;
           let ino = inodes s1 node;
           Some (Next (findEntry, set_inode s1 node (ino\<lparr>pointers := (pointers ino)(i := 0)\<rparr>)))
         }
         else Some (Next (findEntry, s)))) (False, s0)) (\<lambda>(findEntry, s).
     if findEntry then Some s
     else let single_indirect = single_indirect_ptrs (inodes s node) in
       after (if single_indirect \<noteq> 0 then
           for_loop 0 PTRS_PER_BLOCK (\<lambda>i (nonEmptyBlocks, lastEntry, findEntry, s). do {
             block \<leftarrow> load_index s single_indirect i;
             after (proto_clear_in_block s block filename findEntry) (\<lambda>(nonEmptyEntries, findEntry, s). do {
               let nonEmptyBlocks = (if block \<noteq> 0 then nonEmptyBlocks + 1 else nonEmptyBlocks);
               if findEntry \<and> nonEmptyEntries = 1 then do {
                 q \<leftarrow> load_index s single_indirect i;
                 idx \<leftarrow> block_index s q;
                 s1 \<leftarrow> store_index (s\<lparr>bitmap := snd (proto_clear_bitmap (bitmap s) idx)\<rparr>) single_indirect i 0;
                 Some (Next (nonEmptyBlocks, True, findEntry, s1))
               }
               else Some (Next (nonEmptyBlocks, lastEntry, findEntry, s))
             })
           }) (0, False, False, s)
         else Some (Inl (0, False, False, s))) (\<lambda>(nonEmptyBlocks, lastEntry, findEntry, s). do {
       s1 \<leftarrow> (if findEntry \<and> nonEmptyBlocks = (1 :: nat) \<and> lastEntry then do {
               idx \<leftarrow> block_index s (single_indirect_ptrs (inodes s node));
               let s1 = s\<lparr>bitmap := snd (proto_clear_bitmap (bitmap s) idx)\<rparr>;
               Some (set_inode s1 node ((inodes s1 node)\<lparr>single_indirect_ptrs := 0\<rparr>))
             }
             else Some s);
       if findEntry then Some s1
       else do {
         found \<leftarrow> (if double_indirect_ptrs (inodes s1 node) \<noteq> 0
                  then proto_find_in_double s1 (double_indirect_ptrs (inodes s1 node)) filename else Some (Inl ()));
         Some s1
       }
     }))"

lemma after_if: "after (if b then l else l') k = (if b then after l k else after l' k)"
  by simp

lemma clear_entries_loop:
  "after (for_loop j n (\<lambda>j (nonEmptyEntries, findEntry, s). do {
          num \<leftarrow> load_inode_num s (entry_addr s block j);
          let nonEmptyEntries = (if num \<noteq> 0 then nonEmptyEntries + 1 else nonEmptyEntries);
          eq \<leftarrow> strcmp_eq s (entry_addr s block j) filename;
          if eq then do { s1 \<leftarrow> memset0 s (entry_addr s block j) 16; Some (Next (nonEmptyEntries, True, s1)) }
          else Some (Next (nonEmptyEntries, findEntry, s))
        }) (ne, fe, s)) k = do { r \<leftarrow> clear_entries s block filename j n ne fe; k r }"
proof (induction n arbitrary: j ne fe s)
  case (Suc n)
  show ?case
  proof (cases "load_inode_num s (entry_addr s block j)")
    case num: (Some num)
    show ?thesis
    proof (cases "strcmp_eq s (entry_addr s block j) filename")
      case (Some eq)
      then show ?thesis using num Suc
        by (cases "memset0 s (entry_addr s block j) 16") (simp_all add: after_loop Let_def)
    qed (simp add: num after_loop Let_def)
  qed (simp add: after_loop)
qed (simp add: after_loop)

lemma clear_in_block_eq:
  "after (proto_clear_in_block s block filename fe) k =
   do { r \<leftarrow> (if block \<noteq> 0 then clear_entries s block filename 0 ENTRIES_PER_BLOCK 0 fe else Some (0, fe, s)); k r }"
  unfolding proto_clear_in_block_def after_if clear_entries_loop by simp

lemma clear_direct_eq:
  "after (for_loop i n (\<lambda>i (findEntry, s).
         after (proto_clear_in_block s (pointers (inodes s node) i) filename findEntry) (\<lambda>(nonEmptyEntries, findEntry, s).
         if findEntry \<and> nonEmptyEntries = 1 then do {
           idx \<leftarrow> block_index s (pointers (inodes s node) i);
           let s1 = s\<lparr>bitmap := snd (clear_bitmap (bitmap s) idx)\<rparr>;
           let ino = inodes s1 node;
           Some (Next (findEntry, set_inode s1 node (ino\<lparr>pointers := (pointers ino)(i := 0)\<rparr>)))
         }
         else Some (Next (findEntry, s)))) (fe, s)) k = do { r \<leftarrow> clear_entry_direct s node filename i n fe; k r }"
proof (induction n arbitrary: i fe s)
  case (Suc n)
  let ?p = "pointers (inodes s node) i"
  show ?case
  proof (cases "if ?p \<noteq> 0 then clear_entries s ?p filename 0 ENTRIES_PER_BLOCK 0 fe else Some (0, fe, s)")
    case (Some r)
    obtain ne f s1 where r: "r = (ne, f, s1)" by (cases r)
    show ?thesis using Some Suc unfolding r
      by (cases "block_index s1 (pointers (inodes s1 node) i)")
        (simp_all add: after_loop clear_in_block_eq drop_bit_of_def Let_def del: fun_upd_apply)
  qed (simp add: after_loop clear_in_block_eq Let_def)
qed (simp add: after_loop)

lemma proto_single_stage:
  "after (for_loop i n (\<lambda>i (nonEmptyBlocks, lastEntry, findEntry, s). do {
             block \<leftarrow> load_index s p i;
             after (proto_clear_in_block s block filename findEntry) (\<lambda>(nonEmptyEntries, findEntry, s). do {
               let nonEmptyBlocks = (if block \<noteq> 0 then nonEmptyBlocks + 1 else nonEmptyBlocks);
               if findEntry \<and> nonEmptyEntries = 1 then do {
                 q \<leftarrow> load_index s p i;
                 idx \<leftarrow> block_index s q;
                 s1 \<leftarrow> store_index (s\<lparr>bitmap := snd (clear_bitmap (bitmap s) idx)\<rparr>) p i 0;
                 Some (Next (nonEmptyBlocks, True, findEntry, s1))
               }
               else Some (Next (nonEmptyBlocks, lastEntry, findEntry, s))
             })
           }) (nb, le, fe, s)) k = do { r \<leftarrow> clear_entry_single s p filename i n nb le fe; k r }"
proof (induction n arbitrary: i nb le fe s)
  case (Suc n)
  show ?case
  proof (cases "load_index s p i")
    case block: (Some block)
    show ?thesis
    proof (cases "if block \<noteq> 0 then clear_entries s block filename 0 ENTRIES_PER_BLOCK 0 fe else Some (0, fe, s)")
      case (Some r)
      obtain ne f s1 where r: "r = (ne, f, s1)" by (cases r)
      show ?thesis
      proof (cases "f \<and> ne = 1")
        case True
        show ?thesis
        proof (cases "load_index s1 p i")
          case q: (Some q)
          show ?thesis
          proof (cases "block_index s1 q")
            case idx: (Some idx)
            then show ?thesis using block Some True q Suc unfolding r
              by (cases "store_index (s1\<lparr>bitmap := snd (clear_bitmap (bitmap s1) idx)\<rparr>) p i 0")
                (simp_all add: after_loop clear_in_block_eq drop_bit_of_def Let_def)
          qed (use block Some True q in \<open>simp add: r after_loop clear_in_block_eq drop_bit_of_def Let_def\<close>)
        qed (use block Some True in \<open>simp add: r after_loop clear_in_block_eq Let_def\<close>)
      qed (use block Some Suc in \<open>auto simp: r after_loop clear_in_block_eq Let_def\<close>)
    qed (simp add: block after_loop clear_in_block_eq Let_def)
  qed (simp add: after_loop)
qed (simp add: after_loop)

lemma proto_clear_entry [proto_helpers]:
  "proto_clear_entry_in_current_dir s node filename = clear_entry_in_current_dir s node filename"
proof (cases "clear_entry_direct s node filename 0 INODE_NUM_DIRECT_PTR False")
  case (Some r)
  obtain fe s1 where r: "r = (fe, s1)" by (cases r)
  have ignore: "do { f \<leftarrow> map_option g m; x } = do { e \<leftarrow> m; x }" for g :: "nat option \<Rightarrow> unit + nat option" and m and x :: "filesys_struct option"
    by (cases m) simp_all
  show ?thesis
    unfolding proto_clear_entry_in_current_dir_def clear_entry_in_current_dir_def proto_helpers clear_direct_eq
      after_if proto_single_stage Some r
    by (auto simp: Let_def drop_bit_of_def find_double_eq if_found ignore case_prod_unfold split: Option.bind_splits)
next
  case None
  then show ?thesis
    unfolding proto_clear_entry_in_current_dir_def clear_entry_in_current_dir_def proto_helpers clear_direct_eq by simp
qed

section \<open>File descriptors\<close>

definition proto_get_fd_table :: "(nat \<Rightarrow> process_fd_table) \<Rightarrow> int \<Rightarrow> nat option option" where
  "proto_get_fd_table tbl p =
     after (for_loop 0 THERAD_POOL_SIZE (\<lambda>i u. Some (if pid (tbl i) = word_of_int p then Ret (Some i) else Next u)) ()) (\<lambda>u.
     after (for_loop 0 THERAD_POOL_SIZE (\<lambda>i u. Some (if pid (tbl i) = 0 then Ret (Some i) else Next u)) ()) (\<lambda>u.
     Some None))"

definition proto_create_file_object :: "kernel \<Rightarrow> int \<Rightarrow> ((nat \<times> nat) \<times> kernel) option option" where
  "proto_create_file_object k p = do {
     f_objs \<leftarrow> proto_get_fd_table (p_fd_table k) p;
     (case f_objs of
        None \<Rightarrow> Some None
      | Some t \<Rightarrow>
          after (for_loop 0 FD_TABLE_SIZE (\<lambda>i k.
              Some (if usable (fobj k t i) = 0
                    then let k1 = upd_fobj k t i ((fobj k t i)\<lparr>pos := of_nat i\<rparr>);
                             k2 = upd_fobj k1 t i ((fobj k1 t i)\<lparr>usable := 1\<rparr>)
                         in Ret (Some ((t, i), k2))
                    else Next k)) k) (\<lambda>k. Some None))
   }"

text \<open>What \<^verbatim>\<open>rd_close\<close>, \<^verbatim>\<open>rd_read\<close>, \<^verbatim>\<open>rd_write\<close> and \<^verbatim>\<open>rd_lseek\<close> begin with: \<^verbatim>\<open>f_obj\<close> stays
  \<^verbatim>\<open>NULL\<close> when no file object of the table has the descriptor as its \<^verbatim>\<open>pos\<close>.\<close>

definition proto_find_file_object :: "kernel \<Rightarrow> int \<Rightarrow> int \<Rightarrow> (nat \<times> nat) option option" where
  "proto_find_file_object k p fd = do {
     f_objs \<leftarrow> proto_get_fd_table (p_fd_table k) p;
     (case f_objs of
        None \<Rightarrow> Some None
      | Some t \<Rightarrow>
          after (for_loop 0 FD_TABLE_SIZE (\<lambda>i f_obj.
              Some (if pos (fobj k t i) = word_of_int fd then Break (Some (t, i)) else Next f_obj)) None) Some)
   }"

lemma find_pid_loop:
  "after (for_loop i n (\<lambda>i u. Some (if pid (tbl i) = q then Ret (Some i) else Next u)) ()) k
     = (case find_pid tbl q i n of None \<Rightarrow> k () | Some j \<Rightarrow> Some (Some j))"
  by (induction n arbitrary: i) (simp_all add: after_loop)

lemma unused_loop:
  "after (for_loop i n (\<lambda>i k. Some (if usable (fobj k t i) = 0 then Ret (f k i) else Next k)) k) c
     = (case find_unused (fd_table (p_fd_table k t)) i n of None \<Rightarrow> c k | Some j \<Rightarrow> Some (f k j))"
  by (induction n arbitrary: i) (simp_all add: after_loop)

lemma fobj_loop:
  "after (for_loop i n (\<lambda>i f. Some (if pos (objs i) = w then Break (Some (t, i)) else Next f)) None) c
     = c (map_option (Pair t) (find_fobj objs w i n))"
  by (induction n arbitrary: i) (simp_all add: after_loop)

lemma proto_fd_table [proto_helpers]: "proto_get_fd_table tbl p = Some (get_fd_table tbl p)"
  unfolding proto_get_fd_table_def find_pid_loop get_fd_table_def by (simp split: option.split)

lemma upd_fobj_twice:
  "upd_fobj (upd_fobj k t i f) t i g = upd_fobj k t i g" "fobj (upd_fobj k t i f) t i = f"
  by (simp_all add: upd_fobj_def)

lemma proto_create_object [proto_helpers]: "proto_create_file_object k p = Some (create_file_object k p)"
  unfolding proto_create_file_object_def proto_helpers Let_def unused_loop create_file_object_def
  by (simp add: upd_fobj_twice split: option.split)

lemma proto_find_object [proto_helpers]: "proto_find_file_object k p fd = Some (lookup_fd k p fd)"
  unfolding proto_find_file_object_def proto_helpers fobj_loop lookup_fd_def by (simp split: option.split)
end
