(* ===== verification/Proto_IO.thy ===== *)
theory Proto_IO
  imports Proto_Disk ReadWrite
begin

text \<open>
  The loops of \<^verbatim>\<open>rd_write\<close> and \<^verbatim>\<open>rd_read\<close> in the prototype \<^verbatim>\<open>Ramdisk/userspace/discos.c\<close>,
  translated with \<open>for_loop\<close>, and their agreement with those of the module.  A \<^verbatim>\<open>return\<close> inside
  a loop of \<^verbatim>\<open>rd_write\<close> leaves it with the value, the cursor and the partition.
\<close>

section \<open>Writing\<close>

text \<open>The six lines before every use of a new block: \<^verbatim>\<open>return -1\<close> when there is none.\<close>

definition proto_with_block ::
  "filesys_struct \<Rightarrow> 'a option \<Rightarrow> (ptr \<Rightarrow> filesys_struct \<Rightarrow> 'a option) \<Rightarrow> 'a option" where
  "proto_with_block s fail use = do {
     free_block_num \<leftarrow> proto_get_free_block_num_from_bitmap s;
     if free_block_num = -1 then fail
     else do { (q, s1) \<leftarrow> proto_allocate_data_block s free_block_num; use q s1 }
   }"

definition proto_write_bytes where
  "proto_write_bytes node block data num_bytes offset = (\<lambda>(s, cursor, written_bytes).
     for_loop offset (BLOCK_SIZE - offset) (\<lambda>j (s, cursor, written_bytes). do {
       c \<leftarrow> data_at data written_bytes;
       if c \<noteq> NUL then do {
         s1 \<leftarrow> store_char s (ptr_off s block + j) c;
         let s2 = set_inode s1 node ((inodes s1 node)\<lparr>isize := isize (inodes s1 node) + 1\<rparr>);
         Some (if int (written_bytes + 1) = num_bytes
               then Ret (int (written_bytes + 1), cursor + 1 :: 32 word, s2)
               else Next (s2, cursor + 1, written_bytes + 1))
       }
       else Some (Next (s, cursor, written_bytes))
     }) (s, cursor, written_bytes))"

definition proto_write_direct where
  "proto_write_direct node data num_bytes seg offset =
     for_loop seg (INODE_NUM_DIRECT_PTR - seg) (\<lambda>i (s, cursor, written_bytes).
       if pointers (inodes s node) i = 0
       then proto_with_block s (Some (Ret (-1, cursor, s))) (\<lambda>q s.
         let ino = inodes s node; s = set_inode s node (ino\<lparr>pointers := (pointers ino)(i := q)\<rparr>) in
         nest (proto_write_bytes node (pointers (inodes s node) i) data num_bytes offset (s, cursor, written_bytes)))
       else nest (proto_write_bytes node (pointers (inodes s node) i) data num_bytes offset (s, cursor, written_bytes)))"

definition proto_write_index where
  "proto_write_index node single_indirect data num_bytes seg offset =
     for_loop seg (PTRS_PER_BLOCK - seg) (\<lambda>i (s, cursor, written_bytes). do {
       block \<leftarrow> load_index s single_indirect i;
       if block = 0
       then proto_with_block s (Some (Ret (-1, cursor, s))) (\<lambda>q s. do {
         s \<leftarrow> store_index s single_indirect i q;
         block \<leftarrow> load_index s single_indirect i;
         nest (proto_write_bytes node block data num_bytes offset (s, cursor, written_bytes))
       })
       else nest (proto_write_bytes node block data num_bytes offset (s, cursor, written_bytes))
     })"

text \<open>\<^verbatim>\<open>seg = seg/64\<close> stands inside the outer loop.\<close>

definition proto_write_double where
  "proto_write_double node double_indirect data num_bytes offset =
     for_loop 0 PTRS_PER_BLOCK (\<lambda>i (seg, s, cursor, written_bytes). do {
       let fill = (\<lambda>single_indirect s. map_option (case_sum (\<lambda>st. Next (seg div 64, st)) Ret)
         (proto_write_index node single_indirect data num_bytes (seg div 64) offset (s, cursor, written_bytes)));
       single_indirect \<leftarrow> load_index s double_indirect i;
       if single_indirect = 0
       then proto_with_block s (Some (Ret (-1, cursor, s))) (\<lambda>q s. do {
         s \<leftarrow> store_index s (double_indirect_ptrs (inodes s node)) i q;
         single_indirect \<leftarrow> load_index s (double_indirect_ptrs (inodes s node)) i;
         fill single_indirect s
       })
       else fill single_indirect s
     })"

definition proto_write_stages ::
  "filesys_struct \<Rightarrow> nat \<Rightarrow> string \<Rightarrow> int \<Rightarrow> 32 word \<Rightarrow> (int \<times> 32 word \<times> filesys_struct) option" where
  "proto_write_stages s node data num_bytes cur =
     after (proto_write_direct node data num_bytes (unat cur div BLOCK_SIZE) (unat cur mod BLOCK_SIZE) (s, cur, 0))
     (\<lambda>(s, cursor, written_bytes).
       let size = unat (isize (inodes s node)); seg = size div BLOCK_SIZE; offset = size mod BLOCK_SIZE;
           fill = (\<lambda>s. proto_write_index node (single_indirect_ptrs (inodes s node)) data num_bytes (seg - 8) offset
                         (s, cursor, written_bytes)) in
       after (if 8 \<le> seg \<and> seg < 8 + 64
              then if single_indirect_ptrs (inodes s node) = 0
                then proto_with_block s (Some (Inr (-1, cursor, s))) (\<lambda>q s.
                  fill (set_inode s node ((inodes s node)\<lparr>single_indirect_ptrs := q\<rparr>)))
                else fill s
              else Some (Inl (s, cursor, written_bytes)))
     (\<lambda>(s, cursor, written_bytes).
       let size = unat (isize (inodes s node)); seg = size div BLOCK_SIZE; offset = size mod BLOCK_SIZE;
           fill = (\<lambda>s. proto_write_double node (double_indirect_ptrs (inodes s node)) data num_bytes offset
                         (seg - 8 - 64, s, cursor, written_bytes)) in
       after (if 8 + 64 \<le> seg \<and> seg < 8 + 64 + 64 * 64
              then if double_indirect_ptrs (inodes s node) = 0
                then proto_with_block s (Some (Inr (-1, cursor, s))) (\<lambda>q s.
                  fill (set_inode s node ((inodes s node)\<lparr>double_indirect_ptrs := q\<rparr>)))
                else fill s
              else Some (Inl (seg, s, cursor, written_bytes)))
     (\<lambda>(seg, s, cursor, written_bytes).
       Some (if 8 + 64 + 64 * 64 \<le> seg then int written_bytes else 0, cursor, s))))"


text \<open>How the results of the loops correspond.\<close>

fun of_block :: "bool \<times> 32 word \<times> nat \<times> filesys_struct
    \<Rightarrow> (filesys_struct \<times> 32 word \<times> nat) + (int \<times> 32 word \<times> filesys_struct)" where
  "of_block (finished, cur, written, s) = (if finished then Inr (int written, cur, s) else Inl (s, cur, written))"

fun of_ctl :: "int ctl \<times> 32 word \<times> nat \<times> filesys_struct
    \<Rightarrow> (filesys_struct \<times> 32 word \<times> nat) + (int \<times> 32 word \<times> filesys_struct)" where
  "of_ctl (Return v, cur, written, s) = Inr (v, cur, s)"
| "of_ctl (Fall, cur, written, s) = Inl (s, cur, written)"

fun of_ctl_seg :: "int ctl \<times> nat \<times> 32 word \<times> nat \<times> filesys_struct
    \<Rightarrow> (nat \<times> filesys_struct \<times> 32 word \<times> nat) + (int \<times> 32 word \<times> filesys_struct)" where
  "of_ctl_seg (Return v, seg, cur, written, s) = Inr (v, cur, s)"
| "of_ctl_seg (Fall, seg, cur, written, s) = Inl (seg, s, cur, written)"

lemma proto_with_block_eq:
  "proto_with_block s fail use =
     (if get_free_block_num_from_bitmap s = -1 then fail
      else do { (q, s1) \<leftarrow> allocate_data_block s (get_free_block_num_from_bitmap s); use q s1 })"
  by (simp add: proto_with_block_def proto_helpers)

lemma write_bytes_loop:
  "for_loop j m (\<lambda>j (s, cursor, written_bytes). do {
       c \<leftarrow> data_at data written_bytes;
       if c \<noteq> NUL then do {
         s1 \<leftarrow> store_char s (ptr_off s block + j) c;
         let s2 = set_inode s1 node ((inodes s1 node)\<lparr>isize := isize (inodes s1 node) + 1\<rparr>);
         Some (if int (written_bytes + 1) = num_bytes
               then Ret (int (written_bytes + 1), cursor + 1 :: 32 word, s2)
               else Next (s2, cursor + 1, written_bytes + 1))
       }
       else Some (Next (s, cursor, written_bytes))
     }) (s, cur, written) = map_option of_block (write_block s node block data num_bytes j m cur written)"
proof (induction m arbitrary: j s cur written)
  case (Suc m)
  show ?case
  proof (cases "data_at data written")
    case (Some c)
    then show ?thesis
      by (cases "store_char s (ptr_off s block + j) c") (simp_all add: for_loop.simps Let_def Suc.IH)
  qed (simp add: for_loop.simps)
qed (simp add: for_loop.simps)

lemma write_bytes_eq:
  "proto_write_bytes node block data num_bytes offset (s, cur, written)
     = map_option of_block (write_block s node block data num_bytes offset (BLOCK_SIZE - offset) cur written)"
  by (simp add: proto_write_bytes_def write_bytes_loop)

text \<open>One iteration of a loop over blocks, once the block is there.\<close>

lemma map_bind_option: "map_option f (Option.bind m g) = Option.bind m (\<lambda>x. map_option f (g x))"
  by (cases m) simp_all

lemma write_block_step:
  assumes "\<And>s cur written. F (s, cur, written) = map_option of_ctl (W s cur written)"
  shows "(do { r \<leftarrow> nest (map_option of_block m);
         (case r of Next s' \<Rightarrow> F s' | Break s' \<Rightarrow> Some (Inl s') | Ret v \<Rightarrow> Some (Inr v)) })
     = map_option of_ctl (do { (finished, cur, written, s) \<leftarrow> m;
            if finished then Some (Return (int written), cur, written, s) else W s cur written })"
  by (cases m) (auto simp: assms split: prod.splits)

lemma direct_write_loop:
  "for_loop i n (\<lambda>i (s, cursor, written_bytes).
       if pointers (inodes s node) i = 0
       then proto_with_block s (Some (Ret (-1, cursor, s))) (\<lambda>q s.
         let ino = inodes s node; s = set_inode s node (ino\<lparr>pointers := (pointers ino)(i := q)\<rparr>) in
         nest (proto_write_bytes node (pointers (inodes s node) i) data num_bytes offset (s, cursor, written_bytes)))
       else nest (proto_write_bytes node (pointers (inodes s node) i) data num_bytes offset (s, cursor, written_bytes)))
     (s, cur, written)
     = map_option of_ctl (write_direct s node data num_bytes offset i n cur written)"
proof (induction n arbitrary: i s cur written)
  case (Suc n)
  note step = write_block_step [of "for_loop (Suc i) n B" for B, OF Suc.IH]
  show ?case
  proof (cases "allocate_data_block s (get_free_block_num_from_bitmap s)")
    case None
    then show ?thesis
      by (simp add: for_loop.simps(2) proto_with_block_eq write_bytes_eq step)
  next
    case (Some qs)
    then show ?thesis
      by (cases qs) (simp add: for_loop.simps(2) proto_with_block_eq write_bytes_eq step Let_def)
  qed
qed (simp add: for_loop.simps)

lemma write_direct_eq:
  "proto_write_direct node data num_bytes seg offset (s, cur, written)
     = map_option of_ctl (write_direct s node data num_bytes offset seg (INODE_NUM_DIRECT_PTR - seg) cur written)"
  by (simp add: proto_write_direct_def direct_write_loop)

lemma index_write_loop:
  "for_loop i n (\<lambda>i (s, cursor, written_bytes). do {
       block \<leftarrow> load_index s single_indirect i;
       if block = 0
       then proto_with_block s (Some (Ret (-1, cursor, s))) (\<lambda>q s. do {
         s \<leftarrow> store_index s single_indirect i q;
         block \<leftarrow> load_index s single_indirect i;
         nest (proto_write_bytes node block data num_bytes offset (s, cursor, written_bytes))
       })
       else nest (proto_write_bytes node block data num_bytes offset (s, cursor, written_bytes))
     }) (s, cur, written)
     = map_option of_ctl (write_index s node single_indirect data num_bytes offset i n cur written)"
proof (induction n arbitrary: i s cur written)
  case (Suc n)
  note step = write_block_step [of "for_loop (Suc i) n B" for B, OF Suc.IH]
  note unf = for_loop.simps(2) proto_with_block_eq write_bytes_eq step
  show ?case
    by (cases "load_index s single_indirect i")
      (auto simp: for_loop.simps(2) proto_with_block_eq write_bytes_eq step map_bind_option bind_assoc
        intro!: bind_option_cong split: prod.splits)
qed (simp add: for_loop.simps)

lemma write_index_eq:
  "proto_write_index node single_indirect data num_bytes seg offset (s, cur, written)
     = map_option of_ctl (write_index s node single_indirect data num_bytes offset seg (PTRS_PER_BLOCK - seg) cur written)"
  by (simp add: proto_write_index_def index_write_loop)

lemma write_index_step:
  assumes "\<And>s cur written. F (seg, s, cur, written) = map_option of_ctl_seg (W s cur written)"
  shows "(do { r \<leftarrow> map_option (case_sum (\<lambda>st. Next (seg, st)) Ret) (map_option of_ctl m);
         (case r of Next s' \<Rightarrow> F s' | Break s' \<Rightarrow> Some (Inl s') | Ret v \<Rightarrow> Some (Inr v)) })
     = map_option of_ctl_seg (do { (r, cur, written, s) \<leftarrow> m;
            (case r of Return v \<Rightarrow> Some (Return v, seg, cur, written, s) | Fall \<Rightarrow> W s cur written) })"
  by (cases m) (auto simp: assms split: prod.splits ctl.splits)

lemma double_write_loop:
  "for_loop i n (\<lambda>i (seg, s, cursor, written_bytes). do {
       let fill = (\<lambda>single_indirect s. map_option (case_sum (\<lambda>st. Next (seg div 64, st)) Ret)
         (proto_write_index node single_indirect data num_bytes (seg div 64) offset (s, cursor, written_bytes)));
       single_indirect \<leftarrow> load_index s double_indirect i;
       if single_indirect = 0
       then proto_with_block s (Some (Ret (-1, cursor, s))) (\<lambda>q s. do {
         s \<leftarrow> store_index s (double_indirect_ptrs (inodes s node)) i q;
         single_indirect \<leftarrow> load_index s (double_indirect_ptrs (inodes s node)) i;
         fill single_indirect s
       })
       else fill single_indirect s
     }) (seg, s, cur, written)
     = map_option of_ctl_seg (write_double s node double_indirect data num_bytes offset seg i n cur written)"
proof (induction n arbitrary: i seg s cur written)
  case (Suc n)
  note step = write_index_step [of "for_loop (Suc i) n B" for B, OF Suc.IH, unfolded Let_def write_index_eq]
  show ?case
    by (cases "load_index s double_indirect i")
      (auto simp: for_loop.simps(2) proto_with_block_eq write_index_eq step map_bind_option bind_assoc Let_def
        intro!: bind_option_cong split: prod.splits)
qed (simp add: for_loop.simps)

lemma write_double_eq:
  "proto_write_double node double_indirect data num_bytes offset (seg, s, cur, written)
     = map_option of_ctl_seg (write_double s node double_indirect data num_bytes offset seg 0 PTRS_PER_BLOCK cur written)"
  unfolding proto_write_double_def by (rule double_write_loop)

lemma single_stage_eq:
  "(if single_indirect_ptrs (inodes s node) = 0
    then proto_with_block s (Some (Inr (-1, cur, s))) (\<lambda>q s.
      proto_write_index node
        (single_indirect_ptrs (inodes (set_inode s node ((inodes s node)\<lparr>single_indirect_ptrs := q\<rparr>)) node))
        data num_bytes (seg - 8) offset (set_inode s node ((inodes s node)\<lparr>single_indirect_ptrs := q\<rparr>), cur, written))
    else proto_write_index node (single_indirect_ptrs (inodes s node)) data num_bytes (seg - 8) offset (s, cur, written))
   = map_option of_ctl (write_single_stage s node data num_bytes seg offset cur written)"
  by (auto simp: proto_with_block_eq write_index_eq write_single_stage_def map_bind_option bind_assoc
      intro!: bind_option_cong split: prod.splits)

lemma double_stage_eq:
  "(if double_indirect_ptrs (inodes s node) = 0
    then proto_with_block s (Some (Inr (-1, cur, s))) (\<lambda>q s.
      proto_write_double node
        (double_indirect_ptrs (inodes (set_inode s node ((inodes s node)\<lparr>double_indirect_ptrs := q\<rparr>)) node))
        data num_bytes offset (seg - 8 - 64, set_inode s node ((inodes s node)\<lparr>double_indirect_ptrs := q\<rparr>), cur, written))
    else proto_write_double node (double_indirect_ptrs (inodes s node)) data num_bytes offset (seg - 8 - 64, s, cur, written))
   = map_option of_ctl_seg (write_double_stage s node data num_bytes seg offset cur written)"
  by (auto simp: proto_with_block_eq write_double_eq write_double_stage_def map_bind_option bind_assoc
      intro!: bind_option_cong split: prod.splits)

lemma after_ctl:
  "after (map_option of_ctl m) k = do { (r, cur, written, s) \<leftarrow> m;
     (case r of Return v \<Rightarrow> Some (v, cur, s) | Fall \<Rightarrow> k (s, cur, written)) }"
  by (cases m) (auto split: prod.splits ctl.splits)

lemma after_ctl_seg:
  "after (map_option of_ctl_seg m) k = do { (r, seg, cur, written, s) \<leftarrow> m;
     (case r of Return v \<Rightarrow> Some (v, cur, s) | Fall \<Rightarrow> k (seg, s, cur, written)) }"
  by (cases m) (auto split: prod.splits ctl.splits)

lemma proto_write_stages_eq [proto_helpers]: "proto_write_stages s node data num_bytes cur = write_stages s node data num_bytes cur"
  unfolding proto_write_stages_def write_stages_def Let_def write_direct_eq single_stage_eq double_stage_eq after_ctl
  by (intro bind_option_cong refl)
    (auto simp: after_ctl after_ctl_seg intro!: bind_option_cong split: prod.splits ctl.splits)

section \<open>Reading\<close>

text \<open>\<open>len\<close> is the length of \<^verbatim>\<open>char read_buffer[bytes_to_read+1]\<close>; a byte stored behind its end
  is undefined.  No loop of \<^verbatim>\<open>rd_read\<close> returns, each yields the cursor, \<^verbatim>\<open>bytes_read\<close> and the
  buffer.\<close>

type_synonym reading = "32 word \<times> nat \<times> (nat \<Rightarrow> char)"

definition proto_read_bytes :: "filesys_struct \<Rightarrow> ptr \<Rightarrow> int \<Rightarrow> nat \<Rightarrow> nat \<Rightarrow> reading \<Rightarrow> reading option" where
  "proto_read_bytes s block bytes_to_read len offset st =
     after (for_loop offset (BLOCK_SIZE - offset) (\<lambda>j (cursor, bytes_read, read_buffer). do {
       c \<leftarrow> load_char s (ptr_off s block + j);
       if c \<noteq> NUL then
         if bytes_read < len then
           let st = (cursor + 1, bytes_read + 1, read_buffer(bytes_read := c)) in
           Some (if int (bytes_read + 1) = bytes_to_read then Break st else Next st)
         else None
       else Some (Next (cursor, bytes_read, read_buffer))
     }) st) Some"

text \<open>What follows a block in the loops over blocks.\<close>

definition stop_when_read :: "int \<Rightarrow> reading \<Rightarrow> (reading, reading) flow" where
  "stop_when_read bytes_to_read = (\<lambda>(cursor, bytes_read, read_buffer).
     if int bytes_read = bytes_to_read then Break (cursor, bytes_read, read_buffer)
     else Next (cursor, bytes_read, read_buffer))"

definition proto_read_direct :: "filesys_struct \<Rightarrow> inode_struct \<Rightarrow> int \<Rightarrow> nat \<Rightarrow> nat \<Rightarrow> nat \<Rightarrow> reading \<Rightarrow> reading option" where
  "proto_read_direct s inode bytes_to_read len seg offset st =
     after (for_loop seg (INODE_NUM_DIRECT_PTR - seg) (\<lambda>i st. do {
       st \<leftarrow> (if pointers inode i \<noteq> 0
              then proto_read_bytes s (pointers inode i) bytes_to_read len offset st else Some st);
       Some (stop_when_read bytes_to_read st)
     }) st) Some"

definition proto_read_index :: "filesys_struct \<Rightarrow> ptr \<Rightarrow> int \<Rightarrow> nat \<Rightarrow> nat \<Rightarrow> nat \<Rightarrow> reading \<Rightarrow> reading option" where
  "proto_read_index s single_indirect bytes_to_read len seg offset st =
     after (for_loop seg (PTRS_PER_BLOCK - seg) (\<lambda>i st. do {
       block \<leftarrow> load_index s single_indirect i;
       st \<leftarrow> (if block \<noteq> 0 then proto_read_bytes s block bytes_to_read len offset st else Some st);
       Some (stop_when_read bytes_to_read st)
     }) st) Some"

definition proto_read_double :: "filesys_struct \<Rightarrow> ptr \<Rightarrow> int \<Rightarrow> nat \<Rightarrow> nat \<Rightarrow> nat \<Rightarrow> reading \<Rightarrow> reading option" where
  "proto_read_double s double_indirect bytes_to_read len seg offset st =
     map_option snd (after (for_loop 0 PTRS_PER_BLOCK (\<lambda>i (seg, st). do {
       single_indirect \<leftarrow> load_index s double_indirect i;
       let seg = (if single_indirect \<noteq> 0 then seg div 64 else seg);
       st \<leftarrow> (if single_indirect \<noteq> 0
              then proto_read_index s single_indirect bytes_to_read len seg offset st else Some st);
       Some (if int (fst (snd st)) = bytes_to_read then Break (seg, st) else Next (seg, st))
     }) (seg, st)) Some)"

definition proto_read_stages ::
  "filesys_struct \<Rightarrow> inode_struct \<Rightarrow> int \<Rightarrow> nat \<Rightarrow> 32 word \<Rightarrow> (nat \<Rightarrow> char) \<Rightarrow> reading option" where
  "proto_read_stages s inode bytes_to_read len cur rb = do {
     (cursor, bytes_read, read_buffer) \<leftarrow>
       proto_read_direct s inode bytes_to_read len (unat cur div BLOCK_SIZE) (unat cur mod BLOCK_SIZE)
         (cur, 0, rb);
     let seg = unat cursor div BLOCK_SIZE;
     let offset = unat cursor mod BLOCK_SIZE;
     (cursor, bytes_read, read_buffer) \<leftarrow>
       (if int bytes_read < bytes_to_read \<and> 8 \<le> seg \<and> seg < 8 + 64
        then let seg = seg - 8 in
          if single_indirect_ptrs inode \<noteq> 0
          then proto_read_index s (single_indirect_ptrs inode) bytes_to_read len seg offset
                 (cursor, bytes_read, read_buffer)
          else Some (cursor, bytes_read, read_buffer)
        else Some (cursor, bytes_read, read_buffer));
     let seg = unat cursor div BLOCK_SIZE;
     let offset = unat cursor mod BLOCK_SIZE;
     if int bytes_read < bytes_to_read \<and> 8 + 64 \<le> seg \<and> seg < 8 + 64 + 64 * 64
     then if double_indirect_ptrs inode \<noteq> 0
       then let seg = seg - 8 - 64 in
         proto_read_double s (double_indirect_ptrs inode) bytes_to_read len seg offset
           (cursor, bytes_read, read_buffer)
       else Some (cursor, bytes_read, read_buffer)
     else Some (cursor, bytes_read, read_buffer)
   }"

text \<open>A request that the buffer of the module can hold never reaches the end of either buffer,
  as long as less than what was requested has been read.\<close>

lemma read_bytes_loop:
  assumes "int n_read < to_read" "to_read \<le> int READ_BUFFER_SIZE"
  shows "after (for_loop j m (\<lambda>j (cursor, bytes_read, read_buffer). do {
       c \<leftarrow> load_char s (ptr_off s block + j);
       if c \<noteq> NUL then
         if bytes_read < nat to_read + 1 then
           let st = (cursor + 1, bytes_read + 1, read_buffer(bytes_read := c)) in
           Some (if int (bytes_read + 1) = to_read then Break st else Next st)
         else None
       else Some (Next (cursor, bytes_read, read_buffer))
     }) (cur, n_read, rb)) Some = read_block s block to_read j m cur n_read rb"
  using assms(1)
proof (induction m arbitrary: j cur n_read rb)
  case (Suc m)
  have "n_read < nat to_read + 1" "n_read < READ_BUFFER_SIZE" using Suc.prems assms(2) by linarith+
  moreover have "int (n_read + 1) < to_read" if "int (n_read + 1) \<noteq> to_read" using that Suc.prems by simp
  ultimately show ?case
    using Suc.IH Suc.prems by (cases "load_char s (ptr_off s block + j)") (simp_all add: after_loop Let_def)
qed (simp add: after_loop)

lemma read_block_count:
  "read_block s block to_read j m cur n_read rb = Some (cur1, n1, rb1) \<Longrightarrow> int n_read < to_read \<Longrightarrow> int n1 \<le> to_read"
proof (induction m arbitrary: j cur n_read rb)
  case (Suc m)
  have "int (n_read + 1) < to_read" if "int (n_read + 1) \<noteq> to_read" using that Suc.prems(2) by simp
  then show ?case
    using Suc by (auto simp: bind_eq_Some_conv Let_def split: if_splits)
qed simp

lemma read_bytes_eq:
  "int n_read < to_read \<Longrightarrow> to_read \<le> int READ_BUFFER_SIZE \<Longrightarrow>
   proto_read_bytes s block to_read (nat to_read + 1) offset (cur, n_read, rb)
     = read_block s block to_read offset (BLOCK_SIZE - offset) cur n_read rb"
  unfolding proto_read_bytes_def by (rule read_bytes_loop)

text \<open>An iteration over blocks, in both versions: the block is read or skipped, and the loop
  goes on when there is more to read.\<close>

lemma read_block_step:
  assumes "int n_read < to_read" "to_read \<le> int READ_BUFFER_SIZE"
    and "\<And>cur n_read rb. int n_read < to_read \<Longrightarrow> F (cur, n_read, rb) = W cur n_read rb"
  shows "do {
      st \<leftarrow> (if b then proto_read_bytes s block to_read (nat to_read + 1) offset (cur, n_read, rb)
             else Some (cur, n_read, rb));
      (case stop_when_read to_read st of Next st \<Rightarrow> F st | Break st \<Rightarrow> Some st | Ret v \<Rightarrow> Some v)
    } = do {
      (cur1, n1, rb1) \<leftarrow> (if b then read_block s block to_read offset (BLOCK_SIZE - offset) cur n_read rb
             else Some (cur, n_read, rb));
      if int n1 = to_read then Some (cur1, n1, rb1) else W cur1 n1 rb1
    }"
proof (cases b)
  case True
  show ?thesis
  proof (cases "read_block s block to_read offset (BLOCK_SIZE - offset) cur n_read rb")
    case (Some r)
    then obtain cur1 n1 rb1 where r: "r = (cur1, n1, rb1)" by (cases r)
    have "int n1 \<le> to_read" using read_block_count [OF _ assms(1)] Some r by blast
    then show ?thesis
      using True Some r assms read_bytes_eq [OF assms(1,2), of s block offset cur rb]
      by (simp add: stop_when_read_def)
  qed (use True assms read_bytes_eq [OF assms(1,2), of s block offset cur rb] in simp)
qed (use assms in \<open>simp add: stop_when_read_def\<close>)

lemma read_direct_loop:
  assumes "int n_read < to_read" "to_read \<le> int READ_BUFFER_SIZE"
  shows "after (for_loop i n (\<lambda>i st. do {
       st \<leftarrow> (if pointers inode i \<noteq> 0
              then proto_read_bytes s (pointers inode i) to_read (nat to_read + 1) offset st else Some st);
       Some (stop_when_read to_read st)
     }) (cur, n_read, rb)) Some = read_direct s inode to_read offset i n cur n_read rb"
  using assms(1)
proof (induction n arbitrary: i cur n_read rb)
  case (Suc n)
  show ?case
    using read_block_step [where F = "\<lambda>st. after (for_loop (Suc i) n B st) Some" for B, OF Suc.prems assms(2) Suc.IH]
    by (simp add: after_loop(2))
qed (simp add: after_loop)

lemma read_index_loop:
  assumes "int n_read < to_read" "to_read \<le> int READ_BUFFER_SIZE"
  shows "after (for_loop i n (\<lambda>i st. do {
       block \<leftarrow> load_index s single_indirect i;
       st \<leftarrow> (if block \<noteq> 0 then proto_read_bytes s block to_read (nat to_read + 1) offset st else Some st);
       Some (stop_when_read to_read st)
     }) (cur, n_read, rb)) Some = read_index s single_indirect to_read offset i n cur n_read rb"
  using assms(1)
proof (induction n arbitrary: i cur n_read rb)
  case (Suc n)
  show ?case
    using read_block_step [where F = "\<lambda>st. after (for_loop (Suc i) n B st) Some" for B, OF Suc.prems assms(2) Suc.IH]
    by (cases "load_index s single_indirect i") (simp_all add: after_loop(2))
qed (simp add: after_loop)

lemma read_index_eq:
  "int n_read < to_read \<Longrightarrow> to_read \<le> int READ_BUFFER_SIZE \<Longrightarrow>
   proto_read_index s single_indirect to_read (nat to_read + 1) seg offset (cur, n_read, rb)
     = read_index s single_indirect to_read offset seg (PTRS_PER_BLOCK - seg) cur n_read rb"
  unfolding proto_read_index_def by (rule read_index_loop)

lemma read_direct_count:
  "read_direct s inode to_read offset i n cur n_read rb = Some (cur1, n1, rb1) \<Longrightarrow> int n_read < to_read \<Longrightarrow> int n1 \<le> to_read"
proof (induction n arbitrary: i cur n_read rb)
  case (Suc n)
  then show ?case
    by (auto simp: bind_eq_Some_conv split: if_splits dest!: read_block_count intro: order_le_neq_trans)
qed simp

lemma read_index_count:
  "read_index s single_indirect to_read offset i n cur n_read rb = Some (cur1, n1, rb1) \<Longrightarrow> int n_read < to_read \<Longrightarrow> int n1 \<le> to_read"
proof (induction n arbitrary: i cur n_read rb)
  case (Suc n)
  then show ?case
    by (auto simp: bind_eq_Some_conv split: if_splits dest!: read_block_count intro: order_le_neq_trans)
qed simp

lemma read_double_loop:
  assumes "int n_read < to_read" "to_read \<le> int READ_BUFFER_SIZE"
  shows "map_option snd (after (for_loop i n (\<lambda>i (seg, st). do {
       single_indirect \<leftarrow> load_index s double_indirect i;
       let seg = (if single_indirect \<noteq> 0 then seg div 64 else seg);
       st \<leftarrow> (if single_indirect \<noteq> 0
              then proto_read_index s single_indirect to_read (nat to_read + 1) seg offset st else Some st);
       Some (if int (fst (snd st)) = to_read then Break (seg, st) else Next (seg, st))
     }) (seg, cur, n_read, rb)) Some) = read_double s double_indirect to_read offset seg i n cur n_read rb"
  using assms(1)
proof (induction n arbitrary: i seg cur n_read rb)
  case (Suc n)
  show ?case
  proof (cases "load_index s double_indirect i")
    case (Some single_indirect)
    note load = this
    show ?thesis
    proof (cases "single_indirect = 0")
      case True
      then show ?thesis using load Suc by (simp add: after_loop(2) Let_def)
    next
      case False
      let ?r = "read_index s single_indirect to_read offset (seg div 64) (PTRS_PER_BLOCK - seg div 64) cur n_read rb"
      have eq: "proto_read_index s single_indirect to_read (nat to_read + 1) (seg div 64) offset (cur, n_read, rb) = ?r"
        using read_index_eq Suc.prems assms(2) by blast
      show ?thesis
      proof (cases ?r)
        case None
        then show ?thesis using False load eq by (simp add: after_loop(2) Let_def)
      next
        case (Some r)
        then obtain cur1 n1 rb1 where r: "?r = Some (cur1, n1, rb1)" by (cases r) auto
        have "int n1 \<le> to_read" using read_index_count [OF r Suc.prems] .
        then show ?thesis using False load eq r Suc.IH by (simp add: after_loop(2) Let_def)
      qed
    qed
  qed (simp add: after_loop(2))
qed (simp add: after_loop)

text \<open>For a request of at least one byte that fits into the buffer of the module, both versions
  of the loops read the same.\<close>

lemma proto_read_stages_eq:
  assumes "0 < to_read" "to_read \<le> int READ_BUFFER_SIZE"
  shows "proto_read_stages s inode to_read (nat to_read + 1) cur rb = read_stages s inode to_read cur rb"
proof -
  have direct: "proto_read_direct s inode to_read (nat to_read + 1) seg offset (c, 0, b)
      = read_direct s inode to_read offset seg (INODE_NUM_DIRECT_PTR - seg) c 0 b" for seg offset c b
    unfolding proto_read_direct_def by (rule read_direct_loop) (use assms in simp_all)
  have double: "proto_read_double s p to_read (nat to_read + 1) seg offset (c, n, b)
      = read_double s p to_read offset seg 0 PTRS_PER_BLOCK c n b" if "int n < to_read" for p seg offset c n b
    unfolding proto_read_double_def by (rule read_double_loop [OF that assms(2)])
  show ?thesis
    unfolding proto_read_stages_def read_stages_def direct
    by (auto simp: Let_def read_index_eq [OF _ assms(2)] double intro!: bind_option_cong split: prod.splits
      simp del: One_nat_def add_Suc_right)
qed
end
