(* ===== verification/Proto.thy ===== *)
theory Proto
  imports RoundTrip Proto_IO
begin

text \<open>
  The user space prototype \<^verbatim>\<open>Ramdisk/userspace/discos.c\<close>, from which the module was made.
  \<open>Proto_Disk\<close> has its helper routines, \<open>Proto_IO\<close> the loops of \<^verbatim>\<open>rd_write\<close> and
  \<^verbatim>\<open>rd_read\<close>; this theory has the operations.  The prototype
  splits paths with
  \<^verbatim>\<open>strtok\<close>, which skips empty components, it does not clear the buffers it gets from
  \<^verbatim>\<open>malloc\<close>, it clears only the first bytes of the partition, and it reads through a buffer
  on the stack and \<^verbatim>\<open>strcpy\<close>.  \<open>mal\<close> is \<^verbatim>\<open>malloc\<close>, an allocator as in \<open>Paths\<close>: it may
  return \<^verbatim>\<open>NULL\<close>, and an object of any contents and of the length \<^verbatim>\<open>malloc_usable_size\<close> tells.
\<close>

section \<open>Paths\<close>

text \<open>The tokens that \<^verbatim>\<open>strtok(s, "/")\<close> and the calls after it return.\<close>

function strtok_tokens :: "string \<Rightarrow> string list" where
  "strtok_tokens s =
     (let s1 = dropWhile (\<lambda>c. c = CHR ''/'') s in
      if s1 = [] then []
      else takeWhile (\<lambda>c. c \<noteq> CHR ''/'') s1 # strtok_tokens (tl (dropWhile (\<lambda>c. c \<noteq> CHR ''/'') s1)))"
  by pat_completeness auto

termination
proof (relation "measure length")
  fix s s1 :: string
  assume s1: "s1 = dropWhile (\<lambda>c. c = CHR ''/'') s" "s1 \<noteq> []"
  have "length (tl (dropWhile (\<lambda>c. c \<noteq> CHR ''/'') s1)) < length s1"
    using length_dropWhile_le [of "\<lambda>c. c \<noteq> CHR ''/''" s1] s1(2) by (cases s1) (auto simp: le_less_Suc_eq less_Suc_eq_le)
  also have "\<dots> \<le> length s" unfolding s1(1) by (rule length_dropWhile_le)
  finally show "(tl (dropWhile (\<lambda>c. c \<noteq> CHR ''/'') s1), s) \<in> measure length" by simp
qed simp

declare strtok_tokens.simps [simp del]

text \<open>The search in the copy of the path, and the copies, which nothing clears.\<close>

definition search_tokens :: "filesys_struct \<Rightarrow> string \<Rightarrow> int option" where
  "search_tokens s temp_pathname =
     (let ts = strtok_tokens temp_pathname in if ts = [] then Some 0 else walk s 0 ts)"

definition proto_copy_path :: "allocator \<Rightarrow> alloc_use \<Rightarrow> string \<Rightarrow> string option" where
  "proto_copy_path mal u path = do {
     buf \<leftarrow> mal u (length path);
     if length path < length buf then Some path else None
   }"

definition find_inode_number :: "allocator \<Rightarrow> filesys_struct \<Rightarrow> string \<Rightarrow> int option" where
  "find_inode_number mal s pathname = do {
     temp_pathname \<leftarrow> proto_copy_path mal Temp_Path pathname;
     search_tokens s temp_pathname
   }"

definition proto_split_path :: "allocator \<Rightarrow> string \<Rightarrow> (string \<times> string) option" where
  "proto_split_path mal pathname = do {
     buf \<leftarrow> mal Dir_Part (length pathname);
     name_buf \<leftarrow> mal Name_Part (length pathname);
     (dir_buf, name) \<leftarrow> proto_parse_absolute_path pathname buf;
     if length buf < length dir_buf \<or> length name_buf \<le> length name then None
     else do { dir \<leftarrow> c_string dir_buf; Some (dir, name) }
   }"

section \<open>Operations\<close>

text \<open>\<^verbatim>\<open>memset(discos, 0, sizeof(sizeof(filesys_struct)))\<close> clears as many bytes as a
  \<^verbatim>\<open>size_t\<close> has: the two counters of the superblock.  \<open>g\<close> is what \<^verbatim>\<open>malloc\<close> returned.\<close>

definition proto_mkdir_root :: "filesys_struct \<Rightarrow> int \<times> filesys_struct" where
  "proto_mkdir_root s =
     (if free_inodes s = of_nat MAX_NUM_FILE
      then (0, set_inode (s\<lparr>free_inodes := free_inodes s - 1\<rparr>) 0 ((inodes s 0)\<lparr>itype := ''dir''\<rparr>))
      else (-1, s))"

definition proto_init_file_sys :: "filesys_struct \<Rightarrow> (int \<times> filesys_struct) option" where
  "proto_init_file_sys g =
     (if discos_addr g = 0 then None
      else let s = g\<lparr>free_blocks := 0, free_inodes := 0\<rparr> in
        Some (proto_mkdir_root (s\<lparr>free_blocks := of_nat DATA_BLOCKS_NUM, free_inodes := of_nat MAX_NUM_FILE\<rparr>)))"

definition proto_rd_create ::
  "allocator \<Rightarrow> filesys_struct \<Rightarrow> string \<Rightarrow> string \<Rightarrow> 32 word \<Rightarrow> (int \<times> filesys_struct) option" where
  "proto_rd_create mal s pathname type mode =
     (if free_inodes s = 0 then Some (-1, s)
      else if free_blocks s = 0 then Some (-1, s)
      else do {
        (current_path, entry_name) \<leftarrow> proto_split_path mal pathname;
        cur_inode_num \<leftarrow> find_inode_number mal s current_path;
        if cur_inode_num = -1 then Some (-1, s)
        else do {
          (free_dir_entry, s1) \<leftarrow> proto_get_next_entry s (nat cur_inode_num);
          (case free_dir_entry of
             None \<Rightarrow> Some (-1, s1)
           | Some e \<Rightarrow> do {
                free_inode_num \<leftarrow> proto_get_free_inode_num s1;
                if free_inode_num = -1 then Some (-1, s1)
                else do {
                  s2 \<leftarrow> proto_allocate_inode s1 (nat free_inode_num);
                  s3 \<leftarrow> strcpy_to s2 e entry_name;
                  s4 \<leftarrow> store_inode_num s3 e (nat free_inode_num);
                  let s5 = set_inode s4 (nat free_inode_num)
                             ((inodes s4 (nat free_inode_num))\<lparr>itype := type, access := mode\<rparr>);
                  let cur = inodes s5 (nat cur_inode_num);
                  let s6 = set_inode s5 (nat cur_inode_num) (cur\<lparr>isize := isize cur + 16\<rparr>);
                  Some (0, s6)
                }
              })
        }
      })"

text \<open>Directories get the mode \<^verbatim>\<open>RW\<close>.\<close>

definition proto_rd_mkdir :: "allocator \<Rightarrow> filesys_struct \<Rightarrow> string \<Rightarrow> (int \<times> filesys_struct) option" where
  "proto_rd_mkdir mal s pathname =
     (if pathname = ''/'' then Some (proto_mkdir_root s)
      else do {
        (ret, s1) \<leftarrow> proto_rd_create mal s pathname ''dir'' RW;
        Some (if ret = 0 then 0 else -1, s1)
      })"

definition proto_rd_unlink :: "allocator \<Rightarrow> filesys_struct \<Rightarrow> string \<Rightarrow> (int \<times> filesys_struct) option" where
  "proto_rd_unlink mal s path = do {
     pathname \<leftarrow> proto_copy_path mal Path_Copy path;
     if pathname = ''/'' then Some (-1, s)
     else do {
       file_inode_num \<leftarrow> find_inode_number mal s pathname;
       if file_inode_num = -1 then Some (-1, s)
       else do {
         file_inode \<leftarrow> get_inode s (nat file_inode_num);
         if itype file_inode = ''dir'' \<and> isize file_inode > 0 then Some (-1, s)
         else do {
           (current_dir, filename) \<leftarrow> proto_split_path mal pathname;
           current_dir_inode_num \<leftarrow> find_inode_number mal s current_dir;
           if current_dir_inode_num = -1 then Some (-1, s)
           else do {
             cur_dir_inode \<leftarrow> get_inode s (nat current_dir_inode_num);
             s1 \<leftarrow> clear_inode s (nat file_inode_num);
             s2 \<leftarrow> proto_clear_entry_in_current_dir s1 (nat current_dir_inode_num) filename;
             let cur = inodes s2 (nat current_dir_inode_num);
             let s3 = set_inode s2 (nat current_dir_inode_num) (cur\<lparr>isize := isize cur - 16\<rparr>);
             let s4 = set_inode s3 (nat file_inode_num) zero_inode;
             Some (0, s4\<lparr>free_inodes := free_inodes s4 + 1\<rparr>)
           }
         }
       }
     }
   }"

definition proto_rd_chmod :: "allocator \<Rightarrow> filesys_struct \<Rightarrow> string \<Rightarrow> 32 word \<Rightarrow> (int \<times> filesys_struct) option" where
  "proto_rd_chmod mal s path mode = do {
     pathname \<leftarrow> proto_copy_path mal Path_Copy path;
     if pathname = ''/'' then Some (-1, s)
     else do {
       file_inode_num \<leftarrow> find_inode_number mal s pathname;
       if file_inode_num = -1 then Some (-1, s)
       else do {
         file_inode \<leftarrow> get_inode s (nat file_inode_num);
         Some (0, set_inode s (nat file_inode_num) (file_inode\<lparr>access := mode\<rparr>))
       }
     }
   }"

definition proto_rd_open :: "allocator \<Rightarrow> kernel \<Rightarrow> string \<Rightarrow> 32 word \<Rightarrow> int \<Rightarrow> (int \<times> kernel) option" where
  "proto_rd_open mal k path flags p = do {
     pathname \<leftarrow> proto_copy_path mal Path_Copy path;
     if pathname = ''/'' then Some (-1, k)
     else do {
       file_inode_num \<leftarrow> find_inode_number mal (fs k) pathname;
       if file_inode_num = -1 then Some (-1, k)
       else do {
         file_inode \<leftarrow> get_inode (fs k) (nat file_inode_num);
         if access_denied flags (access file_inode) then Some (-1, k)
         else do {
           f_obj \<leftarrow> proto_create_file_object k p;
           (case f_obj of
             None \<Rightarrow> Some (-1, k)
           | Some ((t, i), k1) \<Rightarrow>
               let k2 = upd_fobj k1 t i ((fobj k1 t i)\<lparr>cursor := 0,
                          inode_ptr := Some (nat file_inode_num), status := flags\<rparr>)
               in Some (sint (pos (fobj k2 t i)), k2))
         }
       }
     }
   }"

text \<open>\<open>rb\<close> is what the stack holds where \<^verbatim>\<open>char read_buffer[bytes_to_read+1]\<close> lies.
  \<^verbatim>\<open>memset\<close> clears \<^verbatim>\<open>sizeof(int) + 1\<close> bytes of it, which a request of fewer than 4 bytes
  does not have.  The result is what \<^verbatim>\<open>strcpy\<close> stores at the user address.\<close>

definition proto_rd_read :: "kernel \<Rightarrow> (nat \<Rightarrow> char) \<Rightarrow> int \<Rightarrow> int \<Rightarrow> int \<Rightarrow> (int \<times> string \<times> kernel) option" where
  "proto_rd_read k rb fd num_bytes p =
     do { f_obj \<leftarrow> proto_find_file_object k p fd;
     (case f_obj of
        None \<Rightarrow> Some (-1, [], k)
      | Some (t, i) \<Rightarrow>
          (let f_obj = fobj k t i in
           case inode_ptr f_obj of
             None \<Rightarrow> Some (-1, [], k)
           | Some n \<Rightarrow>
               if usable f_obj \<noteq> 1 then Some (-1, [], k)
               else do {
                 inode \<leftarrow> get_inode (fs k) n;
                 if itype inode = ''dir'' then Some (-1, [], k)
                 else if word_of_int num_bytes > isize inode - cursor f_obj then Some (-1, [], k)
                 else if num_bytes < 4 then None
                 else do {
                   let rb0 = upd_region rb 0 (replicate 5 NUL);
                   (cur, n_read, rb1) \<leftarrow>
                     proto_read_stages (fs k) inode num_bytes (nat num_bytes + 1) (cursor f_obj) rb0;
                   let rb2 = rb1(nat num_bytes := NUL);
                   Some (int n_read, cstring (map rb2 [0..<nat num_bytes + 1]) @ [NUL],
                     upd_fobj k t i (f_obj\<lparr>cursor := cur\<rparr>))
                 }
               })) }"

text \<open>\<^verbatim>\<open>rd_write\<close> differs in the order of the two tests of the access rights.\<close>

definition proto_rd_write :: "kernel \<Rightarrow> int \<Rightarrow> int \<Rightarrow> string \<Rightarrow> int \<Rightarrow> (int \<times> kernel) option" where
  "proto_rd_write k fd p buf num_bytes =
     do { f_obj \<leftarrow> proto_find_file_object k p fd;
     (case f_obj of
        None \<Rightarrow> Some (-1, k)
      | Some (t, i) \<Rightarrow>
          (let f_obj = fobj k t i in
           case inode_ptr f_obj of
             None \<Rightarrow> Some (-1, k)
           | Some n \<Rightarrow> do {
               inode \<leftarrow> get_inode (fs k) n;
               if itype inode = ''dir'' then Some (-1, k)
               else if status f_obj = RD \<or> access inode = RD then Some (-1, k)
               else do {
                 (r, cur, s) \<leftarrow> proto_write_stages (fs k) n buf num_bytes (cursor f_obj);
                 Some (r, upd_fobj (k\<lparr>fs := s\<rparr>) t i (f_obj\<lparr>cursor := cur\<rparr>))
               }
             })) }"

text \<open>\<^verbatim>\<open>rd_lseek\<close> and \<^verbatim>\<open>rd_close\<close> find the file object in the same way.\<close>

definition proto_rd_lseek :: "kernel \<Rightarrow> int \<Rightarrow> int \<Rightarrow> int \<Rightarrow> (int \<times> kernel) option" where
  "proto_rd_lseek k fd offset p =
     do { f_obj \<leftarrow> proto_find_file_object k p fd;
     (case f_obj of
        None \<Rightarrow> Some (-1, k)
      | Some (t, i) \<Rightarrow>
          (let f_obj = fobj k t i in
           case inode_ptr f_obj of
             None \<Rightarrow> Some (-1, k)
           | Some n \<Rightarrow>
               if usable f_obj \<noteq> 1 then Some (-1, k)
               else do {
                 inode \<leftarrow> get_inode (fs k) n;
                 if itype inode = ''dir'' then Some (-1, k)
                 else if offset < 0 then Some (-1, k)
                 else let file_size = isize inode in
                   if word_of_int offset \<ge> file_size
                   then Some (sint (file_size - 1), upd_fobj k t i (f_obj\<lparr>cursor := file_size - 1\<rparr>))
                   else let k1 = upd_fobj k t i (f_obj\<lparr>cursor := word_of_int offset\<rparr>)
                     in Some (sint (cursor (fobj k1 t i)), k1)
               })) }"

definition proto_rd_close :: "kernel \<Rightarrow> int \<Rightarrow> int \<Rightarrow> (int \<times> kernel) option" where
  "proto_rd_close k fd p =
     do { f_obj \<leftarrow> proto_find_file_object k p fd;
     (case f_obj of
        None \<Rightarrow> Some (-1, k)
      | Some (t, i) \<Rightarrow>
          (let f_obj = fobj k t i in
           case inode_ptr f_obj of
             None \<Rightarrow> Some (-1, k)
           | Some n \<Rightarrow>
               if usable f_obj \<noteq> 1 then Some (-1, k)
               else do {
                 inode \<leftarrow> get_inode (fs k) n;
                 if itype inode = ''dir'' then Some (-1, k)
                 else if usable f_obj = 1
                 then Some (0, upd_fobj k t i \<lparr>inode_ptr = None, status = 0, cursor = 0, pos = 0, usable = 0\<rparr>)
                 else Some (-1, k)
               })) }"

lemma proto_rd_write_eq: "proto_rd_write = rd_write"
  unfolding fun_eq_iff proto_rd_write_def rd_write_def proto_helpers disj_commute [of "status f = RD" for f] by simp

lemma proto_rd_lseek_eq: "proto_rd_lseek = rd_lseek"
  unfolding fun_eq_iff proto_rd_lseek_def rd_lseek_def proto_helpers Let_def upd_fobj_twice(2)
  by simp

lemma cleared_fobj:
  "f\<lparr>inode_ptr := None, usable := 0, cursor := 0, pos := 0, status := 0\<rparr> =
   \<lparr>inode_ptr = None, status = 0, cursor = 0, pos = 0, usable = 0\<rparr>" for f :: file_object
  by (cases f) simp

lemma proto_rd_close_eq: "proto_rd_close = rd_close"
  unfolding fun_eq_iff proto_rd_close_def rd_close_def proto_helpers Let_def cleared_fobj by simp

section \<open>Both versions agree on ordinary paths\<close>

definition is_component :: "string \<Rightarrow> bool" where
  "is_component t \<longleftrightarrow> t \<noteq> [] \<and> CHR ''/'' \<notin> set t \<and> is_cstr t"

lemma strtok_nil [simp]: "strtok_tokens [] = []"
  by (subst strtok_tokens.simps) simp

lemma strtok_slash: "strtok_tokens (CHR ''/'' # s) = strtok_tokens s"
  by (subst (1 2) strtok_tokens.simps) simp

lemma strtok_component:
  assumes "is_component t" "s = [] \<or> hd s = CHR ''/''"
  shows "strtok_tokens (t @ s) = t # strtok_tokens (tl s)"
proof -
  have t: "\<And>c. c \<in> set t \<Longrightarrow> c \<noteq> CHR ''/''" "t \<noteq> []" using assms(1) by (auto simp: is_component_def)
  then have "dropWhile (\<lambda>c. c = CHR ''/'') (t @ s) = t @ s" by (cases t) auto
  moreover have "takeWhile (\<lambda>c. c \<noteq> CHR ''/'') (t @ s) = t" "dropWhile (\<lambda>c. c \<noteq> CHR ''/'') (t @ s) = s"
    using t(1) assms(2) by (cases s; simp add: takeWhile_append dropWhile_append)+
  ultimately show ?thesis using t(2) by (subst strtok_tokens.simps) (simp add: Let_def)
qed

lemma strtok_path:
  "list_all is_component ts \<Longrightarrow> strtok_tokens (concat (map (\<lambda>t. CHR ''/'' # t) ts)) = ts"
proof (induction ts)
  case (Cons t ts)
  let ?s = "concat (map (\<lambda>t. CHR ''/'' # t) ts)"
  have "?s = [] \<or> hd ?s = CHR ''/''" by (cases ts) auto
  then have "strtok_tokens (t @ ?s) = t # strtok_tokens (tl ?s)" using Cons.prems by (intro strtok_component) simp_all
  moreover have "strtok_tokens (tl ?s) = strtok_tokens ?s" by (cases ts) (auto simp: strtok_slash)
  ultimately show ?case using Cons by (simp add: strtok_slash)
qed simp

lemma find_agree:
  assumes "list_all is_component ts"
  shows "search_tokens s (path_of ts) = search_path s (path_of ts)"
proof (cases "ts = []")
  case True
  have "strtok_tokens ''/'' = []" using strtok_slash [of "[]"] by simp
  then show ?thesis using True by (simp add: search_tokens_def search_path_def path_of_def)
next
  case False
  have "strtok_tokens (path_of ts) = ts" using strtok_path [OF assms] False by (simp add: path_of_def)
  moreover have "strsep_tokens (tl (path_of ts)) = ts"
    using assms False by (intro strsep_path) (auto simp: is_component_def list_all_iff)
  moreover have "path_of ts \<noteq> []" "path_of ts \<noteq> ''/''"
    using False assms by (cases ts; auto simp: path_of_def is_component_def)+
  ultimately show ?thesis using False by (simp add: search_tokens_def search_path_def)
qed

text \<open>What the prototype needs of the memory that a call with a path happens to get: no allocation
  fails, each object has one byte more than was asked for, and the buffer for the directory part
  has a NUL behind the place of this part unless the parent is the root.\<close>

definition spare :: "allocator \<Rightarrow> alloc_use \<Rightarrow> nat \<Rightarrow> bool" where
  "spare mal u n \<longleftrightarrow> (case mal u n of None \<Rightarrow> False | Some buf \<Rightarrow> n < length buf)"

definition proto_serves :: "allocator \<Rightarrow> string \<Rightarrow> bool" where
  "proto_serves mal path \<longleftrightarrow>
     spare mal Path_Copy (length path) \<and> spare mal Dir_Part (length path) \<and> spare mal Name_Part (length path)
     \<and> spare mal Temp_Path (length path) \<and> spare mal Temp_Path (max 1 (dir_length path))
     \<and> (dir_length path \<noteq> 0 \<longrightarrow> (\<forall>buf. mal Dir_Part (length path) = Some buf \<longrightarrow> buf ! dir_length path = NUL))"

lemma spareE:
  assumes "spare mal u n"
  obtains b where "mal u n = Some b" "n < length b"
  using assms by (auto simp: spare_def split: option.splits)

lemma proto_copied: "spare mal u (length path) \<Longrightarrow> proto_copy_path mal u path = Some path"
  by (erule spareE) (simp add: proto_copy_path_def)

lemma proto_find_spared:
  "spare mal Temp_Path (length path) \<Longrightarrow> find_inode_number mal s path = search_tokens s path"
  by (simp add: find_inode_number_def proto_copied)

lemma proto_split_parts:
  assumes "is_cstr p" "CHR ''/'' \<notin> set t" "proto_serves mal (p @ CHR ''/'' # t)"
  shows "proto_split_path mal (p @ CHR ''/'' # t) = Some (if p = [] then ''/'' else p, t)"
proof -
  let ?path = "p @ CHR ''/'' # t"
  have room: "spare mal Dir_Part (length ?path)" "spare mal Name_Part (length ?path)"
    using assms(3) by (simp_all add: proto_serves_def)
  obtain b where b: "mal Dir_Part (length ?path) = Some b" "length ?path < length b" by (rule spareE [OF room(1)])
  obtain nb where nb: "mal Name_Part (length ?path) = Some nb" "length ?path < length nb" by (rule spareE [OF room(2)])
  have "p \<noteq> [] \<Longrightarrow> b ! length p = NUL" using assms(2,3) b(1) by (simp add: proto_serves_def dir_length_parts)
  then obtain d where "parse_absolute_path ?path b = (d, t)" "\<not> (length b < length d \<or> length nb \<le> length t)"
    "c_string d = Some (if p = [] then ''/'' else p)"
    using split_buffers [OF assms(1,2) b(2) nb(2)] by blast
  then show ?thesis using b(1) nb(1) by (simp add: proto_split_path_def proto_helpers)
qed

text \<open>On such memory the two versions take a path apart alike and search alike.\<close>

lemma both_split:
  assumes "serves vm (path_of ts)" "proto_serves mal (path_of ts)" "list_all is_component ts"
  obtains t where "split_path vm (path_of ts) = Some (path_of (butlast ts), t)"
    "proto_split_path mal (path_of ts) = Some (path_of (butlast ts), t)"
    "\<And>s. find_inode_number mal s (path_of (butlast ts)) = my_find_inode_number vm s (path_of (butlast ts))"
proof -
  define p where "p = concat (map (\<lambda>t. CHR ''/'' # t) (butlast ts))"
  define t where "t = (if ts = [] then [] else last ts)"
  have bl: "list_all is_component (butlast ts)" using assms(3) by (auto simp: list_all_iff dest: in_set_butlastD)
  then have c: "is_cstr p" unfolding p_def by (induction "butlast ts" arbitrary: ts) (auto simp: is_component_def is_cstr_def list_all_iff)
  have t: "CHR ''/'' \<notin> set t" using assms(3) last_in_set [of ts] by (auto simp: t_def list_all_iff is_component_def)
  have "concat (map (\<lambda>t. CHR ''/'' # t) ts) = p @ CHR ''/'' # t" if "ts \<noteq> []"
    using that by (cases ts rule: rev_cases) (simp_all add: p_def t_def)
  then have path: "path_of ts = p @ CHR ''/'' # t" by (auto simp: path_of_def p_def t_def)
  have dir: "(if p = [] then ''/'' else p) = path_of (butlast ts)" by (cases "butlast ts") (auto simp: path_of_def p_def)
  have len: "max 1 (dir_length (path_of ts)) = length (path_of (butlast ts))"
    unfolding path dir [symmetric] dir_length_parts [OF t] by (cases p) auto
  have "grants vm Temp_Path (length (path_of (butlast ts)))" "spare mal Temp_Path (length (path_of (butlast ts)))"
    using assms(1,2) unfolding serves_def proto_serves_def len by blast+
  then have "find_inode_number mal s (path_of (butlast ts)) = my_find_inode_number vm s (path_of (butlast ts))" for s
    by (simp add: proto_find_spared my_find_granted find_agree [OF bl])
  then show thesis
    using that [of t] split_path_parts [OF c t] proto_split_parts [OF c t] assms(1,2) unfolding path dir [symmetric] by blast
qed

lemma both_find:
  assumes "serves vm (path_of ts)" "proto_serves mal (path_of ts)" "list_all is_component ts"
  shows "copy_path vm Path_Copy (path_of ts) = Some (path_of ts)" "proto_copy_path mal Path_Copy (path_of ts) = Some (path_of ts)"
    "find_inode_number mal s (path_of ts) = my_find_inode_number vm s (path_of ts)"
  using assms by (simp_all add: serves_def proto_serves_def copy_path_served proto_copied proto_find_spared my_find_granted find_agree)

lemma proto_create_agrees:
  assumes "serves vm (path_of ts)" "proto_serves mal (path_of ts)" "list_all is_component ts"
  shows "proto_rd_create mal s (path_of ts) type mode = rd_create vm s (path_of ts) type mode"
proof -
  obtain t where t: "split_path vm (path_of ts) = Some (path_of (butlast ts), t)"
    "proto_split_path mal (path_of ts) = Some (path_of (butlast ts), t)"
    "\<And>s. find_inode_number mal s (path_of (butlast ts)) = my_find_inode_number vm s (path_of (butlast ts))"
    by (rule both_split [OF assms], rule that)
  show ?thesis
    unfolding proto_rd_create_def rd_create_def proto_helpers Option.bind.bind_lunit Let_def t case_prod_conv ..
qed

lemma proto_unlink_agrees:
  assumes "serves vm (path_of ts)" "proto_serves mal (path_of ts)" "list_all is_component ts"
  shows "proto_rd_unlink mal s (path_of ts) = rd_unlink vm s (path_of ts)"
proof -
  obtain t where t: "split_path vm (path_of ts) = Some (path_of (butlast ts), t)"
    "proto_split_path mal (path_of ts) = Some (path_of (butlast ts), t)"
    "\<And>s. find_inode_number mal s (path_of (butlast ts)) = my_find_inode_number vm s (path_of (butlast ts))"
    by (rule both_split [OF assms], rule that)
  show ?thesis
    unfolding proto_rd_unlink_def rd_unlink_def proto_helpers both_find [OF assms] Option.bind.bind_lunit t case_prod_conv ..
qed

lemma proto_chmod_agrees:
  assumes "serves vm (path_of ts)" "proto_serves mal (path_of ts)" "list_all is_component ts"
  shows "proto_rd_chmod mal s (path_of ts) mode = rd_chmod vm s (path_of ts) mode"
  by (simp add: proto_rd_chmod_def rd_chmod_def both_find [OF assms])

lemma proto_open_agrees:
  assumes "serves vm (path_of ts)" "proto_serves mal (path_of ts)" "list_all is_component ts"
  shows "proto_rd_open mal k (path_of ts) flags p = rd_open vm k (path_of ts) flags p"
  unfolding proto_rd_open_def rd_open_def proto_helpers Option.bind.bind_lunit by (simp add: both_find [OF assms])

lemma proto_serves_zero_vm [simp]: "proto_serves zero_vm path"
proof -
  have "dir_length path \<le> length path" using last_slash_less [of path "length path"] by (auto simp: dir_length_def split: option.splits)
  then show ?thesis by (simp add: proto_serves_def spare_def zero_vm_def del: replicate_Suc)
qed

section \<open>Reading in the prototype\<close>

lemma cstring_exact:
  assumes "\<forall>x < N. rb x \<noteq> NUL"
  shows "cstring (map (rb(N := NUL)) [0..<N + 1]) = map rb [0..<N]"
proof -
  have "map (rb(N := NUL)) [0..<N + 1] = map rb [0..<N] @ NUL # []" by simp
  moreover have "is_cstr (map rb [0..<N])" using assms by (auto simp: is_cstr_def)
  ultimately show ?thesis by (simp only: cstring_append_NUL)
qed

lemma proto_read_part:
  assumes k: "fds_ok k" "wf_blocks (fs k)" "valid_fd k fd" "cursor (fobj k 0 (nat fd)) = of_nat (BLOCK_SIZE * b)"
  defines "n \<equiv> fd_node k fd"
  assumes n: "itype (inodes (fs k) n) \<noteq> ''dir''" "isize (inodes (fs k) n) = of_nat S" "holds (fs k) n buf N"
    and N: "b \<le> 72" "BLOCK_SIZE * b < N" "N \<le> S" "S \<le> BLOCK_SIZE * MAX_FILE_BLOCKS" "N - BLOCK_SIZE * b \<le> READ_BUFFER_SIZE"
      "N \<le> length buf" "\<forall>x < N. buf ! x \<noteq> NUL"
  defines "M \<equiv> N - BLOCK_SIZE * b"
  shows "proto_rd_read k rb fd (int M) p =
    (if M < 4 then None
     else Some (int M, take M (drop (BLOCK_SIZE * b) buf) @ [NUL],
       upd_fobj k 0 (nat fd) ((fobj k 0 (nat fd))\<lparr>cursor := of_nat N\<rparr>)))"
proof -
  note slot = valid_fd_slot [OF k(1,3), folded n_def]
  let ?rb0 = "upd_region rb 0 (replicate 5 NUL)" and ?d = "drop (BLOCK_SIZE * b) buf"
  have big: "N \<le> BLOCK_SIZE * MAX_FILE_BLOCKS" using N(3,4) by simp
  obtain rb1 where r: "read_stages (fs k) (inodes (fs k) n) (int M) (of_nat (BLOCK_SIZE * b)) ?rb0 = Some (of_nat N, M, rb1)" "got rb1 ?d M"
    using read_stages_fetch [OF k(2) slot(2) n(3) N(1,2,5,7,6) big, folded M_def] by blast
  have r': "proto_read_stages (fs k) (inodes (fs k) n) (int M) (Suc M) (of_nat (BLOCK_SIZE * b)) ?rb0 = Some (of_nat N, M, rb1)"
  proof -
    have M: "0 < M" "M \<le> READ_BUFFER_SIZE" using N(2,5) by (simp_all add: M_def)
    have "0 < int M" "int M \<le> int READ_BUFFER_SIZE" using M by (simp_all only: of_nat_0_less_iff of_nat_le_iff)
    from proto_read_stages_eq [OF this] show ?thesis using r(1) by (simp only: nat_int Suc_eq_plus1)
  qed
  have len: "M \<le> length ?d" using N(6) by (simp add: M_def)
  have nz: "\<forall>x < M. rb1 x \<noteq> NUL" using r(2) N(2,6,7) by (auto simp: got_def M_def)
  have "cstring (map (rb1(M := NUL)) [0..<M + 1]) = map rb1 [0..<M]" by (rule cstring_exact [OF nz])
  also have "\<dots> = take M ?d" using r(2) len by (intro nth_equalityI) (auto simp: got_def)
  finally have str: "cstring (map (rb1(M := NUL)) [0..<M + 1]) = take M ?d" .
  have fits: "\<not> isize (inodes (fs k) n) - cursor (fobj k 0 (nat fd)) < word_of_int (int M)"
    using request_fits [OF N(2,3,4)] n(2) k(4) by (simp only: M_def not_less)
  show ?thesis
    using slot n(1) r' k(4) str fits
    by (simp add: proto_rd_read_def proto_helpers lookup_fd_valid [OF k(1,3)] get_inode_def Let_def del: upt_Suc fun_upd_apply of_nat_mult)
qed

lemma proto_read_step:
  assumes k: "fds_ok k" "wf_blocks (fs k)" "valid_fd k fd" "cursor (fobj k 0 (nat fd)) = 0"
  defines "n \<equiv> fd_node k fd"
  assumes n: "itype (inodes (fs k) n) \<noteq> ''dir''" "isize (inodes (fs k) n) = of_nat N" "holds (fs k) n buf N"
    and N: "0 < N" "N \<le> READ_BUFFER_SIZE" "N \<le> length buf" "\<forall>x < N. buf ! x \<noteq> NUL"
  shows "proto_rd_read k rb fd (int N) p =
    (if N < 4 then None
     else Some (int N, take N buf @ [NUL], upd_fobj k 0 (nat fd) ((fobj k 0 (nat fd))\<lparr>cursor := of_nat N\<rparr>)))"
proof -
  have c: "cursor (fobj k 0 (nat fd)) = of_nat (BLOCK_SIZE * 0)" using k(4) by simp
  have "N \<le> BLOCK_SIZE * MAX_FILE_BLOCKS" using N(2) by simp
  from proto_read_part [OF k(1-3) c n [unfolded n_def] _ _ order_refl this, of rb p] show ?thesis using N by simp
qed

section \<open>Properties\<close>

text \<open>C34: The prototype and the module agree.  On an absolute path without empty components,
  \<^verbatim>\<open>rd_create\<close>, \<^verbatim>\<open>rd_unlink\<close>, \<^verbatim>\<open>rd_chmod\<close> and \<^verbatim>\<open>rd_open\<close> of the prototype give in every state
  the result of those of the module, though one takes paths apart with \<^verbatim>\<open>strtok\<close> and the other
  with \<^verbatim>\<open>strsep\<close>; \<^verbatim>\<open>rd_write\<close>, \<^verbatim>\<open>rd_lseek\<close> and \<^verbatim>\<open>rd_close\<close> do so for all arguments.  Each
  version has an allocator of its own, whose objects have the room and the NULs that its
  copies of the path rely on (\<open>serves\<close>, \<open>proto_serves\<close>); otherwise what the calls do depends on
  the memory behind a copy of the path or on its old contents.\<close>

theorem proto_agrees:
  assumes "serves vm (path_of ts)" "proto_serves mal (path_of ts)" "list_all is_component ts"
  shows "proto_rd_create mal s (path_of ts) type mode = rd_create vm s (path_of ts) type mode
    \<and> proto_rd_unlink mal s (path_of ts) = rd_unlink vm s (path_of ts)
    \<and> proto_rd_chmod mal s (path_of ts) mode = rd_chmod vm s (path_of ts) mode
    \<and> proto_rd_open mal k (path_of ts) flags p = rd_open vm k (path_of ts) flags p
    \<and> proto_rd_write = rd_write \<and> proto_rd_lseek = rd_lseek \<and> proto_rd_close = rd_close"
  using proto_create_agrees [OF assms] proto_unlink_agrees [OF assms] proto_chmod_agrees [OF assms]
    proto_open_agrees [OF assms] proto_rd_write_eq proto_rd_lseek_eq proto_rd_close_eq by blast

text \<open>Memory that is not zero: only the byte behind \<^verbatim>\<open>/dir\<close> is.\<close>

definition dirty_malloc :: allocator where
  "dirty_malloc u n = Some ((replicate (n + 8) CHR ''z'')[4 := NUL])"

theorem proto_agrees_witness:
  "\<forall>s. proto_rd_unlink dirty_malloc s ''/dir/file'' = rd_unlink zero_vm s ''/dir/file''"
proof -
  have p: "path_of [''dir'', ''file''] = ''/dir/file''" by (simp add: path_of_def)
  have d: "dir_length ''/dir/file'' = 4" by (simp add: dir_length_def)
  have "proto_serves dirty_malloc ''/dir/file''" by (simp add: proto_serves_def spare_def d) (simp add: dirty_malloc_def)
  moreover have "list_all is_component [''dir'', ''file'']" by (simp add: is_component_def is_cstr_def)
  ultimately show ?thesis using proto_agrees [of zero_vm "[''dir'', ''file'']" dirty_malloc] by (simp only: p serves_zero_vm) blast
qed

text \<open>C36: The prototype reads back what it wrote, from 4 bytes on.  Writing \<open>N\<close> bytes without a
  NUL into an empty file and seeking to the start succeed, and \<^verbatim>\<open>rd_read\<close> of \<open>N \<ge> 4\<close> bytes
  leaves exactly these bytes and a terminator at the user address, whatever the stack held;
  for fewer than 4 bytes clearing the buffer writes past its end.\<close>

theorem proto_read_back:
  assumes "fds_ok k" "wf_blocks (fs k)" "counter_ok (fs k)" "fresh_fd k fd" "storable (fs k) buf N"
  shows "\<exists>k1 k2 k3. proto_rd_write k fd p buf (int N) = Some (int N, k1) \<and> proto_rd_lseek k1 fd 0 p = Some (0, k2)
    \<and> proto_rd_read k2 rb fd (int N) p = (if N < 4 then None else Some (int N, take N buf @ [NUL], k3))"
proof -
  note S = assms(5) [unfolded storable_def]
  obtain k1 k2 s f where w: "rd_write k fd p buf (int N) = Some (int N, k1)" "rd_lseek k1 fd 0 p = Some (0, k2)"
    "isize (inodes (fs k1) (fd_node k fd)) = of_nat N" "k2 = upd_fobj (k\<lparr>fs := s\<rparr>) 0 (nat fd) f"
    and O: "fds_ok k2" "valid_fd k2 fd" "fd_node k2 fd = fd_node k fd" "cursor (fobj k2 0 (nat fd)) = 0"
    and F: "wf_blocks s" "isize (inodes s (fd_node k fd)) = of_nat N" "holds s (fd_node k fd) buf N"
      "itype (inodes s (fd_node k fd)) \<noteq> ''dir''"
    by (rule write_lseek [OF assms, of p])
  have fs2: "fs k2 = s" using w(4) by simp
  have "proto_rd_read k2 rb fd (int N) p = (if N < 4 then None
     else Some (int N, take N buf @ [NUL], upd_fobj k2 0 (nat fd) ((fobj k2 0 (nat fd))\<lparr>cursor := of_nat N\<rparr>)))"
    by (rule proto_read_step) (use O F fs2 S in auto)
  then show ?thesis using w(1,2) by (auto simp: proto_rd_write_eq proto_rd_lseek_eq)
qed

theorem proto_read_back_witness:
  "\<exists>k1 k2 k3. proto_rd_write sample_opened 0 7 ''hello'' 5 = Some (5, k1) \<and> proto_rd_lseek k1 0 0 7 = Some (0, k2)
    \<and> proto_rd_read k2 (\<lambda>_. CHR ''z'') 0 5 7 = Some (5, ''hello'' @ [NUL], k3)"
proof -
  have "fobj sample_opened 0 0 = \<lparr>inode_ptr = Some 1, status = RW, cursor = 0, pos = 0, usable = 1\<rparr>"
    by (simp add: sample_opened_def)
  then have "fresh_fd sample_opened 0" by (simp add: fresh_fd_def sample_file_def zero_inode_def)
  moreover have "(''hello'' ! x) \<noteq> NUL" if "x < 5" for x
    using that by (auto simp: less_Suc_eq numeral_eq_Suc)
  then have "storable (fs sample_opened) ''hello'' 5" by (simp add: storable_def) (simp add: sample_fs_def)
  ultimately show ?thesis
    using proto_read_back [of sample_opened 0 "''hello''" 5 7 "\<lambda>_. CHR ''z''"] sample_counter by auto
qed

end
