(* ===== verification/Fill.thy ===== *)
theory Fill
  imports UnlinkRefines
begin

text \<open>
  A directory as a table.  \<open>catalog s n D\<close> says which name and which index node each of the
  1152 entries behind the direct and the single indirect blocks of directory \<open>n\<close> holds; the
  entries behind the double indirect blocks are unused.  \<^verbatim>\<open>rd_create\<close> fills the next entry
  of the table, as long as files are only added, and \<^verbatim>\<open>rd_unlink\<close> clears one.
\<close>

section \<open>The table\<close>

abbreviation ROWS :: nat where "ROWS \<equiv> 72"

definition row :: "nat \<Rightarrow> nat \<Rightarrow> loc" where
  "row n b = (if b < 8 then Dir n b else Sub (Sng n) (b - 8))"

fun rank :: "loc \<Rightarrow> nat option" where
  "rank (Dir n i) = Some i"
| "rank (Sub (Sng n) k) = Some (8 + k)"
| "rank l = None"

lemma row_loc: "n < MAX_NUM_FILE \<Longrightarrow> b < ROWS \<Longrightarrow> data_loc n (row n b) \<and> rank (row n b) = Some b"
  by (auto simp: row_def data_loc_def)

lemma rank_row: "data_loc n l \<Longrightarrow> rank l = Some b \<Longrightarrow> b < ROWS \<and> l = row n b"
  by (cases l rule: rank.cases) (auto simp: data_loc_def row_def)

lemma row_inj: "b < ROWS \<Longrightarrow> c < ROWS \<Longrightarrow> row n b = row n c \<longleftrightarrow> b = c"
  by (auto simp: row_def)

definition slot_is :: "filesys_struct \<Rightarrow> nat \<Rightarrow> (string \<times> nat) option \<Rightarrow> bool" where
  "slot_is s a e = (case e of
       None \<Rightarrow> entry_num s a = 0 \<and> data_blocks s a = NUL
     | Some (f, m) \<Rightarrow> entry_is s f a \<and> entry_num s a = m)"

type_synonym table = "nat \<Rightarrow> (string \<times> nat) option"

text \<open>Slot \<open>j\<close> of row \<open>b\<close> is entry \<open>16 * b + j\<close> of the table.\<close>

definition table_at :: "table \<Rightarrow> loc \<Rightarrow> nat \<Rightarrow> (string \<times> nat) option" where
  "table_at D l j = (case rank l of None \<Rightarrow> None | Some b \<Rightarrow> D (ENTRIES_PER_BLOCK * b + j))"

definition catalog :: "filesys_struct \<Rightarrow> nat \<Rightarrow> table \<Rightarrow> bool" where
  "catalog s n D \<longleftrightarrow>
     (\<forall>l c j. data_loc n l \<longrightarrow> c < DATA_BLOCKS_NUM \<longrightarrow> ptr_at s l = blk_addr s c \<longrightarrow> j < ENTRIES_PER_BLOCK
        \<longrightarrow> slot_is s (BLOCK_SIZE * c + 16 * j) (table_at D l j))
     \<and> (\<forall>b < ROWS. \<forall>j < ENTRIES_PER_BLOCK. D (ENTRIES_PER_BLOCK * b + j) \<noteq> None \<longrightarrow> ptr_at s (row n b) \<noteq> 0)"

lemma catalogD:
  assumes "catalog s n D"
  shows "\<And>l c j. data_loc n l \<Longrightarrow> c < DATA_BLOCKS_NUM \<Longrightarrow> ptr_at s l = blk_addr s c \<Longrightarrow> j < ENTRIES_PER_BLOCK
        \<Longrightarrow> slot_is s (BLOCK_SIZE * c + 16 * j) (table_at D l j)"
    "\<And>b j. b < ROWS \<Longrightarrow> j < ENTRIES_PER_BLOCK \<Longrightarrow> D (ENTRIES_PER_BLOCK * b + j) \<noteq> None \<Longrightarrow> ptr_at s (row n b) \<noteq> 0"
  using assms unfolding catalog_def by blast+

text \<open>The names of the table are short enough to be compared inside an entry.\<close>

definition named :: "table \<Rightarrow> bool" where
  "named D \<longleftrightarrow> (\<forall>i f m. D i = Some (f, m) \<longrightarrow> is_name f \<and> 0 < m)"

lemma slot_same:
  assumes "same_entry s s' a" "slot_is s a e" "\<And>f m. e = Some (f, m) \<Longrightarrow> is_name f"
  shows "slot_is s' a e"
  using assms(2,3) same_entry_facts(1-3) [OF assms(1)] is_name_props
  by (fastforce simp: slot_is_def split: option.splits)

lemma table_at_cases: "named D \<Longrightarrow> table_at D l j = Some (f, m) \<Longrightarrow> is_name f \<and> 0 < m"
  by (auto simp: table_at_def named_def split: option.splits)

lemma table_at_row: "n < MAX_NUM_FILE \<Longrightarrow> b < ROWS \<Longrightarrow> table_at D (row n b) j = D (ENTRIES_PER_BLOCK * b + j)"
  using row_loc by (simp add: table_at_def)

section \<open>Growing and entering\<close>

lemma catalog_grown:
  assumes wf: "wf_blocks s" and n: "n < MAX_NUM_FILE" and D: "catalog s n D" "named D" and g: "grown n s s'"
  shows "catalog s' n D"
  unfolding catalog_def
proof (intro conjI allI impI)
  note G = grownD [OF g] and C = catalogD [OF D(1)]
  have A: "blk_addr s' = blk_addr s" by (rule addr_frame(1) [OF G(5)])
  fix l c j assume l: "data_loc n l" "c < DATA_BLOCKS_NUM" "ptr_at s' l = blk_addr s' c" "j < ENTRIES_PER_BLOCK"
  let ?a = "BLOCK_SIZE * c + 16 * j"
  show "slot_is s' ?a (table_at D l j)"
  proof (cases "ptr_at s l = 0")
    case False
    then have "ptr_at s l = blk_addr s c" "same_block s s' c"
      using G(3) [OF l(1)] l(2,3) A by (auto simp: kept_loc_def)
    then show ?thesis
      using slot_same [OF same_block_entry [OF _ l(4)] C(1) [OF l(1,2) _ l(4)]] table_at_cases [OF D(2)] by blast
  next
    case True
    have "blk_addr s' c \<noteq> 0" using blk_addr_nonzero G(1) l(2) by simp
    then have "zero_block s' c"
      using G(3) [OF l(1)] True l(2,3) blk_addr_inj [of c _ s'] by (auto simp: kept_loc_def zero_block_def)
    from zero_entry_num [OF this l(4)] have z: "slot_is s' ?a None" by (simp add: slot_is_def)
    have "table_at D l j = None"
    proof (cases "rank l")
      case (Some b)
      note R = rank_row [OF l(1) Some]
      have "D (ENTRIES_PER_BLOCK * b + j) = None" by (rule ccontr) (use R C(2) [of b j] True l(4) in simp)
      then show ?thesis using Some by (simp add: table_at_def)
    qed (simp add: table_at_def)
    with z show ?thesis by simp
  qed
next
  note G = grownD [OF g] and C = catalogD [OF D(1)]
  fix b j assume b: "b < ROWS" "j < ENTRIES_PER_BLOCK" "D (ENTRIES_PER_BLOCK * b + j) \<noteq> None"
  then show "ptr_at s' (row n b) \<noteq> 0"
    using G(3) [of "row n b"] row_loc [OF n b(1)] C(2) [OF b] by (auto simp: kept_loc_def)
qed

lemma slot_index:
  assumes "j < ENTRIES_PER_BLOCK" "k < ENTRIES_PER_BLOCK"
  shows "ENTRIES_PER_BLOCK * b + j = ENTRIES_PER_BLOCK * c + k \<longleftrightarrow> b = c \<and> j = k"
    "BLOCK_SIZE * b + 16 * j = BLOCK_SIZE * c + 16 * k \<longleftrightarrow> b = c \<and> j = k"
proof -
  have d: "(16 * b + j) div 16 = b" "(16 * b + j) mod 16 = j" if "j < 16" for b j :: nat using that by simp_all
  show 1: "ENTRIES_PER_BLOCK * b + j = ENTRIES_PER_BLOCK * c + k \<longleftrightarrow> b = c \<and> j = k"
    using d [OF assms(1), of b] d [OF assms(2), of c] by metis
  have eq: "BLOCK_SIZE * x + 16 * y = 16 * (16 * x + y)" for x y :: nat by simp
  have inj: "(16 * x = 16 * y) = (x = y)" for x y :: nat by simp
  show "BLOCK_SIZE * b + 16 * j = BLOCK_SIZE * c + 16 * k \<longleftrightarrow> b = c \<and> j = k" unfolding eq inj by (rule 1)
qed

lemma catalog_created:
  assumes wf: "wf_blocks s" and n: "n < MAX_NUM_FILE" and D: "catalog s n D" "named D"
    and fe: "free_entry s n a" and c: "created s n a m t type mode s'" "m \<noteq> n"
    and a: "b < ROWS" "j < ENTRIES_PER_BLOCK" "d < DATA_BLOCKS_NUM" "ptr_at s (row n b) = blk_addr s d"
      "a = BLOCK_SIZE * d + 16 * j"
  shows "catalog s' n (D(ENTRIES_PER_BLOCK * b + j \<mapsto> (t, m)))"
proof -
  note F = created_frame [OF wf fe c] and E = created_entries [OF wf fe c n] and K = createdD [OF c(1)] and C = catalogD [OF D(1)]
  let ?i = "ENTRIES_PER_BLOCK * b + j" and ?l = "row n b"
  have A: "blk_addr s' = blk_addr s" by (rule addr_frame(1) [OF K(1)])
  have P: "ptr_at s' l = ptr_at s l" if "data_loc n l" for l using F(2) [of l] that c(2) by (auto simp: data_loc_def)
  have v: "data_loc n ?l" "rank ?l = Some b" using row_loc [OF n a(1)] by simp_all
  show ?thesis unfolding catalog_def
  proof (intro conjI allI impI)
    fix l c' k assume l: "data_loc n l" "c' < DATA_BLOCKS_NUM" "ptr_at s' l = blk_addr s' c'" "k < ENTRIES_PER_BLOCK"
    let ?e = "BLOCK_SIZE * c' + 16 * k"
    have p: "ptr_at s l = blk_addr s c'" using l(3) P [OF l(1)] A by simp
    have mem: "?e \<in> set (entries s n)" by (rule entries_mem [OF wf l(1,2) p l(4)])
    have nz: "ptr_at s l \<noteq> 0" using p blk_addr_nonzero [of s c'] wf l(2) by simp
    show "slot_is s' ?e (table_at (D(?i \<mapsto> (t, m))) l k)"
    proof (cases "?e = a")
      case True
      then have eq: "c' = d" "k = j" using slot_index(2) [OF l(4) a(2)] a(5) by blast+
      then have "l = ?l" using wf_blocks_inj [OF wf _ _ nz, of ?l] l(1) v(1) p a(4) by (simp add: data_loc_def)
      then show ?thesis using True eq v(2) K(5,6) by (simp add: table_at_def slot_is_def)
    next
      case False
      have "table_at (D(?i \<mapsto> (t, m))) l k = table_at D l k"
      proof (cases "rank l")
        case (Some b')
        note R = rank_row [OF l(1) Some]
        have "ENTRIES_PER_BLOCK * b' + k \<noteq> ?i"
        proof
          assume "ENTRIES_PER_BLOCK * b' + k = ?i"
          then have "b' = b" "k = j" using slot_index(1) [OF l(4) a(2)] by blast+
          then have "blk_addr s c' = blk_addr s d" using R p a(4) by simp
          then show False using False blk_addr_inj [OF l(2) a(3)] a(5) \<open>k = j\<close> by simp
        qed
        then show ?thesis using Some by (simp add: table_at_def)
      qed (simp add: table_at_def)
      then show ?thesis
        using slot_same [OF E(2) [OF mem False] C(1) [OF l(1,2) p l(4)]] table_at_cases [OF D(2)] by metis
    qed
  next
    fix b' k assume b': "b' < ROWS" "k < ENTRIES_PER_BLOCK" "(D(?i \<mapsto> (t, m))) (ENTRIES_PER_BLOCK * b' + k) \<noteq> None"
    have "ptr_at s (row n b') \<noteq> 0"
    proof (cases "ENTRIES_PER_BLOCK * b' + k = ?i")
      case True
      then have "b' = b" using slot_index(1) [OF b'(2) a(2)] by blast
      then show ?thesis using a(3,4) blk_addr_nonzero [of s d] wf by simp
    qed (use C(2) [OF b'(1,2)] b'(3) in simp)
    then show "ptr_at s' (row n b') \<noteq> 0" using P row_loc [OF n b'(1)] by simp
  qed
qed


section \<open>The next entry\<close>

definition filled :: "table \<Rightarrow> nat \<Rightarrow> bool" where
  "filled D hi \<longleftrightarrow> (\<forall>i. D i = None \<longleftrightarrow> hi \<le> i)"

lemma filled_Suc: "filled D hi \<Longrightarrow> filled (D(hi \<mapsto> e)) (Suc hi)"
  unfolding filled_def by (metis fun_upd_apply le_less not_less_eq_eq option.distinct(1) less_irrefl Suc_le_eq)

lemma next_in_row:
  assumes wf: "wf_blocks s" and n: "n < MAX_NUM_FILE" and D: "catalog s n D" "named D" "filled D hi"
    and b: "hi = ENTRIES_PER_BLOCK * b + j" "j < ENTRIES_PER_BLOCK" "b < ROWS"
    and c: "c < DATA_BLOCKS_NUM" "ptr_at s (row n b) = blk_addr s c"
  shows "get_next_dir_entry s (blk_addr s c) = Some (Some (BLOCK_SIZE * c + 16 * j))"
proof -
  let ?f = "\<lambda>k. BLOCK_SIZE * c + 16 * k"
  have slot: "slot_is s (?f k) (D (ENTRIES_PER_BLOCK * b + k))" if "k < ENTRIES_PER_BLOCK" for k
    using catalogD(1) [OF D(1) _ c that] row_loc [OF n b(3)] table_at_row [OF n b(3)] by simp
  have "D (ENTRIES_PER_BLOCK * b + j) = None" using D(3) b(1) by (simp add: filled_def)
  then have free: "entry_num s (?f j) = 0" using slot [OF b(2)] by (simp add: slot_is_def)
  have used: "entry_num s (?f k) \<noteq> 0" if "k < j" for k
  proof -
    have "D (ENTRIES_PER_BLOCK * b + k) \<noteq> None" using D(3) b(1) that by (simp add: filled_def)
    then obtain f m where e: "D (ENTRIES_PER_BLOCK * b + k) = Some (f, m)" by auto
    moreover have "0 < m" using D(2) e by (auto simp: named_def)
    ultimately show ?thesis using slot [of k] that b(2) by (simp add: slot_is_def)
  qed
  have "find (\<lambda>a. entry_num s a = 0) (map ?f [0..<ENTRIES_PER_BLOCK]) = Some (?f j)"
    unfolding find_Some_iff using free used b(2) by (intro exI [of _ j]) (simp del: upt_Suc)
  moreover have "block_entries s (blk_addr s c) = map ?f [0..<ENTRIES_PER_BLOCK]"
    using block_entries_blk [OF wf c(1)] c(1) by (simp add: entry_addr_def)
  ultimately show ?thesis using get_next_dir_entry_find [OF wf c(1)] by simp
qed

text \<open>Where the entry is found, and that two blocks at most are used up on the way.\<close>

definition next_at :: "filesys_struct \<Rightarrow> nat \<Rightarrow> nat \<Rightarrow> nat \<Rightarrow> nat \<Rightarrow> filesys_struct \<Rightarrow> bool" where
  "next_at s n b j a s' \<longleftrightarrow> (\<exists>c < DATA_BLOCKS_NUM. ptr_at s' (row n b) = blk_addr s' c \<and> a = BLOCK_SIZE * c + 16 * j)
     \<and> unat (free_blocks s) \<le> unat (free_blocks s') + 2"

lemma attached_next:
  assumes "attached s (row n b) c s'" "data_loc n (row n b)" "free_blocks s \<noteq> 0"
  shows "next_at s n b 0 (entry_addr s' (blk_addr s c) 0) s'" "unat (free_blocks s) = unat (free_blocks s') + 1"
proof -
  note A = attachedD [OF assms(1)]
  have blk: "blk_addr s' = blk_addr s" by (rule addr_frame(1) [OF A(4)])
  show f: "unat (free_blocks s) = unat (free_blocks s') + 1" using A(5) assms(3) by (simp add: unat_minus_one unat_gt_0)
  have "ptr_off s' (blk_addr s' c) = BLOCK_SIZE * c" using A(1) by simp
  moreover have "ptr_at s' (row n b) = blk_addr s' c" using A(7) [of "row n b"] assms(2) blk by (simp add: data_loc_def)
  ultimately show "next_at s n b 0 (entry_addr s' (blk_addr s c) 0) s'"
    using A(1) blk f by (auto simp: next_at_def entry_addr_def)
qed

lemma next_entry_direct_at:
  assumes wf: "wf_blocks s" and n: "n < MAX_NUM_FILE" and D: "catalog s n D" "named D" "filled D hi"
    and b: "hi = ENTRIES_PER_BLOCK * b + j" "j < ENTRIES_PER_BLOCK" "b < 8"
    and free: "counter_ok s" "free_blocks s \<noteq> 0"
  obtains a s' where "next_entry_direct s n b (INODE_NUM_DIRECT_PTR - b) = Some (Return (Some a), s')" "next_at s n b j a s'"
proof -
  obtain m where m: "INODE_NUM_DIRECT_PTR - b = Suc m" using b(3) by (cases "8 - b") auto
  have row: "row n b = Dir n b" "b < ROWS" using b(3) by (simp_all add: row_def)
  note L = row_loc [OF n row(2), unfolded row(1), THEN conjunct1]
  have v: "valid_loc (Dir n b)" using L by (simp add: data_loc_def)
  let ?fb = "get_free_block_num_from_bitmap s"
  show thesis
  proof (cases "ptr_at s (Dir n b) = 0")
    case True
    have j: "j = 0"
    proof (rule ccontr)
      assume "j \<noteq> 0"
      then have "D (ENTRIES_PER_BLOCK * b + 0) \<noteq> None" using D(3) b(1) by (simp add: filled_def)
      then show False using catalogD(2) [OF D(1) row(2), of 0] True row(1) by simp
    qed
    have nb: "?fb \<noteq> -1" by (rule counter_free [OF free])
    obtain c s1 where a: "allocate_data_block s ?fb = Some (blk_addr s c, s1)" "fresh_alloc s c s1"
      using alloc_fresh [OF wf nb] by blast
    let ?f = "\<lambda>ino q. ino\<lparr>pointers := (pointers ino)(b := q)\<rparr>"
    let ?s' = "set_inode s1 n (?f (inodes s1 n) (blk_addr s c))"
    have att: "attached s (Dir n b) c ?s'"
      by (rule attach_inode [OF wf a(2) v _ True]) (simp, blast)
    have "next_entry_direct s n b (Suc m) = Some (Return (Some (entry_addr ?s' (blk_addr s c) 0)), ?s')"
      using True nb a(1) by (simp add: Let_def del: set_inode_fields addr_update)
    then show thesis
      using that m attached_next(1) [OF att [folded row(1)] L [folded row(1)] free(2)] j by simp
  next
    case False
    obtain c where c: "c < DATA_BLOCKS_NUM" "ptr_at s (Dir n b) = blk_addr s c" using wf_blocksD [OF wf v False] by blast
    have "next_entry_direct s n b (Suc m) = Some (Return (Some (BLOCK_SIZE * c + 16 * j)), s)"
      using False c(2) next_in_row [OF wf n D b(1,2) row(2) c(1) c(2) [folded row(1)]] by (simp add: Let_def)
    then show thesis using that m c row(1) by (auto simp: next_at_def)
  qed
qed

lemma next_single_at:
  assumes wf: "wf_blocks s" and n: "n < MAX_NUM_FILE" and D: "catalog s n D" "named D" "filled D hi"
    and b: "hi = ENTRIES_PER_BLOCK * b + j" "j < ENTRIES_PER_BLOCK" "8 \<le> b" "b < ROWS"
    and d: "d < DATA_BLOCKS_NUM" "ptr_at s (Sng n) = blk_addr s d" and free: "counter_ok s" "free_blocks s \<noteq> 0"
  obtains a s' where "get_next_dir_entry_single s (blk_addr s d) (b - 8) = Some (Some a, s')"
    "\<exists>c < DATA_BLOCKS_NUM. ptr_at s' (row n b) = blk_addr s' c \<and> a = BLOCK_SIZE * c + 16 * j"
    "unat (free_blocks s) \<le> unat (free_blocks s') + 1"
proof -
  have row: "row n b = Sub (Sng n) (b - 8)" using b(3) by (simp add: row_def)
  note L = row_loc [OF n b(4), THEN conjunct1]
  have v: "valid_loc (Sub (Sng n) (b - 8))" using L row by (simp add: data_loc_def)
  let ?fb = "get_free_block_num_from_bitmap s"
  have ld: "load_index s (blk_addr s d) (b - 8) = Some (ptr_at s (Sub (Sng n) (b - 8)))"
    by (rule load_index_ptr_at [OF v d(2,1) wf])
  show thesis
  proof (cases "ptr_at s (Sub (Sng n) (b - 8)) = 0")
    case True
    have j: "j = 0"
    proof (rule ccontr)
      assume "j \<noteq> 0"
      then have "D (ENTRIES_PER_BLOCK * b + 0) \<noteq> None" using D(3) b(1) by (simp add: filled_def)
      then show False using catalogD(2) [OF D(1) b(4), of 0] True row by simp
    qed
    have nb: "?fb \<noteq> -1" by (rule counter_free [OF free])
    obtain c s1 where a: "allocate_data_block s ?fb = Some (blk_addr s c, s1)" "fresh_alloc s c s1"
      using alloc_fresh [OF wf nb] by blast
    obtain s2 where s2: "store_index s1 (blk_addr s d) (b - 8) (blk_addr s c) = Some s2"
      "load_index s2 (blk_addr s d) (b - 8) = Some (blk_addr s c)" "attached s (Sub (Sng n) (b - 8)) c s2"
      by (rule attach_index [OF wf a(2) v d(2,1) True])
    have "get_next_dir_entry_single s (blk_addr s d) (b - 8) = Some (Some (entry_addr s2 (blk_addr s c) 0), s2)"
      using True nb ld a(1) s2(1,2) by (simp add: get_next_dir_entry_single_def Let_def del: ptr_at.simps)
    then show thesis
      using that attached_next [OF s2(3) [folded row] L free(2)] j by (simp add: next_at_def)
  next
    case False
    obtain c where c: "c < DATA_BLOCKS_NUM" "ptr_at s (Sub (Sng n) (b - 8)) = blk_addr s c" using wf_blocksD [OF wf v False] by blast
    have "get_next_dir_entry_single s (blk_addr s d) (b - 8) = Some (Some (BLOCK_SIZE * c + 16 * j), s)"
      using False c(2) ld next_in_row [OF wf n D b(1,2,4) c(1) c(2) [folded row]]
      by (simp add: get_next_dir_entry_single_def del: ptr_at.simps)
    then show thesis using that c row by auto
  qed
qed

lemma next_entry_single_at:
  assumes wf: "wf_blocks s" and n: "n < MAX_NUM_FILE" and D: "catalog s n D" "named D" "filled D hi"
    and b: "hi = ENTRIES_PER_BLOCK * b + j" "j < ENTRIES_PER_BLOCK" "8 \<le> b" "b < ROWS"
    and free: "counter_ok s" "2 \<le> unat (free_blocks s)"
  obtains a s' where "next_entry_single s n b = Some (Return (Some a), s')" "next_at s n b j a s'"
proof -
  let ?l = "Sng n" and ?fb = "get_free_block_num_from_bitmap s"
  have l: "valid_loc ?l" "node_of ?l = n" using n by auto
  have f0: "free_blocks s \<noteq> 0" using free(2) by auto
  have nb: "?fb \<noteq> -1" by (rule counter_free [OF free(1) f0])
  obtain s1 c where s1: "(if ptr_at s ?l = 0
      then Option.bind (allocate_data_block s ?fb)
             (\<lambda>(q, s'). Some (set_inode s' n ((\<lambda>ino q. ino\<lparr>single_indirect_ptrs := q\<rparr>) (inodes s' n) q)))
      else Some s) = Some s1"
    "wf_blocks s1" "c < DATA_BLOCKS_NUM" "ptr_at s1 ?l = blk_addr s1 c"
    "ptr_at s ?l = 0 \<Longrightarrow> attached s ?l c s1" "ptr_at s ?l \<noteq> 0 \<Longrightarrow> s1 = s"
    by (rule ensure_inode_ptr [OF wf l, of "\<lambda>ino q. ino\<lparr>single_indirect_ptrs := q\<rparr>"]) (use nb in auto)
  have g: "grown n s s1" by (rule ensure_grown [OF wf l s1(5,6)])
  have D1: "catalog s1 n D" by (rule catalog_grown [OF wf n D(1,2) g])
  have c1: "counter_ok s1" using node_stepD(9) [OF grownD(2) [OF g] free(1)] .
  have f1: "unat (free_blocks s) \<le> unat (free_blocks s1) + 1"
  proof (cases "ptr_at s ?l = 0")
    case True
    then show ?thesis using attachedD(5) [OF s1(5)] f0 by (simp add: unat_minus_one unat_gt_0)
  qed (use s1(6) in simp)
  then have f2: "free_blocks s1 \<noteq> 0" using free(2) by auto
  obtain a s2 where r: "get_next_dir_entry_single s1 (blk_addr s1 c) (b - 8) = Some (Some a, s2)"
    "\<exists>c < DATA_BLOCKS_NUM. ptr_at s2 (row n b) = blk_addr s2 c \<and> a = BLOCK_SIZE * c + 16 * j"
    "unat (free_blocks s1) \<le> unat (free_blocks s2) + 1"
    by (rule next_single_at [OF s1(2) n D1 D(2,3) b s1(3,4) c1 f2])
  have F: "(single_indirect_ptrs (inodes s n) = 0 \<and> ?fb = -1) = False" using nb by blast
  have "next_entry_single s n b = Some (Return (Some a), s2)"
    using s1(1) r(1) s1(4)
    by (simp only: next_entry_single_def ptr_at.simps F Let_def if_False Option.bind.bind_lunit case_prod_conv) simp
  then show thesis using that r(2,3) f1 by (simp add: next_at_def)
qed

lemma get_next_entry_at:
  assumes ok: "fs_ok s" and n: "n < MAX_NUM_FILE" and D: "catalog s n D" "named D" "filled D hi"
    and size: "isize (inodes s n) = of_nat (16 * hi)" "hi < ENTRIES_PER_BLOCK * ROWS"
    and free: "2 \<le> unat (free_blocks s)"
  obtains a s' where "get_next_entry s n = Some (Some a, s')" "next_at s n (hi div 16) (hi mod 16) a s'"
proof -
  note S = fs_okD [OF ok]
  let ?b = "hi div 16" and ?j = "hi mod 16"
  have b: "hi = ENTRIES_PER_BLOCK * ?b + ?j" "?j < ENTRIES_PER_BLOCK" "?b < ROWS"
    using size(2) by (simp_all add: less_mult_imp_div_less)
  have "16 * hi < 2 ^ 32" using size(2) by simp
  then have "unat (of_nat (16 * hi) :: 32 word) = 16 * hi" by (simp add: unat_of_nat del: of_nat_mult)
  then have seg: "unat (isize (inodes s n)) div BLOCK_SIZE = ?b"
    using size(1) div_mult2_eq [of "16 * hi" 16 16] by simp
  have f0: "free_blocks s \<noteq> 0" using free by auto
  have start: "get_next_entry s n = do {
     (r1, s1) \<leftarrow> next_entry_direct s n ?b (INODE_NUM_DIRECT_PTR - ?b);
     (case r1 of
        Return e \<Rightarrow> Some (e, s1)
      | Fall \<Rightarrow> do {
          (r2, s2) \<leftarrow> (if 8 \<le> ?b \<and> ?b < 8 + 64 then next_entry_single s1 n ?b else Some (Fall, s1));
          (case r2 of
             Return e \<Rightarrow> Some (e, s2)
           | Fall \<Rightarrow>
               (let seg2 = (if 8 \<le> ?b \<and> ?b < 8 + 64 then 72 else ?b) in
                if 8 + 64 \<le> seg2 \<and> seg2 < 8 + 64 + 64 * 64 then next_entry_double s2 n seg2
                else Some (None, s2)))
        }) }"
    using n by (simp only: get_next_entry_def get_inode_def Let_def seg if_True Option.bind.bind_lunit)
  show thesis
  proof (cases "?b < 8")
    case True
    obtain a s' where e: "next_entry_direct s n ?b (INODE_NUM_DIRECT_PTR - ?b) = Some (Return (Some a), s')"
      "next_at s n ?b ?j a s'"
      by (rule next_entry_direct_at [OF S(1) n D b(1,2) True S(3) f0])
    then have "get_next_entry s n = Some (Some a, s')" using start by (simp only: Option.bind.bind_lunit case_prod_conv ctl.case)
    then show thesis using that e(2) by blast
  next
    case False
    then have "INODE_NUM_DIRECT_PTR - ?b = 0" "8 \<le> ?b" by simp_all
    then have d: "next_entry_direct s n ?b (INODE_NUM_DIRECT_PTR - ?b) = Some (Fall, s)" "8 \<le> ?b \<and> ?b < 8 + 64" using b(3) by simp_all
    obtain a s' where e: "next_entry_single s n ?b = Some (Return (Some a), s')" "next_at s n ?b ?j a s'"
      by (rule next_entry_single_at [OF S(1) n D b(1,2) _ b(3) S(3) free]) (use d in simp)
    have "get_next_entry s n = Some (Some a, s')"
      using start unfolding d(1) if_P [OF d(2)] by (simp only: Option.bind.bind_lunit case_prod_conv ctl.case e(1))
    then show thesis using that e(2) by blast
  qed
qed

section \<open>Creating\<close>

lemma created_free_inodes: "created s n a m t type mode s' \<Longrightarrow> free_inodes s' = free_inodes s - 1"
  by (simp add: created_def)

text \<open>\<^verbatim>\<open>rd_create\<close> in a directory whose entries are the first \<open>hi\<close> of the table.\<close>

lemma rd_create_next:
  assumes ok: "fs_ok s" and vm: "serves vm (path_of (ds @ [t]))" and t: "is_name t"
    and path: "resolve (dir_map s) 0 ds = Some n" "is_dir s n" and fresh: "dir_map s n t = None"
    and D: "catalog s n D" "named D" "filled D hi"
    and size: "isize (inodes s n) = of_nat (16 * hi)" "hi < ENTRIES_PER_BLOCK * ROWS"
    and free: "2 \<le> unat (free_blocks s)" "free_inodes s \<noteq> 0" "\<exists>i < MAX_NUM_FILE. 0 < i \<and> itype (inodes s i) = ''''"
  obtains m s' where "rd_create vm s (path_of (ds @ [t])) type mode = Some (0, s')" "enters s n t type mode m s'"
    "m \<noteq> n" "catalog s' n (D(hi \<mapsto> (t, m)))" "named (D(hi \<mapsto> (t, m)))" "filled (D(hi \<mapsto> (t, m))) (Suc hi)"
    "isize (inodes s' n) = of_nat (16 * Suc hi)" "unat (free_blocks s) \<le> unat (free_blocks s') + 2"
    "free_inodes s' = free_inodes s - 1" "\<And>k. k \<noteq> n \<Longrightarrow> k \<noteq> m \<Longrightarrow> inodes s' k = inodes s k"
proof -
  have n: "n < MAX_NUM_FILE" using path(2) by (simp add: is_dir_def)
  let ?b = "hi div 16" and ?j = "hi mod 16"
  have bj: "?b < ROWS" "?j < ENTRIES_PER_BLOCK" "ENTRIES_PER_BLOCK * ?b + ?j = hi"
    using size(2) by (simp_all add: less_mult_imp_div_less)
  obtain a s1 where e: "get_next_entry s n = Some (Some a, s1)" "next_at s n ?b ?j a s1"
    by (rule get_next_entry_at [OF ok n D size free(1)])
  obtain c where c: "c < DATA_BLOCKS_NUM" "ptr_at s1 (row n ?b) = blk_addr s1 c" "a = BLOCK_SIZE * c + 16 * ?j"
    and f: "unat (free_blocks s) \<le> unat (free_blocks s1) + 2" using e(2) by (auto simp: next_at_def)
  obtain r s0 where g: "get_next_entry s n = Some (r, s0)" "grown n s s0"
    by (rule get_next_entry_spec [OF fs_okD(1) [OF ok] n])
  then have g: "grown n s s1" using e(1) by simp
  have mem: "a \<in> set (entries s1 n)"
    using entries_mem [OF grownD(1) [OF g] row_loc [OF n bj(1), THEN conjunct1] c(1,2) bj(2)] c(3) by simp
  have f0: "free_blocks s \<noteq> 0" using free(1) by auto
  obtain m s' where r: "rd_create vm s (path_of (ds @ [t])) type mode = Some (0, s')" "enters s n t type mode m s'"
    "m \<noteq> n" "fs_ok s1" "free_entry s1 n a" "created s1 n a m t type mode s'"
    by (rule rd_create_enters_at [OF ok vm t path f0 free(2,3) e(1) mem fresh])
  note K = createdD [OF r(6)] and G = node_stepD [OF grownD(2) [OF g]]
  have cat: "catalog s' n (D(hi \<mapsto> (t, m)))"
    using catalog_created [OF fs_okD(1) [OF r(4)] n catalog_grown [OF fs_okD(1) [OF ok] n D(1,2) g] D(2) r(5,6,3) bj(1,2) c]
    unfolding bj(3) .
  have E: "isize (inodes s' n) = isize (inodes s n) + 16" "0 < m" using r(2) by (auto simp: enters_def)
  show thesis
  proof (rule that [OF r(1-3) cat])
    show "named (D(hi \<mapsto> (t, m)))" using D(2) t E(2) by (simp add: named_def)
    show "filled (D(hi \<mapsto> (t, m))) (Suc hi)" by (rule filled_Suc [OF D(3)])
    show "isize (inodes s' n) = of_nat (16 * Suc hi)" using E(1) size(1) by simp
    show "unat (free_blocks s) \<le> unat (free_blocks s') + 2" using f K(3) by simp
    show "free_inodes s' = free_inodes s - 1" using created_free_inodes [OF r(6)] G(2) by simp
    show "inodes s' k = inodes s k" if "k \<noteq> n" "k \<noteq> m" for k using K(7) G(4) [OF that(1)] that by simp
  qed
qed
end
