(* ===== verification/Drain.thy ===== *)
theory Drain
  imports Fill
begin

text \<open>
  Removing files from a directory of any size: the exact effect of
  \<^verbatim>\<open>clear_entry_in_current_dir\<close> on the single indirect blocks, and \<^verbatim>\<open>rd_unlink\<close> on the
  table of a directory.
\<close>

section \<open>One step of the single indirect loop\<close>

lemma single_step:
  fixes fnd :: bool
  assumes wf: "wf_blocks s" and n: "n < MAX_NUM_FILE" and len: "length f < 14" and i: "i < PTRS_PER_BLOCK"
    and c: "c < DATA_BLOCKS_NUM" "ptr_at s (Sng n) = blk_addr s c"
  defines "l \<equiv> Sub (Sng n) i"
  defines "dr \<equiv> (fnd \<or> has_entry s f l) \<and> used_entries s l = 1"
  obtains s2 where
    "\<And>m nb le. clear_entry_single s (blk_addr s c) f i (Suc m) nb le fnd =
       clear_entry_single s2 (blk_addr s c) f (Suc i) m (if ptr_at s l = 0 then nb else nb + 1) (le \<or> dr) (fnd \<or> has_entry s f l)"
    "pruned n s s2" "inodes s2 = inodes s" "outcome s s2 f l dr"
    "\<And>l'. valid_loc l' \<Longrightarrow> \<not> index_loc l' \<Longrightarrow> l' \<noteq> l \<Longrightarrow> untouched s s2 l'"
proof -
  have l: "data_loc n l" "valid_loc l" using n i by (auto simp: data_loc_def l_def)
  have nz: "blk_addr s c \<noteq> 0" using blk_addr_nonzero wf c(1) by simp
  have load: "load_index s (blk_addr s c) i = Some (ptr_at s l)"
    unfolding l_def by (rule load_index_ptr_at [OF _ c(2,1) wf]) (use l(2) l_def in simp)
  show thesis
  proof (cases "ptr_at s l = 0")
    case True
    then have es: "loc_entries s l = []" by (simp add: loc_entries_def block_entries_def)
    then have no: "\<not> has_entry s f l" "\<not> dr" by (simp_all add: dr_def)
    have "clear_entry_single s (blk_addr s c) f i (Suc m) nb le fnd = clear_entry_single s (blk_addr s c) f (Suc i) m nb le fnd" for m nb le
      using load True by simp
    then show thesis using that [of s] True pruned_refl [OF wf] no es by (simp add: outcome_def)
  next
    case False
    obtain d where d: "d < DATA_BLOCKS_NUM" "ptr_at s l = blk_addr s d" by (rule wf_blocksD [OF wf l(2) False])
    obtain cnt hit s1 where 1: "clear_entries s (blk_addr s d) f 0 ENTRIES_PER_BLOCK 0 fnd = Some (cnt, fnd \<or> hit, s1)"
      "s1 = wipe (filter (entry_is s f) (loc_entries s l)) s" "cnt = used_entries s l" "hit \<longleftrightarrow> has_entry s f l"
      "pruned n s s1" "\<And>l'. valid_loc l' \<Longrightarrow> ptr_at s1 l' = ptr_at s l'"
      by (rule clear_block [OF wf l(1) d len, where fnd = fnd], rule that)
    note P = prunedD [OF 1(5)]
    have A: "blk_addr s1 = blk_addr s" by (rule addr_frame(1) [OF P(2)])
    have i1: "inodes s1 = inodes s" using 1(2) by simp
    have p1: "ptr_at s1 (Sng n) = blk_addr s1 c" "ptr_at s1 l = blk_addr s1 d"
      using 1(6) [of "Sng n"] 1(6) [OF l(2)] c(2) d(2) A n by (simp_all del: ptr_at.simps)
    have load1: "load_index s1 (blk_addr s c) i = Some (blk_addr s1 d)"
      using load_index_ptr_at [OF l(2) [unfolded l_def] p1(1) c(1) P(1)] p1(2) A unfolding l_def by simp
    obtain t where t: "store_index (drop_bit d s1) (blk_addr s1 c) i 0 = Some t" "pruned n s1 t" "inodes t = inodes s1"
      "\<And>l'. valid_loc l' \<Longrightarrow> ptr_at t l' = (if l' = Sub (Sng n) i then 0 else ptr_at s1 l')"
      "\<And>x. x div BLOCK_SIZE \<noteq> c \<Longrightarrow> data_blocks t x = data_blocks s1 x"
      by (rule pruned_drop_slot [OF P(1) l(2) [unfolded l_def] c(1) p1(1) d(1) p1(2) [unfolded l_def]], rule that)
    have drq: "dr \<longleftrightarrow> (fnd \<or> hit) \<and> cnt = 1" by (simp only: dr_def 1(3,4))
    define s2 where "s2 = (if dr then t else s1)"
    have step: "clear_entry_single s (blk_addr s c) f i (Suc m) nb le fnd =
       clear_entry_single s2 (blk_addr s c) f (Suc i) m (nb + 1) (le \<or> dr) (fnd \<or> hit)" for m nb le
      using False d(2) 1(1) load load1 drop_bit_of_eq [OF d(1), of s1] t(1) A drq
      by (simp add: Let_def s2_def del: ptr_at.simps)
    have pr: "pruned n s s2" using pruned_trans [OF 1(5) t(2)] 1(5) by (simp add: s2_def)
    have ptr2: "ptr_at s2 l' = (if dr \<and> l' = l then 0 else ptr_at s l')" if "valid_loc l'" for l'
      using t(4) [OF that] 1(6) [OF that] by (cases "l' = l") (simp_all add: s2_def l_def del: ptr_at.simps)
    have "\<not> index_loc l" using l(1) by (simp add: data_loc_def)
    have other: "b \<noteq> c" if "valid_loc l'" "\<not> index_loc l'" "b < DATA_BLOCKS_NUM" "ptr_at s l' = blk_addr s b" for l' b
    proof
      assume "b = c"
      then have "l' = Sng n" using wf_blocks_inj [OF wf that(1), of "Sng n"] that(4) c(2) nz n by simp
      then show False using that(2) by simp
    qed
    have data: "data_blocks s2 x = data_blocks s1 x" if "x div BLOCK_SIZE \<noteq> c" for x using t(5) [OF that] by (simp add: s2_def)
    have dc: "d \<noteq> c" by (rule other [OF l(2) \<open>\<not> index_loc l\<close> d])
    have out: "outcome s s2 f l dr"
      using ptr2 [OF l(2)] wiped_entries [OF wf d, where f = f and ?s2.0 = s2] data dc 1(2) by (simp add: outcome_def)
    have unt: "untouched s s2 l'" if l': "valid_loc l'" "\<not> index_loc l'" "l' \<noteq> l" for l'
    proof -
      have "same_block s s2 b" if b: "b < DATA_BLOCKS_NUM" "ptr_at s l' = blk_addr s b" for b
        using wiped_same_block(2) [OF wf d l(2) b l'(1,3), of f] data other [OF l'(1,2) b] 1(2) by (simp add: same_block_def)
      then show ?thesis using ptr2 [OF l'(1)] l'(3) by (simp add: untouched_def)
    qed
    show thesis
      by (rule that [OF _ pr _ out unt]) (use step False 1(4) t(3) i1 in \<open>simp_all add: s2_def\<close>)
  qed
qed


section \<open>The single indirect loop\<close>

lemma clear_entry_single_exact:
  assumes n: "n < MAX_NUM_FILE" "length f < 14" and c: "c < DATA_BLOCKS_NUM"
    and s: "wf_blocks s" "i + m \<le> PTRS_PER_BLOCK" "ptr_at s (Sng n) = blk_addr s c"
  shows "\<exists>le' s'. clear_entry_single s (blk_addr s c) f i m nb le fnd
      = Some (nb + length (filter (\<lambda>j. ptr_at s (Sub (Sng n) j) \<noteq> 0) [i..<i + m]), le', fnd \<or> (\<exists>j \<in> {i..<i + m}. has_entry s f (Sub (Sng n) j)), s')
    \<and> (le' \<longleftrightarrow> le \<or> (\<exists>j \<in> {i..<i + m}. (fnd \<or> (\<exists>k \<in> {i..j}. has_entry s f (Sub (Sng n) k))) \<and> used_entries s (Sub (Sng n) j) = 1))
    \<and> pruned n s s' \<and> inodes s' = inodes s
    \<and> (\<forall>j \<in> {i..<i + m}. outcome s s' f (Sub (Sng n) j)
         ((fnd \<or> (\<exists>k \<in> {i..j}. has_entry s f (Sub (Sng n) k))) \<and> used_entries s (Sub (Sng n) j) = 1))
    \<and> (\<forall>l. valid_loc l \<longrightarrow> \<not> index_loc l \<longrightarrow> l \<notin> Sub (Sng n) ` {i..<i + m} \<longrightarrow> untouched s s' l)"
  using s
proof (induction m arbitrary: s i nb le fnd)
  case 0
  then show ?case by (simp add: pruned_refl)
next
  case (Suc m)
  note wf = Suc.prems(1)
  let ?l = "Sub (Sng n) i" and ?h = "\<lambda>j. has_entry s f (Sub (Sng n) j)" and ?u = "\<lambda>j. used_entries s (Sub (Sng n) j)"
  have i: "i < PTRS_PER_BLOCK" using Suc.prems(2) by simp
  have v: "valid_loc (Sub (Sng n) j)" "\<not> index_loc (Sub (Sng n) j)" if "j < PTRS_PER_BLOCK" for j using that n(1) by simp_all
  obtain s2 where 2: "\<And>m nb le. clear_entry_single s (blk_addr s c) f i (Suc m) nb le fnd =
       clear_entry_single s2 (blk_addr s c) f (Suc i) m (if ptr_at s ?l = 0 then nb else nb + 1)
         (le \<or> (fnd \<or> ?h i) \<and> ?u i = 1) (fnd \<or> ?h i)"
    "pruned n s s2" "inodes s2 = inodes s" "outcome s s2 f ?l ((fnd \<or> ?h i) \<and> ?u i = 1)"
    "\<And>l'. valid_loc l' \<Longrightarrow> \<not> index_loc l' \<Longrightarrow> l' \<noteq> ?l \<Longrightarrow> untouched s s2 l'"
    by (rule single_step [OF wf n i c Suc.prems(3), where fnd = fnd], rule that)
  note P = prunedD [OF 2(2)]
  have A: "blk_addr s2 = blk_addr s" by (rule addr_frame(1) [OF P(2)])
  have sng: "ptr_at s2 (Sng n) = blk_addr s2 c" using Suc.prems(3) 2(3) A by simp
  have U: "untouched s s2 (Sub (Sng n) j)" if "Suc i \<le> j" "j < Suc i + m" for j
    by (rule 2(5)) (use that Suc.prems(2) n(1) in auto)
  have keep: "has_entry s2 f (Sub (Sng n) j) = ?h j" "used_entries s2 (Sub (Sng n) j) = ?u j" "ptr_at s2 (Sub (Sng n) j) = ptr_at s (Sub (Sng n) j)"
    if j: "Suc i \<le> j" "j < Suc i + m" for j
  proof -
    have vj: "valid_loc (Sub (Sng n) j)" by (rule v(1)) (use j Suc.prems(2) in simp)
    from has_entry_pruned_back [OF U [OF j] P(2) wf vj n(2)]
    show "has_entry s2 f (Sub (Sng n) j) = ?h j" "used_entries s2 (Sub (Sng n) j) = ?u j" by blast+
    show "ptr_at s2 (Sub (Sng n) j) = ptr_at s (Sub (Sng n) j)" using U [OF j] by (simp add: untouched_def)
  qed
  have "Suc i + m \<le> PTRS_PER_BLOCK" using Suc.prems(2) by simp
  from Suc.IH [OF P(1) this sng, of "if ptr_at s ?l = 0 then nb else nb + 1" "le \<or> (fnd \<or> ?h i) \<and> ?u i = 1" "fnd \<or> ?h i"]
  obtain le' s' where IH:
    "clear_entry_single s2 (blk_addr s c) f (Suc i) m (if ptr_at s ?l = 0 then nb else nb + 1) (le \<or> (fnd \<or> ?h i) \<and> ?u i = 1) (fnd \<or> ?h i)
      = Some ((if ptr_at s ?l = 0 then nb else nb + 1) + length (filter (\<lambda>j. ptr_at s2 (Sub (Sng n) j) \<noteq> 0) [Suc i..<Suc i + m]), le',
          (fnd \<or> ?h i) \<or> (\<exists>j \<in> {Suc i..<Suc i + m}. has_entry s2 f (Sub (Sng n) j)), s')"
    "le' \<longleftrightarrow> (le \<or> (fnd \<or> ?h i) \<and> ?u i = 1) \<or> (\<exists>j \<in> {Suc i..<Suc i + m}.
        ((fnd \<or> ?h i) \<or> (\<exists>k \<in> {Suc i..j}. has_entry s2 f (Sub (Sng n) k))) \<and> used_entries s2 (Sub (Sng n) j) = 1)"
    "pruned n s2 s'" "inodes s' = inodes s2"
    "\<forall>j \<in> {Suc i..<Suc i + m}. outcome s2 s' f (Sub (Sng n) j)
         (((fnd \<or> ?h i) \<or> (\<exists>k \<in> {Suc i..j}. has_entry s2 f (Sub (Sng n) k))) \<and> used_entries s2 (Sub (Sng n) j) = 1)"
    "\<forall>l. valid_loc l \<longrightarrow> \<not> index_loc l \<longrightarrow> l \<notin> Sub (Sng n) ` {Suc i..<Suc i + m} \<longrightarrow> untouched s2 s' l"
    unfolding A by blast
  note P' = prunedD [OF IH(3)]
  have range: "{i..<i + Suc m} = insert i {Suc i..<Suc i + m}" by auto
  have upt: "[i..<i + Suc m] = i # [Suc i..<Suc i + m]" by (simp add: upt_conv_Cons del: upt_Suc)
  have upto: "{i..j} = insert i {Suc i..j}" if "i \<le> j" for j using that by auto
  have nulls: "filter (\<lambda>j. ptr_at s2 (Sub (Sng n) j) \<noteq> 0) [Suc i..<Suc i + m] = filter (\<lambda>j. ptr_at s (Sub (Sng n) j) \<noteq> 0) [Suc i..<Suc i + m]"
    using keep(3) by (intro filter_cong refl) auto
  have some: "(\<exists>k \<in> {Suc i..j}. has_entry s2 f (Sub (Sng n) k)) \<longleftrightarrow> (\<exists>k \<in> {Suc i..j}. ?h k)" if "j < Suc i + m" for j
    using keep(1) that by (intro bex_cong refl) auto
  have res: "clear_entry_single s (blk_addr s c) f i (Suc m) nb le fnd
      = Some (nb + length (filter (\<lambda>j. ptr_at s (Sub (Sng n) j) \<noteq> 0) [i..<i + Suc m]), le', fnd \<or> (\<exists>j \<in> {i..<i + Suc m}. ?h j), s')"
    unfolding 2(1) IH(1) nulls range upt using keep(1) by auto
  have dropped: "(fnd \<or> (\<exists>k \<in> {i..j}. ?h k)) \<and> ?u j = 1 \<longleftrightarrow>
      ((fnd \<or> ?h i) \<or> (\<exists>k \<in> {Suc i..j}. has_entry s2 f (Sub (Sng n) k))) \<and> used_entries s2 (Sub (Sng n) j) = 1"
    if "Suc i \<le> j" "j < Suc i + m" for j
    using some [OF that(2)] keep(2) [OF that] upto [of j] that(1) by auto
  have le: "le' \<longleftrightarrow> le \<or> (\<exists>j \<in> {i..<i + Suc m}. (fnd \<or> (\<exists>k \<in> {i..j}. ?h k)) \<and> ?u j = 1)"
    unfolding IH(2) range using dropped by auto
  have out: "outcome s s' f (Sub (Sng n) j) ((fnd \<or> (\<exists>k \<in> {i..j}. ?h k)) \<and> ?u j = 1)" if j: "j \<in> {i..<i + Suc m}" for j
  proof (cases "j = i")
    case True
    have "?l \<notin> Sub (Sng n) ` {Suc i..<Suc i + m}" by auto
    then have "untouched s2 s' ?l" using IH(6) v [OF i] by blast
    from outcome_after [OF 2(4) this P(2) P'(2) P(1) v(1) [OF i]] show ?thesis using True by simp
  next
    case False
    then have j': "Suc i \<le> j" "j < Suc i + m" using j by auto
    have "valid_loc (Sub (Sng n) j)" by (rule v(1)) (use j' Suc.prems(2) in simp)
    then show ?thesis
      using outcome_before [OF U [OF j'] bspec [OF IH(5)] P(2) wf _ n(2)] j' dropped [OF j'] by simp
  qed
  have unt: "untouched s s' l" if "valid_loc l" "\<not> index_loc l" "l \<notin> Sub (Sng n) ` {i..<i + Suc m}" for l
    using untouched_trans [OF 2(5) [OF that(1,2)] _ P(2)] IH(6) that unfolding range by auto
  show ?case
    using res le pruned_trans [OF 2(2) IH(3)] IH(4) 2(3) out unt by (intro exI [of _ le'] exI [of _ s']) simp
qed

section \<open>The whole directory\<close>

lemma clear_entry_direct_miss:
  assumes wf: "wf_blocks s" and n: "n < MAX_NUM_FILE" "length f < 14"
    and i: "i + m \<le> INODE_NUM_DIRECT_PTR" "\<forall>j \<in> {i..<i + m}. \<not> has_entry s f (Dir n j)"
  shows "clear_entry_direct s n f i m False = Some (False, s)"
  using i
proof (induction m arbitrary: i)
  case (Suc m)
  let ?l = "Dir n i"
  have l: "data_loc n ?l" "valid_loc ?l" using Suc.prems(1) n(1) by (auto simp: data_loc_def)
  have IH: "clear_entry_direct s n f (Suc i) m False = Some (False, s)" by (rule Suc.IH) (use Suc.prems in auto)
  show ?case
  proof (cases "ptr_at s ?l = 0")
    case False
    obtain c where c: "c < DATA_BLOCKS_NUM" "ptr_at s ?l = blk_addr s c" by (rule wf_blocksD [OF wf l(2) False])
    have no: "filter (entry_is s f) (loc_entries s ?l) = []" using Suc.prems(2) by simp
    obtain cnt hit s1 where "clear_entries s (blk_addr s c) f 0 ENTRIES_PER_BLOCK 0 False = Some (cnt, False \<or> hit, s1)"
      "s1 = wipe (filter (entry_is s f) (loc_entries s ?l)) s" "hit \<longleftrightarrow> has_entry s f ?l"
      by (rule clear_block [OF wf l(1) c n(2), where fnd = False], rule that)
    then have "clear_entries s (blk_addr s c) f 0 ENTRIES_PER_BLOCK 0 False = Some (cnt, False, s)" unfolding no by simp
    then show ?thesis using False c(2) IH by (simp add: Let_def)
  qed (use IH in \<open>simp add: Let_def\<close>)
qed simp

lemma filter_single:
  assumes "length (filter P xs) = 1" "a \<in> set xs" "P a" "b \<in> set xs" "b \<noteq> a"
  shows "\<not> P b"
  using filter_one [OF assms(1-3)] assms(4,5) by auto

lemma if_cases: "(if b then u else t) = u \<or> (if b then u else t) = t"
  by simp

lemma null_outcome: "ptr_at s' l = 0 \<Longrightarrow> (\<not> dr \<Longrightarrow> ptr_at s l = 0) \<Longrightarrow> outcome s s' f l dr"
  by (auto simp: outcome_def loc_entries_def block_entries_def)

lemma dropped_single_ptr:
  "valid_loc l \<Longrightarrow> ptr_at (set_inode (drop_bit c t) n ((inodes t n)\<lparr>single_indirect_ptrs := 0\<rparr>)) l
     = (if l = Sng n \<or> (\<exists>k. l = Sub (Sng n) k) then 0 else ptr_at t l)"
proof (induction l)
  case (Sub L k)
  then show ?case by (cases "L = Sng n") (auto simp: index_at_def)
qed auto

text \<open>The single indirect stage: when the only block behind the index block has been dropped,
  the index block is released as well.\<close>

lemma clear_entry_single_hit:
  assumes wf: "wf_blocks s" and n: "n < MAX_NUM_FILE" "length f < 14"
    and miss: "clear_entry_direct s n f 0 INODE_NUM_DIRECT_PTR False = Some (False, s)"
    and r: "r < PTRS_PER_BLOCK" "has_entry s f (Sub (Sng n) r)"
  obtains s' where "clear_entry_in_current_dir s n f = Some s'" "pruned n s s'"
    "\<And>j. j < PTRS_PER_BLOCK \<Longrightarrow> outcome s s' f (Sub (Sng n) j)
       ((\<exists>k \<le> j. has_entry s f (Sub (Sng n) k)) \<and> used_entries s (Sub (Sng n) j) = 1)"
    "\<And>l. valid_loc l \<Longrightarrow> \<not> index_loc l \<Longrightarrow> l \<notin> Sub (Sng n) ` {0..<PTRS_PER_BLOCK} \<Longrightarrow> untouched s s' l"
proof -
  let ?L = "\<lambda>j. Sub (Sng n) j"
  let ?dr = "\<lambda>j. (\<exists>k \<le> j. has_entry s f (?L k)) \<and> used_entries s (?L j) = 1"
  have "loc_entries s (?L r) \<noteq> []" using r(2) by auto
  then have "ptr_at s (?L r) \<noteq> 0" by (auto simp: loc_entries_def block_entries_def)
  then have nz: "ptr_at s (Sng n) \<noteq> 0" by (auto split: if_splits)
  have vS: "valid_loc (Sng n)" using n(1) by simp
  obtain c where c: "c < DATA_BLOCKS_NUM" "ptr_at s (Sng n) = blk_addr s c" by (rule wf_blocksD [OF wf vS nz])
  have eqr: "{0..<0 + PTRS_PER_BLOCK} = {0..<PTRS_PER_BLOCK}" by simp
  have upto: "(False \<or> (\<exists>k \<in> {0..j}. has_entry s f (?L k))) \<longleftrightarrow> (\<exists>k \<le> j. has_entry s f (?L k))" for j by auto
  obtain le t where t: "clear_entry_single s (blk_addr s c) f 0 PTRS_PER_BLOCK 0 False False
      = Some (length (filter (\<lambda>j. ptr_at s (?L j) \<noteq> 0) [0..<PTRS_PER_BLOCK]), le, \<exists>j \<in> {0..<PTRS_PER_BLOCK}. has_entry s f (?L j), t)"
    "le \<longleftrightarrow> (\<exists>j \<in> {0..<PTRS_PER_BLOCK}. ?dr j)" "pruned n s t" "inodes t = inodes s"
    "\<forall>j \<in> {0..<PTRS_PER_BLOCK}. outcome s t f (?L j) (?dr j)"
    "\<forall>l. valid_loc l \<longrightarrow> \<not> index_loc l \<longrightarrow> l \<notin> ?L ` {0..<PTRS_PER_BLOCK} \<longrightarrow> untouched s t l"
    using clear_entry_single_exact [OF n c(1) wf _ c(2), of 0 PTRS_PER_BLOCK 0 False False]
    unfolding eqr upto by auto
  have found: "(\<exists>j \<in> {0..<PTRS_PER_BLOCK}. has_entry s f (?L j)) = True" using r by auto
  note T = prunedD [OF t(3)]
  have A: "blk_addr t = blk_addr s" by (rule addr_frame(1) [OF T(2)])
  let ?nb = "length (filter (\<lambda>j. ptr_at s (?L j) \<noteq> 0) [0..<PTRS_PER_BLOCK])"
  have pt: "ptr_at t (Sng n) = blk_addr t c" using c(2) t(4) A by simp
  define u where "u = set_inode (drop_bit c t) n ((inodes t n)\<lparr>single_indirect_ptrs := 0\<rparr>)"
  define s' where "s' = (if ?nb = 1 \<and> le then u else t)"
  have "clear_entry_in_current_dir s n f = Some s'"
    unfolding clear_entry_in_current_dir_def miss using nz c(2) t(1) [unfolded found] pt drop_bit_of_eq [OF c(1), of t] A t(4)
    by (simp add: u_def s'_def Let_def)
  moreover have "pruned n t u"
    unfolding u_def by (rule pruned_drop_inode [OF T(1) vS _ c(1) pt]) auto
  then have "pruned n s s'" using t(3) pruned_trans [OF t(3)] by (simp add: s'_def)
  moreover have "outcome s s' f (?L j) (?dr j)" if j: "j < PTRS_PER_BLOCK" for j
  proof (cases "?nb = 1 \<and> le")
    case True
    have p0: "ptr_at s' (?L j) = 0" using True by (simp add: s'_def u_def)
    have "ptr_at s (?L j) = 0" if no: "\<not> ?dr j"
    proof -
      have le using True by (rule conjunct2)
      then obtain j0 where j0: "j0 \<in> {0..<PTRS_PER_BLOCK}" "?dr j0" unfolding t(2) by (rule bexE)
      have nz0: "ptr_at s (?L j0) \<noteq> 0"
      proof
        assume "ptr_at s (?L j0) = 0"
        then have "loc_entries s (?L j0) = []" by (simp add: loc_entries_def block_entries_def del: ptr_at.simps)
        then show False using j0(2) by simp
      qed
      have mem: "j0 \<in> set [0..<PTRS_PER_BLOCK]" "j \<in> set [0..<PTRS_PER_BLOCK]" using j0(1) j by simp_all
      have ne: "j \<noteq> j0"
      proof
        assume "j = j0"
        then have "?dr j" using j0(2) by (rule ssubst)
        with no show False ..
      qed
      from filter_single [of "\<lambda>j. ptr_at s (?L j) \<noteq> 0", OF conjunct1 [OF True] mem(1) nz0 mem(2) ne]
      show ?thesis by (simp only: not_not)
    qed
    then show ?thesis by (rule null_outcome [OF p0])
  next
    case False
    then have "s' = t" unfolding s'_def by (rule if_not_P)
    moreover have "j \<in> {0..<PTRS_PER_BLOCK}" using j by simp
    ultimately show ?thesis using bspec [OF t(5)] by (simp only:)
  qed
  moreover have "untouched s s' l" if l: "valid_loc l" "\<not> index_loc l" "l \<notin> ?L ` {0..<PTRS_PER_BLOCK}" for l
  proof -
    have "\<not> (\<exists>k. l = ?L k)" "l \<noteq> Sng n" using l by auto
    then have "ptr_at u l = ptr_at t l" using dropped_single_ptr [OF l(1)] by (simp add: u_def)
    moreover have "data_blocks u = data_blocks t" by (simp add: u_def)
    moreover have "s' = u \<or> s' = t" unfolding s'_def by (rule if_cases)
    ultimately show ?thesis using t(6) l by (auto simp: untouched_def same_block_def)
  qed
  ultimately show thesis by (rule that)
qed

text \<open>The name is in one row only, and no later row has a single entry.\<close>

definition sole_row :: "filesys_struct \<Rightarrow> nat \<Rightarrow> string \<Rightarrow> nat \<Rightarrow> bool" where
  "sole_row s n f r \<longleftrightarrow> r < ROWS \<and> has_entry s f (row n r) \<and> (\<forall>l. data_loc n l \<longrightarrow> has_entry s f l \<longrightarrow> l = row n r)
     \<and> (\<forall>b. r < b \<longrightarrow> b < ROWS \<longrightarrow> used_entries s (row n b) \<noteq> 1)"

lemma sole_rowD:
  assumes "sole_row s n f r"
  shows "r < ROWS" "has_entry s f (row n r)" "\<And>l. data_loc n l \<Longrightarrow> has_entry s f l \<Longrightarrow> l = row n r"
    "\<And>b. r < b \<Longrightarrow> b < ROWS \<Longrightarrow> used_entries s (row n b) \<noteq> 1"
  using assms unfolding sole_row_def by blast+

lemma sole_dropped:
  assumes S: "sole_row s n f r" and n: "n < MAX_NUM_FILE" and b: "b < ROWS" and L: "\<And>k. k \<le> b \<Longrightarrow> a \<le> k \<Longrightarrow> g k = row n k" and a: "a \<le> b" "a \<le> r"
  shows "(\<exists>k \<le> b. a \<le> k \<and> has_entry s f (g k)) \<and> used_entries s (g b) = 1 \<longleftrightarrow> g b = row n r \<and> used_entries s (g b) = 1"
proof (intro iffI conjI; elim conjE)
  note D = sole_rowD [OF S]
  assume u: "used_entries s (g b) = 1" and "\<exists>k \<le> b. a \<le> k \<and> has_entry s f (g k)"
  then obtain k where k: "k \<le> b" "a \<le> k" "has_entry s f (row n k)" using L by auto
  have "row n k = row n r" by (rule D(3) [OF _ k(3)]) (use row_loc [OF n, of k] k(1) b in simp)
  then have "k = r" using row_inj [of k r n] k(1) b D(1) by simp
  then have "b = r" using D(4) [of b] k(1) u L [of b] a(1) b by (cases "b = r") auto
  then show "g b = row n r" using L [of b] a(1) by simp
next
  note D = sole_rowD [OF S]
  assume "g b = row n r"
  then have "b = r" using L [of b] a(1) row_inj [of b r n] b D(1) by simp
  then show "\<exists>k \<le> b. a \<le> k \<and> has_entry s f (g k)" using D(2) L [of r] a by auto
qed

lemma clear_entry_row:
  assumes wf: "wf_blocks s" and n: "n < MAX_NUM_FILE" and f: "is_name f" and S: "sole_row s n f r"
  obtains s' where "clear_entry_in_current_dir s n f = Some s'" "pruned n s s'"
    "\<And>l. data_loc n l \<Longrightarrow> outcome s s' f l (l = row n r \<and> used_entries s l = 1)"
proof (cases "r < 8")
  case True
  note D = sole_rowD [OF S]
  have rr: "row n r = Dir n r" using True by (simp add: row_def)
  obtain s' where c: "clear_entry_in_current_dir s n f = Some s'" "pruned n s s'"
    "\<And>i. i < INODE_NUM_DIRECT_PTR \<Longrightarrow> outcome s s' f (Dir n i) ((\<exists>k \<le> i. has_entry s f (Dir n k)) \<and> used_entries s (Dir n i) = 1)"
    "\<And>l. valid_loc l \<Longrightarrow> l \<notin> Dir n ` {0..<INODE_NUM_DIRECT_PTR} \<Longrightarrow> untouched s s' l"
    by (rule clear_entry_direct_hit [OF wf n f True D(2) [unfolded rr]], rule that)
  note P = prunedD [OF c(2)]
  have "outcome s s' f l (l = row n r \<and> used_entries s l = 1)" if l: "data_loc n l" for l
  proof (cases "l \<in> Dir n ` {0..<INODE_NUM_DIRECT_PTR}")
    case True
    then obtain i where i: "i < INODE_NUM_DIRECT_PTR" "l = Dir n i" by auto
    have "(\<exists>k \<le> i. 0 \<le> k \<and> has_entry s f (Dir n k)) \<and> used_entries s (Dir n i) = 1 \<longleftrightarrow> Dir n i = row n r \<and> used_entries s (Dir n i) = 1"
      by (rule sole_dropped [OF S n]) (use i(1) in \<open>auto simp: row_def\<close>)
    then have "(\<exists>k \<le> i. has_entry s f (Dir n k)) \<and> used_entries s (Dir n i) = 1 \<longleftrightarrow> Dir n i = row n r \<and> used_entries s (Dir n i) = 1"
      by simp
    from c(3) [OF i(1), unfolded this] show ?thesis unfolding i(2) .
  next
    case False
    have v: "valid_loc l" using l by (simp add: data_loc_def)
    have "l \<noteq> row n r" using False rr \<open>r < 8\<close> by auto
    moreover from this have "\<not> has_entry s f l" using D(3) [OF l] by blast
    ultimately show ?thesis using untouched_outcome [OF c(4) [OF v False] _ P(2) wf v] by simp
  qed
  then show thesis using that c(1,2) by blast
next
  case False
  note D = sole_rowD [OF S]
  have r: "r - 8 < PTRS_PER_BLOCK" "row n r = Sub (Sng n) (r - 8)" using False D(1) by (simp_all add: row_def)
  have len: "length f < 14" using is_name_props [OF f] by simp
  have "\<not> has_entry s f (Dir n j)" if j: "j \<in> {0..<0 + INODE_NUM_DIRECT_PTR}" for j
  proof
    assume "has_entry s f (Dir n j)"
    then have "Dir n j = row n r" using D(3) j n by (simp add: data_loc_def)
    then show False using r(2) by simp
  qed
  then have miss: "clear_entry_direct s n f 0 INODE_NUM_DIRECT_PTR False = Some (False, s)"
    by (intro clear_entry_direct_miss [OF wf n len]) simp_all
  obtain s' where c: "clear_entry_in_current_dir s n f = Some s'" "pruned n s s'"
    "\<And>j. j < PTRS_PER_BLOCK \<Longrightarrow> outcome s s' f (Sub (Sng n) j)
       ((\<exists>k \<le> j. has_entry s f (Sub (Sng n) k)) \<and> used_entries s (Sub (Sng n) j) = 1)"
    "\<And>l. valid_loc l \<Longrightarrow> \<not> index_loc l \<Longrightarrow> l \<notin> Sub (Sng n) ` {0..<PTRS_PER_BLOCK} \<Longrightarrow> untouched s s' l"
    by (rule clear_entry_single_hit [OF wf n len miss r(1) D(2) [unfolded r(2)]], rule that)
  note P = prunedD [OF c(2)]
  have "outcome s s' f l (l = row n r \<and> used_entries s l = 1)" if l: "data_loc n l" for l
  proof (cases "l \<in> Sub (Sng n) ` {0..<PTRS_PER_BLOCK}")
    case True
    then obtain i where i: "i < PTRS_PER_BLOCK" "l = Sub (Sng n) i" by auto
    have "(\<exists>k \<le> 8 + i. 8 \<le> k \<and> has_entry s f (Sub (Sng n) (k - 8))) \<and> used_entries s (Sub (Sng n) (8 + i - 8)) = 1
        \<longleftrightarrow> Sub (Sng n) (8 + i - 8) = row n r \<and> used_entries s (Sub (Sng n) (8 + i - 8)) = 1"
      by (rule sole_dropped [OF S n]) (use i(1) False in \<open>auto simp: row_def\<close>)
    moreover have "(\<exists>k \<le> 8 + i. 8 \<le> k \<and> has_entry s f (Sub (Sng n) (k - 8))) \<longleftrightarrow> (\<exists>k \<le> i. has_entry s f (Sub (Sng n) k))"
    proof
      show "\<exists>k \<le> 8 + i. 8 \<le> k \<and> has_entry s f (Sub (Sng n) (k - 8)) \<Longrightarrow> \<exists>k \<le> i. has_entry s f (Sub (Sng n) k)"
        by (metis le_diff_conv add.commute)
      show "\<exists>k \<le> i. has_entry s f (Sub (Sng n) k) \<Longrightarrow> \<exists>k \<le> 8 + i. 8 \<le> k \<and> has_entry s f (Sub (Sng n) (k - 8))"
        by (metis add_le_cancel_left diff_add_inverse le_add1)
    qed
    moreover have "8 + i - 8 = i" by simp
    ultimately have "(\<exists>k \<le> i. has_entry s f (Sub (Sng n) k)) \<and> used_entries s (Sub (Sng n) i) = 1
        \<longleftrightarrow> Sub (Sng n) i = row n r \<and> used_entries s (Sub (Sng n) i) = 1" by (simp only:)
    from c(3) [OF i(1), unfolded this] show ?thesis unfolding i(2) .
  next
    case False
    have v: "valid_loc l" "\<not> index_loc l" using l by (simp_all add: data_loc_def)
    have "l \<noteq> row n r" using False r by auto
    moreover from this have "\<not> has_entry s f l" using D(3) [OF l] by blast
    ultimately show ?thesis using untouched_outcome [OF c(4) [OF v False] _ P(2) wf v(1)] by simp
  qed
  then show thesis using that c(1,2) by blast
qed

section \<open>A table with one entry removed\<close>

text \<open>Entry \<open>i\<close> is the only one with name \<open>f\<close>, and every later row is empty or has at least
  two entries.\<close>

definition removable :: "table \<Rightarrow> nat \<Rightarrow> string \<Rightarrow> nat \<Rightarrow> bool" where
  "removable D i f m \<longleftrightarrow> i < ENTRIES_PER_BLOCK * ROWS \<and> D i = Some (f, m) \<and> (\<forall>k g x. D k = Some (g, x) \<longrightarrow> g = f \<longrightarrow> k = i)
     \<and> (\<forall>b. i div ENTRIES_PER_BLOCK < b \<longrightarrow> b < ROWS \<longrightarrow> (\<forall>j < ENTRIES_PER_BLOCK. D (ENTRIES_PER_BLOCK * b + j) = None)
          \<or> (\<exists>j < ENTRIES_PER_BLOCK. \<exists>k < ENTRIES_PER_BLOCK. j \<noteq> k \<and> D (ENTRIES_PER_BLOCK * b + j) \<noteq> None
               \<and> D (ENTRIES_PER_BLOCK * b + k) \<noteq> None))"

lemma removableD:
  assumes "removable D i f m"
  shows "i div ENTRIES_PER_BLOCK < ROWS" "D i = Some (f, m)" "\<And>k x. D k = Some (f, x) \<Longrightarrow> k = i"
    "\<And>b. i div ENTRIES_PER_BLOCK < b \<Longrightarrow> b < ROWS \<Longrightarrow> (\<forall>j < ENTRIES_PER_BLOCK. D (ENTRIES_PER_BLOCK * b + j) = None)
          \<or> (\<exists>j < ENTRIES_PER_BLOCK. \<exists>k < ENTRIES_PER_BLOCK. j \<noteq> k \<and> D (ENTRIES_PER_BLOCK * b + j) \<noteq> None
               \<and> D (ENTRIES_PER_BLOCK * b + k) \<noteq> None)"
  using assms unfolding removable_def by (auto simp: less_mult_imp_div_less)

lemma slot_used: "slot_is s a e \<Longrightarrow> (\<And>f m. e = Some (f, m) \<Longrightarrow> 0 < m) \<Longrightarrow> entry_num s a = 0 \<longleftrightarrow> e = None"
  by (auto simp: slot_is_def split: option.splits)

lemma catalog_name:
  assumes wf: "wf_blocks s" and n: "n < MAX_NUM_FILE" and D: "catalog s n D" "named D" and R: "removable D i f m"
    and l: "data_loc n l" "c < DATA_BLOCKS_NUM" "ptr_at s l = blk_addr s c" "j < ENTRIES_PER_BLOCK"
  shows "entry_is s f (BLOCK_SIZE * c + 16 * j) \<longleftrightarrow> l = row n (i div 16) \<and> j = i mod 16"
proof -
  note RD = removableD [OF R]
  note S = catalogD(1) [OF D(1) l]
  have f: "is_name f" using D(2) RD(2) by (auto simp: named_def)
  show ?thesis
  proof
    assume e: "entry_is s f (BLOCK_SIZE * c + 16 * j)"
    show "l = row n (i div 16) \<and> j = i mod 16"
    proof (cases "table_at D l j")
      case None
      then show ?thesis using S e zero_no_name [OF _ f] by (simp add: slot_is_def)
    next
      case (Some x)
      obtain g y where x: "x = (g, y)" by (cases x)
      have "entry_is s g (BLOCK_SIZE * c + 16 * j)" "is_name g"
        using S Some x table_at_cases [OF D(2)] by (auto simp: slot_is_def)
      then have "g = f" using one_name [OF e _ f] by simp
      moreover obtain b where b: "rank l = Some b" using Some by (auto simp: table_at_def split: option.splits)
      ultimately have "D (ENTRIES_PER_BLOCK * b + j) = Some (f, y)" using Some x by (simp add: table_at_def)
      then have "ENTRIES_PER_BLOCK * b + j = i" by (rule RD(3))
      then have "b = i div 16" "j = i mod 16" using l(4) by auto
      then show ?thesis using rank_row [OF l(1) b] by simp
    qed
  next
    assume "l = row n (i div 16) \<and> j = i mod 16"
    then have "table_at D l j = Some (f, m)" using table_at_row [OF n RD(1)] RD(2) by simp
    then show "entry_is s f (BLOCK_SIZE * c + 16 * j)" using S by (simp add: slot_is_def)
  qed
qed

lemma catalog_sole:
  assumes wf: "wf_blocks s" and n: "n < MAX_NUM_FILE" and D: "catalog s n D" "named D" and R: "removable D i f m"
  shows "sole_row s n f (i div 16)"
  unfolding sole_row_def
proof (intro conjI allI impI)
  note RD = removableD [OF R] and C = catalogD [OF D(1)]
  let ?r = "i div 16" and ?j = "i mod 16"
  show "?r < ROWS" by (rule RD(1))
  have d: "data_loc n (row n ?r)" using row_loc [OF n RD(1)] by blast
  have v: "valid_loc (row n ?r)" using d by (simp add: data_loc_def)
  have "ptr_at s (row n ?r) \<noteq> 0" using C(2) [OF RD(1), of ?j] RD(2) by simp
  then obtain c where c: "c < DATA_BLOCKS_NUM" "ptr_at s (row n ?r) = blk_addr s c" by (rule wf_blocksD [OF wf v])
  have "entry_is s f (BLOCK_SIZE * c + 16 * ?j)" using catalog_name [OF wf n D R d c, of ?j] by simp
  moreover have "BLOCK_SIZE * c + 16 * ?j \<in> set (loc_entries s (row n ?r))" using loc_entries_blk [OF wf c] by auto
  ultimately show "has_entry s f (row n ?r)" by (auto simp: filter_empty_conv)
  show "l = row n ?r" if l: "data_loc n l" "has_entry s f l" for l
  proof -
    obtain a where a: "a \<in> set (loc_entries s l)" "entry_is s f a" using l(2) by (auto simp: filter_empty_conv)
    then have "ptr_at s l \<noteq> 0" by (auto simp: loc_entries_def block_entries_def)
    moreover have "valid_loc l" using l(1) by (simp add: data_loc_def)
    ultimately obtain e where e: "e < DATA_BLOCKS_NUM" "ptr_at s l = blk_addr s e" using wf_blocksD [OF wf] by metis
    obtain k where "k < ENTRIES_PER_BLOCK" "a = BLOCK_SIZE * e + 16 * k" using a(1) loc_entries_blk [OF wf e] by auto
    then show ?thesis using catalog_name [OF wf n D R l(1) e] a(2) by blast
  qed
  show "used_entries s (row n b) \<noteq> 1" if b: "?r < b" "b < ROWS" for b
  proof (cases "ptr_at s (row n b) = 0")
    case True
    then show ?thesis by (simp add: loc_entries_def block_entries_def)
  next
    case False
    have db: "data_loc n (row n b)" using row_loc [OF n b(2)] by blast
    have "valid_loc (row n b)" using db by (simp add: data_loc_def)
    then obtain e where e: "e < DATA_BLOCKS_NUM" "ptr_at s (row n b) = blk_addr s e" using wf_blocksD [OF wf _ False] by metis
    have es: "loc_entries s (row n b) = map (\<lambda>j. BLOCK_SIZE * e + 16 * j) [0..<ENTRIES_PER_BLOCK]" by (rule loc_entries_blk [OF wf e])
    have used: "entry_num s (BLOCK_SIZE * e + 16 * j) = 0 \<longleftrightarrow> D (ENTRIES_PER_BLOCK * b + j) = None" if "j < ENTRIES_PER_BLOCK" for j
      by (rule slot_used [OF C(1) [OF db e that, unfolded table_at_row [OF n b(2)]]]) (use D(2) in \<open>auto simp: named_def\<close>)
    show ?thesis
      using RD(4) [OF b]
    proof (elim disjE exE conjE)
      assume "\<forall>j < ENTRIES_PER_BLOCK. D (ENTRIES_PER_BLOCK * b + j) = None"
      then have "filter (\<lambda>a. entry_num s a \<noteq> 0) (loc_entries s (row n b)) = []" using used unfolding es by (auto simp: filter_empty_conv)
      then show ?thesis by simp
    next
      fix j k assume jk: "j < ENTRIES_PER_BLOCK" "k < ENTRIES_PER_BLOCK" "j \<noteq> k"
        "D (ENTRIES_PER_BLOCK * b + j) \<noteq> None" "D (ENTRIES_PER_BLOCK * b + k) \<noteq> None"
      show ?thesis
      proof
        assume one: "used_entries s (row n b) = 1"
        have mem: "BLOCK_SIZE * e + 16 * x \<in> set (loc_entries s (row n b))" if "x < ENTRIES_PER_BLOCK" for x using that unfolding es by auto
        have "BLOCK_SIZE * e + 16 * j = BLOCK_SIZE * e + 16 * k"
          by (rule filter_one [OF one mem [OF jk(1)] _ mem [OF jk(2)]]) (use used [OF jk(1)] used [OF jk(2)] jk(4,5) in simp_all)
        then show False using jk(3) by simp
      qed
    qed
  qed
qed

lemma catalog_removed:
  assumes wf: "wf_blocks s" and n: "n < MAX_NUM_FILE" and D: "catalog s n D" "named D" and R: "removable D i f m"
    and p: "pruned n s s'" and out: "\<And>l. data_loc n l \<Longrightarrow> outcome s s' f l (l = row n (i div 16) \<and> used_entries s l = 1)"
  shows "catalog s' n (D(i := None))"
  unfolding catalog_def
proof (intro conjI allI impI)
  note RD = removableD [OF R] and C = catalogD [OF D(1)] and P = prunedD [OF p]
  have A: "blk_addr s' = blk_addr s" by (rule addr_frame(1) [OF P(2)])
  fix l c j assume l: "data_loc n l" "c < DATA_BLOCKS_NUM" "ptr_at s' l = blk_addr s' c" "j < ENTRIES_PER_BLOCK"
  let ?a = "BLOCK_SIZE * c + 16 * j"
  have "ptr_at s' l \<noteq> 0" using l(2,3) blk_addr_nonzero P(1) by simp
  then have o: "ptr_at s' l = ptr_at s l" "\<forall>a \<in> set (loc_entries s l).
        if entry_is s f a then entry_num s' a = 0 \<and> data_blocks s' a = NUL else same_entry s s' a"
    using out [OF l(1)] by (auto simp: outcome_def split: if_splits)
  have pl: "ptr_at s l = blk_addr s c" using o(1) l(3) A by simp
  have mem: "?a \<in> set (loc_entries s l)" using loc_entries_blk [OF wf l(2) pl] l(4) by auto
  note N = catalog_name [OF wf n D R l(1,2) pl l(4)]
  show "slot_is s' ?a (table_at (D(i := None)) l j)"
  proof (cases "entry_is s f ?a")
    case True
    then have "table_at (D(i := None)) l j = None" using N table_at_row [OF n RD(1)] by simp
    then show ?thesis using bspec [OF o(2) mem] True by (simp add: slot_is_def)
  next
    case False
    then have same: "same_entry s s' ?a" using bspec [OF o(2) mem] by simp
    have "table_at (D(i := None)) l j = table_at D l j"
    proof (cases "rank l")
      case (Some b)
      have "ENTRIES_PER_BLOCK * b + j \<noteq> i"
      proof
        assume "ENTRIES_PER_BLOCK * b + j = i"
        then have "b = i div 16" "j = i mod 16" using l(4) by auto
        then show False using N False rank_row [OF l(1) Some] by simp
      qed
      then show ?thesis using Some by (simp add: table_at_def)
    qed (simp add: table_at_def)
    then show ?thesis using slot_same [OF same C(1) [OF l(1,2) pl l(4)]] table_at_cases [OF D(2)] by metis
  qed
next
  note RD = removableD [OF R] and C = catalogD [OF D(1)]
  let ?r = "i div 16"
  fix b j assume b: "b < ROWS" "j < ENTRIES_PER_BLOCK" "(D(i := None)) (ENTRIES_PER_BLOCK * b + j) \<noteq> None"
  then have e: "D (ENTRIES_PER_BLOCK * b + j) \<noteq> None" "ENTRIES_PER_BLOCK * b + j \<noteq> i" by (auto split: if_splits)
  have d: "data_loc n (row n b)" using row_loc [OF n b(1)] by blast
  have nz: "ptr_at s (row n b) \<noteq> 0" by (rule C(2) [OF b(1,2) e(1)])
  have "valid_loc (row n b)" using d by (simp add: data_loc_def)
  then obtain c where c: "c < DATA_BLOCKS_NUM" "ptr_at s (row n b) = blk_addr s c" using wf_blocksD [OF wf _ nz] by metis
  have used: "entry_num s (BLOCK_SIZE * c + 16 * k) \<noteq> 0" if "k < ENTRIES_PER_BLOCK" "D (ENTRIES_PER_BLOCK * b + k) \<noteq> None" for k
  proof -
    have "entry_num s (BLOCK_SIZE * c + 16 * k) = 0 \<longleftrightarrow> D (ENTRIES_PER_BLOCK * b + k) = None"
      by (rule slot_used [OF C(1) [OF d c that(1), unfolded table_at_row [OF n b(1)]]]) (use D(2) in \<open>auto simp: named_def\<close>)
    then show ?thesis using that(2) by simp
  qed
  have "\<not> (row n b = row n ?r \<and> used_entries s (row n b) = 1)"
  proof
    assume one: "row n b = row n ?r \<and> used_entries s (row n b) = 1"
    then have br: "b = ?r" using row_inj [OF b(1) RD(1)] by simp
    have mem: "BLOCK_SIZE * c + 16 * x \<in> set (loc_entries s (row n b))" if "x < ENTRIES_PER_BLOCK" for x
      using that loc_entries_blk [OF wf c] by auto
    have "D (ENTRIES_PER_BLOCK * b + i mod 16) \<noteq> None" using RD(2) br by simp
    then have "BLOCK_SIZE * c + 16 * j = BLOCK_SIZE * c + 16 * (i mod 16)"
      using filter_one [OF conjunct2 [OF one] mem [OF b(2)] used [OF b(2) e(1)] mem [of "i mod 16"] used [of "i mod 16"]] by simp
    then show False using e(2) br by simp
  qed
  then show "ptr_at s' (row n b) \<noteq> 0" using out [OF d] nz by (simp add: outcome_def)
qed


section \<open>Removing a file\<close>

lemma catalog_cong:
  assumes wf: "wf_blocks s" and n: "n < MAX_NUM_FILE" and D: "catalog s n D" "named D" and addr: "discos_addr s' = discos_addr s"
    and p: "\<And>l. data_loc n l \<Longrightarrow> ptr_at s' l = ptr_at s l" and e: "\<And>a. a \<in> set (entries s n) \<Longrightarrow> same_entry s s' a"
  shows "catalog s' n D"
  unfolding catalog_def
proof (intro conjI allI impI)
  note C = catalogD [OF D(1)]
  have A: "blk_addr s' = blk_addr s" by (rule addr_frame(1) [OF addr])
  fix l c j assume l: "data_loc n l" "c < DATA_BLOCKS_NUM" "ptr_at s' l = blk_addr s' c" "j < ENTRIES_PER_BLOCK"
  have pl: "ptr_at s l = blk_addr s c" using l(3) p [OF l(1)] A by simp
  show "slot_is s' (BLOCK_SIZE * c + 16 * j) (table_at D l j)"
    using slot_same [OF e [OF entries_mem [OF wf l(1,2) pl l(4)]] C(1) [OF l(1,2) pl l(4)]] table_at_cases [OF D(2)] by metis
next
  fix b j assume "b < ROWS" "j < ENTRIES_PER_BLOCK" "D (ENTRIES_PER_BLOCK * b + j) \<noteq> None"
  then show "ptr_at s' (row n b) \<noteq> 0" using p [of "row n b"] row_loc [OF n] catalogD(2) [OF D(1)] by simp
qed

lemma catalog_cleared:
  assumes "fs_ok s" "n < MAX_NUM_FILE" "m < MAX_NUM_FILE" "m \<noteq> n" "catalog s n D" "named D"
  shows "catalog (cleared m s) n D"
proof (rule catalog_cong [OF fs_okD(1) [OF assms(1)] assms(2,5,6)])
  note wf = fs_okD(1) [OF assms(1)]
  show "ptr_at (cleared m s) l = ptr_at s l" if "data_loc n l" for l
    using cleared_ptr [OF wf assms(3), of l] that assms(4) by (auto simp: data_loc_def)
  show "same_entry s (cleared m s) a" if "a \<in> set (entries s n)" for a
    using cleared_dir [OF wf assms(3) assms(4) [symmetric] assms(2)] that by (simp add: same_dir_def)
qed simp

lemma catalog_shrink:
  assumes "wf_blocks s" "n < MAX_NUM_FILE" "catalog s n D" "named D"
  shows "catalog (shrink d s) n D"
  by (rule catalog_cong [OF assms]) (simp_all add: shrink_same)

lemma catalog_dir_map:
  assumes ok: "fs_ok s" and n: "is_dir s n" and D: "catalog s n D" "named D" and R: "removable D i f m"
  shows "dir_map s n f = Some m"
proof -
  note wf = fs_okD(1) [OF ok] and RD = removableD [OF R]
  have nn: "n < MAX_NUM_FILE" using n by (simp add: is_dir_def)
  have f: "is_name f" using D(2) RD(2) by (auto simp: named_def)
  note S = sole_rowD [OF catalog_sole [OF wf nn D R]]
  have "dir_find s n f \<noteq> None" using dir_find_hit [OF nn] S(1,2) row_loc [OF nn] by blast
  then obtain a where a: "dir_find s n f = Some a" by blast
  then have m: "a \<in> set (entries s n)" "entry_is s f a" using find_Some_mem by (fastforce simp: dir_find_def)+
  obtain l c j where l: "data_loc n l" "c < DATA_BLOCKS_NUM" "ptr_at s l = blk_addr s c" "j < ENTRIES_PER_BLOCK"
    "a = BLOCK_SIZE * c + 16 * j" by (rule entries_elim [OF wf nn m(1)])
  have "l = row n (i div 16) \<and> j = i mod 16" using catalog_name [OF wf nn D R l(1-4)] m(2) l(5) by simp
  then have "table_at D l j = Some (f, m)" using table_at_row [OF nn RD(1)] RD(2) by simp
  then have "entry_num s a = m" using catalogD(1) [OF D(1) l(1-4)] l(5) by (simp add: slot_is_def)
  then show ?thesis using a n f by (simp add: dir_map_def)
qed

lemma cleared_free:
  assumes ok: "fs_ok s" and n: "n < MAX_NUM_FILE"
  shows "unat (free_blocks s) \<le> unat (free_blocks (cleared n s))"
proof -
  note S = fs_okD [OF ok] and O = owned_facts [OF S(1) n]
  have "card (set (owned s n)) \<le> card {..<DATA_BLOCKS_NUM}" using O(3) by (intro card_mono) auto
  then have len: "length (owned s n) \<le> DATA_BLOCKS_NUM" using O(2) by (simp add: distinct_card)
  have "card (free_set s) \<le> card {..<DATA_BLOCKS_NUM}" by (intro card_mono) (auto simp: free_set_def)
  then have "unat (free_blocks s) \<le> DATA_BLOCKS_NUM" using S(3) by (simp add: counter_ok_def)
  then have "unat (free_blocks s + of_nat (length (owned s n))) = unat (free_blocks s) + length (owned s n)"
    using len by (simp add: unat_word_ariths unat_of_nat)
  then show ?thesis by (simp add: cleared_def)
qed

lemma rd_unlink_entry:
  assumes ok: "fs_ok s" and vm: "serves vm (path_of (ds @ [f]))" and path: "resolve (dir_map s) 0 ds = Some d" "is_dir s d"
    and D: "catalog s d D" "named D" and R: "removable D i f m"
    and F: "\<not> (itype (inodes s m) = ''dir'' \<and> 0 < isize (inodes s m))"
  obtains s' where "rd_unlink vm s (path_of (ds @ [f])) = Some (0, s')" "fs_ok s'" "catalog s' d (D(i := None))"
    "named (D(i := None))" "dir_map s' = remove (dir_map s) d f m" "inodes s' m = zero_inode"
    "isize (inodes s' d) = isize (inodes s d) - 16" "\<And>k. k \<noteq> d \<Longrightarrow> k \<noteq> m \<Longrightarrow> inodes s' k = inodes s k"
    "itype (inodes s' d) = itype (inodes s d)" "free_inodes s' = free_inodes s + 1"
    "unat (free_blocks s) \<le> unat (free_blocks s')"
proof -
  have n: "d < MAX_NUM_FILE" using path(2) by (simp add: is_dir_def)
  have fm: "is_name f" using D(2) removableD(2) [OF R] by (auto simp: named_def)
  have map: "dir_map s d f = Some m" by (rule catalog_dir_map [OF ok path(2) D R])
  note M = dir_map_range [OF ok map]
  let ?c = "cleared m s"
  have okc: "fs_ok ?c" using cleared_ok [OF ok M(2)] M(1) by simp
  have dirc: "is_dir ?c d" using cleared_is_dir [of m s d] path(2) M(3) by simp
  have cat: "catalog ?c d D" by (rule catalog_cleared [OF ok n M(2,3) D])
  have wfc: "wf_blocks ?c" by (rule fs_okD(1) [OF okc])
  obtain t where t: "clear_entry_in_current_dir ?c d f = Some t" "pruned d ?c t"
    "\<And>l. data_loc d l \<Longrightarrow> outcome ?c t f l (l = row d (i div 16) \<and> used_entries ?c l = 1)"
    by (rule clear_entry_row [OF wfc n fm catalog_sole [OF wfc n cat D(2) R]], rule that)
  note P = prunedD [OF t(2)]
  have un: "rd_unlink vm s (path_of (ds @ [f])) = Some (0, shrink d t)"
  proof (cases rule: rd_unlink_eq [OF ok vm fm path(1) map])
    case 1
    then show ?thesis using F by simp
  next
    case (2 t0)
    then show ?thesis using t(1) by simp
  qed
  have catt: "catalog t d (D(i := None))" by (rule catalog_removed [OF wfc n cat D(2) R t(2,3)])
  have nD: "named (D(i := None))" using D(2) by (simp add: named_def)
  have has: "has_entry ?c f (row d (i div 16))" by (rule sole_rowD(2) [OF catalog_sole [OF wfc n cat D(2) R]])
  have find: "dir_find t d u = (if u = f then None else dir_find ?c d u)" if u: "is_name u" for u
    by (rule outcomes_find [OF okc dirc fm P(2) _ u]) (use t(3) has in blast)
  have "dir_map (shrink d t) = remove (dir_map s) d f m"
    using pruned_map [OF okc t(2) n find] cleared_map [OF ok M(2)] M(1,3)
    by (simp add: shrink_map remove_def fun_upd_twist)
  moreover have "fs_ok (shrink d t)" by (rule shrink_ok [OF pruned_ok [OF okc t(2) n]])
  ultimately show thesis
    using that [OF un] catalog_shrink [OF P(1) n catt nD] nD P(3-7) M(3) cleared_free [OF ok M(2)] by auto
qed

lemma catalog_fresh:
  assumes ok: "fs_ok s" and n: "n < MAX_NUM_FILE" and D: "catalog s n D" "named D" and t: "\<And>i m. D i \<noteq> Some (t, m)"
  shows "dir_map s n t = None"
proof (rule ccontr)
  assume "dir_map s n t \<noteq> None"
  then obtain a where u: "is_name t" "dir_find s n t = Some a" by (auto simp: dir_map_def split: if_splits)
  then have m: "a \<in> set (entries s n)" "entry_is s t a" using find_Some_mem by (fastforce simp: dir_find_def)+
  note wf = fs_okD(1) [OF ok]
  obtain l c j where l: "data_loc n l" "c < DATA_BLOCKS_NUM" "ptr_at s l = blk_addr s c" "j < ENTRIES_PER_BLOCK"
    "a = BLOCK_SIZE * c + 16 * j" by (rule entries_elim [OF wf n m(1)])
  note S = catalogD(1) [OF D(1) l(1-4), folded l(5)]
  show False
  proof (cases "table_at D l j")
    case None
    then show ?thesis using S m(2) zero_no_name [OF _ u(1)] by (simp add: slot_is_def)
  next
    case (Some x)
    obtain g y where x: "x = (g, y)" by (cases x)
    have "entry_is s g a" "is_name g" using S Some x table_at_cases [OF D(2)] by (auto simp: slot_is_def)
    then have "g = t" using one_name [OF m(2) _ u(1)] by simp
    then show False using Some x t by (auto simp: table_at_def split: option.splits)
  qed
qed
end
