(* ===== verification/Scenario.thy ===== *)
theory Scenario
  imports Append Drain
begin

text \<open>
  What the test programs of the repository have in common: their outcomes, names and data, and the
  partitions they go through, with what the calls of the module do there.  \<open>Proto_Tests\<close> and
  \<open>User_Tests\<close> hold the programs themselves.
\<close>

section \<open>The outcome of a program\<close>

text \<open>A section of the program goes on, or ends the program with \<^verbatim>\<open>exit(EXIT_FAILURE)\<close>.\<close>

datatype 'a outcome = Exit_Failure | Passed 'a

definition and_then :: "'a outcome option \<Rightarrow> ('a \<Rightarrow> 'b outcome option) \<Rightarrow> 'b outcome option" where
  "and_then t k = do { r \<leftarrow> t; (case r of Exit_Failure \<Rightarrow> Some Exit_Failure | Passed x \<Rightarrow> k x) }"

text \<open>A call whose negative result ends the program.\<close>

definition must :: "(int \<times> 'a) option \<Rightarrow> (int \<Rightarrow> 'a \<Rightarrow> 'b outcome option) \<Rightarrow> 'b outcome option" where
  "must c k = do { (retval, x) \<leftarrow> c; if retval < 0 then Some Exit_Failure else k retval x }"

lemma must_ok: "0 \<le> r \<Longrightarrow> must (Some (r, x)) k = k r x"
  by (simp add: must_def)

lemma passed_then: "and_then (Some (Passed x)) f = f x"
  by (simp add: and_then_def)

text \<open>\<^verbatim>\<open>%d\<close> of a number that is not negative, and the path \<^verbatim>\<open>/file%d\<close>.\<close>

fun decimal :: "nat \<Rightarrow> string" where
  "decimal n = (if n < 10 then [char_of (48 + n)] else decimal (n div 10) @ [char_of (48 + n mod 10)])"

declare decimal.simps [simp del]

definition file_path :: "nat \<Rightarrow> string" where
  "file_path i = ''/file'' @ decimal i"

definition data1 :: string where "data1 = replicate (8 * 256) (CHR ''1'')"

definition data2 :: string where "data2 = replicate (64 * 256) (CHR ''2'')"

definition data3 :: string where "data3 = replicate (64 * 64 * 256) (CHR ''3'')"

section \<open>The names\<close>

definition file_name :: "nat \<Rightarrow> string" where
  "file_name i = ''file'' @ decimal i"

lemma file_path_of: "file_path i = path_of [file_name i]"
  by (simp add: file_path_def file_name_def path_of_def)

lemma decimal_digits: "c \<in> set (decimal n) \<Longrightarrow> 48 \<le> (of_char c :: nat) \<and> of_char c < (58 :: nat)"
proof (induction n rule: decimal.induct)
  case (1 n)
  then show ?case
    by (subst (asm) (2) decimal.simps) (auto split: if_splits)
qed

lemma decimal_value: "foldl (\<lambda>v c. 10 * v + (of_char c - 48)) 0 (decimal n) = n"
proof (induction n rule: decimal.induct)
  case (1 n)
  then show ?case
    by (subst decimal.simps) (auto split: if_splits)
qed

lemma decimal_inj: "decimal i = decimal j \<longleftrightarrow> i = j"
  by (metis decimal_value)

lemma decimal_length: "0 < k \<Longrightarrow> n < 10 ^ k \<Longrightarrow> length (decimal n) \<le> k"
proof (induction n arbitrary: k rule: decimal.induct)
  case (1 n)
  show ?case
  proof (cases "n < 10")
    case True
    then show ?thesis using 1 by (subst decimal.simps) simp
  next
    case False
    obtain l where k: "k = Suc l" using 1(2) by (cases k) auto
    have "0 < l" by (rule gr0I) (use False 1(3) k in simp)
    note l = k this
    then have "length (decimal (n div 10)) \<le> l" using 1(1) [OF False, of l] 1(3) by (simp add: less_mult_imp_div_less mult.commute)
    then show ?thesis using False l by (subst decimal.simps) simp
  qed
qed

lemma file_name_ok: "i < 10000 \<Longrightarrow> is_name (file_name i)"
proof -
  assume "i < 10000"
  then have "length (decimal i) \<le> 4" by (intro decimal_length) simp_all
  moreover have "CHR ''/'' \<notin> set (decimal i)" "NUL \<notin> set (decimal i)"
    using decimal_digits [of "CHR ''/''" i] decimal_digits [of NUL i] by auto
  ultimately show ?thesis by (auto simp: is_name_def file_name_def is_cstr_def)
qed

lemma file_name_inj: "file_name i = file_name j \<longleftrightarrow> i = j"
  by (simp add: file_name_def decimal_inj)

section \<open>Filling and emptying the root\<close>

text \<open>The paths that the test programs use, the root among them.\<close>

definition test_paths :: "string set" where
  "test_paths = {''/'', ''/bigfile'', ''/dir1'', ''/dir1/dir2'', ''/dir1/dir3''} \<union> file_path ` {..<1023}"


definition files :: "nat \<Rightarrow> nat \<Rightarrow> table" where
  "files lo hi = (\<lambda>i. if lo \<le> i \<and> i < hi then Some (file_name i, i + 1) else None)"

text \<open>The partition when \<open>hi\<close> files have been created and the first \<open>lo\<close> of them removed.\<close>

definition stage :: "nat \<Rightarrow> nat \<Rightarrow> filesys_struct \<Rightarrow> bool" where
  "stage lo hi s \<longleftrightarrow> fs_ok s \<and> catalog s 0 (files lo hi) \<and> isize (inodes s 0) = of_nat (16 * (hi - lo))
     \<and> free_inodes s = of_nat (1023 - (hi - lo)) \<and> 7931 \<le> unat (free_blocks s) + 2 * hi
     \<and> (\<forall>k. 0 < k \<longrightarrow> k < MAX_NUM_FILE \<longrightarrow>
          inodes s k = (if lo < k \<and> k \<le> hi then zero_inode\<lparr>itype := ''reg'', access := RD\<rparr> else zero_inode))"

lemma stageD:
  assumes "stage lo hi s"
  shows "fs_ok s" "catalog s 0 (files lo hi)" "isize (inodes s 0) = of_nat (16 * (hi - lo))"
    "free_inodes s = of_nat (1023 - (hi - lo))" "7931 \<le> unat (free_blocks s) + 2 * hi"
    "\<And>k. 0 < k \<Longrightarrow> k < MAX_NUM_FILE \<Longrightarrow>
       inodes s k = (if lo < k \<and> k \<le> hi then zero_inode\<lparr>itype := ''reg'', access := RD\<rparr> else zero_inode)"
  using assms unfolding stage_def by blast+

lemma files_named: "hi \<le> 1023 \<Longrightarrow> named (files lo hi)"
  using file_name_ok by (auto simp: named_def files_def)

lemma files_filled: "filled (files 0 hi) hi"
  by (auto simp: filled_def files_def)

lemma empty_stage:
  assumes "region_ok (zero_filesys a)"
  shows "stage 0 0 (empty_fs a)"
proof -
  have "catalog (empty_fs a) 0 (files 0 0)"
    using blk_addr_nonzero [of "empty_fs a"] assms empty_region by (auto simp: catalog_def files_def empty_ptr simp del: ptr_at.simps)
  then show ?thesis using empty_ok [OF assms] by (simp add: stage_def) (simp add: empty_fs_def zero_inode_def)
qed

lemma fill_stage:
  assumes st: "stage 0 hi s" and vm: "serves vm (path_of [file_name hi])" and hi: "hi < 1023"
  obtains s' where "rd_create vm s (path_of [file_name hi]) ''reg'' RD = Some (0, s')" "stage 0 (Suc hi) s'"
proof -
  note S = stageD [OF st]
  have n: "named (files 0 hi)" by (rule files_named) (use hi in simp)
  have t: "is_name (file_name hi)" by (rule file_name_ok) (use hi in simp)
  have dir: "is_dir s 0" using fs_okD(4) [OF S(1)] .
  have fresh: "dir_map s 0 (file_name hi) = None"
    by (rule catalog_fresh [OF S(1) _ S(2) n]) (auto simp: files_def file_name_inj)
  have blocks: "2 \<le> unat (free_blocks s)" using S(5) hi by simp
  have "unat (of_nat (1023 - hi) :: 32 word) = 1023 - hi" by (simp add: unat_of_nat)
  then have ino: "free_inodes s \<noteq> 0" using S(4) hi by auto
  have node: "\<exists>i < MAX_NUM_FILE. 0 < i \<and> itype (inodes s i) = ''''"
    using S(6) [of "Suc hi"] hi by (intro exI [of _ "Suc hi"]) (simp add: zero_inode_def)
  obtain m s' where r: "rd_create vm s (path_of ([] @ [file_name hi])) ''reg'' RD = Some (0, s')"
    "enters s 0 (file_name hi) ''reg'' RD m s'" "m \<noteq> 0" "catalog s' 0 ((files 0 hi)(hi \<mapsto> (file_name hi, m)))"
    "isize (inodes s' 0) = of_nat (16 * Suc hi)" "unat (free_blocks s) \<le> unat (free_blocks s') + 2"
    "free_inodes s' = free_inodes s - 1" "\<And>k. k \<noteq> 0 \<Longrightarrow> k \<noteq> m \<Longrightarrow> inodes s' k = inodes s k"
    by (rule rd_create_next [OF S(1) _ t _ dir fresh S(2) n files_filled _ _ blocks ino node, of vm "[]"])
      (use S(3) hi vm that in auto)
  have E: "fs_ok s'" "m < MAX_NUM_FILE" "itype (inodes s m) = ''''" "\<forall>i \<in> {1..<m}. itype (inodes s i) \<noteq> ''''"
    "inodes s' m = zero_inode\<lparr>itype := ''reg'', access := RD\<rparr>" using r(2) by (auto simp: enters_def)
  have m: "m = Suc hi"
  proof (rule antisym)
    show "m \<le> Suc hi"
    proof (rule ccontr)
      assume "\<not> m \<le> Suc hi"
      then have "itype (inodes s (Suc hi)) \<noteq> ''''" using E(4) by simp
      then show False using S(6) [of "Suc hi"] hi by (simp add: zero_inode_def)
    qed
    show "Suc hi \<le> m" using S(6) [of m] E(2,3) r(3) by (auto split: if_splits)
  qed
  have "(files 0 hi)(hi \<mapsto> (file_name hi, m)) = files 0 (Suc hi)" using m by (auto simp: files_def fun_eq_iff)
  moreover have "free_inodes s' = of_nat (1023 - Suc hi)" using r(7) S(4) hi by (simp add: of_nat_diff)
  moreover have "inodes s' k = (if 0 < k \<and> k \<le> Suc hi then zero_inode\<lparr>itype := ''reg'', access := RD\<rparr> else zero_inode)"
    if "0 < k" "k < MAX_NUM_FILE" for k
    using that E(5) r(8) [of k] S(6) [OF that] m by (cases "k = m") auto
  ultimately have "stage 0 (Suc hi) s'"
    using E(1) r(4-6) S(5) by (simp add: stage_def)
  then show thesis using that r(1) by simp
qed

lemma files_removable:
  assumes "lo \<le> i" "i < 1023"
  shows "removable (files lo 1023) i (file_name i) (i + 1)"
  unfolding removable_def
proof (intro conjI allI impI)
  fix b assume b: "i div ENTRIES_PER_BLOCK < b" "b < ROWS"
  have lo: "lo < 16 * b" using b(1) assms(1) by (simp add: div_less_iff_less_mult mult.commute)
  show "(\<forall>j < ENTRIES_PER_BLOCK. files lo 1023 (ENTRIES_PER_BLOCK * b + j) = None)
      \<or> (\<exists>j < ENTRIES_PER_BLOCK. \<exists>k < ENTRIES_PER_BLOCK. j \<noteq> k \<and> files lo 1023 (ENTRIES_PER_BLOCK * b + j) \<noteq> None
          \<and> files lo 1023 (ENTRIES_PER_BLOCK * b + k) \<noteq> None)"
  proof (cases "b < 64")
    case True
    then have "files lo 1023 (ENTRIES_PER_BLOCK * b + 0) \<noteq> None" "files lo 1023 (ENTRIES_PER_BLOCK * b + 1) \<noteq> None"
      using lo by (auto simp: files_def)
    then show ?thesis by (intro disjI2 exI [of _ "0 :: nat"] exI [of _ "1 :: nat"] conjI) simp_all
  qed (simp add: files_def)
qed (use assms in \<open>auto simp: files_def file_name_inj split: if_splits\<close>)

lemma drain_stage:
  assumes st: "stage lo 1023 s" and vm: "serves vm (path_of [file_name lo])" and lo: "lo < 1023"
  obtains s' where "rd_unlink vm s (path_of [file_name lo]) = Some (0, s')" "stage (Suc lo) 1023 s'"
proof -
  note S = stageD [OF st]
  have n: "named (files lo 1023)" by (rule files_named) simp
  have dir: "is_dir s 0" using fs_okD(4) [OF S(1)] .
  have reg: "inodes s (lo + 1) = zero_inode\<lparr>itype := ''reg'', access := RD\<rparr>" using S(6) [of "lo + 1"] lo by simp
  obtain s' where r: "rd_unlink vm s (path_of ([] @ [file_name lo])) = Some (0, s')" "fs_ok s'"
    "catalog s' 0 ((files lo 1023)(lo := None))" "inodes s' (lo + 1) = zero_inode"
    "isize (inodes s' 0) = isize (inodes s 0) - 16" "\<And>k. k \<noteq> 0 \<Longrightarrow> k \<noteq> lo + 1 \<Longrightarrow> inodes s' k = inodes s k"
    "free_inodes s' = free_inodes s + 1" "unat (free_blocks s) \<le> unat (free_blocks s')"
    by (rule rd_unlink_entry [OF S(1) _ _ dir S(2) n files_removable [OF order_refl lo], of vm "[]"]) (use reg vm that in auto)
  have "(files lo 1023)(lo := None) = files (Suc lo) 1023" using lo by (auto simp: files_def fun_eq_iff)
  moreover have "isize (inodes s' 0) = of_nat (16 * (1023 - Suc lo))"
  proof -
    have "16 * (1023 - lo) = 16 * (1023 - Suc lo) + 16" using lo by simp
    then show ?thesis using r(5) S(3) by simp
  qed
  moreover have "free_inodes s' = of_nat (1023 - (1023 - Suc lo))"
  proof -
    have "1023 - (1023 - Suc lo) = 1023 - (1023 - lo) + 1" using lo by simp
    then show ?thesis using r(7) S(4) by simp
  qed
  moreover have "inodes s' k = (if Suc lo < k \<and> k \<le> 1023 then zero_inode\<lparr>itype := ''reg'', access := RD\<rparr> else zero_inode)"
    if "0 < k" "k < MAX_NUM_FILE" for k
    using that r(4) r(6) [of k] S(6) [OF that] by (cases "k = lo + 1") auto
  ultimately have "stage (Suc lo) 1023 s'"
    using r(2,3,8) S(5) by (simp add: stage_def)
  then show thesis using that r(1) by simp
qed

section \<open>A partition without files\<close>

definition bare :: "nat \<Rightarrow> filesys_struct \<Rightarrow> bool" where
  "bare B s \<longleftrightarrow> fs_ok s \<and> catalog s 0 Map.empty \<and> isize (inodes s 0) = 0 \<and> free_inodes s = 1023
     \<and> B \<le> unat (free_blocks s) \<and> (\<forall>k. 0 < k \<longrightarrow> k < MAX_NUM_FILE \<longrightarrow> inodes s k = zero_inode)"

lemma bareD:
  assumes "bare B s"
  shows "fs_ok s" "catalog s 0 Map.empty" "isize (inodes s 0) = 0" "free_inodes s = 1023" "B \<le> unat (free_blocks s)"
    "\<And>k. 0 < k \<Longrightarrow> k < MAX_NUM_FILE \<Longrightarrow> inodes s k = zero_inode"
  using assms unfolding bare_def by blast+

lemma drained_bare: "stage 1023 1023 s \<Longrightarrow> bare 5885 s"
proof -
  assume st: "stage 1023 1023 s"
  have "files 1023 1023 = Map.empty" by (auto simp: files_def fun_eq_iff)
  then show "bare 5885 s" using stageD [OF st] by (simp add: bare_def)
qed

lemma named_empty: "named Map.empty" "filled Map.empty 0"
  by (simp_all add: named_def filled_def)

lemma named_one: "is_name t \<Longrightarrow> 0 < m \<Longrightarrow> named [i \<mapsto> (t, m)]"
  by (simp add: named_def)

text \<open>The first entry gets the first index node.\<close>

lemma bare_create:
  assumes "bare B s" "serves vm (path_of [t])" "is_name t" "2 \<le> B"
  obtains s' where "rd_create vm s (path_of [t]) type mode = Some (0, s')" "fs_ok s'" "catalog s' 0 [0 \<mapsto> (t, 1)]"
    "isize (inodes s' 0) = 16" "free_inodes s' = 1022" "B \<le> unat (free_blocks s') + 2"
    "inodes s' 1 = zero_inode\<lparr>itype := type, access := mode\<rparr>" "\<And>k. 1 < k \<Longrightarrow> k < MAX_NUM_FILE \<Longrightarrow> inodes s' k = zero_inode"
    "dir_map s' = enter (dir_map s) 0 t 1" "dir_map s 0 = Map.empty"
proof -
  note S = bareD [OF assms(1)]
  have dir: "is_dir s 0" using fs_okD(4) [OF S(1)] .
  have fresh: "dir_map s 0 u = None" for u by (rule catalog_fresh [OF S(1) _ S(2) named_empty(1)]) simp_all
  have node: "itype (inodes s 1) = ''''" using S(6) [of 1] by (simp add: zero_inode_def)
  then have some: "\<exists>i < MAX_NUM_FILE. 0 < i \<and> itype (inodes s i) = ''''" by (intro exI [of _ 1]) simp
  obtain m s' where r: "rd_create vm s (path_of ([] @ [t])) type mode = Some (0, s')"
    "enters s 0 t type mode m s'" "catalog s' 0 (Map.empty(0 \<mapsto> (t, m)))" "isize (inodes s' 0) = of_nat (16 * Suc 0)"
    "unat (free_blocks s) \<le> unat (free_blocks s') + 2" "free_inodes s' = free_inodes s - 1"
    "\<And>k. k \<noteq> 0 \<Longrightarrow> k \<noteq> m \<Longrightarrow> inodes s' k = inodes s k"
    by (rule rd_create_next [OF S(1) _ assms(3) _ dir fresh S(2) named_empty, of vm "[]"])
      (use S(3-5) assms(2,4) some that in auto)
  have E: "fs_ok s'" "0 < m" "\<forall>i \<in> {1..<m}. itype (inodes s i) \<noteq> ''''" "dir_map s' = enter (dir_map s) 0 t m"
    "inodes s' m = zero_inode\<lparr>itype := type, access := mode\<rparr>" using r(2) by (auto simp: enters_def)
  have m: "m = 1"
  proof (rule ccontr)
    assume "m \<noteq> 1"
    then have "itype (inodes s 1) \<noteq> ''''" using E(2,3) by simp
    then show False using node by simp
  qed
  have "dir_map s 0 = Map.empty" using fresh by (simp add: fun_eq_iff)
  then show thesis using that [of s'] r E S(4-6) unfolding m by simp
qed

section \<open>A partition with one file\<close>

definition one_file :: "nat \<Rightarrow> 32 word \<Rightarrow> filesys_struct \<Rightarrow> bool" where
  "one_file B mode s \<longleftrightarrow> fs_ok s \<and> catalog s 0 [0 \<mapsto> (''bigfile'', 1)] \<and> isize (inodes s 0) = 16 \<and> free_inodes s = 1022
     \<and> B \<le> unat (free_blocks s) \<and> itype (inodes s 1) = ''reg'' \<and> access (inodes s 1) = mode
     \<and> (\<forall>k. 1 < k \<longrightarrow> k < MAX_NUM_FILE \<longrightarrow> inodes s k = zero_inode)"

lemma one_fileD:
  assumes "one_file B mode s"
  shows "fs_ok s" "catalog s 0 [0 \<mapsto> (''bigfile'', 1)]" "isize (inodes s 0) = 16" "free_inodes s = 1022"
    "B \<le> unat (free_blocks s)" "itype (inodes s 1) = ''reg''" "access (inodes s 1) = mode"
    "\<And>k. 1 < k \<Longrightarrow> k < MAX_NUM_FILE \<Longrightarrow> inodes s k = zero_inode"
  using assms unfolding one_file_def by blast+

lemma bigfile_name: "is_name ''bigfile''" "path_of [''bigfile''] = ''/bigfile''"
  by (simp_all add: is_name_def is_cstr_def path_of_def)

lemma named_bigfile: "named [0 \<mapsto> (''bigfile'', 1)]"
  by (rule named_one [OF bigfile_name(1)]) simp

lemma bigfile_removable: "removable [0 \<mapsto> (''bigfile'', 1)] 0 ''bigfile'' 1"
  by (simp add: removable_def)

lemma bigfile_found:
  assumes "one_file B mode s"
  shows "search_path s ''/bigfile'' = Some (int 1)"
proof -
  note S = one_fileD [OF assms]
  have "resolve (dir_map s) 0 [''bigfile''] = Some 1"
    using catalog_dir_map [OF S(1) fs_okD(4) [OF S(1)] S(2) named_bigfile bigfile_removable] by simp
  from lookup_found [OF S(1) this] show ?thesis by (simp only: bigfile_name(2))
qed

text \<open>What is done to node 1 alone leaves the directory as it is.\<close>

lemma one_file_step:
  assumes "one_file B mode s" "node_step 1 s s'" "wf_blocks s'" "unat (free_blocks s) \<le> unat (free_blocks s') + d"
  shows "one_file (B - d) mode s'"
proof -
  note S = one_fileD [OF assms(1)] and N = node_stepD [OF assms(2)] and wf = fs_okD(1) [OF one_fileD(1) [OF assms(1)]]
  have "fs_ok s'" by (rule file_step_ok [OF S(1) assms(2,3)]) (use S(6) in simp)
  moreover have "catalog s' 0 [0 \<mapsto> (''bigfile'', 1)]"
  proof (rule catalog_cong [OF wf _ S(2) named_bigfile N(1)])
    show "ptr_at s' l = ptr_at s l" if "data_loc 0 l" for l
      using node_step_ptr [OF assms(2) wf] that by (auto simp: data_loc_def)
    show "same_entry s s' a" if "a \<in> set (entries s 0)" for a
      using node_step_dir [OF assms(2) wf, of 0] that by (auto simp: same_dir_def)
  qed simp
  ultimately show ?thesis using S(3-8) N(2,4-6) assms(4) by (simp add: one_file_def)
qed

lemma one_file_chmod:
  assumes "one_file B mode s" "serves vm ''/bigfile''"
  shows "rd_chmod vm s ''/bigfile'' RD = Some (0, set_inode s 1 ((inodes s 1)\<lparr>access := RD\<rparr>))"
    "one_file B RD (set_inode s 1 ((inodes s 1)\<lparr>access := RD\<rparr>))" (is "one_file B RD ?s")
proof -
  note S = one_fileD [OF assms(1)]
  show "rd_chmod vm s ''/bigfile'' RD = Some (0, ?s)"
    using bigfile_found [OF assms(1)] served_copies [OF assms(2)] by (simp add: rd_chmod_def get_inode_def)
  have "catalog ?s 0 [0 \<mapsto> (''bigfile'', 1)]"
    by (rule catalog_cong [OF fs_okD(1) [OF S(1)] _ S(2) named_bigfile])
      (auto simp: same_entry_def intro!: ptr_at_set_inode_same)
  then show "one_file B RD ?s"
    using S(3-8) set_access_ok [OF S(1), of 1 RD] by (simp add: one_file_def)
qed

lemma bigfile_created:
  assumes "bare B s" "serves vm ''/bigfile''" "2 \<le> B"
  obtains s1 where "rd_create vm s ''/bigfile'' ''reg'' RW = Some (0, s1)" "one_file (B - 2) RW s1" "isize (inodes s1 1) = 0"
proof -
  obtain s1 where c: "rd_create vm s (path_of [''bigfile'']) ''reg'' RW = Some (0, s1)" "fs_ok s1"
    "catalog s1 0 [0 \<mapsto> (''bigfile'', 1)]" "isize (inodes s1 0) = 16" "free_inodes s1 = 1022" "B \<le> unat (free_blocks s1) + 2"
    "inodes s1 1 = zero_inode\<lparr>itype := ''reg'', access := RW\<rparr>" "\<And>k. 1 < k \<Longrightarrow> k < MAX_NUM_FILE \<Longrightarrow> inodes s1 k = zero_inode"
    by (rule bare_create [OF assms(1) assms(2) [folded bigfile_name(2)] bigfile_name(1) assms(3), of "''reg''" RW], rule that)
  have "one_file (B - 2) RW s1" "isize (inodes s1 1) = 0" using c(2-8) by (simp_all add: one_file_def zero_inode_def)
  then show thesis using that c(1) by (simp only: bigfile_name(2))
qed

lemma one_file_unlink:
  assumes "one_file B mode s" "serves mal ''/bigfile''"
  obtains s' where "rd_unlink mal s ''/bigfile'' = Some (0, s')" "bare B s'"
proof -
  note S = one_fileD [OF assms(1)]
  obtain s' where r: "rd_unlink mal s (path_of ([] @ [''bigfile''])) = Some (0, s')" "fs_ok s'"
    "catalog s' 0 ([0 \<mapsto> (''bigfile'', 1)](0 := None))" "inodes s' 1 = zero_inode" "isize (inodes s' 0) = isize (inodes s 0) - 16"
    "\<And>k. k \<noteq> 0 \<Longrightarrow> k \<noteq> 1 \<Longrightarrow> inodes s' k = inodes s k" "free_inodes s' = free_inodes s + 1" "unat (free_blocks s) \<le> unat (free_blocks s')"
    by (rule rd_unlink_entry [OF S(1) _ _ fs_okD(4) [OF S(1)] S(2) named_bigfile bigfile_removable, of mal "[]"])
      (use S(6) that assms(2) bigfile_name(2) in auto)
  have "inodes s' k = zero_inode" if "0 < k" "k < MAX_NUM_FILE" for k
    using that r(4) r(6) [of k] S(8) [of k] by (cases "k = 1") auto
  moreover have "[0 \<mapsto> (''bigfile'', 1)](0 := None) = Map.empty" by simp
  ultimately have "bare B s'" using r(2,3,5,7,8) S(3-5) by (simp add: bare_def)
  moreover have "rd_unlink mal s ''/bigfile'' = Some (0, s')" using r(1) by (simp only: bigfile_name(2) append_Nil)
  ultimately show thesis using that by blast
qed

section \<open>Writing the file in pieces\<close>

lemma data_facts:
  "length data1 = 2048" "length data2 = 16384" "length data3 = 1048576"
  "NUL \<notin> set data1" "NUL \<notin> set data2" "NUL \<notin> set data3"
  by (simp_all add: data1_def data2_def data3_def)

text \<open>The descriptor of the file, at the end of what has been written.\<close>

definition written :: "nat \<Rightarrow> string \<Rightarrow> kernel \<Rightarrow> bool" where
  "written B buf k \<longleftrightarrow> fds_ok k \<and> one_file B RW (fs k) \<and> valid_fd k 0 \<and> fd_node k 0 = 1
     \<and> status (fobj k 0 0) = RW \<and> cursor (fobj k 0 0) = of_nat (length buf)
     \<and> isize (inodes (fs k) 1) = of_nat (length buf) \<and> holds (fs k) 1 buf (length buf)"

lemma writtenD:
  assumes "written B buf k"
  shows "fds_ok k" "one_file B RW (fs k)" "valid_fd k 0" "fd_node k 0 = 1" "status (fobj k 0 0) = RW"
    "cursor (fobj k 0 0) = of_nat (length buf)" "isize (inodes (fs k) 1) = of_nat (length buf)"
    "holds (fs k) 1 buf (length buf)" "wf_blocks (fs k)" "counter_ok (fs k)"
  using assms fs_okD(1,3) [OF one_fileD(1)] unfolding written_def by blast+

text \<open>The buffer may be longer than what is written of it.\<close>

lemma written_next:
  assumes w: "written B old k" and b: "length old = BLOCK_SIZE * b" "b \<le> 72" and d: "NUL \<notin> set (old @ new)" "new \<noteq> []"
    and size: "length (old @ new) \<le> BLOCK_SIZE * MAX_FILE_BLOCKS" "(length (old @ new) + 255) div BLOCK_SIZE - b + 66 \<le> B"
    and buf: "take (length new) buf = new"
  obtains k' where "rd_write k 0 p buf (int (length new)) = Some (int (length new), k')"
    "written (B - ((length (old @ new) + 255) div BLOCK_SIZE - b + 66)) (old @ new) k'"
proof -
  note W = writtenD [OF w] and S = one_fileD [OF writtenD(2) [OF w]]
  let ?N = "length (old @ new)" and ?all = "old @ buf"
  have len: "length new \<le> length buf" using arg_cong [OF buf, of length] by simp
  have eq: "?all ! x = (old @ new) ! x" if "x < ?N" for x
    using that nth_take [of "x - length old" "length new" buf] buf by (auto simp: nth_append)
  have "holds (fs k) 1 ?all (length old)" by (rule holds_cong [OF _ W(8)]) (simp add: nth_append)
  then have at: "at_end k 0 ?all b" using W S(6,7) b(1) by (simp add: at_end_def)
  have "\<forall>x < ?N. ?all ! x \<noteq> NUL" using d(1) nth_mem eq by metis
  moreover have "BLOCK_SIZE * b < ?N" using b(1) d(2) by simp
  ultimately have room: "room_for (fs k) ?all b ?N" using b(2) size S(5) len by (simp add: room_for_def)
  obtain s where s: "rd_write k 0 p (drop (BLOCK_SIZE * b) ?all) (int (?N - BLOCK_SIZE * b)) = Some (int (?N - BLOCK_SIZE * b), moved k 0 s (of_nat ?N))"
    "fds_ok (moved k 0 s (of_nat ?N))" "wf_blocks s" "isize (inodes s 1) = of_nat ?N" "holds s 1 ?all ?N"
    "unat (free_blocks (fs k)) \<le> unat (free_blocks s) + ((?N + 255) div BLOCK_SIZE - b + 66)" "node_step 1 (fs k) s"
    using append_moved [OF W(1,9,10) at room, of p] W(4) by metis
  have "holds s 1 (old @ new) ?N" by (rule holds_cong [OF _ s(5)]) (rule eq)
  then have "written (B - ((?N + 255) div BLOCK_SIZE - b + 66)) (old @ new) (moved k 0 s (of_nat ?N))"
    using s(2,4) W(3-5) one_file_step [OF W(2) s(7,3,6)] by (simp add: written_def) (simp add: moved_def)
  moreover have "drop (BLOCK_SIZE * b) ?all = buf" "?N - BLOCK_SIZE * b = length new" using b(1) by simp_all
  ultimately show thesis using that s(1) by simp
qed

text \<open>The first descriptor, for the empty file.\<close>

lemma opened_bigfile:
  assumes k: "fds_ok k" "usable (fobj k 0 0) = 0" and s: "one_file B RW (fs k)" "isize (inodes (fs k) 1) = 0"
    and vm: "serves vm ''/bigfile''"
  obtains k' where "rd_open vm k ''/bigfile'' RW p = Some (0, k')" "written B [] k'"
proof -
  note S = one_fileD [OF s(1)]
  let ?f = "\<lparr>inode_ptr = Some 1, status = RW, cursor = 0, pos = 0, usable = 1\<rparr>"
  have least: "(LEAST i. usable (fobj k 0 i) = 0) = 0" by (rule Least_equality) (simp_all add: k(2))
  have "\<not> (access_denied RW (access (inodes (fs k) 1)) \<or> (\<forall>i < FD_TABLE_SIZE. usable (fobj k 0 i) \<noteq> 0))"
    using S(7) k(2) by (auto simp: access_denied_def intro!: exI [of _ 0])
  then have o: "rd_open vm k ''/bigfile'' RW p = Some (0, upd_fobj k 0 0 ?f)"
    using rd_open_eq [OF k(1), of "''/bigfile''" vm 1 RW p] bigfile_found [OF s(1)] served_copies [OF vm] least by (simp add: Let_def)
  have "fds_ok (upd_fobj k 0 0 ?f)" by (rule fds_ok_upd [OF k(1)]) (simp add: slot_ok_def)
  then have "written B [] (upd_fobj k 0 0 ?f)"
    using s by (simp add: written_def valid_fd_def fd_node_def holds_def)
  then show thesis using that o by blast
qed

section \<open>Reading it back\<close>

text \<open>A descriptor from which the whole file can be read.\<close>

definition readable :: "nat \<Rightarrow> string \<Rightarrow> nat \<Rightarrow> kernel \<Rightarrow> bool" where
  "readable B buf x k \<longleftrightarrow> fds_ok k \<and> one_file B RW (fs k) \<and> valid_fd k 0 \<and> fd_node k 0 = 1
     \<and> cursor (fobj k 0 0) = of_nat x \<and> isize (inodes (fs k) 1) = of_nat (length buf) \<and> holds (fs k) 1 buf (length buf)"

lemma readableD:
  assumes "readable B buf x k"
  shows "fds_ok k" "one_file B RW (fs k)" "valid_fd k 0" "fd_node k 0 = 1" "cursor (fobj k 0 0) = of_nat x"
    "isize (inodes (fs k) 1) = of_nat (length buf)" "holds (fs k) 1 buf (length buf)" "wf_blocks (fs k)"
    "itype (inodes (fs k) (fd_node k 0)) \<noteq> ''dir''"
  using assms fs_okD(1) [OF one_fileD(1)] one_fileD(6) unfolding readable_def by fastforce+

lemma readable_moved:
  assumes "readable B buf x k"
  shows "readable B buf y (moved k 0 (fs k) (of_nat y))"
  using readableD [OF assms] moved_ok [of k 0 "fs k" "of_nat y"] by (simp add: readable_def) (simp add: moved_def)

lemma written_rewind:
  assumes "written B buf k" "0 < length buf" "length buf \<le> BLOCK_SIZE * MAX_FILE_BLOCKS"
  obtains k' where "rd_lseek k 0 0 p = Some (0, k')" "readable B buf (BLOCK_SIZE * 0) k'"
proof -
  note W = writtenD [OF assms(1)]
  have "itype (inodes (fs k) (fd_node k 0)) \<noteq> ''dir''" using one_fileD(6) [OF W(2)] W(4) by simp
  then have "rd_lseek k 0 (int 0) p = Some (int 0, moved k 0 (fs k) (of_nat 0))"
    by (rule lseek_boundary [OF W(1,3) _ _ assms(2,3)]) (use W(4,7) in simp)
  moreover have "readable B buf (length buf) k" using W by (simp add: readable_def)
  ultimately show thesis using that readable_moved [of B buf "length buf" k 0] by simp
qed

text \<open>What a read of the middle part \<open>d\<close> of the file needs of its place in it.\<close>

lemma readable_part:
  assumes r: "readable B buf (BLOCK_SIZE * b) k" and buf: "buf = pre @ d @ suf" "length pre = BLOCK_SIZE * b" "0 < length d"
    and z: "NUL \<notin> set buf"
  defines "N \<equiv> length (pre @ d)"
  shows "N - BLOCK_SIZE * b = length d" "BLOCK_SIZE * b < N" "N \<le> length buf" "\<forall>x < N. buf ! x \<noteq> NUL"
    "isize (inodes (fs k) (fd_node k 0)) = of_nat (length buf)" "holds (fs k) (fd_node k 0) buf N"
    "take (length d) (drop (BLOCK_SIZE * b) buf) = d" "cursor (fobj k 0 (nat 0)) = of_nat (BLOCK_SIZE * b)"
proof -
  note R = readableD [OF r]
  show "N - BLOCK_SIZE * b = length d" "BLOCK_SIZE * b < N" and N: "N \<le> length buf" using buf by (auto simp: N_def)
  show "\<forall>x < N. buf ! x \<noteq> NUL" using z N nth_mem by (metis less_le_trans)
  show "isize (inodes (fs k) (fd_node k 0)) = of_nat (length buf)" "holds (fs k) (fd_node k 0) buf N"
    using R(4,6,7) N by (auto simp: holds_def)
  show "take (length d) (drop (BLOCK_SIZE * b) buf) = d" using buf by simp
  show "cursor (fobj k 0 (nat 0)) = of_nat (BLOCK_SIZE * b)" using R(5) by simp
qed

lemma readable_read:
  assumes r: "readable B buf (BLOCK_SIZE * b) k" and b: "b \<le> 72" and buf: "buf = pre @ d @ suf" "length pre = BLOCK_SIZE * b"
    and d: "0 < length d" "length d \<le> READ_BUFFER_SIZE" and z: "NUL \<notin> set buf" "length buf \<le> BLOCK_SIZE * MAX_FILE_BLOCKS"
  obtains rb k' where "rd_read k 0 (int (length d)) p = Some (int (length d), copy_chunks rb 0 (int (length d)), k')"
    "map rb [0..<length d] = d" "readable B buf (length (pre @ d)) k'"
proof -
  note R = readableD [OF r] and P = readable_part [OF r buf d(1) z(1)]
  let ?N = "length (pre @ d)" and ?n = "fd_node k 0"
  obtain rb where g: "rd_read k 0 (int (?N - BLOCK_SIZE * b)) p = Some (int (?N - BLOCK_SIZE * b), copy_chunks rb 0 (int (?N - BLOCK_SIZE * b)),
       upd_fobj (k\<lparr>read_buffer := rb\<rparr>) 0 (nat 0) ((fobj k 0 (nat 0))\<lparr>cursor := of_nat ?N\<rparr>))"
    "map rb [0..<?N - BLOCK_SIZE * b] = take (?N - BLOCK_SIZE * b) (drop (BLOCK_SIZE * b) buf)"
    by (rule read_part_chunks [OF R(1,8,3) P(8) R(9) P(5,6) b P(2,3) z(2) _ P(3,4)]) (use d P(1) in auto)
  let ?k = "upd_fobj (k\<lparr>read_buffer := rb\<rparr>) 0 (nat 0) ((fobj k 0 (nat 0))\<lparr>cursor := of_nat ?N\<rparr>)"
  have "valid_fd (k\<lparr>read_buffer := rb\<rparr>) 0" using R(3) by (simp add: valid_fd_def)
  then have "fds_ok ?k" using fds_ok_moved [of "k\<lparr>read_buffer := rb\<rparr>" 0 "of_nat ?N"] R(1) by simp
  then have "readable B buf ?N ?k" using R by (simp add: readable_def valid_fd_def fd_node_def)
  then show thesis using that g unfolding P(1,7) by blast
qed

lemma readable_close:
  assumes "readable B buf x k"
  obtains k' where "rd_close k 0 p = Some (0, k')" "fds_ok k'" "one_file B RW (fs k')" "\<not> valid_fd k' 0"
proof -
  note R = readableD [OF assms]
  have "rd_close k 0 p = Some (0, upd_fobj k 0 0 zero_file_object)"
    using rd_close_eq [OF R(1), of 0 p] R(3,9) by simp
  moreover have "fds_ok (upd_fobj k 0 0 zero_file_object)"
    by (rule fds_ok_upd [OF R(1)]) (simp add: slot_ok_def zero_file_object_def)
  ultimately show thesis
    using that [of "upd_fobj k 0 0 zero_file_object"] R(2) by (simp add: valid_fd_def zero_file_object_def)
qed

lemma write_closed:
  assumes "fds_ok k" "\<not> valid_fd k 0"
  shows "rd_write k 0 p buf n = Some (-1, k)"
  using lookup_fd_invalid [OF assms(1) _ _ assms(2), of p]
  by (auto simp: rd_write_def zero_file_object_def Let_def)

section \<open>Three directories\<close>

lemma dir_names: "is_name ''dir1''" "is_name ''dir2''" "is_name ''dir3''"
  by (simp_all add: is_name_def is_cstr_def)

lemma dir_paths:
  "path_of [''dir1''] = ''/dir1''" "path_of [''dir1'', ''dir2''] = ''/dir1/dir2''" "path_of [''dir1'', ''dir3''] = ''/dir1/dir3''"
  by (simp_all add: path_of_def)

text \<open>A node without blocks has no entries.\<close>

lemma fresh_catalog:
  assumes "fs_ok s" "inodes s n = zero_inode\<lparr>itype := type, access := mode\<rparr>"
  shows "catalog s n Map.empty"
proof -
  have "node_of l = n \<Longrightarrow> ptr_at s l = 0" for l
    using assms(2) by (induction l) (auto simp: zero_inode_def)
  then have "ptr_at s l = 0" if "data_loc n l" for l
    using that by (simp add: data_loc_def)
  then show ?thesis using blk_addr_nonzero [OF wf_region [OF fs_okD(1) [OF assms(1)]]] by (simp add: catalog_def)
qed

text \<open>A directory is made in \<open>dir1\<close>.\<close>

lemma mkdir_inside:
  assumes s: "fs_ok s" "dir_map s 0 ''dir1'' = Some 1" "is_dir s 1" "catalog s 1 D" "named D" "filled D hi" "hi < 16"
    and size: "isize (inodes s 1) = of_nat (16 * hi)" "2 \<le> unat (free_blocks s)" "free_inodes s \<noteq> 0"
    and node: "\<exists>i < MAX_NUM_FILE. 0 < i \<and> itype (inodes s i) = ''''"
    and t: "is_name t" "\<And>i m. D i \<noteq> Some (t, m)" and vm: "serves mal (path_of [''dir1'', t])"
  obtains m s' where "rd_create mal s (path_of [''dir1'', t]) ''dir'' mode = Some (0, s')" "fs_ok s'" "1 < m"
    "catalog s' 1 (D(hi \<mapsto> (t, m)))" "named (D(hi \<mapsto> (t, m)))" "filled (D(hi \<mapsto> (t, m))) (Suc hi)"
    "isize (inodes s' 1) = of_nat (16 * Suc hi)" "unat (free_blocks s) \<le> unat (free_blocks s') + 2"
    "free_inodes s' = free_inodes s - 1" "\<And>k. k \<noteq> 1 \<Longrightarrow> k \<noteq> m \<Longrightarrow> inodes s' k = inodes s k"
    "dir_map s' = enter (dir_map s) 1 t m" "is_dir s' 1" "itype (inodes s m) = ''''" "itype (inodes s' m) = ''dir''"
proof -
  have n: "1 < MAX_NUM_FILE" by simp
  have path: "resolve (dir_map s) 0 [''dir1''] = Some 1" using s(2) by simp
  have hi: "hi < ENTRIES_PER_BLOCK * ROWS" using s(7) by simp
  have vm': "serves mal (path_of ([''dir1''] @ [t]))" using vm by simp
  obtain m s' where r: "rd_create mal s (path_of ([''dir1''] @ [t])) ''dir'' mode = Some (0, s')" "enters s 1 t ''dir'' mode m s'" "m \<noteq> 1"
    "catalog s' 1 (D(hi \<mapsto> (t, m)))" "named (D(hi \<mapsto> (t, m)))" "filled (D(hi \<mapsto> (t, m))) (Suc hi)"
    "isize (inodes s' 1) = of_nat (16 * Suc hi)" "unat (free_blocks s) \<le> unat (free_blocks s') + 2"
    "free_inodes s' = free_inodes s - 1" "\<And>k. k \<noteq> 1 \<Longrightarrow> k \<noteq> m \<Longrightarrow> inodes s' k = inodes s k"
    by (rule rd_create_next [OF s(1) vm' t(1) path s(3) catalog_fresh [OF s(1) n s(4,5) t(2)] s(4-6) size(1) hi size(2,3) node,
        of "''dir''" mode], rule that)
  have E: "fs_ok s'" "0 < m" "dir_map s' = enter (dir_map s) 1 t m" "itype (inodes s m) = ''''" "itype (inodes s' m) = ''dir''"
    using r(2) by (auto simp: enters_def)
  have p: "rd_create mal s (path_of [''dir1'', t]) ''dir'' mode = Some (0, s')" using r(1) by simp
  have "dir_map s' 1 t = Some m" using E(3) by (simp add: enter_def)
  then have "is_dir s' 1" by (auto simp: dir_map_def split: if_splits)
  moreover have "1 < m" using r(3) E(2) by simp
  ultimately show thesis by (intro that [OF p E(1) _ r(4-9) _ E(3) _ E(4,5)]) (auto intro: r(10))
qed

text \<open>The directories TEST 5 makes, and nothing else.\<close>

definition three_dirs :: "filesys_struct \<Rightarrow> bool" where
  "three_dirs s \<longleftrightarrow> (\<exists>a b. dir_map s 0 = [''dir1'' \<mapsto> 1] \<and> dir_map s 1 = [''dir2'' \<mapsto> a, ''dir3'' \<mapsto> b] \<and> a \<noteq> b)"

lemma first_dir:
  assumes "bare B s" "6 \<le> B" "serves vm ''/dir1''"
  obtains s1 where "rd_create vm s ''/dir1'' ''dir'' mode = Some (0, s1)" "fs_ok s1" "dir_map s1 0 = [''dir1'' \<mapsto> 1]"
    "dir_map s1 1 = Map.empty" "is_dir s1 1" "catalog s1 1 Map.empty" "4 \<le> unat (free_blocks s1)" "free_inodes s1 = 1022"
    "isize (inodes s1 1) = of_nat (16 * 0)" "\<And>k. 1 < k \<Longrightarrow> k < MAX_NUM_FILE \<Longrightarrow> itype (inodes s1 k) = ''''"
proof -
  have B: "2 \<le> B" using assms(2) by simp
  have vm: "serves vm (path_of [''dir1''])" using assms(3) by (simp only: dir_paths)
  obtain s1 where c: "rd_create vm s (path_of [''dir1'']) ''dir'' mode = Some (0, s1)" "fs_ok s1" "free_inodes s1 = 1022"
    "B \<le> unat (free_blocks s1) + 2" "inodes s1 1 = zero_inode\<lparr>itype := ''dir'', access := mode\<rparr>"
    "\<And>k. 1 < k \<Longrightarrow> k < MAX_NUM_FILE \<Longrightarrow> inodes s1 k = zero_inode"
    "dir_map s1 = enter (dir_map s) 0 ''dir1'' 1" "dir_map s 0 = Map.empty"
    by (rule bare_create [OF assms(1) vm dir_names(1) B, of "''dir''" mode], rule that)
  have "itype (inodes s 1) = ''''" using bareD(6) [OF assms(1), of 1] by (simp add: zero_inode_def)
  then have "dir_map s 1 = Map.empty" by (simp add: fun_eq_iff dir_map_def is_dir_def)
  moreover have "is_dir s1 1" using c(5) by (simp add: is_dir_def)
  moreover have "rd_create vm s ''/dir1'' ''dir'' mode = Some (0, s1)" using c(1) by (simp only: dir_paths)
  ultimately show thesis
    using that c(2-8) assms(2) fresh_catalog [OF c(2,5)] by (simp add: enter_def zero_inode_def)
qed

lemma three_mkdirs:
  assumes "bare B s" "6 \<le> B" "serves vm ''/dir1''" "serves vm ''/dir1/dir2''" "serves vm ''/dir1/dir3''"
  obtains s1 s2 s3 where "rd_create vm s ''/dir1'' ''dir'' mode = Some (0, s1)"
    "rd_create vm s1 ''/dir1/dir2'' ''dir'' mode = Some (0, s2)" "rd_create vm s2 ''/dir1/dir3'' ''dir'' mode = Some (0, s3)"
    "fs_ok s3" "three_dirs s3"
proof -
  obtain s1 where c: "rd_create vm s ''/dir1'' ''dir'' mode = Some (0, s1)" "fs_ok s1" "dir_map s1 0 = [''dir1'' \<mapsto> 1]"
    "dir_map s1 1 = Map.empty" "is_dir s1 1" "catalog s1 1 Map.empty" "4 \<le> unat (free_blocks s1)" "free_inodes s1 = 1022"
    "isize (inodes s1 1) = of_nat (16 * 0)" "\<And>k. 1 < k \<Longrightarrow> k < MAX_NUM_FILE \<Longrightarrow> itype (inodes s1 k) = ''''"
    by (rule first_dir [OF assms(1-3), of mode], rule that)
  have d1: "dir_map s1 0 ''dir1'' = Some 1" using c(3) by simp
  have free1: "2 \<le> unat (free_blocks s1)" "free_inodes s1 \<noteq> 0" "\<exists>i < MAX_NUM_FILE. 0 < i \<and> itype (inodes s1 i) = ''''"
    using c(7,8) c(10) [of 2] by (auto intro!: exI [of _ 2])
  obtain a s2 where r: "rd_create vm s1 (path_of [''dir1'', ''dir2'']) ''dir'' mode = Some (0, s2)" "fs_ok s2" "1 < a"
    "catalog s2 1 [0 \<mapsto> (''dir2'', a)]" "named [0 \<mapsto> (''dir2'', a)]" "filled [0 \<mapsto> (''dir2'', a)] (Suc 0)"
    "isize (inodes s2 1) = of_nat (16 * Suc 0)" "unat (free_blocks s1) \<le> unat (free_blocks s2) + 2"
    "free_inodes s2 = free_inodes s1 - 1" "\<And>k. k \<noteq> 1 \<Longrightarrow> k \<noteq> a \<Longrightarrow> inodes s2 k = inodes s1 k"
    "dir_map s2 = enter (dir_map s1) 1 ''dir2'' a" "is_dir s2 1" "itype (inodes s2 a) = ''dir''"
    by (rule mkdir_inside [OF c(2) d1 c(5,6) named_empty _ c(9) free1 dir_names(2) _ assms(4) [folded dir_paths], of mode]) (use that in auto)
  have d2: "dir_map s2 0 ''dir1'' = Some 1" using d1 r(11) by (simp add: enter_def)
  define i where "i = (if a = 2 then 3 else 2 :: nat)"
  have i: "i \<noteq> 1" "i \<noteq> a" "1 < i" "i < MAX_NUM_FILE" by (auto simp: i_def)
  then have "itype (inodes s2 i) = ''''" using r(10) [of i] c(10) [of i] by simp
  then have free2: "2 \<le> unat (free_blocks s2)" "free_inodes s2 \<noteq> 0" "\<exists>i < MAX_NUM_FILE. 0 < i \<and> itype (inodes s2 i) = ''''"
    using r(8,9) c(7,8) i by auto
  obtain b s3 where q: "rd_create vm s2 (path_of [''dir1'', ''dir3'']) ''dir'' mode = Some (0, s3)" "fs_ok s3"
    "dir_map s3 = enter (dir_map s2) 1 ''dir3'' b" "itype (inodes s2 b) = ''''"
    by (rule mkdir_inside [OF r(2) d2 r(12,4,5,6) _ r(7) free2 dir_names(3) _ assms(5) [folded dir_paths], of mode]) (use that in auto)
  have "dir_map s3 0 = [''dir1'' \<mapsto> 1]" "dir_map s3 1 = [''dir2'' \<mapsto> a, ''dir3'' \<mapsto> b]"
    using c(3,4) r(11) q(3) by (simp_all add: enter_def)
  moreover have "a \<noteq> b" using r(13) q(4) by auto
  ultimately have "three_dirs s3" unfolding three_dirs_def by blast
  then show thesis using that c(1) r(1) q(1,2) unfolding dir_paths by blast
qed

end
