(* ===== verification/Proto_Tests.thy ===== *)
theory Proto_Tests
  imports Proto Scenario
begin

text \<open>
  The test program of the prototype: \<^verbatim>\<open>main\<close> of \<^verbatim>\<open>Ramdisk/userspace/discos.c\<close>, with all of
  its \<^verbatim>\<open>TEST\<close> sections, and the proof that it runs to its end and reads back what it wrote.
  What it prints besides the contents of files, and the key presses it waits for, are left out.
\<close>

section \<open>The program\<close>

definition on_fs :: "(filesys_struct \<Rightarrow> (int \<times> filesys_struct) option) \<Rightarrow> kernel \<Rightarrow> (int \<times> kernel) option" where
  "on_fs f k = map_option (\<lambda>(r, s). (r, k\<lparr>fs := s\<rparr>)) (f (fs k))"

text \<open>TEST 1: as many files as there are index nodes besides the root, created and removed.\<close>

definition proto_test1_create :: "allocator \<Rightarrow> filesys_struct \<Rightarrow> (filesys_struct + filesys_struct outcome) option" where
  "proto_test1_create mal s0 = for_loop 0 (MAX_NUM_FILE - 1) (\<lambda>i s. do {
     (retval, s1) \<leftarrow> proto_rd_create mal s (file_path i) ''reg'' RD;
     Some (if retval < 0 \<and> i \<noteq> MAX_NUM_FILE - 1 then Ret Exit_Failure else Next s1) }) s0"

definition proto_test1 :: "allocator \<Rightarrow> filesys_struct \<Rightarrow> filesys_struct outcome option" where
  "proto_test1 mal s0 =
     after (proto_test1_create mal s0) (\<lambda>s.
     after (for_loop 0 (MAX_NUM_FILE - 1) (\<lambda>i s. do {
       (retval, s1) \<leftarrow> proto_rd_unlink mal s (file_path i);
       Some (if retval < 0 then Ret Exit_Failure else Next s1) }) s) (\<lambda>s.
     Some (Passed s)))"

text \<open>TEST 2: a file that fills the direct, the single and the double indirect blocks.\<close>

definition proto_test2 :: "allocator \<Rightarrow> kernel \<Rightarrow> (int \<times> kernel) outcome option" where
  "proto_test2 mal k =
     must (on_fs (\<lambda>s. proto_rd_create mal s ''/bigfile'' ''reg'' RW) k) (\<lambda>retval k.
     must (proto_rd_open mal k ''/bigfile'' RW 100) (\<lambda>fd k.
     must (proto_rd_write k fd 100 data1 (int (length data1))) (\<lambda>retval k.
     must (proto_rd_write k fd 100 data2 (int (length data2))) (\<lambda>retval k.
     must (proto_rd_write k fd 100 data3 (int (length data3))) (\<lambda>retval k.
     Some (Passed (fd, k)))))))"

text \<open>TEST 3: the file is read from its start, in the same three portions.  \<^verbatim>\<open>rd_read\<close> leaves a
  string at \<^verbatim>\<open>addr\<close>, which is printed after each call; \<open>stack i\<close> is what the stack holds below
  the \<open>i\<close>-th call.\<close>

definition proto_read_print ::
  "kernel \<Rightarrow> (nat \<Rightarrow> char) \<Rightarrow> int \<Rightarrow> int \<Rightarrow> (string \<Rightarrow> kernel \<Rightarrow> 'b outcome option) \<Rightarrow> 'b outcome option" where
  "proto_read_print k rb fd n c =
     must (map_option (\<lambda>(r, addr, k). (r, (addr, k))) (proto_rd_read k rb fd n 100)) (\<lambda>retval (addr, k). c (cstring addr) k)"

definition proto_test3 :: "(nat \<Rightarrow> nat \<Rightarrow> char) \<Rightarrow> int \<Rightarrow> kernel \<Rightarrow> (string list \<times> kernel) outcome option" where
  "proto_test3 stack fd k =
     must (proto_rd_lseek k fd 0 100) (\<lambda>retval k.
     proto_read_print k (stack 1) fd (int (length data1)) (\<lambda>out1 k.
     proto_read_print k (stack 2) fd (int (length data2)) (\<lambda>out2 k.
     proto_read_print k (stack 3) fd (int (length data3)) (\<lambda>out3 k.
     must (proto_rd_close k fd 100) (\<lambda>retval k.
     Some (Passed ([out1, out2, out3], k)))))))"

text \<open>TEST 4: the file is made read-only, a write to it is tried, and it is removed.\<close>

definition proto_test4 :: "allocator \<Rightarrow> int \<Rightarrow> kernel \<Rightarrow> (int \<times> kernel) outcome option" where
  "proto_test4 mal fd k =
     must (on_fs (\<lambda>s. proto_rd_chmod mal s ''/bigfile'' RD) k) (\<lambda>retval k. do {
     (written, k) \<leftarrow> proto_rd_write k fd 100 data1 (int (length data1));
     must (on_fs (\<lambda>s. proto_rd_unlink mal s ''/bigfile'') k) (\<lambda>retval k.
     Some (Passed (written, k))) })"

text \<open>TEST 5: directories.\<close>

definition proto_test5 :: "allocator \<Rightarrow> kernel \<Rightarrow> kernel outcome option" where
  "proto_test5 mal k =
     must (on_fs (\<lambda>s. proto_rd_mkdir mal s ''/dir1'') k) (\<lambda>retval k.
     must (on_fs (\<lambda>s. proto_rd_mkdir mal s ''/dir1/dir2'') k) (\<lambda>retval k.
     must (on_fs (\<lambda>s. proto_rd_mkdir mal s ''/dir1/dir3'') k) (\<lambda>retval k.
     Some (Passed k))))"

text \<open>The program.  \<open>g\<close> is the memory \<^verbatim>\<open>malloc\<close> returns for the partition; the result is what is
  printed of the file, the result of the write of TEST 4, and the last state.\<close>

definition proto_main :: "allocator \<Rightarrow> (nat \<Rightarrow> nat \<Rightarrow> char) \<Rightarrow> filesys_struct \<Rightarrow> (string list \<times> int \<times> kernel) outcome option" where
  "proto_main mal stack g = do {
     (retval, s) \<leftarrow> proto_init_file_sys g;
     and_then (proto_test1 mal s) (\<lambda>s.
     let k = \<lparr>fs = s, p_fd_table = (\<lambda>_. \<lparr>pid = 0, fd_table = (\<lambda>_. zero_file_object)\<rparr>), read_buffer = (\<lambda>_. NUL)\<rparr> in
     and_then (proto_test2 mal k) (\<lambda>(fd, k).
     and_then (proto_test3 stack fd k) (\<lambda>(out, k).
     and_then (proto_test4 mal fd k) (\<lambda>(written, k).
     and_then (proto_test5 mal k) (\<lambda>k.
     Some (Passed (out, written, k)))))))
   }"

section \<open>The tests pass\<close>

text \<open>What the program needs of the memory \<^verbatim>\<open>malloc\<close> gives it for the copies of its paths.  The C
  library promises neither the spare byte nor the NUL behind \<^verbatim>\<open>/dir1\<close>.\<close>

definition test_malloc :: "allocator \<Rightarrow> bool" where
  "test_malloc mal \<longleftrightarrow> (\<forall>p \<in> test_paths. proto_serves mal p)"

lemma test_mallocD:
  assumes "test_malloc mal"
  shows "proto_serves mal ''/bigfile''" "proto_serves mal ''/dir1''" "proto_serves mal ''/dir1/dir2''"
    "proto_serves mal ''/dir1/dir3''" "i < 1023 \<Longrightarrow> proto_serves mal (path_of [file_name i])"
  using assms by (auto simp: test_malloc_def test_paths_def file_path_of)

lemma name_component: "is_name t \<Longrightarrow> is_component t"
  by (auto simp: is_name_def is_component_def is_cstr_def)

lemma names_components: "\<forall>t \<in> set ts. is_name t \<Longrightarrow> list_all is_component ts"
  using name_component by (simp add: list_all_iff)

lemma bigfile_component: "list_all is_component [''bigfile'']"
  using name_component bigfile_name(1) by simp

text \<open>What the module does on the paths of the tests, the prototype does as well.\<close>

lemmas proto_bigfile =
  proto_create_agrees [OF serves_zero_vm _ bigfile_component, unfolded bigfile_name(2)]
  proto_unlink_agrees [OF serves_zero_vm _ bigfile_component, unfolded bigfile_name(2)]
  proto_chmod_agrees [OF serves_zero_vm _ bigfile_component, unfolded bigfile_name(2)]
  proto_open_agrees [OF serves_zero_vm _ bigfile_component, unfolded bigfile_name(2)]

lemma fill_loop:
  assumes "stage 0 i s" "test_malloc mal" "i + n = 1023"
  shows "\<exists>s'. for_loop i n (\<lambda>i s. do {
     (retval, s1) \<leftarrow> proto_rd_create mal s (file_path i) ''reg'' RD;
     Some (if retval < 0 \<and> i \<noteq> MAX_NUM_FILE - 1 then Ret Exit_Failure else Next s1) }) s = Some (Inl s') \<and> stage 0 1023 s'"
  using assms(1,3)
proof (induction n arbitrary: i s)
  case (Suc n)
  have i: "i < 1023" using Suc.prems(2) by simp
  obtain s1 where r: "rd_create zero_vm s (path_of [file_name i]) ''reg'' RD = Some (0, s1)" "stage 0 (Suc i) s1"
    by (rule fill_stage [OF Suc.prems(1) serves_zero_vm i])
  have "list_all is_component [file_name i]" using name_component [OF file_name_ok] i by simp
  then have "proto_rd_create mal s (file_path i) ''reg'' RD = Some (0, s1)"
    using proto_create_agrees [OF serves_zero_vm test_mallocD(5) [OF assms(2) i]] r(1) by (simp add: file_path_of)
  then show ?case using Suc.IH [OF r(2)] Suc.prems(2) by (simp add: for_loop.simps)
qed (simp add: for_loop.simps)

lemma drain_loop:
  assumes "stage i 1023 s" "test_malloc mal" "i + n = 1023"
  shows "\<exists>s'. for_loop i n (\<lambda>i s. do {
     (retval, s1) \<leftarrow> proto_rd_unlink mal s (file_path i);
     Some (if retval < 0 then Ret (Exit_Failure :: filesys_struct outcome) else Next s1) }) s = Some (Inl s') \<and> stage 1023 1023 s'"
  using assms(1,3)
proof (induction n arbitrary: i s)
  case (Suc n)
  have i: "i < 1023" using Suc.prems(2) by simp
  obtain s1 where r: "rd_unlink zero_vm s (path_of [file_name i]) = Some (0, s1)" "stage (Suc i) 1023 s1"
    by (rule drain_stage [OF Suc.prems(1) serves_zero_vm i])
  have "list_all is_component [file_name i]" using name_component [OF file_name_ok] i by simp
  then have "proto_rd_unlink mal s (file_path i) = Some (0, s1)"
    using proto_unlink_agrees [OF serves_zero_vm test_mallocD(5) [OF assms(2) i]] r(1) by (simp add: file_path_of)
  then show ?case using Suc.IH [OF r(2)] Suc.prems(2) by (simp add: for_loop.simps)
qed (simp add: for_loop.simps)

lemma test1_passes:
  assumes "region_ok (zero_filesys a)" "test_malloc mal"
  obtains s s' where "proto_test1_create mal (empty_fs a) = Some (Inl s)" "stage 0 1023 s"
    "proto_test1 mal (empty_fs a) = Some (Passed s')" "stage 1023 1023 s'"
proof -
  obtain s where s: "proto_test1_create mal (empty_fs a) = Some (Inl s)" "stage 0 1023 s"
    using fill_loop [OF empty_stage [OF assms(1)] assms(2), of 1023] by (auto simp: proto_test1_create_def)
  obtain s' where "for_loop 0 1023 (\<lambda>i s. do {
     (retval, s1) \<leftarrow> proto_rd_unlink mal s (file_path i);
     Some (if retval < 0 then Ret (Exit_Failure :: filesys_struct outcome) else Next s1) }) s = Some (Inl s')" "stage 1023 1023 s'"
    using drain_loop [OF s(2) assms(2), of 1023] by auto
  then show thesis using that s by (simp add: proto_test1_def)
qed

lemma test2_passes:
  assumes "bare 5885 s" "test_malloc mal"
  defines "k \<equiv> \<lparr>fs = s, p_fd_table = (\<lambda>_. \<lparr>pid = 0, fd_table = (\<lambda>_. zero_file_object)\<rparr>), read_buffer = (\<lambda>_. NUL)\<rparr>"
  obtains k' where "proto_test2 mal k = Some (Passed (0, k'))" "written 1517 ((data1 @ data2) @ data3) k'"
proof -
  obtain s1 where c: "rd_create zero_vm s ''/bigfile'' ''reg'' RW = Some (0, s1)" "one_file 5883 RW s1" "isize (inodes s1 1) = 0"
    by (rule bigfile_created [OF assms(1) serves_zero_vm]) (use that in simp_all)
  have k1: "fds_ok (k\<lparr>fs := s1\<rparr>)" "usable (fobj (k\<lparr>fs := s1\<rparr>) 0 0) = 0"
    by (simp_all add: k_def fds_ok_def slot_ok_def fobj_no_inode)
  obtain k2 where o: "rd_open zero_vm (k\<lparr>fs := s1\<rparr>) ''/bigfile'' RW 100 = Some (0, k2)" "written 5883 [] k2"
    by (rule opened_bigfile [OF k1, of 5883 zero_vm 100]) (use c(2,3) in auto)
  obtain k3 k4 k5 where w: "rd_write k2 0 100 data1 (int (length data1)) = Some (int (length data1), k3)"
    "rd_write k3 0 100 data2 (int (length data2)) = Some (int (length data2), k4)"
    "rd_write k4 0 100 data3 (int (length data3)) = Some (int (length data3), k5)" "written 1517 ((data1 @ data2) @ data3) k5"
  proof -
    obtain k3 where w3: "rd_write k2 0 100 data1 (int (length data1)) = Some (int (length data1), k3)" "written 5809 ([] @ data1) k3"
      by (rule written_next [OF o(2), of 0 data1]) (use data_facts in auto)
    obtain k4 where w4: "rd_write k3 0 100 data2 (int (length data2)) = Some (int (length data2), k4)" "written 5679 (data1 @ data2) k4"
      by (rule written_next [OF w3(2) [unfolded append_Nil], of 8 data2]) (use data_facts in auto)
    obtain k5 where w5: "rd_write k4 0 100 data3 (int (length data3)) = Some (int (length data3), k5)"
      "written 1517 ((data1 @ data2) @ data3) k5"
      by (rule written_next [OF w4(2), of 72 data3]) (use data_facts in auto)
    show thesis using that w3(1) w4(1) w5 by blast
  qed
  have "on_fs (\<lambda>s. proto_rd_create mal s ''/bigfile'' ''reg'' RW) k = Some (0, k\<lparr>fs := s1\<rparr>)"
    using c(1) proto_bigfile(1) [OF test_mallocD(1) [OF assms(2)]] by (simp add: on_fs_def k_def)
  then have "proto_test2 mal k = Some (Passed (0, k5))"
    by (simp add: proto_test2_def must_ok proto_bigfile(4) [OF test_mallocD(1) [OF assms(2)]] proto_rd_write_eq o(1) w(1-3))
  then show thesis using that w(4) by blast
qed

lemma read_print:
  assumes r: "readable B buf (BLOCK_SIZE * b) k" and b: "b \<le> 72" and buf: "buf = pre @ d @ suf" "length pre = BLOCK_SIZE * b"
    and d: "4 \<le> length d" "length d \<le> READ_BUFFER_SIZE" and z: "NUL \<notin> set buf" "length buf \<le> BLOCK_SIZE * MAX_FILE_BLOCKS"
  shows "\<exists>k'. readable B buf (length (pre @ d)) k' \<and> proto_read_print k rb 0 (int (length d)) c = c d k'"
proof -
  have pos: "0 < length d" using d(1) by linarith
  note R = readableD [OF r] and P = readable_part [OF r buf pos z(1)]
  let ?N = "length (pre @ d)"
  have p: "proto_rd_read k rb 0 (int (length d)) 100 = Some (int (length d), d @ [NUL], moved k 0 (fs k) (of_nat ?N))"
    using proto_read_part [OF R(1,8,3) P(8) R(9) P(5,6) b P(2,3) z(2) _ P(3,4), of rb 100] d P(7) unfolding P(1)
    by (simp add: moved_def del: length_append)
  have "is_cstr d" using z(1) buf(1) by (simp add: is_cstr_def)
  then have "proto_read_print k rb 0 (int (length d)) c = c d (moved k 0 (fs k) (of_nat ?N))"
    unfolding proto_read_print_def must_def p by simp
  then show ?thesis using readable_moved [OF r] by blast
qed

lemma test3_passes:
  assumes "written B ((data1 @ data2) @ data3) k"
  obtains k' where "proto_test3 stack 0 k = Some (Passed ([data1, data2, data3], k'))"
    "fds_ok k'" "one_file B RW (fs k')" "\<not> valid_fd k' 0"
proof -
  let ?buf = "(data1 @ data2) @ data3"
  have len: "length ?buf \<le> BLOCK_SIZE * MAX_FILE_BLOCKS" "0 < length ?buf" "NUL \<notin> set ?buf" using data_facts by auto
  obtain k1 where l: "rd_lseek k 0 0 100 = Some (0, k1)" "readable B ?buf (BLOCK_SIZE * 0) k1"
    by (rule written_rewind [OF assms len(2,1)])
  let ?c3 = "\<lambda>out1 out2 out3 k. must (rd_close k 0 100) (\<lambda>retval k. Some (Passed ([out1, out2, out3], k)))"
  let ?c2 = "\<lambda>out1 out2 k. proto_read_print k (stack 3) 0 (int (length data3)) (?c3 out1 out2)"
  let ?c1 = "\<lambda>out1 k. proto_read_print k (stack 2) 0 (int (length data2)) (?c2 out1)"
  obtain k2 where r2: "readable B ?buf (length ([] @ data1)) k2"
    "proto_read_print k1 (stack 1) 0 (int (length data1)) ?c1 = ?c1 data1 k2"
    using read_print [OF l(2), of "[]" data1 "data2 @ data3" "stack 1" ?c1] len data_facts by auto
  have r2': "readable B ?buf (BLOCK_SIZE * 8) k2" using r2(1) data_facts by simp
  obtain k3 where r3: "readable B ?buf (length (data1 @ data2)) k3"
    "proto_read_print k2 (stack 2) 0 (int (length data2)) (?c2 data1) = ?c2 data1 data2 k3"
    using read_print [OF r2', of data1 data2 data3 "stack 2" "?c2 data1"] len data_facts by auto
  have r3': "readable B ?buf (BLOCK_SIZE * 72) k3" using r3(1) data_facts by simp
  obtain k4 where r4: "readable B ?buf (length ((data1 @ data2) @ data3)) k4"
    "proto_read_print k3 (stack 3) 0 (int (length data3)) (?c3 data1 data2) = ?c3 data1 data2 data3 k4"
    using read_print [OF r3', of "data1 @ data2" data3 "[]" "stack 3" "?c3 data1 data2"] len data_facts by auto
  obtain k5 where c: "rd_close k4 0 100 = Some (0, k5)" "fds_ok k5" "one_file B RW (fs k5)" "\<not> valid_fd k5 0"
    by (rule readable_close [OF r4(1)])
  have "proto_test3 stack 0 k = Some (Passed ([data1, data2, data3], k5))"
    unfolding proto_test3_def proto_rd_lseek_eq proto_rd_close_eq l(1) must_ok [OF order_refl]
    by (simp only: r2(2) r3(2) r4(2) c(1) must_ok [OF order_refl])
  then show thesis using that c(2-4) by blast
qed

lemma test4_passes:
  assumes "fds_ok k" "one_file B RW (fs k)" "\<not> valid_fd k 0" "test_malloc mal"
  obtains s where "proto_test4 mal 0 k = Some (Passed (-1, k\<lparr>fs := s\<rparr>))" "bare B s"
proof -
  let ?s = "set_inode (fs k) 1 ((inodes (fs k) 1)\<lparr>access := RD\<rparr>)"
  note C = one_file_chmod [OF assms(2) serves_zero_vm]
  obtain s where u: "rd_unlink zero_vm ?s ''/bigfile'' = Some (0, s)" "bare B s"
    by (rule one_file_unlink [OF C(2) serves_zero_vm])
  have "fds_ok (k\<lparr>fs := ?s\<rparr>)" "\<not> valid_fd (k\<lparr>fs := ?s\<rparr>) 0" using assms(1,3) by (simp_all add: valid_fd_def)
  then have "rd_write (k\<lparr>fs := ?s\<rparr>) 0 100 data1 (int (length data1)) = Some (-1, k\<lparr>fs := ?s\<rparr>)" by (rule write_closed)
  then have "proto_test4 mal 0 k = Some (Passed (-1, k\<lparr>fs := s\<rparr>))"
    using C(1) u(1) proto_bigfile(2,3) [OF test_mallocD(1) [OF assms(4)]]
    by (simp add: proto_test4_def must_def on_fs_def proto_rd_write_eq)
  then show thesis using that u(2) by blast
qed

lemma mkdir_agrees:
  assumes "proto_serves mal (path_of ts)" "\<forall>t \<in> set ts. is_name t" "ts \<noteq> []" "rd_create zero_vm s (path_of ts) ''dir'' RW = Some (0, s')"
  shows "proto_rd_mkdir mal s (path_of ts) = Some (0, s')"
proof -
  have "path_of ts \<noteq> ''/''" using path_of_Cons_neq [OF assms(3,2)] by blast
  then show ?thesis using proto_create_agrees [OF serves_zero_vm assms(1) names_components [OF assms(2)]] assms(4) by (simp add: proto_rd_mkdir_def)
qed

lemma test5_passes:
  assumes "bare B (fs k)" "6 \<le> B" "test_malloc mal"
  obtains s where "proto_test5 mal k = Some (Passed (k\<lparr>fs := s\<rparr>))" "fs_ok s" "three_dirs s"
proof -
  obtain s1 s2 s3 where s: "rd_create zero_vm (fs k) ''/dir1'' ''dir'' RW = Some (0, s1)"
    "rd_create zero_vm s1 ''/dir1/dir2'' ''dir'' RW = Some (0, s2)" "rd_create zero_vm s2 ''/dir1/dir3'' ''dir'' RW = Some (0, s3)"
    "fs_ok s3" "three_dirs s3" by (rule three_mkdirs [OF assms(1,2) serves_zero_vm serves_zero_vm serves_zero_vm, of RW])
  have "proto_rd_mkdir mal (fs k) (path_of [''dir1'']) = Some (0, s1)"
    "proto_rd_mkdir mal s1 (path_of [''dir1'', ''dir2'']) = Some (0, s2)"
    "proto_rd_mkdir mal s2 (path_of [''dir1'', ''dir3'']) = Some (0, s3)"
    by (rule mkdir_agrees; use s dir_names test_mallocD(2-4) [OF assms(3)] in \<open>simp add: dir_paths\<close>)+
  then have "proto_test5 mal k = Some (Passed (k\<lparr>fs := s3\<rparr>))"
    by (simp add: proto_test5_def on_fs_def must_ok dir_paths)
  then show thesis using that s(4,5) by blast
qed

lemma proto_init_eq:
  assumes "a \<noteq> 0"
  shows "proto_init_file_sys (zero_filesys a) = Some (0, empty_fs a)"
  using assms by (simp add: proto_init_file_sys_def proto_mkdir_root_def empty_fs_def zero_filesys_def set_inode_def fun_eq_iff)

text \<open>TEST 1 of the prototype passes.  On the empty partition and with memory as it needs it
  from \<^verbatim>\<open>malloc\<close> all 1023 creations succeed: then \<^verbatim>\<open>/file\<close>\<open>i\<close> is node \<open>i + 1\<close> and no index node is free.
  All 1023 removals succeed as well, although they compact the directory on the way, and leave
  no name, no used index node and the full count of free ones.\<close>

theorem test1_ok:
  assumes "region_ok (zero_filesys a)" "test_malloc mal"
  shows "\<exists>s s'. proto_test1_create mal (empty_fs a) = Some (Inl s) \<and> fs_ok s \<and> free_inodes s = 0
    \<and> (\<forall>i < 1023. dir_map s 0 (file_name i) = Some (i + 1))
    \<and> proto_test1 mal (empty_fs a) = Some (Passed s') \<and> fs_ok s' \<and> free_inodes s' = 1023
    \<and> dir_map s' 0 = Map.empty \<and> (\<forall>k. 0 < k \<longrightarrow> k < MAX_NUM_FILE \<longrightarrow> inodes s' k = zero_inode)"
proof -
  obtain s s' where t: "proto_test1_create mal (empty_fs a) = Some (Inl s)" "stage 0 1023 s"
    "proto_test1 mal (empty_fs a) = Some (Passed s')" "stage 1023 1023 s'" by (rule test1_passes [OF assms])
  note S = stageD [OF t(2)] and B = bareD [OF drained_bare [OF t(4)]]
  have "dir_map s 0 (file_name i) = Some (i + 1)" if "i < 1023" for i
    by (rule catalog_dir_map [OF S(1) fs_okD(4) [OF S(1)] S(2) files_named files_removable]) (use that in simp_all)
  moreover have "dir_map s' 0 = Map.empty"
    using catalog_fresh [OF B(1) _ B(2) named_empty(1)] by (simp add: fun_eq_iff)
  ultimately show ?thesis using t(1,3) S(1,4) B(1,4,6) by auto
qed

theorem test1_ok_witness:
  "\<exists>s'. proto_test1 zero_vm (empty_fs 0xE0000000) = Some (Passed s') \<and> free_inodes s' = 1023"
proof -
  have "region_ok (zero_filesys 0xE0000000)" by (simp add: region_ok_def zero_filesys_def)
  moreover have "test_malloc zero_vm" by (simp add: test_malloc_def)
  ultimately show ?thesis using test1_ok [of "0xE0000000" zero_vm] by blast
qed

text \<open>C35: The test program of the prototype runs to its end.  Whatever the stack holds, and
  with a partition that \<^verbatim>\<open>malloc\<close> returns as fresh zero pages, \<^verbatim>\<open>main\<close> passes all five of its
  tests: it fills the partition with files and removes them, writes a file of the largest size in three pieces and prints back exactly
  these pieces, and leaves a well-formed partition with the three directories of TEST 5 and
  nothing else.  The write of TEST 4 fails, as the program hopes, but because the descriptor
  has been closed.  The memory for the copies of its paths must have the spare byte and, behind
  \<^verbatim>\<open>/dir1\<close>, the NUL that the program relies on and \<^verbatim>\<open>malloc\<close> does not promise
  (\<open>test_malloc\<close>).\<close>

theorem proto_main_passes:
  assumes "region_ok (zero_filesys a)" "test_malloc mal"
  shows "\<exists>k. proto_main mal stack (zero_filesys a) = Some (Passed ([data1, data2, data3], -1, k))
    \<and> fs_ok (fs k) \<and> three_dirs (fs k)"
proof -
  have i: "proto_init_file_sys (zero_filesys a) = Some (0, empty_fs a)"
    by (rule proto_init_eq) (use assms(1) in \<open>auto simp: region_ok_def zero_filesys_def\<close>)
  obtain s s1 where t1: "proto_test1 mal (empty_fs a) = Some (Passed s1)" "stage 1023 1023 s1"
    using test1_passes [OF assms] by metis
  define k1 where "k1 = \<lparr>fs = s1, p_fd_table = (\<lambda>_. \<lparr>pid = 0, fd_table = (\<lambda>_. zero_file_object)\<rparr>), read_buffer = (\<lambda>_. NUL)\<rparr>"
  obtain k2 where t2: "proto_test2 mal k1 = Some (Passed (0, k2))" "written 1517 ((data1 @ data2) @ data3) k2"
    using test2_passes [OF drained_bare [OF t1(2)] assms(2)] unfolding k1_def by metis
  obtain k3 where t3: "proto_test3 stack 0 k2 = Some (Passed ([data1, data2, data3], k3))"
    "fds_ok k3" "one_file 1517 RW (fs k3)" "\<not> valid_fd k3 0" by (rule test3_passes [OF t2(2)])
  obtain s4 where t4: "proto_test4 mal 0 k3 = Some (Passed (-1, k3\<lparr>fs := s4\<rparr>))" "bare 1517 s4"
    by (rule test4_passes [OF t3(2-4) assms(2)])
  obtain s5 where t5: "proto_test5 mal (k3\<lparr>fs := s4\<rparr>) = Some (Passed (k3\<lparr>fs := s4\<rparr>\<lparr>fs := s5\<rparr>))" "fs_ok s5" "three_dirs s5"
    by (rule test5_passes [of 1517 "k3\<lparr>fs := s4\<rparr>" mal]) (use t4(2) assms(2) in auto)
  have "proto_main mal stack (zero_filesys a) = Some (Passed ([data1, data2, data3], -1, k3\<lparr>fs := s4\<rparr>\<lparr>fs := s5\<rparr>))"
    unfolding proto_main_def i k1_def [symmetric]
    by (simp only: Option.bind.bind_lunit case_prod_conv t1(1) passed_then Let_def k1_def [symmetric] t2(1) t3(1) t4(1) t5(1))
  then show ?thesis using t5(2,3) by (intro exI [of _ "k3\<lparr>fs := s4\<rparr>\<lparr>fs := s5\<rparr>"]) simp
qed

theorem proto_main_passes_witness:
  "\<exists>k. proto_main zero_vm (\<lambda>_ _. CHR ''z'') (zero_filesys 0xE0000000) =
    Some (Passed ([data1, data2, data3], -1, k)) \<and> three_dirs (fs k)"
proof -
  have "region_ok (zero_filesys 0xE0000000)" by (simp add: region_ok_def zero_filesys_def)
  moreover have "test_malloc zero_vm" by (simp add: test_malloc_def)
  ultimately show ?thesis
    using proto_main_passes [of "0xE0000000" zero_vm "\<lambda>_ _. CHR ''z''"] by blast
qed

end
