(* ===== verification/User_Tests.thy ===== *)
theory User_Tests
  imports Scenario Proto_Disk
begin

text \<open>
  The test program of the module: \<^verbatim>\<open>main\<close> of \<^verbatim>\<open>Jiaqian-Ramdisk-Final/userspace/test_file.c\<close>,
  which calls the wrappers of the user library and so goes through \<^verbatim>\<open>ioctl\<close>, the copies from and
  to user memory, and the module.  Left out are the messages, the key presses it waits for, and
  TEST 6, which is not compiled.
\<close>

section \<open>The program\<close>

text \<open>A call that does not copy to the user.\<close>

definition must_call ::
  "(int \<times> (nat \<times> string) list \<times> kernel) option \<Rightarrow> (int \<Rightarrow> kernel \<Rightarrow> 'b outcome option) \<Rightarrow> 'b outcome option" where
  "must_call c = must (map_option (\<lambda>(r, _, k). (r, k)) c)"

text \<open>The 80 bytes of \<^verbatim>\<open>pathname\<close> when \<^verbatim>\<open>sprintf\<close> has written the path of file \<open>i\<close>.\<close>

definition pathname :: "nat \<Rightarrow> string" where
  "pathname i = file_path i @ replicate (80 - length (file_path i)) NUL"

definition user_test1 :: "kernel_api \<Rightarrow> kernel \<Rightarrow> kernel outcome option" where
  "user_test1 api k0 =
     after (for_loop 0 1023 (\<lambda>i k. do {
       (retval, _, k1) \<leftarrow> u_creat api k (pathname i) RD;
       Some (if retval < 0 \<and> i \<noteq> 1023 then Ret Exit_Failure else Next k1) }) k0) (\<lambda>k.
     after (for_loop 0 1023 (\<lambda>i k. do {
       (retval, _, k1) \<leftarrow> u_unlink api k (pathname i);
       Some (if retval < 0 then Ret Exit_Failure else Next k1) }) k) (\<lambda>k.
     Some (Passed k)))"

definition user_test2 :: "kernel_api \<Rightarrow> int \<Rightarrow> kernel \<Rightarrow> (int \<times> kernel) outcome option" where
  "user_test2 api me k =
     must_call (u_creat api k (''/bigfile'' @ [NUL]) RW) (\<lambda>retval k.
     must_call (u_open api me k (''/bigfile'' @ [NUL]) RW) (\<lambda>fd k.
     must_call (u_write api me k fd data1 (int (length data1))) (\<lambda>retval k.
     must_call (u_write api me k fd data2 (int (length data2))) (\<lambda>retval k.
     must_call (u_write api me k fd data3 (int (length data3))) (\<lambda>retval k.
     Some (Passed (fd, k)))))))"

text \<open>The calls of \<^verbatim>\<open>copy_to_user\<close> to the memory at \<^verbatim>\<open>addr\<close>, and what \<^verbatim>\<open>%s\<close> prints of it.\<close>

fun copy_out :: "(nat \<times> string) list \<Rightarrow> string \<Rightarrow> string option" where
  "copy_out [] addr = Some addr"
| "copy_out ((x, c) # calls) addr =
     (if length addr < x + length c then None else copy_out calls (take x addr @ c @ drop (x + length c) addr))"

definition user_read_print ::
  "kernel_api \<Rightarrow> int \<Rightarrow> string \<Rightarrow> kernel \<Rightarrow> int \<Rightarrow> int \<Rightarrow> (string \<Rightarrow> string \<Rightarrow> kernel \<Rightarrow> 'b outcome option) \<Rightarrow> 'b outcome option" where
  "user_read_print api me addr k fd n c = do {
     (retval, calls, k1) \<leftarrow> u_read api me k fd n;
     addr1 \<leftarrow> copy_out calls addr;
     if retval < 0 then Some Exit_Failure else do { out \<leftarrow> c_string addr1; c out addr1 k1 } }"

definition user_test3 :: "kernel_api \<Rightarrow> int \<Rightarrow> int \<Rightarrow> kernel \<Rightarrow> (string list \<times> kernel) outcome option" where
  "user_test3 api me fd k =
     must_call (u_lseek api me k fd 0) (\<lambda>retval k.
     user_read_print api me (replicate (64 * 64 * 256 + 1) NUL) k fd (int (length data1)) (\<lambda>out1 addr k.
     user_read_print api me addr k fd (int (length data2)) (\<lambda>out2 addr k.
     user_read_print api me addr k fd (int (length data3)) (\<lambda>out3 addr k.
     must_call (u_close api me k fd) (\<lambda>retval k.
     Some (Passed ([out1, out2, out3], k)))))))"

definition user_test4 :: "kernel_api \<Rightarrow> int \<Rightarrow> int \<Rightarrow> kernel \<Rightarrow> (int \<times> kernel) outcome option" where
  "user_test4 api me fd k =
     must_call (u_chmod api me k (''/bigfile'' @ [NUL]) RD) (\<lambda>retval k. do {
     (written, _, k) \<leftarrow> u_write api me k fd data1 (int (length data1));
     must_call (u_unlink api k (''/bigfile'' @ [NUL])) (\<lambda>retval k.
     Some (Passed (written, k))) })"

definition user_test5 :: "kernel_api \<Rightarrow> kernel \<Rightarrow> kernel outcome option" where
  "user_test5 api k =
     must_call (u_mkdir api k (''/dir1'' @ [NUL])) (\<lambda>retval k.
     must_call (u_mkdir api k (''/dir1/dir2'' @ [NUL])) (\<lambda>retval k.
     must_call (u_mkdir api k (''/dir1/dir3'' @ [NUL])) (\<lambda>retval k.
     Some (Passed k))))"

text \<open>The program, started on any state of the module; it does not look at the result of
  \<^verbatim>\<open>rd_init\<close>.  The result is what is printed of the file, the result of the write of TEST 4, and
  the last state.\<close>

definition user_main :: "kernel_api \<Rightarrow> int \<Rightarrow> kernel \<Rightarrow> (string list \<times> int \<times> kernel) outcome option" where
  "user_main api me k0 = do {
     (_, _, k) \<leftarrow> u_init api k0;
     and_then (user_test1 api k) (\<lambda>k.
     and_then (user_test2 api me k) (\<lambda>(fd, k).
     and_then (user_test3 api me fd k) (\<lambda>(out, k).
     and_then (user_test4 api me fd k) (\<lambda>(written, k).
     and_then (user_test5 api k) (\<lambda>k.
     Some (Passed (out, written, k))))))) }"

section \<open>The memory of a run\<close>

text \<open>What the program needs of the memory that the module gets while it runs: no allocation
  fails, and the copies of each of its paths have the spare byte and the NULs that the code
  relies on.  The allocators promise neither.  With objects of exactly the size asked for the
  program writes behind the copy of \<^verbatim>\<open>/bigfile\<close>, for instance, for which \<^verbatim>\<open>rd_open\<close>
  allocates 8 bytes.\<close>

definition test_memory :: "kernel_api \<Rightarrow> bool" where
  "test_memory api \<longleftrightarrow> alloc api Args 24 \<noteq> None \<and> (\<forall>n \<in> {2..14}. alloc api Path_Arg n \<noteq> None)
     \<and> (\<forall>d \<in> {data1, data2, data3}. alloc api Data_Arg (length d) \<noteq> None)
     \<and> (\<forall>p \<in> test_paths. serves (alloc api) p)"

definition run_ok :: "kernel_api \<Rightarrow> bool" where
  "run_ok api \<longleftrightarrow> env_ok api \<and> test_memory api"

lemma runD:
  assumes "run_ok api"
  shows "api_ok api" "region_ok (zero_filesys (disk_addr api))" "alloc api Args 24 \<noteq> None"
    "serves (alloc api) ''/''" "serves (alloc api) ''/bigfile''" "serves (alloc api) ''/dir1''"
    "serves (alloc api) ''/dir1/dir2''" "serves (alloc api) ''/dir1/dir3''"
    "i < 1023 \<Longrightarrow> serves (alloc api) (path_of [file_name i])"
    "alloc api Data_Arg (length data1) \<noteq> None" "alloc api Data_Arg (length data2) \<noteq> None" "alloc api Data_Arg (length data3) \<noteq> None"
  using assms by (auto simp: run_ok_def test_memory_def env_ok_def test_paths_def file_path_of)

lemma run_path_arg:
  assumes "run_ok api" "NUL \<in> set m" "length (cstring m) < 14" "cstring m \<noteq> []"
  shows "alloc api Path_Arg (strnlen_user api m 14) \<noteq> None"
proof -
  have "strnlen_user api m 14 = length (cstring m) + 1" using runD(1) [OF assms(1)] assms(2,3) by (simp add: api_ok_def)
  then have "strnlen_user api m 14 \<in> {2..14}" using assms(3,4) by (cases "cstring m") auto
  then show ?thesis using assms(1) unfolding run_ok_def test_memory_def by blast
qed

lemma run_calls:
  assumes "run_ok api" "NUL \<in> set m" "length (cstring m) < 14" "cstring m \<noteq> []"
  shows "u_creat api k m mode = map_option (\<lambda>(r, s). (r, [], k\<lparr>fs := s\<rparr>)) (rd_create (alloc api) (fs k) (cstring m) ''reg'' mode)"
    "u_mkdir api k m = map_option (\<lambda>(r, s). (r, [], k\<lparr>fs := s\<rparr>)) (rd_mkdir (alloc api) (fs k) (cstring m))"
    "u_unlink api k m = map_option (\<lambda>(r, s). (r, [], k\<lparr>fs := s\<rparr>)) (rd_unlink (alloc api) (fs k) (cstring m))"
    "u_chmod api me k m mode = map_option (\<lambda>(r, s). (r, [], k\<lparr>fs := s\<rparr>)) (rd_chmod (alloc api) (fs k) (cstring m) mode)"
  by (rule path_calls [OF runD(1) [OF assms(1)] assms(2,3) runD(3) [OF assms(1)] run_path_arg [OF assms]])+

section \<open>Calls with short paths\<close>

text \<open>Literals.\<close>

lemma literal: "is_cstr t \<Longrightarrow> NUL \<in> set (t @ [NUL])" "is_cstr t \<Longrightarrow> cstring (t @ [NUL]) = t"
  by simp_all

lemma pathname_string:
  assumes "i < 10000"
  shows "NUL \<in> set (pathname i)" "cstring (pathname i) = path_of [file_name i]" "length (cstring (pathname i)) < 14"
proof -
  have len: "length (file_path i) \<le> 9" using decimal_length [of 4 i] assms by (simp add: file_path_def)
  then obtain n where "80 - length (file_path i) = Suc n" by (cases "80 - length (file_path i)") auto
  then have p: "pathname i = file_path i @ NUL # replicate n NUL" by (simp add: pathname_def)
  then show "NUL \<in> set (pathname i)" by simp
  have "is_cstr (file_path i)"
    using file_name_ok [OF assms] by (auto simp: is_name_def is_cstr_def file_path_def file_name_def)
  then have "cstring (pathname i) = file_path i" unfolding p by (rule cstring_append_NUL)
  then show "cstring (pathname i) = path_of [file_name i]" "length (cstring (pathname i)) < 14"
    using len by (simp_all add: file_path_of)
qed

section \<open>The tests pass\<close>

lemma user_fill_loop:
  assumes "stage 0 i (fs k)" "run_ok api" "i + n = 1023"
  shows "\<exists>s. for_loop i n (\<lambda>i k. do {
       (retval, _, k1) \<leftarrow> u_creat api k (pathname i) RD;
       Some (if retval < 0 \<and> i \<noteq> 1023 then Ret (Exit_Failure :: kernel outcome) else Next k1) }) k = Some (Inl (k\<lparr>fs := s\<rparr>)) \<and> stage 0 1023 s"
  using assms(1,3)
proof (induction n arbitrary: i k)
  case 0
  then show ?case by (intro exI [of _ "fs k"]) (simp add: for_loop.simps)
next
  case (Suc n)
  note E = runD [OF assms(2)]
  have i: "i < 1023" using Suc.prems(2) by simp
  obtain s where r: "rd_create (alloc api) (fs k) (path_of [file_name i]) ''reg'' RD = Some (0, s)" "stage 0 (Suc i) s"
    by (rule fill_stage [OF Suc.prems(1) E(9) [OF i] i])
  have "u_creat api k (pathname i) RD = Some (0, [], k\<lparr>fs := s\<rparr>)"
    using run_calls(1) [OF assms(2) pathname_string(1,3)] pathname_string(2) [of i] path_of_pos [of "[file_name i]"] i r(1) by simp
  then show ?case using Suc.IH [of "Suc i" "k\<lparr>fs := s\<rparr>"] r(2) Suc.prems(2) by (simp add: for_loop.simps)
qed

lemma user_drain_loop:
  assumes "stage i 1023 (fs k)" "run_ok api" "i + n = 1023"
  shows "\<exists>s. for_loop i n (\<lambda>i k. do {
       (retval, _, k1) \<leftarrow> u_unlink api k (pathname i);
       Some (if retval < 0 then Ret (Exit_Failure :: kernel outcome) else Next k1) }) k = Some (Inl (k\<lparr>fs := s\<rparr>)) \<and> stage 1023 1023 s"
  using assms(1,3)
proof (induction n arbitrary: i k)
  case 0
  then show ?case by (intro exI [of _ "fs k"]) (simp add: for_loop.simps)
next
  case (Suc n)
  note E = runD [OF assms(2)]
  have i: "i < 1023" using Suc.prems(2) by simp
  obtain s where r: "rd_unlink (alloc api) (fs k) (path_of [file_name i]) = Some (0, s)" "stage (Suc i) 1023 s"
    by (rule drain_stage [OF Suc.prems(1) E(9) [OF i] i])
  have "u_unlink api k (pathname i) = Some (0, [], k\<lparr>fs := s\<rparr>)"
    using run_calls(3) [OF assms(2) pathname_string(1,3)] pathname_string(2) [of i] path_of_pos [of "[file_name i]"] i r(1) by simp
  then show ?case using Suc.IH [of "Suc i" "k\<lparr>fs := s\<rparr>"] r(2) Suc.prems(2) by (simp add: for_loop.simps)
qed

lemma user_test1_passes:
  assumes "run_ok api" "fs k = empty_fs (disk_addr api)"
  obtains s where "user_test1 api k = Some (Passed (k\<lparr>fs := s\<rparr>))" "bare 5885 s"
proof -
  have "stage 0 0 (fs k)" using empty_stage runD(2) [OF assms(1)] assms(2) by simp
  from user_fill_loop [OF this assms(1), of 1023] obtain s where s:
    "for_loop 0 1023 (\<lambda>i k. do {
       (retval, _, k1) \<leftarrow> u_creat api k (pathname i) RD;
       Some (if retval < 0 \<and> i \<noteq> 1023 then Ret (Exit_Failure :: kernel outcome) else Next k1) }) k = Some (Inl (k\<lparr>fs := s\<rparr>))"
    "stage 0 1023 s" by auto
  have "stage 0 1023 (fs (k\<lparr>fs := s\<rparr>))" using s(2) by simp
  from user_drain_loop [OF this assms(1), of 1023] obtain s' where s':
    "for_loop 0 1023 (\<lambda>i k. do {
       (retval, _, k1) \<leftarrow> u_unlink api k (pathname i);
       Some (if retval < 0 then Ret (Exit_Failure :: kernel outcome) else Next k1) }) (k\<lparr>fs := s\<rparr>) = Some (Inl (k\<lparr>fs := s'\<rparr>))"
    "stage 1023 1023 s'" by auto
  have "user_test1 api k = Some (Passed (k\<lparr>fs := s'\<rparr>))"
    unfolding user_test1_def s(1) after_simps s'(1) by simp
  then show thesis using that drained_bare [OF s'(2)] by blast
qed

lemma must_call_ok: "0 \<le> r \<Longrightarrow> must_call (Some (r, out, k)) f = f r k"
  by (simp add: must_call_def must_def)

lemma user_written:
  assumes e: "run_ok api" "alloc api Data_Arg (length new) \<noteq> None" and w: "written B old k" and b: "length old = BLOCK_SIZE * b" "b \<le> 72" and d: "NUL \<notin> set (old @ new)" "new \<noteq> []"
    and size: "length (old @ new) \<le> BLOCK_SIZE * MAX_FILE_BLOCKS" "(length (old @ new) + 255) div BLOCK_SIZE - b + 66 \<le> B"
  obtains k' where "u_write api me k 0 new (int (length new)) = Some (int (length new), [], k')"
    "written (B - ((length (old @ new) + 255) div BLOCK_SIZE - b + 66)) (old @ new) k'"
proof -
  note E = runD [OF e(1)]
  obtain buf where u: "take (length new) buf = new"
    "u_write api me k 0 new (int (length new)) = map_option (\<lambda>(r, k1). (r, [], k1)) (rd_write k 0 me buf (int (length new)))"
    using user_write_agrees [OF E(1) _ _ E(3), of "int (length new)" new me k 0] d(2) e(2) by auto
  obtain k' where "rd_write k 0 me buf (int (length new)) = Some (int (length new), k')"
    "written (B - ((length (old @ new) + 255) div BLOCK_SIZE - b + 66)) (old @ new) k'"
    by (rule written_next [OF w b d size u(1)])
  then show thesis using that u(2) by simp
qed

lemma user_test2_passes:
  assumes e: "run_ok api" and k: "fds_ok k" "usable (fobj k 0 0) = 0" "bare 5885 (fs k)"
  obtains k' where "user_test2 api me k = Some (Passed (0, k'))" "written 1517 ((data1 @ data2) @ data3) k'"
proof -
  note E = runD [OF e]
  obtain s1 where c: "rd_create (alloc api) (fs k) ''/bigfile'' ''reg'' RW = Some (0, s1)" "one_file 5883 RW s1" "isize (inodes s1 1) = 0"
    by (rule bigfile_created [OF k(3) E(5)]) (use that in simp_all)
  have lit: "is_cstr ''/bigfile''" by (simp add: is_cstr_def)
  have u1: "u_creat api k (''/bigfile'' @ [NUL]) RW = Some (0, [], k\<lparr>fs := s1\<rparr>)"
    using run_calls(1) [OF e literal(1) [OF lit]] literal(2) [OF lit] c(1) by simp
  obtain k2 where o: "rd_open (alloc api) (k\<lparr>fs := s1\<rparr>) ''/bigfile'' RW me = Some (0, k2)" "written 5883 [] k2"
    by (rule opened_bigfile [of "k\<lparr>fs := s1\<rparr>" 5883 "alloc api" me]) (use k(1,2) c(2,3) E(5) in auto)
  have u2: "u_open api me (k\<lparr>fs := s1\<rparr>) (''/bigfile'' @ [NUL]) RW = Some (0, [], k2)"
    using o(1) literal [OF lit] E(3) path_arg_some [OF E(1) run_path_arg [OF e literal(1) [OF lit]]]
    by (auto simp: u_open_def discos_ioctl_def user_string_def c_string_def)
  obtain k3 where w3: "u_write api me k2 0 data1 (int (length data1)) = Some (int (length data1), [], k3)" "written 5809 ([] @ data1) k3"
    by (rule user_written [OF e E(10) o(2), of 0]) (use data_facts in auto)
  obtain k4 where w4: "u_write api me k3 0 data2 (int (length data2)) = Some (int (length data2), [], k4)" "written 5679 (data1 @ data2) k4"
    by (rule user_written [OF e E(11) w3(2) [unfolded append_Nil], of 8]) (use data_facts in auto)
  obtain k5 where w5: "u_write api me k4 0 data3 (int (length data3)) = Some (int (length data3), [], k5)"
    "written 1517 ((data1 @ data2) @ data3) k5"
    by (rule user_written [OF e E(12) w4(2), of 72]) (use data_facts in auto)
  have "user_test2 api me k = Some (Passed (0, k5))"
    unfolding user_test2_def u1 must_call_ok [OF order_refl] u2 by (simp add: must_call_ok w3(1) w4(1) w5(1))
  then show thesis using that w5(2) by blast
qed

text \<open>The chunks arrive side by side.\<close>

lemma copy_out_chunks:
  "0 \<le> n \<Longrightarrow> x + nat n \<le> length addr \<Longrightarrow>
    copy_out (copy_chunks rb x n) addr = Some (take x addr @ map rb [x..<x + nat n] @ drop (x + nat n) addr)"
proof (induction rb x n arbitrary: addr rule: copy_chunks.induct)
  case (1 rb x n)
  show ?case
  proof (cases "n > 4096")
    case False
    then show ?thesis using 1(2,3) by (subst copy_chunks.simps) simp
  next
    case True
    define addr1 where "addr1 = take x addr @ map rb [x..<x + 4096] @ drop (x + 4096) addr"
    have len: "nat n = 4096 + nat (n - 4096)" using True by simp
    have "copy_out (copy_chunks rb (x + 4096) (n - 4096)) addr1
      = Some (take (x + 4096) addr1 @ map rb [x + 4096..<x + 4096 + nat (n - 4096)] @ drop (x + 4096 + nat (n - 4096)) addr1)"
      using 1(3) True len by (intro 1(1)) (simp_all add: addr1_def)
    moreover have "take (x + 4096) addr1 = take x addr @ map rb [x..<x + 4096]"
      "drop (x + 4096 + nat (n - 4096)) addr1 = drop (x + nat n) addr" using 1(3) len by (simp_all add: addr1_def add_ac)
    moreover have "[x..<x + nat n] = [x..<x + 4096] @ [x + 4096..<x + nat n]"
      unfolding len add.assoc [symmetric] by (rule upt_add_eq_append) simp
    ultimately show ?thesis
      using True 1(3) len by (subst copy_chunks.simps) (simp add: addr1_def [symmetric] add.assoc)
  qed
qed

lemma user_read:
  assumes e: "alloc api Args 24 \<noteq> None" and r: "readable B buf (BLOCK_SIZE * b) k" and b: "b \<le> 72" and buf: "buf = pre @ d @ suf" "length pre = BLOCK_SIZE * b"
    and d: "0 < length d" "length d \<le> READ_BUFFER_SIZE" and z: "NUL \<notin> set buf" "length buf \<le> BLOCK_SIZE * MAX_FILE_BLOCKS"
    and addr: "length addr = READ_BUFFER_SIZE + 1" "\<forall>c \<in> set (drop (length d) addr). c = NUL"
  shows "\<exists>k'. readable B buf (length (pre @ d)) k'
    \<and> user_read_print api me addr k 0 (int (length d)) c = c d (d @ drop (length d) addr) k'"
proof -
  obtain rb k' where g: "rd_read k 0 (int (length d)) me = Some (int (length d), copy_chunks rb 0 (int (length d)), k')"
    "map rb [0..<length d] = d" "readable B buf (length (pre @ d)) k'" by (rule readable_read [OF r b buf d z])
  have u: "u_read api me k 0 (int (length d)) = Some (int (length d), copy_chunks rb 0 (int (length d)), k')"
    using g(1) e by (auto simp: u_read_def discos_ioctl_def zero_args_def)
  have o: "copy_out (copy_chunks rb 0 (int (length d))) addr = Some (d @ drop (length d) addr)"
    using copy_out_chunks [of "int (length d)" 0 addr rb] addr(1) d(2) g(2) by simp
  have "is_cstr d" using z(1) buf(1) by (simp add: is_cstr_def)
  moreover obtain t where "drop (length d) addr = NUL # t" using addr d(2) by (cases "drop (length d) addr") auto
  ultimately have "c_string (d @ drop (length d) addr) = Some d" by (simp add: c_string_def)
  then have "user_read_print api me addr k 0 (int (length d)) c = c d (d @ drop (length d) addr) k'"
    by (simp add: user_read_print_def u o)
  then show ?thesis using g(3) by blast
qed

lemma user_test3_passes:
  assumes e: "alloc api Args 24 \<noteq> None" and w: "written B ((data1 @ data2) @ data3) k"
  obtains k' where "user_test3 api me 0 k = Some (Passed ([data1, data2, data3], k'))"
    "fds_ok k'" "one_file B RW (fs k')" "\<not> valid_fd k' 0"
proof -
  let ?buf = "(data1 @ data2) @ data3" and ?a0 = "replicate (64 * 64 * 256 + 1) NUL"
  have len: "length ?buf \<le> BLOCK_SIZE * MAX_FILE_BLOCKS" "0 < length ?buf" "NUL \<notin> set ?buf" using data_facts by auto
  obtain k1 where l: "rd_lseek k 0 0 me = Some (0, k1)" "readable B ?buf (BLOCK_SIZE * 0) k1"
    by (rule written_rewind [OF w len(2,1)])
  have ul: "u_lseek api me k 0 0 = Some (0, [], k1)" using l(1) e by (auto simp: u_lseek_def discos_ioctl_def zero_args_def)
  let ?c3 = "\<lambda>out1 out2 out3 addr k. must_call (u_close api me k 0) (\<lambda>retval k. Some (Passed ([out1, out2, out3], k)))"
  let ?c2 = "\<lambda>out1 out2 addr k. user_read_print api me addr k 0 (int (length data3)) (?c3 out1 out2)"
  let ?c1 = "\<lambda>out1 addr k. user_read_print api me addr k 0 (int (length data2)) (?c2 out1)"
  define a1 where "a1 = data1 @ drop (length data1) ?a0"
  define a2 where "a2 = data2 @ drop (length data2) a1"
  have a: "length a1 = READ_BUFFER_SIZE + 1" "\<forall>c \<in> set (drop (length data2) a1). c = NUL"
    "length a2 = READ_BUFFER_SIZE + 1" "\<forall>c \<in> set (drop (length data3) a2). c = NUL"
    using data_facts by (simp_all add: a1_def a2_def)
  obtain k2 where r2: "readable B ?buf (length ([] @ data1)) k2"
    "user_read_print api me ?a0 k1 0 (int (length data1)) ?c1 = ?c1 data1 a1 k2"
    using user_read [OF e l(2), of "[]" data1 "data2 @ data3" ?a0 me ?c1] len data_facts unfolding a1_def by auto
  have r2': "readable B ?buf (BLOCK_SIZE * 8) k2" using r2(1) data_facts by simp
  obtain k3 where r3: "readable B ?buf (length (data1 @ data2)) k3"
    "user_read_print api me a1 k2 0 (int (length data2)) (?c2 data1) = ?c2 data1 data2 a2 k3"
    using user_read [OF e r2', of data1 data2 data3 a1 me "?c2 data1"] len data_facts a(1,2) unfolding a2_def by auto
  have r3': "readable B ?buf (BLOCK_SIZE * 72) k3" using r3(1) data_facts by simp
  obtain k4 where r4: "readable B ?buf (length ((data1 @ data2) @ data3)) k4"
    "user_read_print api me a2 k3 0 (int (length data3)) (?c3 data1 data2) = ?c3 data1 data2 data3 (data3 @ drop (length data3) a2) k4"
    using user_read [OF e r3', of "data1 @ data2" data3 "[]" a2 me "?c3 data1 data2"] len data_facts a(3,4) by auto
  obtain k5 where c: "rd_close k4 0 me = Some (0, k5)" "fds_ok k5" "one_file B RW (fs k5)" "\<not> valid_fd k5 0"
    by (rule readable_close [OF r4(1)])
  have uc: "u_close api me k4 0 = Some (0, [], k5)" using c(1) e by (auto simp: u_close_def discos_ioctl_def zero_args_def)
  have "user_test3 api me 0 k = Some (Passed ([data1, data2, data3], k5))"
    unfolding user_test3_def ul must_call_ok [OF order_refl]
    by (simp only: r2(2) r3(2) r4(2) uc must_call_ok [OF order_refl])
  then show thesis using that c(2-4) by blast
qed

lemma user_test4_passes:
  assumes "run_ok api" "fds_ok k" "one_file B RW (fs k)" "\<not> valid_fd k 0"
  obtains s where "user_test4 api me 0 k = Some (Passed (-1, k\<lparr>fs := s\<rparr>))" "bare B s"
proof -
  note E = runD [OF assms(1)] and C = one_file_chmod [OF assms(3) runD(5) [OF assms(1)]]
  let ?s = "set_inode (fs k) 1 ((inodes (fs k) 1)\<lparr>access := RD\<rparr>)"
  have lit: "is_cstr ''/bigfile''" by (simp add: is_cstr_def)
  note P = run_calls [OF assms(1) literal(1) [OF lit], unfolded literal(2) [OF lit]]
  obtain s where u: "rd_unlink (alloc api) ?s ''/bigfile'' = Some (0, s)" "bare B s"
    by (rule one_file_unlink [OF C(2) E(5)])
  have closed: "fds_ok (k\<lparr>fs := ?s\<rparr>)" "\<not> valid_fd (k\<lparr>fs := ?s\<rparr>) 0" using assms(2,4) by (simp_all add: valid_fd_def)
  obtain buf where "u_write api me (k\<lparr>fs := ?s\<rparr>) 0 data1 (int (length data1)) =
      map_option (\<lambda>(r, k1). (r, [], k1)) (rd_write (k\<lparr>fs := ?s\<rparr>) 0 me buf (int (length data1)))"
    using user_write_agrees [OF E(1) _ _ E(3), of "int (length data1)" data1 me "k\<lparr>fs := ?s\<rparr>" 0] E(10) data_facts by auto
  then have w: "u_write api me (k\<lparr>fs := ?s\<rparr>) 0 data1 (int (length data1)) = Some (-1, [], k\<lparr>fs := ?s\<rparr>)"
    using write_closed [OF closed] by simp
  have ch: "u_chmod api me k (''/bigfile'' @ [NUL]) RD = Some (0, [], k\<lparr>fs := ?s\<rparr>)" using P(4) C(1) by simp
  have ul: "u_unlink api (k\<lparr>fs := ?s\<rparr>) (''/bigfile'' @ [NUL]) = Some (0, [], k\<lparr>fs := s\<rparr>)" using P(3) u(1) by simp
  have "user_test4 api me 0 k = Some (Passed (-1, k\<lparr>fs := s\<rparr>))"
    unfolding user_test4_def ch must_call_ok [OF order_refl] w Option.bind.bind_lunit case_prod_conv ul by simp
  then show thesis using that u(2) by blast
qed

lemma mkdir_creates:
  assumes "serves vm p" "p \<noteq> ''/''" "rd_create vm s p ''dir'' 1 = Some (0, s')"
  shows "rd_mkdir vm s p = Some (0, s')"
proof -
  have "grants vm Pwd (length p)" "grants vm Filename (length p)" using assms(1) by (simp_all add: serves_def)
  then obtain b c where "fresh_buffer vm Pwd (length p) = Some b" "fresh_buffer vm Filename (length p) = Some c"
    by (auto elim!: fresh_granted)
  then show ?thesis using assms(2,3) by (simp add: rd_mkdir_def)
qed

lemma user_test5_passes:
  assumes "run_ok api" "bare B (fs k)" "6 \<le> B"
  obtains s where "user_test5 api k = Some (Passed (k\<lparr>fs := s\<rparr>))" "fs_ok s" "three_dirs s"
proof -
  note E = runD [OF assms(1)]
  obtain s1 s2 s3 where s: "rd_create (alloc api) (fs k) ''/dir1'' ''dir'' 1 = Some (0, s1)"
    "rd_create (alloc api) s1 ''/dir1/dir2'' ''dir'' 1 = Some (0, s2)" "rd_create (alloc api) s2 ''/dir1/dir3'' ''dir'' 1 = Some (0, s3)"
    "fs_ok s3" "three_dirs s3" by (rule three_mkdirs [OF assms(2,3) E(6-8), of 1])
  have call: "u_mkdir api k' (t @ [NUL]) = Some (0, [], k'\<lparr>fs := s'\<rparr>)"
    if "is_cstr t" "length t < 14" "t \<noteq> ''/''" "t \<noteq> []" "serves (alloc api) t" "rd_create (alloc api) (fs k') t ''dir'' 1 = Some (0, s')" for t k' s'
    using run_calls(2) [OF assms(1) literal(1) [OF that(1)]] literal(2) [OF that(1)] that(2,4) mkdir_creates [OF that(5,3,6)] by simp
  have "u_mkdir api k (''/dir1'' @ [NUL]) = Some (0, [], k\<lparr>fs := s1\<rparr>)" by (rule call) (use s E(6-8) in \<open>simp_all add: is_cstr_def\<close>)
  moreover have "u_mkdir api (k\<lparr>fs := s1\<rparr>) (''/dir1/dir2'' @ [NUL]) = Some (0, [], k\<lparr>fs := s1\<rparr>\<lparr>fs := s2\<rparr>)"
    by (rule call) (use s E(6-8) in \<open>simp_all add: is_cstr_def\<close>)
  moreover have "u_mkdir api (k\<lparr>fs := s1\<rparr>\<lparr>fs := s2\<rparr>) (''/dir1/dir3'' @ [NUL]) = Some (0, [], k\<lparr>fs := s1\<rparr>\<lparr>fs := s2\<rparr>\<lparr>fs := s3\<rparr>)"
    by (rule call) (use s E(6-8) in \<open>simp_all add: is_cstr_def\<close>)
  ultimately have "user_test5 api k = Some (Passed (k\<lparr>fs := s1\<rparr>\<lparr>fs := s2\<rparr>\<lparr>fs := s3\<rparr>))"
    unfolding user_test5_def by (simp only: must_call_ok [OF order_refl])
  then have "user_test5 api k = Some (Passed (k\<lparr>fs := s3\<rparr>))" by simp
  then show thesis using that s(4,5) by blast
qed

lemma user_init:
  assumes "run_ok api"
  obtains k where "u_init api k0 = Some (0, [], k)" "fs k = empty_fs (disk_addr api)" "fds_ok k" "\<And>i. fobj k 0 i = zero_file_object"
proof -
  note E = runD [OF assms]
  have "disk_addr api \<noteq> 0" using E(2) by (auto simp: region_ok_def zero_filesys_def)
  then have i: "init_filesys (alloc api) (disk_addr api) = Some (0, empty_fs (disk_addr api))" by (rule init_filesys_eq [OF _ E(4)])
  define k where "k = \<lparr>fs = empty_fs (disk_addr api), p_fd_table = (\<lambda>_. \<lparr>pid = 0, fd_table = (\<lambda>_. zero_file_object)\<rparr>), read_buffer = read_buffer k0\<rparr>"
  have "fds_ok k" by (simp add: k_def fds_ok_def slot_ok_def fobj_no_inode)
  moreover have "u_init api k0 = Some (0, [], k)" using E(3) by (auto simp: u_init_def discos_ioctl_def init_file_sys_def zero_args_def i k_def)
  ultimately show thesis using that by (simp add: k_def)
qed

section \<open>Property\<close>

text \<open>C4: The test program of the module passes.  Through the user library and \<^verbatim>\<open>ioctl\<close>, and
  whatever state the module was in, \<^verbatim>\<open>main\<close> of \<^verbatim>\<open>test_file.c\<close> succeeds in each of its calls:
  it fills the root directory with 1023 files and removes them, writes a file of 1067008 bytes
  in three pieces and prints back exactly these pieces, and leaves a well-formed partition
  with its three directories and nothing else.  Only the write of TEST 4 fails, because the
  descriptor has been closed.  This is on condition that the module gets suitable memory
  (\<open>test_memory\<close>): all allocations succeed, and the copies of the program's paths have the spare
  byte and the NULs that the code relies on but the allocators do not promise.\<close>

theorem user_main_passes:
  assumes "env_ok api" "test_memory api"
  shows "\<exists>k. user_main api me k0 = Some (Passed ([data1, data2, data3], -1, k)) \<and> fs_ok (fs k) \<and> three_dirs (fs k)"
proof -
  have run: "run_ok api" using assms by (simp add: run_ok_def)
  obtain k where i: "u_init api k0 = Some (0, [], k)" "fs k = empty_fs (disk_addr api)" "fds_ok k" "\<And>i. fobj k 0 i = zero_file_object"
    by (rule user_init [OF run, of k0], rule that)
  obtain s1 where t1: "user_test1 api k = Some (Passed (k\<lparr>fs := s1\<rparr>))" "bare 5885 s1"
    by (rule user_test1_passes [OF run i(2)])
  obtain k2 where t2: "user_test2 api me (k\<lparr>fs := s1\<rparr>) = Some (Passed (0, k2))" "written 1517 ((data1 @ data2) @ data3) k2"
    by (rule user_test2_passes [OF run, of "k\<lparr>fs := s1\<rparr>" me]) (use i(3,4) t1(2) in \<open>auto simp: zero_file_object_def\<close>)
  obtain k3 where t3: "user_test3 api me 0 k2 = Some (Passed ([data1, data2, data3], k3))"
    "fds_ok k3" "one_file 1517 RW (fs k3)" "\<not> valid_fd k3 0" by (rule user_test3_passes [OF runD(3) [OF run] t2(2)])
  obtain s4 where t4: "user_test4 api me 0 k3 = Some (Passed (-1, k3\<lparr>fs := s4\<rparr>))" "bare 1517 s4"
    by (rule user_test4_passes [OF run t3(2-4)])
  obtain s5 where t5: "user_test5 api (k3\<lparr>fs := s4\<rparr>) = Some (Passed (k3\<lparr>fs := s4\<rparr>\<lparr>fs := s5\<rparr>))" "fs_ok s5" "three_dirs s5"
    by (rule user_test5_passes [OF run, of 1517 "k3\<lparr>fs := s4\<rparr>"]) (use t4(2) in auto)
  have "user_main api me k0 = Some (Passed ([data1, data2, data3], -1, k3\<lparr>fs := s4\<rparr>\<lparr>fs := s5\<rparr>))"
    unfolding user_main_def i(1)
    by (simp only: Option.bind.bind_lunit case_prod_conv t1(1) passed_then t2(1) t3(1) t4(1) t5(1))
  then show ?thesis using t5(2,3) by (intro exI [of _ "k3\<lparr>fs := s4\<rparr>\<lparr>fs := s5\<rparr>"]) simp
qed

lemma sample_memory: "test_memory sample_api"
  by (simp add: test_memory_def sample_api_fields) (simp add: zero_vm_def)

theorem user_main_passes_witness:
  "\<exists>k. user_main sample_api 7 sample_kernel = Some (Passed ([data1, data2, data3], -1, k)) \<and> three_dirs (fs k)"
  using user_main_passes [OF env_sample sample_memory, of 7 sample_kernel] by blast

end
