(* ===== verification/Fifos_Queue.thy ===== *)
theory Fifos_Queue
  imports Prelude
begin

text \<open>
  The bounded queue of the FIFOS kernel, \<^verbatim>\<open>FileSystem-v3/queue.c\<close>: a ring buffer with one
  slot kept free.  \<open>bounded_queue\<close> is the interface the scheduler relies on; its laws are
  proved for the ring buffer by an interpretation.  An element is a \<^verbatim>\<open>void*\<close>, a 32-bit word;
  \<open>elements\<close> are the words of the allocated array, and an access outside it is undefined,
  as is the remainder by a size of zero.
\<close>

section \<open>The interface\<close>

text \<open>\<open>items q\<close> are the queued elements, oldest first, \<open>cap q\<close> is how many fit, and \<open>poll\<close>
  answers \<open>null\<close> when there is none.\<close>

locale bounded_queue =
  fixes add :: "'q \<Rightarrow> 'a \<Rightarrow> (int \<times> 'q) option" and poll :: "'q \<Rightarrow> ('a \<times> 'q) option"
    and null :: 'a and inv :: "'q \<Rightarrow> bool" and items :: "'q \<Rightarrow> 'a list" and cap :: "'q \<Rightarrow> nat"
  assumes add_full: "inv q \<Longrightarrow> length (items q) = cap q \<Longrightarrow> add q x = Some (0, q)"
    and add_room: "inv q \<Longrightarrow> length (items q) < cap q \<Longrightarrow>
      \<exists>q'. add q x = Some (1, q') \<and> inv q' \<and> items q' = items q @ [x] \<and> cap q' = cap q"
    and poll_empty: "inv q \<Longrightarrow> items q = [] \<Longrightarrow> poll q = Some (null, q)"
    and poll_item: "inv q \<Longrightarrow> items q = x # xs \<Longrightarrow>
      \<exists>q'. poll q = Some (x, q') \<and> inv q' \<and> items q' = xs \<and> cap q' = cap q"
    and items_cap: "inv q \<Longrightarrow> length (items q) \<le> cap q"
begin

lemma add_total: "inv q \<Longrightarrow> \<exists>r q'. add q x = Some (r, q') \<and> inv q' \<and> cap q' = cap q"
  using add_full [of q x] add_room [of q x] items_cap [of q] by (cases "length (items q) < cap q") auto

lemma poll_total: "inv q \<Longrightarrow> \<exists>x q'. poll q = Some (x, q') \<and> inv q' \<and> cap q' = cap q"
  using poll_empty [of q] poll_item [of q] by (cases "items q") auto

text \<open>Adding a list of elements and polling as often gives them back in order.\<close>

fun add_list :: "'q \<Rightarrow> 'a list \<Rightarrow> 'q option" where
  "add_list q [] = Some q"
| "add_list q (x # xs) = (case add q x of Some (r, q') \<Rightarrow> if r = 1 then add_list q' xs else None | None \<Rightarrow> None)"

fun poll_list :: "'q \<Rightarrow> nat \<Rightarrow> ('a list \<times> 'q) option" where
  "poll_list q 0 = Some ([], q)"
| "poll_list q (Suc n) = do { (x, q') \<leftarrow> poll q; (xs, q'') \<leftarrow> poll_list q' n; Some (x # xs, q'') }"

lemma add_list_items:
  "inv q \<Longrightarrow> length (items q) + length xs \<le> cap q \<Longrightarrow>
     \<exists>q'. add_list q xs = Some q' \<and> inv q' \<and> items q' = items q @ xs \<and> cap q' = cap q"
proof (induction xs arbitrary: q)
  case (Cons x xs)
  then obtain q1 where q1: "add q x = Some (1, q1)" "inv q1" "items q1 = items q @ [x]" "cap q1 = cap q"
    using add_room [of q x] by auto
  then show ?case using Cons.IH [of q1] Cons.prems by simp
qed simp

lemma poll_list_items:
  "inv q \<Longrightarrow> items q = xs @ ys \<Longrightarrow>
     \<exists>q'. poll_list q (length xs) = Some (xs, q') \<and> inv q' \<and> items q' = ys \<and> cap q' = cap q"
proof (induction xs arbitrary: q)
  case (Cons x xs)
  then obtain q1 where q1: "poll q = Some (x, q1)" "inv q1" "items q1 = xs @ ys" "cap q1 = cap q"
    using poll_item [of q x "xs @ ys"] by auto
  then show ?case using Cons.IH [of q1] by auto
qed simp

text \<open>One turn of a scheduler: put the current element at the end, take the next one.\<close>

lemma add_poll:
  assumes "inv q" "length (items q) < cap q"
  obtains q1 x q2 where "add q c = Some (1, q1)" "poll q1 = Some (x, q2)" "inv q2" "cap q2 = cap q"
    "x # items q2 = items q @ [c]"
proof -
  obtain q1 where q1: "add q c = Some (1, q1)" "inv q1" "items q1 = items q @ [c]" "cap q1 = cap q"
    using add_room [OF assms] by blast
  have "items q1 \<noteq> []" using q1(3) by simp
  then obtain x xs where xs: "items q1 = x # xs" by (auto simp: neq_Nil_conv)
  obtain q2 where "poll q1 = Some (x, q2)" "inv q2" "items q2 = xs" "cap q2 = cap q1"
    using poll_item [OF q1(2) xs] by blast
  then show thesis using that q1 xs by metis
qed

end

section \<open>The ring buffer\<close>

record fifo_queue =
  elements :: "32 word list"
  qsize :: "32 word"
  head :: "32 word"
  tail :: "32 word"

definition queue_isFull :: "fifo_queue \<Rightarrow> int option" where
  "queue_isFull q =
     (if qsize q = 0 then None else Some (if (tail q + 1) mod qsize q = head q then 1 else 0))"

definition queue_isEmpty :: "fifo_queue \<Rightarrow> int" where
  "queue_isEmpty q = (if head q = tail q then 1 else 0)"

definition queue_add :: "fifo_queue \<Rightarrow> 32 word \<Rightarrow> (int \<times> fifo_queue) option" where
  "queue_add q element = do {
     full \<leftarrow> queue_isFull q;
     if full \<noteq> 0 then Some (0, q)
     else if unat (tail q) < length (elements q)
     then Some (1, q\<lparr>elements := (elements q)[unat (tail q) := element],
                     tail := (tail q + 1) mod qsize q\<rparr>)
     else None
   }"

definition queue_poll :: "fifo_queue \<Rightarrow> (32 word \<times> fifo_queue) option" where
  "queue_poll q =
     (if queue_isEmpty q \<noteq> 0 then Some (0, q)
      else if unat (head q) < length (elements q) \<and> qsize q \<noteq> 0
      then Some (elements q ! unat (head q), q\<lparr>head := (head q + 1) mod qsize q\<rparr>)
      else None)"

text \<open>\<open>init_queue\<close> given what the two calls of \<^verbatim>\<open>malloc\<close> return: whether the first one
  succeeded, and the words of the second block, \<^term>\<open>None\<close> for \<^verbatim>\<open>NULL\<close>.  The byte count
  of the second is \<^verbatim>\<open>size * sizeof(void*)\<close> in 32 bits, after \<^verbatim>\<open>++size\<close> (\<open>size1\<close>).\<close>

definition init_queue :: "bool \<Rightarrow> (32 word \<Rightarrow> 32 word list option) \<Rightarrow> 32 word \<Rightarrow> fifo_queue option" where
  "init_queue queue_block malloc_words n =
     (let size1 = n + 1 in
      if \<not> queue_block then None
      else (case malloc_words (size1 * 4) of
          None \<Rightarrow> None
        | Some ws \<Rightarrow> Some \<lparr>elements = ws, qsize = size1, head = 0, tail = 0\<rparr>))"

section \<open>Abstraction\<close>

definition ring_inv :: "fifo_queue \<Rightarrow> bool" where
  "ring_inv q \<longleftrightarrow> unat (qsize q) \<le> length (elements q) \<and> head q < qsize q \<and> tail q < qsize q"

text \<open>The number of queued elements, and the slot of the \<open>i\<close>-th of them.\<close>

definition ring_count :: "fifo_queue \<Rightarrow> nat" where
  "ring_count q =
     (if head q \<le> tail q then unat (tail q) - unat (head q)
      else unat (tail q) + unat (qsize q) - unat (head q))"

definition ring_slot :: "fifo_queue \<Rightarrow> nat \<Rightarrow> nat" where
  "ring_slot q i =
     (if unat (head q) + i < unat (qsize q) then unat (head q) + i
      else unat (head q) + i - unat (qsize q))"

definition ring_items :: "fifo_queue \<Rightarrow> 32 word list" where
  "ring_items q = map (\<lambda>i. elements q ! ring_slot q i) [0..<ring_count q]"

definition ring_cap :: "fifo_queue \<Rightarrow> nat" where
  "ring_cap q = unat (qsize q) - 1"

lemma ring_length [simp]: "length (ring_items q) = ring_count q"
  by (simp add: ring_items_def)

lemma unat_next:
  fixes a n :: "32 word"
  assumes "a < n"
  shows "unat ((a + 1) mod n) = (if unat a + 1 = unat n then 0 else unat a + 1)"
proof -
  have "unat a < unat n" using assms by (simp add: word_less_nat_alt)
  moreover have "unat n < 2 ^ 32" using unsigned_less [of n, where ?'a = nat] by simp
  ultimately have "unat (a + 1) = unat a + 1" by (simp add: unat_word_ariths)
  then show ?thesis using \<open>unat a < unat n\<close> by (simp add: unat_mod_distrib)
qed

lemma next_less:
  fixes a n :: "32 word"
  assumes "a < n"
  shows "(a + 1) mod n < n"
  unfolding word_less_nat_alt unat_next [OF assms] using assms by (auto simp: word_less_nat_alt)

lemma ring_invD:
  assumes "ring_inv q"
  shows "unat (head q) < unat (qsize q)" "unat (tail q) < unat (qsize q)"
    "unat (qsize q) \<le> length (elements q)" "qsize q \<noteq> 0"
  using assms by (auto simp: ring_inv_def word_less_nat_alt)

lemma isFull_count: "ring_inv q \<Longrightarrow> queue_isFull q = Some (if ring_count q = ring_cap q then 1 else 0)"
proof -
  assume inv: "ring_inv q"
  note D = ring_invD [OF inv]
  have "(tail q + 1) mod qsize q = head q \<longleftrightarrow> unat ((tail q + 1) mod qsize q) = unat (head q)"
    by (simp add: word_unat_eq_iff)
  also have "\<dots> \<longleftrightarrow> ring_count q = ring_cap q"
    using D inv by (auto simp: unat_next ring_inv_def ring_count_def ring_cap_def word_le_nat_alt)
  finally show ?thesis using D(4) by (simp add: queue_isFull_def)
qed

lemma isEmpty_count: "ring_inv q \<Longrightarrow> queue_isEmpty q = (if ring_count q = 0 then 1 else 0)"
  using ring_invD [of q] by (auto simp: queue_isEmpty_def ring_count_def word_le_nat_alt word_unat_eq_iff)

section \<open>The ring buffer is a bounded queue\<close>

lemma ring_slot_less: "ring_inv q \<Longrightarrow> i < unat (qsize q) \<Longrightarrow> ring_slot q i < unat (qsize q)"
  using ring_invD [of q] by (auto simp: ring_slot_def)

lemma ring_slot_tail: "ring_inv q \<Longrightarrow> ring_slot q (ring_count q) = unat (tail q)"
  using ring_invD [of q] by (auto simp: ring_slot_def ring_count_def word_le_nat_alt)

lemma ring_slot_inj:
  "ring_inv q \<Longrightarrow> i < unat (qsize q) \<Longrightarrow> j < unat (qsize q) \<Longrightarrow> ring_slot q i = ring_slot q j \<Longrightarrow> i = j"
  using ring_invD [of q] by (auto simp: ring_slot_def split: if_splits)

lemma ring_count_less: "ring_inv q \<Longrightarrow> ring_count q < unat (qsize q)"
  using ring_invD [of q] by (auto simp: ring_count_def word_le_nat_alt)

lemma ring_add:
  assumes inv: "ring_inv q" and room: "ring_count q < ring_cap q"
  shows "\<exists>q'. queue_add q x = Some (1, q') \<and> ring_inv q' \<and> ring_items q' = ring_items q @ [x]
    \<and> ring_cap q' = ring_cap q"
proof -
  note D = ring_invD [OF inv]
  define q' where "q' = q\<lparr>elements := (elements q)[unat (tail q) := x], tail := (tail q + 1) mod qsize q\<rparr>"
  have tl: "tail q < qsize q" using inv by (simp add: ring_inv_def)
  have ut: "unat (tail q') = (if unat (tail q) + 1 = unat (qsize q) then 0 else unat (tail q) + 1)"
    using unat_next [OF tl] by (simp add: q'_def)
  have inv': "ring_inv q'"
    using inv D by (simp add: ring_inv_def q'_def next_less)
  have cnt: "ring_count q' = Suc (ring_count q)"
    using ut room D by (auto simp: ring_count_def word_le_nat_alt ring_cap_def q'_def)
  have slot: "ring_slot q' = ring_slot q" by (auto simp: fun_eq_iff ring_slot_def q'_def)
  have keep: "elements q' ! ring_slot q i = elements q ! ring_slot q i" if "i < ring_count q" for i
  proof -
    have "ring_slot q i \<noteq> unat (tail q)"
      using ring_slot_inj [OF inv, of i "ring_count q"] ring_count_less [OF inv] that ring_slot_tail [OF inv]
      by fastforce
    then show ?thesis by (simp add: q'_def)
  qed
  have "elements q' ! ring_slot q (ring_count q) = x"
    using ring_slot_tail [OF inv] D by (simp add: q'_def)
  then have "ring_items q' = ring_items q @ [x]"
    using keep by (simp add: ring_items_def cnt slot)
  moreover have "queue_add q x = Some (1, q')"
    using isFull_count [OF inv] room D by (simp add: queue_add_def q'_def)
  ultimately show ?thesis using inv' by (auto simp: ring_cap_def q'_def)
qed

lemma ring_poll:
  assumes inv: "ring_inv q" and items: "ring_items q = x # xs"
  shows "\<exists>q'. queue_poll q = Some (x, q') \<and> ring_inv q' \<and> ring_items q' = xs \<and> ring_cap q' = ring_cap q"
proof -
  note D = ring_invD [OF inv]
  have "length (ring_items q) = Suc (length xs)" using items by simp
  then have cnt: "ring_count q = Suc (length xs)" by simp
  define q' where "q' = q\<lparr>head := (head q + 1) mod qsize q\<rparr>"
  have hd: "head q < qsize q" using inv by (simp add: ring_inv_def)
  have uh: "unat (head q') = (if unat (head q) + 1 = unat (qsize q) then 0 else unat (head q) + 1)"
    using unat_next [OF hd] by (simp add: q'_def)
  have inv': "ring_inv q'"
    using inv D by (simp add: ring_inv_def q'_def next_less)
  have cnt': "ring_count q' = length xs"
    using uh cnt D by (auto simp: ring_count_def word_le_nat_alt q'_def split: if_splits)
  have slot: "ring_slot q' i = ring_slot q (Suc i)" if "i < length xs" for i
    using uh D that cnt ring_count_less [OF inv] by (auto simp: ring_slot_def q'_def)
  have nth: "elements q ! ring_slot q i = (x # xs) ! i" if "i < Suc (length xs)" for i
    using that items cnt nth_map [of i "[0..<ring_count q]" "\<lambda>i. elements q ! ring_slot q i"]
    by (simp add: ring_items_def del: nth_map upt_Suc)
  have "elements q ! ring_slot q' i = xs ! i" if "i < length xs" for i
    using nth [of "Suc i"] slot [OF that] that by simp
  then have "ring_items q' = xs"
    by (intro nth_equalityI) (simp_all add: cnt' ring_items_def, simp add: q'_def)
  moreover have "ring_slot q 0 = unat (head q)" using D by (simp add: ring_slot_def)
  then have "elements q ! unat (head q) = x" using nth [of 0] by simp
  then have "queue_poll q = Some (x, q')"
    using isEmpty_count [OF inv] cnt D by (simp add: queue_poll_def q'_def)
  ultimately show ?thesis using inv' by (auto simp: ring_cap_def q'_def)
qed

interpretation rq: bounded_queue queue_add queue_poll 0 ring_inv ring_items ring_cap
proof unfold_locales
  fix q :: fifo_queue and x :: "32 word" and xs
  assume inv: "ring_inv q"
  show "queue_add q x = Some (0, q)" if "length (ring_items q) = ring_cap q"
    using that isFull_count [OF inv] by (simp add: queue_add_def)
  show "\<exists>q'. queue_add q x = Some (1, q') \<and> ring_inv q' \<and> ring_items q' = ring_items q @ [x]
      \<and> ring_cap q' = ring_cap q" if "length (ring_items q) < ring_cap q"
    using ring_add [OF inv] that by simp
  show "queue_poll q = Some (0, q)" if "ring_items q = []"
  proof -
    have "ring_count q = 0" using that by (metis length_0_conv ring_length)
    then show ?thesis using isEmpty_count [OF inv] by (simp add: queue_poll_def)
  qed
  show "\<exists>q'. queue_poll q = Some (x, q') \<and> ring_inv q' \<and> ring_items q' = xs \<and> ring_cap q' = ring_cap q"
    if "ring_items q = x # xs"
    by (rule ring_poll [OF inv that])
  show "length (ring_items q) \<le> ring_cap q"
    using ring_count_less [OF inv] by (simp add: ring_cap_def)
qed

lemma init_queue_ok:
  assumes "unat n + 1 < 2 ^ 30" "malloc_words ((n + 1) * 4) = Some ws" "unat ((n + 1) * 4) \<le> 4 * length ws"
  shows "\<exists>q. init_queue True malloc_words n = Some q \<and> ring_inv q \<and> ring_items q = [] \<and> ring_cap q = unat n"
proof -
  have n1: "unat (n + 1) = unat n + 1" using assms(1) by (simp add: unat_word_ariths)
  then have "unat ((n + 1) * 4) = 4 * (unat n + 1)" using assms(1) by (simp add: unat_word_ariths)
  then have "unat (n + 1) \<le> length ws" using assms(3) n1 by simp
  moreover have "0 < n + 1" using n1 by (simp add: word_less_nat_alt)
  ultimately show ?thesis
    using assms(2) n1
    by (simp add: init_queue_def Let_def ring_inv_def ring_items_def ring_count_def ring_cap_def)
qed

section \<open>Properties\<close>

text \<open>C23: the ring buffer refines a bounded list.  \<^verbatim>\<open>queue_add\<close> appends the element and
  returns 1 when fewer than \<open>size - 1\<close> are queued, and otherwise returns 0 and changes
  nothing; \<^verbatim>\<open>queue_poll\<close> takes the oldest element, and answers \<^verbatim>\<open>NULL\<close> from an empty
  queue; neither leaves the array, and the capacity is kept, wrapped around or not.\<close>

theorem queue_refines_list:
  assumes "ring_inv q"
  shows "(\<exists>r q1. queue_add q x = Some (r, q1) \<and> ring_inv q1 \<and> ring_cap q1 = ring_cap q \<and>
      (r, ring_items q1) = (if length (ring_items q) < ring_cap q then (1, ring_items q @ [x]) else (0, ring_items q)))
    \<and> (\<exists>y q2. queue_poll q = Some (y, q2) \<and> ring_inv q2 \<and> ring_cap q2 = ring_cap q \<and>
      (y, ring_items q2) = (case ring_items q of [] \<Rightarrow> (0, []) | z # zs \<Rightarrow> (z, zs)))"
proof (rule conjI)
  show "\<exists>r q1. queue_add q x = Some (r, q1) \<and> ring_inv q1 \<and> ring_cap q1 = ring_cap q \<and>
      (r, ring_items q1) = (if length (ring_items q) < ring_cap q then (1, ring_items q @ [x]) else (0, ring_items q))"
    using assms rq.add_full [of q x] rq.add_room [of q x] rq.items_cap [of q]
    by (cases "length (ring_items q) < ring_cap q") auto
  show "\<exists>y q2. queue_poll q = Some (y, q2) \<and> ring_inv q2 \<and> ring_cap q2 = ring_cap q \<and>
      (y, ring_items q2) = (case ring_items q of [] \<Rightarrow> (0, []) | z # zs \<Rightarrow> (z, zs))"
    using assms rq.poll_empty [of q] rq.poll_item [of q] by (cases "ring_items q") auto
qed

definition sample_queue :: fifo_queue where
  "sample_queue = \<lparr>elements = [7, 8, 9], qsize = 3, head = 2, tail = 1\<rparr>"

lemma sample_queue_ok: "ring_inv sample_queue" "ring_items sample_queue = [9, 7]" "ring_cap sample_queue = 2"
  by (simp_all add: sample_queue_def ring_inv_def ring_items_def ring_count_def ring_slot_def ring_cap_def
      word_le_nat_alt upt_rec)

theorem queue_refines_list_witness:
  "\<exists>q2. queue_poll sample_queue = Some (9, q2) \<and> ring_items q2 = [7]"
  using queue_refines_list [OF sample_queue_ok(1), of 5] by (auto simp: sample_queue_ok)

text \<open>A new queue is empty and holds \<open>n\<close> elements, provided the array's byte count does
  not overflow (\<open>n + 1 < 2^30\<close>) and \<^verbatim>\<open>malloc\<close> returns a block of at least the size asked for.\<close>

theorem init_queue_empty:
  assumes "unat n + 1 < 2 ^ 30" "malloc_words ((n + 1) * 4) = Some ws" "unat ((n + 1) * 4) \<le> 4 * length ws"
  shows "\<exists>q. init_queue True malloc_words n = Some q \<and> ring_inv q \<and> ring_items q = [] \<and> ring_cap q = unat n"
  using assms by (rule init_queue_ok [of n malloc_words ws])

theorem init_queue_empty_witness:
  "\<exists>q. init_queue True (\<lambda>b. Some (replicate (unat b div 4) 0)) 6 = Some q \<and> ring_cap q = 6"
  using init_queue_empty [of 6 "\<lambda>b. Some (replicate (unat b div 4) 0)" "replicate 7 0"] by auto

text \<open>Without the bound the array is too small: for \<open>n = 2^30\<close> the byte count
  \<^verbatim>\<open>size * sizeof(void*)\<close> wraps to 4, the queue believes it has room for \<open>2^30\<close> elements,
  and the second \<^verbatim>\<open>queue_add\<close> writes past the end of the array.\<close>

theorem init_queue_overflow:
  "\<exists>q q1. init_queue True (\<lambda>b. Some (replicate (unat b div 4) 0)) (2 ^ 30) = Some q
    \<and> ring_cap q = 2 ^ 30 \<and> queue_add q x = Some (1, q1) \<and> queue_add q1 y = None"
  by (simp add: init_queue_def Let_def queue_add_def queue_isFull_def ring_cap_def)

end
