(* ===== verification/Fifos_Thread.thy ===== *)
theory Fifos_Thread
  imports Fifos_Queue
begin

text \<open>
  The round robin scheduler of the FIFOS kernel, \<^verbatim>\<open>FileSystem-v3/thread.c\<close>, with the
  entry points \<^verbatim>\<open>stash\<close> and \<^verbatim>\<open>trap\<close> of \<^verbatim>\<open>context.s\<close>.  A \<^verbatim>\<open>TCB*\<close> is the index of the
  thread in the pool; 0 stands for \<^verbatim>\<open>NULL\<close>, entry 0 being the main thread, which is never
  queued.  \<open>ptr_current_esp\<close> is the index of the thread whose \<^verbatim>\<open>esp\<close> field the pointer of
  that name refers to (it is 0 for the main thread, as \<^verbatim>\<open>ptr_main_thread_esp\<close> always is).
  Register contents appear only as the value of the stack pointer that \<^verbatim>\<open>stash\<close> saves.
  What \<^verbatim>\<open>malloc\<close> returns for a stack is an argument, 0 for \<^verbatim>\<open>NULL\<close>, and an access outside
  the pool yields \<^term>\<open>None\<close>.
\<close>

section \<open>State\<close>

datatype thread_state = empty | new | ready | running

record tcb =
  TID :: "32 word"
  tstate :: thread_state
  stack :: "32 word"
  esp :: "32 word"

record threads =
  current_tid :: "32 word"
  ptr_current_esp :: nat
  pool_size :: "32 word"
  thread_pool :: "nat \<Rightarrow> tcb"
  ready_queue :: fifo_queue
  stack_mem :: "32 word \<Rightarrow> 32 word"

text \<open>Where control goes when \<^verbatim>\<open>schedule\<close> ends: \<^verbatim>\<open>start()\<close> or \<^verbatim>\<open>resume()\<close> on the thread
  that \<^verbatim>\<open>ptr_current_esp\<close> now refers to.\<close>

datatype control = Start nat | Resume nat

abbreviation STACK_SIZE :: "32 word" where "STACK_SIZE \<equiv> 4096"

definition set_tcb :: "threads \<Rightarrow> nat \<Rightarrow> tcb \<Rightarrow> threads" where
  "set_tcb s i t = s\<lparr>thread_pool := (thread_pool s)(i := t)\<rparr>"

section \<open>Operations\<close>

fun init_pool :: "(nat \<Rightarrow> tcb) \<Rightarrow> nat \<Rightarrow> nat \<Rightarrow> nat \<Rightarrow> tcb" where
  "init_pool pool i 0 = pool"
| "init_pool pool i (Suc n) =
     init_pool (pool(i := (pool i)\<lparr>TID := of_nat i, tstate := empty\<rparr>)) (Suc i) n"

text \<open>\<open>pool\<close> and \<open>m\<close> are the contents of fresh memory, \<open>queue\<close> is what \<^verbatim>\<open>init_queue\<close>
  returned; the code does not test it for \<^verbatim>\<open>NULL\<close>, and using it then is undefined.\<close>

definition init_thread ::
  "(nat \<Rightarrow> tcb) \<Rightarrow> (32 word \<Rightarrow> 32 word) \<Rightarrow> (32 word \<Rightarrow> fifo_queue option) \<Rightarrow> 32 word \<Rightarrow> threads option"
  where
  "init_thread pool m queue n = do {
     q \<leftarrow> queue n;
     Some \<lparr>current_tid = 0, ptr_current_esp = 0, pool_size = n,
           thread_pool = init_pool pool 1 (unat n - 1), ready_queue = q, stack_mem = m\<rparr>
   }"

fun find_empty :: "(nat \<Rightarrow> tcb) \<Rightarrow> nat \<Rightarrow> nat \<Rightarrow> nat option" where
  "find_empty pool i 0 = None"
| "find_empty pool i (Suc n) =
     (if tstate (pool i) = empty then Some i else find_empty pool (Suc i) n)"

text \<open>\<open>fin\<close> and \<open>f\<close> are the addresses of \<^verbatim>\<open>finish\<close> and of the thread function.  The result
  of \<^verbatim>\<open>add\<close> is not looked at.\<close>

definition thread_create ::
  "32 word \<Rightarrow> threads \<Rightarrow> 32 word \<Rightarrow> 32 word \<Rightarrow> (32 word \<times> threads) option" where
  "thread_create fin s f stk =
     (case find_empty (thread_pool s) 1 (unat (pool_size s) - 1) of
        None \<Rightarrow> if pool_size s = 0 \<and> stk \<noteq> 0 then None else Some (0, s)
      | Some i \<Rightarrow>
          if stk = 0 then Some (0, s)
          else do {
            let top = stk + STACK_SIZE - 4;
            let m = (stack_mem s)(top := fin, top - 4 := f);
            let s1 = set_tcb (s\<lparr>stack_mem := m\<rparr>) i
                       ((thread_pool s i)\<lparr>tstate := new, stack := stk, esp := top - 4\<rparr>);
            (r, q) \<leftarrow> queue_add (ready_queue s1) (of_nat i);
            Some (of_nat i, s1\<lparr>ready_queue := q\<rparr>)
          })"

definition get_tid :: "threads \<Rightarrow> 32 word" where
  "get_tid s = current_tid s"

text \<open>\<^verbatim>\<open>schedule\<close> has two halves: the current thread goes to the end of the queue, unless it
  is main, and the thread at the front is dispatched.\<close>

definition enqueue_current :: "threads \<Rightarrow> threads option" where
  "enqueue_current s =
     (if current_tid s \<noteq> 0
      then if current_tid s < pool_size s
        then do {
          let c = unat (current_tid s);
          let s' = set_tcb s c ((thread_pool s c)\<lparr>tstate := ready\<rparr>);
          (r, q) \<leftarrow> queue_add (ready_queue s') (of_nat c);
          Some (s'\<lparr>ready_queue := q\<rparr>)
        }
        else None
      else Some s)"

definition dispatch :: "threads \<Rightarrow> (control \<times> threads) option" where
  "dispatch s = do {
     (thread, q) \<leftarrow> queue_poll (ready_queue s);
     let s1 = s\<lparr>ready_queue := q\<rparr>;
     if thread = 0 then Some (Resume 0, s1\<lparr>current_tid := 0, ptr_current_esp := 0\<rparr>)
     else if thread < pool_size s
     then do {
       let i = unat thread;
       let state = tstate (thread_pool s1 i);
       let s2 = (set_tcb s1 i ((thread_pool s1 i)\<lparr>tstate := running\<rparr>))
                  \<lparr>current_tid := TID (thread_pool s1 i), ptr_current_esp := i\<rparr>;
       Some (if state = new then Start i else Resume i, s2)
     }
     else None
   }"

definition schedule :: "threads \<Rightarrow> (control \<times> threads) option" where
  "schedule s = do { s1 \<leftarrow> enqueue_current s; dispatch s1 }"

text \<open>\<^verbatim>\<open>stash\<close>, reached from \<^verbatim>\<open>yield\<close> and from the timer interrupt, saves the stack pointer
  of the interrupted thread and falls into \<^verbatim>\<open>trap\<close>, which calls \<^verbatim>\<open>schedule\<close>.\<close>

definition stash :: "threads \<Rightarrow> 32 word \<Rightarrow> (control \<times> threads) option" where
  "stash s e =
     schedule (set_tcb s (ptr_current_esp s) ((thread_pool s (ptr_current_esp s))\<lparr>esp := e\<rparr>))"

text \<open>\<^verbatim>\<open>finish\<close>, to which the function of a thread returns, when no timer interrupt comes in it
  (\<open>Fifos_Race\<close> has its parts): the word is the stack it frees.\<close>

definition finish :: "threads \<Rightarrow> (32 word \<times> control \<times> threads) option" where
  "finish s =
     (if current_tid s < pool_size s
      then do {
        let c = unat (current_tid s);
        let s1 = set_tcb s c ((thread_pool s c)\<lparr>tstate := empty\<rparr>);
        (a, s2) \<leftarrow> schedule (s1\<lparr>current_tid := 0\<rparr>);
        Some (stack (thread_pool s c), a, s2)
      }
      else None)"

section \<open>The invariant\<close>

text \<open>Thread numbers are positions; the queue holds exactly the new and the ready threads,
  each once; the running thread is the current one; the queue has room for the whole pool.\<close>

definition waiting :: "threads \<Rightarrow> nat \<Rightarrow> bool" where
  "waiting s i \<longleftrightarrow> tstate (thread_pool s i) = new \<or> tstate (thread_pool s i) = ready"

definition pool_ok :: "threads \<Rightarrow> bool" where
  "pool_ok s \<longleftrightarrow> 0 < pool_size s \<and> (\<forall>i. 0 < i \<longrightarrow> i < unat (pool_size s) \<longrightarrow> TID (thread_pool s i) = of_nat i)"

definition queue_ok :: "threads \<Rightarrow> bool" where
  "queue_ok s \<longleftrightarrow> ring_inv (ready_queue s) \<and> ring_cap (ready_queue s) = unat (pool_size s)
     \<and> distinct (ring_items (ready_queue s))
     \<and> set (ring_items (ready_queue s))
         = {t. 0 < t \<and> t < pool_size s \<and> waiting s (unat t)}"

definition current_ok :: "threads \<Rightarrow> bool" where
  "current_ok s \<longleftrightarrow> current_tid s < pool_size s \<and> ptr_current_esp s = unat (current_tid s)
     \<and> (\<forall>i. 0 < i \<longrightarrow> i < unat (pool_size s) \<longrightarrow>
          (tstate (thread_pool s i) = running \<longleftrightarrow> i = unat (current_tid s)))"

definition threads_ok :: "threads \<Rightarrow> bool" where
  "threads_ok s \<longleftrightarrow> pool_ok s \<and> queue_ok s \<and> current_ok s"

section \<open>Lemmas\<close>

lemma set_tcb_simps [simp]:
  "thread_pool (set_tcb s i t) = (thread_pool s)(i := t)" "pool_size (set_tcb s i t) = pool_size s"
  "current_tid (set_tcb s i t) = current_tid s" "ptr_current_esp (set_tcb s i t) = ptr_current_esp s"
  "ready_queue (set_tcb s i t) = ready_queue s" "stack_mem (set_tcb s i t) = stack_mem s"
  by (simp_all add: set_tcb_def)

lemma unat_lessD: "(t :: 32 word) < p \<Longrightarrow> unat t < unat p"
  by (simp add: word_less_nat_alt)

lemma unat_posD: "0 < (t :: 32 word) \<Longrightarrow> 0 < unat t"
  by (simp add: word_less_nat_alt)

lemma unat_same: "unat (t :: 32 word) = unat u \<longleftrightarrow> t = u"
  by (simp add: word_unat_eq_iff)

abbreviation queued :: "threads \<Rightarrow> 32 word list" where
  "queued s \<equiv> ring_items (ready_queue s)"

definition none_running :: "threads \<Rightarrow> bool" where
  "none_running s \<longleftrightarrow> (\<forall>i. 0 < i \<longrightarrow> i < unat (pool_size s) \<longrightarrow> tstate (thread_pool s i) \<noteq> running)"

lemma queuedD:
  assumes "queue_ok s" "t \<in> set (queued s)"
  shows "0 < t" "t < pool_size s" "waiting s (unat t)"
  using assms by (auto simp: queue_ok_def)

text \<open>What the operations on the queue need: its threads are distinct and wait; there may be
  waiting threads that are not in it.\<close>

definition queue_sound :: "threads \<Rightarrow> bool" where
  "queue_sound s \<longleftrightarrow> ring_inv (ready_queue s) \<and> ring_cap (ready_queue s) = unat (pool_size s)
     \<and> distinct (queued s) \<and> (\<forall>t\<in>set (queued s). 0 < t \<and> t < pool_size s \<and> waiting s (unat t))"

lemma queue_ok_sound: "queue_ok s \<Longrightarrow> queue_sound s"
  by (auto simp: queue_ok_def queue_sound_def)

lemma queue_soundD:
  assumes "queue_sound s" "t \<in> set (queued s)"
  shows "0 < t" "t < pool_size s" "waiting s (unat t)"
  using assms by (auto simp: queue_sound_def)

text \<open>There is always room for one more: the queue is larger than the number of threads.\<close>

lemma queue_room:
  assumes "pool_ok s" "queue_sound s"
  shows "length (queued s) < ring_cap (ready_queue s)"
proof -
  have "length (queued s) = card (set (queued s))"
    using assms(2) distinct_card [of "queued s"] by (simp add: queue_sound_def del: ring_length)
  also have "\<dots> = card (unat ` set (queued s))"
    by (intro card_image [symmetric]) (simp add: inj_on_def unat_same)
  also have "\<dots> \<le> card {1..<unat (pool_size s)}"
  proof (intro card_mono subsetI)
    fix i assume "i \<in> unat ` set (queued s)"
    then obtain t where t: "i = unat t" "t \<in> set (queued s)" by blast
    show "i \<in> {1..<unat (pool_size s)}"
      using unat_posD [OF queue_soundD(1) [OF assms(2) t(2)]] unat_lessD [OF queue_soundD(2) [OF assms(2) t(2)]] t(1)
      by simp
  qed simp
  also have "\<dots> < unat (pool_size s)"
    using assms(1) unat_posD [of "pool_size s"] by (simp add: pool_ok_def)
  finally show ?thesis using assms(2) by (simp add: queue_sound_def)
qed

text \<open>Adding a thread that becomes waiting.\<close>

lemma enqueue_tcb:
  assumes ok: "pool_ok s" "queue_ok s" and t: "0 < t" "t < pool_size s" "\<not> waiting s (unat t)"
    and tcb: "TID tc = t" "tstate tc = new \<or> tstate tc = ready"
  obtains q where "queue_add (ready_queue s) t = Some (1, q)"
    "pool_ok ((set_tcb s (unat t) tc)\<lparr>ready_queue := q\<rparr>)"
    "queue_ok ((set_tcb s (unat t) tc)\<lparr>ready_queue := q\<rparr>)"
    "ring_items q = queued s @ [t]"
proof -
  obtain q where q: "queue_add (ready_queue s) t = Some (1, q)" "ring_inv q"
    "ring_items q = queued s @ [t]" "ring_cap q = ring_cap (ready_queue s)"
    using rq.add_room [of "ready_queue s" t] queue_room [OF ok(1) queue_ok_sound [OF ok(2)]] ok(2)
    by (auto simp: queue_ok_def)
  let ?s = "(set_tcb s (unat t) tc)\<lparr>ready_queue := q\<rparr>"
  have "t \<notin> set (queued s)" using queuedD(3) [OF ok(2)] t(3) by blast
  moreover have "waiting ?s i \<longleftrightarrow> waiting s i \<or> i = unat t" for i
    using tcb(2) by (auto simp: waiting_def)
  then have "{u. 0 < u \<and> u < pool_size s \<and> waiting ?s (unat u)}
      = insert t {u. 0 < u \<and> u < pool_size s \<and> waiting s (unat u)}"
    using t(1,2) by (auto simp: unat_same)
  moreover have "distinct (queued s)" "set (queued s) = {u. 0 < u \<and> u < pool_size s \<and> waiting s (unat u)}"
    "ring_cap (ready_queue s) = unat (pool_size s)" using ok(2) by (simp_all add: queue_ok_def)
  ultimately have "queue_ok ?s"
    unfolding queue_ok_def using q(2-4) by simp
  moreover have "pool_ok ?s" using ok(1) tcb(1) by (auto simp: pool_ok_def)
  ultimately show thesis using that q by blast
qed

lemma enqueue_current_ok:
  assumes ok: "threads_ok s"
  obtains s1 where "enqueue_current s = Some s1" "pool_ok s1" "queue_ok s1" "none_running s1"
    "pool_size s1 = pool_size s" "current_tid s1 = current_tid s"
    "queued s1 = queued s @ (if current_tid s = 0 then [] else [current_tid s])"
proof (cases "current_tid s = 0")
  case True
  then show ?thesis
    using ok by (intro that [of s]) (auto simp: enqueue_current_def threads_ok_def current_ok_def none_running_def)
next
  case False
  let ?c = "current_tid s" and ?tc = "(thread_pool s (unat (current_tid s)))\<lparr>tstate := ready\<rparr>"
  have c: "0 < ?c" "?c < pool_size s" "tstate (thread_pool s (unat ?c)) = running"
    using ok False by (auto simp: threads_ok_def current_ok_def word_neq_0_conv dest: unat_posD unat_lessD)
  have "TID ?tc = ?c"
    using ok unat_posD [OF c(1)] unat_lessD [OF c(2)] by (simp add: threads_ok_def pool_ok_def)
  then obtain q where q: "queue_add (ready_queue s) ?c = Some (1, q)"
    "pool_ok ((set_tcb s (unat ?c) ?tc)\<lparr>ready_queue := q\<rparr>)"
    "queue_ok ((set_tcb s (unat ?c) ?tc)\<lparr>ready_queue := q\<rparr>)" "ring_items q = queued s @ [?c]"
    using enqueue_tcb [of s ?c ?tc] ok c by (auto simp: threads_ok_def waiting_def)
  show ?thesis
    by (rule that [of "(set_tcb s (unat ?c) ?tc)\<lparr>ready_queue := q\<rparr>"])
      (use ok c q False in \<open>auto simp: enqueue_current_def threads_ok_def current_ok_def none_running_def Let_def\<close>)
qed

lemma dispatch_ok:
  assumes ok: "pool_ok s" "queue_ok s" "none_running s"
  obtains (idle) s' where "dispatch s = Some (Resume 0, s')" "threads_ok s'" "queued s = []"
    "current_tid s' = 0" "thread_pool s' = thread_pool s" "pool_size s' = pool_size s" "queued s' = []"
  | (run) t a s' where "dispatch s = Some (a, s')" "threads_ok s'" "queued s = t # queued s'"
    "current_tid s' = t" "0 < t" "pool_size s' = pool_size s"
    "a = (if tstate (thread_pool s (unat t)) = new then Start (unat t) else Resume (unat t))"
    "thread_pool s' = (thread_pool s)(unat t := (thread_pool s (unat t))\<lparr>tstate := running\<rparr>)"
proof (cases "queued s")
  case Nil
  have inv: "ring_inv (ready_queue s)" using ok(2) by (simp add: queue_ok_def)
  let ?s = "s\<lparr>current_tid := 0, ptr_current_esp := 0\<rparr>"
  have "dispatch s = Some (Resume 0, ?s)"
    using rq.poll_empty [OF inv Nil] by (simp add: dispatch_def)
  moreover have "threads_ok ?s"
    using ok by (auto simp: threads_ok_def pool_ok_def queue_ok_def current_ok_def none_running_def waiting_def)
  ultimately show ?thesis using idle [of ?s] Nil by simp
next
  case (Cons t ts)
  have inv: "ring_inv (ready_queue s)" using ok(2) by (simp add: queue_ok_def)
  obtain q where q: "queue_poll (ready_queue s) = Some (t, q)" "ring_inv q" "ring_items q = ts"
    "ring_cap q = ring_cap (ready_queue s)"
    using rq.poll_item [OF inv Cons] by blast
  have t: "0 < t" "t < pool_size s" "waiting s (unat t)" using queuedD [OF ok(2)] Cons by auto
  have tid: "TID (thread_pool s (unat t)) = t" using ok(1) unat_posD [OF t(1)] unat_lessD [OF t(2)] by (simp add: pool_ok_def)
  let ?tc = "(thread_pool s (unat t))\<lparr>tstate := running\<rparr>"
  let ?s = "(set_tcb (s\<lparr>ready_queue := q\<rparr>) (unat t) ?tc)\<lparr>current_tid := t, ptr_current_esp := unat t\<rparr>"
  have d: "dispatch s = Some (if tstate (thread_pool s (unat t)) = new then Start (unat t) else Resume (unat t), ?s)"
    using q t tid by (auto simp: dispatch_def Let_def)
  have wait: "waiting ?s i \<longleftrightarrow> waiting s i \<and> i \<noteq> unat t" for i by (auto simp: waiting_def)
  have "distinct (t # ts)" "set (t # ts) = {u. 0 < u \<and> u < pool_size s \<and> waiting s (unat u)}"
    using ok(2) Cons by (auto simp: queue_ok_def)
  moreover have "{u. 0 < u \<and> u < pool_size s \<and> waiting ?s (unat u)}
      = {u. 0 < u \<and> u < pool_size s \<and> waiting s (unat u)} - {t}"
    unfolding wait by (auto simp: unat_same)
  ultimately have "distinct ts" "set ts = {u. 0 < u \<and> u < pool_size s \<and> waiting ?s (unat u)}"
    by auto
  then have "queue_ok ?s" using ok(2) q(2-4) unfolding queue_ok_def by simp
  moreover have "pool_ok ?s" using ok(1) tid by (auto simp: pool_ok_def)
  moreover have "current_ok ?s" using ok(3) t by (auto simp: current_ok_def none_running_def)
  ultimately have "threads_ok ?s" by (simp add: threads_ok_def)
  then show ?thesis using run [OF d, of t] Cons q t by simp
qed

text \<open>What the two ways into the scheduler do.\<close>

lemma threads_ok_esp: "threads_ok s \<Longrightarrow> threads_ok (set_tcb s i ((thread_pool s i)\<lparr>esp := e\<rparr>))"
  by (auto simp: threads_ok_def pool_ok_def queue_ok_def current_ok_def waiting_def cong: conj_cong)

lemma stash_cases:
  assumes "threads_ok s"
  obtains (idle) s' where "stash s e = Some (Resume 0, s')" "threads_ok s'" "current_tid s' = 0"
    "current_tid s = 0" "queued s = []" "queued s' = []" "pool_size s' = pool_size s"
  | (run) a s' where "stash s e = Some (a, s')" "threads_ok s'" "0 < current_tid s'"
    "a = Start (unat (current_tid s')) \<or> a = Resume (unat (current_tid s'))"
    "queued s @ (if current_tid s = 0 then [] else [current_tid s]) = current_tid s' # queued s'"
    "pool_size s' = pool_size s"
proof -
  let ?s0 = "set_tcb s (ptr_current_esp s) ((thread_pool s (ptr_current_esp s))\<lparr>esp := e\<rparr>)"
  obtain s1 where "enqueue_current ?s0 = Some s1" "pool_ok s1" "queue_ok s1" "none_running s1"
    "pool_size s1 = pool_size ?s0" "current_tid s1 = current_tid ?s0"
    "queued s1 = queued ?s0 @ (if current_tid ?s0 = 0 then [] else [current_tid ?s0])"
    by (rule enqueue_current_ok [OF threads_ok_esp [OF assms, of "ptr_current_esp s" e]])
  note s1 = this [unfolded set_tcb_simps]
  have eq: "stash s e = dispatch s1" by (simp add: stash_def schedule_def s1(1))
  show thesis
    using s1(2,3,4)
  proof (cases rule: dispatch_ok)
    case (idle s')
    then show ?thesis using that(1) [of s'] eq s1(5,7) by (auto split: if_splits)
  next
    case (run t a s')
    then show ?thesis using that(2) [of a s'] eq s1(5,7) by auto
  qed
qed

lemma finish_cases:
  assumes ok: "threads_ok s" and c: "current_tid s \<noteq> 0"
  obtains (idle) p s' where "finish s = Some (p, Resume 0, s')" "threads_ok s'" "current_tid s' = 0"
    "queued s = []" "queued s' = []" "pool_size s' = pool_size s"
  | (run) p a s' where "finish s = Some (p, a, s')" "threads_ok s'" "0 < current_tid s'"
    "a = Start (unat (current_tid s')) \<or> a = Resume (unat (current_tid s'))"
    "queued s = current_tid s' # queued s'" "pool_size s' = pool_size s"
proof -
  let ?c = "unat (current_tid s)"
  let ?s0 = "(set_tcb s ?c ((thread_pool s ?c)\<lparr>tstate := empty\<rparr>))\<lparr>current_tid := 0\<rparr>"
  have cur: "current_tid s < pool_size s" "tstate (thread_pool s ?c) = running"
    using ok c by (auto simp: threads_ok_def current_ok_def word_neq_0_conv dest: unat_posD unat_lessD)
  have "enqueue_current ?s0 = Some ?s0" by (simp add: enqueue_current_def)
  moreover have "waiting ?s0 i \<longleftrightarrow> waiting s i" for i using cur(2) by (auto simp: waiting_def)
  then have "pool_ok ?s0" "queue_ok ?s0" "none_running ?s0"
    using ok by (auto simp: threads_ok_def pool_ok_def queue_ok_def current_ok_def none_running_def)
  ultimately have eq: "finish s = do { (a, s2) \<leftarrow> dispatch ?s0; Some (stack (thread_pool s ?c), a, s2) }"
    and *: "pool_ok ?s0" "queue_ok ?s0" "none_running ?s0"
    using cur(1) by (simp_all add: finish_def schedule_def Let_def)
  show thesis
    using *
  proof (cases rule: dispatch_ok)
    case (idle s')
    then show ?thesis using that(1) [of _ s'] eq by auto
  next
    case (run t a s')
    then show ?thesis using that(2) [of _ a s'] eq by auto
  qed
qed

interpretation et: linear_search "\<lambda>i. tstate (pool i) = empty" Some None "find_empty pool" for pool
  by unfold_locales auto

lemma thread_create_ok:
  assumes ok: "threads_ok s" and c: "thread_create fin s f stk = Some (r, s')"
  shows "threads_ok s'" "r = 0 \<and> s' = s \<or> 0 < r \<and> r < pool_size s \<and> queued s' = queued s @ [r]
    \<and> tstate (thread_pool s (unat r)) = empty \<and> tstate (thread_pool s' (unat r)) = new"
proof -
  have P: "0 < pool_size s" using ok by (simp add: threads_ok_def pool_ok_def)
  have "threads_ok s' \<and> (r = 0 \<and> s' = s \<or> 0 < r \<and> r < pool_size s \<and> queued s' = queued s @ [r]
    \<and> tstate (thread_pool s (unat r)) = empty \<and> tstate (thread_pool s' (unat r)) = new)"
  proof (cases "stk = 0 \<or> find_empty (thread_pool s) 1 (unat (pool_size s) - 1) = None")
    case True
    then have "r = 0 \<and> s' = s"
      using c P by (auto simp: thread_create_def split: option.splits if_splits)
    then show ?thesis using ok by simp
  next
    case False
    then obtain i where i: "find_empty (thread_pool s) 1 (unat (pool_size s) - 1) = Some i"
      "tstate (thread_pool s i) = empty" "1 \<le> i" "i < 1 + (unat (pool_size s) - 1)"
      by (cases rule: et.loop_cases [of "thread_pool s" 1 "unat (pool_size s) - 1"]) auto
    let ?t = "of_nat i :: 32 word"
    have u: "unat ?t = i" and lt: "0 < ?t" "?t < pool_size s"
    proof -
      have "i < 2 ^ 32" using i(4) unsigned_less [of "pool_size s", where ?'a = nat] by simp
      then show u: "unat ?t = i" by (simp add: unat_of_nat)
      show "0 < ?t" "?t < pool_size s" using i(3,4) u by (simp_all add: word_less_nat_alt)
    qed
    let ?m = "(stack_mem s)(stk + STACK_SIZE - 4 := fin, stk + STACK_SIZE - 4 - 4 := f)"
    let ?tc = "(thread_pool s i)\<lparr>tstate := new, stack := stk, esp := stk + STACK_SIZE - 4 - 4\<rparr>"
    have "pool_ok (s\<lparr>stack_mem := ?m\<rparr>)" "queue_ok (s\<lparr>stack_mem := ?m\<rparr>)"
      using ok by (auto simp: threads_ok_def pool_ok_def queue_ok_def waiting_def)
    moreover have "\<not> waiting (s\<lparr>stack_mem := ?m\<rparr>) (unat ?t)" using i(2) u by (simp add: waiting_def)
    moreover have "TID ?tc = ?t" using ok i(3,4) by (simp add: threads_ok_def pool_ok_def)
    ultimately obtain q where q: "queue_add (ready_queue s) ?t = Some (1, q)"
      "pool_ok ((set_tcb (s\<lparr>stack_mem := ?m\<rparr>) i ?tc)\<lparr>ready_queue := q\<rparr>)"
      "queue_ok ((set_tcb (s\<lparr>stack_mem := ?m\<rparr>) i ?tc)\<lparr>ready_queue := q\<rparr>)"
      "ring_items q = queued s @ [?t]"
      using enqueue_tcb [of "s\<lparr>stack_mem := ?m\<rparr>" ?t ?tc] lt u by auto
    have eq: "r = ?t \<and> s' = (set_tcb (s\<lparr>stack_mem := ?m\<rparr>) i ?tc)\<lparr>ready_queue := q\<rparr>"
      using c i(1) False q(1) by (auto simp: thread_create_def Let_def)
    have "0 < i" "i < unat (pool_size s)" using i(3,4) by simp_all
    then have "tstate (thread_pool s i) = running \<longleftrightarrow> i = unat (current_tid s)"
      using ok by (simp add: threads_ok_def current_ok_def)
    then have "i \<noteq> unat (current_tid s)" using i(2) by simp
    then have "current_ok s'" using ok i(2) eq by (auto simp: threads_ok_def current_ok_def)
    then show ?thesis using eq q lt u i(2) by (simp add: threads_ok_def)
  qed
  then show "threads_ok s'" "r = 0 \<and> s' = s \<or> 0 < r \<and> r < pool_size s \<and> queued s' = queued s @ [r]
    \<and> tstate (thread_pool s (unat r)) = empty \<and> tstate (thread_pool s' (unat r)) = new" by blast+
qed

section \<open>Properties\<close>

lemma thread_state_split:
  assumes "threads_ok s" "0 < t" "t < pool_size s"
  shows "tstate (thread_pool s (unat t)) \<noteq> empty \<longleftrightarrow> t = current_tid s \<or> t \<in> set (queued s)"
proof -
  have "tstate (thread_pool s (unat t)) = running \<longleftrightarrow> t = current_tid s"
    using assms unat_posD [OF assms(2)] unat_lessD [OF assms(3)]
    by (auto simp: threads_ok_def current_ok_def unat_same)
  moreover have "t \<in> set (queued s) \<longleftrightarrow> waiting s (unat t)"
    using assms by (simp add: threads_ok_def queue_ok_def)
  ultimately show ?thesis
    by (cases "tstate (thread_pool s (unat t))") (auto simp: waiting_def)
qed

lemma init_pool_same: "j < i \<or> i + n \<le> j \<Longrightarrow> init_pool pool i n j = pool j"
  by (induction n arbitrary: i pool) auto

lemma init_pool_set:
  "i \<le> j \<Longrightarrow> j < i + n \<Longrightarrow> init_pool pool i n j = (pool j)\<lparr>TID := of_nat j, tstate := empty\<rparr>"
proof (induction n arbitrary: i pool)
  case (Suc n)
  show ?case
  proof (cases "i = j")
    case True
    then show ?thesis by (simp add: init_pool_same)
  next
    case False
    then show ?thesis using Suc.IH [of "Suc i"] Suc.prems by simp
  qed
qed simp

lemma init_thread_ok:
  assumes "queue n = Some q" "ring_inv q" "ring_items q = []" "ring_cap q = unat n" "0 < n"
  shows "\<exists>s. init_thread pool m queue n = Some s \<and> threads_ok s \<and> queued s = [] \<and> pool_size s = n"
proof -
  have p: "init_pool pool 1 (unat n - 1) i = (pool i)\<lparr>TID := of_nat i, tstate := empty\<rparr>"
    if "0 < i" "i < unat n" for i
    using that by (intro init_pool_set) auto
  have e: "\<not> (0 < t \<and> t < n \<and> tstate (init_pool pool 1 (unat n - 1) (unat t)) = x)" if "x \<noteq> empty" for t x
    using p [of "unat t"] that unat_posD [of t] unat_lessD [of t n] by auto
  show ?thesis
    using assms p e [of new] e [of ready]
    by (auto simp: init_thread_def threads_ok_def pool_ok_def queue_ok_def current_ok_def waiting_def)
qed

text \<open>A pool of three with thread 1 running and thread 2 waiting.\<close>

definition sample_threads :: threads where
  "sample_threads = \<lparr>current_tid = 1, ptr_current_esp = 1, pool_size = 3,
     thread_pool = (\<lambda>i. \<lparr>TID = of_nat i, tstate = (if i = 1 then running else if i = 2 then ready else empty),
                          stack = 0x9000, esp = 0x9FF8\<rparr>),
     ready_queue = \<lparr>elements = [2, 0, 0, 0], qsize = 4, head = 0, tail = 1\<rparr>, stack_mem = (\<lambda>_. 0)\<rparr>"

lemma sample_threads_queue: "queued sample_threads = [2]"
  by (simp add: sample_threads_def ring_items_def ring_count_def ring_slot_def word_le_nat_alt upt_rec)

lemma sample_threads_ok: "threads_ok sample_threads"
proof -
  have "{t. 0 < t \<and> t < pool_size sample_threads \<and> waiting sample_threads (unat t)} = {2}"
  proof (intro equalityI subsetI)
    fix t assume "t \<in> {t. 0 < t \<and> t < pool_size sample_threads \<and> waiting sample_threads (unat t)}"
    then have "unat t = 2" by (auto simp: waiting_def sample_threads_def split: if_splits)
    then show "t \<in> {2}" using unat_same [of t 2] by simp
  qed (auto simp: waiting_def sample_threads_def word_less_nat_alt)
  then have "queue_ok sample_threads"
    unfolding queue_ok_def sample_threads_queue
    by (simp add: sample_threads_def ring_inv_def ring_cap_def word_less_nat_alt)
  moreover have "current_ok sample_threads"
    by (simp add: current_ok_def sample_threads_def word_less_nat_alt)
  ultimately show ?thesis
    by (simp add: threads_ok_def pool_ok_def sample_threads_def)
qed

fun run_stash :: "threads \<Rightarrow> 32 word list \<Rightarrow> threads option" where
  "run_stash s [] = Some s"
| "run_stash s (e # es) = do { (a, s') \<leftarrow> stash s e; run_stash s' es }"

text \<open>\<^verbatim>\<open>init\<close> returns from its \<^verbatim>\<open>yield\<close> only after all threads have ended: whenever the
  scheduler, entered by a yield, a timer interrupt or the end of a thread, resumes the main
  thread, no other entry of the pool is in use.\<close>

theorem main_resumes_last:
  assumes "threads_ok s"
    "stash s e = Some (Resume 0, s') \<or> current_tid s \<noteq> 0 \<and> finish s = Some (p, Resume 0, s')"
    "0 < t" "t < pool_size s"
  shows "tstate (thread_pool s' (unat t)) = empty"
proof -
  have "threads_ok s' \<and> current_tid s' = 0 \<and> queued s' = [] \<and> pool_size s' = pool_size s"
    using assms(2)
  proof
    assume st: "stash s e = Some (Resume 0, s')"
    from assms(1) show ?thesis
      by (cases rule: stash_cases [where e = e]) (use st in \<open>auto dest: unat_posD\<close>)
  next
    assume fi: "current_tid s \<noteq> 0 \<and> finish s = Some (p, Resume 0, s')"
    from assms(1) conjunct1 [OF fi] show ?thesis
      by (cases rule: finish_cases) (use fi in \<open>auto dest: unat_posD\<close>)
  qed
  then show ?thesis using thread_state_split [of s' t] assms(3,4) by auto
qed

definition sample_idle :: threads where
  "sample_idle = sample_threads\<lparr>current_tid := 0, ptr_current_esp := 0,
     thread_pool := (\<lambda>i. (thread_pool sample_threads i)\<lparr>tstate := empty\<rparr>),
     ready_queue := \<lparr>elements = [2, 0, 0, 0], qsize = 4, head = 1, tail = 1\<rparr>\<rparr>"

lemma sample_idle_ok: "threads_ok sample_idle"
  by (simp add: sample_idle_def sample_threads_def threads_ok_def pool_ok_def queue_ok_def current_ok_def
      waiting_def ring_inv_def ring_cap_def ring_items_def ring_count_def word_less_nat_alt)

lemma sample_idle_stash: "\<exists>s'. stash sample_idle 0x8000 = Some (Resume 0, s')"
  by (simp add: stash_def schedule_def enqueue_current_def dispatch_def queue_poll_def queue_isEmpty_def
      sample_idle_def sample_threads_def)

theorem main_resumes_last_witness:
  "\<exists>s'. stash sample_idle 0x8000 = Some (Resume 0, s') \<and> tstate (thread_pool s' (unat (2 :: 32 word))) = empty"
proof -
  obtain s' where s': "stash sample_idle 0x8000 = Some (Resume 0, s')" using sample_idle_stash by blast
  have "(2 :: 32 word) < pool_size sample_idle"
    by (simp add: sample_idle_def sample_threads_def word_less_nat_alt)
  then show ?thesis using main_resumes_last [OF sample_idle_ok disjI1 [OF s'], of 2] s' by simp
qed

text \<open>C19: round robin.  A thread at position \<open>k\<close> of the ready queue runs after \<open>k + 1\<close>
  switches, if no thread ends or is created meanwhile, and those switches all succeed.\<close>

theorem round_robin:
  assumes "threads_ok s" "k < length (ring_items (ready_queue s))" "length es = Suc k"
  shows "\<exists>s'. run_stash s es = Some s' \<and> current_tid s' = ring_items (ready_queue s) ! k \<and> threads_ok s'"
  using assms
proof (induction k arbitrary: s es)
  case (0 s es)
  then obtain e where es: "es = [e]" by (auto simp: length_Suc_conv)
  from 0(1) show ?case
  proof (cases rule: stash_cases [where e = e])
    case (idle s')
    then show ?thesis using 0(2) by simp
  next
    case (run a s1)
    have "(queued s @ (if current_tid s = 0 then [] else [current_tid s])) ! 0 = current_tid s1"
      unfolding run(5) by simp
    then have "queued s ! 0 = current_tid s1" using 0(2) by (simp add: nth_append del: ring_length)
    then show ?thesis using run(1,2) es by simp
  qed
next
  case (Suc k s es)
  then obtain e es' where es: "es = e # es'" "length es' = Suc k" by (auto simp: length_Suc_conv)
  from Suc.prems(1) show ?case
  proof (cases rule: stash_cases [where e = e])
    case (idle s')
    then show ?thesis using Suc.prems(2) by simp
  next
    case (run a s1)
    have "(queued s @ (if current_tid s = 0 then [] else [current_tid s])) ! Suc k = queued s1 ! k"
      unfolding run(5) by simp
    then have nth: "queued s1 ! k = queued s ! Suc k"
      using Suc.prems(2) by (simp add: nth_append del: ring_length)
    have "length (queued s) \<le> Suc (length (queued s1))"
      using arg_cong [OF run(5), of length] by (simp split: if_splits)
    then have "k < length (queued s1)" using Suc.prems(2) by simp
    from Suc.IH [OF run(2) this es(2)] show ?thesis using run(1) es nth by simp
  qed
qed

theorem round_robin_witness:
  "\<exists>s'. run_stash sample_threads [0x9F00] = Some s' \<and> current_tid s' = 2"
  using round_robin [OF sample_threads_ok, of 0 "[0x9F00]"] unfolding sample_threads_queue by auto

text \<open>The first stack frame of a new thread.  When \<^verbatim>\<open>thread_create\<close> returns a number
  other than 0, that entry was empty and is now new and queued last; its saved stack
  pointer lies inside the allocated stack and points at the address of the thread's
  function, which \<^verbatim>\<open>start\<close> pops, with the address of \<^verbatim>\<open>finish\<close> above it, to which the
  function returns.\<close>

theorem thread_create_frame:
  assumes "threads_ok s" "thread_create fin s f stk = Some (r, s')" "r \<noteq> 0" "unat stk + 4096 \<le> 2 ^ 32"
  shows "r < pool_size s \<and> tstate (thread_pool s (unat r)) = empty \<and> tstate (thread_pool s' (unat r)) = new
    \<and> ring_items (ready_queue s') = ring_items (ready_queue s) @ [r]
    \<and> unat (esp (thread_pool s' (unat r))) = unat stk + 4088
    \<and> stack_mem s' (esp (thread_pool s' (unat r))) = f
    \<and> stack_mem s' (esp (thread_pool s' (unat r)) + 4) = fin"
proof -
  note c = thread_create_ok [OF assms(1,2)]
  have r: "0 < r" "r < pool_size s" using c(2) assms(3) by auto
  from assms(2,3) obtain i where i: "r = of_nat i" "i < unat (pool_size s)" "esp (thread_pool s' i) = stk + STACK_SIZE - 4 - 4"
    "stack_mem s' = (stack_mem s)(stk + STACK_SIZE - 4 := fin, stk + STACK_SIZE - 4 - 4 := f)"
    by (cases rule: et.loop_cases [of "thread_pool s" 1 "unat (pool_size s) - 1"])
      (auto simp: thread_create_def Let_def bind_eq_Some_conv split: option.splits if_splits)
  have "i < 2 ^ 32" using i(2) unsigned_less [of "pool_size s", where ?'a = nat] by simp
  then have "unat r = i" by (simp add: i(1) unat_of_nat)
  moreover have "unat (stk + STACK_SIZE - 4 - 4) = unat stk + 4088"
  proof -
    have "stk + STACK_SIZE - 4 - 4 = stk + 4088" by simp
    then show ?thesis using assms(4) by (simp add: unat_word_ariths)
  qed
  ultimately show ?thesis using c(2) assms(3) i(3,4) by auto
qed

lemma sample_create: "\<exists>s'. thread_create 0x2000 sample_idle 0x3000 0x8000 = Some (1, s')"
proof -
  have "find_empty (thread_pool sample_idle) 1 2 = Some 1"
    by (rule et.loop_hit) (auto simp: sample_idle_def)
  then show ?thesis
    by (simp add: thread_create_def queue_add_def queue_isFull_def sample_idle_def sample_threads_def Let_def)
qed

theorem thread_create_frame_witness:
  "\<exists>s'. thread_create 0x2000 sample_idle 0x3000 0x8000 = Some (1, s') \<and> unat (esp (thread_pool s' 1)) = 0x8FF8"
proof -
  obtain s' where s': "thread_create 0x2000 sample_idle 0x3000 0x8000 = Some (1, s')"
    using sample_create by blast
  show ?thesis using thread_create_frame [OF sample_idle_ok s'] s' by simp
qed

end
