(* ===== verification/Fifos_Race.thy ===== *)
theory Fifos_Race
  imports Fifos_Thread
begin

text \<open>
  Timer interrupts inside \<^verbatim>\<open>finish\<close> (\<^verbatim>\<open>FileSystem-v3/thread.c\<close>).  A thread runs with
  interrupts enabled and neither \<^verbatim>\<open>finish\<close> nor the \<^verbatim>\<open>trap\<close> it ends with disables them, so
  the end of a thread is not one step.  Here it is cut where an interrupt is harmful: after
  \<^verbatim>\<open>state = empty\<close>, after \<^verbatim>\<open>current_tid = 0\<close>, and after \<^verbatim>\<open>schedule\<close> has taken the next
  thread off the ready queue.  An interrupt in a thread can be returned from; one after
  \<^verbatim>\<open>current_tid = 0\<close> cannot, as the thread that it interrupts is in no queue.
\<close>

section \<open>The parts of \<^verbatim>\<open>finish\<close>\<close>

definition finish_mark :: "threads \<Rightarrow> threads option" where
  "finish_mark s =
     (if current_tid s < pool_size s
      then let c = unat (current_tid s) in
        Some (set_tcb s c ((thread_pool s c)\<lparr>tstate := empty\<rparr>))
      else None)"

definition finish_leave :: "threads \<Rightarrow> (32 word \<times> threads) option" where
  "finish_leave s =
     (if current_tid s < pool_size s
      then Some (stack (thread_pool s (unat (current_tid s))), s\<lparr>current_tid := 0\<rparr>)
      else None)"

definition poll_next :: "threads \<Rightarrow> (32 word \<times> threads) option" where
  "poll_next s = do { (t, q) \<leftarrow> queue_poll (ready_queue s); Some (t, s\<lparr>ready_queue := q\<rparr>) }"

definition run_polled :: "32 word \<Rightarrow> threads \<Rightarrow> (control \<times> threads) option" where
  "run_polled t s =
     (if t = 0 then Some (Resume 0, s\<lparr>current_tid := 0, ptr_current_esp := 0\<rparr>)
      else if t < pool_size s
      then do {
        let i = unat t;
        let state = tstate (thread_pool s i);
        let s' = (set_tcb s i ((thread_pool s i)\<lparr>tstate := running\<rparr>))
                   \<lparr>current_tid := TID (thread_pool s i), ptr_current_esp := i\<rparr>;
        Some (if state = new then Start i else Resume i, s')
      }
      else None)"

lemma dispatch_parts: "dispatch s = do { (t, s1) \<leftarrow> poll_next s; run_polled t s1 }"
  by (cases "queue_poll (ready_queue s)")
    (auto simp: dispatch_def poll_next_def run_polled_def Let_def split: prod.splits)

lemma finish_parts:
  "finish s = do {
     s1 \<leftarrow> finish_mark s;
     (p, s2) \<leftarrow> finish_leave s1;
     (t, s3) \<leftarrow> poll_next s2;
     (a, s4) \<leftarrow> run_polled t s3;
     Some (p, a, s4)
   }"
  by (cases "poll_next ((set_tcb s (unat (current_tid s))
        ((thread_pool s (unat (current_tid s)))\<lparr>tstate := empty\<rparr>))\<lparr>current_tid := 0\<rparr>)")
    (auto simp: finish_def finish_mark_def finish_leave_def schedule_def enqueue_current_def
      dispatch_parts Let_def split: prod.splits)

section \<open>The transition system\<close>

text \<open>Where the processor is: in a thread, in \<^verbatim>\<open>trap\<close> after \<^verbatim>\<open>current_tid = 0\<close>, or in
  \<^verbatim>\<open>schedule\<close> with the thread that was at the front of the queue.  The set holds the threads
  that are inside \<^verbatim>\<open>finish\<close>, after its first statement.\<close>

datatype phase = InThread | Leaving | Polled "32 word"

inductive race_step :: "threads \<times> 32 word set \<times> phase \<Rightarrow> threads \<times> 32 word set \<times> phase \<Rightarrow> bool" where
  tick: "stash s e = Some (a, s') \<Longrightarrow> race_step (s, E, ph) (s', E, InThread)"
| mark: "current_tid s \<noteq> 0 \<Longrightarrow> current_tid s \<notin> E \<Longrightarrow> finish_mark s = Some s' \<Longrightarrow>
    race_step (s, E, InThread) (s', insert (current_tid s) E, InThread)"
| leave: "current_tid s \<in> E \<Longrightarrow> finish_leave s = Some (p, s') \<Longrightarrow>
    race_step (s, E, InThread) (s', E - {current_tid s}, Leaving)"
| poll: "poll_next s = Some (t, s') \<Longrightarrow> race_step (s, E, Leaving) (s', E, Polled t)"
| run: "run_polled t s = Some (a, s') \<Longrightarrow> race_step (s, E, Polled t) (s', E, InThread)"
| create: "current_tid s \<notin> E \<Longrightarrow> thread_create fin s f stk = Some (r, s') \<Longrightarrow>
    race_step (s, E, InThread) (s', E, InThread)"

inductive_cases race_stepE: "race_step c c'"

text \<open>What the interrupts leave of the invariant.\<close>

fun phase_ok :: "threads \<Rightarrow> 32 word set \<Rightarrow> phase \<Rightarrow> bool" where
  "phase_ok s E InThread \<longleftrightarrow> (current_tid s \<noteq> 0 \<longrightarrow>
     tstate (thread_pool s (unat (current_tid s))) = running
     \<or> tstate (thread_pool s (unat (current_tid s))) = empty \<and> current_tid s \<in> E)"
| "phase_ok s E Leaving \<longleftrightarrow> current_tid s = 0"
| "phase_ok s E (Polled t) \<longleftrightarrow> current_tid s = 0 \<and> t \<notin> set (queued s)
     \<and> (t \<noteq> 0 \<longrightarrow> t < pool_size s \<and> waiting s (unat t))"

definition race_ok :: "threads \<times> 32 word set \<times> phase \<Rightarrow> bool" where
  "race_ok = (\<lambda>(s, E, ph). pool_ok s \<and> queue_sound s \<and> current_tid s < pool_size s \<and> phase_ok s E ph)"

text \<open>A thread that exists and will not run again: nothing that the scheduler looks at
  refers to it.\<close>

definition lost :: "32 word \<Rightarrow> threads \<times> 32 word set \<times> phase \<Rightarrow> bool" where
  "lost t = (\<lambda>(s, E, ph). 0 < t \<and> t < pool_size s \<and> tstate (thread_pool s (unat t)) \<noteq> empty
     \<and> t \<noteq> current_tid s \<and> t \<notin> set (queued s) \<and> ph \<noteq> Polled t)"


section \<open>The operations on a sound queue\<close>

text \<open>What the steps keep: the layout of the pool and the queue, and its size.\<close>

definition sound :: "threads \<Rightarrow> bool" where
  "sound s \<longleftrightarrow> pool_ok s \<and> queue_sound s"

lemma sound_set_tcb:
  assumes "sound s" "TID tc = TID (thread_pool s i)"
    "\<And>t. t \<in> set (queued s) \<Longrightarrow> unat t = i \<Longrightarrow> tstate tc = tstate (thread_pool s i)"
  shows "sound (set_tcb s i tc)"
proof -
  have "waiting (set_tcb s i tc) (unat t)" if "t \<in> set (queued s)" for t
    using assms(1,3) that by (auto simp: sound_def queue_sound_def waiting_def)
  then show ?thesis using assms by (auto simp: sound_def pool_ok_def queue_sound_def)
qed

lemma enqueue_sound:
  assumes s: "sound s" "current_tid s < pool_size s"
    "current_tid s \<noteq> 0 \<Longrightarrow> \<not> waiting s (unat (current_tid s))"
  obtains s1 where "enqueue_current s = Some s1" "sound s1" "pool_size s1 = pool_size s"
    "queued s1 = queued s @ (if current_tid s = 0 then [] else [current_tid s])"
    "\<And>i. i \<noteq> unat (current_tid s) \<Longrightarrow> tstate (thread_pool s1 i) = tstate (thread_pool s i)"
proof (cases "current_tid s = 0")
  case True
  then show ?thesis using s(1) by (intro that [of s]) (auto simp: enqueue_current_def)
next
  case False
  let ?c = "current_tid s"
  let ?s = "set_tcb s (unat ?c) ((thread_pool s (unat ?c))\<lparr>tstate := ready\<rparr>)"
  have c: "?c \<notin> set (queued s)" using queue_soundD(3) [of s ?c] s(1,3) False by (auto simp: sound_def)
  then have ok: "sound ?s" using s(1) by (intro sound_set_tcb) (auto simp: unat_same)
  obtain q where q: "queue_add (ready_queue ?s) ?c = Some (1, q)" "ring_inv q"
    "ring_items q = queued s @ [?c]" "ring_cap q = ring_cap (ready_queue s)"
    using rq.add_room [of "ready_queue ?s" ?c] queue_room [of ?s] ok by (auto simp: queue_sound_def sound_def)
  let ?s1 = "?s\<lparr>ready_queue := q\<rparr>"
  have "waiting ?s1 i \<longleftrightarrow> waiting s i \<or> i = unat ?c" for i by (auto simp: waiting_def)
  then have "queue_sound ?s1"
    using s(1,2) c q(2-4) False by (auto simp: queue_sound_def sound_def word_neq_0_conv)
  moreover have "pool_ok ?s1" using s(1) by (auto simp: sound_def pool_ok_def)
  moreover have "enqueue_current s = Some ?s1"
    using s(2) q(1) False by (simp add: enqueue_current_def Let_def)
  ultimately show ?thesis using q(3) False by (intro that [of ?s1]) (auto simp: sound_def)
qed

lemma poll_sound:
  assumes s: "sound s"
  obtains t s1 where "poll_next s = Some (t, s1)" "sound s1" "pool_size s1 = pool_size s"
    "current_tid s1 = current_tid s" "thread_pool s1 = thread_pool s" "t \<notin> set (queued s1)"
    "set (queued s) = set (queued s1) \<union> (if t = 0 then {} else {t})"
    "t \<noteq> 0 \<Longrightarrow> t < pool_size s \<and> waiting s (unat t)"
proof (cases "queued s")
  case Nil
  have "ring_inv (ready_queue s)" using s by (simp add: sound_def queue_sound_def)
  then have "poll_next s = Some (0, s)" using rq.poll_empty [of "ready_queue s"] Nil by (simp add: poll_next_def)
  then show ?thesis using s Nil by (intro that [of 0 s]) auto
next
  case (Cons t ts)
  have inv: "ring_inv (ready_queue s)" using s by (simp add: sound_def queue_sound_def)
  obtain q where q: "queue_poll (ready_queue s) = Some (t, q)" "ring_inv q" "ring_items q = ts"
    "ring_cap q = ring_cap (ready_queue s)"
    using rq.poll_item [OF inv Cons] by blast
  have t: "0 < t" "t < pool_size s" "waiting s (unat t)" using queue_soundD [of s t] s Cons by (auto simp: sound_def)
  have "sound (s\<lparr>ready_queue := q\<rparr>)" "t \<notin> set ts"
    using s q(2-4) Cons by (auto simp: sound_def pool_ok_def queue_sound_def waiting_def)
  then show ?thesis
    using q t Cons by (intro that [of t "s\<lparr>ready_queue := q\<rparr>"]) (auto simp: poll_next_def)
qed

lemma run_sound:
  assumes s: "sound s" and t: "t \<notin> set (queued s)" "t \<noteq> 0 \<Longrightarrow> t < pool_size s"
  obtains a s1 where "run_polled t s = Some (a, s1)" "sound s1" "pool_size s1 = pool_size s"
    "current_tid s1 = t" "queued s1 = queued s"
    "\<And>i. i \<noteq> unat t \<Longrightarrow> tstate (thread_pool s1 i) = tstate (thread_pool s i)"
    "t \<noteq> 0 \<Longrightarrow> tstate (thread_pool s1 (unat t)) = running"
proof (cases "t = 0")
  case True
  let ?s = "s\<lparr>current_tid := 0, ptr_current_esp := 0\<rparr>"
  have "sound ?s" using s by (auto simp: sound_def pool_ok_def queue_sound_def waiting_def)
  then show ?thesis using True by (intro that [of "Resume 0" ?s]) (auto simp: run_polled_def)
next
  case False
  let ?i = "unat t"
  let ?s1 = "set_tcb s ?i ((thread_pool s ?i)\<lparr>tstate := running\<rparr>)"
  let ?s = "?s1\<lparr>current_tid := t, ptr_current_esp := ?i\<rparr>"
  have "TID (thread_pool s ?i) = t"
    using s unat_posD [of t] unat_lessD [OF t(2) [OF False]] False
    by (simp add: sound_def pool_ok_def word_neq_0_conv)
  then have "run_polled t s = Some (if tstate (thread_pool s ?i) = new then Start ?i else Resume ?i, ?s)"
    using False t(2) by (simp add: run_polled_def Let_def)
  moreover have "sound ?s1" using s t(1) by (intro sound_set_tcb) (auto simp: unat_same)
  then have "sound ?s" by (auto simp: sound_def pool_ok_def queue_sound_def waiting_def)
  ultimately show ?thesis using False by (intro that [of _ ?s]) auto
qed

text \<open>A thread that exists, but is neither queued nor current, stays so.\<close>

definition left_out :: "threads \<Rightarrow> 32 word \<Rightarrow> bool" where
  "left_out s t \<longleftrightarrow> 0 < t \<and> t < pool_size s \<and> tstate (thread_pool s (unat t)) \<noteq> empty
     \<and> t \<noteq> current_tid s \<and> t \<notin> set (queued s)"

lemma lost_left_out: "lost t (s, E, ph) \<longleftrightarrow> left_out s t \<and> ph \<noteq> Polled t"
  by (auto simp: lost_def left_out_def)

lemma stash_sound:
  assumes s: "sound s" "current_tid s < pool_size s"
    "current_tid s \<noteq> 0 \<Longrightarrow> \<not> waiting s (unat (current_tid s))"
  obtains a s' where "stash s e = Some (a, s')" "sound s'" "pool_size s' = pool_size s"
    "current_tid s' < pool_size s'" "phase_ok s' E InThread" "\<And>t. left_out s t \<Longrightarrow> left_out s' t"
proof -
  let ?s0 = "set_tcb s (ptr_current_esp s) ((thread_pool s (ptr_current_esp s))\<lparr>esp := e\<rparr>)"
  have s0: "sound ?s0" using s(1) by (intro sound_set_tcb) auto
  have st: "tstate (thread_pool ?s0 i) = tstate (thread_pool s i)" for i by auto
  obtain s1 where s1: "enqueue_current ?s0 = Some s1" "sound s1" "pool_size s1 = pool_size s"
    "queued s1 = queued s @ (if current_tid s = 0 then [] else [current_tid s])"
    "\<And>i. i \<noteq> unat (current_tid s) \<Longrightarrow> tstate (thread_pool s1 i) = tstate (thread_pool s i)"
    by (rule enqueue_sound [OF s0]) (use s st in \<open>auto simp: waiting_def\<close>)
  obtain t s2 where s2: "poll_next s1 = Some (t, s2)" "sound s2" "pool_size s2 = pool_size s1"
    "thread_pool s2 = thread_pool s1" "t \<notin> set (queued s2)"
    "set (queued s1) = set (queued s2) \<union> (if t = 0 then {} else {t})"
    "t \<noteq> 0 \<Longrightarrow> t < pool_size s1 \<and> waiting s1 (unat t)"
    by (rule poll_sound [OF s1(2)], rule that)
  obtain a s3 where s3: "run_polled t s2 = Some (a, s3)" "sound s3" "pool_size s3 = pool_size s2"
    "current_tid s3 = t" "queued s3 = queued s2"
    "\<And>i. i \<noteq> unat t \<Longrightarrow> tstate (thread_pool s3 i) = tstate (thread_pool s2 i)"
    "t \<noteq> 0 \<Longrightarrow> tstate (thread_pool s3 (unat t)) = running"
    by (rule run_sound [OF s2(2,5)]) (use s2(3,7) in auto)
  have "left_out s3 u" if u: "left_out s u" for u
  proof -
    have "u \<noteq> current_tid s" "u \<noteq> t" "u \<notin> set (queued s3)"
      using u s1(4) s2(6) s3(5) by (auto simp: left_out_def split: if_splits)
    then show ?thesis
      using u s1(3,5) s2(3,4) s3(3,4,6) by (simp add: left_out_def unat_same)
  qed
  moreover have "stash s e = Some (a, s3)"
    using s1(1) s2(1) s3(1) by (simp add: stash_def schedule_def dispatch_parts)
  moreover have "current_tid s3 < pool_size s3"
    using s2(3,7) s3(3,4) s(2) s1(3) by (cases "t = 0") (auto simp: word_neq_0_conv [symmetric])
  moreover have "phase_ok s3 E InThread" using s3(4,7) by auto
  ultimately show ?thesis using s3(2,3) s2(3) s1(3) that by simp
qed

lemma create_sound:
  assumes s: "sound s" "0 < pool_size s" and c: "thread_create fin s f stk = Some (r, s')"
  shows "sound s' \<and> pool_size s' = pool_size s \<and> current_tid s' = current_tid s
    \<and> (\<forall>i. tstate (thread_pool s i) \<noteq> empty \<longrightarrow> tstate (thread_pool s' i) = tstate (thread_pool s i))
    \<and> (\<forall>t\<in>set (queued s'). t \<in> set (queued s) \<or> tstate (thread_pool s (unat t)) = empty)"
proof (cases "stk = 0 \<or> find_empty (thread_pool s) 1 (unat (pool_size s) - 1) = None")
  case True
  then have "s' = s" using c s(2) by (auto simp: thread_create_def split: option.splits if_splits)
  then show ?thesis using s(1) by simp
next
  case False
  then obtain i where i: "find_empty (thread_pool s) 1 (unat (pool_size s) - 1) = Some i"
    "tstate (thread_pool s i) = empty" "1 \<le> i" "i < 1 + (unat (pool_size s) - 1)"
    by (cases rule: et.loop_cases [of "thread_pool s" 1 "unat (pool_size s) - 1"]) auto
  let ?t = "of_nat i :: 32 word"
  have "i < 2 ^ 32" using i(4) unsigned_less [of "pool_size s", where ?'a = nat] by simp
  then have u: "unat ?t = i" by (simp add: unat_of_nat)
  then have lt: "0 < ?t" "?t < pool_size s" using i(3,4) by (simp_all add: word_less_nat_alt)
  let ?m = "(stack_mem s)(stk + STACK_SIZE - 4 := fin, stk + STACK_SIZE - 4 - 4 := f)"
  let ?s = "set_tcb (s\<lparr>stack_mem := ?m\<rparr>) i
    ((thread_pool s i)\<lparr>tstate := new, stack := stk, esp := stk + STACK_SIZE - 4 - 4\<rparr>)"
  have nq: "?t \<notin> set (queued s)" using queue_soundD(3) [of s ?t] s(1) i(2) u by (auto simp: sound_def waiting_def)
  have "sound (s\<lparr>stack_mem := ?m\<rparr>)" using s(1) by (auto simp: sound_def pool_ok_def queue_sound_def waiting_def)
  then have ok: "sound ?s" using nq by (intro sound_set_tcb) auto
  obtain q where q: "queue_add (ready_queue ?s) ?t = Some (1, q)" "ring_inv q"
    "ring_items q = queued s @ [?t]" "ring_cap q = ring_cap (ready_queue s)"
    using rq.add_room [of "ready_queue ?s" ?t] queue_room [of ?s] ok by (auto simp: queue_sound_def sound_def)
  have eq: "s' = ?s\<lparr>ready_queue := q\<rparr>" using c i(1) False q(1) by (auto simp: thread_create_def Let_def)
  have w: "waiting s' j \<longleftrightarrow> waiting s j \<or> j = i" for j using i(2) by (auto simp: eq waiting_def)
  have "queue_sound s'"
    unfolding queue_sound_def w using s(1) nq q(2-4) lt u by (auto simp: eq queue_sound_def sound_def)
  moreover have "pool_ok s'" using s(1) by (auto simp: eq sound_def pool_ok_def)
  ultimately show ?thesis using q(3) i(2) u by (auto simp: eq sound_def)
qed

section \<open>What every step keeps\<close>

definition keeps :: "threads \<times> 32 word set \<times> phase \<Rightarrow> threads \<times> 32 word set \<times> phase \<Rightarrow> bool" where
  "keeps c c' \<longleftrightarrow> race_ok c' \<and> (\<forall>t. lost t c \<longrightarrow> lost t c')"

lemma tick_keeps:
  assumes ok: "race_ok (s, E, ph)" and st: "stash s e = Some (a, s')"
  shows "keeps (s, E, ph) (s', E, InThread)"
proof -
  have "sound s" "current_tid s < pool_size s" and ph: "phase_ok s E ph"
    using ok by (simp_all add: race_ok_def sound_def)
  moreover have "\<not> waiting s (unat (current_tid s))" if "current_tid s \<noteq> 0"
    using ph that by (cases ph) (auto simp: waiting_def)
  ultimately obtain "sound s'" "current_tid s' < pool_size s'" "phase_ok s' E InThread"
    "\<And>t. left_out s t \<Longrightarrow> left_out s' t"
    using st stash_sound [of s e E] by (metis option.inject prod.inject)
  then show ?thesis by (simp add: keeps_def race_ok_def sound_def lost_left_out)
qed

lemma mark_keeps:
  assumes ok: "race_ok (s, E, InThread)" and c: "current_tid s \<noteq> 0" "current_tid s \<notin> E"
    and m: "finish_mark s = Some s'"
  shows "keeps (s, E, InThread) (s', insert (current_tid s) E, InThread)"
proof -
  have s: "sound s" "tstate (thread_pool s (unat (current_tid s))) = running"
    using ok c by (auto simp: race_ok_def sound_def)
  have eq: "s' = set_tcb s (unat (current_tid s)) ((thread_pool s (unat (current_tid s)))\<lparr>tstate := empty\<rparr>)"
    using m by (auto simp: finish_mark_def Let_def split: if_splits)
  have "current_tid s \<notin> set (queued s)"
    using queue_soundD(3) [of s "current_tid s"] s by (auto simp: sound_def waiting_def)
  then have "sound s'" unfolding eq using s by (intro sound_set_tcb) (auto simp: unat_same)
  then show ?thesis
    using ok by (auto simp: keeps_def race_ok_def sound_def lost_left_out left_out_def eq unat_same)
qed

lemma leave_keeps:
  assumes ok: "race_ok (s, E, InThread)" and m: "finish_leave s = Some (p, s')"
  shows "keeps (s, E, InThread) (s', F, Leaving)"
proof -
  have eq: "s' = s\<lparr>current_tid := 0\<rparr>" using m by (auto simp: finish_leave_def split: if_splits)
  show ?thesis
    using ok by (auto simp: keeps_def race_ok_def lost_def eq pool_ok_def queue_sound_def waiting_def)
qed

lemma poll_keeps:
  assumes ok: "race_ok (s, E, Leaving)" and m: "poll_next s = Some (t, s')"
  shows "keeps (s, E, Leaving) (s', E, Polled t)"
proof -
  have s: "sound s" "current_tid s = 0" "0 < pool_size s"
    using ok by (auto simp: race_ok_def sound_def pool_ok_def)
  obtain u s1 where "poll_next s = Some (u, s1)" "sound s1" "pool_size s1 = pool_size s"
    "current_tid s1 = current_tid s" "thread_pool s1 = thread_pool s" "u \<notin> set (queued s1)"
    "set (queued s) = set (queued s1) \<union> (if u = 0 then {} else {u})"
    "u \<noteq> 0 \<Longrightarrow> u < pool_size s \<and> waiting s (unat u)"
    by (rule poll_sound [OF s(1)], rule that)
  then show ?thesis
    using m s by (auto simp: keeps_def race_ok_def sound_def lost_def waiting_def split: if_splits)
qed

lemma run_keeps:
  assumes ok: "race_ok (s, E, Polled t)" and m: "run_polled t s = Some (a, s')"
  shows "keeps (s, E, Polled t) (s', E, InThread)"
proof -
  have s: "sound s" "t \<notin> set (queued s)" "t \<noteq> 0 \<Longrightarrow> t < pool_size s"
    using ok by (simp_all add: race_ok_def sound_def)
  obtain b s1 where "run_polled t s = Some (b, s1)" "sound s1" "pool_size s1 = pool_size s" "current_tid s1 = t"
    "queued s1 = queued s" "\<And>i. i \<noteq> unat t \<Longrightarrow> tstate (thread_pool s1 i) = tstate (thread_pool s i)"
    "t \<noteq> 0 \<Longrightarrow> tstate (thread_pool s1 (unat t)) = running"
    by (rule run_sound [OF s], assumption, rule that)
  then show ?thesis
    using m s by (cases "t = 0")
      (auto simp: keeps_def race_ok_def sound_def lost_left_out left_out_def unat_same pool_ok_def dest: unat_posD)
qed

lemma create_keeps:
  assumes ok: "race_ok (s, E, InThread)" and c: "current_tid s \<notin> E" "thread_create fin s f stk = Some (r, s')"
  shows "keeps (s, E, InThread) (s', E, InThread)"
proof -
  have s: "sound s" "0 < pool_size s" "current_tid s < pool_size s"
    "current_tid s \<noteq> 0 \<Longrightarrow> tstate (thread_pool s (unat (current_tid s))) = running"
    using ok c(1) by (auto simp: race_ok_def sound_def pool_ok_def)
  from create_sound [OF s(1,2) c(2)] show ?thesis
    using s(3,4) by (auto simp: keeps_def race_ok_def sound_def lost_left_out left_out_def)
qed

lemma race_step_keeps: "race_step c c' \<Longrightarrow> race_ok c \<Longrightarrow> keeps c c'"
  by (induction rule: race_step.induct)
    (blast intro: tick_keeps mark_keeps leave_keeps poll_keeps run_keeps create_keeps)+

lemma race_steps_keep: "race_step\<^sup>*\<^sup>* c c' \<Longrightarrow> race_ok c \<Longrightarrow> keeps c c'"
proof (induction rule: rtranclp_induct)
  case base
  then show ?case by (simp add: keeps_def)
next
  case (step c' c'')
  have "keeps c c'" using step.IH step.prems .
  moreover from this have "keeps c' c''" using race_step_keeps [OF step.hyps(2)] by (simp add: keeps_def)
  ultimately show ?case by (simp add: keeps_def)
qed

lemma threads_ok_race: "threads_ok s \<Longrightarrow> race_ok (s, {}, InThread)"
  using unat_posD [of "current_tid s"] unat_lessD [of "current_tid s" "pool_size s"]
  by (auto simp: race_ok_def threads_ok_def current_ok_def queue_ok_sound word_neq_0_conv)


section \<open>A thread that returns into \<^verbatim>\<open>finish\<close>\<close>

text \<open>Only the first statement of \<^verbatim>\<open>finish\<close> empties a slot.\<close>

lemma enqueue_nonempty:
  "enqueue_current s = Some s' \<Longrightarrow> tstate (thread_pool s i) \<noteq> empty \<Longrightarrow> tstate (thread_pool s' i) \<noteq> empty"
  by (auto simp: enqueue_current_def Let_def bind_eq_Some_conv split: if_splits)

lemma poll_nonempty: "poll_next s = Some (t, s') \<Longrightarrow> thread_pool s' = thread_pool s"
  by (auto simp: poll_next_def bind_eq_Some_conv)

lemma run_nonempty:
  "run_polled t s = Some (a, s') \<Longrightarrow> tstate (thread_pool s i) \<noteq> empty \<Longrightarrow> tstate (thread_pool s' i) \<noteq> empty"
  by (auto simp: run_polled_def Let_def split: if_splits)

lemma stash_nonempty:
  assumes "stash s e = Some (a, s')" "tstate (thread_pool s i) \<noteq> empty"
  shows "tstate (thread_pool s' i) \<noteq> empty"
proof -
  let ?s = "set_tcb s (ptr_current_esp s) ((thread_pool s (ptr_current_esp s))\<lparr>esp := e\<rparr>)"
  obtain s1 t s2 where "enqueue_current ?s = Some s1" "poll_next s1 = Some (t, s2)" "run_polled t s2 = Some (a, s')"
    using assms(1) by (auto simp: stash_def schedule_def dispatch_parts bind_eq_Some_conv)
  moreover have "tstate (thread_pool ?s i) \<noteq> empty" using assms(2) by auto
  ultimately show ?thesis using enqueue_nonempty poll_nonempty run_nonempty by metis
qed

text \<open>An interrupt makes a slot that was marked as empty the slot of a waiting thread.\<close>

lemma stash_queues_current:
  assumes "stash s e = Some (a, s')" "current_tid s \<noteq> 0"
  shows "tstate (thread_pool s' (unat (current_tid s))) \<noteq> empty"
proof -
  let ?s = "set_tcb s (ptr_current_esp s) ((thread_pool s (ptr_current_esp s))\<lparr>esp := e\<rparr>)"
  obtain s1 t s2 where s1: "enqueue_current ?s = Some s1" "poll_next s1 = Some (t, s2)" "run_polled t s2 = Some (a, s')"
    using assms(1) by (auto simp: stash_def schedule_def dispatch_parts bind_eq_Some_conv)
  have "tstate (thread_pool s1 (unat (current_tid s))) \<noteq> empty"
    using s1(1) assms(2) by (auto simp: enqueue_current_def Let_def bind_eq_Some_conv split: if_splits)
  then show ?thesis using s1(2,3) poll_nonempty run_nonempty by metis
qed

lemma create_nonempty:
  "thread_create fin s f stk = Some (r, s') \<Longrightarrow> tstate (thread_pool s i) \<noteq> empty \<Longrightarrow> tstate (thread_pool s' i) \<noteq> empty"
  by (auto simp: thread_create_def Let_def bind_eq_Some_conv split: option.splits if_splits)

text \<open>A thread that was interrupted after that statement is inside \<^verbatim>\<open>finish\<close> with a slot
  in use, until it goes on; from then on it is lost.\<close>

definition doomed :: "32 word \<Rightarrow> threads \<times> 32 word set \<times> phase \<Rightarrow> bool" where
  "doomed t = (\<lambda>(s, E, ph). t \<noteq> 0 \<and> (t \<in> E \<and> tstate (thread_pool s (unat t)) \<noteq> empty \<or> t \<notin> E \<and> lost t (s, E, ph)))"

lemma leave_lost:
  assumes ok: "race_ok (s, E, InThread)" and c: "current_tid s \<noteq> 0" "tstate (thread_pool s (unat (current_tid s))) \<noteq> empty"
    and m: "finish_leave s = Some (p, s')"
  shows "lost (current_tid s) (s', F, Leaving)"
proof -
  have "current_tid s \<notin> set (queued s)"
    using ok c queue_soundD(3) [of s "current_tid s"] by (auto simp: race_ok_def waiting_def)
  then show ?thesis
    using ok c m by (auto simp: lost_def finish_leave_def race_ok_def word_neq_0_conv split: if_splits)
qed

lemma race_step_doomed:
  assumes "race_step c c'" "race_ok c" "doomed t c"
  shows "doomed t c'"
proof -
  have l: "lost t c \<Longrightarrow> lost t c'" using race_step_keeps [OF assms(1,2)] by (simp add: keeps_def)
  show ?thesis
    using assms l
  proof (induction rule: race_step.induct)
    case (tick s e a s' E ph)
    then show ?case using stash_nonempty [OF tick(1)] by (auto simp: doomed_def)
  next
    case (mark s E s')
    then have "\<not> lost (current_tid s) (s, E, InThread)" by (simp add: lost_def)
    then show ?case
      using mark by (auto simp: doomed_def finish_mark_def Let_def unat_same split: if_splits)
  next
    case (leave s E p s')
    then show ?case
      using leave_lost [OF leave(3) _ _ leave(2)]
      by (cases "t = current_tid s") (auto simp: doomed_def finish_leave_def split: if_splits)
  next
    case (poll s u s' E)
    then show ?case using poll_nonempty [OF poll(1)] by (auto simp: doomed_def)
  next
    case (run u s a s' E)
    then show ?case using run_nonempty [OF run(1)] by (auto simp: doomed_def)
  next
    case (create s E fin f stk r s')
    then show ?case using create_nonempty [OF create(2)] by (auto simp: doomed_def)
  qed
qed

lemma race_steps_doomed: "race_step\<^sup>*\<^sup>* c c' \<Longrightarrow> race_ok c \<Longrightarrow> doomed t c \<Longrightarrow> doomed t c'"
proof (induction rule: rtranclp_induct)
  case (step c' c'')
  then have "race_ok c'" using race_steps_keep by (auto simp: keeps_def)
  then show ?case using step race_step_doomed by blast
qed

section \<open>Steps without an interrupt in \<^verbatim>\<open>finish\<close>\<close>

text \<open>The same steps, when a timer interrupt or a \<^verbatim>\<open>yield\<close> only comes while the running thread is
  in its own code: not in \<^verbatim>\<open>finish\<close> nor in the \<^verbatim>\<open>schedule\<close> that \<^verbatim>\<open>finish\<close> calls.\<close>

inductive calm_step :: "threads \<times> 32 word set \<times> phase \<Rightarrow> threads \<times> 32 word set \<times> phase \<Rightarrow> bool" where
  tick: "stash s e = Some (a, s') \<Longrightarrow> calm_step (s, {}, InThread) (s', {}, InThread)"
| mark: "current_tid s \<noteq> 0 \<Longrightarrow> finish_mark s = Some s' \<Longrightarrow>
    calm_step (s, {}, InThread) (s', {current_tid s}, InThread)"
| leave: "finish_leave s = Some (p, s') \<Longrightarrow> calm_step (s, {current_tid s}, InThread) (s', {}, Leaving)"
| poll: "poll_next s = Some (t, s') \<Longrightarrow> calm_step (s, {}, Leaving) (s', {}, Polled t)"
| run: "run_polled t s = Some (a, s') \<Longrightarrow> calm_step (s, {}, Polled t) (s', {}, InThread)"
| create: "thread_create fin s f stk = Some (r, s') \<Longrightarrow> calm_step (s, {}, InThread) (s', {}, InThread)"

lemma calm_is_race: "calm_step c c' \<Longrightarrow> race_step c c'"
proof (induction rule: calm_step.induct)
  case (mark s s')
  then show ?case using race_step.mark [of s "{}" s'] by simp
next
  case (leave s p s')
  then show ?case using race_step.leave [of s "{current_tid s}" p s'] by simp
qed (auto intro: race_step.intros)

lemma race_step_size: "race_step c c' \<Longrightarrow> pool_size (fst c') = pool_size (fst c)"
proof (induction rule: race_step.induct)
  case (tick s e a s' E ph)
  then show ?case
    by (auto simp: stash_def schedule_def enqueue_current_def dispatch_def Let_def bind_eq_Some_conv split: if_splits)
next
  case (create s E fin f stk r s')
  then show ?case by (auto simp: thread_create_def Let_def bind_eq_Some_conv split: option.splits if_splits)
qed (auto simp: finish_mark_def finish_leave_def poll_next_def run_polled_def Let_def bind_eq_Some_conv split: if_splits)

lemma calm_steps_size: "calm_step\<^sup>*\<^sup>* c c' \<Longrightarrow> pool_size (fst c') = pool_size (fst c)"
  by (induction rule: rtranclp_induct) (use race_step_size calm_is_race in fastforce)+

text \<open>Between the parts of \<^verbatim>\<open>finish\<close> the state is that of an invariant state, so far advanced.\<close>

inductive calm_ok :: "threads \<times> 32 word set \<times> phase \<Rightarrow> bool" where
  thread: "threads_ok s \<Longrightarrow> calm_ok (s, {}, InThread)"
| marked: "threads_ok s0 \<Longrightarrow> current_tid s0 \<noteq> 0 \<Longrightarrow> finish_mark s0 = Some s \<Longrightarrow>
    calm_ok (s, {current_tid s0}, InThread)"
| left: "threads_ok s0 \<Longrightarrow> current_tid s0 \<noteq> 0 \<Longrightarrow> finish_mark s0 = Some s1 \<Longrightarrow> finish_leave s1 = Some (p, s) \<Longrightarrow>
    calm_ok (s, {}, Leaving)"
| polled: "threads_ok s0 \<Longrightarrow> current_tid s0 \<noteq> 0 \<Longrightarrow> finish_mark s0 = Some s1 \<Longrightarrow> finish_leave s1 = Some (p, s2) \<Longrightarrow>
    poll_next s2 = Some (t, s) \<Longrightarrow> calm_ok (s, {}, Polled t)"

inductive_cases calm_okE: "calm_ok (s, E, InThread)" "calm_ok (s, E, Leaving)" "calm_ok (s, E, Polled t)"

lemma finish_mark_current: "finish_mark s = Some s' \<Longrightarrow> current_tid s' = current_tid s"
  by (auto simp: finish_mark_def Let_def split: if_splits)

lemma tick_ok: "threads_ok s \<Longrightarrow> stash s e = Some (a, s') \<Longrightarrow> threads_ok s'"
  by (erule stash_cases [where e = e]) auto

lemma finish_ok: "threads_ok s \<Longrightarrow> current_tid s \<noteq> 0 \<Longrightarrow> finish s = Some (p, a, s') \<Longrightarrow> threads_ok s'"
  by (erule finish_cases) auto

lemma calm_step_ok: "calm_step c c' \<Longrightarrow> calm_ok c \<Longrightarrow> calm_ok c'"
proof (induction rule: calm_step.induct)
  case (tick s e a s')
  then show ?case using tick_ok [OF _ tick(1)] by (auto elim!: calm_okE intro: calm_ok.thread)
next
  case (mark s s')
  then show ?case by (auto elim!: calm_okE intro: calm_ok.marked)
next
  case (leave s p s')
  from leave(2) show ?case by (rule calm_okE(1)) (use leave(1) in \<open>auto intro: calm_ok.left\<close>)
next
  case (poll s t s')
  then show ?case by (auto elim!: calm_okE intro: calm_ok.polled)
next
  case (run t s a s')
  from run(2) obtain s0 s1 p s2 where p: "threads_ok s0" "current_tid s0 \<noteq> 0" "finish_mark s0 = Some s1"
    "finish_leave s1 = Some (p, s2)" "poll_next s2 = Some (t, s)" by (rule calm_okE(3)) blast
  then have "finish s0 = Some (p, a, s')" using run(1) by (simp add: finish_parts)
  then show ?case using finish_ok [OF p(1,2)] by (auto intro: calm_ok.thread)
next
  case (create fin s f stk r s')
  then show ?case using thread_create_ok(1) [OF _ create(1)] by (auto elim!: calm_okE intro: calm_ok.thread)
qed

lemma calm_steps_ok: "calm_step\<^sup>*\<^sup>* c c' \<Longrightarrow> calm_ok c \<Longrightarrow> calm_ok c'"
  by (induction rule: rtranclp_induct) (auto intro: calm_step_ok)

text \<open>Where every thread that exists is to be found.\<close>

definition accounted :: "threads \<times> 32 word set \<times> phase \<Rightarrow> bool" where
  "accounted = (\<lambda>(s, E, ph). distinct (queued s) \<and> (\<forall>t. 0 < t \<longrightarrow> t < pool_size s \<longrightarrow>
     (tstate (thread_pool s (unat t)) \<noteq> empty \<longleftrightarrow>
        t \<in> set (queued s) \<or> t = current_tid s \<and> t \<notin> E \<or> ph = Polled t)))"

lemma threads_ok_accounted: "threads_ok s \<Longrightarrow> accounted (s, {}, InThread)"
  using thread_state_split [of s] by (auto simp: accounted_def threads_ok_def queue_ok_def)

lemma marked_accounted:
  assumes "threads_ok s0" "current_tid s0 \<noteq> 0" "finish_mark s0 = Some s"
  shows "accounted (s, {current_tid s0}, InThread)" "accounted (s\<lparr>current_tid := 0\<rparr>, {}, Leaving)" "sound s"
proof -
  have eq: "s = set_tcb s0 (unat (current_tid s0)) ((thread_pool s0 (unat (current_tid s0)))\<lparr>tstate := empty\<rparr>)"
    using assms(3) by (auto simp: finish_mark_def Let_def split: if_splits)
  have c: "0 < current_tid s0" "current_tid s0 < pool_size s0" using assms(1,2) by (auto simp: threads_ok_def current_ok_def word_neq_0_conv)
  then have "tstate (thread_pool s0 (unat (current_tid s0))) = running"
    using assms(1) unat_posD [OF c(1)] unat_lessD [OF c(2)] by (simp add: threads_ok_def current_ok_def)
  then have nq: "current_tid s0 \<notin> set (queued s0)"
    using queuedD(3) [of s0 "current_tid s0"] assms(1) by (auto simp: threads_ok_def waiting_def)
  show "accounted (s, {current_tid s0}, InThread)" "accounted (s\<lparr>current_tid := 0\<rparr>, {}, Leaving)"
    using threads_ok_accounted [OF assms(1)] nq by (auto simp: accounted_def eq unat_same)
  have "sound s0" using assms(1) by (simp add: sound_def threads_ok_def queue_ok_sound)
  then show "sound s" unfolding eq using nq by (intro sound_set_tcb) (auto simp: unat_same)
qed

lemma polled_accounted:
  assumes "accounted (s, {}, Leaving)" "sound s" "poll_next s = Some (t, s')"
  shows "accounted (s', {}, Polled t)"
proof -
  obtain u s1 where "poll_next s = Some (u, s1)" "sound s1" "pool_size s1 = pool_size s" "current_tid s1 = current_tid s"
    "thread_pool s1 = thread_pool s" "u \<notin> set (queued s1)"
    "set (queued s) = set (queued s1) \<union> (if u = 0 then {} else {u})"
    by (rule poll_sound [OF assms(2)], rule that)
  then show ?thesis
    using assms(1,3) by (auto simp: accounted_def sound_def queue_sound_def split: if_splits)
qed

lemma calm_accounted: "calm_ok c \<Longrightarrow> accounted c"
proof (induction rule: calm_ok.induct)
  case (thread s)
  then show ?case by (rule threads_ok_accounted)
next
  case (marked s0 s)
  then show ?case by (rule marked_accounted(1))
next
  case (left s0 s1 p s)
  then show ?case using marked_accounted(2) [OF left(1-3)] by (auto simp: finish_leave_def split: if_splits)
next
  case (polled s0 s1 p s2 t s)
  have eq: "s2 = s1\<lparr>current_tid := 0\<rparr>" using polled(4) by (auto simp: finish_leave_def split: if_splits)
  note M = marked_accounted(2,3) [OF polled(1-3)]
  have "sound s2" using M(2) by (auto simp: eq sound_def pool_ok_def queue_sound_def waiting_def)
  then show ?case using polled_accounted [OF _ _ polled(5)] M(1) eq by simp
qed

section \<open>Properties\<close>

text \<open>C10: no thread is lost as long as no timer interrupt comes inside \<^verbatim>\<open>finish\<close> (with one, threads
  are lost, as the two races below show).  In every state reachable from an initialised pool
  through yields and timer interrupts in the code of the threads, the single statements of
  \<^verbatim>\<open>finish\<close> and thread creations, in any order, the ready queue holds every thread at most once,
  and a thread's slot is in use exactly when the thread is in the queue, or it runs and is not inside
  \<^verbatim>\<open>finish\<close>, or the scheduler has just taken it from the queue.  The block that \<^verbatim>\<open>malloc\<close> returns
  for the queue is assumed to have the size asked for.\<close>

theorem no_thread_lost:
  assumes "init_thread pool m (init_queue True malloc_words) n = Some s0"
    "calm_step\<^sup>*\<^sup>* (s0, {}, InThread) (s, E, ph)"
    and "0 < n" "unat n + 1 < 2 ^ 30"
    and "\<And>ws. malloc_words ((n + 1) * 4) = Some ws \<Longrightarrow> unat ((n + 1) * 4) \<le> 4 * length ws"
    and "0 < t" "t < n"
  shows "distinct (ring_items (ready_queue s))
    \<and> (tstate (thread_pool s (unat t)) \<noteq> empty \<longleftrightarrow>
         t \<in> set (ring_items (ready_queue s)) \<or> t = current_tid s \<and> t \<notin> E \<or> ph = Polled t)"
proof -
  obtain ws where ws: "malloc_words ((n + 1) * 4) = Some ws"
    using assms(1) by (auto simp: init_thread_def init_queue_def Let_def bind_eq_Some_conv split: option.splits)
  then obtain q where "init_queue True malloc_words n = Some q" "ring_inv q" "ring_items q = []" "ring_cap q = unat n"
    using init_queue_ok [OF assms(4)] assms(5) by blast
  then have "threads_ok s0" using init_thread_ok [of "init_queue True malloc_words" n q pool m] assms(1,3) by auto
  then have "calm_ok (s0, {}, InThread)" by (rule calm_ok.thread)
  moreover have "pool_size s0 = n" using assms(1) by (auto simp: init_thread_def bind_eq_Some_conv)
  then have size: "pool_size s = n" using calm_steps_size [OF assms(2)] by simp
  ultimately have "calm_ok (s, E, ph)" using assms(2) calm_steps_ok by blast
  then show ?thesis using calm_accounted [of "(s, E, ph)"] size assms(6,7) by (simp add: accounted_def)
qed

text \<open>A pool of six slots, in the second of which a thread has just been created.\<close>

theorem no_thread_lost_witness:
  "\<exists>s0 s. init_thread (\<lambda>_. \<lparr>TID = 9, tstate = running, stack = 0, esp = 0\<rparr>) (\<lambda>_. 0)
      (init_queue True (\<lambda>b. Some (replicate (unat b) 0))) 6 = Some s0
    \<and> thread_create 0x2000 s0 0x3000 0x8000 = Some (1, s)
    \<and> (tstate (thread_pool s (unat (1 :: 32 word))) \<noteq> empty \<longleftrightarrow> 1 \<in> set (ring_items (ready_queue s)) \<or> 1 = current_tid s)"
proof -
  let ?pool = "\<lambda>_. \<lparr>TID = 9, tstate = running, stack = 0, esp = 0\<rparr>" and ?mw = "\<lambda>b. Some (replicate (unat b) 0)"
  obtain s0 where s0: "init_thread ?pool (\<lambda>_. 0) (init_queue True ?mw) 6 = Some s0" "pool_size s0 = 6"
    "tstate (thread_pool s0 1) = empty" "ready_queue s0 = \<lparr>elements = replicate 28 0, qsize = 7, head = 0, tail = 0\<rparr>"
    by (simp add: init_thread_def init_queue_def init_pool_set)
  have "find_empty (thread_pool s0) 1 5 = Some 1" by (rule et.loop_hit) (use s0(3) in auto)
  then obtain s where s: "thread_create 0x2000 s0 0x3000 0x8000 = Some (1, s)"
    using s0 by (simp add: thread_create_def queue_add_def queue_isFull_def Let_def)
  have "calm_step\<^sup>*\<^sup>* (s0, {}, InThread) (s, {}, InThread)"
    by (rule r_into_rtranclp, rule calm_step.create [OF s])
  then show ?thesis using no_thread_lost [OF s0(1), of s "{}" InThread 1] s0(1) s by auto
qed

text \<open>C20: a timer interrupt after the first statement of \<^verbatim>\<open>finish\<close> loses the slot of the
  thread for ever.  The interrupt queues the thread again; when it has been resumed and goes
  on in \<^verbatim>\<open>finish\<close>, its slot is marked as running, and from there on, whatever happens, it
  is neither empty, so \<^verbatim>\<open>thread_create\<close> never reuses it, nor current nor queued.\<close>

theorem finish_race:
  assumes "threads_ok s" "current_tid s = c" "c \<noteq> 0"
    and "finish_mark s = Some s1" "stash s1 e = Some (a, s2)"
    and "race_step\<^sup>*\<^sup>* (s2, {c}, InThread) (s3, E, InThread)" "current_tid s3 = c" "c \<in> E"
    and "finish_leave s3 = Some (p, s4)" "race_step\<^sup>*\<^sup>* (s4, E - {c}, Leaving) (s5, F, ph)"
  shows "tstate (thread_pool s5 (unat c)) \<noteq> empty \<and> c \<noteq> current_tid s5
    \<and> c \<notin> set (ring_items (ready_queue s5))"
proof -
  have "race_step (s, {}, InThread) (s1, {c}, InThread)"
    using race_step.mark [of s "{}" s1] assms(2-4) by simp
  then have ok1: "race_ok (s1, {c}, InThread)"
    using race_step_keeps threads_ok_race [OF assms(1)] by (simp add: keeps_def)
  have ok2: "race_ok (s2, {c}, InThread)" using tick_keeps [OF ok1 assms(5)] by (simp add: keeps_def)
  have "current_tid s1 = c" "c < pool_size s1"
    using assms(2,4) by (auto simp: finish_mark_def Let_def split: if_splits)
  then have "tstate (thread_pool s2 (unat c)) \<noteq> empty" using stash_queues_current [OF assms(5)] assms(3) by simp
  then have "doomed c (s2, {c}, InThread)" using assms(3) by (simp add: doomed_def)
  then have "doomed c (s3, E, InThread)" and ok3: "race_ok (s3, E, InThread)"
    using race_steps_doomed [OF assms(6) ok2] race_steps_keep [OF assms(6) ok2] by (simp_all add: keeps_def)
  then have "lost c (s4, E - {c}, Leaving)"
    using leave_lost [OF ok3 _ _ assms(9)] assms(3,7,8) by (simp add: doomed_def)
  moreover have "race_ok (s4, E - {c}, Leaving)" using leave_keeps [OF ok3 assms(9)] by (simp add: keeps_def)
  ultimately have "lost c (s5, F, ph)" using race_steps_keep [OF assms(10)] by (simp add: keeps_def)
  then show ?thesis by (simp add: lost_def)
qed

text \<open>C21: \<^verbatim>\<open>trap\<close>, entered from \<^verbatim>\<open>finish\<close>, runs \<^verbatim>\<open>schedule\<close> with interrupts enabled.  A
  timer interrupt after \<^verbatim>\<open>schedule\<close> has taken a thread off the ready queue loses that thread
  for ever: whatever happens later, it is neither current nor queued, and its slot stays in
  use.\<close>

theorem schedule_race:
  assumes "threads_ok s0" "race_step\<^sup>*\<^sup>* (s0, {}, InThread) (s, E, Polled t)" "t \<noteq> 0"
    and "stash s e = Some (a, s1)" "race_step\<^sup>*\<^sup>* (s1, E, InThread) (s2, F, ph)"
  shows "tstate (thread_pool s2 (unat t)) \<noteq> empty \<and> t \<noteq> current_tid s2
    \<and> t \<notin> set (ring_items (ready_queue s2))"
proof -
  have ok: "race_ok (s, E, Polled t)"
    using race_steps_keep [OF assms(2) threads_ok_race [OF assms(1)]] by (simp add: keeps_def)
  have ok1: "race_ok (s1, E, InThread)" using tick_keeps [OF ok assms(4)] by (simp add: keeps_def)
  have "left_out s t"
    using ok assms(3) by (auto simp: race_ok_def left_out_def waiting_def word_neq_0_conv)
  moreover have "sound s" "current_tid s < pool_size s" "current_tid s = 0"
    using ok by (auto simp: race_ok_def sound_def pool_ok_def)
  ultimately have "left_out s1 t"
    using stash_sound [of s e E] assms(4) by (metis option.inject prod.inject)
  then have "lost t (s1, E, InThread)" by (simp add: lost_left_out)
  then have "lost t (s2, F, ph)" using race_steps_keep [OF assms(5) ok1] by (simp add: keeps_def)
  then show ?thesis by (simp add: lost_def)
qed

text \<open>In the pool of three, thread 1 ends while thread 2 waits.\<close>

lemma sample_marked: "\<exists>s1. finish_mark sample_threads = Some s1 \<and> finish_leave s1 = Some (0x9000, s1\<lparr>current_tid := 0\<rparr>)
    \<and> s1 = set_tcb sample_threads 1 ((thread_pool sample_threads 1)\<lparr>tstate := empty\<rparr>)"
  by (simp add: finish_mark_def finish_leave_def sample_threads_def Let_def word_less_nat_alt)

theorem schedule_race_witness:
  "\<exists>s1 s t s2. finish_mark sample_threads = Some s1 \<and> poll_next (s1\<lparr>current_tid := 0\<rparr>) = Some (2, s)
    \<and> stash s 0x8000 = Some (Resume 0, s2) \<and> tstate (thread_pool s2 2) = ready \<and> t = (2 :: 32 word)
    \<and> t \<noteq> current_tid s2 \<and> t \<notin> set (ring_items (ready_queue s2))"
proof -
  obtain s1 where s1: "finish_mark sample_threads = Some s1"
    "finish_leave s1 = Some (0x9000, s1\<lparr>current_tid := 0\<rparr>)"
    "s1 = set_tcb sample_threads 1 ((thread_pool sample_threads 1)\<lparr>tstate := empty\<rparr>)"
    using sample_marked by blast
  let ?s2 = "s1\<lparr>current_tid := 0\<rparr>"
  obtain s3 where s3: "poll_next ?s2 = Some (2, s3)"
    by (simp add: s1(3) poll_next_def queue_poll_def queue_isEmpty_def sample_threads_def)
  obtain s4 where s4: "stash s3 0x8000 = Some (Resume 0, s4)" "tstate (thread_pool s4 2) = ready"
    using s3 by (auto simp: s1(3) poll_next_def stash_def schedule_def enqueue_current_def dispatch_def
        queue_poll_def queue_isEmpty_def sample_threads_def)
  have c: "current_tid sample_threads = 1" "current_tid s1 = 1" by (simp_all add: s1(3) sample_threads_def)
  have "race_step (sample_threads, {}, InThread) (s1, {1}, InThread)"
    using race_step.mark [of sample_threads "{}" s1] s1(1) c by simp
  also have "race_step\<^sup>*\<^sup>* (s1, {1}, InThread) (?s2, {}, Leaving)"
    using race_step.leave [of s1 "{1}"] s1(2) c by auto
  also have "race_step (?s2, {}, Leaving) (s3, {}, Polled 2)" by (rule race_step.poll [OF s3])
  finally have run: "race_step\<^sup>*\<^sup>* (sample_threads, {}, InThread) (s3, {}, Polled 2)" .
  show ?thesis
    using schedule_race [OF sample_threads_ok run _ s4(1) rtranclp.rtrancl_refl] s1(1) s3 s4
    by (intro exI [of _ s1] exI [of _ s3] exI [of _ 2] exI [of _ s4]) simp
qed

theorem finish_race_witness:
  "\<exists>s1 s2 s3 s4. finish_mark sample_threads = Some s1 \<and> stash s1 0x9F00 = Some (Resume 2, s2)
    \<and> stash s2 0x9F00 = Some (Resume 1, s3) \<and> finish_leave s3 = Some (0x9000, s4)
    \<and> tstate (thread_pool s4 1) \<noteq> empty \<and> 1 \<noteq> current_tid s4 \<and> 1 \<notin> set (ring_items (ready_queue s4))"
proof -
  obtain s1 where s1: "finish_mark sample_threads = Some s1"
    "s1 = set_tcb sample_threads 1 ((thread_pool sample_threads 1)\<lparr>tstate := empty\<rparr>)"
    using sample_marked by blast
  obtain s2 where s2: "stash s1 0x9F00 = Some (Resume 2, s2)" "current_tid s2 = 2" "pool_size s2 = 3"
    "ptr_current_esp s2 = 2" "ready_queue s2 = \<lparr>elements = [2, 1, 0, 0], qsize = 4, head = 1, tail = 2\<rparr>"
    "TID (thread_pool s2 1) = 1" "tstate (thread_pool s2 1) = ready" "stack (thread_pool s2 1) = 0x9000"
    by (simp add: s1(2) stash_def schedule_def enqueue_current_def dispatch_def queue_add_def queue_isFull_def
        queue_poll_def queue_isEmpty_def sample_threads_def Let_def)
  obtain s3 where s3: "stash s2 0x9F00 = Some (Resume 1, s3)" "current_tid s3 = 1" "pool_size s3 = 3"
      "stack (thread_pool s3 1) = 0x9000"
    using s2(2-) by (simp add: stash_def schedule_def enqueue_current_def dispatch_def queue_add_def queue_isFull_def
        queue_poll_def queue_isEmpty_def Let_def)
  have s4: "finish_leave s3 = Some (0x9000, s3\<lparr>current_tid := 0\<rparr>)"
    using s3(2-4) by (simp add: finish_leave_def word_less_nat_alt)
  have "race_step\<^sup>*\<^sup>* (s2, {1}, InThread) (s3, {1}, InThread)" using race_step.tick [OF s3(1)] by blast
  then show ?thesis
    using finish_race [OF sample_threads_ok _ _ s1(1) s2(1) _ s3(2) _ s4 rtranclp.rtrancl_refl] s1(1) s2(1) s3 s4
    by (intro exI [of _ s1] exI [of _ s2] exI [of _ s3] exI [of _ "s3\<lparr>current_tid := 0\<rparr>"])
      (simp add: sample_threads_def)
qed

end
