(* ===== verification/Fifos_Heap.thy ===== *)
theory Fifos_Heap
  imports Prelude
begin

text \<open>
  The memory allocator of the FIFOS kernel, \<^verbatim>\<open>FileSystem-v3/heap.c\<close>: first fit over a chain of
  blocks with boundary tags.  A block starts with a word for its size, whose lowest bit
  says that it is allocated, and a word for the size of the block before it; what
  \<^verbatim>\<open>malloc\<close> returns starts 8 bytes later.  Pointers are offsets into \<^verbatim>\<open>buffer\<close>, \<^term>\<open>None\<close> is
  \<^verbatim>\<open>NULL\<close>, and the memory is the word at each offset.  The first 8 bytes of \<^verbatim>\<open>buffer\<close> hold
  \<^verbatim>\<open>LASTPTR\<close>, a field of its own; an access there, outside \<^verbatim>\<open>buffer\<close>, or not aligned to a
  word is undefined.
\<close>

section \<open>The code\<close>

abbreviation DEFAULT_MEM_SIZE :: nat where "DEFAULT_MEM_SIZE \<equiv> 1048576"
abbreviation WSIZE :: nat where "WSIZE \<equiv> 4"
abbreviation DSIZE :: nat where "DSIZE \<equiv> 8"

record heap =
  hmem :: "nat \<Rightarrow> 32 word"
  LASTPTR :: nat

definition GETW :: "heap \<Rightarrow> nat \<Rightarrow> 32 word option" where
  "GETW h p = (if p mod WSIZE = 0 \<and> DSIZE \<le> p \<and> p + WSIZE \<le> DEFAULT_MEM_SIZE then Some (hmem h p) else None)"

definition PUTW :: "heap \<Rightarrow> nat \<Rightarrow> 32 word \<Rightarrow> heap option" where
  "PUTW h p v = (if p mod WSIZE = 0 \<and> DSIZE \<le> p \<and> p + WSIZE \<le> DEFAULT_MEM_SIZE
     then Some (h\<lparr>hmem := (hmem h)(p := v)\<rparr>) else None)"

definition GET_SIZE :: "heap \<Rightarrow> nat \<Rightarrow> 32 word option" where
  "GET_SIZE h p = map_option (\<lambda>w. w AND NOT 7) (GETW h p)"

definition GET_ALLOC :: "heap \<Rightarrow> nat \<Rightarrow> bool option" where
  "GET_ALLOC h p = map_option (\<lambda>w. w AND 1 \<noteq> 0) (GETW h p)"

definition NEXT_BLKP :: "heap \<Rightarrow> nat \<Rightarrow> nat option option" where
  "NEXT_BLKP h p = (if p < LASTPTR h then map_option (\<lambda>s. Some (p + unat s)) (GET_SIZE h p) else Some None)"

definition PREV_BLKP :: "heap \<Rightarrow> nat \<Rightarrow> nat option option" where
  "PREV_BLKP h p = (if DSIZE < p then map_option (\<lambda>w. Some (p - unat w)) (GETW h (p + WSIZE)) else Some None)"

definition PACK :: "32 word \<Rightarrow> 32 word \<Rightarrow> 32 word" where
  "PACK sz alloc = sz OR alloc"

definition init_heap :: "(nat \<Rightarrow> 32 word) \<Rightarrow> heap option" where
  "init_heap garbage = do {
     let h = \<lparr>hmem = garbage, LASTPTR = DSIZE\<rparr>;
     h1 \<leftarrow> PUTW h DSIZE (of_nat (DEFAULT_MEM_SIZE - DSIZE));
     PUTW h1 (DSIZE + WSIZE) 0
   }"

text \<open>The search loop; a chain with a block of size zero would never end.  The result is the
  block and its size.\<close>

partial_function (option) find_fit :: "heap \<Rightarrow> nat option \<Rightarrow> 32 word \<Rightarrow> (nat \<times> 32 word) option option" where
  "find_fit h p blocksize =
     (case p of
        None \<Rightarrow> Some None
      | Some q \<Rightarrow> do {
          al \<leftarrow> GET_ALLOC h q;
          freesize \<leftarrow> GET_SIZE h q;
          if al \<or> freesize < blocksize
          then do { nx \<leftarrow> NEXT_BLKP h q; find_fit h nx blocksize }
          else Some (Some (q, freesize))
        })"

definition round8 :: "32 word \<Rightarrow> 32 word" where
  "round8 sz = push_bit 3 (drop_bit 3 (sz + 7))"

definition malloc :: "heap \<Rightarrow> 32 word \<Rightarrow> (nat option \<times> heap) option" where
  "malloc h size0 =
     (if size0 = 0 then Some (None, h)
      else do {
        let sz = round8 size0;
        let blocksize = sz + of_nat DSIZE;
        r \<leftarrow> find_fit h (Some DSIZE) blocksize;
        (case r of
           None \<Rightarrow> Some (None, h)
         | Some (p, freesize) \<Rightarrow>
             (let newblocksize = freesize - blocksize in
              if newblocksize \<le> of_nat DSIZE
              then do { h1 \<leftarrow> PUTW h p (PACK freesize 1); Some (Some (p + DSIZE), h1) }
              else do {
                nx \<leftarrow> NEXT_BLKP h p;
                h1 \<leftarrow> PUTW h p (PACK blocksize 1);
                let newfree = p + unat blocksize;
                h2 \<leftarrow> PUTW h1 newfree newblocksize;
                h3 \<leftarrow> PUTW h2 (newfree + WSIZE) blocksize;
                h4 \<leftarrow> (case nx of
                        Some q \<Rightarrow> PUTW h3 (q + WSIZE) newblocksize
                      | None \<Rightarrow> Some (h3\<lparr>LASTPTR := newfree\<rparr>));
                Some (Some (p + DSIZE), h4)
              }))
      })"

definition Combine :: "heap \<Rightarrow> nat \<Rightarrow> nat \<Rightarrow> heap option" where
  "Combine h p q = do {
     sp \<leftarrow> GET_SIZE h p;
     wq \<leftarrow> GETW h q;
     let blocksize = sp + wq;
     nx \<leftarrow> NEXT_BLKP h q;
     h1 \<leftarrow> PUTW h p blocksize;
     (case nx of
        Some n \<Rightarrow> PUTW h1 (n + WSIZE) blocksize
      | None \<Rightarrow> Some (h1\<lparr>LASTPTR := p\<rparr>))
   }"

definition free_next :: "heap \<Rightarrow> nat \<Rightarrow> heap option" where
  "free_next h p = do {
     nx \<leftarrow> NEXT_BLKP h p;
     joins \<leftarrow> (case nx of None \<Rightarrow> Some False | Some q \<Rightarrow> map_option Not (GET_ALLOC h q));
     if joins then Combine h p (the nx)
     else do { blocksize \<leftarrow> GET_SIZE h p; PUTW h p blocksize }
   }"

definition free_prev :: "heap \<Rightarrow> nat \<Rightarrow> heap option" where
  "free_prev h p = do {
     prev \<leftarrow> PREV_BLKP h p;
     joins \<leftarrow> (case prev of None \<Rightarrow> Some False | Some q \<Rightarrow> map_option Not (GET_ALLOC h q));
     if joins then Combine h (the prev) p else Some h
   }"

definition free :: "heap \<Rightarrow> nat option \<Rightarrow> heap option" where
  "free h addr =
     (case addr of
        None \<Rightarrow> Some h
      | Some a \<Rightarrow> if a < DSIZE then None else do { h1 \<leftarrow> free_next h (a - DSIZE); free_prev h1 (a - DSIZE) })"

section \<open>The specification\<close>

text \<open>A heap is a list of blocks, each a size and whether it is allocated.  An allocation
  takes the first free block that is large enough, and splits off the rest when that makes
  a block of more than 8 bytes; a release joins the block with free neighbours.\<close>

type_synonym block = "nat \<times> bool"

definition carve :: "nat \<Rightarrow> nat \<Rightarrow> block list" where
  "carve n sz = (if sz - n \<le> DSIZE then [(sz, True)] else [(n, True), (sz - n, False)])"

fun take_first :: "nat \<Rightarrow> nat \<Rightarrow> block list \<Rightarrow> (nat \<times> block list) option" where
  "take_first n a [] = None"
| "take_first n a ((sz, al) # bs) =
     (if \<not> al \<and> n \<le> sz then Some (a, carve n sz @ bs)
      else map_option (\<lambda>(p, bs'). (p, (sz, al) # bs')) (take_first n (a + sz) bs))"

fun join_next :: "nat \<Rightarrow> block list \<Rightarrow> block list" where
  "join_next sz ((s, False) # bs) = (sz + s, False) # bs"
| "join_next sz bs = (sz, False) # bs"

fun join_prev :: "block list \<Rightarrow> block list \<Rightarrow> block list" where
  "join_prev [] bs = bs"
| "join_prev [(s, False)] ((sz, al) # bs) = (s + sz, False) # bs"
| "join_prev (x # xs) bs = x # join_prev xs bs"

definition release_at :: "block list \<Rightarrow> nat \<Rightarrow> block list \<Rightarrow> block list" where
  "release_at xs sz ys = join_prev xs (join_next sz ys)"

section \<open>The representation\<close>

definition span_of :: "block list \<Rightarrow> nat" where
  "span_of bs = sum_list (map fst bs)"

lemma span_of_simps [simp]: "span_of [] = 0" "span_of (b # bs) = fst b + span_of bs" "span_of (xs @ ys) = span_of xs + span_of ys"
  by (simp_all add: span_of_def)

definition last_size :: "nat \<Rightarrow> block list \<Rightarrow> nat" where
  "last_size pv bs = (if bs = [] then pv else fst (last bs))"

lemma last_size_simps [simp]:
  "last_size pv [] = pv" "last_size pv (b # bs) = last_size (fst b) bs" "last_size pv (xs @ ys) = last_size (last_size pv xs) ys"
  by (simp_all add: last_size_def)

definition tag :: "nat \<Rightarrow> bool \<Rightarrow> 32 word" where
  "tag sz al = (if al then of_nat sz OR 1 else of_nat sz)"

fun chain :: "heap \<Rightarrow> nat \<Rightarrow> nat \<Rightarrow> block list \<Rightarrow> bool" where
  "chain h a pv [] = True"
| "chain h a pv ((sz, al) # bs) \<longleftrightarrow>
     hmem h a = tag sz al \<and> hmem h (a + WSIZE) = of_nat pv \<and> 16 \<le> sz \<and> 8 dvd sz \<and> chain h (a + sz) sz bs"

definition heap_rep :: "heap \<Rightarrow> block list \<Rightarrow> bool" where
  "heap_rep h bs \<longleftrightarrow> bs \<noteq> [] \<and> chain h DSIZE 0 bs \<and> DSIZE + span_of bs = DEFAULT_MEM_SIZE
     \<and> LASTPTR h + last_size 0 bs = DEFAULT_MEM_SIZE"

lemma chain_append: "chain h a pv (xs @ ys) \<longleftrightarrow> chain h a pv xs \<and> chain h (a + span_of xs) (last_size pv xs) ys"
  by (induction xs arbitrary: a pv) (auto simp: add.assoc)

lemma chain_cong:
  "(\<And>x. a \<le> x \<Longrightarrow> x < a + span_of bs \<Longrightarrow> hmem h' x = hmem h x) \<Longrightarrow> chain h' a pv bs = chain h a pv bs"
proof (induction bs arbitrary: a pv)
  case (Cons b bs)
  obtain sz al where b: "b = (sz, al)" by (cases b)
  show ?case
  proof (cases "16 \<le> sz")
    case True
    then show ?thesis using Cons.IH [of "a + sz" sz] Cons.prems b by simp
  qed (simp add: b)
qed simp

lemma chain_mod: "chain h a pv bs \<Longrightarrow> 8 dvd span_of bs"
  by (induction bs arbitrary: a pv) auto

section \<open>Sizes and tags\<close>

lemma seven_mask: "(7 :: 32 word) = mask 3"
  by (simp add: mask_eq_exp_minus_1)

lemma tag_facts:
  assumes "8 dvd sz"
  shows "tag sz al AND NOT 7 = of_nat sz" "tag sz al AND 1 \<noteq> 0 \<longleftrightarrow> al" "PACK (of_nat sz) 1 = tag sz True"
proof -
  obtain k where sz: "sz = 8 * k" using assms by auto
  have w: "(of_nat sz :: 32 word) = push_bit 3 (of_nat k)" by (simp add: sz push_bit_eq_mult)
  have low: "\<not> bit (of_nat sz :: 32 word) i" if "i < 3" for i unfolding w using that by (simp add: bit_push_bit_iff)
  show "tag sz al AND NOT 7 = of_nat sz"
    unfolding seven_mask
    by (rule bit_word_eqI) (use low in \<open>auto simp: tag_def bit_simps intro: leI\<close>)
  have "(of_nat sz :: 32 word) AND 1 = 0" by (rule bit_word_eqI) (use low [of 0] in \<open>auto simp: bit_simps intro!: gr0I\<close>)
  moreover have "(of_nat sz OR 1 :: 32 word) AND 1 = 1" by (rule bit_word_eqI) (auto simp: bit_simps)
  ultimately show "tag sz al AND 1 \<noteq> 0 \<longleftrightarrow> al" by (simp add: tag_def)
  show "PACK (of_nat sz) 1 = tag sz True" by (simp add: PACK_def tag_def)
qed

lemma tag_False [simp]: "tag sz False = of_nat sz"
  by (simp add: tag_def)

lemma unat_small [simp]: "sz \<le> DEFAULT_MEM_SIZE \<Longrightarrow> unat (of_nat sz :: 32 word) = sz"
  by (simp add: unat_of_nat)

section \<open>One block of the chain\<close>

lemma block_chain:
  assumes "heap_rep h (xs @ (sz, al) # ys)"
  defines "A \<equiv> DSIZE + span_of xs"
  shows "chain h DSIZE 0 xs" "hmem h A = tag sz al" "hmem h (A + WSIZE) = of_nat (last_size 0 xs)"
    "16 \<le> sz" "8 dvd sz" "chain h (A + sz) sz ys" "A + sz + span_of ys = DEFAULT_MEM_SIZE"
    "LASTPTR h + last_size sz ys = DEFAULT_MEM_SIZE" "8 dvd A" "DSIZE \<le> A"
  using assms chain_mod [of h DSIZE 0 xs] by (auto simp: heap_rep_def chain_append A_def)

lemma block_reads:
  assumes "heap_rep h (xs @ (sz, al) # ys)"
  defines "A \<equiv> DSIZE + span_of xs"
  shows "GETW h A = Some (tag sz al)" "GETW h (A + WSIZE) = Some (of_nat (last_size 0 xs))"
    "GET_SIZE h A = Some (of_nat sz)" "GET_ALLOC h A = Some al" "unat (of_nat sz :: 32 word) = sz"
    "NEXT_BLKP h A = Some (if ys = [] then None else Some (A + sz))"
proof -
  note B = block_chain [OF assms(1), folded A_def]
  have "4 dvd A" using B(9) dvd_trans [of 4 8 A] by simp
  then have al: "A mod WSIZE = 0" by (simp add: dvd_eq_mod_eq_0)
  show w: "GETW h A = Some (tag sz al)" "GETW h (A + WSIZE) = Some (of_nat (last_size 0 xs))"
    using B al by (auto simp: GETW_def)
  show r: "GET_SIZE h A = Some (of_nat sz)" "GET_ALLOC h A = Some al"
    using w(1) tag_facts [OF B(5)] by (simp_all add: GET_SIZE_def GET_ALLOC_def)
  show u: "unat (of_nat sz :: 32 word) = sz" using B(7) by simp
  have "A < LASTPTR h \<longleftrightarrow> ys \<noteq> []"
  proof (cases "ys = []")
    case False
    have "last_size sz ys \<le> span_of ys" using False by (auto simp: last_size_def span_of_def member_le_sum_list)
    then show ?thesis using False B(4,7,8) by simp
  qed (use B(7,8) in simp)
  then show "NEXT_BLKP h A = Some (if ys = [] then None else Some (A + sz))" using r(1) u by (simp add: NEXT_BLKP_def)
qed

lemma block_put:
  assumes "heap_rep h bs" "8 dvd p" "DSIZE \<le> p" "p + 16 \<le> DEFAULT_MEM_SIZE"
  shows "PUTW h' p v = Some (h'\<lparr>hmem := (hmem h')(p := v)\<rparr>)"
    "PUTW h' (p + WSIZE) v = Some (h'\<lparr>hmem := (hmem h')(p + WSIZE := v)\<rparr>)"
proof -
  have "4 dvd p" using assms(2) dvd_trans [of 4 8 p] by simp
  then have "p mod WSIZE = 0" by (simp add: dvd_eq_mod_eq_0)
  then show "PUTW h' p v = Some (h'\<lparr>hmem := (hmem h')(p := v)\<rparr>)"
    "PUTW h' (p + WSIZE) v = Some (h'\<lparr>hmem := (hmem h')(p + WSIZE := v)\<rparr>)"
    using assms(3,4) by (simp_all add: PUTW_def mod_add_self2)
qed

section \<open>Searching\<close>

fun first_fit :: "nat \<Rightarrow> nat \<Rightarrow> block list \<Rightarrow> (nat \<times> nat) option" where
  "first_fit n a [] = None"
| "first_fit n a ((sz, al) # bs) = (if \<not> al \<and> n \<le> sz then Some (a, sz) else first_fit n (a + sz) bs)"

lemma find_fit_None [simp]: "find_fit h None n = Some None"
  by (subst find_fit.simps) simp

lemma find_fit_first:
  assumes "heap_rep h (xs @ ys)" "ys \<noteq> []"
  shows "find_fit h (Some (DSIZE + span_of xs)) n = Some (map_option (\<lambda>(p, s). (p, of_nat s)) (first_fit (unat n) (DSIZE + span_of xs) ys))"
  using assms
proof (induction ys arbitrary: xs)
  case (Cons b ys)
  obtain sz al where b: "b = (sz, al)" by (cases b)
  note R = block_reads [OF Cons.prems(1) [unfolded b]]
  have fits: "(of_nat sz < n) = (sz < unat n)" using R(5) by (simp add: word_less_nat_alt)
  have step: "find_fit h (Some (DSIZE + span_of xs)) n =
      (if al \<or> sz < unat n then find_fit h (if ys = [] then None else Some (DSIZE + span_of xs + sz)) n
       else Some (Some (DSIZE + span_of xs, of_nat sz)))"
    by (subst find_fit.simps) (simp add: R fits)
  show ?case
  proof (cases "ys = []")
    case True
    then show ?thesis using step b by (auto simp: not_less)
  next
    case False
    have "heap_rep h ((xs @ [b]) @ ys)" using Cons.prems(1) by simp
    from Cons.IH [OF this False] show ?thesis using step b False by (auto simp: not_less add.assoc)
  qed
qed simp

lemma first_fit_split:
  "first_fit n a bs = Some (p, s) \<Longrightarrow> \<exists>xs ys. bs = xs @ (s, False) # ys \<and> p = a + span_of xs \<and> n \<le> s
     \<and> take_first n a bs = Some (p, xs @ carve n s @ ys)"
proof (induction bs arbitrary: a)
  case (Cons b bs)
  obtain sz al where b: "b = (sz, al)" by (cases b)
  show ?case
  proof (cases "\<not> al \<and> n \<le> sz")
    case True
    then show ?thesis using Cons.prems b by (intro exI [of _ "[]"] exI [of _ bs]) auto
  next
    case False
    then have "first_fit n (a + sz) bs = Some (p, s)" using Cons.prems b by (simp del: de_Morgan_conj)
    from Cons.IH [OF this] obtain xs ys where x: "bs = xs @ (s, False) # ys" "p = a + sz + span_of xs" "n \<le> s"
      "take_first n (a + sz) bs = Some (p, xs @ carve n s @ ys)" by blast
    then show ?thesis using False b by (intro exI [of _ "b # xs"] exI [of _ ys]) (simp del: de_Morgan_conj)
  qed
qed simp

lemma first_fit_none: "first_fit n a bs = None \<longleftrightarrow> take_first n a bs = None"
  by (induction bs arbitrary: a) auto

section \<open>Writing tags\<close>

text \<open>A change of the word for the previous size in the first block of a chain.\<close>

lemma chain_retag:
  assumes "chain h a pv bs" "bs = [] \<or> hmem h' (a + WSIZE) = of_nat pv'"
    and "\<And>x. a \<le> x \<Longrightarrow> x < a + span_of bs \<Longrightarrow> x \<noteq> a + WSIZE \<Longrightarrow> hmem h' x = hmem h x"
  shows "chain h' a pv' bs"
proof (cases bs)
  case (Cons b ys)
  obtain sz al where b: "b = (sz, al)" by (cases b)
  have "16 \<le> sz" using assms(1) Cons b by simp
  then have "chain h' (a + sz) sz ys = chain h (a + sz) sz ys"
    using assms(3) Cons b by (intro chain_cong) simp
  then show ?thesis using assms Cons b \<open>16 \<le> sz\<close> by simp
qed simp

lemma last_size_rest: "ys \<noteq> [] \<Longrightarrow> last_size pv ys = last_size pv' ys"
  by (simp add: last_size_def)

text \<open>Replacing one block, or two, by blocks of the same extent.\<close>

lemma replace_one:
  assumes rep: "heap_rep h (xs @ (sz, al) # ys)"
  defines "A \<equiv> DSIZE + span_of xs"
  assumes h': "hmem h' = (hmem h)(A := tag sz al')" "LASTPTR h' = LASTPTR h"
  shows "heap_rep h' (xs @ (sz, al') # ys)"
proof -
  note B = block_chain [OF rep, folded A_def]
  have "chain h' DSIZE 0 xs" using B(1) chain_cong [of DSIZE xs h' h 0] h'(1) by (simp add: A_def)
  moreover have "chain h' (A + sz) sz ys" using B(6) chain_cong [of "A + sz" ys h' h sz] B(4) h'(1) by simp
  moreover have "hmem h' (A + WSIZE) = of_nat (last_size 0 xs)" using B(3) h'(1) by simp
  ultimately show ?thesis
    using B h' by (simp add: heap_rep_def chain_append A_def add.assoc)
qed

lemma split_one:
  assumes rep: "heap_rep h (xs @ (sz, al) # ys)"
  defines "A \<equiv> DSIZE + span_of xs"
  assumes n: "16 \<le> n" "8 dvd n" "n + 16 \<le> sz"
    and h': "hmem h' A = tag n al1" "hmem h' (A + n) = tag (sz - n) al2" "hmem h' (A + n + WSIZE) = of_nat n"
      "ys \<noteq> [] \<Longrightarrow> hmem h' (A + sz + WSIZE) = of_nat (sz - n)"
      "\<And>x. x \<notin> {A, A + n, A + n + WSIZE, A + sz + WSIZE} \<Longrightarrow> hmem h' x = hmem h x"
      "LASTPTR h' = (if ys = [] then A + n else LASTPTR h)"
  shows "heap_rep h' (xs @ (n, al1) # (sz - n, al2) # ys)"
proof -
  note B = block_chain [OF rep, folded A_def]
  have "chain h' DSIZE 0 xs" using B(1) chain_cong [of DSIZE xs h' h 0] h'(5) by (simp add: A_def)
  moreover have "chain h' (A + sz) (sz - n) ys"
    by (rule chain_retag [OF B(6)]) (use h'(4) n h'(5) in auto)
  moreover have "hmem h' (A + WSIZE) = of_nat (last_size 0 xs)" using B(3) h'(5) [of "A + WSIZE"] n by simp
  moreover have "16 \<le> sz - n" "8 dvd sz - n" using n B(5) by auto
  moreover have "LASTPTR h' + last_size (sz - n) ys = DEFAULT_MEM_SIZE"
    using h'(6) B(7,8) n last_size_rest [of ys sz "sz - n"] by (cases "ys = []") auto
  ultimately show ?thesis
    using B n h'(1-3) by (simp add: heap_rep_def chain_append A_def add.assoc)
qed

text \<open>Joining two neighbours into one free block.\<close>

lemma join_two:
  assumes rep: "heap_rep h (xs @ (s, al) # (t, al2) # ys)"
  defines "A \<equiv> DSIZE + span_of xs"
  assumes h': "hmem h' A = of_nat (s + t)" "ys \<noteq> [] \<Longrightarrow> hmem h' (A + (s + t) + WSIZE) = of_nat (s + t)"
      "\<And>x. x \<notin> {A, A + (s + t) + WSIZE} \<Longrightarrow> hmem h' x = hmem h x"
      "LASTPTR h' = (if ys = [] then A else LASTPTR h)"
  shows "heap_rep h' (xs @ (s + t, False) # ys)"
proof -
  note B = block_chain [OF rep, folded A_def]
  have "heap_rep h ((xs @ [(s, al)]) @ (t, al2) # ys)" using rep by simp
  note C = block_chain [OF this]
  have C': "16 \<le> t" "8 dvd t" "chain h (A + (s + t)) t ys" "LASTPTR h + last_size t ys = DEFAULT_MEM_SIZE"
    using C by (auto simp: A_def add.assoc)
  have "chain h' DSIZE 0 xs" using B(1) chain_cong [of DSIZE xs h' h 0] h'(3) by (simp add: A_def)
  moreover have "chain h' (A + (s + t)) (s + t) ys"
    by (rule chain_retag [OF C'(3)]) (use h'(2,3) B(4) in auto)
  moreover have "hmem h' (A + WSIZE) = of_nat (last_size 0 xs)" using B(3,4) h'(3) [of "A + WSIZE"] by simp
  moreover have "LASTPTR h' + last_size (s + t) ys = DEFAULT_MEM_SIZE"
    using h'(4) B(7) C'(4) last_size_rest [of ys t "s + t"] by (cases "ys = []") auto
  ultimately show ?thesis
    using B C'(1,2) h'(1) by (simp add: heap_rep_def chain_append A_def add.assoc)
qed

section \<open>Allocating\<close>

definition need :: "32 word \<Rightarrow> nat" where
  "need sz = (unat sz + 7) div 8 * 8 + DSIZE"

lemma need_props: "8 dvd need sz" "sz \<noteq> 0 \<Longrightarrow> 16 \<le> need sz" "unat sz + DSIZE \<le> need sz"
proof -
  show "8 dvd need sz" by (simp add: need_def)
  have ge: "unat sz \<le> (unat sz + 7) div 8 * 8" by linarith
  then show "unat sz + DSIZE \<le> need sz" by (simp add: need_def)
  assume "sz \<noteq> 0"
  then have "0 < unat sz" by (simp add: unat_gt_0)
  then have "1 \<le> (unat sz + 7) div 8" by simp
  then show "16 \<le> need sz" by (simp add: need_def)
qed

lemma round8_need:
  assumes "unat sz \<le> 2 ^ 32 - 16"
  shows "unat (round8 sz + of_nat DSIZE) = need sz"
proof -
  have a: "unat (sz + 7) = unat sz + 7" using assms by (simp add: unat_word_ariths)
  have "unat (drop_bit 3 (sz + 7)) = drop_bit 3 (unat sz + 7)" unfolding unat_drop_bit_eq a ..
  then have "unat (drop_bit 3 (sz + 7)) = (unat sz + 7) div 8" by (simp add: drop_bit_eq_div)
  then have "unat (round8 sz) = (unat sz + 7) div 8 * 8 mod 2 ^ 32"
    by (simp add: round8_def push_bit_eq_mult unat_word_ariths mult.commute)
  moreover have "(unat sz + 7) div 8 * 8 \<le> unat sz + 7" by simp
  then have "(unat sz + 7) div 8 * 8 + 8 < 2 ^ 32" using assms by simp
  ultimately show ?thesis by (simp add: need_def unat_word_ariths)
qed

lemma heap_rep_first: "heap_rep h bs \<Longrightarrow> find_fit h (Some DSIZE) n = Some (map_option (\<lambda>(p, s). (p, of_nat s)) (first_fit (unat n) DSIZE bs))"
  using find_fit_first [of h "[]" bs n] by (auto simp: heap_rep_def)

lemma of_nat_diff_word:
  assumes "n \<le> s" "s \<le> DEFAULT_MEM_SIZE"
  shows "(of_nat s :: 32 word) - of_nat n = of_nat (s - n)" "(of_nat (s - n) :: 32 word) \<le> of_nat DSIZE \<longleftrightarrow> s - n \<le> DSIZE"
proof -
  show "(of_nat s :: 32 word) - of_nat n = of_nat (s - n)" using assms(1) by simp
  have "unat (of_nat (s - n) :: 32 word) = s - n" by (rule unat_small) (use assms(2) in simp)
  then show "(of_nat (s - n) :: 32 word) \<le> of_nat DSIZE \<longleftrightarrow> s - n \<le> DSIZE" unfolding word_le_nat_alt by simp
qed

lemma malloc_spec:
  assumes rep: "heap_rep h bs" and sz: "sz \<noteq> 0" "unat sz \<le> 2 ^ 32 - 16"
  shows "case take_first (need sz) DSIZE bs of
      None \<Rightarrow> malloc h sz = Some (None, h)
    | Some (p, bs') \<Rightarrow> \<exists>h'. malloc h sz = Some (Some (p + DSIZE), h') \<and> heap_rep h' bs'"
proof (cases "first_fit (need sz) DSIZE bs")
  case None
  then show ?thesis
    using heap_rep_first [OF rep] round8_need [OF sz(2)] sz(1) first_fit_none [of "need sz" DSIZE bs]
    by (simp add: malloc_def Let_def)
next
  case (Some r)
  obtain p s where r: "r = (p, s)" by (cases r)
  let ?n = "need sz" and ?w = "round8 sz + of_nat DSIZE"
  obtain xs ys where x: "bs = xs @ (s, False) # ys" "p = DSIZE + span_of xs" "?n \<le> s"
    "take_first ?n DSIZE bs = Some (p, xs @ carve ?n s @ ys)"
    using first_fit_split [OF Some [unfolded r]] by blast
  note rep' = rep [unfolded x(1)]
  note B = block_chain [OF rep', folded x(2)] and R = block_reads [OF rep', folded x(2)]
  have n: "?w = of_nat ?n" using arg_cong [OF round8_need [OF sz(2)], of "of_nat :: nat \<Rightarrow> 32 word"] by simp
  have small: "s \<le> DEFAULT_MEM_SIZE" using B(7) by simp
  note D = of_nat_diff_word [OF x(3) small]
  have find: "find_fit h (Some DSIZE) ?w = Some (Some (p, of_nat s))"
    using heap_rep_first [OF rep] round8_need [OF sz(2)] Some r by simp
  have fit: "p + 16 \<le> DEFAULT_MEM_SIZE" using B(4,7) by simp
  note put = block_put [OF rep B(9,10) fit]
  show ?thesis
  proof (cases "s - ?n \<le> DSIZE")
    case True
    let ?h1 = "h\<lparr>hmem := (hmem h)(p := tag s True)\<rparr>"
    have "malloc h sz = Some (Some (p + DSIZE), ?h1)"
      using sz(1) find n D True put(1) tag_facts(3) [OF B(5)] by (simp add: malloc_def Let_def)
    moreover have "heap_rep ?h1 (xs @ (s, True) # ys)"
      by (rule replace_one [OF rep']) (simp_all add: x(2))
    ultimately show ?thesis using x(4) True by (simp add: carve_def)
  next
    case False
    note N = need_props(1) [of sz] need_props(2) [OF sz(1)]
    have room: "?n + 16 \<le> s"
    proof -
      have "8 dvd s - ?n" using B(5) N(1) by auto
      then show ?thesis using False x(3) by auto
    qed
    have un: "unat (of_nat ?n :: 32 word) = ?n" using x(3) small by simp
    have f: "8 dvd p + ?n" "DSIZE \<le> p + ?n" "p + ?n + 16 \<le> DEFAULT_MEM_SIZE" using B(7,9) N room by auto
    note put2 = block_put [OF rep f]
    let ?g = "(hmem h)(p := tag ?n True, p + ?n := of_nat (s - ?n), p + ?n + WSIZE := of_nat ?n)"
    define h4 where "h4 = (if ys = [] then \<lparr>hmem = ?g, LASTPTR = p + ?n\<rparr>
      else \<lparr>hmem = ?g(p + s + WSIZE := of_nat (s - ?n)), LASTPTR = LASTPTR h\<rparr>)"
    have last: "PUTW h' (p + s + WSIZE) v = Some (h'\<lparr>hmem := (hmem h')(p + s + WSIZE := v)\<rparr>)" if "ys \<noteq> []" for h' v
    proof -
      have "16 \<le> span_of ys" using that B(6) by (cases ys) auto
      moreover have "8 dvd p + s" using B(5,9) by simp
      ultimately show ?thesis using block_put(2) [OF rep, of "p + s"] B(7,10) by simp
    qed
    have "malloc h sz = Some (Some (p + DSIZE), h4)"
      using sz(1) find n D False put(1) put2 last R(6) un tag_facts(3) [OF N(1)]
      by (cases "ys = []") (simp_all add: malloc_def Let_def h4_def)
    moreover have "heap_rep h4 (xs @ (?n, True) # (s - ?n, False) # ys)"
    proof (rule split_one [OF rep' N(2,1) room, folded x(2)])
      show "hmem h4 x = hmem h x" if "x \<notin> {p, p + ?n, p + ?n + WSIZE, p + s + WSIZE}" for x
        using that by (simp add: h4_def)
    qed (use N room in \<open>auto simp: h4_def\<close>)
    ultimately show ?thesis using x(4) False by (simp add: carve_def)
  qed
qed

section \<open>Releasing\<close>

lemma join_prev_snoc:
  "join_prev (zs @ [(s, False)]) ((t, al) # bs) = zs @ (s + t, False) # bs"
  "join_prev (zs @ [(s, True)]) bs = zs @ (s, True) # bs"
proof -
  have "join_prev (z # zs @ [b]) cs = z # join_prev (zs @ [b]) cs" for z zs b cs by (cases zs) auto
  then show "join_prev (zs @ [(s, False)]) ((t, al) # bs) = zs @ (s + t, False) # bs"
    "join_prev (zs @ [(s, True)]) bs = zs @ (s, True) # bs" by (induction zs) auto
qed

lemma Combine_spec:
  assumes rep: "heap_rep h (xs @ (s, al) # (t, False) # ys)"
  defines "p \<equiv> DSIZE + span_of xs"
  shows "\<exists>h'. Combine h p (p + s) = Some h' \<and> heap_rep h' (xs @ (s + t, False) # ys)"
proof -
  note B = block_chain [OF rep, folded p_def] and R = block_reads [OF rep, folded p_def]
  have rep2: "heap_rep h ((xs @ [(s, al)]) @ (t, False) # ys)" using rep by simp
  have q: "DSIZE + span_of (xs @ [(s, al)]) = p + s" by (simp add: p_def)
  note C = block_chain [OF rep2, unfolded q] and S = block_reads [OF rep2, unfolded q]
  have fit: "p + 16 \<le> DEFAULT_MEM_SIZE" using B(4,7) by simp
  have last: "PUTW h' (p + (s + t) + WSIZE) v = Some (h'\<lparr>hmem := (hmem h')(p + (s + t) + WSIZE := v)\<rparr>)" if "ys \<noteq> []" for h' v
  proof -
    have "16 \<le> span_of ys" using that C(6) by (cases ys) auto
    moreover have "8 dvd p + (s + t)" using B(5,9) C(5) by simp
    ultimately show ?thesis using block_put(2) [OF rep, of "p + (s + t)"] C(7) B(10) by (simp add: add.assoc)
  qed
  have sum: "(of_nat s :: 32 word) + of_nat t = of_nat (s + t)" by simp
  define h' where "h' = (if ys = [] then \<lparr>hmem = (hmem h)(p := of_nat (s + t)), LASTPTR = p\<rparr>
    else h\<lparr>hmem := (hmem h)(p := of_nat (s + t), p + (s + t) + WSIZE := of_nat (s + t))\<rparr>)"
  have "Combine h p (p + s) = Some h'"
    using R(3) S(1,6) block_put(1) [OF rep B(9,10) fit] last
    by (cases "ys = []") (simp_all add: Combine_def Let_def h'_def sum add.assoc del: of_nat_add)
  moreover have "heap_rep h' (xs @ (s + t, False) # ys)"
    by (rule join_two [OF rep, folded p_def]) (use B(4) in \<open>auto simp: h'_def\<close>)
  ultimately show ?thesis by blast
qed

lemma free_next_spec:
  assumes rep: "heap_rep h (xs @ (sz, True) # ys)"
  defines "p \<equiv> DSIZE + span_of xs"
  shows "\<exists>h'. free_next h p = Some h' \<and> heap_rep h' (xs @ join_next sz ys)"
proof -
  note B = block_chain [OF rep, folded p_def] and R = block_reads [OF rep, folded p_def]
  have fit: "p + 16 \<le> DEFAULT_MEM_SIZE" using B(4,7) by simp
  have clear: "\<exists>h'. PUTW h p (of_nat sz) = Some h' \<and> heap_rep h' (xs @ (sz, False) # ys)"
    using replace_one [OF rep, of "h\<lparr>hmem := (hmem h)(p := of_nat sz)\<rparr>" False] block_put(1) [OF rep B(9,10) fit]
    by (simp add: p_def)
  show ?thesis
  proof (cases ys)
    case Nil
    then show ?thesis using R clear by (simp add: free_next_def)
  next
    case (Cons b zs)
    obtain t al where b: "b = (t, al)" by (cases b)
    have "heap_rep h ((xs @ [(sz, True)]) @ (t, al) # zs)" using rep Cons b by simp
    from block_reads(4) [OF this] have al: "GET_ALLOC h (p + sz) = Some al" by (simp add: p_def add.assoc)
    show ?thesis
    proof (cases al)
      case True
      then show ?thesis using R al clear Cons b by (simp add: free_next_def)
    next
      case False
      have "heap_rep h (xs @ (sz, True) # (t, False) # zs)" using rep Cons b False by simp
      from Combine_spec [OF this] show ?thesis using R al Cons b False by (simp add: free_next_def p_def)
    qed
  qed
qed

lemma free_prev_spec:
  assumes rep: "heap_rep h (xs @ (t, False) # ys)"
  shows "\<exists>h'. free_prev h (DSIZE + span_of xs) = Some h' \<and> heap_rep h' (join_prev xs ((t, False) # ys))"
proof (cases xs rule: rev_cases)
  case Nil
  then show ?thesis using rep by (simp add: free_prev_def PREV_BLKP_def)
next
  case (snoc zs b)
  obtain s al where b: "b = (s, al)" by (cases b)
  have rep2: "heap_rep h (zs @ (s, al) # (t, False) # ys)" using rep snoc b by simp
  note R = block_reads [OF rep] and S = block_reads [OF rep2] and B = block_chain [OF rep2]
  have p: "DSIZE + span_of xs = DSIZE + span_of zs + s" using snoc b by simp
  have prev: "PREV_BLKP h (DSIZE + span_of xs) = Some (Some (DSIZE + span_of zs))"
    using R(2) S(5) B(4) snoc b by (simp add: PREV_BLKP_def)
  show ?thesis
  proof (cases al)
    case True
    then show ?thesis using prev S(4) rep snoc b join_prev_snoc(2) by (simp add: free_prev_def)
  next
    case False
    then show ?thesis using prev S(4) Combine_spec [OF rep2] snoc b join_prev_snoc(1) [of zs s t False ys]
      by (simp add: free_prev_def p add.assoc)
  qed
qed

lemma free_spec:
  assumes "heap_rep h (xs @ (sz, True) # ys)"
  shows "\<exists>h'. free h (Some (DSIZE + span_of xs + DSIZE)) = Some h' \<and> heap_rep h' (release_at xs sz ys)"
proof -
  obtain h1 where h1: "free_next h (DSIZE + span_of xs) = Some h1" "heap_rep h1 (xs @ join_next sz ys)"
    using free_next_spec [OF assms] by blast
  obtain t zs where j: "join_next sz ys = (t, False) # zs" by (cases "(sz, ys)" rule: join_next.cases) auto
  from free_prev_spec [OF h1(2) [unfolded j]] show ?thesis using h1(1) j by (simp add: free_def release_at_def)
qed

section \<open>Regions\<close>

text \<open>The allocated blocks, each with its address and size.\<close>

fun regions :: "nat \<Rightarrow> block list \<Rightarrow> (nat \<times> nat) list" where
  "regions a [] = []"
| "regions a ((sz, al) # bs) = (if al then [(a, sz)] else []) @ regions (a + sz) bs"

lemma regions_append: "regions a (xs @ ys) = regions a xs @ regions (a + span_of xs) ys"
  by (induction xs arbitrary: a) (auto simp: add.assoc)

lemma regions_bounds: "(p, k) \<in> set (regions a bs) \<Longrightarrow> a \<le> p \<and> p + k \<le> a + span_of bs"
proof (induction bs arbitrary: a)
  case (Cons b bs)
  obtain sz al where b: "b = (sz, al)" by (cases b)
  show ?case
  proof (cases "(p, k) \<in> set (regions (a + sz) bs)")
    case True
    from Cons.IH [OF this] show ?thesis using b by simp
  next
    case False
    then show ?thesis using Cons.prems b by (auto split: if_splits)
  qed
qed simp

lemma take_first_split:
  assumes "take_first n a bs = Some (p, bs')"
  obtains xs s ys where "bs = xs @ (s, False) # ys" "p = a + span_of xs" "n \<le> s" "bs' = xs @ carve n s @ ys"
proof -
  obtain q s where "first_fit n a bs = Some (q, s)" using first_fit_none [of n a bs] assms by (cases "first_fit n a bs") auto
  from first_fit_split [OF this] show thesis using that assms by auto
qed

lemma carve_region:
  assumes "n \<le> s"
  obtains m where "regions a (carve n s) = [(a, m)]" "n \<le> m" "m \<le> s" "span_of (carve n s) = s"
  using assms that by (cases "s - n \<le> DSIZE") (auto simp: carve_def)

lemma take_first_fresh:
  assumes "take_first n a bs = Some (p, bs')"
  obtains m where "set (regions a bs') = insert (p, m) (set (regions a bs))" "n \<le> m"
    "a \<le> p" "p + m \<le> a + span_of bs"
    "\<And>q k. (q, k) \<in> set (regions a bs) \<Longrightarrow> q + k \<le> p \<or> p + m \<le> q"
proof -
  obtain xs s ys where x: "bs = xs @ (s, False) # ys" "p = a + span_of xs" "n \<le> s" "bs' = xs @ carve n s @ ys"
    by (rule take_first_split [OF assms])
  obtain m where m: "regions p (carve n s) = [(p, m)]" "n \<le> m" "m \<le> s" "span_of (carve n s) = s"
    by (rule carve_region [OF x(3)])
  show thesis
  proof (rule that [OF _ m(2)])
    show "set (regions a bs') = insert (p, m) (set (regions a bs))"
      using m(1,4) x(2) by (auto simp: x(1,4) regions_append add.assoc)
    show "a \<le> p" "p + m \<le> a + span_of bs" using x(1,2) m(3) by simp_all
    fix q k assume "(q, k) \<in> set (regions a bs)"
    then have "(q, k) \<in> set (regions a xs) \<or> (q, k) \<in> set (regions (p + s) ys)"
      using x(1,2) by (auto simp: regions_append add.assoc)
    then show "q + k \<le> p \<or> p + m \<le> q" using regions_bounds m(3) x(2) by fastforce
  qed
qed

lemma regions_apart:
  assumes "(p, m) \<in> set (regions a bs)" "(q, n) \<in> set (regions a bs)" "(p, m) \<noteq> (q, n)"
  shows "p + m \<le> q \<or> q + n \<le> p"
  using assms
proof (induction bs arbitrary: a)
  case (Cons b bs)
  obtain sz al where b: "b = (sz, al)" by (cases b)
  have "a + sz \<le> x" if "(x, k) \<in> set (regions (a + sz) bs)" for x k
    using regions_bounds [OF that] by simp
  then show ?case using Cons b by (auto split: if_splits)
qed simp

lemma regions_split:
  assumes "(p, m) \<in> set (regions a bs)"
  obtains xs ys where "bs = xs @ (m, True) # ys" "p = a + span_of xs"
proof -
  have "\<exists>xs ys. bs = xs @ (m, True) # ys \<and> p = a + span_of xs"
    using assms
  proof (induction bs arbitrary: a)
    case (Cons b bs)
    obtain sz al where b: "b = (sz, al)" by (cases b)
    show ?case
    proof (cases "(p, m) \<in> set (regions (a + sz) bs)")
      case True
      then obtain xs ys where "bs = xs @ (m, True) # ys" "p = a + sz + span_of xs" using Cons.IH by blast
      then show ?thesis using b by (intro exI [of _ "b # xs"] exI [of _ ys]) simp
    next
      case False
      then show ?thesis using Cons.prems b by (intro exI [of _ "[]"] exI [of _ bs]) (auto split: if_splits)
    qed
  qed simp
  then show thesis using that by blast
qed

lemma regions_join_next: "regions a (join_next s ys) = regions (a + s) ys"
  by (cases "(s, ys)" rule: join_next.cases) (auto simp: add.assoc)

lemma regions_join_prev: "regions a (join_prev xs ((s, False) # bs)) = regions a xs @ regions (a + span_of xs + s) bs"
  by (induction xs "(s, False) # bs" arbitrary: a rule: join_prev.induct) (auto simp: add.assoc)

lemma regions_release:
  assumes "heap_rep h (xs @ (m, True) # ys)"
  shows "set (regions DSIZE (release_at xs m ys))
    = set (regions DSIZE (xs @ (m, True) # ys)) - {(DSIZE + span_of xs, m)}"
proof -
  let ?p = "DSIZE + span_of xs"
  obtain t zs where j: "join_next m ys = (t, False) # zs" by (cases "(m, ys)" rule: join_next.cases) auto
  have "regions (?p + t) zs = regions (?p + m) ys" using regions_join_next [of ?p m ys] j by simp
  then have "regions DSIZE (release_at xs m ys) = regions DSIZE xs @ regions (?p + m) ys"
    by (simp add: release_at_def j regions_join_prev)
  moreover have "16 \<le> m" using block_chain(4) [OF assms] .
  then have "(?p, m) \<notin> set (regions DSIZE xs)" "(?p, m) \<notin> set (regions (?p + m) ys)"
    using regions_bounds [of ?p m DSIZE xs] regions_bounds [of ?p m "?p + m" ys] by auto
  ultimately show ?thesis by (auto simp: regions_append)
qed

section \<open>The allocator as an interface\<close>

text \<open>What the rest of the kernel relies on: \<open>owns h R\<close> says that the regions \<open>R\<close>, each an
  address and a number of usable bytes, are handed out.\<close>

locale allocator =
  fixes alloc :: "'h \<Rightarrow> 32 word \<Rightarrow> (nat option \<times> 'h) option" and release :: "'h \<Rightarrow> nat option \<Rightarrow> 'h option"
    and owns :: "'h \<Rightarrow> (nat \<times> nat) set \<Rightarrow> bool" and limit :: nat
  assumes alloc_cases: "owns h R \<Longrightarrow> sz \<noteq> 0 \<Longrightarrow> unat sz \<le> 2 ^ 32 - 16 \<Longrightarrow>
      alloc h sz = Some (None, h)
      \<or> (\<exists>q m h'. alloc h sz = Some (Some q, h') \<and> unat sz \<le> m \<and> (q, m) \<notin> R \<and> owns h' (insert (q, m) R))"
    and release_owned: "owns h R \<Longrightarrow> (q, m) \<in> R \<Longrightarrow> \<exists>h'. release h (Some q) = Some h' \<and> owns h' (R - {(q, m)})"
    and owned_apart: "owns h R \<Longrightarrow> (p, m) \<in> R \<Longrightarrow> (q, n) \<in> R \<Longrightarrow> (p, m) \<noteq> (q, n) \<Longrightarrow> p + m < q \<or> q + n < p"
    and owned_inside: "owns h R \<Longrightarrow> (q, m) \<in> R \<Longrightarrow> 0 < q \<and> q + m \<le> limit"
begin

text \<open>Every index of \<open>I\<close> holds a region of its own of at least \<open>n\<close> bytes, at \<open>f i\<close>.\<close>

definition holders :: "'h \<Rightarrow> (nat \<Rightarrow> nat) \<Rightarrow> nat set \<Rightarrow> nat \<Rightarrow> bool" where
  "holders h f I n \<longleftrightarrow> (\<exists>R. owns h R \<and> (\<forall>i\<in>I. \<exists>m. n \<le> m \<and> (f i, m) \<in> R) \<and> inj_on f I)"

lemma owned_same: "owns h R \<Longrightarrow> (q, m) \<in> R \<Longrightarrow> (q, n) \<in> R \<Longrightarrow> m = n"
  using owned_apart [of h R q m q n] by auto

lemma holders_apart:
  assumes "holders h f I n" "i \<in> I" "j \<in> I" "i \<noteq> j"
  shows "f i + n < f j \<or> f j + n < f i"
proof -
  obtain R where R: "owns h R" "\<forall>i\<in>I. \<exists>m. n \<le> m \<and> (f i, m) \<in> R" "inj_on f I"
    using assms(1) by (auto simp: holders_def)
  obtain m k where "n \<le> m" "(f i, m) \<in> R" "n \<le> k" "(f j, k) \<in> R" using R(2) assms(2,3) by blast
  moreover have "f i \<noteq> f j" using R(3) assms(2-4) by (auto dest: inj_onD)
  ultimately show ?thesis using owned_apart [OF R(1), of "f i" m "f j" k] by auto
qed

lemma holders_inside: "holders h f I n \<Longrightarrow> i \<in> I \<Longrightarrow> 0 < f i \<and> f i + n \<le> limit"
  unfolding holders_def using owned_inside by fastforce

lemma holders_cong: "(\<And>i. i \<in> I \<Longrightarrow> f i = g i) \<Longrightarrow> holders h f I n \<longleftrightarrow> holders h g I n"
  by (simp add: holders_def cong: inj_on_cong)

lemma holders_alloc:
  assumes "holders h f I n" "i \<notin> I" "0 < n" "n \<le> 2 ^ 32 - 16"
  obtains (none) "alloc h (of_nat n) = Some (None, h)"
  | (some) q h' where "alloc h (of_nat n) = Some (Some q, h')" "0 < q" "q + n \<le> limit"
      "holders h' (f(i := q)) (insert i I) n"
proof -
  obtain R where R: "owns h R" "\<forall>i\<in>I. \<exists>m. n \<le> m \<and> (f i, m) \<in> R" "inj_on f I"
    using assms(1) by (auto simp: holders_def)
  have u: "unat (of_nat n :: 32 word) = n" using assms(4) by (simp add: unat_of_nat)
  then have "(of_nat n :: 32 word) \<noteq> 0" using assms(3) by auto
  with alloc_cases [OF R(1) this] u assms(4) consider "alloc h (of_nat n) = Some (None, h)"
    | q m h' where "alloc h (of_nat n) = Some (Some q, h')" "n \<le> m" "(q, m) \<notin> R" "owns h' (insert (q, m) R)"
    by auto
  then show thesis
  proof cases
    case 2
    have new: "q \<noteq> f j" if "j \<in> I" for j
    proof
      assume "q = f j"
      with R(2) that obtain k where "(q, k) \<in> R" by auto
      then show False using owned_same [OF 2(4), of q m k] 2(3) by auto
    qed
    have "holders h' (f(i := q)) (insert i I) n"
      unfolding holders_def
    proof (intro exI [of _ "insert (q, m) R"] conjI)
      show "\<forall>j\<in>insert i I. \<exists>k. n \<le> k \<and> ((f(i := q)) j, k) \<in> insert (q, m) R"
        using R(2) 2(2) by auto
      show "inj_on (f(i := q)) (insert i I)" using R(3) new assms(2) by (auto simp: inj_on_def)
    qed (rule 2(4))
    then show ?thesis using some [OF 2(1)] owned_inside [OF 2(4), of q m] 2(2) by auto
  qed (rule none)
qed

lemma holders_release:
  assumes "holders h f I n" "i \<in> I"
  obtains h' where "release h (Some (f i)) = Some h'" "holders h' f (I - {i}) n"
proof -
  obtain R where R: "owns h R" "\<forall>i\<in>I. \<exists>m. n \<le> m \<and> (f i, m) \<in> R" "inj_on f I"
    using assms(1) by (auto simp: holders_def)
  obtain m where m: "(f i, m) \<in> R" using R(2) assms(2) by blast
  obtain h' where h': "release h (Some (f i)) = Some h'" "owns h' (R - {(f i, m)})"
    using release_owned [OF R(1) m] by blast
  have "f j \<noteq> f i" if "j \<in> I - {i}" for j using that R(3) assms(2) by (auto dest: inj_onD)
  then have "\<forall>j\<in>I - {i}. \<exists>k. n \<le> k \<and> (f j, k) \<in> R - {(f i, m)}" using R(2) by auto
  moreover have "inj_on f (I - {i})" using R(3) by (rule inj_on_subset) simp
  ultimately have "holders h' f (I - {i}) n" unfolding holders_def using h'(2) by blast
  with h'(1) show thesis by (rule that)
qed

end

definition heap_owns :: "heap \<Rightarrow> (nat \<times> nat) set \<Rightarrow> bool" where
  "heap_owns h R \<longleftrightarrow> (\<exists>bs. heap_rep h bs \<and> R = (\<lambda>(a, k). (a + DSIZE, k - DSIZE)) ` set (regions DSIZE bs))"

lemma heap_region_size: "heap_rep h bs \<Longrightarrow> (p, k) \<in> set (regions DSIZE bs) \<Longrightarrow> 16 \<le> k"
  by (auto elim!: regions_split dest: block_chain(4))

interpretation kheap: allocator malloc free heap_owns DEFAULT_MEM_SIZE
proof
  fix h :: heap and R and sz :: "32 word"
  assume "heap_owns h R" and sz: "sz \<noteq> 0" "unat sz \<le> 2 ^ 32 - 16"
  then obtain bs where bs: "heap_rep h bs" "R = (\<lambda>(a, k). (a + DSIZE, k - DSIZE)) ` set (regions DSIZE bs)"
    by (auto simp: heap_owns_def)
  show "malloc h sz = Some (None, h) \<or> (\<exists>q m h'. malloc h sz = Some (Some q, h') \<and> unat sz \<le> m
      \<and> (q, m) \<notin> R \<and> heap_owns h' (insert (q, m) R))"
  proof (cases "take_first (need sz) DSIZE bs")
    case None
    then show ?thesis using malloc_spec [OF bs(1) sz] by simp
  next
    case (Some r)
    then obtain p bs' h' where t: "take_first (need sz) DSIZE bs = Some (p, bs')"
      and h': "malloc h sz = Some (Some (p + DSIZE), h')" "heap_rep h' bs'"
      using malloc_spec [OF bs(1) sz] by (cases r) auto
    obtain m where m: "set (regions DSIZE bs') = insert (p, m) (set (regions DSIZE bs))" "need sz \<le> m"
      "\<And>q k. (q, k) \<in> set (regions DSIZE bs) \<Longrightarrow> q + k \<le> p \<or> p + m \<le> q"
      by (rule take_first_fresh [OF t], rule that)
    have "heap_owns h' (insert (p + DSIZE, m - DSIZE) R)"
      unfolding heap_owns_def using h'(2) m(1) bs(2) by (intro exI [of _ bs']) auto
    moreover have "(p + DSIZE, m - DSIZE) \<notin> R"
      using m(2,3) need_props(2) [OF sz(1)] heap_region_size [OF bs(1)] by (fastforce simp: bs(2))
    moreover have "unat sz \<le> m - DSIZE" using m(2) need_props(3) [of sz] by simp
    ultimately show ?thesis using h'(1) by blast
  qed
next
  fix h :: heap and R and q m :: nat
  assume "heap_owns h R" "(q, m) \<in> R"
  then obtain bs p k where bs: "heap_rep h bs" "R = (\<lambda>(a, k). (a + DSIZE, k - DSIZE)) ` set (regions DSIZE bs)"
    and p: "(p, k) \<in> set (regions DSIZE bs)" "q = p + DSIZE" "m = k - DSIZE"
    by (auto simp: heap_owns_def)
  obtain xs ys where xs: "bs = xs @ (k, True) # ys" "p = DSIZE + span_of xs" by (rule regions_split [OF p(1)])
  obtain h' where h': "free h (Some q) = Some h'" "heap_rep h' (release_at xs k ys)"
    using free_spec [OF bs(1) [unfolded xs(1)]] p(2) xs(2) by auto
  have inj: "inj_on (\<lambda>(a, k). (a + DSIZE, k - DSIZE)) (set (regions DSIZE bs))"
    using heap_region_size [OF bs(1)] by (fastforce simp: inj_on_def)
  have "set (regions DSIZE (release_at xs k ys)) = set (regions DSIZE bs) - {(p, k)}"
    using regions_release [OF bs(1) [unfolded xs(1)]] xs by simp
  then have "heap_owns h' (R - {(q, m)})"
    unfolding heap_owns_def using h'(2) inj_on_image_set_diff [OF inj, of "set (regions DSIZE bs)" "{(p, k)}"] p bs(2)
    by (intro exI [of _ "release_at xs k ys"]) auto
  with h'(1) show "\<exists>h'. free h (Some q) = Some h' \<and> heap_owns h' (R - {(q, m)})" by blast
next
  fix h :: heap and R and p m q n :: nat
  assume o: "heap_owns h R" and pq: "(p, m) \<in> R" "(q, n) \<in> R" "(p, m) \<noteq> (q, n)"
  obtain bs where rep: "heap_rep h bs" and R: "R = (\<lambda>(a, k). (a + DSIZE, k - DSIZE)) ` set (regions DSIZE bs)"
    using o by (auto simp: heap_owns_def)
  obtain a k where a: "(a, k) \<in> set (regions DSIZE bs)" "p = a + DSIZE" "m = k - DSIZE" using pq(1) R by auto
  obtain b l where b: "(b, l) \<in> set (regions DSIZE bs)" "q = b + DSIZE" "n = l - DSIZE" using pq(2) R by auto
  have "(a, k) \<noteq> (b, l)" using pq(3) a b by auto
  then show "p + m < q \<or> q + n < p"
    using regions_apart [OF a(1) b(1)] heap_region_size [OF rep a(1)] heap_region_size [OF rep b(1)] a(2,3) b(2,3) by auto
next
  fix h :: heap and R and q m :: nat
  assume "heap_owns h R" "(q, m) \<in> R"
  then obtain bs a k where bs: "heap_rep h bs" "(a, k) \<in> set (regions DSIZE bs)" "q = a + DSIZE" "m = k - DSIZE"
    by (auto simp: heap_owns_def)
  then show "0 < q \<and> q + m \<le> DEFAULT_MEM_SIZE"
    using regions_bounds [OF bs(2)] heap_region_size [OF bs(1,2)] by (auto simp: heap_rep_def)
qed

section \<open>Undoing an allocation\<close>

text \<open>No two neighbours are free: what \<^verbatim>\<open>init_heap\<close> sets up and \<^verbatim>\<open>free\<close> keeps.\<close>

fun compact :: "block list \<Rightarrow> bool" where
  "compact ((s, a) # (t, b) # bs) \<longleftrightarrow> (a \<or> b) \<and> compact ((t, b) # bs)"
| "compact bs = True"

lemma compact_Cons: "compact ((s, al) # bs) \<longleftrightarrow> (bs = [] \<or> al \<or> snd (hd bs)) \<and> compact bs"
  by (cases bs) auto

lemma compact_append: "compact (xs @ ys) \<longleftrightarrow> compact xs \<and> compact ys \<and> (xs = [] \<or> ys = [] \<or> snd (last xs) \<or> snd (hd ys))"
proof (induction xs)
  case (Cons x xs)
  obtain s al where "x = (s, al)" by (cases x)
  then show ?case using Cons by (cases xs) (auto simp: compact_Cons)
qed simp




lemma release_compact:
  assumes "compact (xs @ (sz, True) # ys)"
  shows "compact (release_at xs sz ys)"
proof -
  have ys: "compact ys" and xs: "compact xs" using assms by (auto simp: compact_append compact_Cons)
  obtain t zs where j: "join_next sz ys = (t, False) # zs" "compact ((t, False) # zs)"
    using ys by (cases "(sz, ys)" rule: join_next.cases) (auto simp: compact_Cons)
  show ?thesis
  proof (cases xs rule: rev_cases)
    case (snoc us b)
    obtain s al where "b = (s, al)" by (cases b)
    then show ?thesis using snoc j xs join_prev_snoc [of us s]
      by (cases al) (auto simp: release_at_def compact_append compact_Cons)
  qed (use j in \<open>simp add: release_at_def\<close>)
qed

section \<open>Properties\<close>

lemma init_heap_rep: "\<exists>h. init_heap g = Some h \<and> heap_rep h [(DEFAULT_MEM_SIZE - DSIZE, False)]"
  by (simp add: init_heap_def PUTW_def heap_rep_def Let_def)

text \<open>C24: The allocator refines first fit with boundary tags on a list of blocks.  On a heap
  that represents a list, \<^verbatim>\<open>malloc\<close> of up to \<open>2^32 - 16\<close> bytes takes the first free block that
  is large enough, splits it when the rest is worth a block, returns the address behind the
  header, or \<^verbatim>\<open>NULL\<close> and no change exactly when there is none; \<^verbatim>\<open>free\<close> of an allocated block
  makes it free and joins it with a free block after it and one before it.  Both leave a heap
  that represents the new list.\<close>

theorem heap_refines:
  assumes "heap_rep h bs"
  shows "(sz \<noteq> 0 \<longrightarrow> unat sz \<le> 2 ^ 32 - 16 \<longrightarrow>
      (case take_first (need sz) DSIZE bs of
         None \<Rightarrow> malloc h sz = Some (None, h)
       | Some (p, bs') \<Rightarrow> \<exists>h'. malloc h sz = Some (Some (p + DSIZE), h') \<and> heap_rep h' bs'))
    \<and> (\<forall>xs s ys. bs = xs @ (s, True) # ys \<longrightarrow>
      (\<exists>h'. free h (Some (DSIZE + span_of xs + DSIZE)) = Some h' \<and> heap_rep h' (release_at xs s ys)))"
  using malloc_spec [OF assms] free_spec assms by blast

lemma need_100: "need 100 = 112"
  by (simp add: need_def)

theorem heap_refines_witness:
  "\<exists>h h'. init_heap (\<lambda>_. 0) = Some h \<and> malloc h 100 = Some (Some 16, h')
    \<and> heap_rep h' [(112, True), (1048456, False)]"
proof -
  obtain h where h: "init_heap (\<lambda>_. 0) = Some h" "heap_rep h [(DEFAULT_MEM_SIZE - DSIZE, False)]"
    using init_heap_rep by blast
  then show ?thesis using heap_refines [OF h(2), of 100] by (simp add: need_100 carve_def)
qed

text \<open>C25: \<^verbatim>\<open>malloc\<close> hands out fresh memory.  What it returns for a request of 1 to
  \<open>2^32 - 16\<close> bytes (above that the computation of the size wraps) lies 8-aligned in the heap
  and starts a region that is large enough and overlaps no region allocated before; those
  regions stay allocated, with their addresses and sizes.\<close>

theorem malloc_fresh:
  assumes "heap_rep h bs" "sz \<noteq> 0" "unat sz \<le> 2 ^ 32 - 16" "malloc h sz = Some (Some q, h')"
  shows "\<exists>bs' m. heap_rep h' bs' \<and> set (regions DSIZE bs') = insert (q - DSIZE, m) (set (regions DSIZE bs))
    \<and> 8 dvd q \<and> unat sz + DSIZE \<le> m \<and> 2 * DSIZE \<le> q \<and> q - DSIZE + m \<le> DEFAULT_MEM_SIZE
    \<and> (\<forall>(p, k) \<in> set (regions DSIZE bs). p + k \<le> q - DSIZE \<or> q - DSIZE + m \<le> p)"
proof -
  note M = malloc_spec [OF assms(1-3)]
  obtain p bs' where t: "take_first (need sz) DSIZE bs = Some (p, bs')"
    using M assms(4) by (cases "take_first (need sz) DSIZE bs") auto
  then have q: "q = p + DSIZE" "heap_rep h' bs'" using M assms(4) by auto
  obtain m where m: "set (regions DSIZE bs') = insert (p, m) (set (regions DSIZE bs))" "need sz \<le> m"
    "DSIZE \<le> p" "p + m \<le> DSIZE + span_of bs"
    "\<And>q k. (q, k) \<in> set (regions DSIZE bs) \<Longrightarrow> q + k \<le> p \<or> p + m \<le> q"
    by (rule take_first_fresh [OF t], rule that)
  obtain xs s ys where x: "bs = xs @ (s, False) # ys" "p = DSIZE + span_of xs" by (rule take_first_split [OF t])
  then have "8 dvd p" using block_chain(9) [of h xs s False ys] assms(1) by simp
  then have "8 dvd q" by (simp add: q(1))
  moreover have "DSIZE + span_of bs = DEFAULT_MEM_SIZE" using assms(1) by (simp add: heap_rep_def)
  ultimately show ?thesis using q m need_props(3) [of sz] by (intro exI [of _ bs'] exI [of _ m]) auto
qed

theorem malloc_fresh_witness:
  "\<exists>h h'. init_heap (\<lambda>_. 0) = Some h \<and> malloc h 100 = Some (Some 16, h') \<and> (\<exists>bs'. heap_rep h' bs')"
proof -
  obtain h where h: "init_heap (\<lambda>_. 0) = Some h" "heap_rep h [(DEFAULT_MEM_SIZE - DSIZE, False)]"
    using init_heap_rep by blast
  obtain h' where m: "malloc h 100 = Some (Some 16, h')"
    using malloc_spec [OF h(2), of 100] by (auto simp: need_100)
  then show ?thesis using h(1) malloc_fresh [OF h(2) _ _ m] by auto
qed



text \<open>The block size after all overflows of the rounding is still a multiple of 8.\<close>

lemma blocksize_dvd: "8 dvd unat (round8 sz + of_nat DSIZE)"
proof -
  have "unat (round8 sz + of_nat DSIZE) = (unat (drop_bit 3 (sz + 7)) * 8 mod 2 ^ 32 + 8) mod 2 ^ 32"
    by (simp add: round8_def push_bit_eq_mult unat_word_ariths mult.commute)
  moreover have "8 dvd x * 8 mod 2 ^ 32" for x :: nat by (rule dvd_mod) simp_all
  then have "8 dvd (x * 8 mod 2 ^ 32 + 8) mod 2 ^ 32" for x :: nat by (intro dvd_mod dvd_add) simp_all
  ultimately show ?thesis by simp
qed

text \<open>C27: \<^verbatim>\<open>malloc\<close> terminates.  On every represented heap and for every request, also those
  whose size overflows, the search ends and the call returns without leaving the heap.\<close>

theorem malloc_returns:
  assumes "heap_rep h bs"
  shows "\<exists>r h'. malloc h sz = Some (r, h')"
proof (cases "sz = 0")
  case False
  let ?w = "round8 sz + of_nat DSIZE"
  show ?thesis
  proof (cases "first_fit (unat ?w) DSIZE bs")
    case None
    then show ?thesis using heap_rep_first [OF assms, of ?w] by (simp add: malloc_def Let_def)
  next
    case (Some r)
    obtain p s where r: "r = (p, s)" by (cases r)
    obtain xs ys where x: "bs = xs @ (s, False) # ys" "p = DSIZE + span_of xs" "unat ?w \<le> s"
      using first_fit_split [OF Some [unfolded r]] by blast
    note rep = assms [unfolded x(1)]
    note B = block_chain [OF rep, folded x(2)] and R = block_reads [OF rep, folded x(2)]
    have find: "find_fit h (Some DSIZE) ?w = Some (Some (p, of_nat s))"
      using heap_rep_first [OF assms, of ?w] Some r by simp
    have fit: "p + 16 \<le> DEFAULT_MEM_SIZE" using B(4,7) by simp
    note put = block_put [OF assms B(9,10) fit]
    have diff: "unat (of_nat s - ?w :: 32 word) = s - unat ?w"
      using x(3) R(5) by (simp add: unat_sub word_le_nat_alt)
    show ?thesis
    proof (cases "of_nat s - ?w \<le> of_nat DSIZE")
      case True
      then show ?thesis using find put False by (simp add: malloc_def Let_def)
    next
      case big: False
      then have "8 < s - unat ?w" using diff by (simp add: word_le_nat_alt)
      moreover have "8 dvd s - unat ?w" using B(5) blocksize_dvd [of sz] by auto
      ultimately have room: "unat ?w + 16 \<le> s" by auto
      have f: "8 dvd p + unat ?w" "DSIZE \<le> p + unat ?w" "p + unat ?w + 16 \<le> DEFAULT_MEM_SIZE"
        using B(7,9,10) blocksize_dvd [of sz] room by auto
      note put2 = block_put [OF assms f]
      have last: "PUTW h' (p + s + WSIZE) v = Some (h'\<lparr>hmem := (hmem h')(p + s + WSIZE := v)\<rparr>)" if "ys \<noteq> []" for h' v
      proof -
        have "16 \<le> span_of ys" using that B(6) by (cases ys) auto
        moreover have "8 dvd p + s" using B(5,9) by simp
        ultimately show ?thesis using block_put(2) [OF assms, of "p + s"] B(7,10) by simp
      qed
      show ?thesis
        using find big put put2 last R(6) False by (cases "ys = []") (auto simp: malloc_def Let_def)
    qed
  qed
qed (simp add: malloc_def)

theorem malloc_returns_witness:
  "\<exists>h r h'. init_heap (\<lambda>_. 0) = Some h \<and> malloc h 0xFFFFFFFF = Some (r, h')"
  using init_heap_rep [of "\<lambda>_. 0"] malloc_returns by blast

text \<open>C28: A request of nearly 4 GB overflows.  For sizes from \<open>2^32 - 15\<close> to \<open>2^32 - 8\<close> the
  block size wraps to 0: on the initial heap \<^verbatim>\<open>malloc\<close> returns the address of the first
  block instead of \<^verbatim>\<open>NULL\<close> and leaves the heap unchanged, so the next call returns the same
  memory again.\<close>

theorem malloc_overflow:
  assumes "init_heap g = Some h" "2 ^ 32 - 16 < unat sz" "unat sz \<le> 2 ^ 32 - 8"
  shows "malloc h sz = Some (Some 16, h)"
proof -
  have h: "heap_rep h [(DEFAULT_MEM_SIZE - DSIZE, False)]" using init_heap_rep [of g] assms(1) by auto
  have w: "hmem h 8 = of_nat (DEFAULT_MEM_SIZE - DSIZE)" "hmem h 12 = 0" "LASTPTR h = 8"
    using assms(1) by (auto simp: init_heap_def PUTW_def Let_def)
  have "unat (sz + 7) = unat sz + 7" using assms(3) by (simp add: unat_word_ariths)
  then have "unat (drop_bit 3 (sz + 7)) = (unat sz + 7) div 8"
    by (simp only: unat_drop_bit_eq) (simp add: drop_bit_eq_div)
  moreover have "(unat sz + 7) div 8 = 536870911" using assms(2,3) by (intro div_nat_eqI) simp_all
  ultimately have "unat (round8 sz) = 4294967288"
    by (simp add: round8_def push_bit_eq_mult unat_word_ariths)
  then have "unat (round8 sz + of_nat DSIZE) = 0" by (simp add: unat_word_ariths)
  then have z: "round8 sz + of_nat DSIZE = 0" by (simp only: unat_eq_zero)
  have find: "find_fit h (Some DSIZE) 0 = Some (Some (8, of_nat (DEFAULT_MEM_SIZE - DSIZE)))"
    using heap_rep_first [OF h, of 0] by simp
  have nz: "sz \<noteq> 0" using assms(2) by auto
  have "(hmem h)(8 := v, 8 := of_nat (DEFAULT_MEM_SIZE - DSIZE), 12 := 0) = hmem h" for v using w by (auto simp: fun_eq_iff)
  then have same: "h\<lparr>hmem := (hmem h)(8 := v, 8 := of_nat (DEFAULT_MEM_SIZE - DSIZE), 12 := 0), LASTPTR := 8\<rparr> = h" for v
    using w(3) by simp
  show ?thesis
    using nz find same w(3) unfolding malloc_def Let_def z
    by (simp add: NEXT_BLKP_def PUTW_def word_le_nat_alt)
qed

theorem malloc_overflow_witness:
  "\<exists>h. init_heap (\<lambda>_. 0) = Some h \<and> malloc h 0xFFFFFFF8 = Some (Some 16, h)"
proof -
  obtain h where "init_heap (\<lambda>_. 0) = Some h" using init_heap_rep by blast
  then show ?thesis using malloc_overflow [of "\<lambda>_. 0" h "0xFFFFFFF8"] by simp
qed

end
