(* ===== verification/Fifos_Screen.thy ===== *)
theory Fifos_Screen
  imports Prelude
begin

text \<open>
  Text output of the FIFOS kernel, \<^verbatim>\<open>FileSystem-v3/print.c\<close>: a cursor on a screen of 24 rows
  of 80 cells, each two bytes of video memory, a character and its colour.  \<open>video\<close> gives
  the byte at each offset from \<^verbatim>\<open>VIDEO\<close>; a write outside the cells of the screen is
  undefined.  A C string is the contents of its buffer, and reading past the buffer is
  undefined.
\<close>

section \<open>The code\<close>

abbreviation COLUMNS :: int where "COLUMNS \<equiv> 80"
abbreviation LINES :: int where "LINES \<equiv> 24"
abbreviation ATTRIBUTE :: "8 word" where "ATTRIBUTE \<equiv> 7"

record screen =
  video :: "int \<Rightarrow> 8 word"
  xpos :: int
  ypos :: int

definition poke :: "screen \<Rightarrow> int \<Rightarrow> 8 word \<Rightarrow> screen option" where
  "poke s i b =
     (if 0 \<le> i \<and> i < COLUMNS * LINES * 2 then Some (s\<lparr>video := (video s)(i := b)\<rparr>) else None)"

fun cls_loop :: "screen \<Rightarrow> int \<Rightarrow> nat \<Rightarrow> screen option" where
  "cls_loop s i 0 = Some s"
| "cls_loop s i (Suc n) = do { s1 \<leftarrow> poke s i 0; cls_loop s1 (i + 1) n }"

definition cls :: "screen \<Rightarrow> screen option" where
  "cls s = do { s1 \<leftarrow> cls_loop s 0 (nat (COLUMNS * LINES * 2)); Some (s1\<lparr>xpos := 0, ypos := 0\<rparr>) }"

definition newline :: "screen \<Rightarrow> screen option" where
  "newline s =
     (let s1 = s\<lparr>xpos := 0, ypos := ypos s + 1\<rparr> in
      if LINES \<le> ypos s1 then do { s2 \<leftarrow> cls s1; Some (s2\<lparr>ypos := 0\<rparr>) } else Some s1)"

definition put_char :: "screen \<Rightarrow> char \<Rightarrow> screen option" where
  "put_char s ch =
     (if ch = CHR 0x0A \<or> ch = CHR 0x0D then newline s
      else do {
        s1 \<leftarrow> poke s ((xpos s + ypos s * COLUMNS) * 2) (of_char ch AND 0xFF);
        s2 \<leftarrow> poke s1 ((xpos s + ypos s * COLUMNS) * 2 + 1) ATTRIBUTE;
        let s3 = s2\<lparr>xpos := xpos s + 1\<rparr>;
        if COLUMNS \<le> xpos s3 then newline s3 else Some s3
      })"

fun print :: "screen \<Rightarrow> char list \<Rightarrow> screen option" where
  "print s [] = None"
| "print s (c # str) = (if c = NUL then Some s else do { s1 \<leftarrow> put_char s c; print s1 str })"

definition println :: "screen \<Rightarrow> char list \<Rightarrow> screen option" where
  "println s str = do { s1 \<leftarrow> print s str; newline s1 }"

text \<open>The loop of \<^verbatim>\<open>print_hex_string\<close> fills \<^verbatim>\<open>hex_str\<close> from the end; \<open>n\<close> is \<^verbatim>\<open>index - 1\<close>.\<close>

fun hex_loop :: "char list \<Rightarrow> 64 word \<Rightarrow> nat \<Rightarrow> char list" where
  "hex_loop hex_str data 0 = hex_str"
| "hex_loop hex_str data (Suc n) =
     (let hex_number = data AND 0x0000000f;
          hex_number = (if hex_number > 9 then hex_number + 87 else hex_number + 48)
      in hex_loop (hex_str[Suc (Suc n) := char_of (unat hex_number)]) (drop_bit 4 data) n)"

definition print_hex_string :: "screen \<Rightarrow> char list \<Rightarrow> 64 word \<Rightarrow> screen option" where
  "print_hex_string s garbage data =
     print s (hex_loop (garbage[0 := CHR ''0'', 1 := CHR ''x'', 18 := NUL]) data 16)"

section \<open>The cursor and the cells\<close>

text \<open>Cell \<open>k\<close> of the screen is at row \<open>k div 80\<close>, column \<open>k mod 80\<close>.\<close>

definition screen_ok :: "screen \<Rightarrow> bool" where
  "screen_ok s \<longleftrightarrow> 0 \<le> xpos s \<and> xpos s < COLUMNS \<and> 0 \<le> ypos s \<and> ypos s < LINES"

definition cursor_cell :: "screen \<Rightarrow> nat" where
  "cursor_cell s = nat (ypos s * COLUMNS + xpos s)"

definition cell :: "screen \<Rightarrow> nat \<Rightarrow> 8 word \<times> 8 word" where
  "cell s k = (video s (2 * int k), video s (2 * int k + 1))"

definition shown :: "char \<Rightarrow> 8 word \<times> 8 word" where
  "shown c = (of_char c, ATTRIBUTE)"

text \<open>Whether a character moves to a new line.\<close>

definition breaks :: "char \<Rightarrow> bool" where
  "breaks c \<longleftrightarrow> c = CHR 0x0A \<or> c = CHR 0x0D"

lemma cls_loop_spec:
  "0 \<le> i \<Longrightarrow> i + int n \<le> 3840 \<Longrightarrow>
     cls_loop s i n = Some (s\<lparr>video := (\<lambda>k. if i \<le> k \<and> k < i + int n then 0 else video s k)\<rparr>)"
proof (induction n arbitrary: s i)
  case 0
  then show ?case by (cases s) (auto simp: fun_eq_iff)
next
  case (Suc n)
  then show ?case by (cases s) (auto simp: poke_def fun_eq_iff)
qed

lemma cls_spec:
  "cls s = Some (s\<lparr>video := (\<lambda>k. if 0 \<le> k \<and> k < 3840 then 0 else video s k), xpos := 0, ypos := 0\<rparr>)"
  by (simp add: cls_def cls_loop_spec)

lemma newline_spec:
  assumes "0 \<le> ypos s" "ypos s < LINES"
  obtains s' where "newline s = Some s'" "screen_ok s'"
    "cursor_cell s' = (if ypos s = 23 then 0 else nat (ypos s + 1) * 80)"
    "\<And>k. k < 1920 \<Longrightarrow> cell s' k = (if ypos s = 23 then (0, 0) else cell s k)"
  using assms
  by (cases "ypos s = 23") (auto simp: newline_def cls_spec screen_ok_def cursor_cell_def cell_def Let_def)

lemma put_char_cell:
  assumes ok: "screen_ok s" and c: "\<not> breaks c"
  obtains s' where "put_char s c = Some s'" "screen_ok s'"
    "cursor_cell s' = (cursor_cell s + 1) mod 1920"
    "\<And>k. k < 1920 \<Longrightarrow> cell s' k =
       (if cursor_cell s = 1919 then (0, 0) else if k = cursor_cell s then shown c else cell s k)"
proof -
  let ?i = "(xpos s + ypos s * 80) * 2"
  let ?s = "s\<lparr>video := (video s)(?i := of_char c, ?i + 1 := 7), xpos := xpos s + 1\<rparr>"
  have b: "0 \<le> ?i" "?i + 1 < 3840" using ok by (auto simp: screen_ok_def)
  have "(0xFF :: 8 word) = - 1" by simp
  then have byte: "of_char c AND (0xFF :: 8 word) = of_char c" by (simp only: and.right_neutral)
  have put: "put_char s c = (if 80 \<le> xpos s + 1 then newline ?s else Some ?s)"
    using b c by (simp add: put_char_def poke_def breaks_def byte Let_def)
  have at: "cell ?s k = (if k = cursor_cell s then shown c else cell s k)" for k
    using ok by (auto simp: cell_def cursor_cell_def shown_def screen_ok_def)
  show thesis
  proof (cases "xpos s = 79")
    case True
    have y: "ypos ?s = ypos s" "0 \<le> ypos ?s" "ypos ?s < 24" using ok by (simp_all add: screen_ok_def)
    obtain s' where s': "newline ?s = Some s'" "screen_ok s'"
      "cursor_cell s' = (if ypos s = 23 then 0 else nat (ypos s + 1) * 80)"
      "\<And>k. k < 1920 \<Longrightarrow> cell s' k = (if ypos s = 23 then (0, 0) else cell ?s k)"
      by (rule newline_spec [OF y(2,3), unfolded y(1)], rule that)
    have "cursor_cell s' = (cursor_cell s + 1) mod 1920"
      using s'(3) ok True by (auto simp: cursor_cell_def screen_ok_def nat_add_distrib)
    moreover have "cursor_cell s = 1919 \<longleftrightarrow> ypos s = 23"
      using ok True by (auto simp: cursor_cell_def screen_ok_def)
    ultimately show ?thesis using that [OF _ s'(2)] put s'(1,4) at True by simp
  next
    case False
    then have "screen_ok ?s" "cursor_cell ?s = cursor_cell s + 1" "cursor_cell s + 1 < 1920"
      using ok by (auto simp: screen_ok_def cursor_cell_def nat_add_distrib)
    then show ?thesis using that [of ?s] put at False ok by (auto simp: screen_ok_def)
  qed
qed

section \<open>Printing text\<close>

text \<open>\<open>put_chars\<close> puts the characters one by one; \<open>print\<close> does so up to the terminator.\<close>

fun put_chars :: "screen \<Rightarrow> string \<Rightarrow> screen option" where
  "put_chars s [] = Some s"
| "put_chars s (c # cs) = do { s1 \<leftarrow> put_char s c; put_chars s1 cs }"

lemma put_chars_append: "put_chars s (xs @ ys) = do { s1 \<leftarrow> put_chars s xs; put_chars s1 ys }"
  by (induction xs arbitrary: s) (simp_all add: bind_assoc)

lemma print_put_chars: "NUL \<in> set buf \<Longrightarrow> print s buf = put_chars s (cstring buf)"
  by (induction buf arbitrary: s) (auto simp: cstring_def)

lemma put_chars_newline: "put_chars s (t @ [CHR 0x0A]) = do { s1 \<leftarrow> put_chars s t; newline s1 }"
  by (simp add: put_chars_append put_char_def)

text \<open>The specification lays text out on an endless sheet of rows of 80 cells, \<^term>\<open>None\<close>
  being a cell nothing was put into; the screen shows the last page of the sheet, 24 rows,
  from its start to the cursor.\<close>

definition lay_char :: "char option list \<Rightarrow> char \<Rightarrow> char option list" where
  "lay_char t c = (if breaks c then t @ replicate (80 - length t mod 80) None else t @ [Some c])"

definition lay :: "char option list \<Rightarrow> string \<Rightarrow> char option list" where
  "lay t str = foldl lay_char t str"

lemma lay_simps [simp]: "lay t [] = t" "lay t (c # cs) = lay (lay_char t c) cs"
  "lay t (xs @ ys) = lay (lay t xs) ys"
  by (simp_all add: lay_def)

definition page :: "char option list \<Rightarrow> char option list" where
  "page t = drop (length t - length t mod 1920) t"

definition displays :: "screen \<Rightarrow> char option list \<Rightarrow> bool" where
  "displays s t \<longleftrightarrow> screen_ok s \<and> cursor_cell s = length (page t)
     \<and> (\<forall>k<1920. cell s k = (if k < length (page t) then (case page t ! k of None \<Rightarrow> (0, 0) | Some c \<Rightarrow> shown c) else (0, 0)))"

lemma length_page [simp]: "length (page t) = length t mod 1920"
  by (simp add: page_def)

lemma page_append:
  assumes "length t mod 1920 + length u < 1920"
  shows "page (t @ u) = page t @ u"
proof -
  have "(length t + length u) mod 1920 = length t mod 1920 + length u"
    using assms by (metis mod_add_left_eq mod_less)
  moreover have "length t mod 1920 \<le> length t" by simp
  ultimately show ?thesis by (simp add: page_def)
qed

lemma page_full: "length t mod 1920 + length u = 1920 \<Longrightarrow> page (t @ u) = []"
  by (metis length_0_conv length_append length_page mod_add_left_eq mod_self)

lemma put_char_displays:
  assumes sh: "displays s t"
  obtains s' where "put_char s c = Some s'" "displays s' (lay_char t c)"
proof -
  have ok: "screen_ok s" and at: "cursor_cell s = length t mod 1920" using sh by (simp_all add: displays_def)
  show thesis
  proof (cases "breaks c")
    case False
    obtain s' where s': "put_char s c = Some s'" "screen_ok s'" "cursor_cell s' = (cursor_cell s + 1) mod 1920"
      "\<And>k. k < 1920 \<Longrightarrow> cell s' k =
         (if cursor_cell s = 1919 then (0, 0) else if k = cursor_cell s then shown c else cell s k)"
      by (rule put_char_cell [OF ok False], rule that)
    have "displays s' (t @ [Some c])"
    proof (cases "length t mod 1920 = 1919")
      case True
      then have "page (t @ [Some c]) = []" by (intro page_full) simp
      then show ?thesis using s'(2-4) at True by (simp add: displays_def)
    next
      case less: False
      then have l: "length t mod 1920 < 1919" by (simp add: le_neq_implies_less Suc_leI less_Suc_eq_le)
      then have "page (t @ [Some c]) = page t @ [Some c]" by (intro page_append) simp
      then show ?thesis using s'(2-4) at l sh by (auto simp: displays_def nth_append)
    qed
    then show thesis using that [OF s'(1)] False by (simp add: lay_char_def)
  next
    case True
    let ?n = "80 - length t mod 80"
    have y: "0 \<le> ypos s" "ypos s < 24" and x: "0 \<le> xpos s" "xpos s < 80" using ok by (auto simp: screen_ok_def)
    obtain s' where s': "newline s = Some s'" "screen_ok s'"
      "cursor_cell s' = (if ypos s = 23 then 0 else nat (ypos s + 1) * 80)"
      "\<And>k. k < 1920 \<Longrightarrow> cell s' k = (if ypos s = 23 then (0, 0) else cell s k)"
      by (rule newline_spec [OF y], rule that)
    have m: "length t mod 1920 = nat (ypos s) * 80 + nat (xpos s)"
      using at x y by (simp add: cursor_cell_def nat_add_distrib nat_mult_distrib)
    have "length t mod 80 = length t mod 1920 mod 80" by (simp add: mod_mod_cancel)
    then have col: "length t mod 80 = nat (xpos s)" unfolding m using x by simp
    have "displays s' (t @ replicate ?n None)"
    proof (cases "ypos s = 23")
      case last: True
      have "page (t @ replicate ?n None) = []" using m col x last by (intro page_full) simp
      then show ?thesis using s'(2-4) last by (simp add: displays_def)
    next
      case less: False
      then have room: "length t mod 1920 + ?n = nat (ypos s + 1) * 80" "nat (ypos s + 1) * 80 < 1920"
        using m col x y by (simp_all add: nat_add_distrib)
      then have "page (t @ replicate ?n None) = page t @ replicate ?n None" by (intro page_append) simp
      moreover have "replicate ?n (None :: char option) ! (k - length t mod 1920) = None"
        if "\<not> k < length t mod 1920" "k < nat (ypos s + 1) * 80" for k
        using that room(1) mod_less_divisor [of 80 "length t"] by (intro nth_replicate) linarith
      ultimately show ?thesis using s'(2-4) at room less sh by (auto simp: displays_def nth_append)
    qed
    then show thesis using that [of s'] True s'(1) by (simp add: lay_char_def put_char_def breaks_def)
  qed
qed

lemma put_chars_displays:
  assumes "displays s t"
  shows "\<exists>s'. put_chars s str = Some s' \<and> displays s' (lay t str)"
  using assms
proof (induction str arbitrary: s t)
  case (Cons c cs)
  obtain s1 where s1: "put_char s c = Some s1" "displays s1 (lay_char t c)"
    by (rule put_char_displays [OF Cons.prems])
  then show ?case using Cons.IH [OF s1(2)] by simp
qed simp

lemma cls_displays: "\<exists>s'. cls s = Some s' \<and> displays s' []"
  by (simp add: cls_spec displays_def screen_ok_def cursor_cell_def cell_def page_def)

section \<open>Hexadecimal numbers\<close>

definition hex_digit :: "nat \<Rightarrow> char" where
  "hex_digit d = char_of (if d > 9 then d + 87 else d + 48)"

definition hex_value :: "char \<Rightarrow> nat" where
  "hex_value c = (if of_char c < (97 :: nat) then of_char c - 48 else of_char c - 87)"

fun hex_digits :: "nat \<Rightarrow> nat \<Rightarrow> string" where
  "hex_digits v 0 = []"
| "hex_digits v (Suc n) = hex_digits (v div 16) n @ [hex_digit (v mod 16)]"

lemma length_hex_digits [simp]: "length (hex_digits v n) = n"
  by (induction n arbitrary: v) auto

definition parse_hex :: "string \<Rightarrow> nat" where
  "parse_hex ds = foldl (\<lambda>a c. 16 * a + hex_value c) 0 ds"

lemma hex_digit_facts:
  assumes "d < 16"
  shows "hex_value (hex_digit d) = d" "hex_digit d \<noteq> NUL" "\<not> breaks (hex_digit d)"
proof -
  have v: "of_char (hex_digit d) = (if d > 9 then d + 87 else d + 48)"
    using assms by (simp add: hex_digit_def)
  then show "hex_value (hex_digit d) = d" using assms by (simp add: hex_value_def split: if_splits)
  have "hex_digit d \<noteq> c" if "of_char c < (48 :: nat)" for c
    using v that by (auto split: if_splits)
  then show "hex_digit d \<noteq> NUL" "\<not> breaks (hex_digit d)" by (simp_all add: breaks_def)
qed

lemma parse_hex_digits: "parse_hex (hex_digits v n) = v mod 16 ^ n"
proof (induction n arbitrary: v)
  case (Suc n)
  have "parse_hex (hex_digits v (Suc n)) = 16 * (v div 16 mod 16 ^ n) + v mod 16"
    using Suc [of "v div 16"] by (simp add: parse_hex_def hex_digit_facts)
  also have "\<dots> = v mod (16 * 16 ^ n)" by (simp add: mod_mult2_eq)
  finally show ?case by simp
qed (simp add: parse_hex_def)

lemma hex_digits_cstr: "is_cstr (hex_digits v n)"
  by (induction n arbitrary: v) (simp_all add: hex_digit_facts)

lemma hex_number_digit:
  fixes data :: "64 word"
  shows "char_of (unat (if data AND 0x0000000f > 9 then (data AND 0x0000000f) + 87 else (data AND 0x0000000f) + 48))
    = hex_digit (unat data mod 16)"
proof -
  have "(0x0000000f :: 64 word) = mask 4" by (simp add: mask_eq_exp_minus_1)
  then have "unat (data AND 0x0000000f) = unat data mod 16"
    by (simp only: take_bit_eq_mask [symmetric] unsigned_take_bit_eq) (simp add: take_bit_eq_mod)
  moreover have "unat data mod 16 < 16" by simp
  ultimately have "unat ((data AND 0x0000000f) + 87) = unat data mod 16 + 87" "unat ((data AND 0x0000000f) + 48) = unat data mod 16 + 48"
    "data AND 0x0000000f > 9 \<longleftrightarrow> unat data mod 16 > 9"
    by (simp_all add: unat_word_ariths word_less_nat_alt)
  then show ?thesis by (simp add: hex_digit_def)
qed

lemma hex_loop_spec:
  "n + 2 \<le> length buf \<Longrightarrow> hex_loop buf data n = take 2 buf @ hex_digits (unat data) n @ drop (n + 2) buf"
  for buf :: "char list"
proof (induction n arbitrary: buf data)
  case 0
  then show ?case using append_take_drop_id [of 2 buf] by (simp add: numeral_2_eq_2)
next
  case (Suc n)
  let ?c = "hex_digit (unat data mod 16)"
  have "unat (drop_bit 4 data) = unat data div 16"
    by (simp only: unat_drop_bit_eq) (simp add: drop_bit_eq_div)
  moreover have "hex_loop buf data (Suc n) = hex_loop (buf[Suc (Suc n) := ?c]) (drop_bit 4 data) n"
    by (simp only: hex_loop.simps Let_def hex_number_digit)
  moreover have "drop (n + 2) (buf[Suc (Suc n) := ?c]) = ?c # drop (Suc n + 2) buf"
    using Suc.prems by (simp add: drop_update_swap Cons_nth_drop_Suc [symmetric])
  ultimately show ?case using Suc.IH [of "buf[Suc (Suc n) := ?c]" "drop_bit 4 data"] Suc.prems by simp
qed

lemma print_hex_put_chars:
  assumes "length g = 19"
  shows "print_hex_string s g data = put_chars s (''0x'' @ hex_digits (unat data) 16)"
proof -
  let ?buf = "g[0 := CHR ''0'', 1 := CHR ''x'', 18 := NUL]"
  have "take 2 ?buf = ''0x''" using assms by (simp add: numeral_2_eq_2 take_Suc_conv_app_nth nth_list_update)
  moreover have "drop (16 + 2) ?buf = [NUL]"
    using assms Cons_nth_drop_Suc [of 18 ?buf] by simp
  ultimately have "hex_loop ?buf data 16 = ''0x'' @ hex_digits (unat data) 16 @ [NUL]"
    using hex_loop_spec [of 16 ?buf data] assms by simp
  then have "print_hex_string s g data = put_chars s (cstring ((''0x'' @ hex_digits (unat data) 16) @ [NUL]))"
    unfolding print_hex_string_def by (subst print_put_chars) simp_all
  also have "cstring ((''0x'' @ hex_digits (unat data) 16) @ [NUL]) = ''0x'' @ hex_digits (unat data) 16"
    by (rule cstring_append_NUL) (simp add: hex_digits_cstr)
  finally show ?thesis .
qed

section \<open>Theorems\<close>

definition blank_screen :: screen where
  "blank_screen = \<lparr>video = (\<lambda>_. 0), xpos = 0, ypos = 0\<rparr>"

lemma blank_displays: "displays blank_screen []"
  by (simp add: blank_screen_def displays_def screen_ok_def cursor_cell_def cell_def page_def)

text \<open>C32: Output is what is laid out.  On a screen that displays the last page of a sheet,
  with the cursor at its end, printing any terminated string stays inside the screen and
  leaves the last page of the sheet with the string laid out after it: characters wrap at
  column 80, line breaks leave the rest of the row black, and a full screen is cleared.
  \<^verbatim>\<open>println\<close> adds a line break, and \<^verbatim>\<open>cls\<close> starts a new sheet.\<close>

theorem print_displays:
  assumes "displays s t" "NUL \<in> set str"
  shows "(\<exists>s'. print s str = Some s' \<and> displays s' (lay t (cstring str)))
    \<and> (\<exists>s'. println s str = Some s' \<and> displays s' (lay t (cstring str @ [CHR 0x0A])))
    \<and> (\<exists>s'. cls s = Some s' \<and> displays s' [])"
proof (intro conjI)
  show "\<exists>s'. print s str = Some s' \<and> displays s' (lay t (cstring str))"
    using put_chars_displays [OF assms(1)] assms(2) by (simp add: print_put_chars)
  show "\<exists>s'. println s str = Some s' \<and> displays s' (lay t (cstring str @ [CHR 0x0A]))"
    using put_chars_displays [OF assms(1), of "cstring str @ [CHR 0x0A]"] assms(2)
    unfolding put_chars_newline by (simp add: print_put_chars println_def)
qed (rule cls_displays)

theorem print_displays_witness:
  "\<exists>s'. print blank_screen (replicate 2000 (CHR ''a'') @ [NUL]) = Some s' \<and> cursor_cell s' = 80
     \<and> cell s' 79 = shown (CHR ''a'') \<and> cell s' 80 = (0, 0)"
proof -
  have str: "cstring (replicate 2000 (CHR ''a'') @ [NUL]) = replicate 2000 (CHR ''a'')"
    by (simp add: is_cstr_def)
  have "lay t (replicate n (CHR ''a'')) = t @ replicate n (Some (CHR ''a''))" for t n
    by (induction n arbitrary: t) (simp_all add: lay_char_def breaks_def)
  then have "page (lay [] (replicate 2000 (CHR ''a''))) = replicate 80 (Some (CHR ''a''))"
    by (simp add: page_def)
  then show ?thesis
    using print_displays [OF blank_displays, of "replicate 2000 (CHR ''a'') @ [NUL]"]
    unfolding str by (auto simp: displays_def)
qed

text \<open>A number printed in hexadecimal reads back.  \<^verbatim>\<open>print_hex_string\<close> prints \<^verbatim>\<open>0x\<close> and 16
  hexadecimal digits, whatever its buffer held before, and their value is the number.\<close>

theorem hex_reads_back:
  assumes "displays s t" "length garbage = 19"
  shows "\<exists>s' ds. print_hex_string s garbage data = Some s' \<and> displays s' (lay t (''0x'' @ ds))
     \<and> length ds = 16 \<and> set ds \<subseteq> set ''0123456789abcdef'' \<and> parse_hex ds = unat data"
proof -
  have "list_all (\<lambda>d. hex_digit d \<in> set ''0123456789abcdef'') [0..<16]" by code_simp
  then have digit: "hex_digit d \<in> set ''0123456789abcdef''" if "d < 16" for d
    using that by (simp only: list_all_iff) simp
  define H where "H = set ''0123456789abcdef''"
  have "set (hex_digits v n) \<subseteq> H" for v n
    by (induction n arbitrary: v) (simp_all add: digit [folded H_def])
  moreover have "unat data mod 16 ^ 16 = unat data"
    using unsigned_less [of data] by (intro mod_less) simp
  moreover obtain s' where "put_chars s (''0x'' @ hex_digits (unat data) 16) = Some s'"
    "displays s' (lay t (''0x'' @ hex_digits (unat data) 16))"
    using put_chars_displays [OF assms(1)] by blast
  ultimately show ?thesis
    unfolding print_hex_put_chars [OF assms(2)] H_def
    by (intro exI [of _ s'] exI [of _ "hex_digits (unat data) 16"]) (simp add: parse_hex_digits del: list.set)
qed

theorem hex_reads_back_witness:
  "\<exists>s' ds. print_hex_string blank_screen (replicate 19 NUL) 0xCAFE = Some s'
     \<and> displays s' (lay [] (''0x'' @ ds)) \<and> length ds = 16 \<and> parse_hex ds = 0xCAFE"
  using hex_reads_back [OF blank_displays, of "replicate 19 NUL" "0xCAFE"] by auto

end
