(* ===== verification/Fifos_Memory.thy ===== *)
theory Fifos_Memory
  imports Fifos_Screen
begin

text \<open>
  The memory map of the FIFOS kernel, \<^verbatim>\<open>FileSystem-v3/memos.c\<close>: it walks the entries that
  the boot loader left in memory, prints each of them and the sum of the free ones.  The
  structures of \<^verbatim>\<open>multiboot.h\<close> are read from a flat memory of 2^32 bytes, at the offsets
  of their fields.  An entry says how long it is, so the loop ends only on a map that is
  laid out consistently.  \<open>g\<close> is what the stack held where \<^verbatim>\<open>print_hex_string\<close> puts its
  buffer.
\<close>

section \<open>The code\<close>

type_synonym memory = "32 word \<Rightarrow> 8 word"

fun load_le :: "memory \<Rightarrow> 32 word \<Rightarrow> nat \<Rightarrow> nat" where
  "load_le mem a 0 = 0"
| "load_le mem a (Suc n) = unat (mem a) + 256 * load_le mem (a + 1) n"

definition load32 :: "memory \<Rightarrow> 32 word \<Rightarrow> 32 word" where
  "load32 mem a = of_nat (load_le mem a 4)"

definition load64 :: "memory \<Rightarrow> 32 word \<Rightarrow> 64 word" where
  "load64 mem a = of_nat (load_le mem a 8)"

text \<open>Fields of \<^verbatim>\<open>multiboot_info_t\<close> and of the packed \<^verbatim>\<open>multiboot_memory_map_t\<close>.\<close>

definition mbi_mmap_length :: "memory \<Rightarrow> 32 word \<Rightarrow> 32 word" where
  "mbi_mmap_length mem mbi = load32 mem (mbi + 44)"

definition mbi_mmap_addr :: "memory \<Rightarrow> 32 word \<Rightarrow> 32 word" where
  "mbi_mmap_addr mem mbi = load32 mem (mbi + 48)"

record mmap_entry =
  entry_size :: "32 word"
  entry_addr :: "64 word"
  entry_len :: "64 word"
  entry_type :: "32 word"

definition mmap_at :: "memory \<Rightarrow> 32 word \<Rightarrow> mmap_entry" where
  "mmap_at mem a = \<lparr>entry_size = load32 mem a, entry_addr = load64 mem (a + 4),
     entry_len = load64 mem (a + 12), entry_type = load32 mem (a + 20)\<rparr>"

abbreviation lit :: "string \<Rightarrow> char list" where "lit str \<equiv> str @ [NUL]"

definition print_memory_range :: "char list \<Rightarrow> screen \<Rightarrow> 64 word \<Rightarrow> 64 word \<Rightarrow> 32 word \<Rightarrow> screen option" where
  "print_memory_range g s base_addr len type = do {
     s1 \<leftarrow> print s (lit ''Address range: ['');
     s2 \<leftarrow> print_hex_string s1 g base_addr;
     s3 \<leftarrow> put_char s2 (CHR ''~'');
     s4 \<leftarrow> print_hex_string s3 g (base_addr + len - 1);
     s5 \<leftarrow> print s4 (lit ''] -> '');
     if type = 1 then println s5 (lit ''Free memory (1)'')
     else if type = 2 then println s5 (lit ''Reserved memory (2)'')
     else println s5 (lit ''Others'')
   }"

definition print_memory_size :: "char list \<Rightarrow> screen \<Rightarrow> 64 word \<Rightarrow> screen option" where
  "print_memory_size g s memory_size = do {
     s1 \<leftarrow> print s (lit ''MemOS 2: Welcome *** System memory is (in MB): '');
     s2 \<leftarrow> print_hex_string s1 g (drop_bit 20 memory_size);
     put_char s2 (CHR 0x0A)
   }"

text \<open>\<open>limit\<close> is \<^verbatim>\<open>mbi->mmap_addr + mbi->mmap_length\<close>, in 32 bits.\<close>

partial_function (option) mmap_loop ::
  "memory \<Rightarrow> char list \<Rightarrow> 32 word \<Rightarrow> 32 word \<Rightarrow> 64 word \<Rightarrow> screen \<Rightarrow> (64 word \<times> screen) option" where
  "mmap_loop mem g limit mmap memory_size s =
     (if mmap < limit
      then do {
        let e = mmap_at mem mmap;
        let msize = (if entry_type e = 1 then memory_size + entry_len e else memory_size);
        s1 \<leftarrow> print_memory_range g s (entry_addr e) (entry_len e) (entry_type e);
        mmap_loop mem g limit (mmap + entry_size e + 4) msize s1
      }
      else Some (memory_size, s))"

definition print_memory_map :: "memory \<Rightarrow> char list \<Rightarrow> screen \<Rightarrow> 32 word \<Rightarrow> screen option" where
  "print_memory_map mem g s addr = do {
     (memory_size, s1) \<leftarrow> mmap_loop mem g (mbi_mmap_addr mem addr + mbi_mmap_length mem addr)
                            (mbi_mmap_addr mem addr) 0 s;
     print_memory_size g s1 memory_size
   }"

section \<open>The map as a list\<close>

definition hex_text :: "64 word \<Rightarrow> string" where
  "hex_text w = ''0x'' @ hex_digits (unat w) 16"

definition range_text :: "mmap_entry \<Rightarrow> string" where
  "range_text e = ''Address range: ['' @ hex_text (entry_addr e) @ ''~'' @ hex_text (entry_addr e + entry_len e - 1)
     @ ''] -> '' @ (if entry_type e = 1 then ''Free memory (1)'' else if entry_type e = 2
        then ''Reserved memory (2)'' else ''Others'') @ [CHR 0x0A]"

definition free_total :: "mmap_entry list \<Rightarrow> 64 word" where
  "free_total es = sum_list (map entry_len (filter (\<lambda>e. entry_type e = 1) es))"

definition size_text :: "64 word \<Rightarrow> string" where
  "size_text msize = ''MemOS 2: Welcome *** System memory is (in MB): '' @ hex_text (drop_bit 20 msize) @ [CHR 0x0A]"

definition entry_bytes :: "mmap_entry \<Rightarrow> nat" where
  "entry_bytes e = unat (entry_size e) + 4"

fun map_at :: "memory \<Rightarrow> 32 word \<Rightarrow> mmap_entry list \<Rightarrow> bool" where
  "map_at mem a [] \<longleftrightarrow> True"
| "map_at mem a (e # es) \<longleftrightarrow> mmap_at mem a = e \<and> map_at mem (a + entry_size e + 4) es"

definition describes :: "memory \<Rightarrow> 32 word \<Rightarrow> mmap_entry list \<Rightarrow> bool" where
  "describes mem addr es \<longleftrightarrow> map_at mem (mbi_mmap_addr mem addr) es
     \<and> unat (mbi_mmap_length mem addr) = sum_list (map entry_bytes es)
     \<and> unat (mbi_mmap_addr mem addr) + unat (mbi_mmap_length mem addr) < 2 ^ 32"

lemma print_lit: "is_cstr str \<Longrightarrow> print s (lit str) = put_chars s str"
  using cstring_append_NUL [of str "[]"] by (simp add: print_put_chars del: cstring_append_NUL)

lemma println_lit: "is_cstr str \<Longrightarrow> println s (lit str) = put_chars s (str @ [CHR 0x0A])"
  by (simp add: println_def print_lit put_chars_newline)

lemma put_char_chars: "put_char s c = put_chars s [c]"
  by simp

lemma literals:
  "print s (lit ''Address range: ['') = put_chars s ''Address range: [''"
  "print s (lit ''] -> '') = put_chars s ''] -> ''"
  "print s (lit ''MemOS 2: Welcome *** System memory is (in MB): '')
     = put_chars s ''MemOS 2: Welcome *** System memory is (in MB): ''"
  "println s (lit ''Free memory (1)'') = put_chars s (''Free memory (1)'' @ [CHR 0x0A])"
  "println s (lit ''Reserved memory (2)'') = put_chars s (''Reserved memory (2)'' @ [CHR 0x0A])"
  "println s (lit ''Others'') = put_chars s (''Others'' @ [CHR 0x0A])"
  by (rule print_lit println_lit, simp)+

lemma print_memory_range_text:
  assumes "length g = 19"
  shows "print_memory_range g s (entry_addr e) (entry_len e) (entry_type e) = put_chars s (range_text e)"
  unfolding print_memory_range_def range_text_def hex_text_def print_hex_put_chars [OF assms] put_char_chars
  by (cases "entry_type e = 1"; cases "entry_type e = 2")
    (simp_all only: literals put_chars_append bind_assoc if_True if_False simp_thms)

lemma print_memory_size_text:
  assumes "length g = 19"
  shows "print_memory_size g s msize = put_chars s (size_text msize)"
  unfolding print_memory_size_def size_text_def hex_text_def print_hex_put_chars [OF assms] put_char_chars
  by (simp only: literals put_chars_append bind_assoc)

lemma mmap_loop_spec:
  assumes "length g = 19" "displays s t" "map_at mem a es"
    "unat a + sum_list (map entry_bytes es) = unat limit"
  shows "\<exists>s'. mmap_loop mem g limit a msize s = Some (msize + free_total es, s')
     \<and> displays s' (lay t (concat (map range_text es)))"
  using assms(2-4)
proof (induction es arbitrary: a msize s t)
  case Nil
  then show ?case by (subst mmap_loop.simps) (simp add: free_total_def word_less_nat_alt)
next
  case (Cons e es)
  let ?msize = "if entry_type e = 1 then msize + entry_len e else msize"
  have e: "mmap_at mem a = e" and rest: "map_at mem (a + entry_size e + 4) es" using Cons.prems(2) by simp_all
  have sum: "unat a + unat (entry_size e) + 4 + sum_list (map entry_bytes es) = unat limit"
    using Cons.prems(3) entry_bytes_def [of e] by simp
  moreover have "unat limit < 2 ^ 32" using unsigned_less [of limit] by simp
  ultimately have "unat (a + entry_size e + 4) = unat a + unat (entry_size e) + 4"
    by (simp add: unat_word_ariths)
  with sum have next_at: "unat (a + entry_size e + 4) + sum_list (map entry_bytes es) = unat limit" by simp
  have less: "a < limit" using sum by (simp add: word_less_nat_alt)
  obtain s1 where s1: "put_chars s (range_text e) = Some s1" "displays s1 (lay t (range_text e))"
    using put_chars_displays [OF Cons.prems(1)] by blast
  obtain s' where s': "mmap_loop mem g limit (a + entry_size e + 4) ?msize s1 = Some (?msize + free_total es, s')"
    "displays s' (lay (lay t (range_text e)) (concat (map range_text es)))"
    using Cons.IH [OF s1(2) rest next_at, of ?msize] by blast
  have "mmap_loop mem g limit a msize s = Some (?msize + free_total es, s')"
    using less e s1(1) s'(1) print_memory_range_text [OF assms(1), of s e]
    by (subst mmap_loop.simps) (simp add: Let_def)
  moreover have "?msize + free_total es = msize + free_total (e # es)" by (simp add: free_total_def)
  ultimately show ?case using s'(2) by simp
qed

lemma print_memory_map_ok:
  assumes "describes mem addr es" "displays s t" "length g = 19"
  shows "\<exists>s'. print_memory_map mem g s addr = Some s'
     \<and> displays s' (lay t (concat (map range_text es) @ size_text (free_total es)))"
proof -
  let ?a = "mbi_mmap_addr mem addr" and ?n = "mbi_mmap_length mem addr"
  have d: "map_at mem ?a es" "unat ?n = sum_list (map entry_bytes es)" "unat ?a + unat ?n < 2 ^ 32"
    using assms(1) by (simp_all add: describes_def)
  then have "unat ?a + sum_list (map entry_bytes es) = unat (?a + ?n)" by (simp add: unat_word_ariths)
  then obtain s1 where s1: "mmap_loop mem g (?a + ?n) ?a 0 s = Some (0 + free_total es, s1)"
    "displays s1 (lay t (concat (map range_text es)))"
    using mmap_loop_spec [OF assms(3,2) d(1), of "?a + ?n" 0] by blast
  obtain s' where "put_chars s1 (size_text (free_total es)) = Some s'"
    "displays s' (lay (lay t (concat (map range_text es))) (size_text (free_total es)))"
    using put_chars_displays [OF s1(2)] by blast
  then show ?thesis using s1(1) print_memory_size_text [OF assms(3)] by (simp add: print_memory_map_def)
qed

text \<open>C33: The memory map is printed in full and the free memory added up.  On a map that the
  boot loader laid out consistently, below the end of the address space,
  \<^verbatim>\<open>print_memory_map\<close> returns, and the screen shows one line for each entry, in order, and
  the sum of the lengths of the free ones in megabytes.\<close>

theorem memory_map_displays:
  assumes "describes mem addr es" "displays s t" "length g = 19"
  shows "\<exists>s'. print_memory_map mem g s addr = Some s'
     \<and> displays s' (lay t (concat (map range_text es) @ size_text (free_total es)))"
  by (rule print_memory_map_ok [OF assms])

definition sample_mem :: memory where
  "sample_mem a =
     (if a = 0x6C then 48 else if a = 0x71 then 1
      else if a = 0x100 then 20 else if a = 0x10E then 0x0A else if a = 0x114 then 2
      else if a = 0x118 then 20 else if a = 0x11E then 0x10 else if a = 0x126 then 0xF0
      else if a = 0x127 then 0x07 else if a = 0x12C then 1 else 0)"

definition sample_map :: "mmap_entry list" where
  "sample_map = [\<lparr>entry_size = 20, entry_addr = 0, entry_len = 0xA0000, entry_type = 2\<rparr>,
     \<lparr>entry_size = 20, entry_addr = 0x100000, entry_len = 0x7F00000, entry_type = 1\<rparr>]"

lemma load_le_add: "load_le mem a (m + n) = load_le mem a m + 256 ^ m * load_le mem (a + of_nat m) n"
  by (induction m arbitrary: a) (simp_all add: algebra_simps)

lemma load_le_4:
  "load_le mem a 4 = unat (mem a) + 256 * unat (mem (a + 1)) + 65536 * unat (mem (a + 2)) + 16777216 * unat (mem (a + 3))"
proof -
  have "load_le mem a (Suc (Suc (Suc (Suc 0)))) = unat (mem a) + 256 * (unat (mem (a + 1))
      + 256 * (unat (mem (a + 1 + 1)) + 256 * unat (mem (a + 1 + 1 + 1))))"
    by (simp only: load_le.simps) simp
  moreover have "(4 :: nat) = Suc (Suc (Suc (Suc 0)))" "a + 1 + 1 = a + 2" "a + 1 + 1 + 1 = a + 3" by simp_all
  ultimately show ?thesis by (simp only:) simp
qed

lemma load_le_8: "load_le mem a 8 = load_le mem a 4 + 4294967296 * load_le mem (a + 4) 4"
  using load_le_add [of mem a 4 4] by simp

lemma sample_map_describes: "describes sample_mem 0x40 sample_map"
  by (simp add: describes_def sample_map_def mmap_at_def mbi_mmap_addr_def mbi_mmap_length_def
      load32_def load64_def load_le_4 load_le_8 sample_mem_def entry_bytes_def)

theorem memory_map_displays_witness:
  "\<exists>s'. print_memory_map sample_mem (replicate 19 NUL) blank_screen 0x40 = Some s'
     \<and> displays s' (lay [] (concat (map range_text sample_map) @ size_text 0x7F00000))"
proof -
  have "free_total sample_map = 0x7F00000" by (simp add: free_total_def sample_map_def)
  then show ?thesis
    using memory_map_displays [OF sample_map_describes blank_displays, of "replicate 19 NUL"] by simp
qed
end
