(* ===== verification/Fifos_Kernel.thy ===== *)
theory Fifos_Kernel
  imports Fifos_Thread Fifos_Heap Fifos_Memory
begin

text \<open>
  The FIFOS kernel put together: the thread pool with its stacks from the allocator, the
  ports of the timer and the interrupt controller (\<^verbatim>\<open>FileSystem-v3/interrupt.c\<close>), and the
  start-up \<^verbatim>\<open>init\<close> (\<^verbatim>\<open>FileSystem-v3/init.c\<close>).  \<open>base\<close> is the address of the allocator's
  \<^verbatim>\<open>buffer\<close>; the addresses of \<^verbatim>\<open>finish\<close> and of the thread functions are arguments.  What
  allocated memory holds is kept with the component that owns it, the pool and the queue
  with the scheduler and the stacks in \<open>stack_mem\<close>; the allocator only touches its tags.
\<close>

section \<open>State\<close>

record machine =
  scr :: screen
  hp :: heap
  thr :: threads
  ports :: "(8 word \<times> 16 word) list"

section \<open>Threads with allocated stacks\<close>

definition stack_word :: "32 word \<Rightarrow> nat option \<Rightarrow> 32 word" where
  "stack_word base p = (case p of None \<Rightarrow> 0 | Some a \<Rightarrow> base + of_nat a)"

text \<open>\<^verbatim>\<open>thread_create\<close> calls \<^verbatim>\<open>malloc\<close> only when the pool has an empty entry, \<^verbatim>\<open>finish\<close> frees
  the stack of the current thread.\<close>

definition create_thread :: "32 word \<Rightarrow> 32 word \<Rightarrow> machine \<Rightarrow> 32 word \<Rightarrow> (32 word \<times> machine) option" where
  "create_thread base fin k f = do {
     (p, h) \<leftarrow> (if find_empty (thread_pool (thr k)) 1 (unat (pool_size (thr k)) - 1) = None
                then Some (None, hp k) else malloc (hp k) (of_nat 4096));
     (r, t) \<leftarrow> thread_create fin (thr k) f (stack_word base p);
     Some (r, k\<lparr>hp := h, thr := t\<rparr>)
   }"

definition finish_thread :: "32 word \<Rightarrow> machine \<Rightarrow> (control \<times> machine) option" where
  "finish_thread base k = do {
     (stk, a, t) \<leftarrow> finish (thr k);
     h \<leftarrow> free (hp k) (if stk = 0 then None else Some (unat (stk - base)));
     Some (a, k\<lparr>hp := h, thr := t\<rparr>)
   }"

definition yield_thread :: "machine \<Rightarrow> 32 word \<Rightarrow> (control \<times> machine) option" where
  "yield_thread k e = do { (a, t) \<leftarrow> stash (thr k) e; Some (a, k\<lparr>thr := t\<rparr>) }"

section \<open>Every live thread owns its stack\<close>

definition live :: "threads \<Rightarrow> nat set" where
  "live s = {i. 0 < i \<and> i < unat (pool_size s) \<and> tstate (thread_pool s i) \<noteq> empty}"

definition stack_at :: "32 word \<Rightarrow> threads \<Rightarrow> nat \<Rightarrow> nat" where
  "stack_at base s i = unat (stack (thread_pool s i) - base)"

definition buffer_at :: "32 word \<Rightarrow> bool" where
  "buffer_at base \<longleftrightarrow> base \<noteq> 0 \<and> unat base + DEFAULT_MEM_SIZE \<le> 2 ^ 32"

definition kernel_inv :: "32 word \<Rightarrow> machine \<Rightarrow> bool" where
  "kernel_inv base k \<longleftrightarrow> threads_ok (thr k) \<and> kheap.holders (hp k) (stack_at base (thr k)) (live (thr k)) 4096
     \<and> (\<forall>i\<in>live (thr k). stack (thread_pool (thr k) i) \<noteq> 0)"

text \<open>What the scheduler does to the pool entries.\<close>

lemma enqueue_current_pool:
  assumes "enqueue_current s = Some s1"
  shows "thread_pool s1 = (if current_tid s = 0 then thread_pool s
    else (thread_pool s)(unat (current_tid s) := (thread_pool s (unat (current_tid s)))\<lparr>tstate := ready\<rparr>))"
  using assms by (auto simp: enqueue_current_def Let_def bind_eq_Some_conv split: if_splits)

lemma dispatch_live:
  assumes "pool_ok s" "queue_ok s" "none_running s" "dispatch s = Some (a, s')"
  shows "live s' = live s" "stack (thread_pool s' i) = stack (thread_pool s i)"
proof -
  have "live s' = live s \<and> stack (thread_pool s' i) = stack (thread_pool s i)"
    using assms(1-3)
  proof (cases rule: dispatch_ok)
    case (idle s2)
    then show ?thesis using assms(4) by (simp add: live_def)
  next
    case (run t b s2)
    then have t: "waiting s (unat t)" using queuedD(3) [OF assms(2), of t] by simp
    show ?thesis using run assms(4) t by (auto simp: live_def waiting_def)
  qed
  then show "live s' = live s" "stack (thread_pool s' i) = stack (thread_pool s i)" by simp_all
qed

lemma current_live:
  assumes "threads_ok s" "current_tid s \<noteq> 0"
  shows "tstate (thread_pool s (unat (current_tid s))) = running" "unat (current_tid s) \<in> live s"
proof -
  have c: "0 < unat (current_tid s)" "unat (current_tid s) < unat (pool_size s)"
    using assms unat_posD [of "current_tid s"] unat_lessD [of "current_tid s" "pool_size s"]
    by (simp_all add: threads_ok_def current_ok_def word_neq_0_conv)
  with assms(1) show "tstate (thread_pool s (unat (current_tid s))) = running"
    by (simp add: threads_ok_def current_ok_def)
  with c show "unat (current_tid s) \<in> live s" by (simp add: live_def)
qed

lemma stash_live:
  assumes ok: "threads_ok s" and s': "stash s e = Some (a, s')"
  shows "threads_ok s'" "live s' = live s" "stack (thread_pool s' i) = stack (thread_pool s i)"
proof -
  show "threads_ok s'"
    using ok by (cases rule: stash_cases [where e = e]) (use s' in auto)
  let ?s0 = "set_tcb s (ptr_current_esp s) ((thread_pool s (ptr_current_esp s))\<lparr>esp := e\<rparr>)"
  obtain s1 where s1: "enqueue_current ?s0 = Some s1" "pool_ok s1" "queue_ok s1" "none_running s1"
    "pool_size s1 = pool_size ?s0"
    by (rule enqueue_current_ok [OF threads_ok_esp [OF ok, of "ptr_current_esp s" e]])
  have d: "dispatch s1 = Some (a, s')" using s' s1(1) by (simp add: stash_def schedule_def)
  have 1: "live s1 = live s" "stack (thread_pool s1 i) = stack (thread_pool s i)"
    using enqueue_current_pool [OF s1(1)] s1(5) current_live [OF ok]
    by (auto simp: live_def split: if_splits)
  then show "live s' = live s" "stack (thread_pool s' i) = stack (thread_pool s i)"
    using dispatch_live [OF s1(2-4) d] by simp_all
qed

lemma finish_live:
  assumes ok: "threads_ok s" and c: "current_tid s \<noteq> 0"
  obtains a s' where "finish s = Some (stack (thread_pool s (unat (current_tid s))), a, s')" "threads_ok s'"
    "live s' = live s - {unat (current_tid s)}" "\<And>i. stack (thread_pool s' i) = stack (thread_pool s i)"
proof -
  let ?c = "unat (current_tid s)"
  let ?s0 = "(set_tcb s ?c ((thread_pool s ?c)\<lparr>tstate := empty\<rparr>))\<lparr>current_tid := 0\<rparr>"
  have cur: "current_tid s < pool_size s" using ok by (simp add: threads_ok_def current_ok_def)
  obtain p a s' where f: "finish s = Some (p, a, s')" "threads_ok s'"
    using ok c by (cases rule: finish_cases) auto
  then have p: "p = stack (thread_pool s ?c)" and d: "dispatch ?s0 = Some (a, s')"
    using cur by (auto simp: finish_def schedule_def enqueue_current_def Let_def bind_eq_Some_conv)
  have "waiting ?s0 i \<longleftrightarrow> waiting s i" for i using current_live(1) [OF ok c] by (auto simp: waiting_def)
  then have "pool_ok ?s0" "queue_ok ?s0" "none_running ?s0"
    using ok by (auto simp: threads_ok_def pool_ok_def queue_ok_def current_ok_def none_running_def)
  note l = dispatch_live [OF this d]
  have "live ?s0 = live s - {?c}" by (auto simp: live_def)
  moreover have "stack (thread_pool ?s0 i) = stack (thread_pool s i)" for i by simp
  ultimately show thesis using that f p l by metis
qed

lemma thread_create_total:
  assumes "threads_ok s"
  shows "\<exists>r s'. thread_create fin s f stk = Some (r, s')"
proof -
  have "pool_size s \<noteq> 0" using assms by (auto simp: threads_ok_def pool_ok_def)
  moreover have "ring_inv (ready_queue s)" using assms by (simp add: threads_ok_def queue_ok_def)
  then have "\<exists>r q. queue_add (ready_queue s) x = Some (r, q)" for x using rq.add_total by blast
  then obtain r q where "queue_add (ready_queue s) (of_nat (the (find_empty (thread_pool s) 1 (unat (pool_size s) - 1)))) = Some (r, q)"
    by blast
  ultimately show ?thesis
    by (cases "find_empty (thread_pool s) 1 (unat (pool_size s) - 1)") (auto simp: thread_create_def Let_def)
qed

lemma thread_create_pool:
  assumes ok: "threads_ok s" and c: "thread_create fin s f stk = Some (r, s')"
    and i: "find_empty (thread_pool s) 1 (unat (pool_size s) - 1) = Some i" and "stk \<noteq> 0"
  shows "live s' = insert i (live s)" "i \<notin> live s" "r = of_nat i"
    "stack (thread_pool s' j) = (if j = i then stk else stack (thread_pool s j))"
    "pool_size s' = pool_size s" "current_tid s' = current_tid s" "j \<noteq> i \<Longrightarrow> thread_pool s' j = thread_pool s j"
proof -
  have e: "tstate (thread_pool s i) = empty" "0 < i" "i < unat (pool_size s)"
    using i by (cases rule: et.loop_cases [of "thread_pool s" 1 "unat (pool_size s) - 1"]; simp)+
  have pool: "pool_size s' = pool_size s" "thread_pool s' = (thread_pool s)(i :=
      (thread_pool s i)\<lparr>tstate := new, stack := stk, esp := stk + STACK_SIZE - 4 - 4\<rparr>)" "r = of_nat i"
    "current_tid s' = current_tid s"
    using c i assms(4) by (auto simp: thread_create_def Let_def bind_eq_Some_conv)
  then show "live s' = insert i (live s)" "i \<notin> live s" "r = of_nat i"
    "stack (thread_pool s' j) = (if j = i then stk else stack (thread_pool s j))"
    "pool_size s' = pool_size s" "current_tid s' = current_tid s" "j \<noteq> i \<Longrightarrow> thread_pool s' j = thread_pool s j"
    using e by (auto simp: live_def)
qed


lemma stack_word_inside:
  assumes "buffer_at base" "0 < q" "q + 4096 \<le> DEFAULT_MEM_SIZE"
  shows "unat (stack_word base (Some q)) = unat base + q" "stack_word base (Some q) \<noteq> 0"
    "unat (stack_word base (Some q) - base) = q"
proof -
  show u: "unat (stack_word base (Some q)) = unat base + q"
    using assms by (simp add: stack_word_def buffer_at_def unat_word_ariths unat_of_nat)
  then show "stack_word base (Some q) \<noteq> 0" using assms(2) by (metis add_is_0 gr_implies_not0 unat_0)
  show "unat (stack_word base (Some q) - base) = q"
    using assms(3) by (simp add: stack_word_def unat_of_nat)
qed

lemma create_thread_inv:
  assumes "kernel_inv base k" "buffer_at base"
  obtains r k' where "create_thread base fin k f = Some (r, k')" "kernel_inv base k'"
proof -
  let ?s = "thr k" and ?at = "stack_at base (thr k)"
  have ok: "threads_ok ?s" and hold: "kheap.holders (hp k) ?at (live ?s) 4096"
    and nz: "\<forall>i\<in>live ?s. stack (thread_pool ?s i) \<noteq> 0" using assms(1) by (simp_all add: kernel_inv_def)
  show thesis
  proof (cases "find_empty (thread_pool ?s) 1 (unat (pool_size ?s) - 1)")
    case None
    then have "thread_create fin ?s f 0 = Some (0, ?s)" by (simp add: thread_create_def)
    then have "create_thread base fin k f = Some (0, k)" using None by (simp add: create_thread_def stack_word_def)
    then show ?thesis using that assms(1) by blast
  next
    case (Some i)
    then have e: "i \<notin> live ?s"
      by (cases rule: et.loop_cases [of "thread_pool ?s" 1 "unat (pool_size ?s) - 1"]) (auto simp: live_def)
    have n: "(0 :: nat) < 4096" "(4096 :: nat) \<le> 2 ^ 32 - 16" by simp_all
    from hold e n show ?thesis
    proof (cases rule: kheap.holders_alloc)
      case none
      have "thread_create fin ?s f 0 = Some (0, ?s)" using Some by (simp add: thread_create_def)
      then have "create_thread base fin k f = Some (0, k)"
        using Some none by (simp add: create_thread_def stack_word_def)
      then show ?thesis using that assms(1) by blast
    next
      case (some q h')
      note w = stack_word_inside [OF assms(2) some(2,3)]
      obtain r t where t: "thread_create fin ?s f (stack_word base (Some q)) = Some (r, t)"
        using thread_create_total [OF ok] by blast
      note pool = thread_create_pool [OF ok t Some w(2)]
      have "(?at(i := q)) j = stack_at base t j" for j using pool(4) [of j] w(3) by (simp add: stack_at_def)
      then have "?at(i := q) = stack_at base t" by blast
      then have "kernel_inv base (k\<lparr>hp := h', thr := t\<rparr>)"
        using thread_create_ok(1) [OF ok t] some(4) pool(1,4) nz w(2) by (auto simp: kernel_inv_def)
      moreover have "create_thread base fin k f = Some (r, k\<lparr>hp := h', thr := t\<rparr>)"
        using Some some(1) t by (simp add: create_thread_def)
      ultimately show ?thesis using that by blast
    qed
  qed
qed

lemma yield_thread_inv:
  assumes "kernel_inv base k"
  obtains a k' where "yield_thread k e = Some (a, k')" "kernel_inv base k'"
proof -
  have ok: "threads_ok (thr k)" using assms by (simp add: kernel_inv_def)
  obtain a t where t: "stash (thr k) e = Some (a, t)" using ok by (cases rule: stash_cases [where e = e]) auto
  note l = stash_live [OF ok t]
  have "stack_at base t = stack_at base (thr k)" using l(3) by (simp add: stack_at_def fun_eq_iff)
  then have "kernel_inv base (k\<lparr>thr := t\<rparr>)" using assms l by (simp add: kernel_inv_def)
  then show thesis using that t by (simp add: yield_thread_def)
qed

lemma finish_thread_inv:
  assumes "kernel_inv base k" "current_tid (thr k) \<noteq> 0"
  obtains a k' where "finish_thread base k = Some (a, k')" "kernel_inv base k'"
proof -
  let ?s = "thr k" and ?c = "unat (current_tid (thr k))"
  have ok: "threads_ok ?s" and hold: "kheap.holders (hp k) (stack_at base ?s) (live ?s) 4096"
    using assms(1) by (simp_all add: kernel_inv_def)
  obtain a t where t: "finish ?s = Some (stack (thread_pool ?s ?c), a, t)" "threads_ok t"
    "live t = live ?s - {?c}" "\<And>i. stack (thread_pool t i) = stack (thread_pool ?s i)"
    by (rule finish_live [OF ok assms(2)], rule that)
  have c: "?c \<in> live ?s" using current_live [OF ok assms(2)] by simp
  then have nz: "stack (thread_pool ?s ?c) \<noteq> 0" using assms(1) by (simp add: kernel_inv_def)
  obtain h where h: "free (hp k) (Some (stack_at base ?s ?c)) = Some h"
    "kheap.holders h (stack_at base ?s) (live ?s - {?c}) 4096"
    by (rule kheap.holders_release [OF hold c], rule that)
  have "stack_at base t = stack_at base ?s" using t(4) by (simp add: stack_at_def fun_eq_iff)
  then have "kernel_inv base (k\<lparr>hp := h, thr := t\<rparr>)" using t h(2) assms(1) by (simp add: kernel_inv_def)
  then show thesis using that t(1) h(1) nz by (simp add: finish_thread_def stack_at_def)
qed

section \<open>Ports\<close>

type_synonym port_log = "(8 word \<times> 16 word) list"

definition outb :: "8 word \<Rightarrow> 16 word \<Rightarrow> port_log \<Rightarrow> port_log" where
  "outb uch usPort log = log @ [(uch, usPort)]"

abbreviation FREQUENCY :: "32 word" where "FREQUENCY \<equiv> 20"
abbreviation PIT_FREQ :: "32 word" where "PIT_FREQ \<equiv> 1193181"
abbreviation PIT_CONTROL_WORD :: "16 word" where "PIT_CONTROL_WORD \<equiv> 0x43"
abbreviation PIT_CHANNEL0 :: "16 word" where "PIT_CHANNEL0 \<equiv> 0x40"

definition init_pit :: "port_log \<Rightarrow> port_log" where
  "init_pit log =
     (let log1 = outb 0x34 PIT_CONTROL_WORD log;
          log2 = outb (ucast (PIT_FREQ div FREQUENCY AND 0x00FF)) PIT_CHANNEL0 log1
      in outb (ucast (drop_bit 8 (PIT_FREQ div FREQUENCY))) PIT_CHANNEL0 log2)"

definition init_pic :: "port_log \<Rightarrow> port_log" where
  "init_pic log = outb 0x0D 0x21 (outb 0x20 0x21 (outb 0x11 0x20 log))"

section \<open>Start-up\<close>

text \<open>The thread pool and the queue in memory from the allocator: 16 bytes for a \<^verbatim>\<open>TCB\<close>, 32
  for a \<^verbatim>\<open>FIFO_Queue\<close>, 4 for an element.  A pool at \<^verbatim>\<open>NULL\<close> is undefined.\<close>

definition start_threads ::
  "heap \<Rightarrow> (nat \<Rightarrow> tcb) \<Rightarrow> (32 word \<Rightarrow> 32 word) \<Rightarrow> 32 word \<Rightarrow> (threads \<times> heap) option" where
  "start_threads h pool m n = do {
     (p, h1) \<leftarrow> malloc h (n * 16);
     (q, h2) \<leftarrow> malloc h1 32;
     (e, h3) \<leftarrow> (if q = None then Some (None, h2) else malloc h2 ((n + 1) * 4));
     if p = None then None
     else do {
       t \<leftarrow> init_thread pool m (init_queue (q \<noteq> None)
              (\<lambda>b. map_option (\<lambda>a. map (\<lambda>i. hmem h3 (a + 4 * i)) [0..<unat b div 4]) e)) n;
       Some (t, h3)
     }
   }"

text \<open>What the code finds in memory when it starts, and the addresses the linker chose.\<close>

record boot_env =
  boot_mem :: memory
  old_buffer :: "char list"
  old_heap :: "nat \<Rightarrow> 32 word"
  old_pool :: "nat \<Rightarrow> tcb"
  old_stacks :: "32 word \<Rightarrow> 32 word"
  heap_base :: "32 word"
  finish_addr :: "32 word"
  thread1_addr :: "32 word"
  thread2_addr :: "32 word"
  thread3_addr :: "32 word"

definition start_thread :: "boot_env \<Rightarrow> machine \<Rightarrow> 32 word \<Rightarrow> machine option" where
  "start_thread v k f = do {
     (tid, k1) \<leftarrow> create_thread (heap_base v) (finish_addr v) k f;
     s \<leftarrow> (if tid \<noteq> 0
           then do { s1 \<leftarrow> print (scr k1) (lit ''Thread ''); put_char s1 (char_of (unat (tid + 48))) }
           else print (scr k1) (lit ''Failed to create new thread.''));
     Some (k1\<lparr>scr := s\<rparr>)
   }"

text \<open>\<^verbatim>\<open>init\<close> up to the first switch; \<open>e\<close> is the stack pointer it saves.\<close>

definition init :: "boot_env \<Rightarrow> screen \<Rightarrow> 32 word \<Rightarrow> 32 word \<Rightarrow> (control \<times> machine) option" where
  "init v s addr e = do {
     s1 \<leftarrow> cls s;
     s2 \<leftarrow> println s1 (lit ''File system DISCOS: Jiaqian Sun, Ziqi Tan'');
     s3 \<leftarrow> print_memory_map (boot_mem v) (old_buffer v) s2 addr;
     h \<leftarrow> init_heap (old_heap v);
     let log = init_pit (init_pic []);
     (t, h1) \<leftarrow> start_threads h (old_pool v) (old_stacks v) (3 * 2);
     k1 \<leftarrow> start_thread v \<lparr>scr = s3, hp = h1, thr = t, ports = log\<rparr> (thread1_addr v);
     k2 \<leftarrow> start_thread v k1 (thread2_addr v);
     k3 \<leftarrow> start_thread v k2 (thread3_addr v);
     yield_thread k3 e
   }"

text \<open>What \<^verbatim>\<open>init\<close> does when the main thread is resumed.\<close>

definition init_end :: "machine \<Rightarrow> machine option" where
  "init_end k = do { s \<leftarrow> print (scr k) (lit ''All threads finished.''); Some (k\<lparr>scr := s\<rparr>) }"

text \<open>The functions of the three threads: they print a number of lines; \<^verbatim>\<open>delay\<close> only
  takes time.\<close>

fun run_jobs :: "screen \<Rightarrow> string \<Rightarrow> nat \<Rightarrow> screen option" where
  "run_jobs s line 0 = Some s"
| "run_jobs s line (Suc jobs) = do { s1 \<leftarrow> println s (lit line); run_jobs s1 line jobs }"

definition thread1_run :: "screen \<Rightarrow> screen option" where
  "thread1_run s = do { s1 \<leftarrow> run_jobs s ''Thread<0001> is running...  '' 2; println s1 (lit ''Thread<0001> finished.'') }"

definition thread2_run :: "screen \<Rightarrow> screen option" where
  "thread2_run s = do { s1 \<leftarrow> run_jobs s ''Thread<0002> is running...  '' 4; println s1 (lit ''Thread<0002> finished.'') }"

definition thread3_run :: "screen \<Rightarrow> screen option" where
  "thread3_run s = do { s1 \<leftarrow> run_jobs s ''Thread<0003> is running...  '' 6; println s1 (lit ''Thread<0003> finished.'') }"

lemma run_jobs_displays:
  assumes "is_cstr line" "displays s t"
  shows "\<exists>s'. run_jobs s line n = Some s' \<and> displays s' (lay t (concat (replicate n (line @ [CHR 0x0A]))))"
  using assms(2)
proof (induction n arbitrary: s t)
  case (Suc n)
  obtain s1 where s1: "println s (lit line) = Some s1" "displays s1 (lay t (line @ [CHR 0x0A]))"
    using put_chars_displays [OF Suc.prems] println_lit [OF assms(1)] by metis
  then show ?case using Suc.IH [OF s1(2)] by simp
qed simp

section \<open>Start-up, proved\<close>

lemma take_first_front:
  assumes "list_all snd us" "n + DSIZE < s"
  shows "take_first n a (us @ [(s, False)]) = Some (a + span_of us, us @ [(n, True), (s - n, False)])"
  using assms by (induction us arbitrary: a) (auto simp: carve_def add.assoc)

lemma malloc_front:
  assumes "heap_rep h (us @ [(s, False)])" "list_all snd us" "sz \<noteq> 0" "unat sz \<le> 2 ^ 32 - 16" "need sz + DSIZE < s"
  shows "\<exists>h'. malloc h sz = Some (Some (2 * DSIZE + span_of us), h')
    \<and> heap_rep h' ((us @ [(need sz, True)]) @ [(s - need sz, False)])"
  using malloc_spec [OF assms(1,3,4)] take_first_front [OF assms(2,5), of DSIZE] by auto

lemma start_threads_ok:
  assumes h: "heap_rep h [(1048568, False)]"
  shows "\<exists>t h'. start_threads h pool m 6 = Some (t, h') \<and> threads_ok t \<and> ring_items (ready_queue t) = []
     \<and> pool_size t = 6 \<and> current_tid t = 0 \<and> live t = {} \<and> heap_rep h' ([(104, True), (40, True), (40, True)] @ [(1048384, False)])"
proof -
  have need: "need 96 = 104" "need 32 = 40" "need 28 = 40" by (simp_all add: need_def)
  obtain h1 where h1: "malloc h 96 = Some (Some 16, h1)" "heap_rep h1 ([(104, True)] @ [(1048464, False)])"
    using malloc_front [of h "[]" 1048568 96] h need(1) by auto
  obtain h2 where h2: "malloc h1 32 = Some (Some 120, h2)" "heap_rep h2 ([(104, True), (40, True)] @ [(1048424, False)])"
    using malloc_front [OF h1(2), of 32] need(2) by auto
  obtain h3 where h3: "malloc h2 28 = Some (Some 160, h3)"
    "heap_rep h3 ([(104, True), (40, True), (40, True)] @ [(1048384, False)])"
    using malloc_front [OF h2(2), of 28] need(3) by auto
  let ?words = "\<lambda>b :: 32 word. Some (map (\<lambda>i. hmem h3 (160 + 4 * i)) [0..<unat b div 4])"
  obtain q where q: "init_queue True ?words 6 = Some q" "ring_inv q" "ring_items q = []" "ring_cap q = unat (6 :: 32 word)"
    using init_queue_ok [of 6 ?words] by auto
  obtain t where t: "init_thread pool m (init_queue True ?words) 6 = Some t" "threads_ok t" "queued t = []" "pool_size t = 6"
    using init_thread_ok [of "init_queue True ?words" 6 q pool m] q by auto
  have "live t = {}"
  proof -
    have "thread_pool t = init_pool pool 1 (unat (6 :: 32 word) - 1)" using t(1) by (auto simp: init_thread_def bind_eq_Some_conv)
    then have "tstate (thread_pool t i) = empty" if "0 < i" "i < 6" for i
      using that init_pool_set [of 1 i "unat (6 :: 32 word) - 1" pool] by simp
    then show ?thesis using t(4) by (auto simp: live_def)
  qed
  moreover have "current_tid t = 0" using t(1) by (auto simp: init_thread_def bind_eq_Some_conv)
  ultimately show ?thesis using h1(1) h2(1) h3 t by (simp add: start_threads_def)
qed

lemma small_index:
  assumes "0 < i" "i < 6"
  shows "unat (of_nat i :: 32 word) = i" "(of_nat i :: 32 word) \<noteq> 0"
proof -
  show u: "unat (of_nat i :: 32 word) = i" using assms(2) by (simp add: unat_of_nat)
  then show "(of_nat i :: 32 word) \<noteq> 0" using assms(1) by auto
qed

lemma malloc_stack:
  assumes "heap_rep h (us @ [(s, False)])" "list_all snd us" "4112 < s"
  shows "\<exists>h'. malloc h 4096 = Some (Some (2 * DSIZE + span_of us), h')
    \<and> heap_rep h' ((us @ [(4104, True)]) @ [(s - 4104, False)])"
proof -
  have need: "need 4096 = 4104" by (simp add: need_def)
  have "\<exists>h'. malloc h 4096 = Some (Some (2 * DSIZE + span_of us), h')
      \<and> heap_rep h' ((us @ [(need 4096, True)]) @ [(s - need 4096, False)])"
    by (rule malloc_front [OF assms(1,2)]) (use assms(3) in \<open>simp_all add: need\<close>)
  then show ?thesis unfolding need .
qed

lemma create_thread_first:
  assumes t: "threads_ok (thr k)" and sz: "pool_size (thr k) = 6"
    and lv: "live (thr k) = {1..<i}" "0 < i" "i < 6"
    and h: "heap_rep (hp k) (us @ [(s, False)])" "list_all snd us" "4112 < s"
    and base: "buffer_at base"
  shows "\<exists>k'. create_thread base fin k f = Some (of_nat i, k') \<and> threads_ok (thr k') \<and> pool_size (thr k') = 6
     \<and> live (thr k') = {1..<Suc i} \<and> ring_items (ready_queue (thr k')) = ring_items (ready_queue (thr k)) @ [of_nat i]
     \<and> tstate (thread_pool (thr k') i) = new \<and> (\<forall>j. j \<noteq> i \<longrightarrow> thread_pool (thr k') j = thread_pool (thr k) j)
     \<and> heap_rep (hp k') ((us @ [(4104, True)]) @ [(s - 4104, False)])
     \<and> current_tid (thr k') = current_tid (thr k) \<and> ports k' = ports k \<and> scr k' = scr k"
proof -
  from malloc_stack [OF h] obtain h' where h': "malloc (hp k) 4096 = Some (Some (2 * DSIZE + span_of us), h')"
    "heap_rep h' ((us @ [(4104, True)]) @ [(s - 4104, False)])"
    by (elim exE conjE) (rule that)
  have f: "find_empty (thread_pool (thr k)) 1 (unat (pool_size (thr k)) - 1) = Some i"
  proof (rule et.loop_hit)
    have e: "tstate (thread_pool (thr k) j) = empty \<longleftrightarrow> i \<le> j" if j: "0 < j" "j < 6" for j
    proof -
      have "tstate (thread_pool (thr k) j) \<noteq> empty \<longleftrightarrow> j \<in> live (thr k)" using j sz by (simp add: live_def)
      also have "\<dots> \<longleftrightarrow> j < i" unfolding lv(1) using j(1) by simp
      finally show ?thesis by (meson not_less)
    qed
    show "tstate (thread_pool (thr k) i) = empty" "1 \<le> i" "i < 1 + (unat (pool_size (thr k)) - 1)"
      using e [of i] lv(2,3) sz by simp_all
    show "tstate (thread_pool (thr k) j) \<noteq> empty" if "1 \<le> j" "j < i" for j
      using e [of j] that lv(3) by simp
  qed
  have "DSIZE + span_of (us @ [(s, False)]) = DEFAULT_MEM_SIZE" using h(1) by (simp add: heap_rep_def)
  then have "0 < 2 * DSIZE + span_of us" "2 * DSIZE + span_of us + 4096 \<le> DEFAULT_MEM_SIZE"
    using h(3) by simp_all
  note w = stack_word_inside [OF base this]
  let ?p = "stack_word base (Some (2 * DSIZE + span_of us))"
  obtain r t' where c: "thread_create fin (thr k) f ?p = Some (r, t')" using thread_create_total [OF t] by blast
  note pool = thread_create_pool [OF t c f w(2)]
  have i: "unat (of_nat i :: 32 word) = i" "(of_nat i :: 32 word) \<noteq> 0" by (rule small_index [OF lv(2,3)])+
  have "insert i {1..<i} = {1..<Suc i}" using lv(2) by auto
  then have lv': "live t' = {1..<Suc i}" using pool(1) lv(1) by simp
  have q: "ring_items (ready_queue t') = ring_items (ready_queue (thr k)) @ [of_nat i]" "tstate (thread_pool t' i) = new"
    using thread_create_ok(2) [OF t c] pool(3) i by simp_all
  have "create_thread base fin k f = Some (of_nat i, k\<lparr>hp := h', thr := t'\<rparr>)"
    using f h'(1) c pool(3) by (simp add: create_thread_def)
  then show ?thesis
    using thread_create_ok(1) [OF t c] lv' q h'(2) pool(5-7) sz
    by (intro exI [of _ "k\<lparr>hp := h', thr := t'\<rparr>"] conjI) simp_all
qed

text \<open>A thread started like this announces its number.\<close>

definition boot_stage :: "boot_env \<Rightarrow> nat \<Rightarrow> char option list \<Rightarrow> machine \<Rightarrow> bool" where
  "boot_stage v i sheet k \<longleftrightarrow> threads_ok (thr k) \<and> pool_size (thr k) = 6 \<and> live (thr k) = {1..<i}
     \<and> ring_items (ready_queue (thr k)) = map of_nat [1..<i] \<and> (\<forall>j\<in>{1..<i}. tstate (thread_pool (thr k) j) = new)
     \<and> current_tid (thr k) = 0 \<and> kernel_inv (heap_base v) k \<and> displays (scr k) sheet
     \<and> (\<exists>us s. heap_rep (hp k) (us @ [(s, False)]) \<and> list_all snd us \<and> s + 4104 * i = 1052488)"

lemma start_thread_stage:
  assumes st: "boot_stage v i sheet k" and i: "0 < i" "i < 6" and base: "buffer_at (heap_base v)"
  shows "\<exists>k'. start_thread v k f = Some k' \<and> boot_stage v (Suc i) (lay sheet (''Thread '' @ [char_of (i + 48)])) k'
     \<and> ports k' = ports k"
proof -
  obtain us s where us: "heap_rep (hp k) (us @ [(s, False)])" "list_all snd us" "s + 4104 * i = 1052488"
    using st by (auto simp: boot_stage_def)
  then have "4112 < s" using i(2) by simp
  with st obtain k1 where k1: "create_thread (heap_base v) (finish_addr v) k f = Some (of_nat i, k1)" "threads_ok (thr k1)"
    "pool_size (thr k1) = 6" "live (thr k1) = {1..<Suc i}"
    "ring_items (ready_queue (thr k1)) = ring_items (ready_queue (thr k)) @ [of_nat i]"
    "tstate (thread_pool (thr k1) i) = new" "\<forall>j. j \<noteq> i \<longrightarrow> thread_pool (thr k1) j = thread_pool (thr k) j"
    "heap_rep (hp k1) ((us @ [(4104, True)]) @ [(s - 4104, False)])"
    "current_tid (thr k1) = current_tid (thr k)" "ports k1 = ports k" "scr k1 = scr k"
    using create_thread_first [of k i us s "heap_base v" "finish_addr v" f] us(1,2) i base
    by (auto simp: boot_stage_def)
  have inv: "kernel_inv (heap_base v) k1"
    using create_thread_inv [of "heap_base v" k "finish_addr v" f] st base k1(1) by (auto simp: boot_stage_def)
  have d: "displays (scr k1) sheet" using st k1(11) by (simp add: boot_stage_def)
  obtain s1 where s1: "put_chars (scr k1) (''Thread '' @ [char_of (i + 48)]) = Some s1"
    "displays s1 (lay sheet (''Thread '' @ [char_of (i + 48)]))"
    using put_chars_displays [OF d] by blast
  have w: "(of_nat i :: 32 word) \<noteq> 0" "unat (of_nat i + 48 :: 32 word) = i + 48"
    using i small_index [OF i] by (simp_all add: unat_word_ariths)
  obtain y where y: "put_chars (scr k1) ''Thread '' = Some y" "put_char y (char_of (i + 48)) = Some s1"
    using s1(1) unfolding put_chars_append by (auto simp: bind_eq_Some_conv simp del: put_chars.simps(2)) (simp add: bind_eq_Some_conv)
  have "print (scr k1) (lit ''Thread '') = Some y" using y(1) by (subst print_lit) simp_all
  then have start: "start_thread v k f = Some (k1\<lparr>scr := s1\<rparr>)"
    using k1(1) y(2) w by (simp add: start_thread_def del: print.simps)
  moreover have "[1..<Suc i] = [1..<i] @ [i]" using i(1) by simp
  moreover have "s - 4104 + 4104 * Suc i = 1052488" using \<open>4112 < s\<close> us(3) by simp
  ultimately have "boot_stage v (Suc i) (lay sheet (''Thread '' @ [char_of (i + 48)])) (k1\<lparr>scr := s1\<rparr>)"
    unfolding boot_stage_def
    using k1 inv s1(2) st us
    by (auto simp: boot_stage_def kernel_inv_def less_Suc_eq simp del: lay_simps
        intro!: exI [of _ "us @ [(4104, True)]"] exI [of _ "s - 4104"])
  with start show ?thesis using k1(10) by auto
qed

lemma start_stage:
  assumes "threads_ok t" "ring_items (ready_queue t) = []" "pool_size t = 6" "current_tid t = 0" "live t = {}"
    "heap_rep h ([(104, True), (40, True), (40, True)] @ [(1048384, False)])" "displays s sheet"
  shows "boot_stage v 1 sheet \<lparr>scr = s, hp = h, thr = t, ports = log\<rparr>"
proof -
  have "heap_owns h ((\<lambda>(a, k). (a + DSIZE, k - DSIZE)) ` set (regions DSIZE ([(104, True), (40, True), (40, True)] @ [(1048384, False)])))"
    using assms(6) unfolding heap_owns_def by blast
  then have "kheap.holders h f {} 4096" for f unfolding kheap.holders_def by auto
  then show ?thesis
    unfolding boot_stage_def using assms
    by (auto simp: kernel_inv_def intro!: exI [of _ "[(104, True), (40, True), (40, True)]"] exI [of _ 1048384])
qed

lemma first_switch:
  assumes st: "boot_stage v i sheet k" and i: "1 < i"
  obtains k' where "yield_thread k e = Some (Start 1, k')" "kernel_inv (heap_base v) k'"
    "current_tid (thr k') = 1" "1 # ring_items (ready_queue (thr k')) = ring_items (ready_queue (thr k))"
    "live (thr k') = live (thr k)" "scr k' = scr k" "ports k' = ports k"
proof -
  let ?s = "thr k"
  let ?t = "set_tcb ?s (ptr_current_esp ?s) ((thread_pool ?s (ptr_current_esp ?s))\<lparr>esp := e\<rparr>)"
  have inv: "kernel_inv (heap_base v) k" and ok: "threads_ok ?s" and cur: "current_tid ?s = 0"
    and q: "ring_items (ready_queue ?s) = map of_nat [1..<i]"
    and new: "tstate (thread_pool ?s 1) = new" using st i by (auto simp: boot_stage_def)
  have ptr: "ptr_current_esp ?s = 0" using ok cur by (simp add: threads_ok_def current_ok_def)
  have "[1..<i] = 1 # [Suc 1..<i]" using i by (simp add: upt_rec)
  then have hd: "ring_items (ready_queue ?s) = 1 # map of_nat [Suc 1..<i]" using q by simp
  obtain a k' where y: "yield_thread k e = Some (a, k')" "kernel_inv (heap_base v) k'"
    by (rule yield_thread_inv [OF inv], rule that)
  then obtain t where t: "stash ?s e = Some (a, t)" "k' = k\<lparr>thr := t\<rparr>" by (auto simp: yield_thread_def bind_eq_Some_conv)
  have d: "dispatch ?t = Some (a, t)" using t(1) cur by (simp add: stash_def schedule_def enqueue_current_def)
  have "threads_ok ?t" by (rule threads_ok_esp [OF ok])
  then have "pool_ok ?t" "queue_ok ?t" "none_running ?t"
    using cur by (auto simp: threads_ok_def current_ok_def none_running_def)
  then have "a = Start 1 \<and> current_tid t = 1 \<and> queued ?s = 1 # queued t"
  proof (cases rule: dispatch_ok)
    case (idle s')
    then show ?thesis using hd by simp
  next
    case (run u b s')
    then have "u = 1" using hd by simp
    then show ?thesis using run d new ptr by simp
  qed
  then show thesis using that [of k'] y t(2) stash_live(2) [OF ok t(1)] by simp
qed

lemma init_ports: "init_pit (init_pic []) = [(0x11, 0x20), (0x20, 0x21), (0x0D, 0x21), (0x34, 0x43), (0x0B, 0x40), (0xE9, 0x40)]"
  by (simp add: init_pit_def init_pic_def outb_def Let_def)

text \<open>C31: The kernel starts.  With a consistent memory map and room for the allocator's buffer,
  \<^verbatim>\<open>init\<close> returns to thread 1, which starts, with threads 2 and 3 waiting in this order and
  each thread on a stack of its own; the screen shows the greeting, the memory map and the
  three threads, and the ports have received the set-up of the interrupt controller and a
  timer divisor of 59659, lower byte first, for 20 interrupts a second.\<close>

theorem init_starts:
  assumes "describes (boot_mem v) addr es" "length (old_buffer v) = 19" "buffer_at (heap_base v)"
  shows "\<exists>k. init v s addr e = Some (Start 1, k) \<and> kernel_inv (heap_base v) k
     \<and> current_tid (thr k) = 1 \<and> ring_items (ready_queue (thr k)) = [2, 3] \<and> live (thr k) = {1, 2, 3}
     \<and> displays (scr k) (lay [] (''File system DISCOS: Jiaqian Sun, Ziqi Tan'' @ [CHR 0x0A]
          @ concat (map range_text es) @ size_text (free_total es) @ ''Thread 1Thread 2Thread 3''))
     \<and> ports k = [(0x11, 0x20), (0x20, 0x21), (0x0D, 0x21), (0x34, 0x43), (0x0B, 0x40), (0xE9, 0x40)]"
proof -
  let ?hello = "''File system DISCOS: Jiaqian Sun, Ziqi Tan''"
  let ?map = "concat (map range_text es) @ size_text (free_total es)"
  obtain s1 where s1: "cls s = Some s1" "displays s1 []" using cls_displays by blast
  obtain s2 where s2: "put_chars s1 (?hello @ [CHR 0x0A]) = Some s2" "displays s2 (lay [] (?hello @ [CHR 0x0A]))"
    using put_chars_displays [OF s1(2)] by blast
  have hello: "println s1 (lit ?hello) = Some s2" using s2(1) by (subst println_lit) simp_all
  obtain s3 where s3: "print_memory_map (boot_mem v) (old_buffer v) s2 addr = Some s3"
    "displays s3 (lay (lay [] (?hello @ [CHR 0x0A])) ?map)"
    using print_memory_map_ok [OF assms(1) s2(2) assms(2)] by blast
  obtain h where h: "init_heap (old_heap v) = Some h" "heap_rep h [(1048568, False)]"
    using init_heap_rep [of "old_heap v"] by auto
  obtain t h1 where t: "start_threads h (old_pool v) (old_stacks v) 6 = Some (t, h1)" "threads_ok t"
    "ring_items (ready_queue t) = []" "pool_size t = 6" "current_tid t = 0" "live t = {}"
    "heap_rep h1 ([(104, True), (40, True), (40, True)] @ [(1048384, False)])"
    using start_threads_ok [OF h(2)] by blast
  let ?k = "\<lparr>scr = s3, hp = h1, thr = t, ports = init_pit (init_pic [])\<rparr>"
  let ?sheet = "lay [] (?hello @ [CHR 0x0A] @ ?map)"
  have st: "boot_stage v 1 ?sheet ?k" using start_stage [OF t(2-7) s3(2)] by simp
  obtain k1 where k1: "start_thread v ?k (thread1_addr v) = Some k1"
    "boot_stage v 2 (lay ?sheet (''Thread '' @ [char_of (49 :: nat)])) k1" "ports k1 = ports ?k"
    using start_thread_stage [OF st _ _ assms(3), of "thread1_addr v"] by (auto simp: numeral_2_eq_2)
  obtain k2 where k2: "start_thread v k1 (thread2_addr v) = Some k2"
    "boot_stage v 3 (lay (lay ?sheet (''Thread '' @ [char_of (49 :: nat)])) (''Thread '' @ [char_of (50 :: nat)])) k2"
    "ports k2 = ports ?k"
    using start_thread_stage [OF k1(2) _ _ assms(3), of "thread2_addr v"] k1(3) by (auto simp: eval_nat_numeral)
  obtain k3 where k3: "start_thread v k2 (thread3_addr v) = Some k3"
    "boot_stage v 4 (lay (lay (lay ?sheet (''Thread '' @ [char_of (49 :: nat)])) (''Thread '' @ [char_of (50 :: nat)])) (''Thread '' @ [char_of (51 :: nat)])) k3"
    "ports k3 = ports ?k"
    using start_thread_stage [OF k2(2) _ _ assms(3), of "thread3_addr v"] k2(3) by (auto simp: eval_nat_numeral)
  have i: "(1 :: nat) < 4" by simp
  obtain k where k: "yield_thread k3 e = Some (Start 1, k)" "kernel_inv (heap_base v) k" "current_tid (thr k) = 1"
    "1 # ring_items (ready_queue (thr k)) = ring_items (ready_queue (thr k3))" "live (thr k) = live (thr k3)"
    "scr k = scr k3" "ports k = ports k3"
    by (rule first_switch [OF k3(2) i, where e = e], rule that)
  have "init v s addr e = Some (Start 1, k)"
    using s1(1) hello s3(1) h(1) t(1) k1(1) k2(1) k3(1) k(1) by (simp add: init_def Let_def)
  moreover have "ring_items (ready_queue (thr k)) = [2, 3]" "live (thr k) = {1, 2, 3}"
  proof -
    have u: "[1..<4] = [1, 2, 3 :: nat]" by (simp add: upt_rec)
    have "{1..<4} = {1, 2, 3 :: nat}" by auto
    then show "live (thr k) = {1, 2, 3}" using k(5) k3(2) by (simp add: boot_stage_def)
    have "ring_items (ready_queue (thr k3)) = [1, 2, 3]" using k3(2) u unfolding boot_stage_def by simp
    then show "ring_items (ready_queue (thr k)) = [2, 3]" using k(4) by simp
  qed
  moreover have "''Thread 1Thread 2Thread 3'' = (''Thread '' @ [char_of (49 :: nat)]) @ (''Thread '' @ [char_of (50 :: nat)]) @ (''Thread '' @ [char_of (51 :: nat)])"
    by code_simp
  then have "displays (scr k) (lay [] (?hello @ [CHR 0x0A] @ concat (map range_text es) @ size_text (free_total es) @ ''Thread 1Thread 2Thread 3''))"
    using k3(2) k(6) by (simp add: boot_stage_def)
  ultimately show ?thesis using k k3(3) init_ports by simp
qed

definition sample_env :: boot_env where
  "sample_env = \<lparr>boot_mem = sample_mem, old_buffer = replicate 19 NUL, old_heap = (\<lambda>_. 0),
     old_pool = (\<lambda>_. \<lparr>TID = 0, tstate = running, stack = 0, esp = 0\<rparr>), old_stacks = (\<lambda>_. 0),
     heap_base = 0x110000, finish_addr = 0x100400, thread1_addr = 0x100500, thread2_addr = 0x100600, thread3_addr = 0x100700\<rparr>"

lemma sample_env_ok: "describes (boot_mem sample_env) 0x40 sample_map" "length (old_buffer sample_env) = 19"
  "buffer_at (heap_base sample_env)"
  using sample_map_describes by (simp_all add: sample_env_def buffer_at_def)

theorem init_starts_witness:
  "\<exists>k. init sample_env blank_screen 0x40 0x104FD0 = Some (Start 1, k) \<and> ring_items (ready_queue (thr k)) = [2, 3]
     \<and> live (thr k) = {1, 2, 3}"
  using init_starts [OF sample_env_ok, of blank_screen "0x104FD0"] by blast

section \<open>Stacks stay apart\<close>

text \<open>A step of the kernel: a switch, the end of the current thread, or a new thread.\<close>

inductive kernel_step :: "32 word \<Rightarrow> machine \<Rightarrow> machine \<Rightarrow> bool" for base where
  yields: "yield_thread k e = Some (a, k') \<Longrightarrow> kernel_step base k k'"
| finishes: "current_tid (thr k) \<noteq> 0 \<Longrightarrow> finish_thread base k = Some (a, k') \<Longrightarrow> kernel_step base k k'"
| creates: "create_thread base fin k f = Some (r, k') \<Longrightarrow> kernel_step base k k'"

lemma kernel_step_inv: "kernel_step base k k' \<Longrightarrow> buffer_at base \<Longrightarrow> kernel_inv base k \<Longrightarrow> kernel_inv base k'"
proof (induction rule: kernel_step.induct)
  case (yields k e a k')
  then show ?case using yield_thread_inv [of base k e] by auto
next
  case (finishes k a k')
  then show ?case using finish_thread_inv [of base k] by auto
next
  case (creates fin k f r k')
  then show ?case using create_thread_inv [of base k fin f] by auto
qed

lemma kernel_run_inv: "(kernel_step base)\<^sup>*\<^sup>* k k' \<Longrightarrow> buffer_at base \<Longrightarrow> kernel_inv base k \<Longrightarrow> kernel_inv base k'"
  by (induction rule: rtranclp_induct) (auto intro: kernel_step_inv)

text \<open>C29: Threads keep their own stacks.  After any sequence of switches, thread ends and
  thread creations from a state in which every live thread owns its stack, each live thread
  still has 4096 bytes of its own inside the allocator's buffer, apart from every other
  stack, though stacks are freed and handed out again; and in that state each of the
  operations returns.\<close>

theorem stacks_apart:
  assumes "buffer_at base" "kernel_inv base k" "(kernel_step base)\<^sup>*\<^sup>* k k'"
  shows "(\<forall>i \<in> live (thr k'). stack_at base (thr k') i + 4096 \<le> DEFAULT_MEM_SIZE
       \<and> (\<forall>j \<in> live (thr k') - {i}. stack_at base (thr k') i + 4096 < stack_at base (thr k') j
            \<or> stack_at base (thr k') j + 4096 < stack_at base (thr k') i))
    \<and> (\<exists>r. yield_thread k' e = Some r) \<and> (\<exists>r. create_thread base fin k' f = Some r)
    \<and> (current_tid (thr k') \<noteq> 0 \<longrightarrow> (\<exists>r. finish_thread base k' = Some r))"
proof -
  have inv: "kernel_inv base k'" using kernel_run_inv [OF assms(3,1,2)] .
  then have h: "kheap.holders (hp k') (stack_at base (thr k')) (live (thr k')) 4096" by (simp add: kernel_inv_def)
  have "\<exists>r. yield_thread k' e = Some r" by (rule yield_thread_inv [OF inv]) blast
  moreover have "\<exists>r. create_thread base fin k' f = Some r" by (rule create_thread_inv [OF inv assms(1)]) blast
  moreover have "\<exists>r. finish_thread base k' = Some r" if "current_tid (thr k') \<noteq> 0"
    by (rule finish_thread_inv [OF inv that]) blast
  ultimately show ?thesis using kheap.holders_apart [OF h] kheap.holders_inside [OF h] by auto
qed

text \<open>Thread 1 of the started kernel ends, and its entry and memory are used again.\<close>

lemma init_inv: "\<exists>k. kernel_inv (heap_base sample_env) k \<and> current_tid (thr k) \<noteq> 0"
proof -
  have "displays blank_screen []" by (rule blank_displays)
  obtain h where h: "init_heap (\<lambda>_. 0) = Some h" "heap_rep h [(1048568, False)]"
    using init_heap_rep [of "\<lambda>_. 0"] by auto
  obtain t h1 where t: "threads_ok t" "ring_items (ready_queue t) = []" "pool_size t = 6" "current_tid t = 0" "live t = {}"
    "heap_rep h1 ([(104, True), (40, True), (40, True)] @ [(1048384, False)])"
    using start_threads_ok [OF h(2)] by blast
  note st = start_stage [OF t blank_displays, of sample_env "[]"]
  obtain k where k: "boot_stage sample_env (Suc 1) (lay [] (''Thread '' @ [char_of (1 + 48 :: nat)])) k"
    using start_thread_stage [OF st _ _ sample_env_ok(3)] by auto
  have "(1 :: nat) < Suc 1" by simp
  from first_switch [OF k this] show ?thesis by (metis zero_neq_one)
qed

theorem stacks_apart_witness:
  "\<exists>k k' e. buffer_at (heap_base sample_env) \<and> kernel_inv (heap_base sample_env) k
     \<and> finish_thread (heap_base sample_env) k = Some k' \<and> (\<exists>r. yield_thread k e = Some r)"
proof -
  obtain k where k: "kernel_inv (heap_base sample_env) k" "current_tid (thr k) \<noteq> 0" using init_inv by blast
  show ?thesis
    using stacks_apart [OF sample_env_ok(3) k(1) rtranclp.rtrancl_refl, of 0] k sample_env_ok(3) by blast
qed
end
