(* ===== verification/Fifos_Boot.thy ===== *)
theory Fifos_Boot
  imports Fifos_Kernel
begin

text \<open>
  The interrupt descriptor table that \<^verbatim>\<open>FileSystem-v3/boot.s\<close> builds before it calls \<^verbatim>\<open>init\<close>: a
  loop over the 48 handler addresses of \<^verbatim>\<open>idt_table\<close>, each of which becomes a gate of two
  words.  Memory is a map from the addresses of words; \<^verbatim>\<open>timer\<close> is an address that the linker
  chooses.  \<open>Fifos_Kernel\<close> has the set-up of the interrupt controller that says which gate
  the timer interrupt uses.
\<close>

section \<open>The loop\<close>

record boot_regs =
  EAX :: "32 word"
  EDX :: "32 word"
  EDI :: "32 word"
  ESI :: "32 word"
  words :: "32 word \<Rightarrow> 32 word"

definition idt_table :: "32 word \<Rightarrow> 32 word list" where
  "idt_table timer = replicate 32 0 @ timer # replicate 15 0"

text \<open>\<^verbatim>\<open>movw\<close> replaces the lower half of a register.\<close>

definition movw :: "16 word \<Rightarrow> 32 word \<Rightarrow> 32 word" where
  "movw w r = (r AND 0xFFFF0000) OR ucast w"

definition gate_step :: "boot_regs \<Rightarrow> boot_regs" where
  "gate_step r =
     (let r1 = r\<lparr>EAX := words r (ESI r), ESI := ESI r + 4\<rparr>;
          r2 = r1\<lparr>EDX := movw (ucast (EAX r1)) (EDX r1)\<rparr>;
          r3 = r2\<lparr>EAX := movw 0xEE00 (EAX r2)\<rparr>;
          r4 = r3\<lparr>words := (words r3)(EDI r3 := EDX r3), EDI := EDI r3 + 4\<rparr>
      in r4\<lparr>words := (words r4)(EDI r4 := EAX r4), EDI := EDI r4 + 4\<rparr>)"

text \<open>The argument is \<^verbatim>\<open>ECX\<close>.\<close>

fun gate_loop :: "nat \<Rightarrow> boot_regs \<Rightarrow> boot_regs" where
  "gate_loop 0 r = r"
| "gate_loop (Suc n) r = gate_loop n (gate_step r)"

definition load_idt :: "32 word \<Rightarrow> 32 word \<Rightarrow> 32 word \<Rightarrow> (32 word \<Rightarrow> 32 word) \<Rightarrow> 32 word \<Rightarrow> 32 word" where
  "load_idt eax idt table m =
     words (gate_loop 0x30 \<lparr>EAX = eax, EDX = 0x080000, EDI = idt, ESI = table, words = m\<rparr>)"

section \<open>What a gate says\<close>

text \<open>The handler, the code segment and the access byte of the gate of vector \<open>v\<close>, as the
  processor reads them.\<close>

definition gate_offset :: "(32 word \<Rightarrow> 32 word) \<Rightarrow> 32 word \<Rightarrow> nat \<Rightarrow> 32 word" where
  "gate_offset m idt v = (m (idt + of_nat (8 * v)) AND 0xFFFF) OR (m (idt + of_nat (8 * v + 4)) AND 0xFFFF0000)"

definition gate_selector :: "(32 word \<Rightarrow> 32 word) \<Rightarrow> 32 word \<Rightarrow> nat \<Rightarrow> 16 word" where
  "gate_selector m idt v = ucast (drop_bit 16 (m (idt + of_nat (8 * v))))"

definition gate_access :: "(32 word \<Rightarrow> 32 word) \<Rightarrow> 32 word \<Rightarrow> nat \<Rightarrow> 8 word" where
  "gate_access m idt v = ucast (drop_bit 8 (m (idt + of_nat (8 * v + 4))))"

text \<open>The words of the gates and of the table are different places.\<close>

definition apart :: "32 word \<Rightarrow> 32 word \<Rightarrow> bool" where
  "apart idt table \<longleftrightarrow> (\<forall>k < 96. \<forall>v < 48. idt + of_nat (4 * k) \<noteq> table + of_nat (4 * v))"

section \<open>Lemmas\<close>

lemma offset_same: "k < 512 \<Longrightarrow> l < 512 \<Longrightarrow> (idt :: 32 word) + of_nat (4 * k) = idt + of_nat (4 * l) \<longleftrightarrow> k = l"
proof
  assume kl: "k < 512" "l < 512" "idt + of_nat (4 * k) = idt + of_nat (4 * l)"
  then have "(of_nat (4 * k) :: 32 word) = of_nat (4 * l)" by simp
  then have "unat (of_nat (4 * k) :: 32 word) = unat (of_nat (4 * l) :: 32 word)" by simp
  then show "k = l" using kl(1,2) by (simp add: unat_of_nat del: of_nat_mult)
qed simp

lemma gate_step_words:
  "words (gate_step r) = (words r)(EDI r := movw (ucast (words r (ESI r))) (EDX r),
     EDI r + 4 := movw 0xEE00 (words r (ESI r)))"
  "EDI (gate_step r) = EDI r + 8" "ESI (gate_step r) = ESI r + 4"
  "EDX (gate_step r) = movw (ucast (words r (ESI r))) (EDX r)"
  by (simp_all add: gate_step_def Let_def)

lemma high_half: "(0xFFFF0000 :: 32 word) = push_bit 16 (mask 16)"
  by (simp add: mask_eq_exp_minus_1 push_bit_eq_mult)

lemma bit_movw: "bit (movw w r) n \<longleftrightarrow> (if n < 16 then bit w n else bit r n)"
  unfolding movw_def high_half
  by (auto simp: bit_simps not_less dest: bit_imp_le_length)

lemma movw_twice: "movw a (movw b r) = movw a r"
  by (rule bit_word_eqI) (simp add: bit_movw)

text \<open>The words that the loop leaves, for \<open>i\<close> gates done and \<open>n\<close> to do.\<close>

lemma gate_loop_words:
  assumes "i + n \<le> 48" "apart idt table"
    and "EDI r = idt + of_nat (4 * (2 * i))" "ESI r = table + of_nat (4 * i)" "\<forall>w. movw w (EDX r) = movw w 0x080000"
    and "\<forall>v < 48. words r (table + of_nat (4 * v)) = T v"
  shows "(\<forall>v. i \<le> v \<longrightarrow> v < i + n \<longrightarrow>
      words (gate_loop n r) (idt + of_nat (4 * (2 * v))) = movw (ucast (T v)) 0x080000
      \<and> words (gate_loop n r) (idt + of_nat (4 * (2 * v + 1))) = movw 0xEE00 (T v))
    \<and> (\<forall>a. (\<forall>k. 2 * i \<le> k \<longrightarrow> k < 2 * (i + n) \<longrightarrow> a \<noteq> idt + of_nat (4 * k)) \<longrightarrow> words (gate_loop n r) a = words r a)"
  using assms
proof (induction n arbitrary: i r)
  case (Suc n)
  let ?r = "gate_step r" and ?a = "\<lambda>k. idt + of_nat (4 * k)"
  note pre = Suc.prems
  have i: "2 * i < 96" "2 * i + 1 < 96" using pre(1) by simp_all
  have T: "words r (ESI r) = T i" using pre(1,4,6) by simp
  have E: "EDI r = ?a (2 * i)" "EDI r + 4 = ?a (2 * i + 1)" using pre(3) by simp_all
  have w: "words ?r = (words r)(?a (2 * i) := movw (ucast (T i)) 0x080000, ?a (2 * i + 1) := movw 0xEE00 (T i))"
    using pre(5) unfolding gate_step_words(1) T unfolding E(2) unfolding E(1) by simp
  have "\<forall>v < 48. words ?r (table + of_nat (4 * v)) = T v"
  proof (intro allI impI)
    fix v :: nat assume v: "v < 48"
    have "table + of_nat (4 * v) \<noteq> ?a (2 * i)" "table + of_nat (4 * v) \<noteq> ?a (2 * i + 1)"
      using pre(2) v i unfolding apart_def by metis+
    then show "words ?r (table + of_nat (4 * v)) = T v" using pre(6) v by (simp add: w)
  qed
  moreover have "EDI ?r = ?a (2 * Suc i)" "ESI ?r = table + of_nat (4 * Suc i)"
    using pre(3,4) by (simp_all add: gate_step_words)
  moreover have "\<forall>w. movw w (EDX ?r) = movw w 0x080000"
    using pre(5) by (simp add: gate_step_words movw_twice)
  ultimately have IH: "(\<forall>v. Suc i \<le> v \<longrightarrow> v < Suc i + n \<longrightarrow>
        words (gate_loop n ?r) (?a (2 * v)) = movw (ucast (T v)) 0x080000
        \<and> words (gate_loop n ?r) (?a (2 * v + 1)) = movw 0xEE00 (T v))"
    and IH2: "\<And>a. (\<forall>k. 2 * Suc i \<le> k \<longrightarrow> k < 2 * (Suc i + n) \<longrightarrow> a \<noteq> ?a k) \<Longrightarrow> words (gate_loop n ?r) a = words ?r a"
    using Suc.IH [of "Suc i" ?r] pre(1,2) by simp_all
  have first: "words (gate_loop n ?r) (?a l) = words ?r (?a l)" if "l < 2 * Suc i" for l
  proof (intro IH2 allI impI)
    fix k assume "2 * Suc i \<le> k" "k < 2 * (Suc i + n)"
    then show "?a l \<noteq> ?a k" using offset_same [of l k idt] that pre(1) by simp
  qed
  have "?a (2 * i) \<noteq> ?a (2 * i + 1)" using pre(1) by (subst offset_same) simp_all
  then have "words (gate_loop n ?r) (?a (2 * i)) = movw (ucast (T i)) 0x080000"
    "words (gate_loop n ?r) (?a (2 * i + 1)) = movw 0xEE00 (T i)"
    using first [of "2 * i"] first [of "2 * i + 1"] by (simp_all add: w del: of_nat_mult)
  then have "words (gate_loop n ?r) (?a (2 * v)) = movw (ucast (T v)) 0x080000
      \<and> words (gate_loop n ?r) (?a (2 * v + 1)) = movw 0xEE00 (T v)" if "i \<le> v" "v < i + Suc n" for v
    using IH that by (cases "v = i") simp_all
  moreover have "words (gate_loop n ?r) a = words r a"
    if a: "\<forall>k. 2 * i \<le> k \<longrightarrow> k < 2 * (i + Suc n) \<longrightarrow> a \<noteq> ?a k" for a
  proof -
    have "words (gate_loop n ?r) a = words ?r a" using a by (intro IH2) auto
    moreover have "a \<noteq> ?a (2 * i)" "a \<noteq> ?a (2 * i + 1)"
      using a [rule_format, of "2 * i"] a [rule_format, of "2 * i + 1"] by simp_all
    ultimately show ?thesis by (simp add: w del: of_nat_mult)
  qed
  ultimately show ?case by simp
qed simp


text \<open>Reading a gate back from the two words.\<close>

lemma gate_halves:
  "(movw (ucast h) s AND 0xFFFF) OR (movw x h AND 0xFFFF0000) = h"
proof (rule bit_word_eqI)
  have low: "(0xFFFF :: 32 word) = mask 16" by (simp add: mask_eq_exp_minus_1)
  fix n assume "n < LENGTH(32)"
  then show "bit ((movw (ucast h) s AND 0xFFFF) OR (movw x h AND 0xFFFF0000)) n \<longleftrightarrow> bit h n"
    unfolding low high_half by (auto simp: bit_simps bit_movw not_less)
qed

lemma gate_fields:
  "ucast (drop_bit 16 (movw w 0x080000)) = (0x08 :: 16 word)" "ucast (drop_bit 8 (movw 0xEE00 h)) = (0xEE :: 8 word)"
proof -
  have "bit (0x080000 :: 32 word) k \<longleftrightarrow> k = 19" "bit (0x08 :: 32 word) k \<longleftrightarrow> k = 3" if "k < 32" for k
    using that bit_exp_iff [of 19 k, where ?'a = "32 word"] bit_exp_iff [of 3 k, where ?'a = "32 word"] by simp_all
  then have "drop_bit 16 (movw w 0x080000) = 0x08"
    by (intro bit_word_eqI) (auto simp: bit_simps bit_movw)
  then show "ucast (drop_bit 16 (movw w 0x080000)) = (0x08 :: 16 word)" by simp
  have e: "bit (0xEE00 :: int) (8 + n) \<longleftrightarrow> bit (0xEE :: int) n" if "n < 8" for n
  proof -
    have "n \<in> {0, 1, 2, 3, 4, 5, 6, 7}" using that by auto
    then show ?thesis by (elim insertE) simp_all
  qed
  show "ucast (drop_bit 8 (movw 0xEE00 h)) = (0xEE :: 8 word)"
    by (rule bit_word_eqI) (simp add: bit_simps bit_movw, erule e)
qed

section \<open>Properties\<close>

text \<open>C30: the timer interrupt reaches its handler.  After the loop the gate of every vector below
  48 leads through the code segment 8 to the address in \<^verbatim>\<open>idt_table\<close> and is a present
  interrupt gate, no other word of memory has changed, and the vector that \<^verbatim>\<open>init_pic\<close> gives to
  the first interrupt line is the one whose handler is \<^verbatim>\<open>timer\<close>.  The gates of all other
  vectors are present as well and lead to address 0.\<close>

theorem timer_gate:
  assumes "apart idt table" "\<forall>v < 48. m (table + of_nat (4 * v)) = idt_table timer ! v"
  shows "(\<forall>v < 48. gate_offset (load_idt eax idt table m) idt v = (if v = 32 then timer else 0)
        \<and> gate_selector (load_idt eax idt table m) idt v = 0x08 \<and> gate_access (load_idt eax idt table m) idt v = 0xEE)
    \<and> (\<forall>a. (\<forall>k < 96. a \<noteq> idt + of_nat (4 * k)) \<longrightarrow> load_idt eax idt table m a = m a)
    \<and> (\<exists>b. init_pic [] ! 1 = (b, 0x21) \<and> gate_offset (load_idt eax idt table m) idt (unat b) = timer)"
proof -
  let ?r = "\<lparr>EAX = eax, EDX = 0x080000, EDI = idt, ESI = table, words = m\<rparr>" and ?m = "load_idt eax idt table m"
  note loop = gate_loop_words [of 0 48 idt table ?r "\<lambda>v. idt_table timer ! v"]
  have w: "?m (idt + of_nat (8 * v)) = movw (ucast (idt_table timer ! v)) 0x080000"
    "?m (idt + of_nat (8 * v + 4)) = movw 0xEE00 (idt_table timer ! v)" if "v < 48" for v
  proof -
    have e: "8 * v = 4 * (2 * v)" "8 * v + 4 = 4 * (2 * v + 1)" by simp_all
    have "words (gate_loop 48 ?r) (idt + of_nat (4 * (2 * v))) = movw (ucast (idt_table timer ! v)) 0x080000
      \<and> words (gate_loop 48 ?r) (idt + of_nat (4 * (2 * v + 1))) = movw 0xEE00 (idt_table timer ! v)"
      using loop assms that by simp
    then show "?m (idt + of_nat (8 * v)) = movw (ucast (idt_table timer ! v)) 0x080000"
      "?m (idt + of_nat (8 * v + 4)) = movw 0xEE00 (idt_table timer ! v)"
      unfolding load_idt_def e(2) unfolding e(1) by blast+
  qed
  have frame: "?m a = m a" if "\<forall>k < 96. a \<noteq> idt + of_nat (4 * k)" for a
    using loop assms that by (simp add: load_idt_def)
  have T: "idt_table timer ! v = (if v = 32 then timer else 0)" if "v < 48" for v
    using that by (auto simp: idt_table_def nth_append nth_Cons')
  have g: "gate_offset ?m idt v = (if v = 32 then timer else 0) \<and> gate_selector ?m idt v = 0x08
      \<and> gate_access ?m idt v = 0xEE" if "v < 48" for v
    unfolding gate_offset_def gate_selector_def gate_access_def w [OF that] gate_halves T [OF that]
    by (simp add: gate_fields)
  moreover have "init_pic [] ! 1 = (0x20, 0x21)" by (simp add: init_pic_def outb_def)
  moreover have "gate_offset ?m idt (unat (0x20 :: 8 word)) = timer" using g [of 32] by simp
  ultimately show ?thesis using frame by blast
qed

definition sample_boot_mem :: "32 word \<Rightarrow> 32 word" where
  "sample_boot_mem a = (if a = 0x103098 then 0x100080 else 0)"

lemma sample_apart: "apart 0x105000 0x103018"
proof -
  have "(0x105000 :: 32 word) + of_nat (4 * k) \<noteq> 0x103018 + of_nat (4 * v)" if "k < 96" "v < 48" for k v
  proof
    assume "(0x105000 :: 32 word) + of_nat (4 * k) = 0x103018 + of_nat (4 * v)"
    then have "unat ((0x105000 :: 32 word) + of_nat (4 * k)) = unat ((0x103018 :: 32 word) + of_nat (4 * v))"
      by (rule arg_cong)
    moreover have "unat ((0x105000 :: 32 word) + of_nat (4 * k)) = 0x105000 + 4 * k"
      "unat ((0x103018 :: 32 word) + of_nat (4 * v)) = 0x103018 + 4 * v"
      using that by (simp_all add: unat_word_ariths unat_of_nat)
    ultimately show False using that by simp
  qed
  then show ?thesis by (simp add: apart_def)
qed

lemma sample_boot_table: "v < 48 \<Longrightarrow> sample_boot_mem (0x103018 + of_nat (4 * v)) = idt_table 0x100080 ! v"
proof -
  assume v: "v < 48"
  have "(0x103018 :: 32 word) + of_nat (4 * v) = 0x103018 + of_nat (4 * 32) \<longleftrightarrow> v = 32"
    using v by (subst offset_same) simp_all
  then show ?thesis using v by (auto simp: sample_boot_mem_def idt_table_def nth_append nth_Cons')
qed

theorem timer_gate_witness:
  "gate_offset (load_idt 0 0x105000 0x103018 sample_boot_mem) 0x105000 32 = 0x100080
   \<and> gate_offset (load_idt 0 0x105000 0x103018 sample_boot_mem) 0x105000 14 = 0"
  using timer_gate [OF sample_apart, of sample_boot_mem "0x100080" 0] sample_boot_table by auto

section \<open>The timer interrupt\<close>

text \<open>The handler acknowledges the interrupt to the controller and calls \<^verbatim>\<open>stash\<close>.\<close>

definition timer_handler :: "machine \<Rightarrow> 32 word \<Rightarrow> (control \<times> machine) option" where
  "timer_handler k e = yield_thread (k\<lparr>ports := outb 0x20 0x20 (ports k)\<rparr>) e"

lemma timer_handler_keeps:
  assumes "buffer_at base" "kernel_inv base k" "timer_handler k e = Some (a, k')"
  shows "kernel_inv base k' \<and> ports k' = ports k @ [(0x20, 0x20)]"
proof -
  let ?k = "k\<lparr>ports := outb 0x20 0x20 (ports k)\<rparr>"
  have y: "yield_thread ?k e = Some (a, k')" using assms(3) by (simp add: timer_handler_def)
  have "kernel_inv base ?k" using assms(2) by (simp add: kernel_inv_def)
  then have "kernel_inv base k'" using kernel_step_inv kernel_step.yields [OF y] assms(1) by blast
  moreover have "ports k' = ports ?k" using y by (auto simp: yield_thread_def bind_eq_Some_conv)
  ultimately show ?thesis by (simp add: outb_def)
qed
end
