(* ===== verification/Spec2Isabelle.thy ===== *)
theory Spec2Isabelle
  imports UnlinkLoss Stale Proto_Tests User_Tests Fifos_Race Fifos_Boot
begin

text \<open>
  A verification development for \<^verbatim>\<open>File-System-toyOS\<close>: a RAM disk file system with index
  nodes, run as a Linux kernel module behind \<^verbatim>\<open>ioctl\<close> (\<^verbatim>\<open>Jiaqian-Ramdisk-Final\<close>), the user
  space prototype it was made from (\<^verbatim>\<open>Ramdisk/userspace\<close>), and the small FIFOS kernel with
  threads that the project started from (\<^verbatim>\<open>FileSystem-v3\<close>).

  \<^bold>\<open>Conventions\<close> (\<open>Prelude\<close>).  A C function that can run into undefined behaviour returns an
  option: \<^term>\<open>None\<close> is a read or write outside an object, a dereference of \<^verbatim>\<open>NULL\<close>, or a
  loop that never ends (\<^theory_text>\<open>partial_function\<close>); \<^verbatim>\<open>-1\<close> is an ordinary result.  Unsigned integers
  are words of 32 or 64 bits that wrap, \<^verbatim>\<open>int\<close> is \<^typ>\<open>int\<close>, a \<^verbatim>\<open>char*\<close> is the list of the
  bytes of its buffer.  A loop is a function of its index and the iterations left.  The
  search loops share the interface \<open>linear_search\<close> / \<open>bounded_search\<close>, interpreted where
  a loop is defined.

  \<^bold>\<open>The RAM disk: code.\<close>
  \<^item> \<open>Disk\<close>: \<^verbatim>\<open>filesys_struct\<close> and \<^verbatim>\<open>inode_struct\<close> of \<^verbatim>\<open>discos.h\<close>.  The data blocks are one
    array of bytes, read as data, as 16-byte directory entries or as 4-byte block pointers, as
    the C union is; a block pointer is an address, relative to where the partition lies.
  \<^item> \<open>Bitmap\<close>: \<^verbatim>\<open>get_free_block_num_from_bitmap\<close>, \<^verbatim>\<open>set_bitmap\<close>, \<^verbatim>\<open>clear_bitmap\<close>,
    \<^verbatim>\<open>allocate_data_block\<close>.
  \<^item> \<open>Paths\<close>, \<open>Lookup\<close>: the copies of a path that the code makes (\<open>copy_path\<close>, \<open>split_path\<close>),
    \<^verbatim>\<open>parse_absolute_path\<close>, \<^verbatim>\<open>my_find_inode_number\<close>, \<^verbatim>\<open>find_entry_in_current_dir\<close>.
  \<^item> \<open>Create\<close>: index node allocation, \<^verbatim>\<open>get_next_entry\<close>, \<^verbatim>\<open>rd_create\<close>, \<^verbatim>\<open>rd_mkdir\<close>,
    \<^verbatim>\<open>init_file_sys\<close>.
  \<^item> \<open>Unlink\<close>: \<^verbatim>\<open>my_clear_inode\<close>, \<^verbatim>\<open>clear_entry_in_current_dir\<close>, \<^verbatim>\<open>rd_unlink\<close>, \<^verbatim>\<open>rd_chmod\<close>.
  \<^item> \<open>FileTable\<close>: the descriptor tables, \<^verbatim>\<open>rd_open\<close>, \<^verbatim>\<open>rd_close\<close>, \<^verbatim>\<open>rd_lseek\<close>; \<open>kernel\<close> is the
    global state of the module.
  \<^item> \<open>ReadWrite\<close>: \<^verbatim>\<open>rd_write\<close> and \<^verbatim>\<open>rd_read\<close> with their direct, single and double indirect stages.
  \<^item> \<open>Ioctl\<close>: \<^verbatim>\<open>discos_ioctl\<close> of \<^verbatim>\<open>discosModule.c\<close> and the wrappers of
    \<^verbatim>\<open>userspace_interface.c\<close>.
  \<^item> \<open>Proto_Disk\<close>, \<open>Proto_IO\<close>, \<open>Proto\<close>: the prototype, translated on its own with the loop
    combinators \<open>for_loop\<close>, \<open>after\<close> and \<open>nest\<close>, since its text mirrors that of the module but is
    not the same; the collection \<open>proto_helpers\<close> holds the equations that reduce its helpers to those of
    the module.
  \<^item> \<open>Scenario\<close>, \<open>Proto_Tests\<close>, \<open>User_Tests\<close>: the two test programs, \<^verbatim>\<open>main\<close> of the
    prototype and \<^verbatim>\<open>main\<close> of \<^verbatim>\<open>userspace/test_file.c\<close>.

  \<^bold>\<open>The RAM disk: what is proved.\<close>
  \<^item> \<open>Layout\<close> and \<open>BlockInv\<close> say which block belongs to which index node, and the invariant
    of the partition \<open>fs_ok\<close>: no block has two owners, every owned block is marked in the
    bitmap, the counters never promise too much, names end in their entries.  \<open>Sample\<close> has the small
    partition on which properties are instantiated.
  \<^item> \<open>WriteInv\<close>: \<^verbatim>\<open>rd_write\<close> returns, keeps the invariant, and touches nothing of another file;
    \<open>ReadInv\<close>: \<^verbatim>\<open>rd_read\<close> returns.
  \<^item> \<open>Contents\<close>, \<open>WriteContent\<close>, \<open>ReadContent\<close>, \<open>RoundTrip\<close>: the bytes of a file are a
    function of its block map, a write into an empty file stores the data there, a read
    fetches them.  \<open>storable\<close> asks for as many free blocks as the data need and 66 more, one
    single indirect, one double indirect and at most 64 index blocks below it, and for no more
    bytes than \<^verbatim>\<open>read_buffer\<close> has (1 MB); NUL bytes are excluded because the code drops them.
    \<open>Append\<close>: a file grows block by block up to its largest size (\<open>at_end\<close>, \<open>room_for\<close>), and the
    positions from which \<^verbatim>\<open>rd_write\<close> loses data; \<open>Stale\<close>: rewriting a file makes \<^verbatim>\<open>rd_read\<close> hand
    out bytes of another.
  \<^item> \<open>Dir\<close> and \<open>Namespace\<close>: a directory as a list of entries and the abstract file system,
    a map from directories and names to index nodes.  \<open>CreateInv\<close>, \<open>CreateSpec\<close>,
    \<open>CreateProps\<close>: lookup, \<^verbatim>\<open>rd_create\<close> and \<^verbatim>\<open>rd_mkdir\<close> keep the invariant and refine this map.
    \<open>ClearInv\<close>, \<open>UnlinkInv\<close>, \<open>UnlinkProps\<close>, \<open>UnlinkExact\<close>, \<open>UnlinkRefines\<close>: \<^verbatim>\<open>rd_unlink\<close> keeps
    the invariant, frees exactly the blocks of the file, and refines the map when no later
    direct block holds a single entry; \<open>UnlinkLoss\<close> proves that another file is lost when one does.
    \<open>Fill\<close> and \<open>Drain\<close> follow a directory as a table of entries (\<open>catalog\<close>) through its direct and
    single indirect blocks: \<^verbatim>\<open>rd_create\<close> takes the next entry, \<^verbatim>\<open>rd_unlink\<close> clears exactly one.
  \<^item> \<open>Proto\<close>: both versions agree on ordinary paths.  \<open>Proto_Tests\<close>, \<open>User_Tests\<close>: both test
    programs run to their end, through 1023 files, a file of 1067008 bytes and three
    directories, the second one through the user library and \<^verbatim>\<open>ioctl\<close>.
  \<^item> \<open>KernelInv\<close>: the invariant \<open>kernel_ok\<close> of the whole module holds in every state that
    calls of \<^verbatim>\<open>discos_ioctl\<close> reach from the initialisation (\<open>reached\<close>), and each such call
    returns.  A call has to respect the interface (\<open>call_ok\<close>): 32-bit descriptors, paths whose
    inner components are directories, of at most 13 characters where the \<^verbatim>\<open>ioctl\<close> copies them,
    positive sizes of reads within the read buffer, data as long as the request says, and
    memory as the call needs it (\<open>memory_ok\<close>).

  \<^bold>\<open>FIFOS.\<close>
  \<^item> \<open>Fifos_Queue\<close> (\<^verbatim>\<open>queue.c\<close>): the ring buffer, which implements the interface
    \<open>bounded_queue\<close>.
  \<^item> \<open>Fifos_Thread\<close> (\<^verbatim>\<open>thread.c\<close>, \<^verbatim>\<open>context.s\<close>): the operations of the thread pool and the
    scheduler; their invariant rests on \<open>bounded_queue\<close>.  \<open>Fifos_Race\<close>: the system as step
    relations in which \<^verbatim>\<open>finish\<close> and the \<^verbatim>\<open>schedule\<close> it ends in are cut into their statements.
    \<open>calm_step\<close> has timer interrupts in the code of threads only, and loses no thread;
    \<open>race_step\<close> has them also inside \<^verbatim>\<open>finish\<close>, and there are two ways in which they lose one.
  \<^item> \<open>Fifos_Heap\<close> (\<^verbatim>\<open>heap.c\<close>): \<^verbatim>\<open>malloc\<close> and \<^verbatim>\<open>free\<close> down to the words of the boundary
    tags, refined to a list of blocks.  The search loop is a \<^theory_text>\<open>partial_function\<close> and proved to
    end on every represented heap.  The locale \<open>allocator\<close> is what the kernel relies on.
  \<^item> \<open>Fifos_Screen\<close> (\<^verbatim>\<open>print.c\<close>): text on the video memory, refined to a sheet of rows.
  \<^item> \<open>Fifos_Memory\<close> (\<^verbatim>\<open>memos.c\<close>): the walk over the memory map of the boot loader.
  \<^item> \<open>Fifos_Kernel\<close> (\<^verbatim>\<open>init.c\<close>, \<^verbatim>\<open>interrupt.c\<close>, and \<^verbatim>\<open>thread.c\<close> again): threads with stacks
    from the allocator, the ports, the start-up.
  \<^item> \<open>Fifos_Boot\<close> (\<^verbatim>\<open>boot.s\<close>): the loop that builds the interrupt descriptor table, word by word,
    and the timer handler.

  \<^bold>\<open>Parameters and hypotheses.\<close>  Memory that is fresh from an allocator or the stack has arbitrary
  contents.  The allocators of the RAM disk (\<^verbatim>\<open>vmalloc\<close>, \<^verbatim>\<open>kmalloc\<close>, \<^verbatim>\<open>malloc\<close>) are a parameter:
  a function from the use and the size of a request to \<^verbatim>\<open>NULL\<close> or an object, which may be longer
  than was asked for and holds anything.  Nothing is assumed of it in the operations: a store
  behind an object, the \<^verbatim>\<open>strlen\<close> of an object without a NUL and the use of \<^verbatim>\<open>NULL\<close> are undefined.
  The code asks for one byte less than a path needs and leaves parts of its copies without a
  terminator, so that it works with some objects only.  \<open>serves\<close>, and \<open>proto_serves\<close>,
  \<open>memory_ok\<close>, \<open>test_memory\<close>, \<open>test_malloc\<close> made from it, say which; they are conditions on the
  memory that a call happens to get, not claims about an allocator, and a property that needs
  one says so.  A run of a test program uses one such function throughout; each of the calls of
  \<open>reached\<close> has its own.  \<^verbatim>\<open>copy_from_user\<close>, \<^verbatim>\<open>strnlen_user\<close> and
  the like are functions in the same record (\<open>kernel_api\<close>), whose documented behaviour is
  \<open>api_ok\<close>.  The FIFOS kernel
  needs the addresses of the linker (\<open>buffer_at\<close>) and a consistent memory map (\<open>describes\<close>).
  Every such property has a witness at a concrete state.

  \<^bold>\<open>Not modelled.\<close>  Loading and unloading the module, printing to the kernel
  log, and functions that only print or are never called (\<^verbatim>\<open>print_bitmap\<close>, \<^verbatim>\<open>cmd_daemon\<close>); of
  the test programs the messages, the key presses and TEST 6, which is not compiled.  Calls of
  the module are not interleaved: the code takes no locks.  Of FIFOS, the processor's registers except
  the stack pointer, the constant segment descriptors of \<^verbatim>\<open>boot.s\<close>, and an interrupt inside a
  kernel function other than \<^verbatim>\<open>finish\<close>.
\<close>

end
